(* ===== verification/Prelude.thy ===== *)
theory Prelude
  imports Main "HOL-Library.Word"
begin

text \<open>
  Shared vocabulary of the development: byte strings in little-endian order, the 64-bit
  words that the library's chunked loops load from them and store to them, and the
  generic lemmas on lists, powers of two and bits that the component theories use.
  The collection \<open>le_simps\<close> holds the equations that evaluate and normalise byte-string
  values; the component proofs add it to the simplifier.
\<close>

unbundle bit_operations_syntax

named_theorems le_simps \<open>values of little-endian byte strings\<close>

type_synonym byte = "8 word"
type_synonym bytes = "8 word list"
type_synonym u32 = "32 word"
type_synonym u64 = "64 word"

section \<open>Little-endian byte strings\<close>

text \<open>The number a byte string stands for, first byte least significant.\<close>

primrec le_val :: "bytes \<Rightarrow> nat" where
  "le_val [] = 0"
| "le_val (b # bs) = unat b + 256 * le_val bs"

text \<open>The first \<open>n\<close> bytes of a number.\<close>

primrec le_bytes :: "nat \<Rightarrow> nat \<Rightarrow> bytes" where
  "le_bytes 0 x = []"
| "le_bytes (Suc n) x = of_nat x # le_bytes n (x div 256)"

text \<open>
  \<open>std::memcpy(&w, p, 8)\<close> on a little-endian machine: eight bytes as a 64-bit word. Given
  fewer than eight bytes it reads those into a zeroed word, which is what the code does
  with a shorter copy.
\<close>

definition load64 :: "bytes \<Rightarrow> u64" where
  "load64 bs = of_nat (le_val (take 8 bs))"

definition store64 :: "u64 \<Rightarrow> bytes" where
  "store64 w = le_bytes 8 (unat w)"

lemma length_le_bytes [simp, le_simps]: "length (le_bytes n x) = n"
  by (induction n arbitrary: x) auto

lemma length_store64 [simp, le_simps]: "length (store64 w) = 8"
  by (simp add: store64_def)

lemma unat_byte_lt: "unat (b :: byte) < 256"
  using unsigned_less [of b, where 'a = nat] by simp

lemma nat_chunk_mod: "x < M \<Longrightarrow> x + M * (y mod N) = (x + M * y) mod (M * N :: nat)"
  by (subst mod_mult2_eq) simp

lemma le_val_lt: "le_val bs < 256 ^ length bs"
proof (induction bs)
  case (Cons b bs)
  have "unat b + 256 * le_val bs < 256 + 256 * le_val bs"
    using unat_byte_lt [of b] by linarith
  also have "\<dots> = 256 * Suc (le_val bs)"
    by simp
  also have "\<dots> \<le> 256 * 256 ^ length bs"
    using Cons by (intro mult_le_mono2) simp
  finally show ?case by simp
qed simp

lemma le_val_append [le_simps]: "le_val (xs @ ys) = le_val xs + 256 ^ length xs * le_val ys"
  by (induction xs) (auto simp: algebra_simps)

lemma le_val_replicate_0 [simp, le_simps]: "le_val (replicate n 0) = 0"
  by (induction n) auto

lemma le_val_le_bytes [simp, le_simps]: "le_val (le_bytes n x) = x mod 256 ^ n"
proof (induction n arbitrary: x)
  case (Suc n)
  have "le_val (le_bytes (Suc n) x) = x mod 256 + 256 * (x div 256 mod 256 ^ n)"
    by (simp add: Suc unat_of_nat)
  also have "\<dots> = x mod (256 * 256 ^ n)"
    by (metis add.commute mod_mult2_eq)
  finally show ?case by simp
qed simp

lemma le_bytes_le_val [simp]: "le_bytes (length bs) (le_val bs) = bs"
proof (induction bs)
  case (Cons b bs)
  have "(unat b + 256 * le_val bs) div 256 = le_val bs"
    using unat_byte_lt [of b] by simp
  moreover have "(of_nat (unat b + 256 * le_val bs) :: byte) = b"
    by (rule word_unat_eq_iff [THEN iffD2]) (simp only: unat_of_nat, use unat_byte_lt [of b] in simp)
  ultimately show ?case using Cons by simp
qed simp

lemma le_val_inj: "length xs = length ys \<Longrightarrow> le_val xs = le_val ys \<longleftrightarrow> xs = ys"
  by (metis le_bytes_le_val)

lemma le_bytes_mod [simp]: "le_bytes n (x mod 256 ^ n) = le_bytes n x"
  by (rule le_val_inj [THEN iffD1]) simp_all

lemma le_val_store64 [simp, le_simps]: "le_val (store64 w) = unat w"
proof -
  have "unat w < 256 ^ 8"
    using unsigned_less [of w, where 'a = nat] by simp
  then show ?thesis
    by (simp add: store64_def)
qed

lemma unat_load64: "unat (load64 bs) = le_val (take 8 bs)"
proof -
  have "le_val (take 8 bs) < 256 ^ length (take 8 bs)"
    by (rule le_val_lt)
  also have "\<dots> \<le> 256 ^ 8"
    by (rule power_increasing) simp_all
  finally show ?thesis
    by (simp add: load64_def unat_of_nat)
qed

lemma store64_load64: "8 \<le> length bs \<Longrightarrow> store64 (load64 bs) = take 8 bs"
  by (rule le_val_inj [THEN iffD1]) (simp_all add: unat_load64)

lemma le_val_take_drop: "le_val bs = le_val (take n bs) + 256 ^ min n (length bs) * le_val (drop n bs)"
  by (metis append_take_drop_id le_val_append length_take min.commute)

lemma le_val_take: "le_val (take n bs) = le_val bs mod 256 ^ n"
proof (cases "n \<le> length bs")
  case True
  have "le_val (take n bs) < 256 ^ n"
    using le_val_lt [of "take n bs"] True by (simp add: min_absorb2)
  then show ?thesis
    using le_val_take_drop [of bs n] True by (simp add: min_absorb1)
next
  case False
  then have "256 ^ length bs \<le> (256 :: nat) ^ n"
    by (intro power_increasing) auto
  then have "le_val bs < 256 ^ n"
    using le_val_lt [of bs] by linarith
  then show ?thesis
    using False by simp
qed

lemma le_val_drop: "le_val (drop n bs) = le_val bs div 256 ^ n"
proof (cases "n \<le> length bs")
  case True
  have "le_val (take n bs) < 256 ^ n"
    using le_val_lt [of "take n bs"] True by (simp add: min_absorb2)
  then show ?thesis
    using le_val_take_drop [of bs n] True by (simp add: min_absorb1)
next
  case False
  then have "256 ^ length bs \<le> (256 :: nat) ^ n"
    by (intro power_increasing) auto
  then have "le_val bs < 256 ^ n"
    using le_val_lt [of bs] by linarith
  then show ?thesis
    using False by simp
qed

lemma pow256: "(256 :: nat) ^ n = 2 ^ (8 * n)"
  by (simp add: power_mult)

lemma bit_le_val: "bit (le_val bs) n \<longleftrightarrow> n div 8 < length bs \<and> bit (bs ! (n div 8)) (n mod 8)"
proof (induction bs arbitrary: n)
  case (Cons b bs)
  have *: "unat b + 256 * le_val bs = or (unat b) (push_bit 8 (le_val bs))"
  proof -
    have "take_bit 8 (unat b) = unat b"
      by (rule take_bit_nat_eq_self) (use unat_byte_lt [of b] in simp)
    then have "and (unat b) (push_bit 8 (le_val bs)) = 0"
      by (intro bit_eqI) (metis bit_and_iff bit_push_bit_iff_nat bit_take_bit_iff bit_0_eq bot_apply bot_bool_def not_le)
    then have "unat b + push_bit 8 (le_val bs) = or (unat b) (push_bit 8 (le_val bs))"
      by (rule disjunctive_add_eq_or)
    then show ?thesis by (simp add: push_bit_eq_mult mult.commute)
  qed
  show ?case
  proof (cases "n < 8")
    case True
    then show ?thesis
      by (simp only: le_val.simps * bit_or_iff bit_push_bit_iff_nat) (simp add: bit_unsigned_iff)
  next
    case False
    then obtain m where m: "n = m + 8"
      by (metis add.commute le_add_diff_inverse not_le)
    have "\<not> bit (unat b) (m + 8)"
      by (auto simp: bit_unsigned_iff dest: bit_imp_le_length)
    moreover have "(m + 8) div 8 = Suc (m div 8)" and "(m + 8) mod 8 = m mod 8"
      by simp_all
    ultimately show ?thesis
      using Cons [of m] by (simp only: m le_val.simps * bit_or_iff bit_push_bit_iff_nat) simp
  qed
qed simp

lemma bit_byte_bound: "bit (b :: byte) n \<Longrightarrow> n < 8"
  by (auto dest: bit_imp_le_length)

lemma bit_u64_bound: "bit (w :: u64) n \<Longrightarrow> n < 64"
  by (auto dest: bit_imp_le_length)

lemma bit_store64:
  assumes "n < 64"
  shows "bit (store64 w ! (n div 8)) (n mod 8) = bit w n"
proof -
  have "bit (le_val (store64 w)) n = bit w n"
    by (simp add: bit_unsigned_iff)
  then show ?thesis
    using assms less_mult_imp_div_less [of n 8 8] unfolding bit_le_val by simp
qed

lemma bit_load64:
  "bit (load64 bs) n \<longleftrightarrow> n < 64 \<and> n div 8 < length bs \<and> bit (bs ! (n div 8)) (n mod 8)"
proof -
  have "bit (load64 bs) n = bit (le_val (take 8 bs)) n"
    by (simp add: bit_unsigned_iff flip: unat_load64)
  also have "\<dots> \<longleftrightarrow> n < 64 \<and> n div 8 < length bs \<and> bit (bs ! (n div 8)) (n mod 8)"
    by (auto simp: bit_le_val)
  finally show ?thesis .
qed

lemma bit_load64_val: "bit (load64 bs) n \<longleftrightarrow> n < 64 \<and> bit (le_val bs) n"
  by (auto simp: bit_load64 bit_le_val)

lemma bit_le_val_bound: "bit (le_val bs) n \<Longrightarrow> n < 8 * length bs"
  by (auto simp: bit_le_val)

lemma byte_in_word:
  "(n :: nat) div 8 div 8 = n div 64" "n div 8 mod 8 = n mod 64 div 8" "n mod 64 mod 8 = n mod 8"
proof -
  show "n div 8 div 8 = n div 64"
    using div_mult2_eq [of n 8 8] by simp
  have "n mod 64 = 8 * (n div 8 mod 8) + n mod 8"
    using mod_mult2_eq [of n 8 8] by simp
  then show "n div 8 mod 8 = n mod 64 div 8" and "n mod 64 mod 8 = n mod 8"
    by simp_all
qed

lemma pow256_split8:
  assumes "8 \<le> n"
  shows "(256 :: nat) ^ n = 2 ^ 64 * 256 ^ (n - 8)"
proof -
  have "(256 :: nat) ^ n = 256 ^ (8 + (n - 8))"
    using assms by simp
  then show ?thesis
    by (simp only: power_add) simp
qed

lemma byte_list_eqI:
  assumes "length xs = length ys"
    and "\<And>n. n < 8 * length xs \<Longrightarrow> bit (xs ! (n div 8)) (n mod 8) = bit (ys ! (n div 8)) (n mod 8)"
  shows "xs = (ys :: bytes)"
proof -
  have "le_val xs = le_val ys"
  proof (rule bit_eqI)
    fix n
    show "bit (le_val xs) n = bit (le_val ys) n"
      using assms(1) assms(2) [of n] by (auto simp: bit_le_val)
  qed
  then show ?thesis
    using assms(1) le_val_inj by blast
qed

text \<open>Masking keeps the remainder by a power of two.\<close>

lemma unat_and_mask: "unat ((w :: 'a :: len word) AND mask m) = unat w mod 2 ^ m"
  by (rule bit_eqI) (auto simp: bit_unsigned_iff bit_and_iff bit_mask_iff bit_take_bit_iff take_bit_eq_mod [symmetric] dest: bit_imp_le_length)

end
