(* ===== verification/Bitops.thy ===== *)
theory Bitops
  imports Prelude
begin

text \<open>
  \<^verbatim>\<open>include/cpphdl_bitops.h\<close>: the arithmetic that every C++HDL value type inherits.
  A value is its raw storage, a byte string (\<open>raw_bytes\<close>); the size of the storage is the
  length of the list (\<open>bitops_value_size\<close>). Each operator is a loop over 64-bit chunks
  followed by a loop over the remaining bytes, as in the header, and the theorems say what
  the operators compute on the numbers that the byte strings stand for.
\<close>

unbundle bit_operations_syntax

section \<open>Chunked loops\<close>

text \<open>
  \<open>apply_binary\<close>: whole chunks by \<open>op\<close> on 64-bit words; each remaining byte is widened
  to 64 bits by the call and truncated by the store.
\<close>

function apply_binary :: "(u64 \<Rightarrow> u64 \<Rightarrow> u64) \<Rightarrow> bytes \<Rightarrow> bytes \<Rightarrow> bytes" where
  "apply_binary f as bs =
     (if 8 \<le> length as
      then store64 (f (load64 as) (load64 bs)) @ apply_binary f (drop 8 as) (drop 8 bs)
      else map2 (\<lambda>a b. ucast (f (ucast a) (ucast b))) as bs)"
  by pat_completeness auto
termination
  by (relation "measure (\<lambda>(f, as, bs). length as)") auto

definition apply_and :: "bytes \<Rightarrow> bytes \<Rightarrow> bytes" where
  "apply_and = apply_binary (AND)"

definition apply_or :: "bytes \<Rightarrow> bytes \<Rightarrow> bytes" where
  "apply_or = apply_binary (OR)"

definition apply_xor :: "bytes \<Rightarrow> bytes \<Rightarrow> bytes" where
  "apply_xor = apply_binary (XOR)"

text \<open>\<open>operator~\<close>: byte by byte, no masking of the padding.\<close>

definition bitops_not :: "bytes \<Rightarrow> bytes" where
  "bitops_not as = map NOT as"

text \<open>
  \<open>operator+\<close>: the carry out of a chunk is \<open>(sum < a) || (carry && sum == a)\<close>; the
  byte loop adds in 16 bits (\<open>uint16_t\<close>; the carry is at most 1).
\<close>

fun add_bytes :: "nat \<Rightarrow> bytes \<Rightarrow> bytes \<Rightarrow> bytes" where
  "add_bytes carry (a # as) (b # bs) =
     (let sum = (of_nat (unat a + unat b + carry) :: 16 word)
      in ucast sum # add_bytes (unat (drop_bit 8 sum)) as bs)"
| "add_bytes carry _ _ = []"

function add_chunks :: "u64 \<Rightarrow> bytes \<Rightarrow> bytes \<Rightarrow> bytes" where
  "add_chunks carry as bs =
     (if 8 \<le> length as
      then let a = load64 as; b = load64 bs; sum = a + b + carry;
               carry' = (if sum < a \<or> (carry \<noteq> 0 \<and> sum = a) then 1 else 0)
           in store64 sum @ add_chunks carry' (drop 8 as) (drop 8 bs)
      else add_bytes (unat carry) as bs)"
  by pat_completeness auto
termination
  by (relation "measure (\<lambda>(carry, as, bs). length as)") auto

definition bitops_add :: "bytes \<Rightarrow> bytes \<Rightarrow> bytes" where
  "bitops_add as bs = add_chunks 0 as bs"

text \<open>
  \<open>operator-\<close>: the borrow out of a chunk is \<open>a < b + borrow\<close>, where \<open>b + borrow\<close>
  wraps; the byte loop subtracts in 16 signed bits and borrows when the result is negative.
\<close>

fun sub_bytes :: "u64 \<Rightarrow> bytes \<Rightarrow> bytes \<Rightarrow> bytes" where
  "sub_bytes borrow (a # as) (b # bs) =
     (let diff = (ucast (ucast a - ucast b - borrow :: u64) :: 16 word)
      in ucast diff # sub_bytes (if sint diff < 0 then 1 else 0) as bs)"
| "sub_bytes borrow _ _ = []"

function sub_chunks :: "u64 \<Rightarrow> bytes \<Rightarrow> bytes \<Rightarrow> bytes" where
  "sub_chunks borrow as bs =
     (if 8 \<le> length as
      then let a = load64 as; b = load64 bs; diff = a - b - borrow;
               borrow' = (if a < b + borrow then 1 else 0)
           in store64 diff @ sub_chunks borrow' (drop 8 as) (drop 8 bs)
      else sub_bytes borrow as bs)"
  by pat_completeness auto
termination
  by (relation "measure (\<lambda>(borrow, as, bs). length as)") auto

definition bitops_sub :: "bytes \<Rightarrow> bytes \<Rightarrow> bytes" where
  "bitops_sub as bs = sub_chunks 0 as bs"

text \<open>The source word \<open>i\<close> of a shift: a whole word, the short last word, or zero.\<close>

definition src_word :: "bytes \<Rightarrow> nat \<Rightarrow> u64" where
  "src_word as i =
     (let word_count = length as div 8; remainder = length as mod 8
      in if i < word_count then load64 (drop (i * 8) as)
         else if i = word_count \<and> remainder \<noteq> 0
              then load64 (take remainder (drop (word_count * 8) as))
              else 0)"

text \<open>The bytes that the store of result word \<open>i\<close> writes.\<close>

definition put_word :: "nat \<Rightarrow> nat \<Rightarrow> u64 \<Rightarrow> bytes" where
  "put_word sz i w =
     (let word_count = sz div 8; remainder = sz mod 8
      in if i < word_count then store64 w
         else if i = word_count \<and> remainder \<noteq> 0 then take remainder (store64 w)
              else [])"

definition total_words :: "nat \<Rightarrow> nat" where
  "total_words sz = sz div 8 + (if sz mod 8 \<noteq> 0 then 1 else 0)"

text \<open>One iteration of the loop of \<open>operator<<\<close>: the value of result word \<open>i\<close>.\<close>

definition shl_word :: "bytes \<Rightarrow> nat \<Rightarrow> nat \<Rightarrow> u64" where
  "shl_word as shift i =
     (let word_shift = shift div 64; bit_shift = shift mod 64;
          cur = (if word_shift \<le> i then src_word as (i - word_shift) else 0);
          prev = (if bit_shift \<noteq> 0 \<and> word_shift < i then src_word as (i - word_shift - 1) else 0)
      in if bit_shift \<noteq> 0 then push_bit bit_shift cur OR drop_bit (64 - bit_shift) prev
         else push_bit bit_shift cur)"

definition bitops_shl :: "bytes \<Rightarrow> nat \<Rightarrow> bytes" where
  "bitops_shl as shift =
     (if length as * 8 \<le> shift then replicate (length as) 0
      else concat (map (\<lambda>i. put_word (length as) i (shl_word as shift i)) [0..<total_words (length as)]))"

definition shr_word :: "bytes \<Rightarrow> nat \<Rightarrow> nat \<Rightarrow> u64" where
  "shr_word as shift i =
     (let word_shift = shift div 64; bit_shift = shift mod 64;
          cur = src_word as (i + word_shift);
          next_word = (if bit_shift \<noteq> 0 then src_word as (i + word_shift + 1) else 0)
      in if bit_shift \<noteq> 0 then drop_bit bit_shift cur OR push_bit (64 - bit_shift) next_word
         else drop_bit bit_shift cur)"

definition bitops_shr :: "bytes \<Rightarrow> nat \<Rightarrow> bytes" where
  "bitops_shr as shift =
     (if length as * 8 \<le> shift then replicate (length as) 0
      else concat (map (\<lambda>i. put_word (length as) i (shr_word as shift i)) [0..<total_words (length as)]))"

text \<open>
  Comparison: \<open>operator==\<close> is \<open>memcmp\<close>; \<open>operator<\<close> walks the chunks from the top of
  the storage down and then the \<open>size % 8\<close> lowest bytes from the top down.
\<close>

definition bitops_eq :: "bytes \<Rightarrow> bytes \<Rightarrow> bool" where
  "bitops_eq as bs \<longleftrightarrow> as = bs"

text \<open>\<open>operator==\<close> on operands of two types: a common prefix, then zero bytes.\<close>

definition bitops_eq_mixed :: "bytes \<Rightarrow> bytes \<Rightarrow> bool" where
  "bitops_eq_mixed as bs \<longleftrightarrow>
     (let n = min (length as) (length bs)
      in take n as = take n bs \<and> list_all (\<lambda>b. b = 0) (drop n as) \<and> list_all (\<lambda>b. b = 0) (drop n bs))"

fun lt_bytes :: "nat \<Rightarrow> bytes \<Rightarrow> bytes \<Rightarrow> bool" where
  "lt_bytes 0 as bs = False"
| "lt_bytes (Suc i) as bs =
     (if as ! i < bs ! i then True
      else if bs ! i < as ! i then False
      else lt_bytes i as bs)"

function lt_chunks :: "nat \<Rightarrow> bytes \<Rightarrow> bytes \<Rightarrow> bool" where
  "lt_chunks i as bs =
     (if 8 \<le> i
      then let av = load64 (drop (i - 8) as); bv = load64 (drop (i - 8) bs)
           in if av < bv then True
              else if bv < av then False
              else lt_chunks (i - 8) as bs
      else lt_bytes i as bs)"
  by pat_completeness auto
termination
  by (relation "measure (\<lambda>(i, as, bs). i)") auto

definition bitops_lt :: "bytes \<Rightarrow> bytes \<Rightarrow> bool" where
  "bitops_lt as bs = lt_chunks (length as) as bs"

definition bitops_gt :: "bytes \<Rightarrow> bytes \<Rightarrow> bool" where
  "bitops_gt as bs = bitops_lt bs as"

definition bitops_le :: "bytes \<Rightarrow> bytes \<Rightarrow> bool" where
  "bitops_le as bs = (\<not> bitops_lt bs as)"

definition bitops_ge :: "bytes \<Rightarrow> bytes \<Rightarrow> bool" where
  "bitops_ge as bs = (\<not> bitops_lt as bs)"

definition to_ullong :: "bytes \<Rightarrow> u64" where
  "to_ullong as = load64 as"

text \<open>\<open>to_hex\<close>: two digits per byte from the top byte down, leading zero bytes optional.\<close>

definition hex_digit :: "nat \<Rightarrow> char" where
  "hex_digit n = ''0123456789abcdef'' ! n"

fun to_hex_loop :: "bool \<Rightarrow> bytes \<Rightarrow> string \<times> bool" where
  "to_hex_loop started [] = ([], started)"
| "to_hex_loop started (b # bs) =
     (if \<not> started \<and> b = 0 then to_hex_loop started bs
      else let (rest, s) = to_hex_loop True bs
           in (hex_digit (unat (drop_bit 4 b)) # hex_digit (unat (b AND 0x0F)) # rest, s))"

definition to_hex :: "bool \<Rightarrow> bytes \<Rightarrow> string" where
  "to_hex trim as =
     (let (result, started) = to_hex_loop (\<not> trim) (rev as)
      in if \<not> started then ''0'' else result)"

declare apply_binary.simps [simp del] add_chunks.simps [simp del] sub_chunks.simps [simp del]
  lt_chunks.simps [simp del]

section \<open>Bitwise operators\<close>

text \<open>
  A 64-bit operator and a byte operator that act on every bit by the same truth table: the
  chunked loop over the one is the byte-wise map of the other.
\<close>

locale bitwise_operator =
  fixes f :: "u64 \<Rightarrow> u64 \<Rightarrow> u64" and g :: "byte \<Rightarrow> byte \<Rightarrow> byte" and tt :: "bool \<Rightarrow> bool \<Rightarrow> bool"
  assumes bit_f: "n < 64 \<Longrightarrow> bit (f x y) n = tt (bit x n) (bit y n)"
    and bit_g: "n < 8 \<Longrightarrow> bit (g a b) n = tt (bit a n) (bit b n)"
begin

lemma chunk:
  assumes "8 \<le> length as" and "length bs = length as"
  shows "store64 (f (load64 as) (load64 bs)) = map2 g (take 8 as) (take 8 bs)"
proof (rule byte_list_eqI)
  show "length (store64 (f (load64 as) (load64 bs))) = length (map2 g (take 8 as) (take 8 bs))"
    using assms by simp
  fix n assume "n < 8 * length (store64 (f (load64 as) (load64 bs)))"
  then have n: "n < 64" by simp
  then have "n div 8 < 8" by auto
  with n assms show "bit (store64 (f (load64 as) (load64 bs)) ! (n div 8)) (n mod 8) =
      bit (map2 g (take 8 as) (take 8 bs) ! (n div 8)) (n mod 8)"
    by (simp add: bit_store64 bit_f bit_g bit_load64)
qed

lemma tail_byte: "ucast (f (ucast a) (ucast b)) = g a b"
  by (rule bit_word_eqI) (simp add: bit_ucast_iff bit_f bit_g)

lemma apply_binary_map2:
  "length bs = length as \<Longrightarrow> apply_binary f as bs = map2 g as bs"
proof (induction "length as" arbitrary: as bs rule: less_induct)
  case less
  show ?case
  proof (cases "8 \<le> length as")
    case True
    have "apply_binary f as bs = map2 g (take 8 as) (take 8 bs) @ apply_binary f (drop 8 as) (drop 8 bs)"
      using True less.prems by (subst apply_binary.simps) (simp add: chunk)
    also have "apply_binary f (drop 8 as) (drop 8 bs) = map2 g (drop 8 as) (drop 8 bs)"
      using True less.prems by (intro less.hyps) simp_all
    also have "map2 g (take 8 as) (take 8 bs) @ map2 g (drop 8 as) (drop 8 bs) = map2 g as bs"
      by (simp add: take_zip [symmetric] drop_zip [symmetric] map_append [symmetric] del: map_append)
    finally show ?thesis .
  next
    case False
    then show ?thesis
      by (subst apply_binary.simps) (simp add: tail_byte)
  qed
qed

end

interpretation and_operator: bitwise_operator "(AND)" "(AND)" "(\<and>)"
  by unfold_locales (simp_all add: bit_and_iff)

interpretation or_operator: bitwise_operator "(OR)" "(OR)" "(\<or>)"
  by unfold_locales (simp_all add: bit_or_iff)

interpretation xor_operator: bitwise_operator "(XOR)" "(XOR)" "(\<noteq>)"
  by unfold_locales (simp_all add: bit_xor_iff)

lemma length_apply_binary [simp]: "length bs = length as \<Longrightarrow> length (apply_binary f as bs) = length as"
proof (induction "length as" arbitrary: as bs rule: less_induct)
  case less
  then show ?case
    by (subst apply_binary.simps) simp
qed

lemma le_val_map2:
  assumes "length as = length bs"
    and "\<And>a b n. n < 8 \<Longrightarrow> bit (g a b) n = tt (bit a n) (bit b n)" and "\<not> tt False False"
  shows "bit (le_val (map2 g as bs)) n = tt (bit (le_val as) n) (bit (le_val bs) n)"
proof (cases "n div 8 < length bs")
  case True
  then show ?thesis
    using assms(1) by (simp add: bit_le_val assms(2))
next
  case False
  then show ?thesis
    using assms(1,3) by (simp add: bit_le_val)
qed

lemma le_val_and: "length as = length bs \<Longrightarrow> le_val (apply_and as bs) = le_val as AND le_val bs"
  by (rule bit_eqI) (simp add: apply_and_def and_operator.apply_binary_map2 bit_and_iff
    le_val_map2 [where tt = "(\<and>)"])

lemma le_val_or: "length as = length bs \<Longrightarrow> le_val (apply_or as bs) = le_val as OR le_val bs"
  by (rule bit_eqI) (simp add: apply_or_def or_operator.apply_binary_map2 bit_or_iff
    le_val_map2 [where tt = "(\<or>)"])

lemma le_val_xor: "length as = length bs \<Longrightarrow> le_val (apply_xor as bs) = le_val as XOR le_val bs"
  by (rule bit_eqI) (simp add: apply_xor_def xor_operator.apply_binary_map2 bit_xor_iff
    le_val_map2 [where tt = "(\<noteq>)"])

lemma le_val_not: "le_val (bitops_not as) + le_val as + 1 = 256 ^ length as"
proof (induction as)
  case (Cons a as)
  have "unat (NOT a) + unat a = 255"
  proof -
    have "NOT a = 255 - a"
      by (simp add: not_eq_complement)
    moreover have "unat (255 - a) = 255 - unat a"
      using unat_byte_lt [of a] by (subst unat_sub) (auto simp: word_le_nat_alt)
    ultimately have "unat (NOT a) = 255 - unat a"
      by (simp only:)
    then show ?thesis
      using unat_byte_lt [of a] by linarith
  qed
  then show ?case
    using Cons by (simp add: bitops_not_def)
qed (simp add: bitops_not_def)

section \<open>Addition and subtraction\<close>

lemma length_add_bytes [simp]: "length as = length bs \<Longrightarrow> length (add_bytes c as bs) = length as"
  by (induction c as bs rule: add_bytes.induct) (auto simp: Let_def)

lemma le_val_add_bytes:
  "length as = length bs \<Longrightarrow> c \<le> 1 \<Longrightarrow>
   le_val (add_bytes c as bs) = (le_val as + le_val bs + c) mod 256 ^ length as"
proof (induction c as bs rule: add_bytes.induct)
  case (1 c a as b bs)
  define s where "s = unat a + unat b + c"
  have s: "s < 65536" and s2: "s div 256 \<le> 1"
    using unat_byte_lt [of a] unat_byte_lt [of b] "1.prems"(2) unfolding s_def by linarith+
  have lo: "unat (ucast (of_nat s :: 16 word) :: byte) = s mod 256"
    using s by (simp add: unsigned_ucast_eq unat_of_nat take_bit_eq_mod)
  have hi: "unat (drop_bit 8 (of_nat s :: 16 word)) = s div 256"
    using s by (simp add: drop_bit_eq_div unat_div_distrib unat_of_nat)
  have "le_val (add_bytes c (a # as) (b # bs)) =
      s mod 256 + 256 * ((le_val as + le_val bs + s div 256) mod 256 ^ length as)"
    using "1.IH" [OF refl] "1.prems" s2 by (simp add: Let_def lo hi flip: s_def)
  also have "\<dots> = (s mod 256 + 256 * (le_val as + le_val bs + s div 256)) mod (256 * 256 ^ length as)"
    by (rule nat_chunk_mod) simp
  also have "s mod 256 + 256 * (le_val as + le_val bs + s div 256) = le_val (a # as) + le_val (b # bs) + c"
    by (simp add: s_def)
  finally show ?case
    by simp
qed auto

lemma nat_add_carry:
  fixes A B C S M :: nat
  assumes "A < M" and "B < M" and "C \<le> 1" and "S = (A + B + C) mod M"
  shows "A + B + C = S + M * (if S < A \<or> (C \<noteq> 0 \<and> S = A) then 1 else 0)"
proof (cases "A + B + C < M")
  case True
  then show ?thesis using assms by auto
next
  case False
  then have "S = A + B + C - M"
    using assms by (simp add: mod_if)
  then show ?thesis
    using False assms(1-3) by auto
qed

lemma unat_u64_lt: "unat (a :: u64) < 2 ^ 64"
  using unsigned_less [of a, where 'a = nat] by simp

lemma u64_add_carry:
  assumes "c = 0 \<or> c = (1 :: u64)"
  shows "unat a + unat b + unat c =
    unat (a + b + c) + 2 ^ 64 * (if a + b + c < a \<or> (c \<noteq> 0 \<and> a + b + c = a) then 1 else 0)"
proof -
  have "unat (a + b + c) = (unat a + unat b + unat c) mod 2 ^ 64"
    by (simp only: unat_word_ariths mod_simps) simp
  moreover have "unat c \<le> 1"
    using assms by auto
  ultimately show ?thesis
    using nat_add_carry [OF unat_u64_lt unat_u64_lt, of "unat c" "unat (a + b + c)" a b]
    by (simp only: word_less_nat_alt word_unat_eq_iff unat_0)
qed

lemma length_add_chunks [simp]: "length as = length bs \<Longrightarrow> length (add_chunks c as bs) = length as"
proof (induction "length as" arbitrary: as bs c rule: less_induct)
  case less
  then show ?case
    by (subst add_chunks.simps) (simp add: Let_def)
qed

lemma le_val_split8:
  "8 \<le> length as \<Longrightarrow> le_val as = unat (load64 as) + 2 ^ 64 * le_val (drop 8 as)"
  using le_val_take_drop [of as 8] by (simp add: unat_load64 min_absorb1)

lemma le_val_add_chunks:
  "length as = length bs \<Longrightarrow> c = 0 \<or> c = 1 \<Longrightarrow>
   le_val (add_chunks c as bs) = (le_val as + le_val bs + unat c) mod 256 ^ length as"
proof (induction "length as" arbitrary: as bs c rule: less_induct)
  case less
  show ?case
  proof (cases "8 \<le> length as")
    case True
    let ?a = "load64 as" and ?b = "load64 bs"
    define c' where "c' = (if ?a + ?b + c < ?a \<or> (c \<noteq> 0 \<and> ?a + ?b + c = ?a) then 1 else 0 :: u64)"
    have carry: "unat ?a + unat ?b + unat c = unat (?a + ?b + c) + 2 ^ 64 * unat c'"
      using u64_add_carry [OF less.prems(2), of ?a ?b] by (simp add: c'_def)
    have IH: "le_val (add_chunks c' (drop 8 as) (drop 8 bs)) =
        (le_val (drop 8 as) + le_val (drop 8 bs) + unat c') mod 256 ^ (length as - 8)"
      using True less.prems by (subst less.hyps) (auto simp: c'_def)
    note p = pow256_split8 [OF True]
    have "add_chunks c as bs = store64 (?a + ?b + c) @ add_chunks c' (drop 8 as) (drop 8 bs)"
      unfolding c'_def by (subst add_chunks.simps) (simp add: True Let_def)
    then have "le_val (add_chunks c as bs) = unat (?a + ?b + c) + 2 ^ 64 *
        ((le_val (drop 8 as) + le_val (drop 8 bs) + unat c') mod 256 ^ (length as - 8))"
      by (simp add: le_val_append IH)
    also have "\<dots> = (unat (?a + ?b + c) + 2 ^ 64 * (le_val (drop 8 as) + le_val (drop 8 bs) + unat c'))
        mod (2 ^ 64 * 256 ^ (length as - 8))"
      by (rule nat_chunk_mod) (rule unat_u64_lt)
    also have "unat (?a + ?b + c) + 2 ^ 64 * (le_val (drop 8 as) + le_val (drop 8 bs) + unat c') =
        le_val as + le_val bs + unat c"
      using carry True less.prems le_val_split8 [of as] le_val_split8 [of bs] by simp
    finally show ?thesis by (simp only: p)
  next
    case False
    then show ?thesis
      using less.prems by (subst add_chunks.simps) (auto simp: le_val_add_bytes)
  qed
qed

lemma le_val_bitops_add:
  "length as = length bs \<Longrightarrow> le_val (bitops_add as bs) = (le_val as + le_val bs) mod 256 ^ length as"
  by (simp add: bitops_add_def le_val_add_chunks)

lemma length_bitops_add [simp]: "length as = length bs \<Longrightarrow> length (bitops_add as bs) = length as"
  by (simp add: bitops_add_def)

lemma length_sub_bytes [simp]: "length as = length bs \<Longrightarrow> length (sub_bytes c as bs) = length as"
  by (induction c as bs rule: sub_bytes.induct) (auto simp: Let_def)

lemma length_sub_chunks [simp]: "length as = length bs \<Longrightarrow> length (sub_chunks c as bs) = length as"
proof (induction "length as" arbitrary: as bs c rule: less_induct)
  case less
  then show ?case
    by (subst sub_chunks.simps) (simp add: Let_def)
qed

lemma int_chunk_mod:
  fixes x y M N :: int
  assumes "0 \<le> x" and "x < M" and "0 < N"
  shows "x + M * (y mod N) = (x + M * y) mod (M * N)"
  using assms by (subst zmod_zmult2_eq) auto

lemma ucast_16_word_of_int: "(ucast (word_of_int x :: u64) :: 16 word) = word_of_int x"
  by (rule bit_word_eqI) (simp add: bit_ucast_iff bit_word_of_int_iff)

text \<open>One byte: the difference modulo 256 and the borrow, read off 16 signed bits.\<close>

lemma sub_byte:
  fixes a b :: byte
  assumes "c = 0 \<or> c = (1 :: u64)"
  defines "d \<equiv> (ucast (ucast a - ucast b - c :: u64) :: 16 word)"
  shows "uint (ucast d :: byte) = (uint a - uint b - uint c) mod 256"
    and "sint d < 0 \<longleftrightarrow> uint a < uint b + uint c"
proof -
  have ab: "0 \<le> uint a" "uint a < 256" "0 \<le> uint b" "uint b < 256"
    using unsigned_less [of a, where 'a = int] unsigned_less [of b, where 'a = int] by simp_all
  have c: "uint c = 0 \<or> uint c = 1"
    using assms(1) by auto
  have "(ucast a - ucast b - c :: u64) = word_of_int (uint a - uint b - uint c)"
    by simp
  then have d: "d = word_of_int (uint a - uint b - uint c)"
    unfolding d_def by (simp only: ucast_16_word_of_int)
  show "uint (ucast d :: byte) = (uint a - uint b - uint c) mod 256"
    unfolding d by (simp only: unsigned_ucast_eq uint_word_of_int) (simp add: take_bit_eq_mod mod_mod_cancel)
  have "sint d = uint a - uint b - uint c"
  proof -
    have "sint d = signed_take_bit 15 (uint a - uint b - uint c)"
      unfolding d by (simp only: sint_sbintrunc') simp
    also have "\<dots> = uint a - uint b - uint c"
    proof (rule signed_take_bit_int_eq_self)
      have "0 \<le> uint c" and "uint c \<le> 1"
        using c by auto
      then have "- 512 \<le> uint a - uint b - uint c" and "uint a - uint b - uint c < 512"
        using ab by linarith+
      then show "- (2 ^ 15) \<le> uint a - uint b - uint c" and "uint a - uint b - uint c < 2 ^ 15"
        by simp_all
    qed
    finally show ?thesis .
  qed
  then show "sint d < 0 \<longleftrightarrow> uint a < uint b + uint c"
    by auto
qed

lemma uint_byte_bounds: "0 \<le> uint (a :: byte)" "uint (a :: byte) < 256"
  using unsigned_less [of a, where 'a = int] by simp_all

lemma borrow_int:
  fixes x y M :: int
  assumes "0 \<le> x" and "x < M" and "0 \<le> y" and "y \<le> M"
  shows "x - y = (x - y) mod M - M * (if x < y then 1 else 0)"
proof (cases "x < y")
  case True
  have "(x - y) mod M = (x - y + M) mod M" by simp
  also have "\<dots> = x - y + M"
    using True assms by (intro mod_pos_pos_trivial) auto
  finally show ?thesis using True by simp
next
  case False
  then show ?thesis using assms by simp
qed

lemma le_val_sub_bytes:
  "length as = length bs \<Longrightarrow> c = 0 \<or> c = 1 \<Longrightarrow>
   int (le_val (sub_bytes c as bs)) = (int (le_val as) - int (le_val bs) - uint c) mod 256 ^ length as"
proof (induction c as bs rule: sub_bytes.induct)
  case (1 c a as b bs)
  define d where "d = (ucast (ucast a - ucast b - c :: u64) :: 16 word)"
  define c' where "c' = (if sint d < 0 then 1 else 0 :: u64)"
  note sb = sub_byte [OF "1.prems"(2), of a b, folded d_def]
  have cu: "0 \<le> uint c" "uint c \<le> 1"
    using "1.prems"(2) by auto
  have c': "uint c' = (if uint a < uint b + uint c then 1 else 0)"
    by (simp add: c'_def sb(2))
  have bor: "uint a - (uint b + uint c) = uint (ucast d :: byte) - 256 * uint c'"
    using borrow_int [of "uint a" 256 "uint b + uint c"] uint_byte_bounds [of a] uint_byte_bounds [of b] cu
    by (simp add: c' sb(1) diff_diff_eq)
  have "int (le_val (sub_bytes c (a # as) (b # bs))) =
      uint (ucast d :: byte) + 256 * ((int (le_val as) - int (le_val bs) - uint c') mod 256 ^ length as)"
    using "1.IH" [OF refl] "1.prems" by (simp add: Let_def c'_def d_def)
  also have "\<dots> = (uint (ucast d :: byte) + 256 * (int (le_val as) - int (le_val bs) - uint c'))
      mod (256 * 256 ^ length as)"
    using uint_byte_bounds [of "ucast d"] by (intro int_chunk_mod) simp_all
  also have "uint (ucast d :: byte) + 256 * (int (le_val as) - int (le_val bs) - uint c') =
      int (le_val (a # as)) - int (le_val (b # bs)) - uint c"
    using bor by simp
  finally show ?case by simp
qed auto

text \<open>
  The chunk loop loses the borrow when \<open>b + borrow\<close> wraps, that is when the chunk of the
  subtrahend is all ones and a borrow comes in. Away from that case it is exact.
\<close>

definition borrow_kept :: "nat \<Rightarrow> bytes \<Rightarrow> bool" where
  "borrow_kept k0 bs \<longleftrightarrow> (\<forall>k < length bs. k0 \<le> k \<and> 8 * k + 8 < length bs \<longrightarrow> load64 (drop (8 * k) bs) \<noteq> - 1)"

lemma borrow_kept_drop: "borrow_kept k0 bs \<Longrightarrow> k0 \<le> 1 \<Longrightarrow> borrow_kept 0 (drop 8 bs)"
proof (unfold borrow_kept_def, intro allI impI)
  fix k assume bk: "\<forall>k < length bs. k0 \<le> k \<and> 8 * k + 8 < length bs \<longrightarrow> load64 (drop (8 * k) bs) \<noteq> - 1"
    and "k0 \<le> 1" and "0 \<le> k \<and> 8 * k + 8 < length (drop 8 bs)"
  then have "load64 (drop (8 * Suc k) bs) \<noteq> - 1"
    by (intro bk [rule_format]) auto
  then show "load64 (drop (8 * k) (drop 8 bs)) \<noteq> - 1"
    by (simp add: add.commute)
qed

lemma uint_u64_bounds: "0 \<le> uint (a :: u64)" "uint (a :: u64) < 2 ^ 64"
  using unsigned_less [of a, where 'a = int] by simp_all

lemma u64_sub_borrow:
  assumes "c = 0 \<or> c = (1 :: u64)" and "c = 0 \<or> b \<noteq> - 1"
  shows "uint a - uint b - uint c = uint (a - b - c) - 2 ^ 64 * (if a < b + c then 1 else 0)"
proof -
  have bc: "uint (b + c) = uint b + uint c"
  proof (cases "c = 0")
    case False
    with assms have c: "c = 1" and b: "b \<noteq> - 1" by auto
    have "uint b \<noteq> 2 ^ 64 - 1"
    proof
      assume "uint b = 2 ^ 64 - 1"
      then have "word_of_int (uint b) = (word_of_int (2 ^ 64 - 1) :: u64)"
        by (simp only:)
      then show False using b by simp
    qed
    then have "uint b + 1 < 2 ^ 64"
      using uint_u64_bounds [of b] by linarith
    then show ?thesis
      using uint_u64_bounds [of b] by (simp add: c uint_word_ariths)
  qed simp
  have "uint (a - b - c) = (uint a - (uint b + uint c)) mod 2 ^ 64"
    by (simp add: uint_word_ariths mod_simps diff_diff_eq)
  then show ?thesis
    using borrow_int [of "uint a" "2 ^ 64" "uint (b + c)"] uint_u64_bounds [of a] uint_u64_bounds [of "b + c"]
    by (simp add: bc word_less_def diff_diff_eq)
qed

lemma int_le_val_split8:
  "8 \<le> length as \<Longrightarrow> int (le_val as) = uint (load64 as) + 2 ^ 64 * int (le_val (drop 8 as))"
  using le_val_split8 [of as] by simp

lemma le_val_sub_chunks:
  "length as = length bs \<Longrightarrow> c = 0 \<or> c = 1 \<Longrightarrow> borrow_kept (if c = 0 then 1 else 0) bs \<Longrightarrow>
   int (le_val (sub_chunks c as bs)) = (int (le_val as) - int (le_val bs) - uint c) mod 256 ^ length as"
proof (induction "length as" arbitrary: as bs c rule: less_induct)
  case less
  show ?case
  proof (cases "8 \<le> length as")
    case True
    let ?a = "load64 as" and ?b = "load64 bs"
    let ?d = "?a - ?b - c"
    define c' where "c' = (if ?a < ?b + c then 1 else 0 :: u64)"
    have eq: "sub_chunks c as bs = store64 ?d @ sub_chunks c' (drop 8 as) (drop 8 bs)"
      unfolding c'_def by (subst sub_chunks.simps) (simp add: True Let_def)
    have d: "0 \<le> uint ?d" "uint ?d < 2 ^ 64"
      by (rule uint_u64_bounds)+
    show ?thesis
    proof (cases "length as = 8")
      case True
      then have "sub_chunks c' (drop 8 as) (drop 8 bs) = []"
        by (subst sub_chunks.simps) simp
      moreover have "drop 8 as = []" "drop 8 bs = []"
        using True less.prems(1) by simp_all
      ultimately show ?thesis
        using eq True less.prems(1) int_le_val_split8 [of as] int_le_val_split8 [of bs]
        by (simp add: uint_word_ariths mod_simps)
    next
      case False
      have ok: "c = 0 \<or> ?b \<noteq> - 1"
        using less.prems True False by (auto simp: borrow_kept_def dest: spec [where x = 0])
      have borrow: "uint ?a - uint ?b - uint c = uint ?d - 2 ^ 64 * uint c'"
        using u64_sub_borrow [OF less.prems(2) ok, of ?a] by (simp add: c'_def)
      have "borrow_kept 0 (drop 8 bs)"
        using less.prems(3) by (rule borrow_kept_drop) simp
      then have "borrow_kept (if c' = 0 then 1 else 0) (drop 8 bs)"
        by (simp add: borrow_kept_def)
      then have IH: "int (le_val (sub_chunks c' (drop 8 as) (drop 8 bs))) =
          (int (le_val (drop 8 as)) - int (le_val (drop 8 bs)) - uint c') mod 256 ^ (length as - 8)"
        using True less.prems(1) by (subst less.hyps) (auto simp: c'_def)
      have p: "(256 :: int) ^ length as = 2 ^ 64 * 256 ^ (length as - 8)"
        using arg_cong [OF pow256_split8 [OF True], of int] by simp
      have "int (le_val (sub_chunks c as bs)) = uint ?d + 2 ^ 64 *
          ((int (le_val (drop 8 as)) - int (le_val (drop 8 bs)) - uint c') mod 256 ^ (length as - 8))"
        by (simp add: eq le_val_append IH)
      also have "\<dots> = (uint ?d + 2 ^ 64 * (int (le_val (drop 8 as)) - int (le_val (drop 8 bs)) - uint c'))
          mod (2 ^ 64 * 256 ^ (length as - 8))"
        using d by (intro int_chunk_mod) simp_all
      also have "uint ?d + 2 ^ 64 * (int (le_val (drop 8 as)) - int (le_val (drop 8 bs)) - uint c') =
          int (le_val as) - int (le_val bs) - uint c"
        using borrow True less.prems(1) int_le_val_split8 [of as] int_le_val_split8 [of bs]
        by (simp add: algebra_simps)
      finally show ?thesis by (simp only: p)
    qed
  next
    case False
    then show ?thesis
      using less.prems by (subst sub_chunks.simps) (auto simp: le_val_sub_bytes)
  qed
qed

lemma length_bitops_sub [simp]: "length as = length bs \<Longrightarrow> length (bitops_sub as bs) = length as"
  by (simp add: bitops_sub_def)

lemma int_le_val_bitops_sub:
  "length as = length bs \<Longrightarrow> borrow_kept 1 bs \<Longrightarrow>
   int (le_val (bitops_sub as bs)) = (int (le_val as) - int (le_val bs)) mod 256 ^ length as"
  using le_val_sub_chunks [of as bs 0] by (simp add: bitops_sub_def)

lemma borrow_kept_short: "length bs \<le> 16 \<Longrightarrow> borrow_kept 1 bs"
  by (auto simp: borrow_kept_def)

section \<open>Shifts\<close>

lemma bit_src_word: "bit (src_word as i) j \<longleftrightarrow> j < 64 \<and> bit (le_val as) (64 * i + j)"
proof -
  have drop: "bit (le_val (drop (i * 8) as)) j = bit (le_val as) (64 * i + j)"
    by (simp add: le_val_drop pow256 bit_drop_bit_eq flip: drop_bit_eq_div)
  consider "i < length as div 8" | "i = length as div 8" | "length as div 8 < i"
    by linarith
  then show ?thesis
  proof cases
    case 1
    then show ?thesis
      by (simp add: src_word_def Let_def bit_load64_val drop)
  next
    case 2
    have take: "take (length as mod 8) (drop (i * 8) as) = drop (i * 8) as"
      using 2 by (simp add: minus_div_mult_eq_mod [symmetric])
    have "length as mod 8 = 0 \<Longrightarrow> \<not> bit (le_val as) (64 * i + j)"
      using 2 by (auto dest!: bit_le_val_bound)
    then show ?thesis
      using 2 take drop by (auto simp: src_word_def Let_def bit_load64_val)
  next
    case 3
    then have "\<not> bit (le_val as) (64 * i + j)"
      by (auto dest!: bit_le_val_bound)
    then show ?thesis
      using 3 by (simp add: src_word_def Let_def)
  qed
qed

lemma concat_stores_nth:
  "n < 8 * k \<Longrightarrow> concat (map (\<lambda>i. store64 (w i)) [0..<k]) ! n = store64 (w (n div 8)) ! (n mod 8)"
proof (induction k)
  case (Suc k)
  have len: "length (concat (map (\<lambda>i. store64 (w i)) [0..<k])) = 8 * k"
    by (simp add: length_concat sum_list_triv o_def)
  show ?case
  proof (cases "n < 8 * k")
    case True
    then show ?thesis
      using Suc.IH by (simp add: nth_append len)
  next
    case False
    then have nd: "n div 8 = k"
      using Suc.prems by (intro div_nat_eqI) simp_all
    then have "n mod 8 = n - 8 * k"
      using minus_mult_div_eq_mod [of n 8] by simp
    with nd have nm: "n div 8 = k" "n mod 8 = n - 8 * k" by simp_all
    then show ?thesis
      using False by (simp add: nth_append len)
  qed
qed simp

lemma put_words:
  "concat (map (\<lambda>i. put_word sz i (w i)) [0..<total_words sz]) =
   take sz (concat (map (\<lambda>i. store64 (w i)) [0..<total_words sz]))"
proof -
  have full: "concat (map (\<lambda>i. put_word sz i (w i)) [0..<sz div 8]) =
      concat (map (\<lambda>i. store64 (w i)) [0..<sz div 8])"
    by (intro arg_cong [where f = concat] map_cong) (auto simp: put_word_def)
  have len: "length (concat (map (\<lambda>i. store64 (w i)) [0..<sz div 8])) = 8 * (sz div 8)"
    by (simp add: length_concat sum_list_triv o_def)
  show ?thesis
  proof (cases "sz mod 8 = 0")
    case True
    then have "total_words sz = sz div 8" and "8 * (sz div 8) = sz"
      by (auto simp: total_words_def)
    then show ?thesis
      using full len by simp
  next
    case False
    then have "total_words sz = Suc (sz div 8)"
      by (simp add: total_words_def)
    moreover have "put_word sz (sz div 8) (w (sz div 8)) = take (sz - 8 * (sz div 8)) (store64 (w (sz div 8)))"
      using False by (simp add: put_word_def Let_def minus_mult_div_eq_mod)
    ultimately show ?thesis
      by (simp add: full len)
  qed
qed

lemma bit_put_words:
  fixes w :: "nat \<Rightarrow> u64"
  assumes "n < 8 * sz"
  defines "r \<equiv> concat (map (\<lambda>i. put_word sz i (w i)) [0..<total_words sz])"
  shows "length r = sz" and "bit (le_val r) n = bit (w (n div 64)) (n mod 64)"
proof -
  let ?all = "concat (map (\<lambda>i. store64 (w i)) [0..<total_words sz])"
  have "sz \<le> 8 * total_words sz"
    by (auto simp: total_words_def)
  then show len: "length r = sz"
    by (simp add: r_def put_words length_concat sum_list_triv o_def)
  have n8: "n div 8 < sz"
    using assms(1) by auto
  then have "n div 8 < 8 * total_words sz"
    using \<open>sz \<le> 8 * total_words sz\<close> by linarith
  then have "r ! (n div 8) = store64 (w (n div 8 div 8)) ! (n div 8 mod 8)"
    using n8 by (simp add: r_def put_words concat_stores_nth)
  then show "bit (le_val r) n = bit (w (n div 64)) (n mod 64)"
    using n8 len bit_store64 [of "n mod 64" "w (n div 64)"] by (simp add: bit_le_val byte_in_word)
qed

text \<open>The two halves of a shifted word: bit \<open>j\<close> of \<open>(cur << s) | (prev >> (64 - s))\<close>.\<close>

lemma bit_funnel_left:
  fixes cur prev :: u64
  assumes "0 < s" and "s < 64" and "j < 64"
  shows "bit (push_bit s cur OR drop_bit (64 - s) prev) j =
    (if s \<le> j then bit cur (j - s) else bit prev (64 + j - s))"
proof (cases "s \<le> j")
  case True
  then have "\<not> bit prev (64 - s + j)"
    using assms bit_u64_bound [of prev "64 - s + j"] by auto
  then show ?thesis
    using True assms by (simp add: bit_or_iff bit_push_bit_iff bit_drop_bit_eq)
next
  case False
  then have "64 - s + j = 64 + j - s"
    using assms by linarith
  then show ?thesis
    using False assms by (simp add: bit_or_iff bit_push_bit_iff bit_drop_bit_eq)
qed

lemma bit_funnel_right:
  fixes cur next_word :: u64
  assumes "0 < s" and "s < 64" and "j < 64"
  shows "bit (drop_bit s cur OR push_bit (64 - s) next_word) j =
    (if s + j < 64 then bit cur (s + j) else bit next_word (s + j - 64))"
proof (cases "s + j < 64")
  case True
  then show ?thesis
    using assms by (auto simp: bit_or_iff bit_push_bit_iff bit_drop_bit_eq)
next
  case False
  then have "\<not> bit cur (s + j)" and "j - (64 - s) = s + j - 64" and "64 - s \<le> j"
    using assms bit_u64_bound [of cur "s + j"] by auto
  then show ?thesis
    using False assms by (simp add: bit_or_iff bit_push_bit_iff bit_drop_bit_eq)
qed

lemma bitops_shl_words:
  "shift < 8 * length as \<Longrightarrow>
   bitops_shl as shift = concat (map (\<lambda>i. put_word (length as) i (shl_word as shift i)) [0..<total_words (length as)])"
  by (simp add: bitops_shl_def)

lemma bitops_shr_words:
  "shift < 8 * length as \<Longrightarrow>
   bitops_shr as shift = concat (map (\<lambda>i. put_word (length as) i (shr_word as shift i)) [0..<total_words (length as)])"
  by (simp add: bitops_shr_def)

lemma bit_shl_word:
  assumes "j < 64"
  shows "bit (shl_word as shift i) j \<longleftrightarrow> shift \<le> 64 * i + j \<and> bit (le_val as) (64 * i + j - shift)"
proof -
  define q r where "q = shift div 64" and "r = shift mod 64"
  have shift: "shift = 64 * q + r" and r: "r < 64"
    by (simp_all add: q_def r_def)
  have word: "shl_word as shift i = (if r \<noteq> 0
      then push_bit r (if q \<le> i then src_word as (i - q) else 0) OR
        drop_bit (64 - r) (if q < i then src_word as (i - q - 1) else 0)
      else (if q \<le> i then src_word as (i - q) else 0))"
    by (simp add: shl_word_def Let_def flip: q_def r_def)
  show ?thesis
  proof (cases "r \<le> j")
    case True
    then have "shift \<le> 64 * i + j \<longleftrightarrow> q \<le> i"
      and "q \<le> i \<Longrightarrow> 64 * i + j - shift = 64 * (i - q) + (j - r)"
      using r assms by (auto simp: shift algebra_simps)
    then show ?thesis
      using True r assms by (auto simp: word bit_funnel_left bit_src_word)
  next
    case False
    then have "shift \<le> 64 * i + j \<longleftrightarrow> q < i"
      and "q < i \<Longrightarrow> 64 * i + j - shift = 64 * (i - q - 1) + (64 + j - r)"
      using r assms by (auto simp: shift algebra_simps)
    then show ?thesis
      using False r assms by (auto simp: word bit_funnel_left bit_src_word)
  qed
qed

lemma bit_shr_word:
  assumes "j < 64"
  shows "bit (shr_word as shift i) j \<longleftrightarrow> bit (le_val as) (64 * i + j + shift)"
proof -
  define q r where "q = shift div 64" and "r = shift mod 64"
  have shift: "shift = 64 * q + r" and r: "r < 64"
    by (simp_all add: q_def r_def)
  have word: "shr_word as shift i = (if r \<noteq> 0
      then drop_bit r (src_word as (i + q)) OR push_bit (64 - r) (src_word as (i + q + 1))
      else src_word as (i + q))"
    by (simp add: shr_word_def Let_def flip: q_def r_def)
  show ?thesis
  proof (cases "r + j < 64")
    case True
    have "64 * i + j + shift = 64 * (i + q) + (r + j)"
      by (simp add: shift)
    then show ?thesis
      using True r assms unfolding word by (auto simp: bit_funnel_right bit_src_word ac_simps)
  next
    case False
    then have "64 * i + j + shift = 64 * (i + q + 1) + (r + j - 64)"
      by (simp add: shift)
    then show ?thesis
      using False r assms unfolding word by (auto simp: bit_funnel_right bit_src_word ac_simps)
  qed
qed

text \<open>The shifts are multiplication and division by a power of two, modulo the storage size.\<close>

lemma le_val_bitops_shl:
  "le_val (bitops_shl as shift) = (le_val as * 2 ^ shift) mod 256 ^ length as"
proof (cases "shift < 8 * length as")
  case False
  then have "(256 :: nat) ^ length as dvd 2 ^ shift"
    by (simp add: pow256 le_imp_power_dvd)
  then show ?thesis
    using False by (simp add: bitops_shl_def Let_def mult.commute dvd_imp_mod_0)
next
  case True
  show ?thesis
  proof (rule bit_eqI)
    fix n
    have rhs: "bit ((le_val as * 2 ^ shift) mod 256 ^ length as) n \<longleftrightarrow>
        n < 8 * length as \<and> shift \<le> n \<and> bit (le_val as) (n - shift)"
      by (simp add: pow256 bit_take_bit_iff bit_push_bit_iff_nat flip: take_bit_eq_mod push_bit_eq_mult)
    show "bit (le_val (bitops_shl as shift)) n = bit ((le_val as * 2 ^ shift) mod 256 ^ length as) n"
    proof (cases "n < 8 * length as")
      case n: True
      have "bit (le_val (bitops_shl as shift)) n = bit (shl_word as shift (n div 64)) (n mod 64)"
        unfolding bitops_shl_words [OF True] by (rule bit_put_words(2) [OF n])
      then show ?thesis
        using n by (simp add: rhs bit_shl_word)
    next
      case n: False
      have "length (bitops_shl as shift) = length as"
        unfolding bitops_shl_words [OF True] by (rule bit_put_words(1)) (use True in simp)
      then show ?thesis
        using n bit_le_val_bound [of "bitops_shl as shift" n] by (auto simp: rhs)
    qed
  qed
qed

lemma le_val_bitops_shr:
  "le_val (bitops_shr as shift) = le_val as div 2 ^ shift"
proof (cases "shift < 8 * length as")
  case False
  have "(2 :: nat) ^ (8 * length as) \<le> 2 ^ shift"
    using False by (intro power_increasing) simp_all
  then have "le_val as < 2 ^ shift"
    using le_val_lt [of as] by (simp only: pow256)
  then show ?thesis
    using False by (simp add: bitops_shr_def Let_def)
next
  case True
  show ?thesis
  proof (rule bit_eqI)
    fix n
    have rhs: "bit (le_val as div 2 ^ shift) n = bit (le_val as) (shift + n)"
      by (simp add: bit_drop_bit_eq flip: drop_bit_eq_div)
    show "bit (le_val (bitops_shr as shift)) n = bit (le_val as div 2 ^ shift) n"
    proof (cases "n < 8 * length as")
      case n: True
      have "bit (le_val (bitops_shr as shift)) n = bit (shr_word as shift (n div 64)) (n mod 64)"
        unfolding bitops_shr_words [OF True] by (rule bit_put_words(2) [OF n])
      then show ?thesis
        using n by (simp add: rhs bit_shr_word add.commute)
    next
      case n: False
      have "length (bitops_shr as shift) = length as"
        unfolding bitops_shr_words [OF True] by (rule bit_put_words(1)) (use True in simp)
      then show ?thesis
        using n bit_le_val_bound [of "bitops_shr as shift" n] bit_le_val_bound [of as "shift + n"]
        by (auto simp: rhs)
    qed
  qed
qed

section \<open>Comparison and printing\<close>

lemma le_val_take_Suc:
  "i < length as \<Longrightarrow> le_val (take (Suc i) as) = le_val (take i as) + 256 ^ i * unat (as ! i)"
  by (simp add: take_Suc_conv_app_nth le_val_append)

lemma digit_less:
  fixes x y a b M :: nat
  assumes "x < M" and "y < M"
  shows "x + M * a < y + M * b \<longleftrightarrow> a < b \<or> (a = b \<and> x < y)"
proof -
  have *: "u + M * c < v + M * d" if "c < d" and "u < M" for u v c d
  proof -
    have "u + M * c < M * Suc c"
      using that(2) by simp
    also have "\<dots> \<le> M * d"
      using that(1) by (intro mult_le_mono2) simp
    finally show ?thesis by linarith
  qed
  show ?thesis
    using * [of a b x y] * [of b a y x] assms by (cases a b rule: linorder_cases) auto
qed

lemma lt_bytes_le_val:
  "i \<le> length as \<Longrightarrow> length bs = length as \<Longrightarrow>
   lt_bytes i as bs \<longleftrightarrow> le_val (take i as) < le_val (take i bs)"
proof (induction i)
  case (Suc i)
  have "le_val (take i as) < 256 ^ i" and "le_val (take i bs) < 256 ^ i"
    using le_val_lt [of "take i as"] le_val_lt [of "take i bs"] Suc.prems by (simp_all add: min_absorb2)
  from digit_less [OF this, of "unat (as ! i)" "unat (bs ! i)"] show ?case
    using Suc by (auto simp: le_val_take_Suc word_less_nat_alt word_unat_eq_iff)
qed simp

lemma le_val_take_chunk:
  assumes "8 \<le> i" and "i \<le> length as"
  shows "le_val (take i as) = le_val (take (i - 8) as) + 256 ^ (i - 8) * unat (load64 (drop (i - 8) as))"
proof -
  have "take i as = take (i - 8) as @ take 8 (drop (i - 8) as)"
    using assms by (metis le_add_diff_inverse2 take_add)
  then show ?thesis
    using assms by (simp add: le_val_append unat_load64 min_absorb2)
qed

lemma lt_chunks_le_val:
  "i \<le> length as \<Longrightarrow> length bs = length as \<Longrightarrow>
   lt_chunks i as bs \<longleftrightarrow> le_val (take i as) < le_val (take i bs)"
proof (induction i as bs rule: lt_chunks.induct)
  case (1 i as bs)
  show ?case
  proof (cases "8 \<le> i")
    case True
    have "le_val (take (i - 8) as) < 256 ^ (i - 8)" and "le_val (take (i - 8) bs) < 256 ^ (i - 8)"
      using le_val_lt [of "take (i - 8) as"] le_val_lt [of "take (i - 8) bs"] "1.prems"
      by (simp_all add: min_absorb2)
    note digits = digit_less [OF this, of "unat (load64 (drop (i - 8) as))" "unat (load64 (drop (i - 8) bs))"]
    show ?thesis
      using True "1.prems" "1.IH" digits
      by (subst lt_chunks.simps) (auto simp: Let_def le_val_take_chunk word_less_nat_alt word_unat_eq_iff)
  next
    case False
    then show ?thesis
      using "1.prems" by (subst lt_chunks.simps) (simp add: lt_bytes_le_val)
  qed
qed

lemma bitops_lt_le_val: "length bs = length as \<Longrightarrow> bitops_lt as bs \<longleftrightarrow> le_val as < le_val bs"
  by (simp add: bitops_lt_def lt_chunks_le_val)

lemma bitops_eq_le_val: "length bs = length as \<Longrightarrow> bitops_eq as bs \<longleftrightarrow> le_val as = le_val bs"
  by (simp add: bitops_eq_def le_val_inj)

text \<open>Reading a hexadecimal string back.\<close>

definition hex_digit_value :: "char \<Rightarrow> nat" where
  "hex_digit_value c = (if of_char c < (58 :: nat) then of_char c - 48 else of_char c - 87)"

definition hex_value :: "string \<Rightarrow> nat" where
  "hex_value s = foldl (\<lambda>acc c. 16 * acc + hex_digit_value c) 0 s"

lemma hex_digit_value_hex_digit: "n < 16 \<Longrightarrow> hex_digit_value (hex_digit n) = n"
proof -
  have "\<forall>n \<in> set [0..<16]. hex_digit_value (hex_digit n) = n"
    by (simp add: upt_rec hex_digit_def hex_digit_value_def)
  then show "n < 16 \<Longrightarrow> ?thesis" by simp
qed

lemma nibbles: "16 * unat (drop_bit 4 b) + unat (b AND 0x0F :: byte) = unat b"
  "unat (drop_bit 4 b) < 16" "unat (b AND 0x0F :: byte) < 16"
proof -
  have "b AND 0x0F = take_bit 4 b"
    by (simp add: take_bit_eq_mask mask_eq_exp_minus_1)
  then have lo: "unat (b AND 0x0F :: byte) = unat b mod 16"
    by (simp add: take_bit_eq_mod unat_mod_distrib)
  have hi: "unat (drop_bit 4 b) = unat b div 16"
    by (simp add: drop_bit_eq_div unat_div_distrib)
  show "16 * unat (drop_bit 4 b) + unat (b AND 0x0F) = unat b"
    by (simp add: lo hi)
  show "unat (drop_bit 4 b) < 16" and "unat (b AND 0x0F) < 16"
    using unat_byte_lt [of b] by (simp_all add: lo hi)
qed

lemma to_hex_loop_value:
  "st \<or> a = 0 \<Longrightarrow>
   foldl (\<lambda>acc c. 16 * acc + hex_digit_value c) a (fst (to_hex_loop st bs)) =
   a * 256 ^ length bs + le_val (rev bs)"
proof (induction st bs arbitrary: a rule: to_hex_loop.induct)
  case (1 started)
  then show ?case by simp
next
  case (2 started b bs)
  show ?case
  proof (cases "\<not> started \<and> b = 0")
    case True
    then show ?thesis
      using 2 by (simp add: le_val_append)
  next
    case False
    define a' where "a' = 16 * (16 * a + hex_digit_value (hex_digit (unat (drop_bit 4 b)))) +
      hex_digit_value (hex_digit (unat (b AND 0x0F)))"
    have a': "a' = 256 * a + unat b"
      unfolding a'_def nibbles(1) [of b, symmetric]
      by (simp only: hex_digit_value_hex_digit nibbles(2,3)) simp
    have step: "fst (to_hex_loop started (b # bs)) = hex_digit (unat (drop_bit 4 b)) #
        hex_digit (unat (b AND 0x0F)) # fst (to_hex_loop True bs)"
      by (simp only: to_hex_loop.simps(2) False if_False Let_def case_prod_beta fst_conv)
    have "foldl (\<lambda>acc c. 16 * acc + hex_digit_value c) a (fst (to_hex_loop started (b # bs))) =
        foldl (\<lambda>acc c. 16 * acc + hex_digit_value c) a' (fst (to_hex_loop True bs))"
      by (simp only: step foldl_Cons a'_def)
    also have "\<dots> = a' * 256 ^ length bs + le_val (rev bs)"
      by (rule "2.IH"(2) [OF False]) simp
    finally show ?thesis
      by (simp add: a' le_val_append algebra_simps)
  qed
qed

lemma snd_to_hex_loop: "snd (to_hex_loop st bs) \<longleftrightarrow> st \<or> (\<exists>b \<in> set bs. b \<noteq> 0)"
  by (induction st bs rule: to_hex_loop.induct) (auto simp: case_prod_beta)

lemma le_val_eq_0: "le_val bs = 0 \<longleftrightarrow> (\<forall>b \<in> set bs. b = 0)"
  by (induction bs) (auto simp: unat_eq_0)

lemma hex_value_to_hex: "hex_value (to_hex trim as) = le_val as"
proof (cases "snd (to_hex_loop (\<not> trim) (rev as))")
  case True
  then have "to_hex trim as = fst (to_hex_loop (\<not> trim) (rev as))"
    by (simp add: to_hex_def case_prod_beta)
  then show ?thesis
    using to_hex_loop_value [of "\<not> trim" 0 "rev as"] by (simp add: hex_value_def)
next
  case False
  then have "le_val as = 0"
    by (simp add: snd_to_hex_loop le_val_eq_0)
  moreover have "to_hex trim as = ''0''"
    using False by (simp add: to_hex_def case_prod_beta)
  ultimately show ?thesis
    by (simp add: hex_value_def hex_digit_value_def)
qed

section \<open>Properties\<close>

text \<open>
  \<open>operator<\<close>, \<open>>\<close>, \<open><=\<close>, \<open>>=\<close> and \<open>==\<close>, which compare eight bytes at a time from
  the top, are the order and the equality of the unsigned numbers the operands hold.
\<close>

theorem comparisons_are_numeric:
  assumes "length bs = length as"
  shows "(bitops_lt as bs \<longleftrightarrow> le_val as < le_val bs) \<and> (bitops_gt as bs \<longleftrightarrow> le_val bs < le_val as) \<and>
    (bitops_le as bs \<longleftrightarrow> le_val as \<le> le_val bs) \<and> (bitops_ge as bs \<longleftrightarrow> le_val bs \<le> le_val as) \<and>
    (bitops_eq as bs \<longleftrightarrow> le_val as = le_val bs)"
  using assms
  by (auto simp: bitops_gt_def bitops_le_def bitops_ge_def bitops_lt_le_val bitops_eq_le_val)

lemma comparisons_are_numeric_witness:
  "bitops_lt [0, 2, 0, 0, 0, 0, 0, 0, 1] [255, 1, 0, 0, 0, 0, 0, 0, 2] \<and>
   \<not> bitops_eq [0, 2, 0, 0, 0, 0, 0, 0, 1] [255, 1, 0, 0, 0, 0, 0, 0, 2]"
  using comparisons_are_numeric [of "[255, 1, 0, 0, 0, 0, 0, 0, 2]" "[0, 2, 0, 0, 0, 0, 0, 0, 1]"] by simp

text \<open>
  C20: \<open>operator+\<close>, which adds 64-bit chunks with a carry and the tail byte by byte, is
  addition modulo the size of the storage.
\<close>

theorem addition_is_modular:
  assumes "length as = length bs"
  shows "le_val (bitops_add as bs) = (le_val as + le_val bs) mod 256 ^ length as"
  using assms by (rule le_val_bitops_add)

lemma addition_is_modular_witness:
  "le_val (bitops_add [255, 255, 255, 255, 255, 255, 255, 255, 0] [1, 0, 0, 0, 0, 0, 0, 0, 3]) = 4 * 256 ^ 8"
  using addition_is_modular [of "[255, 255, 255, 255, 255, 255, 255, 255, 0]" "[1, 0, 0, 0, 0, 0, 0, 0, 3]"]
  by simp

text \<open>
  C21: \<open>operator-\<close> is subtraction modulo the size of the storage whenever no chunk of the
  right operand but the first and the last is all ones; in particular for every storage of
  at most 16 bytes (\<open>borrow_kept_short\<close>).
\<close>

theorem subtraction_is_modular:
  assumes "length as = length bs" and "borrow_kept 1 bs"
  shows "int (le_val (bitops_sub as bs)) = (int (le_val as) - int (le_val bs)) mod 256 ^ length as"
  using assms by (rule int_le_val_bitops_sub)

lemma subtraction_is_modular_witness:
  "le_val (bitops_sub [0, 0, 0, 0, 0, 0, 0, 0, 3] [1, 0, 0, 0, 0, 0, 0, 0, 1]) = 2 * 256 ^ 8 - 1"
  using subtraction_is_modular [of "[0, 0, 0, 0, 0, 0, 0, 0, 3]" "[1, 0, 0, 0, 0, 0, 0, 0, 1]"]
    borrow_kept_short [of "[1, 0, 0, 0, 0, 0, 0, 0, 1]"] by simp

lemma store64_list:
  "store64 w = (let n = unat w in [of_nat n, of_nat (n div 256), of_nat (n div 256 div 256), of_nat (n div 256 div 256 div 256),
     of_nat (n div 256 div 256 div 256 div 256), of_nat (n div 256 div 256 div 256 div 256 div 256),
     of_nat (n div 256 div 256 div 256 div 256 div 256 div 256), of_nat (n div 256 div 256 div 256 div 256 div 256 div 256 div 256)])"
proof -
  have "8 = Suc (Suc (Suc (Suc (Suc (Suc (Suc (Suc 0)))))))" by simp
  then show ?thesis
  unfolding store64_def Let_def by (simp only: le_bytes.simps)
qed

lemma lost_borrow:
  "bitops_sub [0,0,0,0,0,0,0,0, 0,0,0,0,0,0,0,0, 1] [1,0,0,0,0,0,0,0, 255,255,255,255,255,255,255,255, 0] =
   [255,255,255,255,255,255,255,255, 0,0,0,0,0,0,0,0, 1]"
  by (simp add: bitops_sub_def sub_chunks.simps load64_def store64_list Let_def unsigned_minus_1_eq_mask mask_eq_exp_minus_1)

text \<open>
  \<open>operator-\<close> loses a borrow in wider storage: the chunk that follows a borrow is
  compared with \<open>b + borrow\<close>, which wraps to 0 when the chunk of \<open>b\<close> is all ones. The
  difference below should be \<open>2 ^ 64 - 1\<close>, and the code leaves the top byte at 1.
\<close>

theorem subtraction_loses_borrow:
  "int (le_val (bitops_sub [0,0,0,0,0,0,0,0, 0,0,0,0,0,0,0,0, 1] [1,0,0,0,0,0,0,0, 255,255,255,255,255,255,255,255, 0])) \<noteq>
   (int (le_val [0,0,0,0,0,0,0,0, 0,0,0,0,0,0,0,0, 1]) - int (le_val [1,0,0,0,0,0,0,0, 255,255,255,255,255,255,255,255, 0])) mod 256 ^ 17"
  unfolding lost_borrow by simp

text \<open>
  C19: both shifts, for every shift amount, those of the storage size and above included:
  \<open><<\<close> multiplies modulo the size of the storage and \<open>>>\<close> divides.
\<close>

theorem shifts_are_numeric:
  "le_val (bitops_shl as shift) = (le_val as * 2 ^ shift) mod 256 ^ length as \<and>
   le_val (bitops_shr as shift) = le_val as div 2 ^ shift"
  by (simp only: le_val_bitops_shl le_val_bitops_shr)

text \<open>C22: the digits of \<open>to_hex\<close>, trimmed or not, read back as the value.\<close>

theorem to_hex_roundtrip: "hex_value (to_hex trim as) = le_val as"
  by (rule hex_value_to_hex)

end
