(* ===== verification/Logic.thy ===== *)
theory Logic
  imports Bitops
begin

text \<open>
  \<^verbatim>\<open>include/cpphdl_logic.h\<close>: the value type \<open>logic<WIDTH>\<close> of the HDL. Its storage is
  \<open>SIZE = (WIDTH + 7) / 8\<close> bytes; the bits of the last byte above \<open>WIDTH\<close> are padding,
  which the class keeps clear. The functions take the width as their first argument, where
  the class has it as a template parameter. Where the header has two bodies, one for
  constant evaluation and one for run time on a little-endian machine, both are modelled
  (suffix \<open>_constexpr\<close> and none) and proved equal.
\<close>

unbundle bit_operations_syntax

definition SIZE :: "nat \<Rightarrow> nat" where
  "SIZE w = (w + 7) div 8"

text \<open>The representation invariant: the right number of bytes, and no padding bit set.\<close>

definition logic_wf :: "nat \<Rightarrow> bytes \<Rightarrow> bool" where
  "logic_wf w x \<longleftrightarrow> length x = SIZE w \<and> le_val x < 2 ^ w"

section \<open>The class\<close>

text \<open>\<open>bytes[SIZE - 1] &= (1u << (WIDTH % 8)) - 1u\<close> when the width is not a multiple of 8.\<close>

definition clear_padding :: "nat \<Rightarrow> bytes \<Rightarrow> bytes" where
  "clear_padding w x =
     (if w mod 8 \<noteq> 0
      then x[SIZE w - 1 := (x ! (SIZE w - 1)) AND (push_bit (w mod 8) 1 - 1)]
      else x)"

definition assign_uint64 :: "nat \<Rightarrow> u64 \<Rightarrow> bytes" where
  "assign_uint64 w v =
     clear_padding w (take (min (SIZE w) 8) (store64 v) @ replicate (SIZE w - 8) 0)"

definition assign_uint64_constexpr :: "nat \<Rightarrow> u64 \<Rightarrow> bytes" where
  "assign_uint64_constexpr w v =
     clear_padding w (map (\<lambda>i. if i < 8 then ucast (drop_bit (8 * i) v AND 0xff) else 0) [0..<SIZE w])"

text \<open>\<open>logic<WIDTH>::operator=(const logic<WIDTH1>&)\<close>, and the converting constructor.\<close>

definition convert :: "nat \<Rightarrow> bytes \<Rightarrow> bytes" where
  "convert w other =
     clear_padding w (take (min (SIZE w) (length other)) other @ replicate (SIZE w - length other) 0)"

definition convert_constexpr :: "nat \<Rightarrow> bytes \<Rightarrow> bytes" where
  "convert_constexpr w other =
     clear_padding w (map (\<lambda>i. if i < length other then other ! i else 0) [0..<SIZE w])"

definition logic_get :: "bytes \<Rightarrow> nat \<Rightarrow> bool" where
  "logic_get x n = bit (x ! (n div 8)) (n mod 8)"

definition logic_set :: "bytes \<Rightarrow> nat \<Rightarrow> bool \<Rightarrow> bytes" where
  "logic_set x n b =
     x[n div 8 := ((x ! (n div 8)) AND NOT (push_bit (n mod 8) 1)) OR push_bit (n mod 8) (of_bool b)]"

definition logic_zero :: "nat \<Rightarrow> bytes" where
  "logic_zero w = replicate (SIZE w) 0"

text \<open>The bit loop that sets bits \<open>0 .. k - 1\<close> of a zero value from a predicate.\<close>

primrec set_bits_loop :: "(nat \<Rightarrow> bool) \<Rightarrow> nat \<Rightarrow> bytes \<Rightarrow> bytes" where
  "set_bits_loop p 0 x = x"
| "set_bits_loop p (Suc k) x = logic_set (set_bits_loop p k x) k (p k)"

text \<open>
  The right operand of the operators that \<open>bitops\<close> takes as a value of the left one's type: it is
  used as it is when the widths \<open>w\<close> and \<open>w1\<close> are equal and converted otherwise.
\<close>

definition right_operand :: "nat \<Rightarrow> nat \<Rightarrow> bytes \<Rightarrow> bytes" where
  "right_operand w w1 rhs = (if w1 = w then rhs else convert w rhs)"

definition logic_and :: "nat \<Rightarrow> nat \<Rightarrow> bytes \<Rightarrow> bytes \<Rightarrow> bytes" where
  "logic_and w w1 x rhs = apply_and x (right_operand w w1 rhs)"

definition logic_or :: "nat \<Rightarrow> nat \<Rightarrow> bytes \<Rightarrow> bytes \<Rightarrow> bytes" where
  "logic_or w w1 x rhs = apply_or x (right_operand w w1 rhs)"

definition logic_xor :: "nat \<Rightarrow> nat \<Rightarrow> bytes \<Rightarrow> bytes \<Rightarrow> bytes" where
  "logic_xor w w1 x rhs = apply_xor x (right_operand w w1 rhs)"

definition logic_and_constexpr :: "nat \<Rightarrow> nat \<Rightarrow> bytes \<Rightarrow> bytes \<Rightarrow> bytes" where
  "logic_and_constexpr w w1 x rhs =
     set_bits_loop (\<lambda>i. logic_get x i \<and> (if i < w1 then logic_get rhs i else False)) w (logic_zero w)"

definition logic_or_constexpr :: "nat \<Rightarrow> nat \<Rightarrow> bytes \<Rightarrow> bytes \<Rightarrow> bytes" where
  "logic_or_constexpr w w1 x rhs =
     set_bits_loop (\<lambda>i. logic_get x i \<or> (if i < w1 then logic_get rhs i else False)) w (logic_zero w)"

definition logic_xor_constexpr :: "nat \<Rightarrow> nat \<Rightarrow> bytes \<Rightarrow> bytes \<Rightarrow> bytes" where
  "logic_xor_constexpr w w1 x rhs =
     set_bits_loop (\<lambda>i. logic_get x i \<noteq> (if i < w1 then logic_get rhs i else False)) w (logic_zero w)"

definition logic_not :: "nat \<Rightarrow> bytes \<Rightarrow> bytes" where
  "logic_not w x = clear_padding w (map NOT x)"

definition to_uint64 :: "bytes \<Rightarrow> u64" where
  "to_uint64 x = load64 x"

definition to_uint64_constexpr :: "bytes \<Rightarrow> u64" where
  "to_uint64_constexpr x =
     fold (\<lambda>i value. value OR push_bit (8 * i) (ucast (x ! i))) [0..<min (length x) 8] 0"

definition to_bool :: "bytes \<Rightarrow> bool" where
  "to_bool x \<longleftrightarrow> to_uint64 x \<noteq> 0"

text \<open>
  \<open>operator+\<close>, \<open>operator-\<close>, \<open>operator<<\<close> and \<open>operator>>\<close> are inherited: the right
  operand is converted to the width of the left one, and the result keeps whatever the
  byte arithmetic leaves in the padding.
\<close>

definition logic_add :: "nat \<Rightarrow> bytes \<Rightarrow> bytes \<Rightarrow> bytes" where
  "logic_add w x rhs = bitops_add x (convert w rhs)"

definition logic_sub :: "nat \<Rightarrow> bytes \<Rightarrow> bytes \<Rightarrow> bytes" where
  "logic_sub w x rhs = bitops_sub x (convert w rhs)"

definition logic_incr :: "nat \<Rightarrow> bytes \<Rightarrow> bytes" where
  "logic_incr w x = assign_uint64 w (to_uint64 x + 1)"

definition logic_decr :: "nat \<Rightarrow> bytes \<Rightarrow> bytes" where
  "logic_decr w x = assign_uint64 w (to_uint64 x - 1)"

text \<open>\<open>slice<LAST, FIRST>()\<close>: byte pairs shifted right, then the tail masked.\<close>

definition byte_pair :: "bytes \<Rightarrow> nat \<Rightarrow> 16 word" where
  "byte_pair x src =
     (if src < length x then ucast (x ! src) else 0) OR
     (if src + 1 < length x then push_bit 8 (ucast (x ! (src + 1))) else 0)"

definition slice_bytes :: "nat \<Rightarrow> nat \<Rightarrow> bytes \<Rightarrow> bytes" where
  "slice_bytes hi lo x =
     (let result_width = hi - lo + 1; source_byte = lo div 8; shift = lo mod 8
      in clear_padding result_width
           (map (\<lambda>dst. let src = source_byte + dst;
                           pair = (if shift \<noteq> 0 then byte_pair x src
                                   else if src < length x then ucast (x ! src) else 0)
                       in ucast (drop_bit shift pair)) [0..<SIZE result_width]))"

text \<open>\<open>bits(last, first) const\<close>: \<open>None\<close> is the exception of the range check.\<close>

definition logic_bits_const :: "nat \<Rightarrow> nat \<Rightarrow> nat \<Rightarrow> bytes \<Rightarrow> bytes option" where
  "logic_bits_const w hi lo x =
     (if lo < w \<and> hi < w \<and> lo \<le> hi
      then Some (set_bits_loop (\<lambda>dst. logic_get x (lo + dst)) (hi + 1 - lo) (logic_zero w))
      else None)"

definition logic_index_const :: "nat \<Rightarrow> nat \<Rightarrow> bytes \<Rightarrow> bytes option" where
  "logic_index_const w bitnum x =
     (if bitnum < w then Some (assign_uint64 1 (of_bool (logic_get x bitnum))) else None)"


section \<open>Values and padding\<close>

lemma SIZE_cases: "w mod 8 = 0 \<Longrightarrow> SIZE w = w div 8" "w mod 8 \<noteq> 0 \<Longrightarrow> SIZE w = Suc (w div 8)"
  unfolding SIZE_def by presburger+

lemma SIZE_bounds: "w \<le> 8 * SIZE w" "8 * SIZE w < w + 8"
  unfolding SIZE_def by presburger+

lemma SIZE_eq_0 [simp]: "SIZE w = 0 \<longleftrightarrow> w = 0"
  using SIZE_bounds [of w] by auto

lemma bit_mask_byte: "k < 8 \<Longrightarrow> bit (push_bit k 1 - 1 :: byte) j \<longleftrightarrow> j < k"
proof -
  assume "k < 8"
  have "(push_bit k 1 - 1 :: byte) = mask k"
    by (simp add: mask_eq_exp_minus_1)
  then show ?thesis
    using \<open>k < 8\<close> by (auto simp: bit_mask_iff possible_bit_word)
qed

lemma bit_list_update:
  "bit (le_val (x[i := b])) n \<longleftrightarrow>
   n div 8 < length x \<and> (if n div 8 = i then bit b (n mod 8) else bit (le_val x) n)"
  by (auto simp: bit_le_val nth_list_update)

lemma length_clear_padding [simp]: "length (clear_padding w x) = length x"
  by (simp add: clear_padding_def)

lemma bit_clear_padding:
  assumes "length x = SIZE w"
  shows "bit (le_val (clear_padding w x)) n \<longleftrightarrow> n < w \<and> bit (le_val x) n"
proof (cases "w mod 8 = 0")
  case True
  then have "8 * length x = w"
    using assms SIZE_cases(1) [of w] by auto
  then show ?thesis
    using True bit_le_val_bound [of x n] by (auto simp: clear_padding_def)
next
  case False
  have last_byte: "SIZE w - 1 = w div 8" and len: "length x = Suc (w div 8)"
    using False SIZE_cases(2) [of w] assms by simp_all
  have pad: "clear_padding w x = x[w div 8 := (x ! (w div 8)) AND (push_bit (w mod 8) 1 - 1)]"
    using False by (simp only: clear_padding_def last_byte if_True not_False_eq_True)
  consider "n div 8 < w div 8" | "n div 8 = w div 8" | "w div 8 < n div 8"
    by linarith
  then show ?thesis
  proof cases
    case 1
    then have "n < w"
      by (metis div_le_mono linorder_not_less)
    then show ?thesis
      using 1 len by (simp add: pad bit_list_update)
  next
    case 2
    then have "n < w \<longleftrightarrow> n mod 8 < w mod 8"
      using div_mult_mod_eq [of n 8] div_mult_mod_eq [of w 8] by linarith
    then show ?thesis
      using 2 len unfolding pad bit_list_update by (simp only: bit_and_iff bit_mask_byte bit_le_val mod_less_divisor) auto
  next
    case 3
    then show ?thesis
      using len by (simp add: pad bit_le_val)
  qed
qed

lemma bit_mod_exp: "bit (x mod 2 ^ w) n \<longleftrightarrow> n < w \<and> bit x (n :: nat)" for x :: nat
  by (simp add: bit_take_bit_iff flip: take_bit_eq_mod)

lemma le_val_clear_padding: "length x = SIZE w \<Longrightarrow> le_val (clear_padding w x) = le_val x mod 2 ^ w"
  by (rule bit_eqI) (simp add: bit_clear_padding bit_mod_exp)

lemma logic_wf_clear_padding: "length x = SIZE w \<Longrightarrow> logic_wf w (clear_padding w x)"
  by (simp add: logic_wf_def le_val_clear_padding)

lemma logic_wf_bit: "logic_wf w x \<Longrightarrow> bit (le_val x) n \<Longrightarrow> n < w"
  by (metis bit_mod_exp logic_wf_def mod_less)

lemma exp_dvd_storage: "(2 :: nat) ^ w dvd 256 ^ SIZE w"
  using SIZE_bounds(1) [of w] by (simp add: pow256 le_imp_power_dvd)

text \<open>Two values of one width are equal when their bits are.\<close>

lemma logic_eqI:
  assumes "length x = length y" and "\<And>n. bit (le_val x) n = bit (le_val y) n"
  shows "x = y"
  using assms by (metis bit_eqI le_val_inj)

lemma store64_nth: "i < 8 \<Longrightarrow> store64 v ! i = ucast (drop_bit (8 * i) v AND 0xff)"
proof (rule bit_word_eqI)
  fix n assume i: "i < 8" and n: "n < LENGTH(8)"
  have "bit (store64 v ! ((8 * i + n) div 8)) ((8 * i + n) mod 8) = bit v (8 * i + n)"
    using i n by (intro bit_store64) simp
  moreover have "(0xff :: u64) = mask 8"
    by (simp add: mask_eq_exp_minus_1)
  then have "drop_bit (8 * i) v AND 0xff = take_bit 8 (drop_bit (8 * i) v)"
    by (simp only: take_bit_eq_mask)
  ultimately show "bit (store64 v ! i) n = bit (ucast (drop_bit (8 * i) v AND 0xff) :: byte) n"
    using n by (simp only: bit_ucast_iff bit_take_bit_iff bit_drop_bit_eq) simp
qed

lemma length_assign_uint64 [simp]: "length (assign_uint64 w v) = SIZE w"
  by (simp add: assign_uint64_def)

lemma assign_uint64_paths: "assign_uint64_constexpr w v = assign_uint64 w v"
proof -
  have "map (\<lambda>i. if i < 8 then ucast (drop_bit (8 * i) v AND 0xff) else 0) [0..<SIZE w] =
      take (min (SIZE w) 8) (store64 v) @ replicate (SIZE w - 8) 0"
    by (rule nth_equalityI) (auto simp: nth_append store64_nth)
  then show ?thesis
    by (simp add: assign_uint64_def assign_uint64_constexpr_def)
qed

lemma le_val_assign_uint64: "le_val (assign_uint64 w v) = unat v mod 2 ^ w"
proof -
  have "le_val (take (min (SIZE w) 8) (store64 v) @ replicate (SIZE w - 8) 0) = unat v mod 256 ^ SIZE w"
  proof (cases "SIZE w \<le> 8")
    case True
    then show ?thesis
      by (simp add: le_val_append le_val_take min_absorb1)
  next
    case False
    then have "(256 :: nat) ^ 8 \<le> 256 ^ SIZE w"
      by (intro power_increasing) simp_all
    then have "unat v < 256 ^ SIZE w"
      using unat_u64_lt [of v] by simp
    then show ?thesis
      using False by (simp add: le_val_append)
  qed
  then show ?thesis
    by (simp add: assign_uint64_def le_val_clear_padding mod_mod_cancel exp_dvd_storage)
qed

lemma logic_wf_assign_uint64 [simp]: "logic_wf w (assign_uint64 w v)"
  by (simp add: logic_wf_def le_val_assign_uint64)

lemma convert_paths: "convert_constexpr w x = convert w x"
proof -
  have "map (\<lambda>i. if i < length x then x ! i else 0) [0..<SIZE w] =
      take (min (SIZE w) (length x)) x @ replicate (SIZE w - length x) 0"
    by (rule nth_equalityI) (auto simp: nth_append)
  then show ?thesis
    by (simp add: convert_def convert_constexpr_def)
qed

lemma length_convert [simp]: "length (convert w x) = SIZE w"
  by (simp add: convert_def)

lemma le_val_convert: "le_val (convert w x) = le_val x mod 2 ^ w"
proof -
  have "le_val (take (min (SIZE w) (length x)) x @ replicate (SIZE w - length x) 0) = le_val x mod 256 ^ SIZE w"
    by (cases "SIZE w \<le> length x") (simp_all add: le_val_append le_val_take min_absorb1 min_absorb2
      flip: le_val_take)
  then show ?thesis
    by (simp add: convert_def le_val_clear_padding mod_mod_cancel exp_dvd_storage)
qed

lemma logic_wf_convert [simp]: "logic_wf w (convert w x)"
  by (simp add: logic_wf_def le_val_convert)

section \<open>Bitwise operators\<close>

lemma logic_get_bit: "n < 8 * length x \<Longrightarrow> logic_get x n = bit (le_val x) n"
  by (auto simp: logic_get_def bit_le_val)

lemma bit_logic_set:
  assumes "m < 8 * length x"
  shows "bit (le_val (logic_set x m b)) n = (if n = m then b else bit (le_val x) n)"
proof -
  have m: "m div 8 < length x"
    using assms by auto
  show ?thesis
  proof (cases "n div 8 = m div 8")
    case True
    then have "n = m \<longleftrightarrow> n mod 8 = m mod 8"
      by (metis div_mult_mod_eq)
    then show ?thesis
      using True m
      by (auto simp: logic_set_def bit_list_update bit_or_iff bit_and_iff bit_not_iff bit_push_bit_iff
          bit_1_iff bit_exp_iff possible_bit_word bit_le_val)
  next
    case False
    then show ?thesis
      using m by (auto simp: logic_set_def bit_list_update bit_le_val)
  qed
qed

lemma length_logic_set [simp]: "length (logic_set x m b) = length x"
  by (simp add: logic_set_def)

lemma length_set_bits_loop [simp]: "length (set_bits_loop p k x) = length x"
  by (induction k) auto

lemma bit_set_bits_loop:
  "k \<le> 8 * length x \<Longrightarrow> bit (le_val (set_bits_loop p k x)) n = (if n < k then p n else bit (le_val x) n)"
  by (induction k) (auto simp: bit_logic_set less_Suc_eq)

lemma logic_zero_simps [simp]: "length (logic_zero w) = SIZE w" "le_val (logic_zero w) = 0"
  by (simp_all add: logic_zero_def)

lemma bit_set_bits_zero:
  "k \<le> w \<Longrightarrow> bit (le_val (set_bits_loop p k (logic_zero w))) n \<longleftrightarrow> n < k \<and> p n"
  using SIZE_bounds(1) [of w] by (subst bit_set_bits_loop) auto

lemma bit_convert: "bit (le_val (convert w x)) n \<longleftrightarrow> n < w \<and> bit (le_val x) n"
  by (simp add: le_val_convert bit_mod_exp)

lemma right_operand_same [simp]: "right_operand w w rhs = rhs"
  by (simp add: right_operand_def)

lemma right_operand_wf:
  assumes "logic_wf w1 y"
  shows "length (right_operand w w1 y) = SIZE w"
    and "bit (le_val (right_operand w w1 y)) n \<longleftrightarrow> n < w \<and> bit (le_val y) n"
  using assms logic_wf_bit [OF assms, of n] by (auto simp: right_operand_def bit_convert logic_wf_def)

lemma logic_and_paths:
  assumes "logic_wf w x" and "logic_wf w1 y"
  shows "logic_and_constexpr w w1 x y = logic_and w w1 x y"
proof (rule logic_eqI)
  have len: "length x = SIZE w" "length y = SIZE w1"
    using assms by (simp_all add: logic_wf_def)
  then show "length (logic_and_constexpr w w1 x y) = length (logic_and w w1 x y)"
    by (simp add: logic_and_constexpr_def logic_and_def apply_and_def right_operand_wf [OF assms(2)])
  fix n
  show "bit (le_val (logic_and_constexpr w w1 x y)) n = bit (le_val (logic_and w w1 x y)) n"
    using len SIZE_bounds(1) [of w] SIZE_bounds(1) [of w1] logic_wf_bit [OF assms(2), of n]
    by (auto simp: logic_and_constexpr_def logic_and_def bit_set_bits_zero le_val_and bit_and_iff
        right_operand_wf [OF assms(2)] logic_get_bit)
qed

lemma logic_or_paths:
  assumes "logic_wf w x" and "logic_wf w1 y"
  shows "logic_or_constexpr w w1 x y = logic_or w w1 x y"
proof (rule logic_eqI)
  have len: "length x = SIZE w" "length y = SIZE w1"
    using assms by (simp_all add: logic_wf_def)
  then show "length (logic_or_constexpr w w1 x y) = length (logic_or w w1 x y)"
    by (simp add: logic_or_constexpr_def logic_or_def apply_or_def right_operand_wf [OF assms(2)])
  fix n
  show "bit (le_val (logic_or_constexpr w w1 x y)) n = bit (le_val (logic_or w w1 x y)) n"
    using len SIZE_bounds(1) [of w] SIZE_bounds(1) [of w1] logic_wf_bit [OF assms(1), of n]
      logic_wf_bit [OF assms(2), of n]
    by (auto simp: logic_or_constexpr_def logic_or_def bit_set_bits_zero le_val_or bit_or_iff
        right_operand_wf [OF assms(2)] logic_get_bit)
qed

lemma logic_xor_paths:
  assumes "logic_wf w x" and "logic_wf w1 y"
  shows "logic_xor_constexpr w w1 x y = logic_xor w w1 x y"
proof (rule logic_eqI)
  have len: "length x = SIZE w" "length y = SIZE w1"
    using assms by (simp_all add: logic_wf_def)
  then show "length (logic_xor_constexpr w w1 x y) = length (logic_xor w w1 x y)"
    by (simp add: logic_xor_constexpr_def logic_xor_def apply_xor_def right_operand_wf [OF assms(2)])
  fix n
  show "bit (le_val (logic_xor_constexpr w w1 x y)) n = bit (le_val (logic_xor w w1 x y)) n"
    using len SIZE_bounds(1) [of w] SIZE_bounds(1) [of w1] logic_wf_bit [OF assms(1), of n]
      logic_wf_bit [OF assms(2), of n]
    by (auto simp: logic_xor_constexpr_def logic_xor_def bit_set_bits_zero le_val_xor bit_xor_iff
        right_operand_wf [OF assms(2)] logic_get_bit)
qed

lemma to_uint64_paths: "to_uint64_constexpr x = to_uint64 x"
proof (rule bit_word_eqI)
  fix n assume n: "n < LENGTH(64)"
  have loop: "bit (fold (\<lambda>i value. value OR push_bit (8 * i) (ucast (x ! i))) [0..<k] (0 :: u64)) n \<longleftrightarrow>
      n div 8 < k \<and> bit (x ! (n div 8)) (n mod 8)" if "k \<le> 8" for k
    using that
  proof (induction k)
    case (Suc k)
    have "bit (push_bit (8 * k) (ucast (x ! k)) :: u64) n \<longleftrightarrow> n div 8 = k \<and> bit (x ! k) (n mod 8)"
    proof (cases "n div 8 = k")
      case True
      then have "n - 8 * k = n mod 8" and "8 * k \<le> n"
        using minus_mult_div_eq_mod [of n 8] by auto
      moreover have "n mod 8 < 64"
        using mod_less_divisor [of 8 n] by linarith
      ultimately show ?thesis
        using True n by (simp add: bit_push_bit_iff bit_ucast_iff)
    next
      case False
      then have "n < 8 * k \<or> 8 \<le> n - 8 * k"
        by linarith
      then show ?thesis
        using False n bit_byte_bound [of "x ! k" "n - 8 * k"]
        by (auto simp: bit_push_bit_iff bit_ucast_iff)
    qed
    then show ?case
      using Suc by (auto simp: bit_or_iff less_Suc_eq)
  qed simp
  have "n div 8 < 8"
    using n by simp
  then show "bit (to_uint64_constexpr x) n = bit (to_uint64 x) n"
    using n by (auto simp: to_uint64_constexpr_def to_uint64_def loop bit_load64)
qed

section \<open>Slices\<close>

lemma bit_le_val_map:
  "bit (le_val (map f [0..<m])) n \<longleftrightarrow> n div 8 < m \<and> bit (f (n div 8)) (n mod 8)"
  by (auto simp: bit_le_val)

lemma bit_le_val_at: "j < 8 \<Longrightarrow> bit (le_val x) (8 * i + j) \<longleftrightarrow> i < length x \<and> bit (x ! i) j"
  by (simp add: bit_le_val)

lemma bit_byte_pair:
  assumes "k < 16"
  shows "bit (byte_pair x src) k \<longleftrightarrow> bit (le_val x) (8 * src + k)"
proof (cases "k < 8")
  case True
  then show ?thesis
    by (simp add: byte_pair_def bit_or_iff bit_push_bit_iff bit_ucast_iff bit_le_val_at)
next
  case False
  then have "bit (le_val x) (8 * src + k) = bit (le_val x) (8 * (src + 1) + (k - 8))"
    by (simp add: algebra_simps)
  moreover have "k - 8 < 8"
    using False assms by simp
  moreover have "\<not> bit (x ! src) k"
    using False bit_byte_bound [of "x ! src" k] by auto
  ultimately show ?thesis
    using False assms by (simp only: bit_le_val_at)
      (simp add: byte_pair_def bit_or_iff bit_push_bit_iff bit_ucast_iff)
qed

text \<open>One result byte of a slice: eight bits of the source from bit \<open>8 * src + shift\<close>.\<close>

lemma bit_shifted_pair:
  assumes "shift < 8" and "j < 8"
  shows "bit (ucast (drop_bit shift (if shift \<noteq> 0 then byte_pair x src
      else if src < length x then ucast (x ! src) else 0)) :: byte) j \<longleftrightarrow> bit (le_val x) (8 * src + shift + j)"
proof (cases "shift = 0")
  case True
  then show ?thesis
    using assms(2) by (simp add: bit_ucast_iff bit_le_val_at)
next
  case False
  have "bit (byte_pair x src) (shift + j) \<longleftrightarrow> bit (le_val x) (8 * src + (shift + j))"
    using assms by (intro bit_byte_pair) simp
  then show ?thesis
    using False assms by (simp add: bit_ucast_iff bit_drop_bit_eq ac_simps)
qed

lemma length_slice_bytes [simp]: "length (slice_bytes hi lo x) = SIZE (hi - lo + 1)"
  by (simp add: slice_bytes_def Let_def)

lemma bit_slice_bytes:
  "bit (le_val (slice_bytes hi lo x)) n \<longleftrightarrow> n < hi - lo + 1 \<and> bit (le_val x) (lo + n)"
proof -
  define f where "f = (\<lambda>dst. ucast (drop_bit (lo mod 8) (if lo mod 8 \<noteq> 0 then byte_pair x (lo div 8 + dst)
      else if lo div 8 + dst < length x then ucast (x ! (lo div 8 + dst)) else 0)) :: byte)"
  have s: "slice_bytes hi lo x = clear_padding (hi - lo + 1) (map f [0..<SIZE (hi - lo + 1)])"
    by (simp only: slice_bytes_def Let_def f_def)
  have "bit (f (n div 8)) (n mod 8) \<longleftrightarrow> bit (le_val x) (8 * (lo div 8 + n div 8) + lo mod 8 + n mod 8)"
    unfolding f_def by (rule bit_shifted_pair) simp_all
  moreover have "8 * (lo div 8 + n div 8) + lo mod 8 + n mod 8 = lo + n"
    by simp
  ultimately have "bit (f (n div 8)) (n mod 8) \<longleftrightarrow> bit (le_val x) (lo + n)"
    by (simp only:)
  moreover have "n < hi - lo + 1 \<Longrightarrow> n div 8 < SIZE (hi - lo + 1)"
    using SIZE_bounds(1) [of "hi - lo + 1"] by linarith
  ultimately show ?thesis
    unfolding s by (subst bit_clear_padding) (auto simp: bit_le_val_map)
qed

lemma le_val_slice_bytes: "le_val (slice_bytes hi lo x) = le_val x div 2 ^ lo mod 2 ^ (hi - lo + 1)"
  by (rule bit_eqI) (simp add: bit_slice_bytes bit_mod_exp bit_drop_bit_eq del: power_Suc flip: drop_bit_eq_div)

lemma logic_wf_slice_bytes: "logic_wf (hi - lo + 1) (slice_bytes hi lo x)"
  by (simp only: logic_wf_def length_slice_bytes le_val_slice_bytes) simp

lemma logic_bits_const_Some:
  assumes "logic_wf w x" and "lo \<le> hi" and "hi < w"
  obtains r where "logic_bits_const w hi lo x = Some r" and "length r = SIZE w"
    and "\<And>n. bit (le_val r) n \<longleftrightarrow> n < hi - lo + 1 \<and> bit (le_val x) (lo + n)"
proof
  let ?r = "set_bits_loop (\<lambda>dst. logic_get x (lo + dst)) (hi + 1 - lo) (logic_zero w)"
  show "logic_bits_const w hi lo x = Some ?r"
    using assms by (simp add: logic_bits_const_def)
  show "length ?r = SIZE w" by simp
  fix n
  have "8 * length x \<ge> w"
    using assms(1) SIZE_bounds(1) [of w] by (simp add: logic_wf_def)
  then have "n < hi + 1 - lo \<Longrightarrow> logic_get x (lo + n) = bit (le_val x) (lo + n)"
    using assms by (intro logic_get_bit) linarith
  moreover have "bit (le_val ?r) n \<longleftrightarrow> n < hi + 1 - lo \<and> logic_get x (lo + n)"
    using assms by (intro bit_set_bits_zero) linarith
  moreover have "hi + 1 - lo = hi - lo + 1"
    using assms by linarith
  ultimately show "bit (le_val ?r) n \<longleftrightarrow> n < hi - lo + 1 \<and> bit (le_val x) (lo + n)"
    by auto
qed

section \<open>Arithmetic\<close>

lemma length_logic_add [simp]: "length x = SIZE w \<Longrightarrow> length (logic_add w x rhs) = SIZE w"
  by (simp add: logic_add_def)

lemma mod_storage: "(x mod 256 ^ SIZE w) mod 2 ^ w = x mod (2 :: nat) ^ w"
  by (simp add: mod_mod_cancel exp_dvd_storage)

lemma le_val_logic_add:
  assumes "length x = SIZE w"
  shows "le_val (logic_add w x rhs) mod 2 ^ w = (le_val x + le_val rhs) mod 2 ^ w"
proof -
  have "le_val (logic_add w x rhs) = (le_val x + le_val rhs mod 2 ^ w) mod 256 ^ SIZE w"
    using assms unfolding logic_add_def by (subst le_val_bitops_add) (simp_all only: length_convert le_val_convert)
  then show ?thesis
    by (simp only: mod_storage mod_add_right_eq)
qed

lemma bit_map_not: "bit (le_val (map NOT x)) n \<longleftrightarrow> n < 8 * length x \<and> \<not> bit (le_val x) n"
  by (auto simp: bit_le_val bit_not_iff possible_bit_word)

lemma le_val_logic_not:
  assumes "logic_wf w x"
  shows "le_val (logic_not w x) = mask w - le_val x"
proof -
  have len: "length x = SIZE w"
    using assms by (simp add: logic_wf_def)
  have "bit (le_val (logic_not w x)) n \<longleftrightarrow> n < w \<and> \<not> bit (le_val x) n" for n
    using SIZE_bounds(1) [of w] len by (auto simp: logic_not_def bit_clear_padding bit_map_not)
  then have "le_val (logic_not w x) + le_val x = mask w"
    using logic_wf_bit [OF assms] by (subst disjunctive_add) (auto simp: bit_or_iff bit_mask_iff intro!: bit_eqI)
  then show ?thesis by simp
qed

section \<open>Properties\<close>

text \<open>
  assigning an integer or a value of another width truncates or zero-extends to the
  declared width and leaves no padding bit set; the run-time path (one copy and a mask) and
  the constant-evaluation path (byte by byte) agree.
\<close>

theorem assignment_truncates:
  "logic_wf w (assign_uint64 w v) \<and> le_val (assign_uint64 w v) = unat v mod 2 ^ w \<and>
   assign_uint64_constexpr w v = assign_uint64 w v \<and>
   logic_wf w (convert w x) \<and> le_val (convert w x) = le_val x mod 2 ^ w \<and>
   convert_constexpr w x = convert w x"
  by (simp add: le_val_assign_uint64 assign_uint64_paths le_val_convert convert_paths)

text \<open>
  \<open>operator&\<close>, \<open>operator|\<close>, \<open>operator^\<close> and the conversion to \<open>uint64_t\<close> give the
  same bytes at run time, in chunks, as in constant evaluation, bit by bit.
\<close>

theorem bitwise_paths_agree:
  assumes "logic_wf w x" and "logic_wf w1 y"
  shows "logic_and_constexpr w w1 x y = logic_and w w1 x y \<and>
    logic_or_constexpr w w1 x y = logic_or w w1 x y \<and>
    logic_xor_constexpr w w1 x y = logic_xor w w1 x y \<and>
    to_uint64_constexpr x = to_uint64 x"
  using logic_and_paths [OF assms] logic_or_paths [OF assms] logic_xor_paths [OF assms] to_uint64_paths
  by simp_all

lemma bitwise_paths_agree_witness:
  "logic_wf 12 [0xF0, 0x0A] \<and> logic_wf 4 [0x0F] \<and>
   logic_or_constexpr 12 4 [0xF0, 0x0A] [0x0F] = logic_or 12 4 [0xF0, 0x0A] [0x0F]"
  using bitwise_paths_agree [of 12 "[0xF0, 0x0A]" 4 "[0x0F]"] by (simp add: logic_wf_def SIZE_def)

text \<open>\<open>operator~\<close> is the complement within the declared width.\<close>

theorem complement_is_numeric:
  assumes "logic_wf w x"
  shows "logic_wf w (logic_not w x) \<and> le_val (logic_not w x) = mask w - le_val x"
proof
  show "logic_wf w (logic_not w x)"
    unfolding logic_not_def by (rule logic_wf_clear_padding) (use assms in \<open>simp add: logic_wf_def\<close>)
qed (rule le_val_logic_not [OF assms])

lemma complement_is_numeric_witness: "le_val (logic_not 12 [0xF0, 0x0A]) = 0x50F"
  using complement_is_numeric [of 12 "[0xF0, 0x0A]"] by (simp add: logic_wf_def SIZE_def mask_eq_exp_minus_1)

text \<open>
  \<open>slice<LAST, FIRST>()\<close> is the field \<open>FIRST .. LAST\<close> of the number, at the width of
  the field and without padding bits.
\<close>

theorem slice_extracts_field:
  "logic_wf (hi - lo + 1) (slice_bytes hi lo x) \<and>
   le_val (slice_bytes hi lo x) = le_val x div 2 ^ lo mod 2 ^ (hi - lo + 1)"
  by (simp only: logic_wf_slice_bytes le_val_slice_bytes)

text \<open>addition of values of any two widths is right in the declared bits.\<close>

theorem logic_add_declared_bits:
  assumes "length x = SIZE w"
  shows "le_val (logic_add w x rhs) mod 2 ^ w = (le_val x + le_val rhs) mod 2 ^ w"
  using assms by (rule le_val_logic_add)

lemma logic_add_declared_bits_witness: "le_val (logic_add 4 [15] [1]) mod 16 = 0"
  using logic_add_declared_bits [of "[15]" 4 "[1]"] by (simp add: SIZE_def)

text \<open>
  the sum is not a value of the declared width: its carry stays in the padding, so
  that \<open>logic<4>(15) + logic<4>(1)\<close> is true as a condition and not equal to 0.
\<close>

theorem logic_add_sets_padding:
  "logic_wf 4 [15] \<and> logic_wf 4 [1] \<and> \<not> logic_wf 4 (logic_add 4 [15] [1]) \<and>
   to_bool (logic_add 4 [15] [1]) \<and> \<not> bitops_eq (logic_add 4 [15] [1]) (logic_zero 4)"
  by code_simp

text \<open>
  \<open>operator++\<close> and \<open>operator--\<close> count modulo the width for at most 64 bits.
\<close>

theorem incr_decr_modular:
  assumes "logic_wf w x" and "w \<le> 64"
  shows "le_val (logic_incr w x) = (le_val x + 1) mod 2 ^ w \<and>
    (le_val (logic_decr w x) + 1) mod 2 ^ w = le_val x"
proof
  have small: "le_val x < 2 ^ w" and len: "length x \<le> 8"
    using assms SIZE_bounds(2) [of w] by (auto simp: logic_wf_def)
  have dvd: "(2 :: nat) ^ w dvd 2 ^ 64"
    using assms(2) by (rule le_imp_power_dvd)
  have x: "unat (to_uint64 x) = le_val x"
    using len by (simp add: to_uint64_def unat_load64)
  have "unat (to_uint64 x + 1) = (le_val x + 1) mod 2 ^ 64"
    by (simp add: unat_word_ariths x)
  then show "le_val (logic_incr w x) = (le_val x + 1) mod 2 ^ w"
    by (simp only: logic_incr_def le_val_assign_uint64 mod_mod_cancel [OF dvd])
  have "(unat (to_uint64 x - 1) + 1) mod 2 ^ 64 = unat (to_uint64 x - 1 + 1)"
    by (simp only: unat_word_ariths(1)) simp
  then have down: "(unat (to_uint64 x - 1) + 1) mod 2 ^ 64 = le_val x"
    by (simp add: x)
  have "(le_val (logic_decr w x) + 1) mod 2 ^ w = (unat (to_uint64 x - 1) + 1) mod 2 ^ w"
    by (simp only: logic_decr_def le_val_assign_uint64 mod_add_left_eq)
  also have "\<dots> = le_val x mod 2 ^ w"
    by (metis mod_mod_cancel [OF dvd] down)
  finally show "(le_val (logic_decr w x) + 1) mod 2 ^ w = le_val x"
    using small by simp
qed

lemma incr_decr_modular_witness: "le_val (logic_incr 12 [0xFF, 0x0F]) = 0"
  using incr_decr_modular [of 12 "[0xFF, 0x0F]"] by (simp add: logic_wf_def SIZE_def)

text \<open>
  a value wider than 64 bits loses its upper bits when it is incremented: both
  operators go through \<open>uint64_t\<close>.
\<close>

theorem incr_drops_upper_bits:
  "logic_wf 72 [0, 0, 0, 0, 0, 0, 0, 0, 1] \<and>
   le_val (logic_incr 72 [0, 0, 0, 0, 0, 0, 0, 0, 1]) = 1"
  by (simp add: logic_incr_def le_val_assign_uint64 to_uint64_def load64_def logic_wf_def SIZE_def)

end
