(* ===== verification/LogicBits.thy ===== *)
theory LogicBits
  imports Logic
begin

text \<open>
  The write proxy \<open>logic_bits\<close> of \<open>include/cpphdl_logic.h\<close>: \<open>x.bits(last, first)\<close>
  and \<open>x[i]\<close> on a mutable value give a snapshot of a bit range together with the
  position it came from, and an assignment to it writes the range back into the parent.
  The parent is passed in and returned, as the code keeps a pointer to it.
\<close>

section \<open>The write proxy\<close>

text \<open>
  \<open>logic_bits<WIDTH>\<close>: a copy of bits \<open>first .. last\<close> of a parent, which writes itself
  back. The constructor copies bytes, masks the last one and clears the rest.
\<close>

record proxy =
  own :: bytes
  p_first :: nat
  p_last :: nat

definition proxy_of :: "nat \<Rightarrow> bytes \<Rightarrow> nat \<Rightarrow> nat \<Rightarrow> proxy" where
  "proxy_of w parent lo hi =
     (let bitCount = hi + 1 - lo; byteCount = (bitCount + 7) div 8;
          sourceByte = lo div 8; shift = lo mod 8;
          copied = (if shift = 0 then take byteCount (drop sourceByte parent)
                    else map (\<lambda>dst. ucast (drop_bit shift (byte_pair parent (sourceByte + dst)))) [0..<byteCount]);
          masked = (if bitCount mod 8 \<noteq> 0
                    then copied[byteCount - 1 := (copied ! (byteCount - 1)) AND (push_bit (bitCount mod 8) 1 - 1)]
                    else copied)
      in \<lparr>own = masked @ replicate (SIZE w - byteCount) 0, p_first = lo, p_last = hi\<rparr>)"

text \<open>\<open>bits(last, first)\<close> on a mutable value; \<open>None\<close> is the exception of the range check.\<close>

definition logic_bits :: "nat \<Rightarrow> nat \<Rightarrow> nat \<Rightarrow> bytes \<Rightarrow> proxy option" where
  "logic_bits w hi lo parent =
     (if lo < w \<and> hi < w \<and> lo \<le> hi then Some (proxy_of w parent lo hi) else None)"

text \<open>Loads and stores of one to eight bytes by power-of-two copies.\<close>

definition load_writeback_word :: "bytes \<Rightarrow> nat \<Rightarrow> u64" where
  "load_writeback_word src n =
     (if n = 8 then load64 (take 8 src)
      else let (r4, src4, n4, s4) =
                 (if 4 \<le> n then (of_nat (le_val (take 4 src)), drop 4 src, n - 4, 32) else (0, src, n, 0));
               (r2, src2, n2, s2) =
                 (if 2 \<le> n4 then (r4 OR push_bit s4 (of_nat (le_val (take 2 src4))), drop 2 src4, n4 - 2, s4 + 16)
                  else (r4, src4, n4, s4))
           in if n2 \<noteq> 0 then r2 OR push_bit s2 (ucast (src2 ! 0)) else r2)"

definition store_writeback_word :: "u64 \<Rightarrow> nat \<Rightarrow> bytes" where
  "store_writeback_word v n =
     (if n = 8 then store64 v
      else let (b4, v4, n4) = (if 4 \<le> n then (take 4 (store64 v), drop_bit 32 v, n - 4) else ([], v, n));
               (b2, v2, n2) = (if 2 \<le> n4 then (b4 @ take 2 (store64 v4), drop_bit 16 v4, n4 - 2) else (b4, v4, n4))
           in if n2 \<noteq> 0 then b2 @ [ucast v2] else b2)"

text \<open>Overwriting a byte range of the parent, the effect of a store through a pointer.\<close>

definition put_bytes :: "bytes \<Rightarrow> nat \<Rightarrow> bytes \<Rightarrow> bytes" where
  "put_bytes x at new = take at x @ new @ drop (at + length new) x"

text \<open>The write-back of a value of at most 64 bits.\<close>

definition update_parent_narrow :: "proxy \<Rightarrow> bytes \<Rightarrow> bytes" where
  "update_parent_narrow p parent =
     (let source = load64 (own p); destination = load64 parent;
          count = p_last p - p_first p + 1;
          m = push_bit (p_first p) (drop_bit (64 - count) (NOT 0));
          result = (destination AND NOT m) OR (push_bit (p_first p) source AND m)
      in take (length parent) (store64 result))"

text \<open>
  The write-back of a wider value: one iteration moves up to 64 bits, so that the
  destination word never crosses eight bytes. The ninth source byte is read only when the
  chunk needs it, and a chunk that fills the word does not read the destination.
\<close>

definition writeback_chunk :: "nat \<Rightarrow> nat \<Rightarrow> nat" where
  "writeback_chunk destinationFirst count = min count (64 - destinationFirst mod 8)"

definition writeback_step :: "bytes \<Rightarrow> nat \<Rightarrow> nat \<Rightarrow> nat \<Rightarrow> bytes \<Rightarrow> bytes" where
  "writeback_step src destinationFirst sourceFirst chunk parent =
     (let destinationShift = destinationFirst mod 8;
          sourceShift = sourceFirst mod 8;
          sourceBytes = (sourceShift + chunk + 7) div 8;
          destinationBytes = (destinationShift + chunk + 7) div 8;
          low = drop_bit sourceShift
                  (load_writeback_word (drop (sourceFirst div 8) src) (min sourceBytes 8));
          incoming = (if 8 < sourceBytes
                      then low OR push_bit (64 - sourceShift) (ucast (src ! (sourceFirst div 8 + 8)))
                      else low);
          m = push_bit destinationShift (drop_bit (64 - chunk) (NOT 0));
          previous = (if m \<noteq> NOT 0
                      then load_writeback_word (drop (destinationFirst div 8) parent) destinationBytes
                      else 0);
          result = (previous AND NOT m) OR (push_bit destinationShift incoming AND m)
      in put_bytes parent (destinationFirst div 8) (store_writeback_word result destinationBytes))"

function update_parent_loop :: "bytes \<Rightarrow> nat \<Rightarrow> nat \<Rightarrow> nat \<Rightarrow> bytes \<Rightarrow> bytes" where
  "update_parent_loop src destinationFirst sourceFirst count parent =
     (if count = 0 then parent
      else update_parent_loop src
             (destinationFirst + writeback_chunk destinationFirst count)
             (sourceFirst + writeback_chunk destinationFirst count)
             (count - writeback_chunk destinationFirst count)
             (writeback_step src destinationFirst sourceFirst (writeback_chunk destinationFirst count) parent))"
  by pat_completeness auto
termination
  by (relation "measure (\<lambda>(src, d, s, count, parent). count)") (auto simp: writeback_chunk_def)

definition update_parent :: "nat \<Rightarrow> proxy \<Rightarrow> bytes \<Rightarrow> bytes" where
  "update_parent w p parent =
     (if 0 < w \<and> w \<le> 64 then update_parent_narrow p parent
      else update_parent_loop (own p) (p_first p) 0 (p_last p - p_first p + 1) parent)"

text \<open>Assignments to a proxy: from a value, from an integer, and the compound ones.\<close>

definition proxy_assign :: "nat \<Rightarrow> proxy \<Rightarrow> bytes \<Rightarrow> bytes \<Rightarrow> bytes" where
  "proxy_assign w p other parent = update_parent w (p\<lparr>own := convert w other\<rparr>) parent"

definition proxy_assign_uint64 :: "nat \<Rightarrow> proxy \<Rightarrow> u64 \<Rightarrow> bytes \<Rightarrow> bytes" where
  "proxy_assign_uint64 w p v parent = update_parent w (p\<lparr>own := assign_uint64 w v\<rparr>) parent"

definition proxy_and :: "nat \<Rightarrow> nat \<Rightarrow> proxy \<Rightarrow> bytes \<Rightarrow> bytes \<Rightarrow> bytes" where
  "proxy_and w w1 p rhs parent = update_parent w (p\<lparr>own := logic_and w w1 (own p) rhs\<rparr>) parent"

definition proxy_or :: "nat \<Rightarrow> nat \<Rightarrow> proxy \<Rightarrow> bytes \<Rightarrow> bytes \<Rightarrow> bytes" where
  "proxy_or w w1 p rhs parent = update_parent w (p\<lparr>own := logic_or w w1 (own p) rhs\<rparr>) parent"

definition proxy_xor :: "nat \<Rightarrow> nat \<Rightarrow> proxy \<Rightarrow> bytes \<Rightarrow> bytes \<Rightarrow> bytes" where
  "proxy_xor w w1 p rhs parent = update_parent w (p\<lparr>own := logic_xor w w1 (own p) rhs\<rparr>) parent"

declare update_parent_loop.simps [simp del]

section \<open>Reading a range\<close>

lemma bit_take_bytes: "bit (le_val (take m x)) n \<longleftrightarrow> n < 8 * m \<and> bit (le_val x) n"
  by (auto simp: bit_le_val)

lemma bit_drop_bytes: "bit (le_val (drop m x)) n \<longleftrightarrow> bit (le_val x) (8 * m + n)"
  by (cases "m + n div 8 < length x") (auto simp: bit_le_val nth_drop)

lemma bit_append_bytes:
  "bit (le_val (x @ y)) n = (if n < 8 * length x then bit (le_val x) n else bit (le_val y) (n - 8 * length x))"
proof (cases "n < 8 * length x")
  case True
  then have "n div 8 < length x" by linarith
  then show ?thesis
    using True by (simp add: bit_le_val nth_append)
next
  case False
  then obtain m where "n = 8 * length x + m"
    by (metis le_add_diff_inverse not_less)
  then show ?thesis
    by (simp add: bit_le_val nth_append)
qed

text \<open>The copied bytes of the constructor are those of \<open>slice_bytes\<close>.\<close>

lemma byte_via_pair [simp]: "ucast (ucast b :: 16 word) = (b :: byte)"
  by (rule bit_word_eqI) (simp add: bit_ucast_iff)

lemma own_proxy_of:
  assumes "lo \<le> hi" and "hi < 8 * length parent"
  shows "own (proxy_of w parent lo hi) =
    slice_bytes hi lo parent @ replicate (SIZE w - SIZE (hi - lo + 1)) 0"
proof -
  let ?c = "hi - lo + 1"
  have c: "hi + 1 - lo = ?c" and bc: "(?c + 7) div 8 = SIZE ?c"
    using assms(1) by (simp_all add: SIZE_def)
  have room: "lo div 8 + SIZE ?c \<le> length parent + (if lo mod 8 = 0 then 0 else 1)"
    using assms SIZE_bounds(2) [of ?c] by (auto split: if_splits)
  have "(if lo mod 8 = 0 then take (SIZE ?c) (drop (lo div 8) parent)
      else map (\<lambda>dst. ucast (drop_bit (lo mod 8) (byte_pair parent (lo div 8 + dst)))) [0..<SIZE ?c]) =
      map (\<lambda>dst. ucast (drop_bit (lo mod 8) (if lo mod 8 \<noteq> 0 then byte_pair parent (lo div 8 + dst)
        else if lo div 8 + dst < length parent then ucast (parent ! (lo div 8 + dst)) else 0))) [0..<SIZE ?c]"
    using room by (auto intro!: nth_equalityI)
  then show ?thesis
    by (simp only: proxy_of_def slice_bytes_def clear_padding_def Let_def c bc proxy.simps)
qed

lemma bit_own_proxy_of:
  assumes "lo \<le> hi" and "hi < 8 * length parent"
  shows "bit (le_val (own (proxy_of w parent lo hi))) n \<longleftrightarrow> n < hi - lo + 1 \<and> bit (le_val parent) (lo + n)"
  using SIZE_bounds(1) [of "hi - lo + 1"]
  by (auto simp: own_proxy_of [OF assms] bit_append_bytes bit_slice_bytes)

lemma bit_writeback_mask:
  assumes "count \<le> 64" and "n < 64"
  shows "bit (push_bit at (drop_bit (64 - count) (NOT 0)) :: u64) n \<longleftrightarrow> at \<le> n \<and> n < at + count"
  using assms by (auto simp: bit_push_bit_iff bit_drop_bit_eq bit_not_iff bit_mask_iff possible_bit_word)

text \<open>What a write-back must do: replace the bits \<open>d .. d + count - 1\<close> of the parent.\<close>

definition bits_replaced :: "bytes \<Rightarrow> nat \<Rightarrow> nat \<Rightarrow> nat \<Rightarrow> bytes \<Rightarrow> bytes \<Rightarrow> bool" where
  "bits_replaced src d s count parent result \<longleftrightarrow>
     length result = length parent \<and>
     (\<forall>n. bit (le_val result) n =
       (if d \<le> n \<and> n < d + count then bit (le_val src) (s + (n - d)) else bit (le_val parent) n))"

lemma update_parent_narrow_replaces:
  assumes "p_first p \<le> p_last p" and "p_last p < 8 * length parent" and "length parent \<le> 8"
  shows "bits_replaced (own p) (p_first p) 0 (p_last p - p_first p + 1) parent (update_parent_narrow p parent)"
  unfolding bits_replaced_def
proof (intro conjI allI)
  show "length (update_parent_narrow p parent) = length parent"
    using assms(3) by (simp add: update_parent_narrow_def Let_def)
  fix n
  let ?c = "p_last p - p_first p + 1"
  have c64: "?c \<le> 64" and hi: "p_last p = p_first p + ?c - 1"
    using assms by linarith+
  show "bit (le_val (update_parent_narrow p parent)) n =
      (if p_first p \<le> n \<and> n < p_first p + ?c then bit (le_val (own p)) (0 + (n - p_first p))
       else bit (le_val parent) n)"
  proof (cases "n < 8 * length parent")
    case True
    then have n: "n < 64"
      using assms(3) by linarith
    have shifted: "p_first p \<le> n \<Longrightarrow> n - p_first p < 64"
      using n by linarith
    show ?thesis
    proof (cases "p_first p \<le> n \<and> n < p_first p + ?c")
      case True
      then show ?thesis
        using \<open>n < 8 * length parent\<close> n shifted bit_writeback_mask [OF c64 n, of "p_first p"]
        by (simp add: update_parent_narrow_def Let_def bit_take_bytes bit_unsigned_iff bit_or_iff bit_and_iff
            bit_not_iff bit_load64_val bit_push_bit_iff possible_bit_word)
    next
      case False
      then show ?thesis
        using \<open>n < 8 * length parent\<close> n bit_writeback_mask [OF c64 n, of "p_first p"]
        by (auto simp: update_parent_narrow_def Let_def bit_take_bytes bit_unsigned_iff bit_or_iff bit_and_iff
            bit_not_iff bit_load64_val possible_bit_word)
    qed
  next
    case False
    then have "\<not> bit (le_val parent) n" and "\<not> n < p_first p + ?c"
      using bit_le_val_bound [of parent n] assms by auto
    then show ?thesis
      using False by (simp add: update_parent_narrow_def Let_def bit_take_bytes)
  qed
qed

lemma nat_lt_9_cases:
  assumes "n \<le> (8 :: nat)"
  obtains "n = 0" | "n = 1" | "n = 2" | "n = 3" | "n = 4" | "n = 5" | "n = 6" | "n = 7" | "n = 8"
  using assms by linarith

lemma bit_word_of_nat_iff: "bit (of_nat n :: u64) k \<longleftrightarrow> k < 64 \<and> bit n k"
  using bit_word_of_int_iff [of "int n" k, where 'a = 64] by (simp add: bit_of_nat_iff possible_bit_word)

lemma bit_of_nat_le_val:
  "bit (of_nat (le_val (take m x)) :: u64) k \<longleftrightarrow> k < 64 \<and> k < 8 * m \<and> bit (le_val x) k"
  by (auto simp: bit_word_of_nat_iff bit_take_bytes)

section \<open>The write-back of wide values\<close>

lemma loaded_append:
  "(of_nat (le_val (take m x)) :: u64) OR push_bit (8 * m) (of_nat (le_val (take j (drop m x)))) =
    of_nat (le_val (take (m + j) x))"
  by (rule bit_word_eqI)
    (auto simp: bit_or_iff bit_push_bit_iff bit_of_nat_le_val bit_drop_bytes)

lemma loaded_byte: "x \<noteq> [] \<Longrightarrow> ucast (x ! 0) = (of_nat (le_val (take 1 x)) :: u64)"
  by (cases x) (auto simp: bit_word_of_nat_iff bit_unsigned_iff bit_ucast_iff intro!: bit_word_eqI dest: bit_imp_le_length)

lemma load_writeback_word_eq:
  assumes "n \<le> 8" and "n \<le> length x"
  shows "load_writeback_word x n = of_nat (le_val (take n x))"
  using assms(1)
proof (cases rule: nat_lt_9_cases)
  case 2
  then show ?thesis
    using assms(2) loaded_byte [of x] by (cases x) (simp_all add: load_writeback_word_def)
next
  case 4
  then show ?thesis
    using assms(2) loaded_append [of 2 x 1] loaded_byte [of "drop 2 x"] by (simp add: load_writeback_word_def)
next
  case 6
  then show ?thesis
    using assms(2) loaded_append [of 4 x 1] loaded_byte [of "drop 4 x"] by (simp add: load_writeback_word_def)
next
  case 7
  then show ?thesis
    using assms(2) loaded_append [of 4 x 2] by (simp add: load_writeback_word_def)
next
  case 8
  then show ?thesis
    using assms(2) loaded_append [of 4 x 2] loaded_append [of 6 x 1] loaded_byte [of "drop 6 x"]
    by (simp add: load_writeback_word_def)
next
  case 9
  then show ?thesis
    by (simp add: load_writeback_word_def load64_def)
qed (simp_all add: load_writeback_word_def)

lemma stored_append:
  "m + j \<le> 8 \<Longrightarrow> take m (store64 v) @ take j (store64 (drop_bit (8 * m) v)) = take (m + j) (store64 v)"
  by (rule le_val_inj [THEN iffD1])
    (auto simp: bit_append_bytes bit_take_bytes bit_unsigned_iff bit_drop_bit_eq min_def
      intro!: bit_eqI split: if_splits)

lemma stored_byte: "[ucast v] = take (Suc 0) (store64 v)"
  by (rule le_val_inj [THEN iffD1])
    (auto simp: bit_take_bytes bit_unsigned_iff bit_ucast_iff intro!: bit_eqI dest: bit_imp_le_length)

lemma store_writeback_word_eq:
  assumes "n \<le> 8"
  shows "store_writeback_word v n = take n (store64 v)"
  using assms
proof (cases rule: nat_lt_9_cases)
  case 4
  then show ?thesis
    using stored_append [of 2 1 v] by (simp add: store_writeback_word_def stored_byte)
next
  case 6
  then show ?thesis
    using stored_append [of 4 1 v] by (simp add: store_writeback_word_def stored_byte)
next
  case 7
  then show ?thesis
    using stored_append [of 4 2 v] by (simp add: store_writeback_word_def)
next
  case 8
  then show ?thesis
    using stored_append [of 4 2 v] stored_append [of 6 1 v]
    by (simp add: store_writeback_word_def stored_byte)
qed (auto simp: store_writeback_word_def stored_byte)

lemma length_put_bytes: "at + length new \<le> length x \<Longrightarrow> length (put_bytes x at new) = length x"
  by (simp add: put_bytes_def)

lemma bit_put_bytes:
  assumes "at + length new \<le> length x"
  shows "bit (le_val (put_bytes x at new)) n =
    (if 8 * at \<le> n \<and> n < 8 * (at + length new) then bit (le_val new) (n - 8 * at) else bit (le_val x) n)"
  using assms bit_le_val_bound [of x n]
  by (auto simp: put_bytes_def bit_append_bytes bit_take_bytes bit_drop_bytes min_def)

text \<open>The bits gathered from the source, including the ninth byte.\<close>

definition incoming_word :: "bytes \<Rightarrow> nat \<Rightarrow> nat \<Rightarrow> u64" where
  "incoming_word src s chunk =
     (let n = (s mod 8 + chunk + 7) div 8;
          low = drop_bit (s mod 8) (load_writeback_word (drop (s div 8) src) (min n 8))
      in if 8 < n then low OR push_bit (64 - s mod 8) (ucast (src ! (s div 8 + 8))) else low)"

lemma bytes_spanned:
  assumes "s + c \<le> 8 * (n :: nat)"
  shows "s div 8 + (s mod 8 + c + 7) div 8 \<le> n"
proof -
  have "s + c + 7 = s mod 8 + c + 7 + 8 * (s div 8)" by simp
  then have "(s + c + 7) div 8 = s div 8 + (s mod 8 + c + 7) div 8"
    by (metis div_mult_self2 zero_neq_numeral)
  then show ?thesis
    using assms by linarith
qed

lemma span_end:
  assumes "i < d + c" and "d mod 8 + c \<le> 8 * (n :: nat)"
  shows "i < 8 * (d div 8 + n)"
proof -
  define q r where "q = d div 8" and "r = d mod 8"
  have "d = 8 * q + r"
    by (simp add: q_def r_def)
  then have "i < 8 * q + r + c" and "r + c \<le> 8 * n"
    using assms by (simp_all only: r_def)
  then have "i < 8 * (q + n)"
    unfolding distrib_left by linarith
  then show ?thesis
    by (simp only: q_def)
qed

lemma bit_incoming_word:
  assumes room: "s + chunk \<le> 8 * length src" and k: "k < chunk" "chunk \<le> 64"
  shows "bit (incoming_word src s chunk) k \<longleftrightarrow> bit (le_val src) (s + k)"
proof -
  define n where "n = (s mod 8 + chunk + 7) div 8"
  define low where "low = drop_bit (s mod 8) (load_writeback_word (drop (s div 8) src) (min n 8))"
  have inc: "incoming_word src s chunk =
      (if 8 < n then low OR push_bit (64 - s mod 8) (ucast (src ! (s div 8 + 8))) else low)"
    by (simp only: incoming_word_def Let_def n_def low_def)
  have n: "s div 8 + n \<le> length src"
    using bytes_spanned [OF room] by (simp add: n_def)
  have inside: "s mod 8 + k < 8 * n"
    using k(1) unfolding n_def by linarith
  have at: "8 * (s div 8) + (s mod 8 + k) = s + k"
    by simp
  have low: "bit low k \<longleftrightarrow> s mod 8 + k < 64 \<and> bit (le_val src) (s + k)"
    using n inside unfolding low_def
    by (subst load_writeback_word_eq)
      (auto simp: bit_drop_bit_eq bit_of_nat_le_val bit_drop_bytes min_def at)
  show ?thesis
  proof (cases "s mod 8 + k < 64")
    case True
    then have "\<not> 64 - s mod 8 \<le> k" by linarith
    then show ?thesis
      using True low by (simp add: inc bit_or_iff bit_push_bit_iff)
  next
    case False
    then have n8: "8 < n" and k64: "64 - s mod 8 \<le> k" "k < 64"
      using inside k by linarith+
    have small: "k - (64 - s mod 8) < 8"
      using k64 by linarith
    define r where "r = s mod 8"
    have "r < 8" by (simp add: r_def)
    then have "8 * (s div 8 + 8) + (k - (64 - s mod 8)) = 8 * (s div 8) + (s mod 8 + k)"
      using False k64 unfolding r_def [symmetric] distrib_left by linarith
    then have pos: "8 * (s div 8 + 8) + (k - (64 - s mod 8)) = s + k"
      by (simp only: at)
    have "s div 8 + 8 < length src"
      using n n8 by linarith
    then have "bit (le_val src) (s + k) \<longleftrightarrow> bit (src ! (s div 8 + 8)) (k - (64 - s mod 8))"
      using bit_le_val_at [OF small, of src "s div 8 + 8"] by (simp only: pos simp_thms)
    then show ?thesis
      using False low n8 k64 small
      by (simp add: inc bit_or_iff bit_push_bit_iff bit_ucast_iff)
  qed
qed

lemma writeback_step_alt:
  "writeback_step src d s chunk parent =
     (let n = (d mod 8 + chunk + 7) div 8;
          m = push_bit (d mod 8) (drop_bit (64 - chunk) (NOT 0));
          previous = (if m \<noteq> NOT 0 then load_writeback_word (drop (d div 8) parent) n else 0);
          result = (previous AND NOT m) OR (push_bit (d mod 8) (incoming_word src s chunk) AND m)
      in put_bytes parent (d div 8) (store_writeback_word result n))"
  by (simp only: writeback_step_def incoming_word_def Let_def)

lemma writeback_step_replaces:
  assumes room: "d + chunk \<le> 8 * length parent" "s + chunk \<le> 8 * length src"
    and chunk: "d mod 8 + chunk \<le> 64"
  shows "bits_replaced src d s chunk parent (writeback_step src d s chunk parent)"
proof -
  define n where "n = (d mod 8 + chunk + 7) div 8"
  define m :: u64 where "m = push_bit (d mod 8) (drop_bit (64 - chunk) (NOT 0))"
  define previous where "previous = (if m \<noteq> NOT 0 then load_writeback_word (drop (d div 8) parent) n else 0)"
  define result where
    "result = (previous AND NOT m) OR (push_bit (d mod 8) (incoming_word src s chunk) AND m)"
  have step: "writeback_step src d s chunk parent = put_bytes parent (d div 8) (take n (store64 result))"
    using chunk by (simp add: writeback_step_alt Let_def store_writeback_word_eq n_def m_def previous_def result_def)
  have n8: "n \<le> 8" and cover: "d mod 8 + chunk \<le> 8 * n"
    using chunk unfolding n_def by linarith+
  have fits: "d div 8 + n \<le> length parent"
    using bytes_spanned [OF room(1)] by (simp add: n_def)
  have c64: "chunk \<le> 64" using chunk by simp
  have mask: "bit m k \<longleftrightarrow> d mod 8 \<le> k \<and> k < d mod 8 + chunk" if "k < 64" for k
    unfolding m_def using that c64 by (rule bit_writeback_mask [rotated])
  have prev: "bit previous k \<longleftrightarrow> bit (le_val parent) (8 * (d div 8) + k)" if "k < 8 * n" "\<not> bit m k" for k
  proof -
    have "k < 64" using that n8 by linarith
    then have "m \<noteq> NOT 0" using that by (auto simp: bit_not_iff)
    then show ?thesis
      using that \<open>k < 64\<close> n8 fits
      by (simp add: previous_def load_writeback_word_eq bit_of_nat_le_val bit_drop_bytes)
  qed
  have res: "bit result k \<longleftrightarrow> (if d mod 8 \<le> k \<and> k < d mod 8 + chunk then bit (le_val src) (s + (k - d mod 8))
      else bit (le_val parent) (8 * (d div 8) + k))" if "k < 8 * n" for k
  proof -
    have k: "k < 64" using that n8 by linarith
    show ?thesis
      using k mask [OF k] prev [OF that] bit_incoming_word [OF room(2) _ c64, of "k - d mod 8"]
      by (auto simp: result_def bit_or_iff bit_and_iff bit_not_iff bit_push_bit_iff)
  qed
  show ?thesis
    unfolding bits_replaced_def
  proof (intro conjI allI)
    show "length (writeback_step src d s chunk parent) = length parent"
      using fits n8 by (simp add: step length_put_bytes)
    fix i
    have d: "d = 8 * (d div 8) + d mod 8" by simp
    show "bit (le_val (writeback_step src d s chunk parent)) i =
        (if d \<le> i \<and> i < d + chunk then bit (le_val src) (s + (i - d)) else bit (le_val parent) i)"
    proof (cases "8 * (d div 8) \<le> i \<and> i < 8 * (d div 8 + n)")
      case True
      then obtain k where k: "i = 8 * (d div 8) + k" "k < 8 * n"
        by (metis add_less_cancel_left distrib_left le_Suc_ex)
      have "i - d = k - d mod 8" "d \<le> i \<longleftrightarrow> d mod 8 \<le> k" "i < d + chunk \<longleftrightarrow> k < d mod 8 + chunk"
        using k d by linarith+
      then show ?thesis
        using k n8 fits res [OF k(2)]
        by (simp add: step bit_put_bytes bit_take_bytes bit_unsigned_iff)
    next
      case False
      moreover have "8 * (d div 8) \<le> i" if "d \<le> i"
        using that d by linarith
      moreover have "i < 8 * (d div 8 + n)" if "i < d + chunk"
        using span_end [OF that cover] .
      ultimately have out: "\<not> (d \<le> i \<and> i < d + chunk)"
        using False by blast
      have "length (take n (store64 result)) = n"
        using n8 by simp
      then have "bit (le_val (put_bytes parent (d div 8) (take n (store64 result)))) i = bit (le_val parent) i"
        using False fits by (subst bit_put_bytes) auto
      then show ?thesis
        by (simp only: step if_not_P [OF out])
    qed
  qed
qed

lemma bits_replaced_0: "bits_replaced src d s 0 parent parent"
  by (auto simp: bits_replaced_def)

lemma bits_replaced_trans:
  assumes "bits_replaced src d s a x y" and "bits_replaced src (d + a) (s + a) b y z"
  shows "bits_replaced src d s (a + b) x z"
proof -
  have "s + a + (i - (d + a)) = s + (i - d)" if "d + a \<le> i" for i
    using that by linarith
  then show ?thesis
    using assms by (auto simp: bits_replaced_def)
qed

lemma update_parent_loop_replaces:
  assumes "d + count \<le> 8 * length parent" and "s + count \<le> 8 * length src"
  shows "bits_replaced src d s count parent (update_parent_loop src d s count parent)"
  using assms
proof (induction src d s count parent rule: update_parent_loop.induct)
  case (1 src d s count parent)
  let ?c = "writeback_chunk d count"
  show ?case
  proof (cases "count = 0")
    case True
    then show ?thesis
      by (subst update_parent_loop.simps) (simp add: bits_replaced_0)
  next
    case False
    let ?next = "writeback_step src d s ?c parent"
    have c: "?c \<le> count" "d mod 8 + ?c \<le> 64"
      unfolding writeback_chunk_def min_def by (auto split: if_splits)
    have step: "bits_replaced src d s ?c parent ?next"
      using "1.prems" c by (intro writeback_step_replaces) linarith+
    then have "length ?next = length parent"
      by (simp add: bits_replaced_def)
    then have "bits_replaced src (d + ?c) (s + ?c) (count - ?c) ?next
        (update_parent_loop src (d + ?c) (s + ?c) (count - ?c) ?next)"
      using False "1.prems" c by (intro "1.IH") simp_all
    from bits_replaced_trans [OF step this] show ?thesis
      using False c by (subst update_parent_loop.simps) simp
  qed
qed

lemma update_parent_replaces:
  assumes "length parent = SIZE w" and "length (own p) = SIZE w" and "p_first p \<le> p_last p" and "p_last p < w"
  shows "bits_replaced (own p) (p_first p) 0 (p_last p - p_first p + 1) parent (update_parent w p parent)"
proof (cases "0 < w \<and> w \<le> 64")
  case True
  then have "length parent \<le> 8" and "p_last p < 8 * length parent"
    using assms SIZE_bounds [of w] by linarith+
  then show ?thesis
    using True assms update_parent_narrow_replaces [of p parent] by (simp add: update_parent_def)
next
  case False
  have "p_last p < 8 * SIZE w"
    using assms(4) SIZE_bounds(1) [of w] by linarith
  then have "p_first p + (p_last p - p_first p + 1) \<le> 8 * length parent"
    and "0 + (p_last p - p_first p + 1) \<le> 8 * length (own p)"
    using assms by linarith+
  from update_parent_loop_replaces [OF this] show ?thesis
    unfolding update_parent_def if_not_P [OF False] .
qed

lemma proxy_of_range [simp]: "p_first (proxy_of w parent lo hi) = lo" "p_last (proxy_of w parent lo hi) = hi"
  by (simp_all add: proxy_of_def Let_def)

lemma length_own_proxy_of:
  assumes "lo \<le> hi" and "hi < w" and "length parent = SIZE w"
  shows "length (own (proxy_of w parent lo hi)) = SIZE w"
proof -
  have "SIZE (hi - lo + 1) \<le> SIZE w"
    using assms by (simp add: SIZE_def div_le_mono)
  moreover have "hi < 8 * length parent"
    using assms SIZE_bounds(1) [of w] by linarith
  ultimately show ?thesis
    using assms by (simp add: own_proxy_of)
qed

lemma logic_bits_Some:
  "logic_bits w hi lo parent = Some p \<longleftrightarrow> lo < w \<and> hi < w \<and> lo \<le> hi \<and> p = proxy_of w parent lo hi"
  by (auto simp: logic_bits_def)

text \<open>Replacing the snapshot and writing it back.\<close>

lemma update_own_replaces:
  assumes "logic_bits w hi lo parent = Some p" and "length parent = SIZE w" and "length new = SIZE w"
  shows "bits_replaced new lo 0 (hi - lo + 1) parent (update_parent w (p\<lparr>own := new\<rparr>) parent)"
  using update_parent_replaces [of parent w "p\<lparr>own := new\<rparr>"] assms by (auto simp: logic_bits_Some)

lemma bits_replaced_wf:
  assumes "bits_replaced src lo 0 (hi - lo + 1) parent result" and "logic_wf w parent" and "lo \<le> hi" "hi < w"
  shows "logic_wf w result"
proof -
  have "n < w" if "bit (le_val result) n" for n
    using assms that logic_wf_bit [OF assms(2), of n] by (auto simp: bits_replaced_def split: if_splits)
  then have "le_val result mod 2 ^ w = le_val result"
    by (intro bit_eqI) (auto simp: bit_mod_exp)
  then have "le_val result < 2 ^ w"
    by (metis mod_less_divisor zero_less_numeral zero_less_power)
  then show ?thesis
    using assms by (simp add: bits_replaced_def logic_wf_def)
qed

section \<open>Properties\<close>

text \<open>
  C11: assigning to \<open>x.bits(last, first)\<close> replaces exactly the bits \<open>first .. last\<close> of
  \<open>x\<close> by the low bits of the assigned value and keeps every other bit, for values of at
  most 64 bits (one masked word) and wider ones (a loop over unaligned words); the result is
  again a value of its width.
\<close>

theorem proxy_assign_replaces_field:
  assumes "logic_bits w hi lo parent = Some p" and "logic_wf w parent"
  shows "logic_wf w (proxy_assign w p other parent) \<and>
    (bit (le_val (proxy_assign w p other parent)) n \<longleftrightarrow>
      (if lo \<le> n \<and> n \<le> hi then bit (le_val other) (n - lo) else bit (le_val parent) n))"
proof -
  have len: "length parent = SIZE w" and range: "lo \<le> hi" "hi < w"
    using assms by (auto simp: logic_wf_def logic_bits_Some)
  have r: "bits_replaced (convert w other) lo 0 (hi - lo + 1) parent (proxy_assign w p other parent)"
    unfolding proxy_assign_def using assms(1) len by (rule update_own_replaces) simp
  have "n < lo + (hi - lo + 1) \<longleftrightarrow> n \<le> hi"
    using range by linarith
  moreover have "n \<le> hi \<Longrightarrow> n - lo < w"
    using range by linarith
  ultimately show ?thesis
    using r range bits_replaced_wf [OF r assms(2) range] by (simp add: bits_replaced_def bit_convert)
qed

lemma proxy_assign_replaces_field_witness:
  "bit (le_val (proxy_assign 12 (proxy_of 12 [0, 0] 6 9) [0x0A] [0, 0])) 7"
  using proxy_assign_replaces_field [of 12 9 6 "[0, 0]" "proxy_of 12 [0, 0] 6 9" "[0x0A]" 7]
  by (simp add: logic_bits_def logic_wf_def SIZE_def bit_iff_odd)

text \<open>
  C12: a proxy starts as the field it stands for: reading \<open>x.bits(last, first)\<close> gives the
  number in that field, on a mutable value as on a constant one.
\<close>

theorem proxy_reads_field:
  assumes "logic_bits w hi lo parent = Some p" and "logic_wf w parent"
  shows "le_val (own p) = le_val parent div 2 ^ lo mod 2 ^ (hi - lo + 1) \<and>
    logic_bits_const w hi lo parent = Some (own p)"
proof -
  have len: "length parent = SIZE w" and range: "lo \<le> hi" "hi < w" and p: "p = proxy_of w parent lo hi"
    using assms by (auto simp: logic_wf_def logic_bits_Some)
  have room: "hi < 8 * length parent"
    using range len SIZE_bounds(1) [of w] by linarith
  have bits: "bit (le_val (own p)) n \<longleftrightarrow> n < hi - lo + 1 \<and> bit (le_val parent) (lo + n)" for n
    unfolding p by (rule bit_own_proxy_of [OF range(1) room])
  obtain r where r: "logic_bits_const w hi lo parent = Some r" "length r = SIZE w"
    "\<And>n. bit (le_val r) n \<longleftrightarrow> n < hi - lo + 1 \<and> bit (le_val parent) (lo + n)"
    using logic_bits_const_Some [OF assms(2) range] by blast
  have "le_val (own p) = le_val r"
    by (rule bit_eqI) (simp only: bits r)
  moreover have "length (own p) = length r"
    using r(2) length_own_proxy_of [OF range len] by (simp add: p)
  ultimately have "own p = r"
    using le_val_inj by blast
  moreover have "le_val (own p) = le_val parent div 2 ^ lo mod 2 ^ (hi - lo + 1)"
    by (rule bit_eqI) (simp add: bits bit_mod_exp bit_drop_bit_eq del: power_Suc flip: drop_bit_eq_div)
  ultimately show ?thesis
    using r(1) by simp
qed

lemma proxy_reads_field_witness:
  "le_val (own (proxy_of 12 [0xC0, 0x0A] 6 9)) = 11"
  using proxy_reads_field [of 12 9 6 "[0xC0, 0x0A]" "proxy_of 12 [0xC0, 0x0A] 6 9"]
  by (simp add: logic_bits_def logic_wf_def SIZE_def)

end
