(* ===== verification/Cat.thy ===== *)
theory Cat
  imports LogicBits
begin

text \<open>
  Concatenation (\<open>include/cpphdl_cat.h\<close>): the fields of a \<open>cat\<close>, most significant first, are put
  together on one of four paths, a 64-bit word, single bits, whole bytes, or bytes shifted to a bit
  offset with the shared byte merged. The number of a concatenation is the reference of all of them.
\<close>

unbundle bit_operations_syntax

section \<open>The constructor\<close>

text \<open>A field is a value of a declared width; the first field is the most significant one.\<close>

type_synonym field = "nat \<times> bytes"

definition cat_WIDTH :: "field list \<Rightarrow> nat" where
  "cat_WIDTH args = sum_list (map fst args)"

definition appendScalar :: "field \<Rightarrow> u64 \<Rightarrow> u64" where
  "appendScalar arg packed =
     (case arg of (ARG_WIDTH, x) \<Rightarrow>
        let raw = to_uint64_constexpr x
        in if ARG_WIDTH = 64 then raw else push_bit ARG_WIDTH packed OR (raw AND (push_bit ARG_WIDTH 1 - 1)))"

definition cat_scalar :: "nat \<Rightarrow> field list \<Rightarrow> bytes" where
  "cat_scalar WIDTH args = assign_uint64 WIDTH (fold appendScalar args 0)"

text \<open>Fields of one bit, and fields of whole bytes.\<close>

definition cat_bits :: "nat \<Rightarrow> field list \<Rightarrow> bytes" where
  "cat_bits WIDTH args =
     snd (fold (\<lambda>arg (pos, r). (pos - 1, logic_set r (pos - 1) (logic_get (snd arg) 0))) args (WIDTH, logic_zero WIDTH))"

definition cat_bytes :: "nat \<Rightarrow> field list \<Rightarrow> bytes" where
  "cat_bytes WIDTH args =
     snd (fold (\<lambda>(n, x) (byteOffset, r). (byteOffset - SIZE n, put_bytes r (byteOffset - SIZE n) (take (SIZE n) x)))
       args (SIZE WIDTH, logic_zero WIDTH))"

text \<open>The general path: a byte of a field at a bit offset, the bytes of a field, and the fields.\<close>

definition source_byte :: "nat \<Rightarrow> bytes \<Rightarrow> nat \<Rightarrow> byte" where
  "source_byte ARG_WIDTH x index =
     (if ARG_WIDTH mod 8 \<noteq> 0 \<and> index + 1 = SIZE ARG_WIDTH then (x ! index) AND (push_bit (ARG_WIDTH mod 8) 1 - 1) else x ! index)"

definition shifted_byte :: "nat \<Rightarrow> bytes \<Rightarrow> nat \<Rightarrow> nat \<Rightarrow> byte" where
  "shifted_byte ARG_WIDTH x bitOffset i =
     (let byte = (if i < SIZE ARG_WIDTH then push_bit bitOffset (ucast (source_byte ARG_WIDTH x i)) else 0 :: 16 word);
          byte = (if bitOffset \<noteq> 0 \<and> i \<noteq> 0 then byte OR drop_bit (8 - bitOffset) (ucast (source_byte ARG_WIDTH x (i - 1))) else byte)
      in ucast byte)"

definition append_field :: "nat \<Rightarrow> nat \<Rightarrow> field \<Rightarrow> bytes \<Rightarrow> bytes" where
  "append_field WIDTH HIGH_OFFSET arg r =
     (case arg of (ARG_WIDTH, x) \<Rightarrow>
        let nextOffset = HIGH_OFFSET - ARG_WIDTH; byteOffset = nextOffset div 8; bitOffset = nextOffset mod 8;
            outputBytes = (bitOffset + ARG_WIDTH + 7) div 8;
            sharesTopByte = (HIGH_OFFSET < WIDTH \<and> HIGH_OFFSET mod 8 \<noteq> 0)
        in fold (\<lambda>i r. let destination = byteOffset + i
             in r[destination := (if sharesTopByte \<and> i + 1 = outputBytes then r ! destination OR shifted_byte ARG_WIDTH x bitOffset i
                                  else shifted_byte ARG_WIDTH x bitOffset i)]) [0..<outputBytes] r)"

primrec appendPacked :: "nat \<Rightarrow> field list \<Rightarrow> nat \<Rightarrow> bytes \<Rightarrow> bytes" where
  "appendPacked WIDTH [] HIGH_OFFSET r = r"
| "appendPacked WIDTH (arg # args) HIGH_OFFSET r =
     appendPacked WIDTH args (HIGH_OFFSET - fst arg) (append_field WIDTH HIGH_OFFSET arg r)"

definition cat_constexpr :: "field list \<Rightarrow> bytes" where
  "cat_constexpr args =
     (let WIDTH = cat_WIDTH args
      in if \<forall>arg \<in> set args. fst arg = 1 then cat_bits WIDTH args
         else if \<forall>arg \<in> set args. fst arg mod 8 = 0 then cat_bytes WIDTH args
         else appendPacked WIDTH args WIDTH (logic_zero WIDTH))"

definition cat :: "field list \<Rightarrow> bytes" where
  "cat args = (if cat_WIDTH args \<le> 64 then cat_scalar (cat_WIDTH args) args else cat_constexpr args)"

text \<open>A concatenation as an operand of integer operators: its low 64 bits.\<close>

definition cat_uint64 :: "bytes \<Rightarrow> u64" where
  "cat_uint64 x = to_uint64_constexpr x"

definition cat_eq :: "bytes \<Rightarrow> u64 \<Rightarrow> bool" where
  "cat_eq lhs rhs \<longleftrightarrow> cat_uint64 lhs = rhs"

definition cat_less :: "bytes \<Rightarrow> u64 \<Rightarrow> bool" where
  "cat_less lhs rhs \<longleftrightarrow> cat_uint64 lhs < rhs"

section \<open>The number of a concatenation\<close>

fun cat_number :: "field list \<Rightarrow> nat \<Rightarrow> nat" where
  "cat_number [] v = v"
| "cat_number ((n, x) # args) v = cat_number args (v * 2 ^ n + le_val x mod 2 ^ n)"

definition fields_ok :: "field list \<Rightarrow> bool" where
  "fields_ok args \<longleftrightarrow> (\<forall>(n, x) \<in> set args. length x = SIZE n)"

lemma bit_shift_add:
  assumes "(y :: nat) < 2 ^ n"
  shows "bit (v * 2 ^ n + y) k \<longleftrightarrow> (if k < n then bit y k else bit v (k - n))"
proof -
  have y: "y = take_bit n y"
    using assms by (simp add: take_bit_nat_eq_self)
  have "v * 2 ^ n + y = push_bit n v + take_bit n y"
    using y by (simp add: push_bit_eq_mult)
  also have "\<dots> = push_bit n v OR take_bit n y"
    by (rule disjunctive_add) (auto simp: bit_push_bit_iff bit_take_bit_iff)
  finally have "bit (v * 2 ^ n + y) k \<longleftrightarrow> bit (push_bit n v OR take_bit n y) k"
    by simp
  then show ?thesis
    by (subst y) (auto simp: bit_or_iff bit_push_bit_iff bit_take_bit_iff)
qed

text \<open>What is built so far: the fields from the offset up, and nothing below.\<close>

definition built :: "nat \<Rightarrow> nat \<Rightarrow> nat \<Rightarrow> bytes \<Rightarrow> bool" where
  "built WIDTH h v r \<longleftrightarrow> length r = SIZE WIDTH \<and> le_val r = v * 2 ^ h \<and> v < 2 ^ (WIDTH - h) \<and> h \<le> WIDTH"

lemma built_start: "built WIDTH WIDTH 0 (logic_zero WIDTH)"
  by (simp add: built_def)

lemma built_end: "built WIDTH 0 v r \<Longrightarrow> length r = SIZE WIDTH \<and> le_val r = v"
  by (simp add: built_def)

text \<open>A step that puts a field below what is built.\<close>

lemma built_step:
  assumes b: "built WIDTH h v r" and n: "n \<le> h" and len: "length r' = length r"
    and bits: "\<And>k. k < 8 * length r \<Longrightarrow> bit (le_val r') k \<longleftrightarrow> (if h - n \<le> k \<and> k < h then bit (le_val x) (k - (h - n)) else h \<le> k \<and> bit (le_val r) k)"
  shows "built WIDTH (h - n) (v * 2 ^ n + le_val x mod 2 ^ n) r'"
proof -
  have h: "h \<le> WIDTH" and v: "v < 2 ^ (WIDTH - h)" and r: "le_val r = v * 2 ^ h" "length r = SIZE WIDTH"
    using b by (simp_all add: built_def)
  have w: "WIDTH - (h - n) = (WIDTH - h) + n"
    using n h by simp
  have "v * 2 ^ n + le_val x mod 2 ^ n < (v + 1) * 2 ^ n"
    by (simp add: algebra_simps)
  also have "\<dots> \<le> 2 ^ (WIDTH - h) * 2 ^ n"
    using v by (intro mult_le_mono1) simp
  finally have bound: "v * 2 ^ n + le_val x mod 2 ^ n < 2 ^ (WIDTH - (h - n))"
    by (simp only: w power_add)
  have old: "bit (le_val r) k \<longleftrightarrow> h \<le> k \<and> bit v (k - h)" for k
    unfolding r(1) by (simp add: bit_push_bit_iff flip: push_bit_eq_mult)
  have "le_val r' = (v * 2 ^ n + le_val x mod 2 ^ n) * 2 ^ (h - n)"
  proof (rule bit_eqI)
    fix k
    have rhs: "bit ((v * 2 ^ n + le_val x mod 2 ^ n) * 2 ^ (h - n)) k \<longleftrightarrow>
        h - n \<le> k \<and> (if k < h then bit (le_val x) (k - (h - n)) else bit v (k - h))"
    proof -
      have "bit ((v * 2 ^ n + le_val x mod 2 ^ n) * 2 ^ (h - n)) k \<longleftrightarrow> h - n \<le> k \<and> bit (v * 2 ^ n + le_val x mod 2 ^ n) (k - (h - n))"
        by (simp add: bit_push_bit_iff flip: push_bit_eq_mult)
      then show ?thesis
        using n by (auto simp: bit_shift_add bit_mod_exp)
    qed
    show "bit (le_val r') k \<longleftrightarrow> bit ((v * 2 ^ n + le_val x mod 2 ^ n) * 2 ^ (h - n)) k"
    proof (cases "k < 8 * length r")
      case True
      then show ?thesis
        unfolding rhs bits [OF True] old by auto
    next
      case False
      then have "h \<le> k" "WIDTH \<le> k"
        using h SIZE_bounds(1) [of WIDTH] r(2) by simp_all
      have "\<not> bit v (k - h)"
      proof
        assume "bit v (k - h)"
        then have "2 ^ (k - h) \<le> v"
          using bit_nat_iff exp_eq_0_imp_not_bit by (metis bit_iff_odd div_less even_zero linorder_not_less)
        moreover have "(2 :: nat) ^ (WIDTH - h) \<le> 2 ^ (k - h)"
          using \<open>WIDTH \<le> k\<close> by (intro power_increasing) simp_all
        ultimately show False
          using v by simp
      qed
      then show ?thesis
        using False len bit_le_val_bound [of r' k] \<open>h \<le> k\<close> unfolding rhs by auto
    qed
  qed
  then show ?thesis
    using bound len r(2) h n by (simp add: built_def)
qed

section \<open>The paths\<close>

lemma bit_source_byte:
  assumes "length x = SIZE n" and "i < SIZE n"
  shows "bit (source_byte n x i) k \<longleftrightarrow> k < 8 \<and> 8 * i + k < n \<and> bit (le_val x) (8 * i + k)"
proof (cases "k < 8")
  case True
  have x: "bit (le_val x) (8 * i + k) \<longleftrightarrow> bit (x ! i) k"
    using assms True by (simp add: bit_le_val_at)
  show ?thesis
  proof (cases "n mod 8 \<noteq> 0 \<and> i + 1 = SIZE n")
    case last: True
    then have "i = n div 8"
      using SIZE_cases(2) [of n] by simp
    then have "8 * i + k < n \<longleftrightarrow> k < n mod 8"
      by (metis add_less_cancel_left mult_div_mod_eq)
    moreover have "source_byte n x i = (x ! i) AND (push_bit (n mod 8) 1 - 1)"
      using last by (simp only: source_byte_def if_True simp_thms)
    moreover have "bit (push_bit (n mod 8) 1 - 1 :: byte) k \<longleftrightarrow> k < n mod 8"
      by (rule bit_mask_byte) simp
    ultimately show ?thesis
      using True x by (simp only: bit_and_iff simp_thms) auto
  next
    case False
    have "8 * i + k < n"
      using False True assms(2) SIZE_cases [of n] by (cases "n mod 8 = 0") auto
    moreover have "source_byte n x i = x ! i"
      unfolding source_byte_def by (rule if_not_P [OF False])
    ultimately show ?thesis
      using True x by simp
  qed
next
  case False
  then show ?thesis
    using bit_byte_bound by blast
qed

lemma bit_shifted_byte:
  assumes x: "length x = SIZE n" and b: "b < 8" and i: "i \<le> SIZE n"
  shows "bit (shifted_byte n x b i) k \<longleftrightarrow> k < 8 \<and> b \<le> 8 * i + k \<and> 8 * i + k - b < n \<and> bit (le_val x) (8 * i + k - b)"
proof (cases "k < 8")
  case True
  have up: "bit (if i < SIZE n then push_bit b (ucast (source_byte n x i)) else 0 :: 16 word) k \<longleftrightarrow>
      b \<le> k \<and> 8 * i + (k - b) < n \<and> bit (le_val x) (8 * i + (k - b))"
  proof (cases "i < SIZE n")
    case True
    then show ?thesis
      using \<open>k < 8\<close> by (auto simp: bit_push_bit_iff bit_ucast_iff bit_source_byte [OF x])
  next
    case False
    then have "n \<le> 8 * i"
      using SIZE_bounds(1) [of n] by simp
    then show ?thesis
      using False by simp
  qed
  have down: "bit (drop_bit (8 - b) (ucast (source_byte n x (i - 1))) :: 16 word) k \<longleftrightarrow>
      k < b \<and> 8 * i + k - b < n \<and> bit (le_val x) (8 * i + k - b)" if "i \<noteq> 0"
  proof -
    have "bit (drop_bit (8 - b) (ucast (source_byte n x (i - 1))) :: 16 word) k \<longleftrightarrow> bit (source_byte n x (i - 1)) (8 - b + k)"
      using bit_byte_bound [of "source_byte n x (i - 1)" "8 - b + k"] by (auto simp only: bit_drop_bit_eq bit_ucast_iff o_def) simp_all
    also have "\<dots> \<longleftrightarrow> k < b \<and> 8 * i + k - b < n \<and> bit (le_val x) (8 * i + k - b)"
    proof (cases "k < b")
      case True
      have at: "i - 1 < SIZE n" "8 - b + k < 8" "8 * (i - 1) + (8 - b + k) = 8 * i + k - b"
        using i that b True by simp_all
      show ?thesis
        using True at(2) unfolding bit_source_byte [OF x at(1)] at(3) by simp
    next
      case False
      then show ?thesis
        using b bit_byte_bound [of "source_byte n x (i - 1)" "8 - b + k"] by auto
    qed
    finally show ?thesis .
  qed
  have "bit (shifted_byte n x b i) k \<longleftrightarrow> bit (if i < SIZE n then push_bit b (ucast (source_byte n x i)) else 0 :: 16 word) k \<or>
      b \<noteq> 0 \<and> i \<noteq> 0 \<and> bit (drop_bit (8 - b) (ucast (source_byte n x (i - 1))) :: 16 word) k"
    using True unfolding shifted_byte_def Let_def by (simp only: bit_ucast_iff) (simp add: bit_or_iff)
  also have "\<dots> \<longleftrightarrow> b \<le> 8 * i + k \<and> 8 * i + k - b < n \<and> bit (le_val x) (8 * i + k - b)"
  proof (cases "b \<le> k")
    case True
    then have "8 * i + (k - b) = 8 * i + k - b"
      by simp
    then show ?thesis
      unfolding up using True down by auto
  next
    case False
    then show ?thesis
      unfolding up using down b by (cases "i = 0") auto
  qed
  finally show ?thesis
    using True by simp
next
  case False
  then show ?thesis
    using bit_byte_bound by blast
qed

lemma length_append_field [simp]: "length (append_field WIDTH h arg r) = length r"
proof -
  have "length (fold (\<lambda>i r. r[f i := g i r]) xs r) = length r" for f :: "nat \<Rightarrow> nat" and g :: "nat \<Rightarrow> bytes \<Rightarrow> byte" and xs
    by (induction xs arbitrary: r) simp_all
  then show ?thesis
    by (simp add: append_field_def Let_def split: prod.splits)
qed

lemma bit_append_fold:
  assumes "at + m \<le> length r"
  shows "bit (le_val (fold (\<lambda>i r. r[at + i := (if s i then r ! (at + i) OR f i else f i)]) [0..<m] r)) k \<longleftrightarrow>
    (if at \<le> k div 8 \<and> k div 8 < at + m then bit (f (k div 8 - at)) (k mod 8) \<or> s (k div 8 - at) \<and> bit (le_val r) k
     else bit (le_val r) k)"
  using assms
proof (induction m arbitrary: k)
  case 0
  then show ?case
    by auto
next
  case (Suc m)
  let ?r = "fold (\<lambda>i r. r[at + i := (if s i then r ! (at + i) OR f i else f i)]) [0..<m] r"
  have len: "length ?r = length r"
  proof -
    have "length (fold (\<lambda>i r. r[at + i := (if s i then r ! (at + i) OR f i else f i)]) xs r) = length r" for xs and r :: bytes
      by (induction xs arbitrary: r) simp_all
    then show ?thesis .
  qed
  have at: "bit (?r ! (at + m)) j \<longleftrightarrow> bit (r ! (at + m)) j" for j
  proof (cases "j < 8")
    case True
    have d: "(8 * (at + m) + j) div 8 = at + m"
      using True by simp
    have "bit (le_val ?r) (8 * (at + m) + j) \<longleftrightarrow> bit (le_val r) (8 * (at + m) + j)"
      using Suc.IH [of "8 * (at + m) + j"] Suc.prems unfolding d by simp
    then show ?thesis
      using Suc.prems len unfolding bit_le_val_at [OF True, of ?r] bit_le_val_at [OF True, of r] by simp
  next
    case False
    then show ?thesis
      using bit_byte_bound by blast
  qed
  show ?case
  proof (cases "k div 8 = at + m")
    case True
    have "bit (le_val r) k \<longleftrightarrow> bit (r ! (at + m)) (k mod 8)"
      using True Suc.prems by (simp add: bit_le_val)
    then show ?thesis
      using True Suc.prems len at by (auto simp: bit_list_update bit_or_iff)
  next
    case False
    then show ?thesis
      using Suc.IH [of k] Suc.prems len bit_le_val_bound [of ?r k] bit_le_val_bound [of r k] by (auto simp: bit_list_update bit_le_val)
  qed
qed

lemma conj_absorb_left: "P \<Longrightarrow> (P \<and> Q) = Q"
  by simp

lemma offset_pos: "8 * i + kr + 8 * q = (k :: nat) \<Longrightarrow> 8 * q + pr = p \<Longrightarrow> (pr \<le> 8 * i + kr \<longleftrightarrow> p \<le> k) \<and> 8 * i + kr - pr = k - p"
  by auto

lemma last_byte:
  fixes k h :: nat
  assumes "8 * i + kr + 8 * q = k" and "kr < 8" and "i < out" and "8 * (q + out) < h + 8" and "h \<le> 8 * (q + out)" and "h \<le> k"
  shows "h mod 8 \<noteq> 0" and "i + 1 = out"
proof -
  show "i + 1 = out"
  proof (rule le_antisym)
    show "i + 1 \<le> out" "out \<le> i + 1"
      using assms unfolding distrib_left by linarith+
  qed
  show "h mod 8 \<noteq> 0"
  proof
    assume "h mod 8 = 0"
    then obtain d where d: "h = 8 * d"
      by auto
    then have "d = q + out"
      using assms(4,5) by simp
    then show False
      using assms(1-3,6) d by simp
  qed
qed

lemma append_field_built:
  assumes b: "built WIDTH h v r" and n: "n \<le> h" and x: "length x = SIZE n"
  shows "built WIDTH (h - n) (v * 2 ^ n + le_val x mod 2 ^ n) (append_field WIDTH h (n, x) r)"
proof (rule built_step [OF b n])
  fix k
  assume k: "k < 8 * length r"
  define p where "p = h - n"
  define out where "out = (p mod 8 + n + 7) div 8"
  have r: "length r = SIZE WIDTH" "h \<le> WIDTH" and low: "\<And>k. bit (le_val r) k \<Longrightarrow> h \<le> k"
    using b by (auto simp: built_def bit_push_bit_iff simp flip: push_bit_eq_mult)
  have high: "bit (le_val r) k \<Longrightarrow> k < WIDTH" for k
  proof -
    have "v * 2 ^ h < 2 ^ (WIDTH - h) * 2 ^ h"
      using b by (simp add: built_def)
    then have "le_val r < 2 ^ WIDTH"
      using b by (simp add: built_def flip: power_add)
    then show "bit (le_val r) k \<Longrightarrow> k < WIDTH"
      using r(1) logic_wf_bit by (simp add: logic_wf_def)
  qed
  have top: "8 * (p div 8 + out) < h + 8" "h \<le> 8 * (p div 8 + out)"
  proof -
    have "8 * out \<le> p mod 8 + n + 7" "p mod 8 + n + 7 < 8 * out + 8"
      unfolding out_def using mult_div_mod_eq [of 8 "p mod 8 + n + 7"] mod_less_divisor [of 8 "p mod 8 + n + 7"] by linarith+
    moreover have "8 * (p div 8) + p mod 8 + n = h"
      using n by (simp add: p_def)
    ultimately show "8 * (p div 8 + out) < h + 8" "h \<le> 8 * (p div 8 + out)"
      by (simp_all only: distrib_left)
  qed
  have "h + 8 \<le> 8 * (SIZE WIDTH + 1)"
    using r(2) SIZE_bounds(1) [of WIDTH] by simp
  then have "8 * (p div 8 + out) < 8 * (SIZE WIDTH + 1)"
    by (rule less_le_trans [OF top(1)])
  then have room: "p div 8 + out \<le> length r"
    unfolding r(1) by (simp only: mult_less_cancel1) simp
  have small: "j < out \<Longrightarrow> j \<le> SIZE n" for j
  proof -
    assume "j < out"
    then have "8 * (j + 1) \<le> 8 * out"
      by simp
    also have "\<dots> \<le> p mod 8 + n + 7"
      unfolding out_def by (rule times_div_less_eq_dividend)
    also have "\<dots> < 8 * SIZE n + 15"
    proof -
      have "p mod 8 < 8"
        by simp
      then show ?thesis
        using SIZE_bounds(1) [of n] by linarith
    qed
    finally show "j \<le> SIZE n"
      by simp
  qed
  have bits: "bit (le_val (append_field WIDTH h (n, x) r)) k \<longleftrightarrow>
     (if p div 8 \<le> k div 8 \<and> k div 8 < p div 8 + out
      then bit (shifted_byte n x (p mod 8) (k div 8 - p div 8)) (k mod 8) \<or>
        (h < WIDTH \<and> h mod 8 \<noteq> 0 \<and> k div 8 - p div 8 + 1 = out) \<and> bit (le_val r) k
      else bit (le_val r) k)"
    unfolding append_field_def Let_def prod.case p_def [symmetric] out_def [symmetric]
    using bit_append_fold [OF room, of "\<lambda>i. (h < WIDTH \<and> h mod 8 \<noteq> 0) \<and> i + 1 = out" "shifted_byte n x (p mod 8)" k]
    by (simp add: conj_assoc)
  show "bit (le_val (append_field WIDTH h (n, x) r)) k \<longleftrightarrow>
      (if h - n \<le> k \<and> k < h then bit (le_val x) (k - (h - n)) else h \<le> k \<and> bit (le_val r) k)"
  proof (cases "p div 8 \<le> k div 8 \<and> k div 8 < p div 8 + out")
    case True
    then obtain i where i0: "k div 8 = p div 8 + i"
      by (metis le_add_diff_inverse)
    have i_def: "i = k div 8 - p div 8"
      by (simp only: i0 diff_add_inverse)
    have "i < out"
      using True unfolding i0 by (simp only: nat_add_left_cancel_less)
    then have i: "i \<le> SIZE n"
      by (rule small)
    have e: "8 * i + k mod 8 + 8 * (p div 8) = k"
      using mult_div_mod_eq [of 8 k] unfolding i0 by (simp only: distrib_left ac_simps)
    note pos = offset_pos [OF e mult_div_mod_eq [of 8 p], THEN conjunct1] offset_pos [OF e mult_div_mod_eq [of 8 p], THEN conjunct2]
    have now: "bit (le_val (append_field WIDTH h (n, x) r)) k \<longleftrightarrow>
        p \<le> k \<and> k - p < n \<and> bit (le_val x) (k - p) \<or> (h < WIDTH \<and> h mod 8 \<noteq> 0 \<and> i + 1 = out) \<and> bit (le_val r) k"
    proof -
      have small: "p mod 8 < 8" "k mod 8 < 8"
        by simp_all
      have "bit (shifted_byte n x (p mod 8) i) (k mod 8) \<longleftrightarrow> p \<le> k \<and> k - p < n \<and> bit (le_val x) (k - p)"
        unfolding bit_shifted_byte [OF x small(1) i] pos using small(2) by (rule conj_absorb_left)
      then show ?thesis
        using bits unfolding if_P [OF True] i_def by blast
    qed
    show ?thesis
    proof (cases "k < h")
      case below: True
      then show ?thesis
        unfolding now p_def using n low [of k] by auto
    next
      case False
      have "h < WIDTH \<and> h mod 8 \<noteq> 0 \<and> i + 1 = out" if "bit (le_val r) k"
      proof (intro conjI)
        show "h < WIDTH"
          using high [OF that] False by simp
        show "h mod 8 \<noteq> 0" "i + 1 = out"
          using last_byte [OF e _ \<open>i < out\<close> top] False by simp_all
      qed
      then show ?thesis
        unfolding now p_def using n False by auto
    qed
  next
    case False
    have "k < p \<or> h \<le> k"
    proof (rule disjE)
      show "k div 8 < p div 8 \<or> p div 8 + out \<le> k div 8"
        using False by linarith
    next
      assume "k div 8 < p div 8"
      then show ?thesis
        by (metis div_le_mono linorder_not_less)
    next
      assume "p div 8 + out \<le> k div 8"
      then have "8 * (p div 8 + out) \<le> 8 * (k div 8)"
        by (rule mult_le_mono2)
      also have "\<dots> \<le> k"
        by (rule times_div_less_eq_dividend)
      finally show ?thesis
        using top by linarith
    qed
    then show ?thesis
      unfolding bits if_not_P [OF False] using n low [of k] by (auto simp: p_def)
  qed
qed simp

section \<open>Every path builds the number\<close>

lemma cat_WIDTH_simps [simp]: "cat_WIDTH [] = 0" "cat_WIDTH ((n, x) # args) = n + cat_WIDTH args"
  by (simp_all add: cat_WIDTH_def)

lemma fields_ok_simps [simp]: "fields_ok []" "fields_ok ((n, x) # args) \<longleftrightarrow> length x = SIZE n \<and> fields_ok args"
  by (auto simp: fields_ok_def)

lemma built_low: "built WIDTH h v r \<Longrightarrow> bit (le_val r) k \<Longrightarrow> h \<le> k"
  unfolding built_def push_bit_eq_mult [symmetric] by (elim conjE) (simp only: bit_push_bit_iff)

lemma appendPacked_built:
  "built WIDTH (cat_WIDTH args) v r \<Longrightarrow> fields_ok args \<Longrightarrow> built WIDTH 0 (cat_number args v) (appendPacked WIDTH args (cat_WIDTH args) r)"
proof (induction args arbitrary: v r)
  case (Cons arg args)
  obtain n x where arg: "arg = (n, x)"
    by (cases arg)
  have "built WIDTH (n + cat_WIDTH args - n) (v * 2 ^ n + le_val x mod 2 ^ n) (append_field WIDTH (n + cat_WIDTH args) (n, x) r)"
    using Cons.prems by (intro append_field_built) (simp_all add: arg)
  then show ?case
    using Cons.IH Cons.prems(2) by (simp add: arg)
qed simp

lemma cat_bits_built:
  "built WIDTH (cat_WIDTH args) v r \<Longrightarrow> fields_ok args \<Longrightarrow> \<forall>arg \<in> set args. fst arg = 1 \<Longrightarrow>
   built WIDTH 0 (cat_number args v)
     (snd (fold (\<lambda>arg (pos, r). (pos - 1, logic_set r (pos - 1) (logic_get (snd arg) 0))) args (cat_WIDTH args, r)))"
proof (induction args arbitrary: v r)
  case (Cons arg args)
  obtain x where arg: "arg = (1, x)"
    using Cons.prems(3) by (cases arg) simp
  let ?h = "cat_WIDTH args"
  have x: "length x = 1"
    using Cons.prems(2) by (simp add: arg SIZE_def)
  have b: "built WIDTH (1 + ?h) v r"
    using Cons.prems(1) by (simp add: arg)
  then have room: "?h < 8 * length r"
    using SIZE_bounds(1) [of WIDTH] by (simp add: built_def)
  have low: "bit (le_val r) k \<Longrightarrow> 1 + ?h \<le> k" for k
    using built_low [OF b] .
  have "built WIDTH (1 + ?h - 1) (v * 2 ^ 1 + le_val x mod 2 ^ 1) (logic_set r ?h (logic_get x 0))"
  proof (rule built_step [OF b])
    fix k
    show "bit (le_val (logic_set r ?h (logic_get x 0))) k \<longleftrightarrow>
        (if 1 + ?h - 1 \<le> k \<and> k < 1 + ?h then bit (le_val x) (k - (1 + ?h - 1)) else 1 + ?h \<le> k \<and> bit (le_val r) k)"
      using low [of k] x by (auto simp: bit_logic_set [OF room] logic_get_bit)
  qed simp_all
  then show ?case
    using Cons.IH Cons.prems(2,3) by (simp add: arg)
qed simp

lemma cat_bytes_built:
  "built WIDTH (cat_WIDTH args) v r \<Longrightarrow> fields_ok args \<Longrightarrow> \<forall>arg \<in> set args. fst arg mod 8 = 0 \<Longrightarrow>
   built WIDTH 0 (cat_number args v)
     (snd (fold (\<lambda>(n, x) (byteOffset, r). (byteOffset - SIZE n, put_bytes r (byteOffset - SIZE n) (take (SIZE n) x)))
       args (SIZE (cat_WIDTH args), r)))"
proof (induction args arbitrary: v r)
  case (Cons arg args)
  obtain n x where arg: "arg = (n, x)"
    by (cases arg)
  let ?h = "cat_WIDTH args"
  have n: "n = 8 * SIZE n" and x: "length x = SIZE n"
    using Cons.prems(2,3) SIZE_cases(1) [of n] by (auto simp: arg)
  have "\<forall>arg \<in> set as. fst arg mod 8 = 0 \<Longrightarrow> cat_WIDTH as mod 8 = 0" for as
    by (induction as) (auto simp: cat_WIDTH_def)
  then have h: "?h = 8 * SIZE ?h" "SIZE (n + ?h) = SIZE n + SIZE ?h"
    using Cons.prems(3) SIZE_cases(1) [of ?h] n by (auto simp: SIZE_def)
  have b: "built WIDTH (n + ?h) v r"
    using Cons.prems(1) by (simp add: arg)
  then have "n + ?h \<le> 8 * length r"
    using SIZE_bounds(1) [of WIDTH] by (simp add: built_def)
  then have room: "SIZE ?h + length x \<le> length r"
    using n h x by simp
  have low: "bit (le_val r) k \<Longrightarrow> n + ?h \<le> k" for k
    using built_low [OF b] .
  have "built WIDTH (n + ?h - n) (v * 2 ^ n + le_val x mod 2 ^ n) (put_bytes r (SIZE ?h) x)"
  proof (rule built_step [OF b])
    fix k
    have range: "8 * SIZE ?h \<le> k \<and> k < 8 * (SIZE ?h + length x) \<longleftrightarrow> ?h \<le> k \<and> k < n + ?h" "k - 8 * SIZE ?h = k - ?h"
      using n h x by auto
    show "bit (le_val (put_bytes r (SIZE ?h) x)) k \<longleftrightarrow>
        (if n + ?h - n \<le> k \<and> k < n + ?h then bit (le_val x) (k - (n + ?h - n)) else n + ?h \<le> k \<and> bit (le_val r) k)"
      unfolding bit_put_bytes [OF room] range using low [of k] by auto
  qed (simp_all add: length_put_bytes [OF room])
  then show ?case
    using Cons.IH Cons.prems(2,3) h(2) x by (simp add: arg)
qed (simp add: SIZE_def)

lemma appendScalar_number:
  assumes "unat p < 2 ^ m" and "m + n \<le> 64" and "length x = SIZE n"
  shows "unat (appendScalar (n, x) p) = unat p * 2 ^ n + le_val x mod 2 ^ n" and "unat p * 2 ^ n + le_val x mod 2 ^ n < 2 ^ (m + n)"
proof -
  show small: "unat p * 2 ^ n + le_val x mod 2 ^ n < 2 ^ (m + n)"
  proof -
    have "unat p * 2 ^ n + le_val x mod 2 ^ n < (unat p + 1) * 2 ^ n"
      by (simp add: algebra_simps)
    also have "\<dots> \<le> 2 ^ m * 2 ^ n"
      using assms(1) by (intro mult_le_mono1) simp
    finally show ?thesis
      by (simp only: power_add)
  qed
  have raw: "bit (to_uint64_constexpr x) k \<longleftrightarrow> k < 64 \<and> bit (le_val x) k" for k
    by (simp add: to_uint64_paths to_uint64_def bit_load64_val)
  show "unat (appendScalar (n, x) p) = unat p * 2 ^ n + le_val x mod 2 ^ n"
  proof (rule bit_eqI)
    fix k
    have rhs: "bit (unat p * 2 ^ n + le_val x mod 2 ^ n) k \<longleftrightarrow> (if k < n then bit (le_val x) k else bit (unat p) (k - n))"
      by (simp add: bit_shift_add bit_mod_exp)
    show "bit (unat (appendScalar (n, x) p)) k \<longleftrightarrow> bit (unat p * 2 ^ n + le_val x mod 2 ^ n) k"
    proof (cases "n = 64")
      case True
      then have "unat p = 0"
        using assms(1,2) by simp
      then show ?thesis
        using True unfolding rhs by (simp add: appendScalar_def bit_unsigned_iff raw)
    next
      case False
      then have n: "n < 64"
        using assms(2) by simp
      have mask: "bit (push_bit n 1 - 1 :: u64) j \<longleftrightarrow> j < 64 \<and> j < n" for j
      proof -
        have "(push_bit n 1 - 1 :: u64) = mask n"
          by (simp add: mask_eq_exp_minus_1)
        then show ?thesis
          by (simp add: bit_mask_iff possible_bit_word)
      qed
      have lhs: "bit (unat (appendScalar (n, x) p)) k \<longleftrightarrow> k < 64 \<and> (n \<le> k \<and> bit p (k - n) \<or> k < n \<and> bit (le_val x) k)"
      proof -
        have eq: "appendScalar (n, x) p = push_bit n p OR (to_uint64_constexpr x AND (push_bit n 1 - 1))"
          using False by (simp only: appendScalar_def prod.case Let_def if_False)
        show ?thesis
          unfolding eq bit_unsigned_iff bit_or_iff bit_and_iff mask raw using bit_u64_bound [of p "k - n"]
          by (auto simp: bit_push_bit_iff)
      qed
      have "k < 64" if "n \<le> k" "bit p (k - n)"
      proof -
        have "bit (unat p * 2 ^ n + le_val x mod 2 ^ n) k"
          using that rhs by (simp add: bit_unsigned_iff)
        moreover have "unat p * 2 ^ n + le_val x mod 2 ^ n < 2 ^ 64"
          using small assms(2) power_increasing [of "m + n" 64 "2 :: nat"] by linarith
        ultimately show ?thesis
          by (metis bit_mod_exp mod_less)
      qed
      then show ?thesis
        unfolding lhs rhs using n by (auto simp: bit_unsigned_iff)
    qed
  qed
qed

lemma cat_scalar_number:
  "unat p < 2 ^ m \<Longrightarrow> m + cat_WIDTH args \<le> 64 \<Longrightarrow> fields_ok args \<Longrightarrow>
   unat (fold appendScalar args p) = cat_number args (unat p) \<and> cat_number args (unat p) < 2 ^ (m + cat_WIDTH args)"
proof (induction args arbitrary: p m)
  case (Cons arg args)
  obtain n x where arg: "arg = (n, x)"
    by (cases arg)
  have step: "unat (appendScalar (n, x) p) = unat p * 2 ^ n + le_val x mod 2 ^ n" "unat p * 2 ^ n + le_val x mod 2 ^ n < 2 ^ (m + n)"
    using appendScalar_number [OF Cons.prems(1), of n x] Cons.prems(2,3) by (simp_all add: arg)
  show ?case
    using Cons.IH [of "appendScalar (n, x) p" "m + n"] Cons.prems(2,3) step by (simp add: arg add.assoc)
qed simp

lemma cat_constexpr_number:
  assumes "fields_ok args"
  shows "length (cat_constexpr args) = SIZE (cat_WIDTH args)" and "le_val (cat_constexpr args) = cat_number args 0"
    and "cat_number args 0 < 2 ^ cat_WIDTH args"
proof -
  have "built (cat_WIDTH args) 0 (cat_number args 0) (cat_constexpr args)"
    using cat_bits_built [OF built_start assms] cat_bytes_built [OF built_start assms] appendPacked_built [OF built_start assms]
    by (simp add: cat_constexpr_def cat_bits_def cat_bytes_def Let_def)
  then show "length (cat_constexpr args) = SIZE (cat_WIDTH args)" and "le_val (cat_constexpr args) = cat_number args 0"
    and "cat_number args 0 < 2 ^ cat_WIDTH args"
    by (simp_all add: built_def)
qed

text \<open>
  C13: A concatenation is the number of its fields, each modulo its width and the first one most
  significant, on the run-time path for 64 bits and on each of the three constant-evaluation paths, which therefore
  agree; its padding is clear whatever the fields' padding is.
\<close>

theorem cat_is_concatenation:
  assumes "fields_ok args"
  shows "le_val (cat args) = cat_number args 0 \<and> cat args = cat_constexpr args \<and> logic_wf (cat_WIDTH args) (cat args)"
proof -
  note const = cat_constexpr_number [OF assms]
  have "le_val (cat args) = cat_number args 0 \<and> length (cat args) = SIZE (cat_WIDTH args)"
  proof (cases "cat_WIDTH args \<le> 64")
    case True
    then have "unat (fold appendScalar args 0) = cat_number args 0"
      using cat_scalar_number [of 0 0 args] assms by simp
    then show ?thesis
      using True const(3) by (simp add: cat_def cat_scalar_def le_val_assign_uint64)
  next
    case False
    then show ?thesis
      using const by (simp add: cat_def)
  qed
  then show ?thesis
    using const le_val_inj [of "cat args" "cat_constexpr args"] by (simp add: logic_wf_def)
qed

text \<open>Three bits, a byte and 61 bits: the general path, with both boundary bytes shared.\<close>

lemma cat_is_concatenation_witness:
  "le_val (cat [(3, [0xFD]), (8, [0xAB]), (61, [1, 0, 0, 0, 0, 0, 0, 0xF0])]) = (5 * 2 ^ 8 + 0xAB) * 2 ^ 61 + 2 ^ 60 + 1"
proof -
  have "fields_ok [(3, [0xFD]), (8, [0xAB]), (61, [1, 0, 0, 0, 0, 0, 0, 0xF0])]"
    by (simp add: SIZE_def)
  from conjunct1 [OF cat_is_concatenation [OF this]] show ?thesis
    by simp
qed

text \<open>The integer operators see the low 64 bits only.\<close>

lemma cat_compares_low_word:
  "fields_ok args \<Longrightarrow> cat_eq (cat_constexpr args) v \<longleftrightarrow> cat_number args 0 mod 2 ^ 64 = unat v"
  "fields_ok args \<Longrightarrow> cat_less (cat_constexpr args) v \<longleftrightarrow> cat_number args 0 mod 2 ^ 64 < unat v"
  by (simp_all add: cat_eq_def cat_less_def cat_uint64_def to_uint64_paths to_uint64_def word_unat_eq_iff word_less_nat_alt
    unat_load64 le_val_take pow256 cat_constexpr_number(2))

lemma wide_cat_equals_zero: "cat_eq (cat [(1, [1]), (64, [0, 0, 0, 0, 0, 0, 0, 0])]) 0 \<and> le_val (cat [(1, [1]), (64, [0, 0, 0, 0, 0, 0, 0, 0])]) = 2 ^ 64"
proof -
  have "cat [(1, [1]), (64, [0, 0, 0, 0, 0, 0, 0, 0])] = cat_constexpr [(1, [1]), (64, [0, 0, 0, 0, 0, 0, 0, 0])]"
    by (simp add: cat_def)
  then show ?thesis
    by (simp add: cat_compares_low_word cat_constexpr_number(2) SIZE_def)
qed

end
