(* ===== verification/RegMemory.thy ===== *)
theory RegMemory
  imports Prelude
begin

text \<open>
  The clocked state of a module, \<open>include/cpphdl_reg.h\<close> and \<open>include/cpphdl_memory.h\<close>. A
  register holds its committed value and the value it takes at the next strobe. A memory
  holds its committed rows and the queue of row writes that \<open>apply()\<close> commits in order; a
  row taken from it by index remembers its position, and assigning to it queues a write.
  \<open>None\<close> is the failed \<open>cpphdl_assert\<close> on the index.
\<close>

section \<open>Registers\<close>

record 'a reg =
  cur :: 'a
  nxt :: 'a

definition reg_strobe :: "'a reg \<Rightarrow> 'a reg" where
  "reg_strobe r = r\<lparr>cur := nxt r\<rparr>"

definition reg_assign :: "'a \<Rightarrow> 'a reg \<Rightarrow> 'a reg" where
  "reg_assign v r = r\<lparr>cur := v\<rparr>"

definition reg_set :: "'a reg \<Rightarrow> 'a reg" where
  "reg_set r = r\<lparr>nxt := cur r\<rparr>"

definition reg_set_to :: "'a \<Rightarrow> 'a reg \<Rightarrow> 'a reg" where
  "reg_set_to t r = r\<lparr>cur := t, nxt := t\<rparr>"

text \<open>\<open>clr()\<close> zeroes both halves; the zero value of the type is passed in.\<close>

definition reg_clr :: "'a \<Rightarrow> 'a reg \<Rightarrow> 'a reg" where
  "reg_clr zero r = \<lparr>cur = zero, nxt = zero\<rparr>"

text \<open>The form with a checkpoint file: \<open>Some (c, n)\<close> are the two values read from it.\<close>

definition reg_strobe_checkpoint :: "('a \<times> 'a) option \<Rightarrow> 'a reg \<Rightarrow> 'a reg" where
  "reg_strobe_checkpoint restored r =
     (case restored of Some (c, n) \<Rightarrow> r\<lparr>cur := c, nxt := n\<rparr> | None \<Rightarrow> reg_strobe r)"

text \<open>A register whose next value is its current one keeps it: the rest state between cycles.\<close>

definition settled :: "'a reg \<Rightarrow> bool" where
  "settled r \<longleftrightarrow> nxt r = cur r"

lemma settled_simps [simp]:
  "settled (reg_strobe r)" "settled (reg_clr z r)" "settled (reg_set r)" "settled (reg_set_to t r)"
  by (simp_all add: settled_def reg_strobe_def reg_clr_def reg_set_def reg_set_to_def)

lemma cur_simps [simp]:
  "cur (reg_strobe r) = nxt r" "cur (reg_clr z r) = z" "nxt (reg_clr z r) = z" "nxt (reg_strobe r) = nxt r"
  by (simp_all add: reg_strobe_def reg_clr_def)

section \<open>Memories\<close>

record 'r memory =
  rows :: "'r list"
  changes :: "(nat \<times> 'r) list"

record 'r memory_row =
  row_value :: 'r
  row_pos :: nat

text \<open>\<open>operator[]\<close>: the committed row.\<close>

definition mem_row :: "'r memory \<Rightarrow> nat \<Rightarrow> 'r memory_row option" where
  "mem_row m i = (if i < length (rows m) then Some \<lparr>row_value = rows m ! i, row_pos = i\<rparr> else None)"

text \<open>\<open>pending()\<close>: the committed row, or the last queued one for the same position.\<close>

definition mem_pending :: "'r memory \<Rightarrow> nat \<Rightarrow> 'r memory_row option" where
  "mem_pending m i =
     (if i < length (rows m)
      then Some (case find (\<lambda>c. fst c = i) (rev (changes m)) of
          None \<Rightarrow> \<lparr>row_value = rows m ! i, row_pos = i\<rparr>
        | Some c \<Rightarrow> \<lparr>row_value = snd c, row_pos = i\<rparr>)
      else None)"

text \<open>The assignment operators of a row: the new value, and the write it queues.\<close>

definition row_assign :: "'r \<Rightarrow> 'r memory_row \<Rightarrow> 'r memory \<Rightarrow> 'r memory_row \<times> 'r memory" where
  "row_assign v row m =
     (row\<lparr>row_value := v\<rparr>, m\<lparr>changes := changes m @ [(row_pos row, v)]\<rparr>)"

text \<open>
  The compound assignments \<open><<=\<close>, \<open>>>=\<close>, \<open>|=\<close>, \<open>&=\<close> and \<open>^=\<close>: each queues the row as it
  is, and then the assignment of the result queues it again.
\<close>

definition row_update :: "('r \<Rightarrow> 'r) \<Rightarrow> 'r memory_row \<Rightarrow> 'r memory \<Rightarrow> 'r memory_row \<times> 'r memory" where
  "row_update f row m =
     row_assign (f (row_value row)) row (m\<lparr>changes := changes m @ [(row_pos row, row_value row)]\<rparr>)"

definition mem_apply :: "'r memory \<Rightarrow> 'r memory" where
  "mem_apply m = m\<lparr>rows := fold (\<lambda>(pos, v) d. d[pos := v]) (changes m) (rows m), changes := []\<rparr>"

text \<open>\<open>apply\<close> with a checkpoint file: \<open>Some d\<close> are the rows read from it.\<close>

definition mem_apply_checkpoint :: "'r list option \<Rightarrow> 'r memory \<Rightarrow> 'r memory" where
  "mem_apply_checkpoint restored m =
     (case restored of Some d \<Rightarrow> m\<lparr>rows := d, changes := []\<rparr> | None \<Rightarrow> mem_apply m)"

text \<open>\<open>operator=\<close> copies the committed rows and leaves the queue alone.\<close>

definition mem_assign :: "'r memory \<Rightarrow> 'r memory \<Rightarrow> 'r memory" where
  "mem_assign other m = m\<lparr>rows := rows other\<rparr>"

section \<open>Lemmas\<close>

lemma length_fold_update [simp]:
  "length (fold (\<lambda>(pos, v) d. d[pos := v]) cs d) = length d"
  by (induction cs arbitrary: d) auto

lemma fold_update_nth:
  assumes "i < length d"
  shows "fold (\<lambda>(pos, v) d. d[pos := v]) cs d ! i =
    (case find (\<lambda>c. fst c = i) (rev cs) of None \<Rightarrow> d ! i | Some c \<Rightarrow> snd c)"
  using assms
proof (induction cs rule: rev_induct)
  case (snoc c cs)
  then show ?case
    by (cases c) (auto simp: nth_list_update)
qed simp

lemma rows_mem_apply [simp]: "length (rows (mem_apply m)) = length (rows m)"
  by (simp add: mem_apply_def)

lemma changes_mem_apply [simp]: "changes (mem_apply m) = []"
  by (simp add: mem_apply_def)

lemma mem_apply_no_changes: "changes m = [] \<Longrightarrow> mem_apply m = m"
  by (simp add: mem_apply_def)

lemma rows_row_assign [simp]:
  "rows (snd (row_assign v row m)) = rows m" "rows (snd (row_update f row m)) = rows m"
  by (simp_all add: row_assign_def row_update_def)

text \<open>One queued write on a memory with an empty queue.\<close>

lemma apply_single_write:
  "changes m = [] \<Longrightarrow> rows (mem_apply (snd (row_assign v \<lparr>row_value = old, row_pos = i\<rparr> m))) = (rows m)[i := v]"
  by (simp add: row_assign_def mem_apply_def)

section \<open>Properties\<close>

text \<open>
  what \<open>pending\<close> reads is what the memory holds after \<open>apply\<close>, while an ordinary read
  sees the committed row: queued writes are deferred, and the last one to a row wins.
\<close>

theorem pending_anticipates_apply:
  assumes "i < length (rows m)"
  shows "map_option row_value (mem_pending m i) = map_option row_value (mem_row (mem_apply m) i) \<and>
    map_option row_value (mem_row (snd (row_assign v row m)) i) = Some (rows m ! i)"
  using assms
  by (simp add: mem_pending_def mem_row_def mem_apply_def fold_update_nth row_assign_def split: option.split)

lemma pending_anticipates_apply_witness:
  "map_option row_value (mem_row (mem_apply \<lparr>rows = [5, 6, 7 :: nat], changes = [(1, 8), (2, 9), (1, 4)]\<rparr>) 1) = Some 4"
  using pending_anticipates_apply [of 1 "\<lparr>rows = [5, 6, 7 :: nat], changes = [(1, 8), (2, 9), (1, 4)]\<rparr>" 0
      "\<lparr>row_value = 0, row_pos = 0\<rparr>"]
  by (simp add: mem_pending_def)

text \<open>
  C18: a read-modify-write based on the pending row composes with the writes already queued:
  after \<open>apply\<close> the row is the update of the value it would have had, and no other row
  changes. The extra write that the compound operators queue is overwritten.
\<close>

theorem pending_update_composes:
  assumes "mem_pending m i = Some row" and "j < length (rows m)"
  shows "rows (mem_apply (snd (row_update f row m))) ! j =
    (if j = i then f (rows (mem_apply m) ! i) else rows (mem_apply m) ! j)"
proof -
  have i: "i < length (rows m)"
    using assms(1) by (simp add: mem_pending_def split: if_splits)
  then have "row_pos row = i" and "row_value row = rows (mem_apply m) ! i"
    using assms(1) by (auto simp: mem_pending_def mem_apply_def fold_update_nth split: option.splits)
  then show ?thesis
    using i assms(2) by (auto simp: row_update_def row_assign_def mem_apply_def nth_list_update)
qed

lemma pending_update_composes_witness:
  "rows (mem_apply (snd (row_update ((+) 1) \<lparr>row_value = 8, row_pos = 1\<rparr>
     \<lparr>rows = [5, 6 :: nat], changes = [(1, 8)]\<rparr>))) ! 1 = 9"
  using pending_update_composes [of "\<lparr>rows = [5, 6 :: nat], changes = [(1, 8)]\<rparr>" 1
      "\<lparr>row_value = 8, row_pos = 1\<rparr>" 1 "(+) 1"]
  by (simp add: mem_pending_def mem_apply_def)

end
