(* ===== verification/BasicMemory.thy ===== *)
theory BasicMemory
  imports LogicBits RegMemory
begin

text \<open>
  \<open>Memory\<close> of \<open>lib/basic/Memory.h\<close>: a memory of \<open>MEM_DEPTH\<close> rows of \<open>MEM_WIDTH_BYTES\<close>
  bytes with a byte-enable write port and a read port that is combinational (\<open>SHOWAHEAD\<close>)
  or registered. A row is its list of bytes. \<open>None\<close> is the index assertion of the memory.
\<close>

record mem_state =
  buffer :: "bytes memory"
  data_out_reg :: "bytes reg"

record mem_in =
  write_addr_in :: nat
  write_in :: bool
  write_data_in :: bytes
  write_mask_in :: bytes
  read_addr_in :: nat

text \<open>\<open>data_out_comb_func\<close>.\<close>

definition mem_data_out :: "bool \<Rightarrow> mem_in \<Rightarrow> mem_state \<Rightarrow> bytes option" where
  "mem_data_out showahead i s =
     (if showahead then map_option row_value (mem_row (buffer s) (read_addr_in i))
      else Some (cur (data_out_reg s)))"

text \<open>The loop \<open>mask.bits((i+1)*8-1, i*8) = mask_in[i] ? 0xFF : 0\<close>.\<close>

definition mask_step :: "nat \<Rightarrow> bytes \<Rightarrow> nat \<Rightarrow> bytes \<Rightarrow> bytes" where
  "mask_step wb mask_in i mk =
     proxy_assign_uint64 (8 * wb) (proxy_of (8 * wb) mk (i * 8) ((i + 1) * 8 - 1))
       (if to_bool (own (proxy_of wb mask_in i i)) then 0xFF else 0) mk"

definition byte_mask :: "nat \<Rightarrow> bytes \<Rightarrow> bytes" where
  "byte_mask wb mask_in = fold (mask_step wb mask_in) [0..<wb] (assign_uint64 (8 * wb) 0)"

text \<open>\<open>(buffer[a] & ~mask) | (write_data_in() & mask)\<close>.\<close>

definition merge_row :: "nat \<Rightarrow> bytes \<Rightarrow> bytes \<Rightarrow> bytes \<Rightarrow> bytes" where
  "merge_row wb old new mk =
     logic_or (8 * wb) (8 * wb) (logic_and (8 * wb) (8 * wb) old (logic_not (8 * wb) mk))
       (logic_and (8 * wb) (8 * wb) new mk)"

definition mem_work :: "bool \<Rightarrow> nat \<Rightarrow> mem_in \<Rightarrow> mem_state \<Rightarrow> mem_state option" where
  "mem_work showahead wb i s =
     (case (if write_in i
            then map_option (\<lambda>row. snd (row_assign
                     (merge_row wb (row_value row) (write_data_in i) (byte_mask wb (write_mask_in i)))
                     row (buffer s)))
                   (mem_row (buffer s) (write_addr_in i))
            else Some (buffer s)) of
        None \<Rightarrow> None
      | Some b \<Rightarrow>
          if showahead then Some (s\<lparr>buffer := b\<rparr>)
          else map_option (\<lambda>row. s\<lparr>buffer := b, data_out_reg := (data_out_reg s)\<lparr>nxt := row_value row\<rparr>\<rparr>)
                 (mem_row b (read_addr_in i)))"

definition mem_strobe :: "mem_state \<Rightarrow> mem_state" where
  "mem_strobe s = s\<lparr>buffer := mem_apply (buffer s), data_out_reg := reg_strobe (data_out_reg s)\<rparr>"

section \<open>The byte mask\<close>

lemma SIZE_bytes [simp]: "SIZE (8 * wb) = wb"
  by (simp add: SIZE_def)

lemma logic_wf_bytes: "length x = wb \<Longrightarrow> logic_wf (8 * wb) x"
  using le_val_lt [of x] by (simp add: logic_wf_def pow256)

lemma bytes_same [simp]:
  "clear_padding (8 * wb) x = x"
  "length x = wb \<Longrightarrow> convert (8 * wb) x = x"
  by (simp_all add: clear_padding_def convert_def)

lemma length_apply_ops [simp]:
  "length bs = length as \<Longrightarrow> length (apply_and as bs) = length as"
  "length bs = length as \<Longrightarrow> length (apply_or as bs) = length as"
  by (simp_all add: apply_and_def apply_or_def)

lemma to_bool_bit:
  assumes "i < wb" and "logic_wf wb m"
  shows "to_bool (own (proxy_of wb m i i)) \<longleftrightarrow> bit (le_val m) i"
proof -
  have len: "length m = SIZE wb"
    using assms(2) by (simp add: logic_wf_def)
  have "i < 8 * length m"
    using assms(1) SIZE_bounds(1) [of wb] len by linarith
  then have bits: "bit (le_val (own (proxy_of wb m i i))) n \<longleftrightarrow> n = 0 \<and> bit (le_val m) i" for n
    using bit_own_proxy_of [of i i m wb n] by auto
  have "to_uint64 (own (proxy_of wb m i i)) = (if bit (le_val m) i then 1 else 0)"
    by (rule bit_word_eqI)
      (auto simp: to_uint64_def load64_def bit_word_of_nat_iff bit_take_bytes bits bit_1_iff)
  then show ?thesis
    by (simp add: to_bool_def)
qed

lemma mask_step_bits:
  assumes "i < wb" and "logic_wf wb m" and "length x = wb"
  shows "length (mask_step wb m i x) = wb"
    and "bit (le_val (mask_step wb m i x)) n \<longleftrightarrow>
      (if n div 8 = i then bit (le_val m) i else bit (le_val x) n)"
proof -
  let ?p = "proxy_of (8 * wb) x (i * 8) ((i + 1) * 8 - 1)"
  let ?v = "if to_bool (own (proxy_of wb m i i)) then 0xFF else 0 :: u64"
  have some: "logic_bits (8 * wb) ((i + 1) * 8 - 1) (i * 8) x = Some ?p"
    using assms(1) by (simp add: logic_bits_def)
  have "bits_replaced (assign_uint64 (8 * wb) ?v) (i * 8) 0 ((i + 1) * 8 - 1 - i * 8 + 1) x
      (mask_step wb m i x)"
    unfolding mask_step_def proxy_assign_uint64_def
    using some by (rule update_own_replaces) (simp_all add: assms)
  then have r: "bits_replaced (assign_uint64 (8 * wb) ?v) (8 * i) 0 8 x (mask_step wb m i x)"
    by (simp add: mult.commute)
  then show "length (mask_step wb m i x) = wb"
    using assms by (simp add: bits_replaced_def)
  have v: "bit (le_val (assign_uint64 (8 * wb) ?v)) k \<longleftrightarrow> bit (le_val m) i" if "k < 8" for k
  proof -
    have "k < 8 * wb" using that assms(1) by linarith
    moreover have "bit (255 :: u64) k"
      using bit_mask_iff [of 8 k, where 'a = "64 word"] that by (simp add: mask_eq_exp_minus_1)
    ultimately show ?thesis
      using that to_bool_bit [OF assms(1,2)]
      by (simp add: le_val_assign_uint64 bit_mod_exp bit_unsigned_iff)
  qed
  have "8 * i \<le> n \<and> n < 8 * i + 8 \<longleftrightarrow> n div 8 = i" by auto
  moreover have "n div 8 = i \<Longrightarrow> n - 8 * i < 8" by auto
  ultimately show "bit (le_val (mask_step wb m i x)) n \<longleftrightarrow>
      (if n div 8 = i then bit (le_val m) i else bit (le_val x) n)"
    using r v [of "n - 8 * i"] by (simp add: bits_replaced_def)
qed

lemma byte_mask_loop:
  assumes "logic_wf wb m" and "k \<le> wb"
  shows "length (fold (mask_step wb m) [0..<k] (assign_uint64 (8 * wb) 0)) = wb \<and>
    (bit (le_val (fold (mask_step wb m) [0..<k] (assign_uint64 (8 * wb) 0))) n \<longleftrightarrow>
      n div 8 < k \<and> bit (le_val m) (n div 8))"
  using assms(2)
proof (induction k arbitrary: n)
  case 0
  then show ?case by (simp add: le_val_assign_uint64)
next
  case (Suc k)
  then show ?case
    using mask_step_bits [OF _ assms(1), of k] by (auto simp: less_Suc_eq)
qed

lemma length_byte_mask: "logic_wf wb m \<Longrightarrow> length (byte_mask wb m) = wb"
  unfolding byte_mask_def using byte_mask_loop [of wb m wb] by simp

lemma bit_byte_mask:
  "logic_wf wb m \<Longrightarrow> bit (le_val (byte_mask wb m)) n \<longleftrightarrow> n div 8 < wb \<and> bit (le_val m) (n div 8)"
  unfolding byte_mask_def using byte_mask_loop [of wb m wb n] by simp

lemma merge_row_bytes:
  assumes "length old = wb" and "length new = wb" and m: "logic_wf wb m"
  shows "merge_row wb old new (byte_mask wb m) =
    map (\<lambda>i. if bit (le_val m) i then new ! i else old ! i) [0..<wb]"
proof (rule byte_list_eqI)
  let ?r = "merge_row wb old new (byte_mask wb m)"
  have len: "length ?r = wb"
    using assms by (simp add: merge_row_def logic_or_def logic_and_def logic_not_def length_byte_mask)
  then show "length ?r = length (map (\<lambda>i. if bit (le_val m) i then new ! i else old ! i) [0..<wb])"
    by simp
  fix n assume "n < 8 * length ?r"
  then have n: "n div 8 < wb" "n < 8 * wb"
    using len by auto
  have "le_val ?r = (le_val old AND le_val (map NOT (byte_mask wb m))) OR (le_val new AND le_val (byte_mask wb m))"
    using assms by (simp add: merge_row_def logic_or_def logic_and_def logic_not_def length_byte_mask
        le_val_and le_val_or)
  then have "bit (le_val ?r) n \<longleftrightarrow> (if bit (le_val m) (n div 8) then bit (le_val new) n else bit (le_val old) n)"
    using n m by (simp add: bit_or_iff bit_and_iff bit_map_not bit_byte_mask length_byte_mask)
  then show "bit (?r ! (n div 8)) (n mod 8) =
      bit (map (\<lambda>i. if bit (le_val m) i then new ! i else old ! i) [0..<wb] ! (n div 8)) (n mod 8)"
    using n len assms by (simp add: bit_le_val)
qed

section \<open>A clock cycle\<close>

definition mem_inv :: "nat \<Rightarrow> nat \<Rightarrow> mem_state \<Rightarrow> bool" where
  "mem_inv wb d s \<longleftrightarrow> changes (buffer s) = [] \<and> length (rows (buffer s)) = d \<and>
     list_all (\<lambda>row. length row = wb) (rows (buffer s))"

definition mem_in_ok :: "nat \<Rightarrow> nat \<Rightarrow> mem_in \<Rightarrow> bool" where
  "mem_in_ok wb d i \<longleftrightarrow> write_addr_in i < d \<and> read_addr_in i < d \<and> length (write_data_in i) = wb \<and>
     logic_wf wb (write_mask_in i)"

text \<open>The rows after a cycle.\<close>

definition written_rows :: "nat \<Rightarrow> mem_in \<Rightarrow> bytes list \<Rightarrow> bytes list" where
  "written_rows wb i rs =
     (if write_in i
      then rs[write_addr_in i := map (\<lambda>k. if bit (le_val (write_mask_in i)) k then write_data_in i ! k
                                         else rs ! write_addr_in i ! k) [0..<wb]]
      else rs)"

lemma length_written_rows [simp]: "length (written_rows wb i rs) = length rs"
  by (simp add: written_rows_def)

lemma mem_row_Some: "i < length (rows m) \<Longrightarrow> mem_row m i = Some \<lparr>row_value = rows m ! i, row_pos = i\<rparr>"
  by (simp add: mem_row_def)

lemma mem_cycle:
  assumes inv: "mem_inv wb d s" and ok: "mem_in_ok wb d i"
  obtains s1 where "mem_work sa wb i s = Some s1"
    and "rows (buffer (mem_strobe s1)) = written_rows wb i (rows (buffer s))"
    and "mem_inv wb d (mem_strobe s1)"
    and "cur (data_out_reg (mem_strobe s1)) =
      (if sa then nxt (data_out_reg s) else rows (buffer s) ! read_addr_in i)"
proof -
  let ?rs = "rows (buffer s)" and ?a = "write_addr_in i"
  let ?v = "merge_row wb (?rs ! ?a) (write_data_in i) (byte_mask wb (write_mask_in i))"
  let ?b = "if write_in i
      then snd (row_assign ?v \<lparr>row_value = ?rs ! ?a, row_pos = ?a\<rparr> (buffer s)) else buffer s"
  let ?s1 = "if sa then s\<lparr>buffer := ?b\<rparr>
      else s\<lparr>buffer := ?b, data_out_reg := (data_out_reg s)\<lparr>nxt := ?rs ! read_addr_in i\<rparr>\<rparr>"
  have a: "?a < length ?rs" and r: "read_addr_in i < length ?rs"
    using inv ok by (simp_all add: mem_inv_def mem_in_ok_def)
  have row: "length (?rs ! ?a) = wb"
    using inv a by (simp add: mem_inv_def list_all_length)
  have v: "?v = map (\<lambda>k. if bit (le_val (write_mask_in i)) k then write_data_in i ! k else ?rs ! ?a ! k) [0..<wb]"
    using ok row by (intro merge_row_bytes) (simp_all add: mem_in_ok_def)
  have rows_b: "rows ?b = ?rs" by simp
  have work: "mem_work sa wb i s = Some ?s1"
    using a r by (simp add: mem_work_def mem_row_Some)
  have rows: "rows (buffer (mem_strobe ?s1)) = written_rows wb i ?rs"
    using inv by (simp add: mem_strobe_def mem_inv_def apply_single_write mem_apply_no_changes written_rows_def
        flip: v)
  have "list_all (\<lambda>row. length row = wb) (written_rows wb i ?rs)"
    using inv by (auto simp: mem_inv_def written_rows_def list_all_iff dest!: subsetD [OF set_update_subset_insert])
  then have "mem_inv wb d (mem_strobe ?s1)"
    using inv rows by (simp add: mem_inv_def) (simp add: mem_strobe_def)
  moreover have "cur (data_out_reg (mem_strobe ?s1)) =
      (if sa then nxt (data_out_reg s) else ?rs ! read_addr_in i)"
    by (simp add: mem_strobe_def)
  ultimately show thesis
    using that work rows by blast
qed

section \<open>Properties\<close>

text \<open>
  C17: one clock cycle of \<open>Memory\<close> writes exactly the bytes enabled by the mask in the
  addressed row and no other row, and the registered read port gives the row as it was
  before the cycle.
\<close>

theorem memory_cycle_byte_enables:
  assumes "mem_inv wb d s" and "mem_in_ok wb d i"
  shows "\<exists>s1. mem_work sa wb i s = Some s1 \<and> mem_inv wb d (mem_strobe s1) \<and>
    rows (buffer (mem_strobe s1)) = written_rows wb i (rows (buffer s)) \<and>
    (\<not> sa \<longrightarrow> mem_data_out sa i' (mem_strobe s1) = Some (rows (buffer s) ! read_addr_in i))"
  using mem_cycle [OF assms, of sa] by (simp add: mem_data_out_def) metis

lemma memory_cycle_byte_enables_witness:
  "\<exists>s1. mem_work True 2 \<lparr>write_addr_in = 1, write_in = True, write_data_in = [8, 9], write_mask_in = [2], read_addr_in = 0\<rparr>
     \<lparr>buffer = \<lparr>rows = [[1, 2], [3, 4]], changes = []\<rparr>, data_out_reg = \<lparr>cur = [0, 0], nxt = [0, 0]\<rparr>\<rparr> = Some s1 \<and>
   rows (buffer (mem_strobe s1)) = [[1, 2], [3, 9]]"
proof -
  let ?s = "\<lparr>buffer = \<lparr>rows = [[1, 2], [3, 4]], changes = []\<rparr>, data_out_reg = \<lparr>cur = [0, 0], nxt = [0, 0]\<rparr>\<rparr>"
  let ?i = "\<lparr>write_addr_in = 1, write_in = True, write_data_in = [8, 9], write_mask_in = [2], read_addr_in = 0\<rparr>"
  have "mem_inv 2 2 ?s" and "mem_in_ok 2 2 ?i"
    by code_simp+
  moreover have "written_rows 2 ?i [[1, 2], [3, 4]] = [[1, 2], [3, 9]]"
    by code_simp
  ultimately show ?thesis
    using memory_cycle_byte_enables [of 2 2 ?s ?i True] by auto
qed

end
