(* ===== verification/RingBuffer.thy ===== *)
theory RingBuffer
  imports Prelude
begin

text \<open>
  Circular buffers and the contract of a stream queue, shared by the queues of the
  library: \<open>ring\<close> is the list stored from a read position on, \<open>fill\<close> the number of stored
  words that a write pointer, a read pointer and a full flag stand for.
\<close>

section \<open>Circular lists\<close>

definition ring :: "'a list \<Rightarrow> nat \<Rightarrow> nat \<Rightarrow> 'a list" where
  "ring xs r n = map (\<lambda>j. xs ! ((r + j) mod length xs)) [0..<n]"

lemma length_ring [simp]: "length (ring xs r n) = n"
  by (simp add: ring_def)

lemma ring_0 [simp]: "ring xs r 0 = []"
  by (simp add: ring_def)

lemma ring_eq_Nil [simp]: "ring xs r n = [] \<longleftrightarrow> n = 0"
  by (simp add: ring_def)

lemma ring_pop:
  assumes "r < length xs"
  shows "ring xs r (Suc n) = xs ! r # ring xs ((r + 1) mod length xs) n"
proof (intro nth_equalityI)
  fix j assume "j < length (ring xs r (Suc n))"
  moreover have "((r + 1) mod length xs + k) mod length xs = (r + Suc k) mod length xs" for k
    by (simp add: mod_add_left_eq)
  ultimately show "ring xs r (Suc n) ! j = (xs ! r # ring xs ((r + 1) mod length xs) n) ! j"
    using assms by (cases j) (simp_all add: ring_def del: upt_Suc)
qed simp

lemma hd_ring: "r < length xs \<Longrightarrow> 0 < n \<Longrightarrow> hd (ring xs r n) = xs ! r"
  by (cases n) (simp_all add: ring_pop)

lemma tl_ring: "r < length xs \<Longrightarrow> tl (ring xs r n) = ring xs ((r + 1) mod length xs) (n - 1)"
  by (cases n) (simp_all add: ring_pop)

text \<open>Positions of one lap are distinct.\<close>

lemma lap_distinct:
  assumes "i < d" and "j < d" and "i \<noteq> j"
  shows "(r + i) mod d \<noteq> (r + j) mod (d :: nat)"
proof
  assume "(r + i) mod d = (r + j) mod d"
  then have "i mod d = j mod d"
    by (simp add: nat_mod_eq_iff)
  then show False
    using assms by simp
qed

lemma ring_update_outside:
  assumes "n \<le> m" and "m < length xs"
  shows "ring (xs[(r + m) mod length xs := x]) r n = ring xs r n"
proof (intro nth_equalityI)
  fix j assume "j < length (ring (xs[(r + m) mod length xs := x]) r n)"
  then have "(r + m) mod length xs \<noteq> (r + j) mod length xs"
    using assms lap_distinct [of m "length xs" j r] by auto
  then show "ring (xs[(r + m) mod length xs := x]) r n ! j = ring xs r n ! j"
    using \<open>j < _\<close> by (simp add: ring_def)
qed simp

lemma ring_push:
  assumes "n < length xs"
  shows "ring (xs[(r + n) mod length xs := x]) r (Suc n) = ring xs r n @ [x]"
proof -
  have "ring (xs[(r + n) mod length xs := x]) r (Suc n) =
      ring (xs[(r + n) mod length xs := x]) r n @ [xs[(r + n) mod length xs := x] ! ((r + n) mod length xs)]"
    by (simp add: ring_def)
  moreover have "(r + n) mod length xs < length xs"
    using assms by (intro mod_less_divisor) linarith
  ultimately show ?thesis
    using assms by (simp add: ring_update_outside)
qed

text \<open>A word read and a word written in one step, also when every position is in use.\<close>

lemma ring_push_pop:
  assumes "n < length xs" and "r < length xs"
  shows "ring (xs[(r + Suc n) mod length xs := x]) ((r + 1) mod length xs) (Suc n) =
    tl (ring xs r (Suc n)) @ [x]"
proof -
  have "(r + Suc n) mod length xs = ((r + 1) mod length xs + n) mod length xs"
    by (simp add: mod_add_left_eq)
  then show ?thesis
    using assms ring_push [OF assms(1), of "(r + 1) mod length xs" x] by (simp add: ring_pop)
qed

section \<open>Pointers and a full flag\<close>

definition fill :: "nat \<Rightarrow> nat \<Rightarrow> nat \<Rightarrow> bool \<Rightarrow> nat" where
  "fill d wp rp full = (if wp = rp then (if full then d else 0) else if rp \<le> wp then wp - rp else d - rp + wp)"

lemma Suc_mod: "x < d \<Longrightarrow> Suc x mod d = (if Suc x = d then 0 else Suc x)"
  by auto

lemma fill_le: "wp < d \<Longrightarrow> rp < d \<Longrightarrow> fill d wp rp full \<le> d"
  by (auto simp: fill_def)

lemma fill_eq_0: "wp < d \<Longrightarrow> rp < d \<Longrightarrow> fill d wp rp full = 0 \<longleftrightarrow> wp = rp \<and> \<not> full"
  by (auto simp: fill_def)

lemma fill_eq_d: "wp < d \<Longrightarrow> rp < d \<Longrightarrow> fill d wp rp full = d \<longleftrightarrow> wp = rp \<and> full"
  by (auto simp: fill_def)

lemma wp_fill: "wp < d \<Longrightarrow> rp < d \<Longrightarrow> wp = (rp + fill d wp rp full) mod d"
  by (auto simp: fill_def mod_if)

lemma fill_write:
  assumes "wp < d" and "rp < d" and "1 < d" and "fill d wp rp full < d"
  shows "fill d (Suc wp mod d) rp (full \<or> Suc wp mod d = rp) = Suc (fill d wp rp full)"
  using assms by (auto simp: fill_def Suc_mod split: if_splits)

lemma fill_read:
  assumes "wp < d" and "rp < d" and "1 < d" and "0 < fill d wp rp full"
  shows "fill d wp (Suc rp mod d) False = fill d wp rp full - 1"
  using assms by (auto simp: fill_def Suc_mod split: if_splits)

lemma fill_both:
  assumes "wp < d" and "rp < d" and "1 < d" and "0 < fill d wp rp full" and "full \<longrightarrow> full'"
  shows "fill d (Suc wp mod d) (Suc rp mod d) full' = fill d wp rp full"
  using assms by (auto simp: fill_def Suc_mod split: if_splits)

section \<open>The contract of a stream queue\<close>

text \<open>
  A clocked queue: one cycle takes an input and gives the next state, or nothing when the
  program stops. It accepts and emits words, and what it holds together with what it accepts
  is what it emits together with what it then holds.
\<close>

fun queue_run :: "('i \<Rightarrow> 's \<Rightarrow> 's option) \<Rightarrow> ('i \<Rightarrow> 's \<Rightarrow> 'w list) \<Rightarrow> ('i \<Rightarrow> 's \<Rightarrow> 'w list) \<Rightarrow>
    'i list \<Rightarrow> 's \<Rightarrow> ('w list \<times> 'w list \<times> 's) option" where
  "queue_run cycle accepted emitted [] s = Some ([], [], s)"
| "queue_run cycle accepted emitted (i # is) s =
     (case cycle i s of None \<Rightarrow> None
      | Some s1 \<Rightarrow> (case queue_run cycle accepted emitted is s1 of None \<Rightarrow> None
        | Some (a, e, s') \<Rightarrow> Some (accepted i s @ a, emitted i s @ e, s')))"

locale stream_queue =
  fixes inv :: "'s \<Rightarrow> bool" and input_ok :: "'i \<Rightarrow> bool" and cycle :: "'i \<Rightarrow> 's \<Rightarrow> 's option"
    and contents :: "'s \<Rightarrow> 'w list"
    and accepted :: "'i \<Rightarrow> 's \<Rightarrow> 'w list" and emitted :: "'i \<Rightarrow> 's \<Rightarrow> 'w list"
  assumes inv_cycle: "\<lbrakk>inv s; input_ok i; cycle i s = Some s'\<rbrakk> \<Longrightarrow> inv s'"
    and conserves: "\<lbrakk>inv s; input_ok i; cycle i s = Some s'\<rbrakk> \<Longrightarrow>
      contents s @ accepted i s = emitted i s @ contents s'"
begin

lemma run_conserves:
  assumes "inv s" and "\<forall>i \<in> set is. input_ok i" and "queue_run cycle accepted emitted is s = Some (a, e, s')"
  shows "inv s' \<and> contents s @ a = e @ contents s'"
  using assms
proof (induction "is" arbitrary: s a e)
  case (Cons i "is")
  then obtain s1 a1 e1 where c: "cycle i s = Some s1" and r: "queue_run cycle accepted emitted is s1 = Some (a1, e1, s')"
    and eq: "a = accepted i s @ a1" "e = emitted i s @ e1"
    by (auto split: option.splits)
  have "inv s1"
    using Cons.prems c by (auto intro: inv_cycle)
  then have "inv s' \<and> contents s1 @ a1 = e1 @ contents s'"
    using Cons.prems r by (intro Cons.IH) auto
  moreover have "contents s @ accepted i s = emitted i s @ contents s1"
    using Cons.prems c by (intro conserves) auto
  ultimately show ?case
    by (metis append.assoc eq)
qed auto

end

end
