(* ===== verification/Clog2.thy ===== *)
theory Clog2
  imports Main
begin

text \<open>\<open>flog2\<close> and \<open>clog2\<close> of \<open>include/cpphdl.h\<close>; the code does not call them at 0.\<close>

function flog2 :: "nat \<Rightarrow> nat" where
  "flog2 x = (if x \<le> 1 then 0 else 1 + flog2 (x div 2))"
  by pat_completeness auto
termination
  by (relation "measure id") auto

definition clog2 :: "nat \<Rightarrow> nat" where
  "clog2 x = (if x = 1 then 0 else flog2 (x - 1) + 1)"

declare flog2.simps [simp del]

lemma clog2_power: "clog2 (2 ^ k) = k" if "0 < k"
proof -
  have "flog2 (2 ^ Suc k - 1) = k" for k
  proof (induction k)
    case (Suc k)
    have "(1 :: nat) \<le> 2 ^ k" by simp
    then have "\<not> 2 ^ Suc (Suc k) - 1 \<le> (1 :: nat)" and "(2 ^ Suc (Suc k) - 1) div 2 = (2 ^ Suc k - 1 :: nat)"
      unfolding power_Suc by linarith+
    then show ?case
      using Suc by (subst flog2.simps) (simp only: if_False)
  qed (simp add: flog2.simps)
  from this [of "k - 1"] show ?thesis
    using that by (simp add: clog2_def)
qed

lemma less_exp_flog2: "x < 2 ^ Suc (flog2 x)"
proof (induction x rule: flog2.induct)
  case (1 x)
  show ?case
  proof (cases "x \<le> 1")
    case False
    then have "x div 2 < 2 ^ Suc (flog2 (x div 2))" and "flog2 x = Suc (flog2 (x div 2))"
      using 1 by (simp_all add: flog2.simps [of x])
    then show ?thesis
      by simp
  qed (simp add: flog2.simps)
qed

lemma le_exp_clog2: "x \<le> 2 ^ clog2 x"
  using less_exp_flog2 [of "x - 1"] by (cases x) (simp_all add: clog2_def)

end
