(* ===== verification/Fifo.thy ===== *)
theory Fifo
  imports BasicMemory RingBuffer Clog2
begin

text \<open>
  \<open>Fifo\<close> of \<open>lib/basic/Fifo.h\<close>, a queue of byte rows over \<open>Memory\<close>, in its three forms:
  \<open>SHOWAHEAD\<close>, registered read, and \<open>OUTPUT_REG\<close> with a register in front of the reader.
  \<open>None\<close> is the program stopping: a write to a full queue, a read from an empty one, or the
  index assertion of the memory.
\<close>

record fifo_cfg =
  FIFO_WIDTH_BYTES :: nat
  FIFO_DEPTH :: nat
  SHOWAHEAD :: bool
  OUTPUT_REG :: bool

record fifo =
  mem :: mem_state
  wp_reg :: "nat reg"
  rp_reg :: "nat reg"
  full_reg :: "bool reg"
  afull_reg :: "bool reg"
  read_valid_reg :: "bool reg"
  read_data_reg :: "bytes reg"

record fifo_in =
  fifo_write_in :: bool
  fifo_write_data_in :: bytes
  fifo_read_in :: bool
  clear_in :: bool

section \<open>Combinational functions\<close>

definition full_comb :: "fifo_cfg \<Rightarrow> fifo \<Rightarrow> bool" where
  "full_comb c s =
     (if OUTPUT_REG c then cur (wp_reg s) = cur (rp_reg s) \<and> cur (full_reg s) \<and> cur (read_valid_reg s)
      else cur (wp_reg s) = cur (rp_reg s) \<and> cur (full_reg s))"

definition empty_comb :: "fifo_cfg \<Rightarrow> fifo \<Rightarrow> bool" where
  "empty_comb c s =
     (if OUTPUT_REG c then \<not> cur (read_valid_reg s)
      else cur (wp_reg s) = cur (rp_reg s) \<and> \<not> cur (full_reg s))"

definition mem_read_comb :: "fifo_cfg \<Rightarrow> fifo_in \<Rightarrow> fifo \<Rightarrow> bool" where
  "mem_read_comb c i s =
     (if OUTPUT_REG c
      then let mem_empty = (cur (wp_reg s) = cur (rp_reg s) \<and> \<not> cur (full_reg s));
               output_needs_word = (\<not> cur (read_valid_reg s) \<or> fifo_read_in i)
           in output_needs_word \<and> \<not> mem_empty
      else fifo_read_in i)"

definition mem_write_comb :: "fifo_cfg \<Rightarrow> fifo_in \<Rightarrow> fifo \<Rightarrow> bool" where
  "mem_write_comb c i s =
     (if OUTPUT_REG c
      then let mem_full = (cur (wp_reg s) = cur (rp_reg s) \<and> cur (full_reg s))
           in fifo_write_in i \<and> (\<not> mem_full \<or> mem_read_comb c i s)
      else fifo_write_in i)"

text \<open>The ports of the memory, as \<open>_assign\<close> connects them.\<close>

definition fifo_mem_in :: "fifo_cfg \<Rightarrow> fifo_in \<Rightarrow> fifo \<Rightarrow> mem_in" where
  "fifo_mem_in c i s =
     \<lparr>write_addr_in = cur (wp_reg s), write_in = mem_write_comb c i s,
      write_data_in = fifo_write_data_in i,
      write_mask_in = assign_uint64 (FIFO_WIDTH_BYTES c) 0xFFFFFFFFFFFFFFFF,
      read_addr_in = cur (rp_reg s)\<rparr>"

definition mem_showahead :: "fifo_cfg \<Rightarrow> bool" where
  "mem_showahead c = (if OUTPUT_REG c then True else SHOWAHEAD c)"

definition read_data_comb :: "fifo_cfg \<Rightarrow> fifo_in \<Rightarrow> fifo \<Rightarrow> bytes option" where
  "read_data_comb c i s =
     (if OUTPUT_REG c then Some (cur (read_data_reg s))
      else mem_data_out (mem_showahead c) (fifo_mem_in c i s) (mem s))"

section \<open>The clock cycle\<close>

text \<open>\<open>u<clog2(FIFO_DEPTH)>(p + 1)\<close>.\<close>

definition ptr_succ :: "fifo_cfg \<Rightarrow> nat \<Rightarrow> nat" where
  "ptr_succ c p = (p + 1) mod 2 ^ clog2 (FIFO_DEPTH c)"

text \<open>The branch of \<open>_work\<close> with an output register; the data read from the memory is passed in.\<close>

definition fifo_pointers :: "fifo_cfg \<Rightarrow> bool \<Rightarrow> bool \<Rightarrow> bool \<Rightarrow> bytes \<Rightarrow> fifo \<Rightarrow> fifo" where
  "fifo_pointers c mem_write mem_read output_read mem_data s =
     (let s1 = (if mem_write then s\<lparr>wp_reg := (wp_reg s)\<lparr>nxt := ptr_succ c (cur (wp_reg s))\<rparr>\<rparr> else s)
      in if mem_read
         then s1\<lparr>rp_reg := (rp_reg s1)\<lparr>nxt := ptr_succ c (cur (rp_reg s1))\<rparr>,
                 read_data_reg := (read_data_reg s1)\<lparr>nxt := mem_data\<rparr>,
                 read_valid_reg := (read_valid_reg s1)\<lparr>nxt := True\<rparr>\<rparr>
         else if output_read then s1\<lparr>read_valid_reg := (read_valid_reg s1)\<lparr>nxt := False\<rparr>\<rparr>
         else s1)"

definition fifo_full_flag :: "fifo_cfg \<Rightarrow> bool \<Rightarrow> bool \<Rightarrow> nat \<Rightarrow> fifo \<Rightarrow> fifo" where
  "fifo_full_flag c mem_write mem_read wp_next_value s =
     (let s1 = (if mem_write \<and> \<not> mem_read \<and> wp_next_value = cur (rp_reg s)
                then s\<lparr>full_reg := (full_reg s)\<lparr>nxt := True\<rparr>\<rparr> else s)
      in if mem_read \<and> \<not> mem_write then s1\<lparr>full_reg := (full_reg s1)\<lparr>nxt := False\<rparr>\<rparr> else s1)"

definition fifo_output_afull :: "fifo_cfg \<Rightarrow> fifo \<Rightarrow> fifo" where
  "fifo_output_afull c s =
     (let wp = cur (wp_reg s); rp = cur (rp_reg s);
          mem_count = (if cur (full_reg s) then FIFO_DEPTH c
                       else if rp \<le> wp then wp - rp else FIFO_DEPTH c - rp + wp)
      in s\<lparr>afull_reg := (afull_reg s)\<lparr>nxt :=
           mem_count + (if cur (read_valid_reg s) then 1 else 0) \<ge> FIFO_DEPTH c div 2\<rparr>\<rparr>)"

definition fifo_work_output_reg :: "fifo_cfg \<Rightarrow> fifo_in \<Rightarrow> bytes \<Rightarrow> fifo \<Rightarrow> fifo option" where
  "fifo_work_output_reg c i mem_data s =
     (let mem_read = mem_read_comb c i s; mem_write = mem_write_comb c i s;
          output_read = (fifo_read_in i \<and> cur (read_valid_reg s));
          wp_next_value = ptr_succ c (cur (wp_reg s))
      in if fifo_write_in i \<and> \<not> mem_write then None
         else if fifo_read_in i \<and> \<not> cur (read_valid_reg s) then None
         else Some (fifo_output_afull c (fifo_full_flag c mem_write mem_read wp_next_value
                (fifo_pointers c mem_write mem_read output_read mem_data s))))"

text \<open>The branch without one: the write half, the read half, and the almost-full flag.\<close>

definition fifo_write_half :: "fifo_cfg \<Rightarrow> fifo_in \<Rightarrow> fifo \<Rightarrow> fifo option" where
  "fifo_write_half c i s =
     (if fifo_write_in i
      then if full_comb c s \<and> \<not> fifo_read_in i then None
           else let s1 = (if \<not> full_comb c s \<or> fifo_read_in i
                          then s\<lparr>wp_reg := (wp_reg s)\<lparr>nxt := ptr_succ c (cur (wp_reg s))\<rparr>\<rparr> else s)
                in Some (if nxt (wp_reg s1) = cur (rp_reg s1)
                         then s1\<lparr>full_reg := (full_reg s1)\<lparr>nxt := True\<rparr>\<rparr> else s1)
      else Some s)"

definition fifo_read_half :: "fifo_cfg \<Rightarrow> fifo_in \<Rightarrow> fifo \<Rightarrow> fifo option" where
  "fifo_read_half c i s =
     (if fifo_read_in i
      then if empty_comb c s then None
           else let s1 = (if \<not> empty_comb c s
                          then s\<lparr>rp_reg := (rp_reg s)\<lparr>nxt := ptr_succ c (cur (rp_reg s))\<rparr>\<rparr> else s)
                in Some (if \<not> fifo_write_in i then s1\<lparr>full_reg := (full_reg s1)\<lparr>nxt := False\<rparr>\<rparr> else s1)
      else Some s)"

definition fifo_afull :: "fifo_cfg \<Rightarrow> fifo \<Rightarrow> fifo" where
  "fifo_afull c s =
     (let wp = cur (wp_reg s); rp = cur (rp_reg s)
      in s\<lparr>afull_reg := (afull_reg s)\<lparr>nxt :=
           cur (full_reg s) \<or> (if rp \<le> wp then wp - rp else FIFO_DEPTH c - rp + wp) \<ge> FIFO_DEPTH c div 2\<rparr>\<rparr>)"

definition fifo_work_plain :: "fifo_cfg \<Rightarrow> fifo_in \<Rightarrow> fifo \<Rightarrow> fifo option" where
  "fifo_work_plain c i s =
     (case fifo_write_half c i s of None \<Rightarrow> None
      | Some s1 \<Rightarrow> map_option (fifo_afull c) (fifo_read_half c i s1))"

definition fifo_clear :: "fifo_in \<Rightarrow> fifo \<Rightarrow> fifo" where
  "fifo_clear i s =
     (if clear_in i
      then s\<lparr>wp_reg := (wp_reg s)\<lparr>nxt := 0\<rparr>, rp_reg := (rp_reg s)\<lparr>nxt := 0\<rparr>,
             full_reg := (full_reg s)\<lparr>nxt := False\<rparr>, read_valid_reg := (read_valid_reg s)\<lparr>nxt := False\<rparr>\<rparr>
      else s)"

definition fifo_reset :: "fifo_cfg \<Rightarrow> fifo \<Rightarrow> fifo" where
  "fifo_reset c s =
     s\<lparr>wp_reg := reg_clr 0 (wp_reg s), rp_reg := reg_clr 0 (rp_reg s),
       full_reg := reg_clr False (full_reg s), afull_reg := reg_clr False (afull_reg s),
       read_valid_reg := reg_clr False (read_valid_reg s),
       read_data_reg := reg_clr (replicate (FIFO_WIDTH_BYTES c) 0) (read_data_reg s)\<rparr>"

definition fifo_work :: "fifo_cfg \<Rightarrow> bool \<Rightarrow> fifo_in \<Rightarrow> fifo \<Rightarrow> fifo option" where
  "fifo_work c reset i s =
     (case mem_work (mem_showahead c) (FIFO_WIDTH_BYTES c) (fifo_mem_in c i s) (mem s) of
        None \<Rightarrow> None
      | Some m \<Rightarrow>
          let s1 = s\<lparr>mem := m\<rparr>
          in if reset then Some (fifo_reset c s1)
             else if OUTPUT_REG c
             then (case mem_data_out True (fifo_mem_in c i s1) m of
                 None \<Rightarrow> None
               | Some d \<Rightarrow> map_option (fifo_clear i) (fifo_work_output_reg c i d s1))
             else map_option (fifo_clear i) (fifo_work_plain c i s1))"

definition fifo_strobe :: "fifo \<Rightarrow> fifo" where
  "fifo_strobe s =
     \<lparr>mem = mem_strobe (mem s), wp_reg = reg_strobe (wp_reg s), rp_reg = reg_strobe (rp_reg s),
      full_reg = reg_strobe (full_reg s), afull_reg = reg_strobe (afull_reg s),
      read_valid_reg = reg_strobe (read_valid_reg s), read_data_reg = reg_strobe (read_data_reg s)\<rparr>"

text \<open>One clock cycle out of reset.\<close>

definition fifo_cycle :: "fifo_cfg \<Rightarrow> fifo_in \<Rightarrow> fifo \<Rightarrow> fifo option" where
  "fifo_cycle c i s = map_option fifo_strobe (fifo_work c False i s)"

section \<open>Invariant and contents\<close>

definition fifo_inv :: "fifo_cfg \<Rightarrow> fifo \<Rightarrow> bool" where
  "fifo_inv c s \<longleftrightarrow> 1 < FIFO_DEPTH c \<and> 2 ^ clog2 (FIFO_DEPTH c) = FIFO_DEPTH c \<and> FIFO_WIDTH_BYTES c \<le> 64 \<and>
     mem_inv (FIFO_WIDTH_BYTES c) (FIFO_DEPTH c) (mem s) \<and>
     settled (wp_reg s) \<and> settled (rp_reg s) \<and> settled (full_reg s) \<and> settled (read_valid_reg s) \<and>
     settled (read_data_reg s) \<and>
     cur (wp_reg s) < FIFO_DEPTH c \<and> cur (rp_reg s) < FIFO_DEPTH c"

definition fifo_input_ok :: "fifo_cfg \<Rightarrow> fifo_in \<Rightarrow> bool" where
  "fifo_input_ok c i \<longleftrightarrow> length (fifo_write_data_in i) = FIFO_WIDTH_BYTES c \<and> \<not> clear_in i"

definition mem_count :: "fifo_cfg \<Rightarrow> fifo \<Rightarrow> nat" where
  "mem_count c s = fill (FIFO_DEPTH c) (cur (wp_reg s)) (cur (rp_reg s)) (cur (full_reg s))"

definition stored_words :: "fifo_cfg \<Rightarrow> fifo \<Rightarrow> bytes list" where
  "stored_words c s = ring (rows (buffer (mem s))) (cur (rp_reg s)) (mem_count c s)"

definition fifo_contents :: "fifo_cfg \<Rightarrow> fifo \<Rightarrow> bytes list" where
  "fifo_contents c s =
     (if OUTPUT_REG c \<and> cur (read_valid_reg s) then [cur (read_data_reg s)] else []) @ stored_words c s"

text \<open>The state after a cycle in which the memory is written or read.\<close>

definition moved :: "fifo_cfg \<Rightarrow> bool \<Rightarrow> bool \<Rightarrow> bytes \<Rightarrow> fifo \<Rightarrow> fifo \<Rightarrow> bool" where
  "moved c w r d s s' \<longleftrightarrow>
     rows (buffer (mem s')) = (if w then (rows (buffer (mem s)))[cur (wp_reg s) := d] else rows (buffer (mem s))) \<and>
     cur (wp_reg s') = (if w then Suc (cur (wp_reg s)) mod FIFO_DEPTH c else cur (wp_reg s)) \<and>
     cur (rp_reg s') = (if r then Suc (cur (rp_reg s)) mod FIFO_DEPTH c else cur (rp_reg s)) \<and>
     (w \<and> \<not> r \<longrightarrow> cur (full_reg s') = (cur (full_reg s) \<or> Suc (cur (wp_reg s)) mod FIFO_DEPTH c = cur (rp_reg s))) \<and>
     (r \<and> \<not> w \<longrightarrow> \<not> cur (full_reg s')) \<and> (r \<and> w \<longrightarrow> cur (full_reg s) \<longrightarrow> cur (full_reg s')) \<and>
     (\<not> r \<and> \<not> w \<longrightarrow> cur (full_reg s') = cur (full_reg s))"

lemma mem_count_facts:
  assumes "fifo_inv c s"
  shows "mem_count c s \<le> FIFO_DEPTH c"
    and "mem_count c s = 0 \<longleftrightarrow> cur (wp_reg s) = cur (rp_reg s) \<and> \<not> cur (full_reg s)"
    and "mem_count c s = FIFO_DEPTH c \<longleftrightarrow> cur (wp_reg s) = cur (rp_reg s) \<and> cur (full_reg s)"
    and "cur (wp_reg s) = (cur (rp_reg s) + mem_count c s) mod FIFO_DEPTH c"
  using assms fill_le fill_eq_0 fill_eq_d wp_fill by (simp_all add: fifo_inv_def mem_count_def)

lemma moved_stored_words:
  assumes inv: "fifo_inv c s" and mv: "moved c w r d s s'"
    and room: "w \<and> \<not> r \<longrightarrow> mem_count c s < FIFO_DEPTH c" and avail: "r \<longrightarrow> 0 < mem_count c s"
  shows "stored_words c s' = (if r then tl (stored_words c s) else stored_words c s) @ (if w then [d] else [])"
proof -
  let ?n = "mem_count c s" and ?xs = "rows (buffer (mem s))" and ?rp = "cur (rp_reg s)" and ?D = "FIFO_DEPTH c"
  have D: "length ?xs = ?D" "cur (wp_reg s) < ?D" "?rp < ?D" "1 < ?D"
    using inv by (simp_all add: fifo_inv_def mem_inv_def)
  note wp = mem_count_facts(4) [OF inv]
  note le = mem_count_facts(1) [OF inv]
  consider "w" "\<not> r" | "w" "r" | "\<not> w" "r" | "\<not> w" "\<not> r"
    by blast
  then show ?thesis
  proof cases
    case 1
    have "mem_count c s' = Suc ?n"
      using 1 mv D room fill_write [of "cur (wp_reg s)" ?D ?rp "cur (full_reg s)"]
      by (simp add: moved_def mem_count_def)
    then show ?thesis
      using 1 mv D room wp ring_push [of ?n ?xs ?rp d] by (simp add: moved_def stored_words_def)
  next
    case 2
    have "mem_count c s' = ?n"
      using 2 mv D avail fill_both [of "cur (wp_reg s)" ?D ?rp "cur (full_reg s)" "cur (full_reg s')"]
      by (simp add: moved_def mem_count_def)
    moreover obtain m where "?n = Suc m"
      using avail 2 by (cases ?n) auto
    ultimately show ?thesis
      using 2 mv D wp le ring_push_pop [of m ?xs ?rp d] by (simp add: moved_def stored_words_def)
  next
    case 3
    have "mem_count c s' = ?n - 1"
      using 3 mv D avail fill_read [of "cur (wp_reg s)" ?D ?rp "cur (full_reg s)"]
      by (simp add: moved_def mem_count_def)
    then show ?thesis
      using 3 mv D by (simp add: moved_def stored_words_def tl_ring)
  next
    case 4
    then show ?thesis
      using mv by (simp add: moved_def stored_words_def mem_count_def)
  qed
qed

lemma full_write_mask:
  assumes "length d = wb" and "wb \<le> 64"
  shows "map (\<lambda>k. if bit (le_val (assign_uint64 wb 0xFFFFFFFFFFFFFFFF)) k then d ! k else f k) [0..<wb] = d"
proof (rule nth_equalityI)
  fix k assume "k < length (map (\<lambda>k. if bit (le_val (assign_uint64 wb 0xFFFFFFFFFFFFFFFF)) k then d ! k else f k) [0..<wb])"
  then have k: "k < wb" "k < 64"
    using assms by simp_all
  have "bit (0xFFFFFFFFFFFFFFFF :: nat) k"
    using bit_mask_iff [of 64 k, where 'a = nat] k by (simp add: mask_eq_exp_minus_1)
  then show "map (\<lambda>k. if bit (le_val (assign_uint64 wb 0xFFFFFFFFFFFFFFFF)) k then d ! k else f k) [0..<wb] ! k = d ! k"
    using k by (simp add: le_val_assign_uint64 bit_mod_exp bit_unsigned_iff)
qed (simp add: assms)

lemma fifo_mem_cycle:
  assumes inv: "fifo_inv c s" and ok: "fifo_input_ok c i"
  obtains m where "mem_work (mem_showahead c) (FIFO_WIDTH_BYTES c) (fifo_mem_in c i s) (mem s) = Some m"
    and "rows (buffer (mem_strobe m)) =
      (if mem_write_comb c i s then (rows (buffer (mem s)))[cur (wp_reg s) := fifo_write_data_in i]
       else rows (buffer (mem s)))"
    and "mem_inv (FIFO_WIDTH_BYTES c) (FIFO_DEPTH c) (mem_strobe m)"
    and "rows (buffer m) = rows (buffer (mem s))"
    and "\<not> mem_showahead c \<Longrightarrow> cur (data_out_reg (mem_strobe m)) = rows (buffer (mem s)) ! cur (rp_reg s)"
proof -
  let ?wb = "FIFO_WIDTH_BYTES c" and ?i = "fifo_mem_in c i s"
  have "mem_in_ok ?wb (FIFO_DEPTH c) ?i"
    using inv ok by (simp add: mem_in_ok_def fifo_mem_in_def fifo_inv_def fifo_input_ok_def)
  moreover have mem: "mem_inv ?wb (FIFO_DEPTH c) (mem s)"
    using inv by (simp add: fifo_inv_def)
  ultimately obtain m where m: "mem_work (mem_showahead c) ?wb ?i (mem s) = Some m"
    "rows (buffer (mem_strobe m)) = written_rows ?wb ?i (rows (buffer (mem s)))"
    "mem_inv ?wb (FIFO_DEPTH c) (mem_strobe m)"
    "cur (data_out_reg (mem_strobe m)) =
      (if mem_showahead c then nxt (data_out_reg (mem s)) else rows (buffer (mem s)) ! read_addr_in ?i)"
    using mem_cycle by blast
  have "written_rows ?wb ?i rs =
      (if mem_write_comb c i s then rs[cur (wp_reg s) := fifo_write_data_in i] else rs)" for rs
    using ok inv by (simp add: written_rows_def fifo_mem_in_def full_write_mask fifo_input_ok_def fifo_inv_def)
  moreover have "rows (buffer m) = rows (buffer (mem s))"
    using m(1) by (auto simp: mem_work_def split: option.splits if_splits)
  ultimately show thesis
    using that m by (simp add: fifo_mem_in_def)
qed

section \<open>One cycle\<close>

lemma ptr_succ_mod: "fifo_inv c s \<Longrightarrow> ptr_succ c p = Suc p mod FIFO_DEPTH c"
  by (simp add: ptr_succ_def fifo_inv_def)

text \<open>The form without an output register.\<close>

lemma plain_cycle:
  assumes inv: "fifo_inv c s" and ok: "fifo_input_ok c i" and form: "\<not> OUTPUT_REG c"
  shows "(fifo_cycle c i s = None \<longleftrightarrow>
      (fifo_write_in i \<and> full_comb c s \<and> \<not> fifo_read_in i) \<or> (fifo_read_in i \<and> empty_comb c s)) \<and>
    (\<forall>s'. fifo_cycle c i s = Some s' \<longrightarrow>
      fifo_inv c s' \<and> moved c (fifo_write_in i) (fifo_read_in i) (fifo_write_data_in i) s s' \<and>
      (\<not> SHOWAHEAD c \<longrightarrow> cur (data_out_reg (mem s')) = rows (buffer (mem s)) ! cur (rp_reg s)))"
proof -
  obtain m where m: "mem_work (mem_showahead c) (FIFO_WIDTH_BYTES c) (fifo_mem_in c i s) (mem s) = Some m"
    and rows: "rows (buffer (mem_strobe m)) =
      (if fifo_write_in i then (rows (buffer (mem s)))[cur (wp_reg s) := fifo_write_data_in i]
       else rows (buffer (mem s)))"
    and minv: "mem_inv (FIFO_WIDTH_BYTES c) (FIFO_DEPTH c) (mem_strobe m)"
    and port: "\<not> SHOWAHEAD c \<longrightarrow> cur (data_out_reg (mem_strobe m)) = rows (buffer (mem s)) ! cur (rp_reg s)"
    using fifo_mem_cycle [OF inv ok] form by (metis mem_write_comb_def mem_showahead_def)
  have nxt: "nxt (wp_reg s) = cur (wp_reg s)" "nxt (rp_reg s) = cur (rp_reg s)" "nxt (full_reg s) = cur (full_reg s)"
    "nxt (read_valid_reg s) = cur (read_valid_reg s)"
    and noclear: "\<not> clear_in i"
    using inv ok by (simp_all add: fifo_inv_def settled_def fifo_input_ok_def)
  have cyc: "fifo_cycle c i s = map_option (\<lambda>t. fifo_strobe (fifo_clear i t)) (fifo_work_plain c i (s\<lparr>mem := m\<rparr>))"
    using form by (simp add: fifo_cycle_def fifo_work_def m option.map_comp comp_def)
  note defs = cyc fifo_work_plain_def fifo_write_half_def fifo_read_half_def fifo_afull_def fifo_clear_def
    fifo_strobe_def full_comb_def empty_comb_def ptr_succ_mod [OF inv] noclear form Let_def nxt
  have none: "fifo_cycle c i s = None \<longleftrightarrow>
      (fifo_write_in i \<and> full_comb c s \<and> \<not> fifo_read_in i) \<or> (fifo_read_in i \<and> empty_comb c s)"
    by (cases "fifo_write_in i"; cases "fifo_read_in i") (simp_all add: defs)
  have "fifo_inv c s' \<and> moved c (fifo_write_in i) (fifo_read_in i) (fifo_write_data_in i) s s' \<and>
      (\<not> SHOWAHEAD c \<longrightarrow> cur (data_out_reg (mem s')) = rows (buffer (mem s)) ! cur (rp_reg s))"
    if s': "fifo_cycle c i s = Some s'" for s'
  proof -
    have mem': "mem s' = mem_strobe m"
      using s' by (cases "fifo_write_in i"; cases "fifo_read_in i") (auto simp: defs split: if_splits)
    have "moved c (fifo_write_in i) (fifo_read_in i) (fifo_write_data_in i) s s'"
      using s' rows
      by (cases "fifo_write_in i"; cases "fifo_read_in i") (auto simp: moved_def mem' defs split: if_splits)
    moreover have "settled (wp_reg s') \<and> settled (rp_reg s') \<and> settled (full_reg s') \<and> settled (read_valid_reg s') \<and>
        settled (read_data_reg s')"
      using s' by (auto simp: cyc fifo_strobe_def)
    moreover have "x mod FIFO_DEPTH c < FIFO_DEPTH c" for x
      using inv by (intro mod_less_divisor) (simp add: fifo_inv_def)
    ultimately show ?thesis
      using inv minv mem' port by (auto simp: fifo_inv_def moved_def)
  qed
  with none show ?thesis by blast
qed

lemma work_output_reg_None:
  "fifo_work_output_reg c i d s = None \<longleftrightarrow>
    fifo_write_in i \<and> \<not> mem_write_comb c i s \<or> fifo_read_in i \<and> \<not> cur (read_valid_reg s)"
  by (simp add: fifo_work_output_reg_def Let_def)

lemma work_output_reg_fields:
  assumes "fifo_work_output_reg c i d s = Some t"
  shows "mem t = mem s" and "clear_in i \<or> fifo_clear i t = t"
    and "wp_reg t = (if mem_write_comb c i s then (wp_reg s)\<lparr>nxt := ptr_succ c (cur (wp_reg s))\<rparr> else wp_reg s)"
    and "rp_reg t = (if mem_read_comb c i s then (rp_reg s)\<lparr>nxt := ptr_succ c (cur (rp_reg s))\<rparr> else rp_reg s)"
    and "full_reg t = (if mem_read_comb c i s \<and> \<not> mem_write_comb c i s then (full_reg s)\<lparr>nxt := False\<rparr>
      else if mem_write_comb c i s \<and> \<not> mem_read_comb c i s \<and> ptr_succ c (cur (wp_reg s)) = cur (rp_reg s)
      then (full_reg s)\<lparr>nxt := True\<rparr> else full_reg s)"
    and "read_valid_reg t = (if mem_read_comb c i s then (read_valid_reg s)\<lparr>nxt := True\<rparr>
      else if fifo_read_in i then (read_valid_reg s)\<lparr>nxt := False\<rparr> else read_valid_reg s)"
    and "read_data_reg t = (if mem_read_comb c i s then (read_data_reg s)\<lparr>nxt := d\<rparr> else read_data_reg s)"
proof -
  let ?rd = "fifo_read_in i \<and> cur (read_valid_reg s)"
  have go: "fifo_work_output_reg c i d s \<noteq> None"
    using assms by simp
  have no: "\<not> (fifo_write_in i \<and> \<not> mem_write_comb c i s)" "\<not> (fifo_read_in i \<and> \<not> cur (read_valid_reg s))"
    using go unfolding work_output_reg_None by blast+
  have t: "t = fifo_output_afull c (fifo_full_flag c (mem_write_comb c i s) (mem_read_comb c i s)
      (ptr_succ c (cur (wp_reg s))) (fifo_pointers c (mem_write_comb c i s) (mem_read_comb c i s) ?rd d s))"
    using assms unfolding fifo_work_output_reg_def Let_def if_not_P [OF no(1)] if_not_P [OF no(2)] by simp
  have rd: "?rd \<longleftrightarrow> fifo_read_in i"
    using no(2) by blast
  have p: "mem (fifo_pointers c w r o' d s) = mem s"
    "wp_reg (fifo_pointers c w r o' d s) = (if w then (wp_reg s)\<lparr>nxt := ptr_succ c (cur (wp_reg s))\<rparr> else wp_reg s)"
    "rp_reg (fifo_pointers c w r o' d s) = (if r then (rp_reg s)\<lparr>nxt := ptr_succ c (cur (rp_reg s))\<rparr> else rp_reg s)"
    "full_reg (fifo_pointers c w r o' d s) = full_reg s"
    "read_valid_reg (fifo_pointers c w r o' d s) = (if r then (read_valid_reg s)\<lparr>nxt := True\<rparr>
      else if o' then (read_valid_reg s)\<lparr>nxt := False\<rparr> else read_valid_reg s)"
    "read_data_reg (fifo_pointers c w r o' d s) = (if r then (read_data_reg s)\<lparr>nxt := d\<rparr> else read_data_reg s)"
    for w r o'
    by (simp_all add: fifo_pointers_def Let_def)
  have f: "mem (fifo_full_flag c w r n u) = mem u" "wp_reg (fifo_full_flag c w r n u) = wp_reg u"
    "rp_reg (fifo_full_flag c w r n u) = rp_reg u"
    "read_valid_reg (fifo_full_flag c w r n u) = read_valid_reg u"
    "read_data_reg (fifo_full_flag c w r n u) = read_data_reg u"
    "full_reg (fifo_full_flag c w r n u) = (if r \<and> \<not> w then (full_reg u)\<lparr>nxt := False\<rparr>
      else if w \<and> \<not> r \<and> n = cur (rp_reg u) then (full_reg u)\<lparr>nxt := True\<rparr> else full_reg u)"
    for w r n u
    by (simp_all add: fifo_full_flag_def Let_def)
  have a: "mem (fifo_output_afull c u) = mem u" "wp_reg (fifo_output_afull c u) = wp_reg u"
    "rp_reg (fifo_output_afull c u) = rp_reg u" "full_reg (fifo_output_afull c u) = full_reg u"
    "read_valid_reg (fifo_output_afull c u) = read_valid_reg u"
    "read_data_reg (fifo_output_afull c u) = read_data_reg u" for u
    by (simp_all add: fifo_output_afull_def Let_def)
  show "mem t = mem s" "clear_in i \<or> fifo_clear i t = t"
    by (simp_all add: t a f p fifo_clear_def)
  show "wp_reg t = (if mem_write_comb c i s then (wp_reg s)\<lparr>nxt := ptr_succ c (cur (wp_reg s))\<rparr> else wp_reg s)"
    by (simp add: t a f p)
  show "rp_reg t = (if mem_read_comb c i s then (rp_reg s)\<lparr>nxt := ptr_succ c (cur (rp_reg s))\<rparr> else rp_reg s)"
    by (simp add: t a f p)
  show "full_reg t = (if mem_read_comb c i s \<and> \<not> mem_write_comb c i s then (full_reg s)\<lparr>nxt := False\<rparr>
      else if mem_write_comb c i s \<and> \<not> mem_read_comb c i s \<and> ptr_succ c (cur (wp_reg s)) = cur (rp_reg s)
      then (full_reg s)\<lparr>nxt := True\<rparr> else full_reg s)"
    by (simp add: t a f p)
  show "read_valid_reg t = (if mem_read_comb c i s then (read_valid_reg s)\<lparr>nxt := True\<rparr>
      else if fifo_read_in i then (read_valid_reg s)\<lparr>nxt := False\<rparr> else read_valid_reg s)"
    by (simp add: t a f p rd)
  show "read_data_reg t = (if mem_read_comb c i s then (read_data_reg s)\<lparr>nxt := d\<rparr> else read_data_reg s)"
    by (simp add: t a f p)
qed

text \<open>The form with an output register: the memory feeds the register, the register the reader.\<close>

lemma output_reg_cycle:
  assumes inv: "fifo_inv c s" and ok: "fifo_input_ok c i" and form: "OUTPUT_REG c"
  shows "(fifo_cycle c i s = None \<longleftrightarrow>
      (fifo_write_in i \<and> full_comb c s \<and> \<not> fifo_read_in i) \<or> (fifo_read_in i \<and> empty_comb c s)) \<and>
    (\<forall>s'. fifo_cycle c i s = Some s' \<longrightarrow>
      fifo_inv c s' \<and> moved c (fifo_write_in i) (mem_read_comb c i s) (fifo_write_data_in i) s s' \<and>
      (fifo_write_in i \<and> \<not> mem_read_comb c i s \<longrightarrow> mem_count c s < FIFO_DEPTH c) \<and>
      cur (read_valid_reg s') = (mem_read_comb c i s \<or> cur (read_valid_reg s) \<and> \<not> fifo_read_in i) \<and>
      cur (read_data_reg s') =
        (if mem_read_comb c i s then rows (buffer (mem s)) ! cur (rp_reg s) else cur (read_data_reg s)))"
proof -
  obtain m where m: "mem_work (mem_showahead c) (FIFO_WIDTH_BYTES c) (fifo_mem_in c i s) (mem s) = Some m"
    and rows: "rows (buffer (mem_strobe m)) =
      (if mem_write_comb c i s then (rows (buffer (mem s)))[cur (wp_reg s) := fifo_write_data_in i]
       else rows (buffer (mem s)))"
    and minv: "mem_inv (FIFO_WIDTH_BYTES c) (FIFO_DEPTH c) (mem_strobe m)"
    and rows_m: "rows (buffer m) = rows (buffer (mem s))"
    using fifo_mem_cycle [OF inv ok] by metis
  have nxt: "nxt (wp_reg s) = cur (wp_reg s)" "nxt (rp_reg s) = cur (rp_reg s)" "nxt (full_reg s) = cur (full_reg s)"
    "nxt (read_valid_reg s) = cur (read_valid_reg s)" "nxt (read_data_reg s) = cur (read_data_reg s)"
    and noclear: "\<not> clear_in i" and rp: "cur (rp_reg s) < length (rows (buffer (mem s)))"
    using inv ok by (simp_all add: fifo_inv_def settled_def fifo_input_ok_def mem_inv_def)
  let ?d = "rows (buffer (mem s)) ! cur (rp_reg s)"
  have data: "mem_data_out True (fifo_mem_in c i (s\<lparr>mem := m\<rparr>)) m = Some ?d"
    using rp rows_m by (simp add: mem_data_out_def mem_row_def fifo_mem_in_def)
  have cyc: "fifo_cycle c i s = map_option (\<lambda>t. fifo_strobe (fifo_clear i t)) (fifo_work_output_reg c i ?d (s\<lparr>mem := m\<rparr>))"
    using form data by (simp add: fifo_cycle_def fifo_work_def m option.map_comp comp_def)
  have comb: "mem_read_comb c i (s\<lparr>mem := m\<rparr>) = mem_read_comb c i s" "mem_write_comb c i (s\<lparr>mem := m\<rparr>) = mem_write_comb c i s"
    by (simp_all add: mem_read_comb_def mem_write_comb_def)
  have full: "cur (wp_reg s) = cur (rp_reg s) \<and> cur (full_reg s) \<longleftrightarrow> mem_count c s = FIFO_DEPTH c"
    using mem_count_facts(3) [OF inv] by simp
  have wr: "mem_write_comb c i s \<longleftrightarrow> fifo_write_in i \<and> (mem_count c s \<noteq> FIFO_DEPTH c \<or> mem_read_comb c i s)"
    using form full by (simp add: mem_write_comb_def Let_def)
  have rd: "mem_read_comb c i s \<longleftrightarrow> (\<not> cur (read_valid_reg s) \<or> fifo_read_in i) \<and> mem_count c s \<noteq> 0"
    using form mem_count_facts(2) [OF inv] by (simp add: mem_read_comb_def Let_def)
  have fc: "full_comb c s \<longleftrightarrow> mem_count c s = FIFO_DEPTH c \<and> cur (read_valid_reg s)"
    and ec: "empty_comb c s \<longleftrightarrow> \<not> cur (read_valid_reg s)" and D: "FIFO_DEPTH c \<noteq> 0"
    using form full inv by (auto simp: full_comb_def empty_comb_def fifo_inv_def)
  have none: "fifo_cycle c i s = None \<longleftrightarrow>
      (fifo_write_in i \<and> full_comb c s \<and> \<not> fifo_read_in i) \<or> (fifo_read_in i \<and> empty_comb c s)"
    using D by (auto simp: cyc work_output_reg_None comb wr rd fc ec)
  have "fifo_inv c s' \<and> moved c (fifo_write_in i) (mem_read_comb c i s) (fifo_write_data_in i) s s' \<and>
      (fifo_write_in i \<and> \<not> mem_read_comb c i s \<longrightarrow> mem_count c s < FIFO_DEPTH c) \<and>
      cur (read_valid_reg s') = (mem_read_comb c i s \<or> cur (read_valid_reg s) \<and> \<not> fifo_read_in i) \<and>
      cur (read_data_reg s') = (if mem_read_comb c i s then ?d else cur (read_data_reg s))"
    if s': "fifo_cycle c i s = Some s'" for s'
  proof -
    obtain t where t: "fifo_work_output_reg c i ?d (s\<lparr>mem := m\<rparr>) = Some t" and s't: "s' = fifo_strobe (fifo_clear i t)"
      using s' by (auto simp: cyc)
    then have "fifo_work_output_reg c i ?d (s\<lparr>mem := m\<rparr>) \<noteq> None"
      by simp
    then have go: "fifo_write_in i = mem_write_comb c i s" "fifo_read_in i \<longrightarrow> cur (read_valid_reg s)"
      using wr by (auto simp: work_output_reg_None comb)
    note fields = work_output_reg_fields [OF t, unfolded comb]
    have s't: "s' = fifo_strobe t"
      using s't fields(2) noclear by simp
    have mem': "mem s' = mem_strobe m"
      using fields(1) by (simp add: s't fifo_strobe_def)
    have mv: "moved c (fifo_write_in i) (mem_read_comb c i s) (fifo_write_data_in i) s s'"
      unfolding moved_def mem' using rows go
      by (simp add: s't fifo_strobe_def fields(3-5) ptr_succ_mod [OF inv] nxt)
    have out: "cur (read_valid_reg s') = (mem_read_comb c i s \<or> cur (read_valid_reg s) \<and> \<not> fifo_read_in i) \<and>
        cur (read_data_reg s') = (if mem_read_comb c i s then ?d else cur (read_data_reg s))"
      by (simp add: s't fifo_strobe_def fields(6,7) nxt)
    have settled: "settled (wp_reg s') \<and> settled (rp_reg s') \<and> settled (full_reg s') \<and> settled (read_valid_reg s') \<and>
        settled (read_data_reg s')"
      by (simp add: s't fifo_strobe_def)
    have "x mod FIFO_DEPTH c < FIFO_DEPTH c" for x
      using inv by (intro mod_less_divisor) (simp add: fifo_inv_def)
    then have "fifo_inv c s'"
      using inv minv mem' mv settled by (auto simp: fifo_inv_def moved_def)
    moreover have "fifo_write_in i \<and> \<not> mem_read_comb c i s \<longrightarrow> mem_count c s < FIFO_DEPTH c"
      using go wr mem_count_facts(1) [OF inv] by auto
    ultimately show ?thesis
      using mv out by blast
  qed
  with none show ?thesis by blast
qed

section \<open>The queue\<close>

definition fifo_capacity :: "fifo_cfg \<Rightarrow> nat" where
  "fifo_capacity c = FIFO_DEPTH c + (if OUTPUT_REG c then 1 else 0)"

definition fifo_accepted :: "fifo_in \<Rightarrow> fifo \<Rightarrow> bytes list" where
  "fifo_accepted i s = (if fifo_write_in i then [fifo_write_data_in i] else [])"

text \<open>
  The word on \<open>read_data_out\<close> for a read: the port in the cycle of \<open>read_in\<close> or, when the
  memory has a registered read (neither \<open>SHOWAHEAD\<close> nor \<open>OUTPUT_REG\<close>), the port after the
  clock edge, as the testbench of \<open>Fifo.h\<close> samples it (\<open>DATA_VISIBLE_ON_READ\<close>, \<open>was_read\<close>).
\<close>

definition fifo_emitted :: "fifo_cfg \<Rightarrow> fifo_in \<Rightarrow> fifo \<Rightarrow> bytes list" where
  "fifo_emitted c i s =
     (let port = (if SHOWAHEAD c \<or> OUTPUT_REG c then read_data_comb c i s
                  else Option.bind (fifo_cycle c i s) (read_data_comb c i))
      in if fifo_read_in i then (case port of None \<Rightarrow> [] | Some d \<Rightarrow> [d]) else [])"

text \<open>
  The abstract queue: the word in front of the reader, which only the form with an output
  register has, and the list of the words behind it.
\<close>

definition fifo_abs :: "fifo_cfg \<Rightarrow> fifo \<Rightarrow> bytes option \<times> bytes list" where
  "fifo_abs c s =
     (if OUTPUT_REG c \<and> cur (read_valid_reg s) then Some (cur (read_data_reg s)) else None, stored_words c s)"

text \<open>
  Its cycle. A reader without a word to take stops the program, and so does a write to a list
  of \<open>FIFO_DEPTH\<close> words of which none is taken; otherwise the list loses its head to the reader
  or to the front place, when that is free or being read, and the word written is appended.
\<close>

fun abstract_cycle :: "fifo_cfg \<Rightarrow> fifo_in \<Rightarrow> bytes option \<times> bytes list \<Rightarrow> (bytes option \<times> bytes list) option" where
  "abstract_cycle c i (front, q) =
     (let refill = (OUTPUT_REG c \<and> (front = None \<or> fifo_read_in i) \<and> q \<noteq> []);
          take_head = (if OUTPUT_REG c then refill else fifo_read_in i)
      in if fifo_read_in i \<and> (if OUTPUT_REG c then front = None else q = []) then None
         else if fifo_write_in i \<and> length q = FIFO_DEPTH c \<and> \<not> take_head then None
         else Some (if refill then Some (hd q) else if fifo_read_in i then None else front,
                    (if take_head then tl q else q) @ (if fifo_write_in i then [fifo_write_data_in i] else [])))"

lemma stored_words_hd:
  assumes "fifo_inv c s" and "0 < mem_count c s"
  shows "stored_words c s = rows (buffer (mem s)) ! cur (rp_reg s) # tl (stored_words c s)"
  using assms hd_ring [of "cur (rp_reg s)" "rows (buffer (mem s))" "mem_count c s"]
  by (cases "stored_words c s") (auto simp: stored_words_def fifo_inv_def mem_inv_def)

lemma length_stored_words [simp]: "length (stored_words c s) = mem_count c s"
  by (simp add: stored_words_def)

lemma stored_words_Nil [simp]: "stored_words c s = [] \<longleftrightarrow> mem_count c s = 0"
  by (simp add: stored_words_def)

lemma full_comb_contents:
  "fifo_inv c s \<Longrightarrow> full_comb c s \<longleftrightarrow> length (fifo_contents c s) = fifo_capacity c"
  using mem_count_facts(1,3) [of c s]
  by (auto simp: full_comb_def fifo_contents_def fifo_capacity_def)

lemma empty_comb_contents:
  "fifo_inv c s \<Longrightarrow> empty_comb c s \<longleftrightarrow>
    (if OUTPUT_REG c then fst (fifo_abs c s) = None else fifo_contents c s = [])"
  using mem_count_facts(2) [of c s] by (auto simp: empty_comb_def fifo_contents_def fifo_abs_def)

lemma fifo_contents_abs:
  "fifo_contents c s = (case fifo_abs c s of (front, q) \<Rightarrow> (case front of None \<Rightarrow> [] | Some d \<Rightarrow> [d]) @ q)"
  by (simp add: fifo_contents_def fifo_abs_def)

lemma fifo_contents_le: "fifo_inv c s \<Longrightarrow> length (fifo_contents c s) \<le> fifo_capacity c"
  using mem_count_facts(1) [of c s] by (auto simp: fifo_contents_def fifo_capacity_def)

lemma fifo_cycle_inv: "\<lbrakk>fifo_inv c s; fifo_input_ok c i; fifo_cycle c i s = Some s'\<rbrakk> \<Longrightarrow> fifo_inv c s'"
  using plain_cycle [of c s i] output_reg_cycle [of c s i] by blast

lemma fifo_cycle_stops:
  assumes "fifo_inv c s" and "fifo_input_ok c i"
  shows "fifo_cycle c i s = None \<longleftrightarrow>
    fifo_write_in i \<and> full_comb c s \<and> \<not> fifo_read_in i \<or> fifo_read_in i \<and> empty_comb c s"
  using plain_cycle [OF assms] output_reg_cycle [OF assms] by blast

lemma plain_cycle_refines:
  assumes inv: "fifo_inv c s" and ok: "fifo_input_ok c i" and form: "\<not> OUTPUT_REG c"
  shows "map_option (fifo_abs c) (fifo_cycle c i s) = abstract_cycle c i (fifo_abs c s)"
proof -
  have fc: "full_comb c s \<longleftrightarrow> mem_count c s = FIFO_DEPTH c" and ec: "empty_comb c s \<longleftrightarrow> mem_count c s = 0"
    using form mem_count_facts(2,3) [OF inv] by (simp_all add: full_comb_def empty_comb_def)
  show ?thesis
  proof (cases "fifo_cycle c i s")
    case None
    then show ?thesis
      using form fifo_cycle_stops [OF inv ok] fc ec by (auto simp: fifo_abs_def)
  next
    case (Some s')
    then have go: "fifo_read_in i \<longrightarrow> 0 < mem_count c s" "fifo_write_in i \<and> \<not> fifo_read_in i \<longrightarrow> mem_count c s \<noteq> FIFO_DEPTH c"
      and mv: "moved c (fifo_write_in i) (fifo_read_in i) (fifo_write_data_in i) s s'"
      using plain_cycle [OF inv ok form] fifo_cycle_stops [OF inv ok] fc ec by auto
    have "stored_words c s' = (if fifo_read_in i then tl (stored_words c s) else stored_words c s) @
        (if fifo_write_in i then [fifo_write_data_in i] else [])"
      using go mem_count_facts(1) [OF inv] by (intro moved_stored_words [OF inv mv]) auto
    then show ?thesis
      using Some form go by (auto simp: fifo_abs_def)
  qed
qed

lemma output_reg_cycle_refines:
  assumes inv: "fifo_inv c s" and ok: "fifo_input_ok c i" and form: "OUTPUT_REG c"
  shows "map_option (fifo_abs c) (fifo_cycle c i s) = abstract_cycle c i (fifo_abs c s)"
proof -
  let ?mr = "mem_read_comb c i s"
  have fc: "full_comb c s \<longleftrightarrow> mem_count c s = FIFO_DEPTH c \<and> cur (read_valid_reg s)"
    and ec: "empty_comb c s \<longleftrightarrow> \<not> cur (read_valid_reg s)" and D: "FIFO_DEPTH c \<noteq> 0"
    using form inv mem_count_facts(3) [OF inv] by (auto simp: full_comb_def empty_comb_def fifo_inv_def)
  have mr: "?mr \<longleftrightarrow> (\<not> cur (read_valid_reg s) \<or> fifo_read_in i) \<and> mem_count c s \<noteq> 0"
    using form mem_count_facts(2) [OF inv] by (auto simp: mem_read_comb_def Let_def)
  show ?thesis
  proof (cases "fifo_cycle c i s")
    case None
    then show ?thesis
      using form fifo_cycle_stops [OF inv ok] fc ec D by (auto simp: fifo_abs_def)
  next
    case (Some s')
    then have mv: "moved c (fifo_write_in i) ?mr (fifo_write_data_in i) s s'"
      and room: "fifo_write_in i \<and> \<not> ?mr \<longrightarrow> mem_count c s < FIFO_DEPTH c"
      and reg: "cur (read_valid_reg s') = (?mr \<or> cur (read_valid_reg s) \<and> \<not> fifo_read_in i)"
        "cur (read_data_reg s') = (if ?mr then rows (buffer (mem s)) ! cur (rp_reg s) else cur (read_data_reg s))"
      and go: "fifo_read_in i \<longrightarrow> cur (read_valid_reg s)"
      using output_reg_cycle [OF inv ok form] fifo_cycle_stops [OF inv ok] ec by auto
    have words: "stored_words c s' = (if ?mr then tl (stored_words c s) else stored_words c s) @
        (if fifo_write_in i then [fifo_write_data_in i] else [])"
      using mr by (intro moved_stored_words [OF inv mv room]) simp
    have "hd (stored_words c s) = rows (buffer (mem s)) ! cur (rp_reg s)" if "mem_count c s \<noteq> 0"
      using stored_words_hd [OF inv] that by (metis list.sel(1) neq0_conv)
    then show ?thesis
      using Some form go room mr words reg
      by (cases "mem_count c s = 0"; cases "fifo_read_in i"; cases "cur (read_valid_reg s)")
        (auto simp: fifo_abs_def)
  qed
qed

lemmas fifo_cycle_abstract = plain_cycle_refines output_reg_cycle_refines

text \<open>The read port shows the first word of the queue.\<close>

lemma fifo_read_port:
  assumes inv: "fifo_inv c s" and ok: "fifo_input_ok c i" and s': "fifo_cycle c i s = Some s'" and rd: "fifo_read_in i"
  shows "(if SHOWAHEAD c \<or> OUTPUT_REG c then read_data_comb c i s else read_data_comb c j s') =
    Some (hd (fifo_contents c s))"
proof (cases "OUTPUT_REG c")
  case True
  then show ?thesis
    using fifo_cycle_stops [OF inv ok] s' rd by (auto simp: read_data_comb_def fifo_contents_def empty_comb_def)
next
  case False
  then have n: "mem_count c s \<noteq> 0"
    using fifo_cycle_stops [OF inv ok] s' rd mem_count_facts(2) [OF inv] by (auto simp: empty_comb_def)
  have "hd (stored_words c s) = rows (buffer (mem s)) ! cur (rp_reg s)"
    using stored_words_hd [OF inv] n by (metis list.sel(1) neq0_conv)
  moreover have "cur (rp_reg s) < length (rows (buffer (mem s)))"
    using inv by (simp add: fifo_inv_def mem_inv_def)
  moreover have "\<not> SHOWAHEAD c \<longrightarrow> cur (data_out_reg (mem s')) = rows (buffer (mem s)) ! cur (rp_reg s)"
    using plain_cycle [OF inv ok False] s' by blast
  ultimately show ?thesis
    using False
    by (simp add: read_data_comb_def mem_data_out_def mem_row_def fifo_mem_in_def mem_showahead_def fifo_contents_def)
qed

lemma fifo_emitted_hd:
  assumes "fifo_inv c s" and "fifo_input_ok c i" and s': "fifo_cycle c i s = Some s'"
  shows "fifo_emitted c i s = (if fifo_read_in i then [hd (fifo_contents c s)] else [])"
  using fifo_read_port [OF assms, of i] s'
  by (cases "fifo_read_in i"; cases "SHOWAHEAD c \<or> OUTPUT_REG c") (auto simp: fifo_emitted_def)

lemma fifo_cycle_contents:
  assumes inv: "fifo_inv c s" and ok: "fifo_input_ok c i" and s': "fifo_cycle c i s = Some s'"
  shows "fifo_inv c s' \<and> fifo_contents c s @ fifo_accepted i s = fifo_emitted c i s @ fifo_contents c s'"
proof -
  obtain front q front' q' where abs: "fifo_abs c s = (front, q)" "fifo_abs c s' = (front', q')"
    by (cases "fifo_abs c s"; cases "fifo_abs c s'")
  have "abstract_cycle c i (front, q) = Some (front', q')"
    using fifo_cycle_abstract [OF inv ok] s' abs by (metis option.map(2))
  moreover have "OUTPUT_REG c \<or> front = None"
    using abs by (auto simp: fifo_abs_def split: if_splits)
  ultimately have "fifo_contents c s @ fifo_accepted i s = fifo_emitted c i s @ fifo_contents c s'"
    using fifo_emitted_hd [OF inv ok s'] abs
    by (cases q; cases front) (auto simp: fifo_contents_abs fifo_accepted_def Let_def split: if_splits)
  with fifo_cycle_inv [OF inv ok s'] show ?thesis by blast
qed

interpretation fifo_queue: stream_queue "fifo_inv c" "fifo_input_ok c" "fifo_cycle c" "fifo_contents c"
    fifo_accepted "fifo_emitted c" for c
  by unfold_locales (use fifo_cycle_contents in blast)+

section \<open>Reset\<close>

text \<open>The reset cycle from any state whose memory is sound and whose pointers are in range.\<close>

lemma fifo_reset_cycle:
  assumes inv: "mem_inv wb d (mem s)" and c: "c = \<lparr>FIFO_WIDTH_BYTES = wb, FIFO_DEPTH = d, SHOWAHEAD = sa, OUTPUT_REG = oreg\<rparr>"
    and d: "d = 2 ^ k" "0 < k" and wb: "wb \<le> 64" and len: "length (fifo_write_data_in i) = wb"
    and ptr: "cur (wp_reg s) < d" "cur (rp_reg s) < d"
  obtains s1 where "fifo_work c True i s = Some s1" and "fifo_inv c (fifo_strobe s1)"
    and "fifo_contents c (fifo_strobe s1) = []"
proof -
  have "mem_in_ok wb d (fifo_mem_in c i s)"
    using len ptr by (simp add: mem_in_ok_def fifo_mem_in_def c)
  then obtain m where m: "mem_work (mem_showahead c) wb (fifo_mem_in c i s) (mem s) = Some m"
    "mem_inv wb d (mem_strobe m)"
    using mem_cycle [OF inv] by metis
  have "1 < d"
    using d one_less_power [of "2 :: nat" k] by simp
  then have "fifo_inv c (fifo_strobe (fifo_reset c (s\<lparr>mem := m\<rparr>)))"
    using m wb clog2_power [OF d(2)] by (simp add: fifo_inv_def fifo_strobe_def fifo_reset_def c d)
  moreover have "fifo_contents c (fifo_strobe (fifo_reset c (s\<lparr>mem := m\<rparr>))) = []"
    by (simp add: fifo_contents_def fifo_strobe_def fifo_reset_def stored_words_def mem_count_def fill_def)
  moreover have "fifo_work c True i s = Some (fifo_reset c (s\<lparr>mem := m\<rparr>))"
    using m by (simp add: fifo_work_def c)
  ultimately show thesis
    using that by blast
qed

section \<open>Properties\<close>

text \<open>
  C14: one cycle of the queue, for a depth that is a power of two and rows of at most 64
  bytes, is one cycle of the abstract queue, in each of its three forms: the program stops
  exactly when a reader finds no word or a write finds the list full, and otherwise the words
  held are those of the abstract queue. \<open>full_out\<close> is set exactly when the capacity is reached
  and \<open>empty_out\<close> exactly when the reader finds no word, the read port shows the first word in
  the cycle of the read or, for the registered read, after it, and the invariant holds again.
\<close>

theorem fifo_cycle_refines_list:
  assumes "fifo_inv c s" and "fifo_input_ok c i"
  shows "map_option (fifo_abs c) (fifo_cycle c i s) = abstract_cycle c i (fifo_abs c s) \<and>
    (full_comb c s \<longleftrightarrow> length (fifo_contents c s) = fifo_capacity c) \<and>
    (empty_comb c s \<longleftrightarrow> (if OUTPUT_REG c then fst (fifo_abs c s) = None else fifo_contents c s = [])) \<and>
    (\<forall>s'. fifo_cycle c i s = Some s' \<longrightarrow> fifo_inv c s' \<and> length (fifo_contents c s') \<le> fifo_capacity c \<and>
      (fifo_read_in i \<longrightarrow>
        (if SHOWAHEAD c \<or> OUTPUT_REG c then read_data_comb c i s else read_data_comb c j s') =
          Some (hd (fifo_contents c s))))"
  using fifo_cycle_abstract [OF assms] full_comb_contents [OF assms(1)] empty_comb_contents [OF assms(1)]
    fifo_cycle_inv [OF assms] fifo_contents_le fifo_read_port [OF assms] by blast

definition fifo_cfg_example :: fifo_cfg where
  "fifo_cfg_example = \<lparr>FIFO_WIDTH_BYTES = 1, FIFO_DEPTH = 2, SHOWAHEAD = True, OUTPUT_REG = False\<rparr>"

definition fifo_example :: fifo where
  "fifo_example =
     \<lparr>mem = \<lparr>buffer = \<lparr>rows = [[7], [9]], changes = []\<rparr>, data_out_reg = \<lparr>cur = [0], nxt = [0]\<rparr>\<rparr>,
      wp_reg = \<lparr>cur = 1, nxt = 1\<rparr>, rp_reg = \<lparr>cur = 0, nxt = 0\<rparr>, full_reg = \<lparr>cur = False, nxt = False\<rparr>,
      afull_reg = \<lparr>cur = False, nxt = False\<rparr>, read_valid_reg = \<lparr>cur = False, nxt = False\<rparr>,
      read_data_reg = \<lparr>cur = [0], nxt = [0]\<rparr>\<rparr>"

definition fifo_push_example :: "nat \<Rightarrow> fifo_in" where
  "fifo_push_example v =
     \<lparr>fifo_write_in = True, fifo_write_data_in = [of_nat v], fifo_read_in = True, clear_in = False\<rparr>"

definition fifo_push :: "byte \<Rightarrow> fifo_in" where
  "fifo_push b = \<lparr>fifo_write_in = True, fifo_write_data_in = [b], fifo_read_in = False, clear_in = False\<rparr>"

lemma fifo_example_ok:
  "fifo_inv fifo_cfg_example fifo_example" "fifo_input_ok fifo_cfg_example (fifo_push_example v)"
  "fifo_contents fifo_cfg_example fifo_example = [[7]]" "\<not> empty_comb fifo_cfg_example fifo_example"
  "fifo_abs fifo_cfg_example fifo_example = (None, [[7]])"
  by (simp_all add: fifo_abs_def fifo_inv_def fifo_cfg_example_def fifo_example_def clog2_def flog2.simps mem_inv_def
      settled_def fifo_input_ok_def fifo_push_example_def fifo_contents_def stored_words_def mem_count_def
      fill_def ring_def empty_comb_def)

lemma fifo_cycle_refines_list_witness:
  "\<exists>s'. fifo_cycle fifo_cfg_example (fifo_push_example 5) fifo_example = Some s' \<and>
     fifo_contents fifo_cfg_example s' = [[5]] \<and>
     read_data_comb fifo_cfg_example (fifo_push_example 5) fifo_example = Some [7]"
  using fifo_cycle_refines_list [OF fifo_example_ok(1,2), of 5 undefined] fifo_example_ok(3,4,5)
  by (cases "fifo_cycle fifo_cfg_example (fifo_push_example 5) fifo_example")
    (simp_all add: fifo_push_example_def fifo_contents_abs fifo_cfg_example_def)

section \<open>Runs\<close>

text \<open>
  The environment uses the flags: it writes when the queue is not full or is read in the same
  cycle, and reads when it is not empty.
\<close>

fun flags_respected :: "fifo_cfg \<Rightarrow> fifo_in list \<Rightarrow> fifo \<Rightarrow> bool" where
  "flags_respected c [] s = True"
| "flags_respected c (i # is) s \<longleftrightarrow>
     (fifo_write_in i \<longrightarrow> \<not> full_comb c s \<or> fifo_read_in i) \<and> (fifo_read_in i \<longrightarrow> \<not> empty_comb c s) \<and>
     (case fifo_cycle c i s of None \<Rightarrow> True | Some s' \<Rightarrow> flags_respected c is s')"

lemma run_stops:
  "\<lbrakk>fifo_inv c s; list_all (fifo_input_ok c) is\<rbrakk> \<Longrightarrow>
    queue_run (fifo_cycle c) fifo_accepted (fifo_emitted c) is s \<noteq> None \<longleftrightarrow> flags_respected c is s"
proof (induction "is" arbitrary: s)
  case (Cons i "is")
  then have stops: "fifo_cycle c i s = None \<longleftrightarrow>
      fifo_write_in i \<and> full_comb c s \<and> \<not> fifo_read_in i \<or> fifo_read_in i \<and> empty_comb c s"
    by (intro fifo_cycle_stops) simp_all
  show ?case
  proof (cases "fifo_cycle c i s")
    case (Some s1)
    then have "fifo_inv c s1"
      using Cons.prems by (auto intro: fifo_cycle_inv)
    then have "queue_run (fifo_cycle c) fifo_accepted (fifo_emitted c) is s1 \<noteq> None \<longleftrightarrow> flags_respected c is s1"
      using Cons.prems by (intro Cons.IH) simp_all
    then show ?thesis
      using stops Some by (auto split: option.splits)
  qed (use stops in auto)
qed simp

lemma run_words:
  "\<lbrakk>fifo_inv c s; list_all (fifo_input_ok c) is;
    queue_run (fifo_cycle c) fifo_accepted (fifo_emitted c) is s = Some (w, r, s')\<rbrakk> \<Longrightarrow>
    w = map fifo_write_data_in (filter fifo_write_in is) \<and> length r = length (filter fifo_read_in is)"
proof (induction "is" arbitrary: s w r)
  case (Cons i "is")
  then obtain s1 w1 r1 where c: "fifo_cycle c i s = Some s1"
    and r: "queue_run (fifo_cycle c) fifo_accepted (fifo_emitted c) is s1 = Some (w1, r1, s')"
    and eq: "w = fifo_accepted i s @ w1" "r = fifo_emitted c i s @ r1"
    by (auto split: option.splits)
  have "fifo_inv c s1"
    using Cons.prems c by (auto intro: fifo_cycle_inv)
  then have "w1 = map fifo_write_data_in (filter fifo_write_in is) \<and> length r1 = length (filter fifo_read_in is)"
    using Cons.prems r by (intro Cons.IH [of s1]) auto
  then show ?case
    using eq Cons.prems fifo_emitted_hd [OF Cons.prems(1) _ c] by (simp add: fifo_accepted_def)
qed simp

text \<open>
  C15: a run of a queue that starts empty, in each of its three forms, stops the program
  exactly when some cycle writes while \<open>full_out\<close> is set without reading or reads while
  \<open>empty_out\<close> is set. A run that goes through has accepted every word presented with
  \<open>write_in\<close>; the words on \<open>read_data_out\<close> for its reads are, one for each read, the first of
  them in their order, and the queue holds the others: nothing is lost, duplicated or
  reordered.
\<close>

theorem fifo_run_preserves_order:
  assumes "fifo_inv c s" and "fifo_contents c s = []" and "list_all (fifo_input_ok c) is"
  shows "(queue_run (fifo_cycle c) fifo_accepted (fifo_emitted c) is s \<noteq> None \<longleftrightarrow> flags_respected c is s) \<and>
    (\<forall>w r s'. queue_run (fifo_cycle c) fifo_accepted (fifo_emitted c) is s = Some (w, r, s') \<longrightarrow>
      w = map fifo_write_data_in (filter fifo_write_in is) \<and>
      r = take (length (filter fifo_read_in is)) w \<and>
      fifo_contents c s' = drop (length (filter fifo_read_in is)) w \<and>
      length (fifo_contents c s') \<le> fifo_capacity c)"
proof -
  have "w = r @ fifo_contents c s' \<and> length (fifo_contents c s') \<le> fifo_capacity c"
    if "queue_run (fifo_cycle c) fifo_accepted (fifo_emitted c) is s = Some (w, r, s')" for w r s'
    using fifo_queue.run_conserves [OF assms(1) _ that] assms(2,3) fifo_contents_le by (auto simp: list_all_iff)
  then show ?thesis
    using run_stops [OF assms(1,3)] run_words [OF assms(1,3)]
    by (metis append_eq_conv_conj)
qed

definition fifo_pop :: fifo_in where
  "fifo_pop = \<lparr>fifo_write_in = False, fifo_write_data_in = [0], fifo_read_in = True, clear_in = False\<rparr>"

text \<open>The registered read: the word of the only read is on the port after the edge.\<close>

lemma fifo_run_preserves_order_witness:
  "\<exists>w s'. queue_run (fifo_cycle (fifo_cfg_example\<lparr>SHOWAHEAD := False\<rparr>)) fifo_accepted
       (fifo_emitted (fifo_cfg_example\<lparr>SHOWAHEAD := False\<rparr>)) [fifo_push 5, fifo_pop]
       (fifo_example\<lparr>wp_reg := \<lparr>cur = 0, nxt = 0\<rparr>\<rparr>) = Some (w, [[5]], s')"
proof -
  let ?c = "fifo_cfg_example\<lparr>SHOWAHEAD := False\<rparr>" and ?e = "fifo_example\<lparr>wp_reg := \<lparr>cur = 0, nxt = 0\<rparr>\<rparr>"
  have inv: "fifo_inv ?c ?e" and ok: "fifo_input_ok ?c (fifo_push 5)" "fifo_input_ok ?c fifo_pop"
    using fifo_example_ok(1)
    by (simp_all add: fifo_inv_def fifo_example_def settled_def mem_inv_def fifo_input_ok_def fifo_push_def
        fifo_pop_def fifo_cfg_example_def)
  have empty: "fifo_contents ?c ?e = []"
    by (simp add: fifo_contents_def stored_words_def mem_count_def fill_def fifo_example_def fifo_cfg_example_def)
  have form: "\<not> OUTPUT_REG ?c" and abs: "fifo_abs ?c ?e = (None, [])"
    using empty by (simp_all add: fifo_abs_def fifo_contents_def fifo_cfg_example_def)
  have respected: "flags_respected ?c [fifo_push 5, fifo_pop] ?e"
  proof (cases "fifo_cycle ?c (fifo_push 5) ?e")
    case (Some s1)
    then have "fifo_abs ?c s1 = (None, [[5]])"
      using plain_cycle_refines [OF inv ok(1) form] abs by (simp add: fifo_push_def fifo_cfg_example_def)
    then have "\<not> empty_comb ?c s1"
      using empty_comb_contents [OF fifo_cycle_inv [OF inv ok(1) Some]] form by (simp add: fifo_contents_abs)
    then show ?thesis
      using Some by (simp add: fifo_push_def fifo_pop_def full_comb_def fifo_example_def split: option.split)
  qed (simp add: fifo_push_def fifo_pop_def full_comb_def fifo_example_def)
  then obtain w r s' where run:
    "queue_run (fifo_cycle ?c) fifo_accepted (fifo_emitted ?c) [fifo_push 5, fifo_pop] ?e = Some (w, r, s')"
    using fifo_run_preserves_order [OF inv empty, of "[fifo_push 5, fifo_pop]"] ok by fastforce
  then have "r = [[5]]"
    using fifo_run_preserves_order [OF inv empty, of "[fifo_push 5, fifo_pop]"] ok
    by (simp add: fifo_push_def fifo_pop_def)
  with run show ?thesis by blast
qed

text \<open>
  the write mask is a 64-bit constant, so in a queue with rows of more than 64 bytes the
  bytes from the 64th on are never written: the row keeps what it held there.
\<close>

theorem fifo_wide_rows_keep_stale_bytes:
  assumes "mem_inv wb d (mem s)" and "FIFO_WIDTH_BYTES c = wb" and "cur (wp_reg s) < d" and "cur (rp_reg s) < d"
    and "length (fifo_write_data_in i) = wb" and "64 \<le> k" and "k < wb"
  shows "\<exists>m. mem_work (mem_showahead c) wb (fifo_mem_in c i s) (mem s) = Some m \<and>
    rows (buffer (mem_strobe m)) ! cur (wp_reg s) ! k = rows (buffer (mem s)) ! cur (wp_reg s) ! k"
proof -
  have "mem_in_ok wb d (fifo_mem_in c i s)"
    using assms by (simp add: mem_in_ok_def fifo_mem_in_def)
  then obtain m where m: "mem_work (mem_showahead c) wb (fifo_mem_in c i s) (mem s) = Some m"
    "rows (buffer (mem_strobe m)) = written_rows wb (fifo_mem_in c i s) (rows (buffer (mem s)))"
    using mem_cycle [OF assms(1)] by metis
  have "\<not> bit (le_val (assign_uint64 wb 0xFFFFFFFFFFFFFFFF)) k"
    using assms(6) bit_mask_iff [of 64 k, where 'a = nat]
    by (simp add: le_val_assign_uint64 bit_mod_exp mask_eq_exp_minus_1)
  moreover have "cur (wp_reg s) < length (rows (buffer (mem s)))"
    using assms by (simp add: mem_inv_def)
  ultimately show ?thesis
    using m assms by (auto simp: written_rows_def fifo_mem_in_def)
qed

lemma fifo_wide_rows_keep_stale_bytes_witness:
  "\<exists>m. mem_work True 65 (fifo_mem_in (fifo_cfg_example\<lparr>FIFO_WIDTH_BYTES := 65\<rparr>)
      ((fifo_push_example 1)\<lparr>fifo_write_data_in := replicate 65 1\<rparr>)
      (fifo_example\<lparr>mem := \<lparr>buffer = \<lparr>rows = replicate 2 (replicate 65 0), changes = []\<rparr>,
         data_out_reg = \<lparr>cur = [0], nxt = [0]\<rparr>\<rparr>\<rparr>))
      \<lparr>buffer = \<lparr>rows = replicate 2 (replicate 65 0), changes = []\<rparr>, data_out_reg = \<lparr>cur = [0], nxt = [0]\<rparr>\<rparr> = Some m \<and>
     rows (buffer (mem_strobe m)) ! 1 ! 64 = 0"
  using fifo_wide_rows_keep_stale_bytes [of 65 2
      "fifo_example\<lparr>mem := \<lparr>buffer = \<lparr>rows = replicate 2 (replicate 65 0), changes = []\<rparr>,
         data_out_reg = \<lparr>cur = [0], nxt = [0]\<rparr>\<rparr>\<rparr>"
      "fifo_cfg_example\<lparr>FIFO_WIDTH_BYTES := 65\<rparr>"
      "(fifo_push_example 1)\<lparr>fifo_write_data_in := replicate 65 1\<rparr>" 64]
  by (simp add: mem_inv_def fifo_cfg_example_def fifo_example_def mem_showahead_def list_all_iff)

definition fifo_cfg3 :: fifo_cfg where
  "fifo_cfg3 = \<lparr>FIFO_WIDTH_BYTES = 1, FIFO_DEPTH = 3, SHOWAHEAD = True, OUTPUT_REG = False\<rparr>"

lemma clog2_small: "clog2 2 = 1" "clog2 3 = 2"
  by (simp_all add: clog2_def flog2.simps)

definition fifo_depth3 :: fifo where
  "fifo_depth3 =
     \<lparr>mem = \<lparr>buffer = \<lparr>rows = [[1], [2], [3]], changes = []\<rparr>, data_out_reg = \<lparr>cur = [0], nxt = [0]\<rparr>\<rparr>,
      wp_reg = \<lparr>cur = 2, nxt = 2\<rparr>, rp_reg = \<lparr>cur = 0, nxt = 0\<rparr>, full_reg = \<lparr>cur = False, nxt = False\<rparr>,
      afull_reg = \<lparr>cur = False, nxt = False\<rparr>, read_valid_reg = \<lparr>cur = False, nxt = False\<rparr>,
      read_data_reg = \<lparr>cur = [0], nxt = [0]\<rparr>\<rparr>"

text \<open>
  a depth that is not a power of two is accepted by the class and does not work: with
  depth 3 the pointers wrap at 4, three words do not make the queue full, and the fourth
  write stops the program with an index out of the memory, without reporting a full queue.
\<close>

theorem fifo_depth_not_power_of_two:
  "\<exists>s. fifo_cycle fifo_cfg3 (fifo_push 4) fifo_depth3 = Some s \<and> \<not> full_comb fifo_cfg3 s \<and>
     fifo_work fifo_cfg3 False (fifo_push 5) s = None"
proof -
  have "mem_inv 1 3 (mem fifo_depth3)" and "mem_in_ok 1 3 (fifo_mem_in fifo_cfg3 (fifo_push 4) fifo_depth3)"
    by (simp_all add: mem_inv_def fifo_depth3_def mem_in_ok_def fifo_mem_in_def fifo_push_def fifo_cfg3_def)
  then obtain m where m:
    "mem_work (mem_showahead fifo_cfg3) 1 (fifo_mem_in fifo_cfg3 (fifo_push 4) fifo_depth3) (mem fifo_depth3) = Some m"
    and len: "length (rows (buffer (mem_strobe m))) = 3"
    by (rule mem_cycle [where sa = "mem_showahead fifo_cfg3"]) (auto simp: mem_inv_def)
  let ?s = "fifo_strobe (fifo_afull fifo_cfg3 (fifo_depth3\<lparr>mem := m, wp_reg := \<lparr>cur = 2, nxt = 3\<rparr>\<rparr>))"
  have "fifo_cycle fifo_cfg3 (fifo_push 4) fifo_depth3 = Some ?s"
    using m by (simp add: fifo_cycle_def fifo_work_def fifo_cfg3_def fifo_work_plain_def fifo_write_half_def
        fifo_read_half_def fifo_push_def fifo_clear_def full_comb_def fifo_depth3_def ptr_succ_def clog2_small)
  moreover have "\<not> full_comb fifo_cfg3 ?s"
    by (simp add: full_comb_def fifo_cfg3_def fifo_strobe_def fifo_afull_def Let_def fifo_depth3_def)
  moreover have "fifo_work fifo_cfg3 False (fifo_push 5) ?s = None"
    using len by (simp add: fifo_work_def mem_work_def fifo_mem_in_def mem_write_comb_def fifo_cfg3_def
        fifo_push_def mem_row_def fifo_strobe_def fifo_afull_def Let_def fifo_depth3_def)
  ultimately show ?thesis by blast
qed

text \<open>A cycle with \<open>clear_in\<close> that does not stop the program leaves an empty queue.\<close>

lemma fifo_clear_empties:
  assumes "fifo_cycle c i s = Some s'" and "clear_in i"
  shows "fifo_contents c s' = []"
proof -
  obtain t where "s' = fifo_strobe (fifo_clear i t)"
    using assms(1) by (auto simp: fifo_cycle_def fifo_work_def Let_def split: option.splits if_splits)
  then show ?thesis
    using assms(2)
    by (simp add: fifo_contents_def fifo_clear_def fifo_strobe_def stored_words_def mem_count_def fill_def)
qed

text \<open>A reset leaves an empty queue that satisfies the invariant.\<close>

theorem fifo_reset_empties:
  assumes "mem_inv wb (2 ^ k) (mem s)" and "0 < k" and "wb \<le> 64" and "length (fifo_write_data_in i) = wb"
    and "cur (wp_reg s) < 2 ^ k" and "cur (rp_reg s) < 2 ^ k"
  shows "\<exists>s1. fifo_work \<lparr>FIFO_WIDTH_BYTES = wb, FIFO_DEPTH = 2 ^ k, SHOWAHEAD = sa, OUTPUT_REG = oreg\<rparr> True i s = Some s1 \<and>
    fifo_inv \<lparr>FIFO_WIDTH_BYTES = wb, FIFO_DEPTH = 2 ^ k, SHOWAHEAD = sa, OUTPUT_REG = oreg\<rparr> (fifo_strobe s1) \<and>
    fifo_contents \<lparr>FIFO_WIDTH_BYTES = wb, FIFO_DEPTH = 2 ^ k, SHOWAHEAD = sa, OUTPUT_REG = oreg\<rparr> (fifo_strobe s1) = []"
  using fifo_reset_cycle [OF assms(1) refl refl assms(2-6)] by metis

lemma fifo_reset_empties_witness:
  "\<exists>s1. fifo_work \<lparr>FIFO_WIDTH_BYTES = 1, FIFO_DEPTH = 2, SHOWAHEAD = True, OUTPUT_REG = True\<rparr> True
     (fifo_push_example 3) fifo_example = Some s1"
  using fifo_reset_empties [of 1 1 fifo_example "fifo_push_example 3" True True]
  by (auto simp: fifo_example_def mem_inv_def fifo_push_example_def)

end
