(* ===== verification/Buffer.thy ===== *)
theory Buffer
  imports RegMemory RingBuffer Clog2
begin

text \<open>
  \<open>Buffer\<close> of \<open>lib/basic/Buffer.h\<close>: a valid/ready skid buffer of any depth which passes a
  word through in the same cycle when it is empty. Words are of any type. The indices wrap
  at \<open>DEPTH\<close>, and the registers keep them and the count truncated to \<open>INDEX_BITS\<close> and
  \<open>COUNT_BITS\<close> bits; that nothing is lost by it is part of the proof. The parameter of
  \<open>clog2\<close> and the locals of \<open>_work\<close> are 32-bit integers, so \<open>DEPTH + 1\<close> is below \<open>2 ^ 32\<close>.
\<close>

definition index_bits :: "nat \<Rightarrow> nat" where
  "index_bits depth = (if depth \<le> 1 then 1 else clog2 depth)"

definition count_bits :: "nat \<Rightarrow> nat" where
  "count_bits depth = clog2 (depth + 1)"

record 'w buffer_state =
  data_reg :: "'w list reg"
  head_reg :: "nat reg"
  tail_reg :: "nat reg"
  count_reg :: "nat reg"

record 'w buffer_in =
  valid_in :: bool
  data_in :: 'w
  ready_in :: bool

definition ready_comb :: "nat \<Rightarrow> 'w buffer_in \<Rightarrow> 'w buffer_state \<Rightarrow> bool" where
  "ready_comb depth i s \<longleftrightarrow> cur (count_reg s) < depth \<or> ready_in i"

definition valid_comb :: "'w buffer_in \<Rightarrow> 'w buffer_state \<Rightarrow> bool" where
  "valid_comb i s \<longleftrightarrow> cur (count_reg s) \<noteq> 0 \<or> valid_in i"

definition data_comb :: "'w buffer_in \<Rightarrow> 'w buffer_state \<Rightarrow> 'w" where
  "data_comb i s = (if cur (count_reg s) \<noteq> 0 then cur (data_reg s) ! cur (head_reg s) else data_in i)"

definition buffer_work :: "nat \<Rightarrow> bool \<Rightarrow> 'w buffer_in \<Rightarrow> 'w buffer_state \<Rightarrow> 'w buffer_state" where
  "buffer_work depth reset i s =
     (if reset
      then s\<lparr>head_reg := (head_reg s)\<lparr>nxt := 0\<rparr>, tail_reg := (tail_reg s)\<lparr>nxt := 0\<rparr>,
             count_reg := (count_reg s)\<lparr>nxt := 0\<rparr>\<rparr>
      else
        let input_fire = (valid_in i \<and> ready_comb depth i s);
            output_fire = (valid_comb i s \<and> ready_in i);
            head = cur (head_reg s); tail = cur (tail_reg s); count = cur (count_reg s);
            had_stored = (count \<noteq> 0);
            (head1, count1) = (if output_fire \<and> count \<noteq> 0 then ((head + 1) mod depth, count - 1)
                               else (head, count));
            store = (input_fire \<and> (had_stored \<or> \<not> output_fire));
            data1 = (if store then (nxt (data_reg s))[tail := data_in i] else nxt (data_reg s));
            (tail1, count2) = (if store then ((tail + 1) mod depth, count1 + 1) else (tail, count1))
        in s\<lparr>data_reg := (data_reg s)\<lparr>nxt := data1\<rparr>,
             head_reg := (head_reg s)\<lparr>nxt := head1 mod 2 ^ index_bits depth\<rparr>,
             tail_reg := (tail_reg s)\<lparr>nxt := tail1 mod 2 ^ index_bits depth\<rparr>,
             count_reg := (count_reg s)\<lparr>nxt := count2 mod 2 ^ count_bits depth\<rparr>\<rparr>)"

definition buffer_strobe :: "'w buffer_state \<Rightarrow> 'w buffer_state" where
  "buffer_strobe s =
     s\<lparr>data_reg := reg_strobe (data_reg s), head_reg := reg_strobe (head_reg s),
       tail_reg := reg_strobe (tail_reg s), count_reg := reg_strobe (count_reg s)\<rparr>"

definition buffer_cycle :: "nat \<Rightarrow> 'w buffer_in \<Rightarrow> 'w buffer_state \<Rightarrow> 'w buffer_state option" where
  "buffer_cycle depth i s = Some (buffer_strobe (buffer_work depth False i s))"

section \<open>Invariant and contents\<close>

definition buffer_inv :: "nat \<Rightarrow> 'w buffer_state \<Rightarrow> bool" where
  "buffer_inv depth s \<longleftrightarrow> 0 < depth \<and> depth + 1 < 2 ^ 32 \<and> settled (data_reg s) \<and> length (cur (data_reg s)) = depth \<and>
     cur (head_reg s) < depth \<and> cur (count_reg s) \<le> depth \<and>
     cur (tail_reg s) = (cur (head_reg s) + cur (count_reg s)) mod depth"

definition buffer_contents :: "'w buffer_state \<Rightarrow> 'w list" where
  "buffer_contents s = ring (cur (data_reg s)) (cur (head_reg s)) (cur (count_reg s))"

definition buffer_accepted :: "nat \<Rightarrow> 'w buffer_in \<Rightarrow> 'w buffer_state \<Rightarrow> 'w list" where
  "buffer_accepted depth i s = (if valid_in i \<and> ready_comb depth i s then [data_in i] else [])"

definition buffer_emitted :: "'w buffer_in \<Rightarrow> 'w buffer_state \<Rightarrow> 'w list" where
  "buffer_emitted i s = (if valid_comb i s \<and> ready_in i then [data_comb i s] else [])"

text \<open>The registers are wide enough.\<close>

lemma index_fits: "k < depth \<Longrightarrow> k mod 2 ^ index_bits depth = k"
  using le_exp_clog2 [of depth] by (intro mod_less) (auto simp: index_bits_def)

lemma count_fits: "k \<le> depth \<Longrightarrow> k mod 2 ^ count_bits depth = k"
  using le_exp_clog2 [of "depth + 1"] by (intro mod_less) (simp add: count_bits_def)

text \<open>The registers after a cycle, in terms of what was taken from and put in the store.\<close>

lemma buffer_cycle_regs:
  assumes inv: "buffer_inv depth s" and "buffer_cycle depth i s = Some s'"
    and "pop = (ready_in i \<and> cur (count_reg s) \<noteq> 0)"
    and "push = (valid_in i \<and> ready_comb depth i s \<and> (cur (count_reg s) \<noteq> 0 \<or> \<not> ready_in i))"
  shows "cur (data_reg s') = (if push then (cur (data_reg s))[cur (tail_reg s) := data_in i] else cur (data_reg s))"
    and "cur (head_reg s') = (if pop then (cur (head_reg s) + 1) mod depth else cur (head_reg s))"
    and "cur (tail_reg s') = (if push then (cur (tail_reg s) + 1) mod depth else cur (tail_reg s))"
    and "cur (count_reg s') = cur (count_reg s) - of_bool pop + of_bool push"
    and "settled (data_reg s')"
proof -
  have s': "s' = buffer_strobe (buffer_work depth False i s)"
    using assms(2) by (simp add: buffer_cycle_def)
  have st: "nxt (data_reg s) = cur (data_reg s)"
    using inv by (simp add: buffer_inv_def settled_def)
  have bounds: "cur (head_reg s) < depth" "cur (tail_reg s) < depth" "cur (count_reg s) \<le> depth" "0 < depth"
    using inv by (simp_all add: buffer_inv_def)
  have fits: "cur (head_reg s) mod 2 ^ index_bits depth = cur (head_reg s)"
    "cur (tail_reg s) mod 2 ^ index_bits depth = cur (tail_reg s)"
    "(k mod depth) mod 2 ^ index_bits depth = k mod depth"
    "cur (count_reg s) mod 2 ^ count_bits depth = cur (count_reg s)"
    "(cur (count_reg s) - Suc 0) mod 2 ^ count_bits depth = cur (count_reg s) - Suc 0" for k
    using bounds by (auto intro!: index_fits count_fits)
  have pos: "0 < count_bits depth"
    using bounds by (simp add: count_bits_def clog2_def)
  have room: "cur (count_reg s) < depth \<Longrightarrow> Suc (cur (count_reg s)) mod 2 ^ count_bits depth = Suc (cur (count_reg s))"
    by (intro count_fits) simp
  note simps = s' buffer_strobe_def buffer_work_def Let_def valid_comb_def ready_comb_def st assms(3,4) fits room pos bounds(4)
  show "cur (data_reg s') = (if push then (cur (data_reg s))[cur (tail_reg s) := data_in i] else cur (data_reg s))"
    by (cases "ready_in i"; cases "valid_in i"; cases "cur (count_reg s) = 0") (simp_all add: simps)
  show "cur (head_reg s') = (if pop then (cur (head_reg s) + 1) mod depth else cur (head_reg s))"
    by (cases "ready_in i"; cases "valid_in i"; cases "cur (count_reg s) = 0") (simp_all add: simps)
  show "cur (tail_reg s') = (if push then (cur (tail_reg s) + 1) mod depth else cur (tail_reg s))"
    by (cases "ready_in i"; cases "valid_in i"; cases "cur (count_reg s) = 0") (simp_all add: simps)
  show "cur (count_reg s') = cur (count_reg s) - of_bool pop + of_bool push"
    by (cases "ready_in i"; cases "valid_in i"; cases "cur (count_reg s) = 0"; cases "cur (count_reg s) < depth")
      (simp_all add: simps)
  show "settled (data_reg s')"
    by (simp add: simps)
qed

lemma buffer_handshake:
  assumes "buffer_inv depth s"
  shows "(ready_comb depth i s \<longleftrightarrow> length (buffer_contents s) < depth \<or> ready_in i) \<and>
    (valid_comb i s \<longleftrightarrow> buffer_contents s \<noteq> [] \<or> valid_in i) \<and>
    data_comb i s = hd (buffer_contents s @ [data_in i])"
  using assms hd_ring [of "cur (head_reg s)" "cur (data_reg s)" "cur (count_reg s)"]
  by (auto simp: ready_comb_def valid_comb_def data_comb_def buffer_contents_def buffer_inv_def hd_append)

text \<open>The reset cycle leaves an empty buffer.\<close>

lemma buffer_reset:
  assumes "0 < depth" and "depth + 1 < 2 ^ 32" and "length (nxt (data_reg s)) = depth"
  shows "buffer_inv depth (buffer_strobe (buffer_work depth True i s))"
    and "buffer_contents (buffer_strobe (buffer_work depth True i s)) = []"
  using assms by (simp_all add: buffer_inv_def buffer_contents_def buffer_strobe_def buffer_work_def)

lemma buffer_cycle_contents:
  assumes inv: "buffer_inv depth s" and c: "buffer_cycle depth i s = Some s'"
  shows "buffer_inv depth s' \<and>
    buffer_contents s @ buffer_accepted depth i s = buffer_emitted i s @ buffer_contents s'"
proof -
  define pop where "pop = (ready_in i \<and> cur (count_reg s) \<noteq> 0)"
  define push where "push = (valid_in i \<and> ready_comb depth i s \<and> (cur (count_reg s) \<noteq> 0 \<or> \<not> ready_in i))"
  let ?xs = "cur (data_reg s)" and ?h = "cur (head_reg s)" and ?n = "cur (count_reg s)"
  have len: "length ?xs = depth" and h: "?h < depth" and n: "?n \<le> depth"
    and tail: "cur (tail_reg s) = (?h + ?n) mod depth"
    using inv by (simp_all add: buffer_inv_def)
  note regs = buffer_cycle_regs [OF inv c pop_def push_def]
  have full: "push \<and> \<not> pop \<longrightarrow> ?n < depth"
    using n by (auto simp: push_def pop_def ready_comb_def)
  have contents: "buffer_contents s' = (if pop then tl (buffer_contents s) else buffer_contents s) @
      (if push then [data_in i] else [])"
  proof (cases pop; cases push)
    assume "pop" "push"
    moreover from \<open>pop\<close> obtain m where "?n = Suc m"
      by (cases ?n) (auto simp: pop_def)
    ultimately show ?thesis
      using n h len tail ring_push_pop [of m ?xs ?h "data_in i"] by (simp add: buffer_contents_def regs(1,2,4))
  next
    assume "\<not> pop" "push"
    then show ?thesis
      using full len tail ring_push [of ?n ?xs ?h "data_in i"] by (simp add: buffer_contents_def regs(1,2,4))
  next
    assume "pop" "\<not> push"
    then show ?thesis
      using h len by (simp add: buffer_contents_def regs(1,2,4) tl_ring)
  qed (simp add: buffer_contents_def regs(1,2,4))
  have hd: "?n \<noteq> 0 \<Longrightarrow> buffer_contents s = data_comb i s # tl (buffer_contents s)"
    using h len hd_ring [of ?h ?xs ?n]
    by (cases "buffer_contents s") (auto simp: buffer_contents_def data_comb_def)
  have "?n = 0 \<Longrightarrow> buffer_contents s = []"
    by (simp add: buffer_contents_def)
  then have "buffer_contents s @ buffer_accepted depth i s = buffer_emitted i s @ buffer_contents s'"
    using hd contents h
    by (cases "?n = 0"; cases "ready_in i"; cases "valid_in i")
      (auto simp: pop_def push_def buffer_accepted_def buffer_emitted_def ready_comb_def valid_comb_def data_comb_def)
  moreover have "buffer_inv depth s'"
  proof -
    have "0 < depth" using h by simp
    have pop: "pop \<Longrightarrow> 0 < ?n"
      by (simp add: pop_def)
    have "cur (count_reg s') \<le> depth"
      using n full pop by (auto simp: regs(4) of_bool_def)
    moreover have "cur (tail_reg s') = (cur (head_reg s') + cur (count_reg s')) mod depth"
      using tail pop by (auto simp: regs(2-4) mod_simps of_bool_def)
    moreover have "cur (head_reg s') < depth"
      using h by (simp add: regs(2))
    ultimately show ?thesis
      using regs(1,5) len inv \<open>0 < depth\<close> by (simp add: buffer_inv_def)
  qed
  ultimately show ?thesis by blast
qed

interpretation buffer_queue: stream_queue "buffer_inv depth" "\<lambda>_. True" "buffer_cycle depth" buffer_contents
    "buffer_accepted depth" buffer_emitted for depth
  by unfold_locales (use buffer_cycle_contents in blast)+

section \<open>Properties\<close>

lemma buffer_run_total: "\<exists>taken given s'. queue_run (buffer_cycle depth) acc emit is s = Some (taken, given, s')"
proof (induction "is" arbitrary: s)
  case (Cons i "is")
  obtain t g s' where "queue_run (buffer_cycle depth) acc emit is (buffer_strobe (buffer_work depth False i s)) =
      Some (t, g, s')"
    using Cons by blast
  moreover have "buffer_cycle depth i s = Some (buffer_strobe (buffer_work depth False i s))"
    by (simp add: buffer_cycle_def)
  ultimately show ?case
    by simp
qed simp

text \<open>
  C16: every run of the buffer, of any depth from 1 to \<open>2 ^ 32 - 2\<close> and from any state of the
  invariant, which the reset cycle establishes with an empty store, goes through. The words
  handed over at the output (\<open>valid_out\<close> and \<open>ready_in\<close>) followed by the words stored at the end
  are the words stored at first followed by those taken at the input (\<open>valid_in\<close> and
  \<open>ready_out\<close>), and the store never exceeds its depth. After the run, whatever the inputs,
  \<open>ready_out\<close> is set exactly when there is room or the consumer is ready, \<open>valid_out\<close> exactly when
  there is a stored word or one at the input, and \<open>data_out\<close> is the first of these. The
  truncations to \<open>INDEX_BITS\<close> and \<open>COUNT_BITS\<close> lose nothing, a full buffer included.
\<close>

theorem buffer_run_preserves_order:
  assumes "buffer_inv depth s"
  shows "\<exists>taken given s'.
    queue_run (buffer_cycle depth) (buffer_accepted depth) buffer_emitted is s = Some (taken, given, s') \<and>
    buffer_contents s @ taken = given @ buffer_contents s' \<and>
    length (buffer_contents s') \<le> depth \<and> buffer_inv depth s' \<and>
    (\<forall>i. (ready_comb depth i s' \<longleftrightarrow> length (buffer_contents s') < depth \<or> ready_in i) \<and>
      (valid_comb i s' \<longleftrightarrow> buffer_contents s' \<noteq> [] \<or> valid_in i) \<and>
      data_comb i s' = hd (buffer_contents s' @ [data_in i]))"
proof -
  obtain taken given s' where
    r: "queue_run (buffer_cycle depth) (buffer_accepted depth) buffer_emitted is s = Some (taken, given, s')"
    using buffer_run_total by blast
  then have "buffer_inv depth s'" and "buffer_contents s @ taken = given @ buffer_contents s'"
    using buffer_queue.run_conserves [OF assms _ r] by simp_all
  moreover from this have "length (buffer_contents s') \<le> depth"
    by (simp add: buffer_contents_def buffer_inv_def)
  ultimately show ?thesis
    using r buffer_handshake by blast
qed

definition buffer_example :: "nat buffer_state" where
  "buffer_example =
     \<lparr>data_reg = \<lparr>cur = [1, 2, 3], nxt = [1, 2, 3]\<rparr>, head_reg = \<lparr>cur = 2, nxt = 2\<rparr>,
      tail_reg = \<lparr>cur = 1, nxt = 1\<rparr>, count_reg = \<lparr>cur = 2, nxt = 2\<rparr>\<rparr>"

text \<open>A run that fills the buffer.\<close>

lemma buffer_run_preserves_order_witness:
  "\<exists>s'. queue_run (buffer_cycle 3) (buffer_accepted 3) buffer_emitted
       [\<lparr>valid_in = True, data_in = 8, ready_in = True\<rparr>, \<lparr>valid_in = True, data_in = 9, ready_in = False\<rparr>]
       buffer_example = Some ([8, 9], [3], s') \<and> [3, 1, 8, 9] = 3 # buffer_contents s'"
proof -
  let ?is = "[\<lparr>valid_in = True, data_in = 8, ready_in = True\<rparr>, \<lparr>valid_in = True, data_in = 9, ready_in = False\<rparr>]"
  have inv: "buffer_inv 3 buffer_example" and c: "buffer_contents buffer_example = [3, 1]"
    by (simp_all add: buffer_inv_def buffer_example_def settled_def buffer_contents_def ring_def upt_conv_Cons)
  have bits: "index_bits 3 = 2" "count_bits 3 = 2"
    by (simp_all add: index_bits_def count_bits_def clog2_def flog2.simps)
  obtain s' where r: "queue_run (buffer_cycle 3) (buffer_accepted 3) buffer_emitted ?is buffer_example =
      Some ([8, 9], [3], s')"
    by (simp add: buffer_cycle_def buffer_accepted_def buffer_emitted_def buffer_work_def buffer_strobe_def
        ready_comb_def valid_comb_def data_comb_def buffer_example_def Let_def bits)
  from buffer_run_preserves_order [OF inv, of ?is] r c show ?thesis
    by auto
qed

end
