(* ===== verification/GraphBits.thy ===== *)
theory GraphBits
  imports Prelude "HOL-Library.Signed_Division"
begin

text \<open>
  Values of the netlist graph of \<open>include/cpphdl_graph.h\<close>: a \<open>Bit\<close> is a number, 0 and 1
  the constants and any other one a lane of a node; a \<open>Value\<close> is a vector of bits. This theory
  has the functions on values, the constant evaluator \<open>calculate\<close>, and the word expression
  that the native backend (\<open>include/cpphdl_graph_native.h\<close>) emits for a node, which gives
  the meaning of a node. Words of the evaluator are 64-bit words.
\<close>

type_synonym gbit = nat
type_synonym gvalue = "nat list"

text \<open>A thrown \<open>runtime_error\<close>, or an access the language leaves undefined.\<close>

datatype gerror = Runtime_error string | Undefined_behaviour string

section \<open>Functions on values\<close>

definition graph_mask :: "nat \<Rightarrow> u64" where
  "graph_mask width = (if 64 \<le> width then NOT 0 else push_bit width 1 - 1)"

definition const_value :: "u64 \<Rightarrow> nat \<Rightarrow> gvalue" where
  "const_value num width =
     map (\<lambda>index. if index < 64 then unat (drop_bit index num AND 1) else 0) [0..<width]"

fun number_loop :: "gvalue \<Rightarrow> nat \<Rightarrow> u64 \<Rightarrow> u64 option" where
  "number_loop [] index result = Some result"
| "number_loop (b # bs) index result =
     (if b > 1 then None else number_loop bs (index + 1) (result OR push_bit index (of_nat b)))"

definition number :: "gvalue \<Rightarrow> u64 option" where
  "number value = (if length value > 64 then None else number_loop value 0 0)"

definition resize :: "gvalue \<Rightarrow> nat \<Rightarrow> bool \<Rightarrow> gvalue" where
  "resize value width sign =
     (if width \<le> length value then take width value
      else value @ replicate (width - length value) (if sign \<and> value \<noteq> [] then last value else 0))"

definition slice :: "gvalue \<Rightarrow> int \<Rightarrow> nat \<Rightarrow> gvalue" where
  "slice value offset width =
     map (\<lambda>index. if 0 \<le> offset + int index \<and> nat (offset + int index) < length value
                  then value ! nat (offset + int index) else 0) [0..<width]"

section \<open>Evaluation of constants\<close>

definition signedNumber :: "u64 \<Rightarrow> nat \<Rightarrow> int" where
  "signedNumber value width =
     (if width = 64 then sint value
      else let sign = push_bit (width - 1) 1 in sint ((value XOR sign) - sign))"

definition calculate :: "string \<Rightarrow> u64 \<Rightarrow> u64 \<Rightarrow> nat \<Rightarrow> gerror + u64" where
  "calculate op left right width =
     (if op = ''add'' then Inr (left + right)
      else if op = ''sub'' then Inr (left - right)
      else if op = ''mul'' then Inr (left * right)
      else if op = ''div'' then Inr (if right \<noteq> 0 then left div right else 0)
      else if op = ''mod'' then Inr (if right \<noteq> 0 then left mod right else 0)
      else if op = ''sdiv'' \<or> op = ''smod''
      then let lhs = signedNumber left width; rhs = signedNumber right width
           in if rhs = 0 then Inr 0
              else if lhs = - (2 ^ 63) \<and> rhs = - 1 then Inr (if op = ''sdiv'' then left else 0)
              else Inr (word_of_int (if op = ''sdiv'' then lhs sdiv rhs else lhs smod rhs))
      else if op = ''eq'' then Inr (of_bool (left = right))
      else if op = ''lt'' then Inr (of_bool (left < right))
      else if op = ''slt'' then Inr (of_bool (signedNumber left width < signedNumber right width))
      else if op = ''shl'' then Inr (if right < 64 then push_bit (unat right) left else 0)
      else if op = ''shr'' then Inr (if right < 64 then drop_bit (unat right) left else 0)
      else if op = ''sar'' then Inr (word_of_int (drop_bit (min (unat right) 63) (signedNumber left width)))
      else Inl (Runtime_error (''unsupported graph operation: '' @ op)))"

section \<open>The word expression of the native backend\<close>

text \<open>The \<open>sign\<close> lambda: both shifts by \<open>64 - width\<close>.\<close>

definition native_sign :: "u64 \<Rightarrow> nat \<Rightarrow> int" where
  "native_sign value width = drop_bit (64 - width) (sint (push_bit (64 - width) value))"

definition native_parity :: "u64 \<Rightarrow> u64" where
  "native_parity w = of_bool (odd (length (filter (\<lambda>i. bit w i) [0..<64])))"

definition native_expr :: "string \<Rightarrow> nat \<Rightarrow> nat \<Rightarrow> u64 \<Rightarrow> u64 \<Rightarrow> u64 \<Rightarrow> u64" where
  "native_expr op leftSize rightSize left right select =
     (if op = ''mux'' then (if select \<noteq> 0 then left else right)
      else if op = ''any'' then of_bool (left \<noteq> 0)
      else if op = ''all'' then of_bool (left = graph_mask leftSize)
      else if op = ''parity'' then native_parity left
      else if op = ''shl'' then (if right < 64 then push_bit (unat right) left else 0)
      else if op = ''shr'' then (if right < 64 then drop_bit (unat right) left else 0)
      else if op = ''slt'' then of_bool (native_sign left leftSize < native_sign right rightSize)
      else if op = ''sar''
      then word_of_int (drop_bit (if right < 64 then unat right else 63) (native_sign left leftSize))
      else if op = ''sdiv'' \<or> op = ''smod''
      then let lhs = native_sign left leftSize; rhs = native_sign right rightSize
           in if right = 0 then 0
              else if lhs = - (2 ^ 63) \<and> rhs = - 1 then (if op = ''sdiv'' then left else 0)
              else word_of_int (if op = ''sdiv'' then lhs sdiv rhs else lhs smod rhs)
      else if op = ''and'' then left AND right
      else if op = ''or'' then left OR right
      else if op = ''xor'' then left XOR right
      else if op = ''add'' then left + right
      else if op = ''sub'' then left - right
      else if op = ''mul'' then left * right
      else if op = ''div'' then (if right \<noteq> 0 then left div right else 0)
      else if op = ''mod'' then (if right \<noteq> 0 then left mod right else 0)
      else if op = ''eq'' then of_bool (left = right)
      else if op = ''lt'' then of_bool (left < right)
      else 0)"

text \<open>The emitted \<open>__cpphdl_slice\<close>, over the words of the sliced value.\<close>

definition native_slice :: "u64 list \<Rightarrow> nat \<Rightarrow> nat \<Rightarrow> nat \<Rightarrow> u64" where
  "native_slice words offset width extent =
     (if extent - width < offset then 0
      else let wd = offset div 64; shift = offset mod 64;
               value = drop_bit shift (words ! wd);
               value = (if shift \<noteq> 0 \<and> wd + 1 < length words
                        then value OR push_bit (64 - shift) (words ! (wd + 1)) else value)
           in if width = 64 then value else value AND (push_bit width 1 - 1))"

section \<open>Numbers of values\<close>

text \<open>The number of a value under a valuation of the bits.\<close>

primrec bval :: "(gbit \<Rightarrow> bool) \<Rightarrow> gvalue \<Rightarrow> nat" where
  "bval v [] = 0"
| "bval v (b # bs) = of_bool (v b) + 2 * bval v bs"

lemma bit_bval: "bit (bval v bs) k \<longleftrightarrow> k < length bs \<and> v (bs ! k)"
proof (induction bs arbitrary: k)
  case (Cons b bs)
  then show ?case
    by (cases k) (auto simp: bit_0 bit_Suc)
qed simp

lemma bval_lt: "bval v bs < 2 ^ length bs"
  by (induction bs) auto

lemma bval_append: "bval v (xs @ ys) = bval v xs + 2 ^ length xs * bval v ys"
  by (induction xs) (auto simp: algebra_simps)

lemma bval_eqI:
  assumes "\<And>k. k < length bs \<or> bit x k \<Longrightarrow> bit x k \<longleftrightarrow> k < length bs \<and> v (bs ! k)"
  shows "bval v bs = x"
  by (rule bit_eqI) (metis assms bit_bval)

lemma bval_take: "bval v (take n bs) = bval v bs mod 2 ^ n"
  by (rule bit_eqI) (auto simp: bit_bval bit_take_bit_iff simp flip: take_bit_eq_mod)

abbreviation zero_one :: "(gbit \<Rightarrow> bool) \<Rightarrow> bool" where
  "zero_one v \<equiv> \<not> v 0 \<and> v (Suc 0)"

lemma bval_zeros: "\<not> v 0 \<Longrightarrow> bval v (replicate n 0) = 0"
  by (induction n) auto

lemma bval_constant_bits: "zero_one v \<Longrightarrow> list_all (\<lambda>b. b \<le> 1) bs \<Longrightarrow> bval v bs = bval (\<lambda>b. b = 1) bs"
  by (induction bs) (auto simp: le_Suc_eq)

text \<open>\<open>number\<close> gives the number of a constant value, under any valuation.\<close>

lemma number_loop_bits:
  "number_loop bs i r = Some x \<Longrightarrow>
    list_all (\<lambda>b. b \<le> 1) bs \<and> (\<forall>k < 64. bit x k \<longleftrightarrow> bit r k \<or> i \<le> k \<and> k - i < length bs \<and> bs ! (k - i) = 1)"
proof (induction bs i r rule: number_loop.induct)
  case (2 b bs i r)
  have b: "b \<le> 1" and IH: "list_all (\<lambda>b. b \<le> 1) bs \<and>
      (\<forall>k < 64. bit x k \<longleftrightarrow> bit (r OR push_bit i (of_nat b)) k \<or> i + 1 \<le> k \<and> k - (i + 1) < length bs \<and> bs ! (k - (i + 1)) = 1)"
    using "2.prems" "2.IH" by (auto split: if_splits)
  have "bit x k \<longleftrightarrow> bit r k \<or> i \<le> k \<and> k - i < length (b # bs) \<and> (b # bs) ! (k - i) = 1" if "k < 64" for k
  proof (cases "k = i")
    case True
    moreover have "b = 0 \<or> b = 1"
      using b by auto
    ultimately show ?thesis
      using IH that by (auto simp: bit_or_iff bit_push_bit_iff bit_1_iff)
  next
    case False
    have "bit (push_bit i (of_nat b :: u64)) k \<longleftrightarrow> False"
      using b False by (cases "b = 0") (auto simp: bit_push_bit_iff bit_1_iff bit_exp_iff le_Suc_eq)
    moreover have "i + 1 \<le> k \<longleftrightarrow> i \<le> k"
      using False by auto
    moreover have "k - i = Suc (k - (i + 1))" if "i \<le> k"
      using False that by simp
    ultimately show ?thesis
      using IH that by (auto simp: bit_or_iff)
  qed
  then show ?case
    using b IH by simp
qed simp

lemma number_Some:
  assumes "number bs = Some x"
  shows "length bs \<le> 64" and "list_all (\<lambda>b. b \<le> 1) bs" and "k < 64 \<Longrightarrow> bit x k \<longleftrightarrow> k < length bs \<and> bs ! k = 1"
  using assms number_loop_bits [of bs 0 0 x] by (auto simp: number_def split: if_splits)

lemma bval_number:
  assumes "number bs = Some x" and "zero_one v"
  shows "bval v bs = unat x"
proof (rule bval_eqI)
  fix k
  note n = number_Some [OF assms(1)]
  have v: "k < length bs \<Longrightarrow> v (bs ! k) \<longleftrightarrow> bs ! k = 1"
    using n(2) assms(2) by (auto simp: list_all_length le_Suc_eq)
  show "bit (unat x) k \<longleftrightarrow> k < length bs \<and> v (bs ! k)"
  proof (cases "k < 64")
    case True
    then show ?thesis
      using n(3) v by (auto simp: bit_unsigned_iff)
  next
    case False
    then show ?thesis
      using n(1) bit_imp_le_length [of x k] by (auto simp: bit_unsigned_iff)
  qed
qed

lemma number_loop_None: "number_loop bs i r = None \<longleftrightarrow> \<not> list_all (\<lambda>b. b \<le> 1) bs"
  by (induction bs i r rule: number_loop.induct) auto

lemma number_None: "number bs = None \<longleftrightarrow> 64 < length bs \<or> \<not> list_all (\<lambda>b. b \<le> 1) bs"
  by (simp add: number_def number_loop_None)

lemma length_const_value [simp]: "length (const_value x w) = w"
  by (simp add: const_value_def)

lemma const_value_nth: "k < w \<Longrightarrow> const_value x w ! k = of_bool (bit x k)"
proof -
  have "drop_bit k x AND 1 = of_bool (bit x k)"
    by (rule bit_word_eqI) (simp add: bit_and_iff bit_drop_bit_eq bit_1_iff bit_of_bool_iff conj_commute cong: conj_cong)
  moreover have "\<not> k < 64 \<Longrightarrow> \<not> bit x k"
    using bit_imp_le_length [of x k] by auto
  ultimately show "k < w \<Longrightarrow> const_value x w ! k = of_bool (bit x k)"
    by (simp add: const_value_def)
qed

lemma bval_const_value: "zero_one v \<Longrightarrow> bval v (const_value x w) = unat x mod 2 ^ w"
proof (rule bval_eqI)
  fix k assume "zero_one v"
  then have "v (of_bool b) \<longleftrightarrow> b" for b
    by (cases b) auto
  moreover have "bit x k \<Longrightarrow> k < 64"
    using bit_imp_le_length [of x k] by auto
  then have "bit (unat x mod 2 ^ w) k \<longleftrightarrow> k < w \<and> bit x k"
    by (auto simp: bit_take_bit_iff bit_unsigned_iff simp flip: take_bit_eq_mod)
  ultimately show "bit (unat x mod 2 ^ w) k \<longleftrightarrow> k < length (const_value x w) \<and> v (const_value x w ! k)"
    by (cases "k < w") (simp_all only: const_value_nth length_const_value simp_thms)
qed

lemma length_resize [simp]: "length (resize bs w s) = w"
  by (simp add: resize_def)

lemma bval_resize: "\<not> v 0 \<Longrightarrow> bval v (resize bs w False) = bval v bs mod 2 ^ w"
  by (simp add: resize_def bval_take bval_append bval_zeros order_less_le_trans [OF bval_lt])

lemma length_slice [simp]: "length (slice bs off w) = w"
  by (simp add: slice_def)

lemma slice_nth: "k < w \<Longrightarrow> slice bs (int off) w ! k = (if off + k < length bs then bs ! (off + k) else 0)"
  by (simp add: slice_def nat_int_add)

lemma bval_slice:
  assumes "\<not> v 0"
  shows "bval v (slice bs (int off) w) = bval v bs div 2 ^ off mod 2 ^ w"
proof (rule bval_eqI)
  fix k
  have "bit (bval v bs div 2 ^ off mod 2 ^ w) k \<longleftrightarrow> k < w \<and> bit (bval v bs) (off + k)"
    by (simp only: take_bit_eq_mod [symmetric] drop_bit_eq_div [symmetric] bit_take_bit_iff bit_drop_bit_eq o_apply)
  then show "bit (bval v bs div 2 ^ off mod 2 ^ w) k \<longleftrightarrow>
      k < length (slice bs (int off) w) \<and> v (slice bs (int off) w ! k)"
    using assms by (cases "k < w"; cases "off + k < length bs") (simp_all add: slice_nth bit_bval)
qed

end
