(* ===== verification/GraphNode.thy ===== *)
theory GraphNode
  imports GraphBits
begin

text \<open>
  Nodes of the graph and \<open>simplifyNode\<close> once its operands are resolved: the strength
  reduction of \<open>div\<close>, \<open>mod\<close> and \<open>mul\<close>, and the redirections of single lanes. The meaning of a
  node is the word the native backend computes for it; simplification is proved to keep it.
\<close>

record node =
  n_op :: string
  n_width :: nat
  n_left :: gvalue
  n_right :: gvalue
  n_select :: gvalue
  n_name :: string
  n_scope :: string

definition hostEffect :: "node \<Rightarrow> bool" where
  "hostEffect n \<longleftrightarrow> n_op n = ''host_random'' \<or> n_op n = ''host_jtag_tick'' \<or> n_op n = ''host_debug_tick''"

definition validation :: "node \<Rightarrow> bool" where
  "validation n \<longleftrightarrow> n_op n = ''assert_failure''"

section \<open>Errors\<close>

definition ebind :: "'e + 'a \<Rightarrow> ('a \<Rightarrow> 'e + 'b) \<Rightarrow> 'e + 'b" where
  "ebind r f = (case r of Inl e \<Rightarrow> Inl e | Inr x \<Rightarrow> f x)"

lemma ebind_simps [simp]: "ebind (Inl e) f = Inl e" "ebind (Inr x) f = f x"
  by (simp_all add: ebind_def)

lemma ebind_Inr: "ebind r f = Inr y \<longleftrightarrow> (\<exists>x. r = Inr x \<and> f x = Inr y)"
  by (cases r) simp_all

text \<open>Reading an element of a vector, undefined out of range.\<close>

definition at :: "'a list \<Rightarrow> nat \<Rightarrow> gerror + 'a" where
  "at xs i = (if i < length xs then Inr (xs ! i) else Inl (Undefined_behaviour ''vector index''))"

fun collect :: "('a \<Rightarrow> 'e + 'b list) \<Rightarrow> 'a list \<Rightarrow> 'e + 'b list" where
  "collect f [] = Inr []"
| "collect f (x # xs) = ebind (f x) (\<lambda>ys. ebind (collect f xs) (\<lambda>zs. Inr (ys @ zs)))"

lemma collect_set:
  "collect f xs = Inr ys \<Longrightarrow> y \<in> set ys \<Longrightarrow> \<exists>x \<in> set xs. \<exists>zs. f x = Inr zs \<and> y \<in> set zs"
  by (induction xs arbitrary: ys) (auto simp: ebind_Inr)

section \<open>Powers of two\<close>

text \<open>The \<open>power\<close> lambda: the only bit that is not the constant 0, with its position.\<close>

fun power_loop :: "gvalue \<Rightarrow> nat \<Rightarrow> (nat \<times> gbit) option \<Rightarrow> (nat \<times> gbit) option" where
  "power_loop [] bit_index found = found"
| "power_loop (b # bs) bit_index found =
     (if b \<noteq> 0
      then if found \<noteq> None then None else power_loop bs (bit_index + 1) (Some (bit_index, b))
      else power_loop bs (bit_index + 1) found)"

definition power_of :: "gvalue \<Rightarrow> (nat \<times> gbit) option" where
  "power_of value = power_loop value 0 None"

definition power_wiring :: "string \<Rightarrow> nat \<Rightarrow> gvalue \<Rightarrow> nat \<Rightarrow> gvalue" where
  "power_wiring op width operand shift =
     map (\<lambda>offset.
       if op = ''div''
       then if shift < length operand \<and> offset < length operand - shift then operand ! (offset + shift) else 0
       else if op = ''mod''
       then if offset < shift \<and> offset < length operand then operand ! offset else 0
       else if shift \<le> offset \<and> offset - shift < length operand then operand ! (offset - shift) else 0) [0..<width]"

definition rewrite_power :: "node \<Rightarrow> node" where
  "rewrite_power n =
     (if n_op n = ''div'' \<or> n_op n = ''mod'' \<or> n_op n = ''mul''
      then let (operand, p) =
                 (if power_of (n_right n) = None \<and> n_op n = ''mul'' then (n_right n, power_of (n_left n))
                  else (n_left n, power_of (n_right n)))
           in case p of None \<Rightarrow> n
              | Some (shift, enable) \<Rightarrow>
                  n\<lparr>n_op := ''and'', n_left := power_wiring (n_op n) (n_width n) operand shift,
                    n_right := replicate (n_width n) enable, n_select := []\<rparr>
      else n)"

section \<open>Redirections\<close>

definition lane_redirect :: "node \<Rightarrow> nat \<Rightarrow> gerror + (nat \<times> gbit) list" where
  "lane_redirect n offset =
     ebind (at (n_left n) offset) (\<lambda>left. ebind (at (n_right n) offset) (\<lambda>right.
       if n_op n = ''mux''
       then ebind (at (n_select n) 0) (\<lambda>c. Inr (
         if c < 2 then [(offset, if c \<noteq> 0 then left else right)]
         else if left = right then [(offset, left)]
         else if left = 1 \<and> right = 0 then [(offset, c)]
         else []))
       else Inr (
         if n_op n = ''and''
         then if left = 0 \<or> right = 0 then [(offset, 0)]
              else if left = 1 \<or> left = right then [(offset, right)]
              else if right = 1 then [(offset, left)] else []
         else if n_op n = ''or''
         then if left = 1 \<or> right = 1 then [(offset, 1)]
              else if left = 0 \<or> left = right then [(offset, right)]
              else if right = 0 then [(offset, left)] else []
         else if left = right then [(offset, 0)]
              else if left = 0 then [(offset, right)]
              else if right = 0 then [(offset, left)] else [])))"

definition reduce_redirect :: "node \<Rightarrow> (nat \<times> gbit) list" where
  "reduce_redirect n =
     (case number (n_left n) of
        Some known \<Rightarrow> [(0, of_bool (if n_op n = ''any'' then known \<noteq> 0
          else if n_op n = ''all'' then known = graph_mask (length (n_left n))
          else native_parity known \<noteq> 0))]
      | None \<Rightarrow>
          if n_op n \<noteq> ''parity''
          then let dominant = (if n_op n = ''any'' then 1 else 0)
               in if dominant \<in> set (n_left n) then [(0, dominant)]
                  else (case remdups (removeAll (1 - dominant) (n_left n)) of
                      [b] \<Rightarrow> [(0, b)] | _ \<Rightarrow> [])
          else [])"

definition shift_redirect :: "node \<Rightarrow> gerror + (nat \<times> gbit) list" where
  "shift_redirect n =
     (case number (n_right n) of None \<Rightarrow> Inr []
      | Some amount \<Rightarrow>
          let shift = unat amount; left = n_left n
          in collect (\<lambda>offset.
               ebind (if n_op n = ''sar'' then at left (length left - 1) else Inr 0) (\<lambda>fill.
                 Inr [(offset,
                   if n_op n = ''shl''
                   then if shift \<le> offset \<and> offset - shift < length left then left ! (offset - shift) else fill
                   else if shift < length left \<and> offset < length left - shift then left ! (offset + shift)
                   else fill)])) [0..<n_width n])"

definition word_redirect :: "node \<Rightarrow> gerror + (nat \<times> gbit) list" where
  "word_redirect n =
     ebind (case (number (n_left n), number (n_right n)) of
         (Some l, Some r) \<Rightarrow>
           ebind (calculate (n_op n) l r (length (n_left n))) (\<lambda>c.
             Inr (map (\<lambda>offset. (offset, const_value c (n_width n) ! offset)) [0..<n_width n]))
       | _ \<Rightarrow> Inr [])
     (\<lambda>rs. Inr (rs @ (if n_op n = ''eq'' \<and> n_left n = n_right n then [(0, 1)] else [])))"

definition word_slice_redirect :: "node \<Rightarrow> (nat \<times> gbit) list" where
  "word_slice_redirect n =
     (case number (n_right n) of None \<Rightarrow> []
      | Some start \<Rightarrow>
          if n_width n \<le> length (n_left n)
          then map (\<lambda>offset. (offset,
                 if unat start \<le> length (n_left n) - n_width n then n_left n ! (unat start + offset) else 0))
               [0..<n_width n]
          else [])"

definition redirects :: "node \<Rightarrow> gerror + (nat \<times> gbit) list" where
  "redirects n =
     (if n_op n = ''word_slice'' then Inr (word_slice_redirect n)
      else if hostEffect n \<or> validation n \<or> take 3 (n_op n) = ''fp_'' \<or> n_op n = ''memory_read'' \<or>
        n_op n = ''blackbox'' then Inr []
      else if n_op n = ''mux'' \<or> n_op n = ''and'' \<or> n_op n = ''or'' \<or> n_op n = ''xor''
      then collect (lane_redirect n) [0..<n_width n]
      else if n_op n = ''any'' \<or> n_op n = ''all'' \<or> n_op n = ''parity'' then Inr (reduce_redirect n)
      else if n_op n = ''shl'' \<or> n_op n = ''shr'' \<or> n_op n = ''sar'' then shift_redirect n
      else if n_right n \<noteq> [] then word_redirect n
      else Inr [])"

section \<open>The meaning of a node\<close>

text \<open>The operations with a word expression; any other node is an input of the graph.\<close>

definition word_ops :: "string list" where
  "word_ops = [''add'', ''sub'', ''mul'', ''div'', ''mod'', ''sdiv'', ''smod'', ''eq'', ''lt'', ''slt'']"

definition transparent :: "string \<Rightarrow> bool" where
  "transparent op \<longleftrightarrow> op = ''word_slice'' \<or> op = ''mux'' \<or> op = ''and'' \<or> op = ''or'' \<or> op = ''xor'' \<or>
     op = ''any'' \<or> op = ''all'' \<or> op = ''parity'' \<or> op = ''shl'' \<or> op = ''shr'' \<or> op = ''sar'' \<or>
     op \<in> set word_ops"

definition num_word :: "(gbit \<Rightarrow> bool) \<Rightarrow> gvalue \<Rightarrow> u64" where
  "num_word v bs = of_nat (bval v bs)"

definition slice_words :: "(gbit \<Rightarrow> bool) \<Rightarrow> gvalue \<Rightarrow> u64 list" where
  "slice_words v bs =
     map (\<lambda>j. num_word v (slice bs (int (64 * j)) (min 64 (length bs - 64 * j)))) [0..<(length bs + 63) div 64]"

definition node_word :: "(gbit \<Rightarrow> bool) \<Rightarrow> node \<Rightarrow> u64" where
  "node_word v n =
     (if n_op n = ''word_slice''
      then native_slice (slice_words v (n_left n)) (bval v (n_right n)) (n_width n) (length (n_left n))
      else native_expr (n_op n) (length (n_left n)) (length (n_right n))
             (num_word v (n_left n)) (num_word v (n_right n)) (num_word v (n_select n))) AND graph_mask (n_width n)"

text \<open>The shapes of node that the builders of the graph make.\<close>

definition node_ok :: "node \<Rightarrow> bool" where
  "node_ok n \<longleftrightarrow> 0 < n_width n \<and> n_width n \<le> 64 \<and>
     (if n_op n = ''word_slice'' then n_width n \<le> length (n_left n) \<and> length (n_right n) \<le> 64
      else if n_op n = ''mux'' \<or> n_op n = ''and'' \<or> n_op n = ''or'' \<or> n_op n = ''xor''
      then length (n_left n) = n_width n \<and> length (n_right n) = n_width n \<and>
        (n_op n = ''mux'' \<longrightarrow> length (n_select n) = 1)
      else if n_op n = ''any'' \<or> n_op n = ''all'' \<or> n_op n = ''parity'' then length (n_left n) \<le> 64
      else if n_op n = ''shl'' \<or> n_op n = ''shr'' then length (n_left n) \<le> 64 \<and> length (n_right n) \<le> 64
      else if n_op n = ''sar'' then n_left n \<noteq> [] \<and> length (n_left n) \<le> 64 \<and> length (n_right n) \<le> 64
      else if n_op n \<in> set word_ops
      then n_left n \<noteq> [] \<and> length (n_left n) \<le> 64 \<and> n_right n \<noteq> [] \<and> length (n_right n) \<le> 64 \<and>
        (n_op n = ''sdiv'' \<or> n_op n = ''smod'' \<or> n_op n = ''slt'' \<longrightarrow> length (n_left n) = length (n_right n))
      else True)"

end
