(* ===== verification/SignExt.thy ===== *)
theory SignExt
  imports Prelude
begin

text \<open>
  Sign extension by the two steps \<open>(x ^ m) - m\<close>, with \<open>m\<close> the weight of the sign bit,
  and extraction of bit fields from words.
\<close>

lemma xor_exp_int: "x XOR 2 ^ n = (if bit x n then x - 2 ^ n else x + 2 ^ n)" for x :: int
proof -
  have "x XOR 2 ^ n = flip_bit n x"
    by (simp add: flip_bit_eq_xor push_bit_eq_mult)
  then show ?thesis
    by (simp add: flip_bit_eq_if set_bit_eq unset_bit_eq)
qed

lemma xor_minus_sign:
  fixes x :: "'a :: len word"
  assumes n: "n < LENGTH('a)" and x: "uint x < 2 ^ Suc n"
  shows "(x XOR 2 ^ n) - 2 ^ n = word_of_int (signed_take_bit n (uint x))"
proof -
  have s: "uint (2 ^ n :: 'a word) = 2 ^ n"
    using n by (intro bit_eqI) (auto simp: bit_unsigned_iff bit_exp_iff)
  have "signed_take_bit n (uint x) = uint x - 2 ^ Suc n * of_bool (bit x n)"
    using x n by (simp add: signed_take_bit_eq_take_bit_minus take_bit_int_eq_self bit_unsigned_iff)
  moreover have "uint (x XOR 2 ^ n) = (if bit x n then uint x - 2 ^ n else uint x + 2 ^ n)"
    using n by (simp add: unsigned_xor_eq s xor_exp_int bit_unsigned_iff)
  ultimately have "uint (x XOR 2 ^ n) - uint (2 ^ n :: 'a word) = signed_take_bit n (uint x)"
    unfolding s by simp
  then show ?thesis
    by (metis of_int_diff word_of_int_uint)
qed

lemma bit_beyond_word: "LENGTH('a) \<le> k \<Longrightarrow> \<not> bit (x :: 'a :: len word) k"
  using bit_imp_le_length [of x k] by auto

text \<open>The step pair extends the sign of a narrower word.\<close>

lemma xor_minus_scast:
  fixes x :: "'b :: len word"
  assumes "LENGTH('b) \<le> LENGTH('a)"
  shows "((ucast x :: 'a :: len word) XOR 2 ^ (LENGTH('b) - 1)) - 2 ^ (LENGTH('b) - 1) = scast x"
proof -
  have pos: "0 < LENGTH('b)"
    by simp
  then have n: "LENGTH('b) - 1 < LENGTH('a)" "Suc (LENGTH('b) - 1) = LENGTH('b)"
    using assms by linarith+
  have u: "uint (ucast x :: 'a word) = uint x"
    using assms by (simp add: uint_up_ucast is_up)
  have "uint x < 2 ^ LENGTH('b)"
    by (rule uint_bounded)
  then have "((ucast x :: 'a word) XOR 2 ^ (LENGTH('b) - 1)) - 2 ^ (LENGTH('b) - 1) =
      word_of_int (signed_take_bit (LENGTH('b) - 1) (uint x))"
    using xor_minus_sign [OF n(1), of "ucast x"] n(2) u by simp
  also have "\<dots> = scast x"
    by (simp add: sint_uint [symmetric])
  finally show ?thesis .
qed

lemma unat_up_ucast: "LENGTH('b) \<le> LENGTH('a) \<Longrightarrow> unat (ucast (x :: 'b :: len word) :: 'a :: len word) = unat x"
proof -
  assume "LENGTH('b) \<le> LENGTH('a)"
  then have "unat x < 2 ^ LENGTH('a)"
    by (intro order_less_le_trans [OF unsigned_less [of x, where 'a = nat]] power_increasing) simp_all
  then show ?thesis
    by (simp add: unsigned_ucast_eq take_bit_nat_eq_self)
qed

lemma unat_word_less: "unat (x :: u32) < 2 ^ 32"
  using unsigned_less [of x, where 'a = nat] by simp

lemma sint_u32: "sint (x :: u32) = uint x - (if bit x 31 then 2 ^ 32 else 0)"
  using take_bit_int_eq_self [of "uint x" 32] uint_bounded [of x]
  by (simp add: sint_uint signed_take_bit_eq_take_bit_minus bit_unsigned_iff)

end
