(* ===== verification/GraphSound.thy ===== *)
theory GraphSound
  imports GraphNode SignExt
begin

text \<open>
  Soundness of the simplification of a node: constant evaluation, the redirections of
  lanes and the strength reduction keep the word that the native backend computes for it.
\<close>

lemma bit_native_sign:
  assumes "1 \<le> w" and "w \<le> 64"
  shows "bit (native_sign x w) k \<longleftrightarrow> (if k < w then bit x k else bit x (w - 1))"
proof -
  have "bit (native_sign x w) k \<longleftrightarrow> bit (sint (push_bit (64 - w) x)) (64 - w + k)"
    by (simp add: native_sign_def bit_drop_bit_eq)
  also have "\<dots> \<longleftrightarrow> bit (push_bit (64 - w) x) (if 64 - w + k < 64 then 64 - w + k else 63)"
    by (auto simp: bit_sint_iff dest: bit_imp_le_length)
  finally show ?thesis
    using assms by (auto simp: bit_push_bit_iff)
qed

lemma native_sign_take: "1 \<le> w \<Longrightarrow> w \<le> 64 \<Longrightarrow> native_sign x w = signed_take_bit (w - 1) (uint x)"
proof (rule bit_eqI)
  fix k assume w: "1 \<le> w" "w \<le> 64"
  show "bit (native_sign x w) k \<longleftrightarrow> bit (signed_take_bit (w - 1) (uint x)) k"
  proof (cases "k < w")
    case True
    then have "min k (w - 1) = k" by simp
    then show ?thesis
      using w True by (simp add: bit_native_sign bit_signed_take_bit_iff bit_unsigned_iff)
  next
    case False
    then have "min k (w - 1) = w - 1" by simp
    then show ?thesis
      using w False by (simp add: bit_native_sign bit_signed_take_bit_iff bit_unsigned_iff)
  qed
qed

lemma signedNumber_take:
  assumes "1 \<le> w" and "w \<le> 64" and "unat x < 2 ^ w"
  shows "signedNumber x w = signed_take_bit (w - 1) (uint x)"
proof (cases "w = 64")
  case True
  then show ?thesis
    by (simp add: signedNumber_def sint_uint)
next
  case False
  obtain n where w: "w = Suc n" and n: "n < 63"
    using assms False by (cases w) auto
  have x: "uint x < 2 ^ Suc n"
    using assms(3) unfolding w by (metis of_nat_less_iff of_nat_numeral of_nat_power uint_nat)
  have "(x XOR 2 ^ n) - 2 ^ n = word_of_int (signed_take_bit n (uint x))"
    using n x by (intro xor_minus_sign) simp_all
  moreover have "signed_take_bit 63 (signed_take_bit n (uint x)) = signed_take_bit n (uint x)"
    using n by (simp add: signed_take_bit_signed_take_bit min_def)
  ultimately have "sint ((x XOR 2 ^ n) - 2 ^ n) = signed_take_bit n (uint x)"
    by (simp add: signed_of_int)
  then show ?thesis
    using False by (simp add: signedNumber_def w Let_def)
qed


section \<open>Words of values\<close>

lemma bit_num_word: "bit (num_word v bs) k \<longleftrightarrow> k < 64 \<and> k < length bs \<and> v (bs ! k)"
  using bit_word_of_int_iff [of "int (bval v bs)" k, where 'a = 64]
  by (auto simp: num_word_def bit_bval bit_of_nat_iff)

lemma unat_num_word: "length bs \<le> 64 \<Longrightarrow> unat (num_word v bs) = bval v bs"
  using bval_lt [of v bs] power_increasing [of "length bs" 64 "2 :: nat"]
  by (simp add: num_word_def unat_of_nat)

lemma num_word_number: "number bs = Some x \<Longrightarrow> zero_one v \<Longrightarrow> num_word v bs = x"
  by (simp add: num_word_def bval_number)

lemma num_word_lt: "length bs \<le> 64 \<Longrightarrow> unat (num_word v bs) < 2 ^ length bs"
  by (simp add: unat_num_word bval_lt)

lemma bit_graph_mask: "bit (graph_mask w) k \<longleftrightarrow> k < 64 \<and> k < w"
proof (cases "64 \<le> w")
  case True
  then show ?thesis
    using bit_beyond_word [of k "graph_mask w"] by (auto simp: graph_mask_def bit_not_iff)
next
  case False
  have "graph_mask w = mask w"
    using False by (simp add: graph_mask_def mask_eq_exp_minus_1)
  then show ?thesis
    using False by (auto simp: bit_mask_iff)
qed

lemma native_sign_num_word:
  assumes "bs \<noteq> []" and "length bs \<le> 64"
  shows "native_sign (num_word v bs) (length bs) = signedNumber (num_word v bs) (length bs)"
proof -
  have "1 \<le> length bs"
    using assms(1) by (cases bs) simp_all
  then show ?thesis
    using native_sign_take signedNumber_take [OF _ assms(2) num_word_lt [OF assms(2)]] assms(2) by simp
qed

lemma signedNumber_eq_0:
  assumes "1 \<le> w" and "w \<le> 64" and "unat x < 2 ^ w"
  shows "signedNumber x w = 0 \<longleftrightarrow> x = 0"
proof
  assume "signedNumber x w = 0"
  then have "native_sign x w = 0"
    using assms by (simp add: native_sign_take signedNumber_take)
  then have "\<not> bit x k" if "k < w" for k
    using bit_native_sign [OF assms(1,2), of x k] that by simp
  moreover have "\<not> bit x k" if "w \<le> k" for k
    using assms(3) that bit_take_bit_iff [of w "unat x" k] by (auto simp: take_bit_nat_eq_self bit_unsigned_iff dest: bit_imp_le_length)
  ultimately show "x = 0"
    by (metis bit_0_eq bit_word_eqI bot_apply bot_bool_def not_le_imp_less)
next
  assume "x = 0"
  then show "signedNumber x w = 0"
    using assms by (simp add: signedNumber_take)
qed

lemma calculate_signed:
  "calculate ''sdiv'' l r w = Inr (if signedNumber r w = 0 then 0
    else if signedNumber l w = - (2 ^ 63) \<and> signedNumber r w = - 1 then l
    else word_of_int (signedNumber l w sdiv signedNumber r w))"
  "calculate ''smod'' l r w = Inr (if signedNumber r w = 0 then 0
    else if signedNumber l w = - (2 ^ 63) \<and> signedNumber r w = - 1 then 0
    else word_of_int (signedNumber l w smod signedNumber r w))"
  "calculate ''slt'' l r w = Inr (of_bool (signedNumber l w < signedNumber r w))"
  by (simp_all add: calculate_def Let_def)

lemma native_signed:
  "native_expr ''sdiv'' lw rw l r s = (if r = 0 then 0
    else if native_sign l lw = - (2 ^ 63) \<and> native_sign r rw = - 1 then l
    else word_of_int (native_sign l lw sdiv native_sign r rw))"
  "native_expr ''smod'' lw rw l r s = (if r = 0 then 0
    else if native_sign l lw = - (2 ^ 63) \<and> native_sign r rw = - 1 then 0
    else word_of_int (native_sign l lw smod native_sign r rw))"
  "native_expr ''slt'' lw rw l r s = of_bool (native_sign l lw < native_sign r rw)"
  by (simp_all add: native_expr_def Let_def)

lemma calculate_unsigned:
  "calculate ''add'' l r w = Inr (l + r)"
  "calculate ''sub'' l r w = Inr (l - r)"
  "calculate ''mul'' l r w = Inr (l * r)"
  "calculate ''div'' l r w = Inr (if r \<noteq> 0 then l div r else 0)"
  "calculate ''mod'' l r w = Inr (if r \<noteq> 0 then l mod r else 0)"
  "calculate ''eq'' l r w = Inr (of_bool (l = r))"
  "calculate ''lt'' l r w = Inr (of_bool (l < r))"
  by (simp_all add: calculate_def)

lemma native_unsigned:
  "native_expr ''add'' lw rw l r s = (l + r)"
  "native_expr ''sub'' lw rw l r s = (l - r)"
  "native_expr ''mul'' lw rw l r s = (l * r)"
  "native_expr ''div'' lw rw l r s = (if r \<noteq> 0 then l div r else 0)"
  "native_expr ''mod'' lw rw l r s = (if r \<noteq> 0 then l mod r else 0)"
  "native_expr ''eq'' lw rw l r s = (of_bool (l = r))"
  "native_expr ''lt'' lw rw l r s = (of_bool (l < r))"
  by (simp_all add: native_expr_def)

lemma word_op_unsigned:
  assumes "op \<in> set word_ops" and "\<not> (op = ''sdiv'' \<or> op = ''smod'' \<or> op = ''slt'')"
  shows "op = ''add'' \<or> op = ''sub'' \<or> op = ''mul'' \<or> op = ''div'' \<or> op = ''mod'' \<or> op = ''eq'' \<or> op = ''lt''"
proof -
  have "op = ''add'' \<or> op = ''sub'' \<or> op = ''mul'' \<or> op = ''div'' \<or> op = ''mod'' \<or> op = ''sdiv'' \<or> op = ''smod'' \<or>
      op = ''eq'' \<or> op = ''lt'' \<or> op = ''slt''"
    using assms(1) unfolding word_ops_def list.set insert_iff empty_iff simp_thms .
  then show ?thesis
    using assms(2) by iprover
qed

lemma calculate_native:
  assumes "op \<in> set word_ops" and "length ls \<le> 64" "ls \<noteq> []" "length rs \<le> 64" "rs \<noteq> []"
    and "op = ''sdiv'' \<or> op = ''smod'' \<or> op = ''slt'' \<Longrightarrow> length ls = length rs"
    and c: "calculate op (num_word v ls) (num_word v rs) (length ls) = Inr c"
  shows "native_expr op (length ls) (length rs) (num_word v ls) (num_word v rs) s = c"
proof (cases "op = ''sdiv'' \<or> op = ''smod'' \<or> op = ''slt''")
  case True
  then have len: "length ls = length rs"
    by (rule assms(6))
  have sgn: "native_sign (num_word v ls) (length ls) = signedNumber (num_word v ls) (length ls)"
    "native_sign (num_word v rs) (length rs) = signedNumber (num_word v rs) (length ls)"
    using native_sign_num_word [OF assms(3,2)] native_sign_num_word [OF assms(5,4)] len by simp_all
  have "1 \<le> length rs"
    using assms(5) by (cases rs) simp_all
  then have "num_word v rs = 0 \<longleftrightarrow> signedNumber (num_word v rs) (length ls) = 0"
    using assms(4) by (simp add: len signedNumber_eq_0 num_word_lt)
  then have z: "signedNumber (num_word v rs) (length ls) = 0 \<longleftrightarrow> num_word v rs = 0"
    by simp
  consider "op = ''sdiv''" | "op = ''smod''" | "op = ''slt''"
    using True by blast
  then show ?thesis
  proof cases
    case 1
    from c [unfolded 1 calculate_signed z] show ?thesis
      unfolding 1 native_signed sgn by (rule sum.inject(2) [THEN iffD1])
  next
    case 2
    from c [unfolded 2 calculate_signed z] show ?thesis
      unfolding 2 native_signed sgn by (rule sum.inject(2) [THEN iffD1])
  next
    case 3
    from c [unfolded 3 calculate_signed z] show ?thesis
      unfolding 3 native_signed sgn by (rule sum.inject(2) [THEN iffD1])
  qed
next
  case False
  consider "op = ''add''" | "op = ''sub''" | "op = ''mul''" | "op = ''div''" | "op = ''mod''" | "op = ''eq''" | "op = ''lt''"
    using word_op_unsigned [OF assms(1) False] by (elim disjE) 
  then show ?thesis
  proof cases
    case 1
    from c [unfolded 1 calculate_unsigned] show ?thesis
      unfolding 1 native_unsigned by (rule sum.inject(2) [THEN iffD1])
  next
    case 2
    from c [unfolded 2 calculate_unsigned] show ?thesis
      unfolding 2 native_unsigned by (rule sum.inject(2) [THEN iffD1])
  next
    case 3
    from c [unfolded 3 calculate_unsigned] show ?thesis
      unfolding 3 native_unsigned by (rule sum.inject(2) [THEN iffD1])
  next
    case 4
    from c [unfolded 4 calculate_unsigned] show ?thesis
      unfolding 4 native_unsigned by (rule sum.inject(2) [THEN iffD1])
  next
    case 5
    from c [unfolded 5 calculate_unsigned] show ?thesis
      unfolding 5 native_unsigned by (rule sum.inject(2) [THEN iffD1])
  next
    case 6
    from c [unfolded 6 calculate_unsigned] show ?thesis
      unfolding 6 native_unsigned by (rule sum.inject(2) [THEN iffD1])
  next
    case 7
    from c [unfolded 7 calculate_unsigned] show ?thesis
      unfolding 7 native_unsigned by (rule sum.inject(2) [THEN iffD1])
  qed
qed

section \<open>Simplification keeps the meaning\<close>

definition node_bit :: "(gbit \<Rightarrow> bool) \<Rightarrow> node \<Rightarrow> nat \<Rightarrow> bool" where
  "node_bit v n k = bit (node_word v n) k"

lemma node_bit_expr:
  "n_op n \<noteq> ''word_slice'' \<Longrightarrow> node_bit v n k \<longleftrightarrow> k < 64 \<and> k < n_width n \<and>
    bit (native_expr (n_op n) (length (n_left n)) (length (n_right n))
      (num_word v (n_left n)) (num_word v (n_right n)) (num_word v (n_select n))) k"
  by (auto simp: node_bit_def node_word_def bit_and_iff bit_graph_mask)

lemma at_Inr [simp]: "at xs i = Inr x \<longleftrightarrow> i < length xs \<and> x = xs ! i"
  by (auto simp: at_def)

lemma bval_eq_0: "bval v bs = 0 \<longleftrightarrow> (\<forall>b \<in> set bs. \<not> v b)"
  by (induction bs) auto

lemma num_word_eq_0: "length bs \<le> 64 \<Longrightarrow> num_word v bs = 0 \<longleftrightarrow> (\<forall>b \<in> set bs. \<not> v b)"
  by (metis bval_eq_0 unat_eq_0 unat_num_word)
 
lemma node_bit_lane:
  assumes "node_ok n" and "n_op n \<in> {''mux'', ''and'', ''or'', ''xor''}" and "k < n_width n"
  shows "node_bit v n k \<longleftrightarrow>
    (if n_op n = ''mux'' then if v (n_select n ! 0) then v (n_left n ! k) else v (n_right n ! k)
     else if n_op n = ''and'' then v (n_left n ! k) \<and> v (n_right n ! k)
     else if n_op n = ''or'' then v (n_left n ! k) \<or> v (n_right n ! k)
     else v (n_left n ! k) \<noteq> v (n_right n ! k))"
proof -
  have len: "length (n_left n) = n_width n" "length (n_right n) = n_width n" "k < 64" "n_width n \<le> 64"
    and sel: "n_op n = ''mux'' \<Longrightarrow> length (n_select n) = 1"
    using assms by (auto simp: node_ok_def)
  consider "n_op n = ''mux''" | "n_op n = ''and''" | "n_op n = ''or''" | "n_op n = ''xor''"
    using assms(2) by blast
  then show ?thesis
  proof cases
    case 1
    then obtain c where c: "n_select n = [c]"
      using sel by (cases "n_select n") auto
    have "num_word v (n_select n) \<noteq> 0 \<longleftrightarrow> v c"
      by (simp add: num_word_eq_0 c)
    then show ?thesis
      using 1 len assms(3) c by (simp add: node_bit_expr native_expr_def bit_num_word)
  qed (use len assms(3) in \<open>simp_all add: node_bit_expr native_expr_def bit_num_word bit_and_iff bit_or_iff bit_xor_iff\<close>)
qed

lemma lane_redirect_sound:
  assumes ok: "node_ok n" and op: "n_op n \<in> {''mux'', ''and'', ''or'', ''xor''}" and v: "zero_one v"
    and r: "lane_redirect n offset = Inr rs" "(k, b) \<in> set rs" and k: "k < n_width n"
  shows "v b \<longleftrightarrow> node_bit v n k"
proof -
  note bit = node_bit_lane [OF ok op k, of v]
  consider "n_op n = ''mux''" | "n_op n = ''and''" | "n_op n = ''or''" | "n_op n = ''xor''"
    using op by blast
  then show ?thesis
    using r v unfolding bit
    by cases (auto simp: lane_redirect_def ebind_Inr less_2_cases_iff split: if_splits)
qed

lemma num_word_graph_mask:
  assumes "length bs \<le> 64"
  shows "num_word v bs = graph_mask (length bs) \<longleftrightarrow> (\<forall>b \<in> set bs. v b)"
proof
  assume eq: "num_word v bs = graph_mask (length bs)"
  show "\<forall>b \<in> set bs. v b"
  proof
    fix b assume "b \<in> set bs"
    then obtain k where k: "k < length bs" "b = bs ! k"
      by (auto simp: in_set_conv_nth)
    have "bit (num_word v bs) k"
      using k(1) assms by (simp add: eq bit_graph_mask)
    then show "v b"
      using k by (simp add: bit_num_word)
  qed
next
  assume "\<forall>b \<in> set bs. v b"
  then show "num_word v bs = graph_mask (length bs)"
    using assms by (intro bit_word_eqI) (auto simp: bit_num_word bit_graph_mask)
qed

lemma node_bit_reduce:
  assumes "node_ok n" and "n_op n \<in> {''any'', ''all'', ''parity''}"
  shows "node_bit v n 0 \<longleftrightarrow>
    (if n_op n = ''any'' then \<exists>b \<in> set (n_left n). v b
     else if n_op n = ''all'' then \<forall>b \<in> set (n_left n). v b
     else native_parity (num_word v (n_left n)) \<noteq> 0)"
proof -
  have len: "length (n_left n) \<le> 64" "0 < n_width n"
    using assms by (auto simp: node_ok_def)
  consider "n_op n = ''any''" | "n_op n = ''all''" | "n_op n = ''parity''"
    using assms(2) by blast
  then show ?thesis
    using len by cases (auto simp: node_bit_expr native_expr_def num_word_graph_mask num_word_eq_0
        native_parity_def bit_of_bool_iff)
qed

lemma removeAll_singleton: "remdups (removeAll a xs) = [b] \<Longrightarrow> b \<in> set xs \<and> set xs \<subseteq> {a, b}"
proof -
  assume "remdups (removeAll a xs) = [b]"
  then have "set (remdups (removeAll a xs)) = {b}"
    by simp
  then have "set xs - {a} = {b}"
    by simp
  then show ?thesis
    by blast
qed

lemma reduce_redirect_sound:
  assumes ok: "node_ok n" and op: "n_op n \<in> {''any'', ''all'', ''parity''}" and v: "zero_one v"
    and r: "(k, b) \<in> set (reduce_redirect n)"
  shows "v b \<longleftrightarrow> node_bit v n k"
proof -
  have len: "length (n_left n) \<le> 64"
    using ok op by (auto simp: node_ok_def)
  have v01: "v (of_bool c) = c" for c
    using v by (cases c) auto
  have k: "k = 0"
    using r by (auto simp: reduce_redirect_def split: option.splits if_splits list.splits)
  note bit = node_bit_reduce [OF ok op, of v]
  show ?thesis
  proof (cases "number (n_left n)")
    case (Some known)
    have nw: "num_word v (n_left n) = known"
      by (rule num_word_number [OF Some v])
    show ?thesis
      using r len unfolding k bit
      by (auto simp: reduce_redirect_def Some v01 nw [symmetric] num_word_graph_mask num_word_eq_0)
  next
    case None
    from op consider "n_op n = ''any''" | "n_op n = ''all''" | "n_op n = ''parity''"
      by blast
    then show ?thesis
    proof cases
      case 1
      then show ?thesis
        using r v removeAll_singleton [of 0 "n_left n" b] unfolding k bit
        by (auto simp: reduce_redirect_def None split: if_splits list.splits)
    next
      case 2
      then show ?thesis
        using r v removeAll_singleton [of 1 "n_left n" b] unfolding k bit
        by (auto simp: reduce_redirect_def None split: if_splits list.splits)
    next
      case 3
      then show ?thesis
        using r by (simp add: reduce_redirect_def None)
    qed
  qed
qed

lemma shift_bits:
  assumes "length bs \<le> 64" and "k < 64"
  shows "bit (push_bit s (num_word v bs)) k \<longleftrightarrow> s \<le> k \<and> k - s < length bs \<and> v (bs ! (k - s))"
    and "bit (drop_bit s (num_word v bs)) k \<longleftrightarrow> s < length bs \<and> k < length bs - s \<and> v (bs ! (k + s))"
  using assms by (auto simp: bit_push_bit_iff bit_drop_bit_eq bit_num_word add.commute)

lemma sar_bits:
  assumes "length bs \<le> 64" and "bs \<noteq> []" and "k < 64"
  shows "bit (drop_bit s (native_sign (num_word v bs) (length bs))) k \<longleftrightarrow>
    v (if s < length bs \<and> k < length bs - s then bs ! (k + s) else bs ! (length bs - 1))"
proof -
  have len: "1 \<le> length bs"
    using assms(2) by (cases bs) simp_all
  show ?thesis
    using assms len
    by (auto simp: bit_drop_bit_eq bit_native_sign [OF len assms(1)] bit_num_word add.commute)
qed

lemma shift_redirect_sound:
  assumes ok: "node_ok n" and op: "n_op n \<in> {''shl'', ''shr'', ''sar''}" and v: "zero_one v"
    and r: "shift_redirect n = Inr rs" "(k, b) \<in> set rs" and k: "k < n_width n"
  shows "v b \<longleftrightarrow> node_bit v n k"
proof (cases "number (n_right n)")
  case None
  then show ?thesis
    using r by (simp add: shift_redirect_def)
next
  case (Some amount)
  have nw: "num_word v (n_right n) = amount"
    by (rule num_word_number [OF Some v])
  have len: "length (n_left n) \<le> 64" "k < 64"
    using ok op k by (auto simp: node_ok_def)
  have small: "amount < 64 \<longleftrightarrow> unat amount < 64"
    by (simp add: word_less_nat_alt)
  consider "n_op n = ''shl''" | "n_op n = ''shr''" | "n_op n = ''sar''"
    using op by blast
  then show ?thesis
  proof cases
    case 1
    have "b = (if unat amount \<le> k \<and> k - unat amount < length (n_left n) then n_left n ! (k - unat amount) else 0)"
      using collect_set [OF r(1) [unfolded shift_redirect_def Some option.case Let_def] r(2)]
      by (auto simp: 1)
    then show ?thesis
      using 1 len v k by (auto simp: node_bit_expr native_expr_def nw shift_bits small)
  next
    case 2
    have "b = (if unat amount < length (n_left n) \<and> k < length (n_left n) - unat amount then n_left n ! (k + unat amount) else 0)"
      using collect_set [OF r(1) [unfolded shift_redirect_def Some option.case Let_def] r(2)]
      by (auto simp: 2)
    then show ?thesis
      using 2 len v k by (auto simp: node_bit_expr native_expr_def nw shift_bits small)
  next
    case 3
    have ne: "n_left n \<noteq> []"
      using ok by (simp add: node_ok_def 3)
    have "b = (if unat amount < length (n_left n) \<and> k < length (n_left n) - unat amount
        then n_left n ! (k + unat amount) else n_left n ! (length (n_left n) - 1))"
      using collect_set [OF r(1) [unfolded shift_redirect_def Some option.case Let_def] r(2)]
      by (auto simp: 3 ebind_Inr)
    moreover have "node_bit v n k \<longleftrightarrow>
        bit (drop_bit (if unat amount < 64 then unat amount else 63) (native_sign (num_word v (n_left n)) (length (n_left n)))) k"
      using 3 len k by (simp add: node_bit_expr native_expr_def nw small bit_word_of_int_iff)
    moreover have "k + 63 < length (n_left n) \<Longrightarrow> k + 63 = length (n_left n) - 1"
      using len by simp
    ultimately show ?thesis
      using len ne by (auto simp: sar_bits)
  qed
qed

lemma word_op_not:
  assumes "op \<in> set word_ops"
  shows "op \<noteq> ''word_slice'' \<and> op \<noteq> ''mux'' \<and> op \<noteq> ''and'' \<and> op \<noteq> ''or'' \<and> op \<noteq> ''xor'' \<and> op \<noteq> ''any'' \<and>
    op \<noteq> ''all'' \<and> op \<noteq> ''parity'' \<and> op \<noteq> ''shl'' \<and> op \<noteq> ''shr'' \<and> op \<noteq> ''sar''"
  using assms by (auto simp: word_ops_def)

lemma word_redirect_sound:
  assumes ok: "node_ok n" and op: "n_op n \<in> set word_ops" and v: "zero_one v"
    and r: "word_redirect n = Inr rs" "(k, b) \<in> set rs" and k: "k < n_width n"
  shows "v b \<longleftrightarrow> node_bit v n k"
proof -
  have slice: "n_op n \<noteq> ''word_slice''"
    using op by (auto simp: word_ops_def)
  have shape: "n_left n \<noteq> []" "length (n_left n) \<le> 64" "n_right n \<noteq> []" "length (n_right n) \<le> 64"
    "n_op n = ''sdiv'' \<or> n_op n = ''smod'' \<or> n_op n = ''slt'' \<Longrightarrow> length (n_left n) = length (n_right n)" "n_width n \<le> 64"
    using ok op word_op_not [OF op] by (simp_all add: node_ok_def)
  have v01: "v (of_bool c) = c" for c
    using v by (cases c) auto
  from r(1) obtain cs where cs: "(case (number (n_left n), number (n_right n)) of
         (Some l, Some r) \<Rightarrow>
           ebind (calculate (n_op n) l r (length (n_left n))) (\<lambda>c.
             Inr (map (\<lambda>offset. (offset, const_value c (n_width n) ! offset)) [0..<n_width n]))
       | _ \<Rightarrow> Inr []) = Inr cs"
    and rs: "rs = cs @ (if n_op n = ''eq'' \<and> n_left n = n_right n then [(0, 1)] else [])"
    by (auto simp: word_redirect_def ebind_Inr)
  show ?thesis
  proof (cases "(k, b) \<in> set cs")
    case True
    then obtain l m c where l: "number (n_left n) = Some l" and m: "number (n_right n) = Some m"
      and c: "calculate (n_op n) l m (length (n_left n)) = Inr c" and b: "b = const_value c (n_width n) ! k"
      using cs by (auto simp: ebind_Inr split: option.splits)
    have "native_expr (n_op n) (length (n_left n)) (length (n_right n)) (num_word v (n_left n)) (num_word v (n_right n))
        (num_word v (n_select n)) = c"
      by (rule calculate_native [OF op shape(2,1,4,3)])
        (use shape(5) c num_word_number [OF l v] num_word_number [OF m v] in simp_all)
    then show ?thesis
      using slice k shape(6) v01 by (simp add: node_bit_expr b const_value_nth)
  next
    case False
    then have "k = 0" "b = 1" "n_op n = ''eq''" "n_left n = n_right n"
      using r(2) rs by (auto split: if_splits)
    then show ?thesis
      using v k by (simp add: node_bit_expr native_expr_def)
  qed
qed

lemma slice_words_bit:
  assumes "64 * j < length bs" and "k < 64"
  shows "bit (slice_words v bs ! j) k \<longleftrightarrow> 64 * j + k < length bs \<and> v (bs ! (64 * j + k))"
proof -
  have j: "j < (length bs + 63) div 64"
    using assms(1) by (simp add: less_eq_div_iff_mult_less_eq Suc_le_eq [symmetric])
  let ?w = "min 64 (length bs - 64 * j)"
  have "k < ?w \<longleftrightarrow> 64 * j + k < length bs"
    using assms by auto
  moreover have "k < ?w \<Longrightarrow> slice bs (int (64 * j)) ?w ! k = bs ! (64 * j + k)"
    using assms slice_nth [of k ?w bs "64 * j"] by auto
  ultimately show ?thesis
    using j assms(2) by (auto simp: slice_words_def bit_num_word)
qed

lemma native_slice_bit:
  assumes w: "0 < w" "w \<le> 64" and fits: "start + w \<le> length bs" and k: "k < w"
  shows "bit (native_slice (slice_words v bs) start w (length bs)) k \<longleftrightarrow> v (bs ! (start + k))"
proof -
  define q r where "q = start div 64" and "r = start mod 64"
  have qr: "start = 64 * q + r" "r < 64"
    by (simp_all add: q_def r_def)
  have k64: "k < 64"
    using k w by simp
  have len: "length (slice_words v bs) = (length bs + 63) div 64"
    by (simp add: slice_words_def)
  have lo: "bit (drop_bit r (slice_words v bs ! q)) k \<longleftrightarrow> r + k < 64 \<and> v (bs ! (start + k))"
  proof (cases "r + k < 64")
    case True
    then show ?thesis
      using slice_words_bit [of q bs "r + k" v] fits w k qr by (simp add: bit_drop_bit_eq add.assoc)
  next
    case False
    then show ?thesis
      using bit_beyond_word [where 'a = 64, of "r + k"] by (simp add: bit_drop_bit_eq)
  qed
  have hi: "bit (push_bit (64 - r) (slice_words v bs ! (q + 1))) k \<longleftrightarrow> 64 \<le> r + k \<and> v (bs ! (start + k))"
    if "r \<noteq> 0" "q + 1 < (length bs + 63) div 64"
  proof (cases "64 \<le> r + k")
    case True
    then have "64 * (q + 1) + (k - (64 - r)) = start + k"
      using qr by simp
    moreover have "k - (64 - r) < 64" "64 * (q + 1) < length bs"
      using True k64 fits k qr by simp_all
    ultimately show ?thesis
      using slice_words_bit [of "q + 1" bs "k - (64 - r)" v] True k64 fits k qr
      by (auto simp: bit_push_bit_iff add_ac)
  next
    case False
    then show ?thesis
      by (auto simp: bit_push_bit_iff)
  qed
  have no: "r + k < 64" if "\<not> (r \<noteq> 0 \<and> q + 1 < (length bs + 63) div 64)"
  proof (rule ccontr)
    assume "\<not> r + k < 64"
    then have "64 * (q + 2) \<le> length bs + 63" "r \<noteq> 0"
      using fits k qr k64 by simp_all
    then show False
      using that by (simp add: less_eq_div_iff_mult_less_eq Suc_le_eq [symmetric])
  qed
  have "\<not> length bs - w < start"
    using fits by simp
  moreover have "bit (push_bit w 1 - 1 :: u64) k" if "w \<noteq> 64"
    using that k w bit_graph_mask [of w k] by (simp add: graph_mask_def)
  ultimately show ?thesis
    using lo hi no k k64 unfolding native_slice_def Let_def q_def [symmetric] r_def [symmetric] len
    by (cases "r \<noteq> 0 \<and> q + 1 < (length bs + 63) div 64") (auto simp: bit_and_iff bit_or_iff)
qed

lemma word_slice_redirect_sound:
  assumes ok: "node_ok n" and op: "n_op n = ''word_slice''" and v: "zero_one v"
    and r: "(k, b) \<in> set (word_slice_redirect n)" and k: "k < n_width n"
  shows "v b \<longleftrightarrow> node_bit v n k"
proof -
  have shape: "n_width n \<le> length (n_left n)" "0 < n_width n" "n_width n \<le> 64" "k < 64"
    using ok op k by (auto simp: node_ok_def)
  obtain start where start: "number (n_right n) = Some start"
    and b: "b = (if unat start \<le> length (n_left n) - n_width n then n_left n ! (unat start + k) else 0)"
    using r by (cases "number (n_right n)") (auto simp: word_slice_redirect_def split: if_splits)
  have "bval v (n_right n) = unat start"
    by (rule bval_number [OF start v])
  then have bit: "node_bit v n k \<longleftrightarrow>
      bit (native_slice (slice_words v (n_left n)) (unat start) (n_width n) (length (n_left n))) k"
    using shape k by (simp add: node_bit_def node_word_def op bit_and_iff bit_graph_mask)
  show ?thesis
  proof (cases "unat start \<le> length (n_left n) - n_width n")
    case True
    then show ?thesis
      using native_slice_bit [of "n_width n" "unat start" "n_left n" k v] shape k b bit by simp
  next
    case False
    then have "native_slice (slice_words v (n_left n)) (unat start) (n_width n) (length (n_left n)) = 0"
      by (simp add: native_slice_def)
    then show ?thesis
      using b v False bit by simp
  qed
qed

text \<open>Every redirection a simplification makes agrees with the meaning of the node.\<close>

lemma redirects_sound:
  assumes ok: "node_ok n" and op: "transparent (n_op n)" and v: "zero_one v"
    and r: "redirects n = Inr rs" "(k, b) \<in> set rs" and k: "k < n_width n"
  shows "v b \<longleftrightarrow> node_bit v n k"
proof -
  consider (slice) "n_op n = ''word_slice''" | (lane) "n_op n \<in> {''mux'', ''and'', ''or'', ''xor''}"
    | (reduce) "n_op n \<in> {''any'', ''all'', ''parity''}" | (shift) "n_op n \<in> {''shl'', ''shr'', ''sar''}"
    | (wd) "n_op n \<in> set word_ops"
    using op unfolding transparent_def by fast
  then show ?thesis
  proof cases
    case slice
    then show ?thesis
      using r by (intro word_slice_redirect_sound [OF ok slice v _ k]) (simp add: redirects_def)
  next
    case lane
    then have "redirects n = collect (lane_redirect n) [0..<n_width n]"
      by (auto simp: redirects_def hostEffect_def validation_def)
    then obtain offset zs where "lane_redirect n offset = Inr zs" "(k, b) \<in> set zs"
      using collect_set r by metis
    then show ?thesis
      by (rule lane_redirect_sound [OF ok lane v _ _ k])
  next
    case reduce
    then have "redirects n = Inr (reduce_redirect n)"
      by (auto simp: redirects_def hostEffect_def validation_def)
    then show ?thesis
      using r by (intro reduce_redirect_sound [OF ok reduce v]) simp
  next
    case shift
    then have "redirects n = shift_redirect n"
      by (auto simp: redirects_def hostEffect_def validation_def)
    then show ?thesis
      using r by (intro shift_redirect_sound [OF ok shift v _ _ k]) simp_all
  next
    case wd
    have "n_right n \<noteq> []"
      using ok wd word_op_not [OF wd] by (simp add: node_ok_def)
    moreover have "\<not> hostEffect n \<and> \<not> validation n \<and> take 3 (n_op n) \<noteq> ''fp_'' \<and> n_op n \<noteq> ''memory_read'' \<and> n_op n \<noteq> ''blackbox''"
      using wd by (auto simp: word_ops_def hostEffect_def validation_def)
    ultimately have "redirects n = word_redirect n"
      using word_op_not [OF wd] by (simp add: redirects_def)
    then show ?thesis
      using r by (intro word_redirect_sound [OF ok wd v _ _ k]) simp_all
  qed
qed

section \<open>Strength reduction keeps the meaning\<close>

lemma power_loop_Some: "power_loop bs i (Some x) = Some y \<Longrightarrow> y = x \<and> set bs \<subseteq> {0}"
  by (induction bs i "Some x" rule: power_loop.induct) (auto split: if_splits)

lemma power_loop_None:
  "power_loop bs i None = Some (p, e) \<Longrightarrow> \<not> v 0 \<Longrightarrow>
    i \<le> p \<and> p - i < length bs \<and> bval v bs = of_bool (v e) * 2 ^ (p - i)"
proof (induction bs arbitrary: i)
  case (Cons b bs)
  show ?case
  proof (cases "b = 0")
    case True
    then have "power_loop bs (i + 1) None = Some (p, e)"
      using Cons.prems(1) by simp
    then have IH: "i + 1 \<le> p \<and> p - (i + 1) < length bs \<and> bval v bs = of_bool (v e) * 2 ^ (p - (i + 1))"
      using Cons by blast
    then have "p - i = Suc (p - (i + 1))"
      by auto
    then show ?thesis
      using IH True Cons.prems(2) by simp
  next
    case False
    then have "power_loop bs (i + 1) (Some (i, b)) = Some (p, e)"
      using Cons.prems(1) by simp
    then have "(p, e) = (i, b) \<and> set bs \<subseteq> {0}"
      by (rule power_loop_Some)
    moreover from this have "bval v bs = 0"
      using Cons.prems(2) by (auto simp: bval_eq_0)
    ultimately show ?thesis
      by simp
  qed
qed simp

lemma num_word_power:
  assumes "power_of bs = Some (s, e)" and "\<not> v 0"
  shows "s < length bs" and "num_word v bs = (if v e then 2 ^ s else 0)"
  using power_loop_None [of bs 0 s e v] assms by (simp_all add: power_of_def num_word_def)

lemma power_bits:
  assumes "s < 64" and "\<not> v 0" and "length bs \<le> 64" and "k < w" and "k < 64"
  shows "bit (num_word v bs div 2 ^ s) k \<longleftrightarrow> v (power_wiring ''div'' w bs s ! k)"
    and "bit (num_word v bs mod 2 ^ s) k \<longleftrightarrow> v (power_wiring ''mod'' w bs s ! k)"
    and "bit (num_word v bs * 2 ^ s) k \<longleftrightarrow> v (power_wiring ''mul'' w bs s ! k)"
  using assms
  by (auto simp: power_wiring_def bit_num_word shift_bits bit_take_bit_iff
      simp flip: drop_bit_eq_div take_bit_eq_mod push_bit_eq_mult)

lemma rewrite_power_sound:
  assumes ok: "node_ok n" and v: "zero_one v"
  shows "node_ok (rewrite_power n)" and "n_width (rewrite_power n) = n_width n"
    and "transparent (n_op n) \<Longrightarrow> transparent (n_op (rewrite_power n))"
    and "k < n_width n \<Longrightarrow> node_bit v (rewrite_power n) k \<longleftrightarrow> node_bit v n k"
proof -
  define operand where "operand = (if power_of (n_right n) = None \<and> n_op n = ''mul'' then n_right n else n_left n)"
  define other where "other = (if power_of (n_right n) = None \<and> n_op n = ''mul'' then n_left n else n_right n)"
  have form: "rewrite_power n =
     (if n_op n = ''div'' \<or> n_op n = ''mod'' \<or> n_op n = ''mul''
      then case power_of other of None \<Rightarrow> n
         | Some (shift, enable) \<Rightarrow>
             n\<lparr>n_op := ''and'', n_left := power_wiring (n_op n) (n_width n) operand shift,
               n_right := replicate (n_width n) enable, n_select := []\<rparr>
      else n)"
    by (cases "power_of (n_right n) = None \<and> n_op n = ''mul''")
      (simp_all only: rewrite_power_def operand_def other_def Let_def prod.case if_True if_False simp_thms)
  have "rewrite_power n = n \<or> (\<exists>s e. rewrite_power n =
      n\<lparr>n_op := ''and'', n_left := power_wiring (n_op n) (n_width n) operand s,
        n_right := replicate (n_width n) e, n_select := []\<rparr>)"
    unfolding form by (simp only: split: if_split option.split prod.split) blast
  moreover have "0 < n_width n" "n_width n \<le> 64"
    using ok by (simp_all only: node_ok_def)
  moreover have "length (power_wiring (n_op n) (n_width n) operand s) = n_width n" for s
    by (simp add: power_wiring_def)
  ultimately show "node_ok (rewrite_power n)" "n_width (rewrite_power n) = n_width n"
    "transparent (n_op n) \<Longrightarrow> transparent (n_op (rewrite_power n))"
    using ok by (elim disjE exE; simp add: node_ok_def transparent_def)+
  assume k: "k < n_width n"
  show "node_bit v (rewrite_power n) k \<longleftrightarrow> node_bit v n k"
  proof (cases "n_op n = ''div'' \<or> n_op n = ''mod'' \<or> n_op n = ''mul''")
    case True
    show ?thesis
    proof (cases "power_of other")
      case None
      then show ?thesis
        by (simp add: form)
    next
      case (Some p)
      obtain s e where p: "p = (s, e)"
        by (cases p)
      note pw = num_word_power [OF Some [unfolded p], of v]
      have len: "length (n_left n) \<le> 64" "length (n_right n) \<le> 64" "k < 64"
        using True ok k by (auto simp: node_ok_def word_ops_def)
      then have s: "s < 64" and lo: "length operand \<le> 64"
        using pw(1) v by (auto simp: other_def operand_def split: if_splits)
      let ?m = "n\<lparr>n_op := ''and'', n_left := power_wiring (n_op n) (n_width n) operand s,
               n_right := replicate (n_width n) e, n_select := []\<rparr>"
      have m: "rewrite_power n = ?m"
        using True by (simp add: form Some p)
      have "node_ok ?m"
        using ok by (simp add: node_ok_def power_wiring_def)
      then have new: "node_bit v ?m k \<longleftrightarrow> v (power_wiring (n_op n) (n_width n) operand s ! k) \<and> v e"
        using node_bit_lane [of ?m k v] k by simp
      note bits = power_bits [OF s _ lo k len(3), of v]
      have two: "(2 :: u64) ^ s \<noteq> 0"
        using s by simp
      show ?thesis
      proof (cases "n_op n = ''mul''")
        case True
        have "num_word v (n_left n) * num_word v (n_right n) = num_word v operand * num_word v other"
          by (simp add: operand_def other_def mult.commute)
        then have "node_bit v n k \<longleftrightarrow> bit (num_word v operand * num_word v other) k"
          using k len(3) by (simp add: node_bit_expr True native_unsigned)
        then show ?thesis
          using bits(3) pw(2) v unfolding m new unfolding True by (cases "v e") simp_all
      next
        case False
        then have o: "other = n_right n" "operand = n_left n"
          by (simp_all add: other_def operand_def)
        have "n_op n = ''div'' \<or> n_op n = ''mod''"
          using True False by simp
        then show ?thesis
        proof
          assume op: "n_op n = ''div''"
          show ?thesis
            using bits(1) pw(2) v two k len(3) unfolding m new
            by (cases "v e") (simp_all add: op o node_bit_expr native_unsigned)
        next
          assume op: "n_op n = ''mod''"
          show ?thesis
            using bits(2) pw(2) v two k len(3) unfolding m new
            by (cases "v e") (simp_all add: op o node_bit_expr native_unsigned)
        qed
      qed
    qed
  next
    case False
    then show ?thesis
      by (simp add: form)
  qed
qed
end
