(* ===== verification/Graph.thy ===== *)
theory Graph
  imports GraphSound "HOL-Library.Finite_Map"
begin

text \<open>
  The class \<open>Graph\<close> of \<open>src/include/cpphdl_graph.h\<close>: its state, the resolution of aliases with
  path compression, the simplification of a node and of the whole graph, and the sharing of equal
  nodes. A valuation of the bits is a model of a graph when both ends of every alias agree and every
  node that computes its value does; the passes are proved to keep the models.
\<close>

section \<open>The graph\<close>

datatype contract = ExplicitEvents | RisingEdgeStep | NamedEdges

record gport =
  port_name :: string
  port_bits :: gvalue
  port_input :: bool

record gstate =
  state_bits :: gvalue
  state_next :: gvalue
  state_trigger :: gvalue
  state_clock :: int
  state_falling :: bool
  state_reset :: gvalue
  state_resetValue :: gvalue

record gclock =
  clock_name :: string
  clock_frequency :: nat

record gmemory =
  memory_name :: string
  memory_width :: nat
  memory_depth :: nat
  memory_contents :: "u64 list"

record gaccess =
  access_memory :: nat
  access_address :: gvalue
  access_enabled :: gvalue
  access_transaction :: bool
  access_clock :: int
  access_falling :: bool

record gwrite =
  write_memory :: nat
  write_address :: gvalue
  write_data :: gvalue
  write_enabled :: gvalue
  write_clock :: int
  write_falling :: bool

record graph =
  g_contract :: contract
  g_clocks :: "gclock list"
  g_nodes :: "node list"
  g_aliases :: "(gbit, gbit) fmap"
  g_ports :: "gport list"
  g_states :: "gstate list"
  g_memories :: "gmemory list"
  g_accesses :: "gaccess list"
  g_writes :: "gwrite list"
  g_scope :: string

text \<open>The owner and the lane of a bit, and the bit of a lane of a node.\<close>

definition owner :: "gbit \<Rightarrow> nat" where
  "owner b = (b - 2) div 64 - 1"

definition lane :: "gbit \<Rightarrow> nat" where
  "lane b = (b - 2) mod 64"

definition lane_bit :: "nat \<Rightarrow> nat \<Rightarrow> gbit" where
  "lane_bit i k = (i + 1) * 64 + 2 + k"

lemma owner_lane: "k < 64 \<Longrightarrow> owner (lane_bit i k) = i" "k < 64 \<Longrightarrow> lane (lane_bit i k) = k"
proof -
  assume k: "k < 64"
  have "lane_bit i k - 2 = (i + 1) * 64 + k"
    by (simp add: lane_bit_def)
  then show "owner (lane_bit i k) = i" "lane (lane_bit i k) = k"
    using k unfolding owner_def lane_def by (simp_all only: div_mult_self3 mod_mult_self3) simp_all
qed

text \<open>State passing: a computation on the graph gives a value and the new graph, or throws.\<close>

type_synonym 'a gcomp = "graph \<Rightarrow> gerror + 'a \<times> graph"

definition gret :: "'a \<Rightarrow> 'a gcomp" where
  "gret x g = Inr (x, g)"

definition gthrow :: "gerror \<Rightarrow> 'a gcomp" where
  "gthrow e g = Inl e"

definition gbind :: "'a gcomp \<Rightarrow> ('a \<Rightarrow> 'b gcomp) \<Rightarrow> 'b gcomp" where
  "gbind m f g = (case m g of Inl e \<Rightarrow> Inl e | Inr (x, g') \<Rightarrow> f x g')"

definition glift :: "gerror + 'a \<Rightarrow> 'a gcomp" where
  "glift r g = (case r of Inl e \<Rightarrow> Inl e | Inr x \<Rightarrow> Inr (x, g))"

fun gmap :: "('a \<Rightarrow> 'b gcomp) \<Rightarrow> 'a list \<Rightarrow> 'b list gcomp" where
  "gmap f [] = gret []"
| "gmap f (x # xs) = gbind (f x) (\<lambda>y. gbind (gmap f xs) (\<lambda>ys. gret (y # ys)))"

section \<open>Aliases\<close>

function (sequential) resolve_loop :: "(gbit, gbit) fmap \<Rightarrow> gbit \<Rightarrow> gbit list \<Rightarrow> gerror + gbit \<times> gbit list" where
  "resolve_loop al cursor path =
     (case fmlookup al cursor of
        None \<Rightarrow> Inr (cursor, path)
      | Some b \<Rightarrow> if cursor \<in> set path then Inl (Runtime_error ''cyclic wire alias'')
                  else resolve_loop al b (path @ [cursor]))"
  by pat_completeness auto
termination
proof (relation "measure (\<lambda>(al, c, path). card (fmdom' al - set path))")
  fix al :: "(gbit, gbit) fmap" and cursor :: gbit and path :: "gbit list" and b :: gbit
  assume step: "fmlookup al cursor = Some b" "cursor \<notin> set path"
  have "fmdom' al - set (path @ [cursor]) \<subset> fmdom' al - set path"
    using step fmdom'I [OF step(1)] by auto
  then have "card (fmdom' al - set (path @ [cursor])) < card (fmdom' al - set path)"
    by (intro psubset_card_mono finite_Diff finite_fmdom')
  then show "((al, b, path @ [cursor]), al, cursor, path) \<in> measure (\<lambda>(al, c, path). card (fmdom' al - set path))"
    unfolding in_measure prod.case .
qed (rule wf_measure)

declare resolve_loop.simps [simp del]

lemma resolve_loop_cases:
  "fmlookup al c = None \<Longrightarrow> resolve_loop al c path = Inr (c, path)"
  "fmlookup al c = Some b \<Longrightarrow> c \<notin> set path \<Longrightarrow> resolve_loop al c path = resolve_loop al b (path @ [c])"
  "fmlookup al c = Some b \<Longrightarrow> resolve_loop al c path = Inr q \<Longrightarrow> c \<notin> set path \<and> resolve_loop al b (path @ [c]) = Inr q"
  by (simp_all add: resolve_loop.simps [of al c path] split: if_splits)

definition resolve :: "gbit \<Rightarrow> gbit gcomp" where
  "resolve b g =
     (case resolve_loop (g_aliases g) b [] of
        Inl e \<Rightarrow> Inl e
      | Inr (cursor, path) \<Rightarrow>
          Inr (cursor, g\<lparr>g_aliases := fold (\<lambda>entry. fmupd entry cursor) path (g_aliases g)\<rparr>))"

definition resolved :: "gvalue \<Rightarrow> gvalue gcomp" where
  "resolved = gmap resolve"

text \<open>A valuation that gives both ends of every alias the same value.\<close>

definition agrees :: "(gbit, gbit) fmap \<Rightarrow> (gbit \<Rightarrow> bool) \<Rightarrow> bool" where
  "agrees al v \<longleftrightarrow> (\<forall>a b. fmlookup al a = Some b \<longrightarrow> v a = v b)"

text \<open>Alias chains that descend in a rank, so that none is cyclic.\<close>

definition ranked :: "(gbit \<Rightarrow> nat) \<Rightarrow> (gbit, gbit) fmap \<Rightarrow> bool" where
  "ranked r al \<longleftrightarrow> (\<forall>a b. fmlookup al a = Some b \<longrightarrow> r b < r a)"

lemma fmlookup_fold_upd:
  "fmlookup (fold (\<lambda>e. fmupd e c) path al) a = (if a \<in> set path then Some c else fmlookup al a)"
  by (induction path arbitrary: al) auto

text \<open>The path collected on the way: each entry leads to another one or to the end.\<close>

lemma resolve_loop_path:
  assumes "resolve_loop al c path = Inr (d, p)"
    and "\<forall>e \<in> set path. \<exists>n. fmlookup al e = Some n \<and> (n \<in> set path \<or> n = c)"
  shows "fmlookup al d = None \<and> (c = d \<or> c \<in> set p) \<and> set path \<subseteq> set p \<and>
    (\<forall>e \<in> set p. \<exists>n. fmlookup al e = Some n \<and> (n \<in> set p \<or> n = d))"
  using assms
proof (induction al c path arbitrary: d p rule: resolve_loop.induct)
  case (1 al c path)
  show ?case
  proof (cases "fmlookup al c")
    case None
    then show ?thesis
      using 1(2,3) by (simp add: resolve_loop_cases(1))
  next
    case (Some b)
    then have c: "c \<notin> set path" and nxt: "resolve_loop al b (path @ [c]) = Inr (d, p)"
      using resolve_loop_cases(3) [OF Some 1(2)] by simp_all
    have "\<forall>e \<in> set (path @ [c]). \<exists>n. fmlookup al e = Some n \<and> (n \<in> set (path @ [c]) \<or> n = b)"
      using 1(3) Some by auto
    from 1(1) [OF Some c nxt this] show ?thesis
      by auto
  qed
qed

lemma resolve_loop_value:
  assumes "resolve_loop al c path = Inr (d, p)" and "agrees al v" and "\<forall>e \<in> set path. v e = v c"
  shows "v d = v c \<and> (\<forall>e \<in> set p. v e = v d)"
  using assms
proof (induction al c path arbitrary: d p rule: resolve_loop.induct)
  case (1 al c path)
  show ?case
  proof (cases "fmlookup al c")
    case None
    then show ?thesis
      using 1(2,4) by (simp add: resolve_loop_cases(1))
  next
    case (Some b)
    then have c: "c \<notin> set path" and nxt: "resolve_loop al b (path @ [c]) = Inr (d, p)"
      using resolve_loop_cases(3) [OF Some 1(2)] by simp_all
    have "v c = v b"
      using 1(3) Some by (auto simp: agrees_def)
    then have "\<forall>e \<in> set (path @ [c]). v e = v b"
      using 1(4) by (metis Un_iff empty_iff empty_set insert_iff list.set(2) set_append)
    from 1(1) [OF Some c nxt 1(3) this] show ?thesis
      using \<open>v c = v b\<close> by iprover
  qed
qed

lemma resolve_loop_rank:
  assumes "resolve_loop al c path = r" and "ranked rk al" and "\<forall>e \<in> set path. rk c < rk e"
  shows "\<exists>d p. r = Inr (d, p) \<and> rk d \<le> rk c \<and> (\<forall>e \<in> set p. rk d < rk e)"
  using assms
proof (induction al c path arbitrary: r rule: resolve_loop.induct)
  case (1 al c path)
  show ?case
  proof (cases "fmlookup al c")
    case None
    then show ?thesis
      using 1(2,4) resolve_loop_cases(1) [OF None, of path] by (intro exI [of _ c] exI [of _ path]) simp
  next
    case (Some b)
    then have c: "c \<notin> set path" and less: "rk b < rk c"
      using 1(3,4) by (auto simp: ranked_def)
    then have nxt: "resolve_loop al b (path @ [c]) = r"
      using 1(2) resolve_loop_cases(2) [OF Some] by simp
    have "\<forall>e \<in> set (path @ [c]). rk b < rk e"
      using 1(4) less by auto
    from 1(1) [OF Some c nxt 1(3) this] show ?thesis
      using less by auto
  qed
qed

lemma resolve_loop_bound:
  assumes "resolve_loop al c path = Inr (d, p)" and "\<forall>a b. fmlookup al a = Some b \<longrightarrow> b < N"
  shows "d = c \<and> p = path \<or> d < N"
  using assms
proof (induction al c path arbitrary: d p rule: resolve_loop.induct)
  case (1 al c path)
  show ?case
  proof (cases "fmlookup al c")
    case None
    then show ?thesis
      using 1(2) by (simp add: resolve_loop_cases(1))
  next
    case (Some b)
    then have c: "c \<notin> set path" and nxt: "resolve_loop al b (path @ [c]) = Inr (d, p)"
      using resolve_loop_cases(3) [OF Some 1(2)] by simp_all
    have "d = b \<and> p = path @ [c] \<or> d < N"
      by (rule 1(1) [OF Some c nxt 1(3)])
    then show ?thesis
      using 1(3) Some by auto
  qed
qed

text \<open>Alias maps that differ only in how chains are compressed.\<close>

definition below :: "nat \<Rightarrow> (gbit, gbit) fmap \<Rightarrow> bool" where
  "below N al \<longleftrightarrow> (\<forall>a b. fmlookup al a = Some b \<longrightarrow> b < N)"

definition same_aliases :: "(gbit, gbit) fmap \<Rightarrow> (gbit, gbit) fmap \<Rightarrow> bool" where
  "same_aliases al bl \<longleftrightarrow> fmdom' bl = fmdom' al \<and> agrees bl = agrees al \<and>
     (\<forall>r. ranked r al \<longrightarrow> ranked r bl) \<and> (\<forall>N. below N al \<longrightarrow> below N bl)"

lemma same_aliases_refl: "same_aliases al al"
  by (simp add: same_aliases_def)

lemma same_aliases_trans: "same_aliases al bl \<Longrightarrow> same_aliases bl cl \<Longrightarrow> same_aliases al cl"
  unfolding same_aliases_def by (elim conjE, intro conjI) (simp, simp, blast, blast)

lemma resolve_loop_same:
  assumes p: "resolve_loop al b [] = Inr (d, p)"
  shows "same_aliases al (fold (\<lambda>entry. fmupd entry d) p al)"
proof -
  define bl where "bl = fold (\<lambda>entry. fmupd entry d) p al"
  have lookup: "fmlookup bl a = (if a \<in> set p then Some d else fmlookup al a)" for a
    by (simp add: bl_def fmlookup_fold_upd)
  have path: "fmlookup al d = None" "\<And>e. e \<in> set p \<Longrightarrow> \<exists>n. fmlookup al e = Some n \<and> (n \<in> set p \<or> n = d)"
    using resolve_loop_path [OF p] by simp_all
  have agree: "agrees bl v \<longleftrightarrow> agrees al v" for v
  proof
    assume bl: "agrees bl v"
    have on: "v e = v d" if "e \<in> set p" for e
      using bl lookup that by (auto simp: agrees_def)
    have "v x = v y" if xy: "fmlookup al x = Some y" for x y
    proof (cases "x \<in> set p")
      case True
      then have "y \<in> set p \<or> y = d"
        using path(2) xy by fastforce
      then show ?thesis
        using True on by metis
    next
      case False
      then show ?thesis
        using bl lookup xy by (simp add: agrees_def)
    qed
    then show "agrees al v"
      by (simp add: agrees_def)
  next
    assume al: "agrees al v"
    have "v e = v d" if "e \<in> set p" for e
      using resolve_loop_value [OF p al] that by simp
    then show "agrees bl v"
      using al lookup by (simp add: agrees_def)
  qed
  have dom: "fmdom' bl = fmdom' al"
  proof (rule set_eqI)
    fix x
    show "x \<in> fmdom' bl \<longleftrightarrow> x \<in> fmdom' al"
      using path(2) [of x] by (cases "x \<in> set p") (auto simp: fmlookup_dom'_iff lookup)
  qed
  have rank: "ranked r bl" if "ranked r al" for r
  proof -
    have "\<forall>e \<in> set p. r d < r e"
      using resolve_loop_rank [OF p that] by auto
    then show ?thesis
      using that lookup by (simp add: ranked_def)
  qed
  have bound: "below N bl" if "below N al" for N
    using resolve_loop_bound [OF p that [unfolded below_def]] that by (auto simp: below_def lookup)
  show ?thesis
    unfolding bl_def [symmetric] same_aliases_def using dom agree rank bound by auto
qed

section \<open>Simplification\<close>

text \<open>\<open>simplifyNode\<close>: the rewritten node and the redirections in the order of the callbacks.\<close>

definition simplifyNode :: "node \<Rightarrow> (node \<times> (nat \<times> gbit) list) gcomp" where
  "simplifyNode n =
     gbind (resolved (n_left n)) (\<lambda>left. gbind (resolved (n_right n)) (\<lambda>right. gbind (resolved (n_select n)) (\<lambda>select.
       let n' = rewrite_power (n\<lparr>n_left := left, n_right := right, n_select := select\<rparr>)
       in gbind (glift (redirects n')) (\<lambda>rs. gret (n', rs)))))"

text \<open>The callback of \<open>simplify\<close>: the first redirection of a lane that has none becomes its alias.\<close>

fun redirect_lanes :: "nat \<Rightarrow> (nat \<times> gbit) list \<Rightarrow> (gbit, gbit) fmap \<Rightarrow> (gbit, gbit) fmap \<times> bool" where
  "redirect_lanes index [] al = (al, False)"
| "redirect_lanes index ((offset, b) # rs) al =
     (let target = lane_bit index offset in
      if fmlookup al target = None \<and> target \<noteq> b
      then (fst (redirect_lanes index rs (fmupd target b al)), True)
      else redirect_lanes index rs al)"

definition simplify :: "nat \<Rightarrow> bool gcomp" where
  "simplify index g =
     (if index < length (g_nodes g)
      then gbind (simplifyNode (g_nodes g ! index)) (\<lambda>(n', rs) g.
        let (al, changed) = redirect_lanes index rs (g_aliases g)
        in gret changed (g\<lparr>g_nodes := (g_nodes g)[index := n'], g_aliases := al\<rparr>)) g
      else Inl (Undefined_behaviour ''node index''))"

definition simplifyLast :: "gvalue \<Rightarrow> unit gcomp" where
  "simplifyLast value =
     gbind (gmap simplify (sorted_list_of_set (owner ` {b \<in> set value. 1 < b}))) (\<lambda>_. gret ())"

section \<open>The meaning of a graph\<close>

text \<open>
  Nodes that compute a function of their operands: the transparent ones by their word expression,
  any other one but inputs, states, wires, host effects and validations by an interpretation of
  its operation, which is the same for the same operation, name (of a black box) and operand values.
\<close>

definition computes :: "string \<Rightarrow> bool" where
  "computes op \<longleftrightarrow> op \<noteq> ''wire'' \<and> op \<noteq> ''input'' \<and> op \<noteq> ''state'' \<and>
     op \<noteq> ''host_random'' \<and> op \<noteq> ''host_jtag_tick'' \<and> op \<noteq> ''host_debug_tick'' \<and> op \<noteq> ''assert_failure''"

type_synonym interp = "string \<times> string \<times> string \<times> nat \<Rightarrow> bool list \<times> bool list \<times> bool list \<Rightarrow> nat \<Rightarrow> bool"

definition lane_value :: "interp \<Rightarrow> (gbit \<Rightarrow> bool) \<Rightarrow> node \<Rightarrow> nat \<Rightarrow> bool" where
  "lane_value F v n k =
     (if transparent (n_op n) then node_bit v n k
      else F (n_scope n, n_op n, if n_op n = ''blackbox'' then n_name n else [], n_width n)
        (map v (n_left n), map v (n_right n), map v (n_select n)) k)"

definition model :: "interp \<Rightarrow> graph \<Rightarrow> (gbit \<Rightarrow> bool) \<Rightarrow> bool" where
  "model F g v \<longleftrightarrow> zero_one v \<and> agrees (g_aliases g) v \<and>
     (\<forall>i < length (g_nodes g). \<forall>k < n_width (g_nodes g ! i).
        computes (n_op (g_nodes g ! i)) \<longrightarrow> v (lane_bit i k) = lane_value F v (g_nodes g ! i) k)"

text \<open>The nodes have the shapes of their operations.\<close>

definition shaped :: "graph \<Rightarrow> bool" where
  "shaped g \<longleftrightarrow> (\<forall>n \<in> set (g_nodes g). transparent (n_op n) \<longrightarrow> node_ok n)"

section \<open>Resolving keeps the meaning\<close>

text \<open>Graphs that differ only in how their aliases are compressed.\<close>

definition compressed :: "graph \<Rightarrow> graph \<Rightarrow> bool" where
  "compressed g g' \<longleftrightarrow> g' = g\<lparr>g_aliases := g_aliases g'\<rparr> \<and> same_aliases (g_aliases g) (g_aliases g')"

lemma compressed_refl: "compressed g g"
  by (simp add: compressed_def same_aliases_refl)

lemma compressed_fields:
  assumes "compressed g g'"
  shows "g_nodes g' = g_nodes g" "g_scope g' = g_scope g" "g_memories g' = g_memories g" "agrees (g_aliases g') = agrees (g_aliases g)"
    "same_aliases (g_aliases g) (g_aliases g')"
proof -
  obtain al where "g' = g\<lparr>g_aliases := al\<rparr>"
    using assms unfolding compressed_def by blast
  then show "g_nodes g' = g_nodes g" "g_scope g' = g_scope g" "g_memories g' = g_memories g"
    by simp_all
qed (use assms in \<open>simp_all add: compressed_def same_aliases_def\<close>)

lemma compressed_trans:
  assumes "compressed g h" and "compressed h k"
  shows "compressed g k"
proof -
  obtain al bl where "h = g\<lparr>g_aliases := al\<rparr>" "k = h\<lparr>g_aliases := bl\<rparr>"
    using assms unfolding compressed_def by blast
  then have "k = g\<lparr>g_aliases := g_aliases k\<rparr>"
    by simp
  then show ?thesis
    using same_aliases_trans [OF compressed_fields(5) [OF assms(1)] compressed_fields(5) [OF assms(2)]]
    by (simp only: compressed_def simp_thms)
qed

lemma compressed_model: "compressed g g' \<Longrightarrow> model F g' v \<longleftrightarrow> model F g v"
  by (simp add: model_def compressed_fields)

lemma resolve_compressed: "resolve b g = Inr (d, g') \<Longrightarrow> compressed g g'"
  using resolve_loop_same [of "g_aliases g" b d] by (auto simp: resolve_def compressed_def split: sum.splits)

lemma resolve_value: "resolve b g = Inr (d, g') \<Longrightarrow> agrees (g_aliases g) v \<Longrightarrow> v d = v b"
  using resolve_loop_value [of "g_aliases g" b "[]" d _ v] by (auto simp: resolve_def split: sum.splits)

lemma gbind_Inr: "gbind m f g = Inr r \<longleftrightarrow> (\<exists>x g1. m g = Inr (x, g1) \<and> f x g1 = Inr r)"
  by (auto simp: gbind_def split: sum.splits)

lemma gret_Inr [simp]: "gret x g = Inr r \<longleftrightarrow> r = (x, g)"
  by (auto simp: gret_def)

lemma glift_Inr [simp]: "glift r g = Inr q \<longleftrightarrow> (\<exists>x. r = Inr x \<and> q = (x, g))"
  by (auto simp: glift_def split: sum.splits)

lemma resolved_facts:
  assumes "resolved bs g = Inr (ds, g')"
  shows "compressed g g' \<and> length ds = length bs \<and> (\<forall>v. agrees (g_aliases g) v \<longrightarrow> map v ds = map v bs)"
  using assms unfolding resolved_def
proof (induction bs arbitrary: ds g)
  case Nil
  then show ?case
    by (simp add: compressed_refl)
next
  case (Cons b bs)
  then obtain d es g1 where d: "resolve b g = Inr (d, g1)" and es: "gmap resolve bs g1 = Inr (es, g')" and ds: "ds = d # es"
    by (auto simp: gbind_Inr)
  have "compressed g g1"
    by (rule resolve_compressed [OF d])
  then have g1: "compressed g g1" "agrees (g_aliases g1) = agrees (g_aliases g)"
    by (simp_all add: compressed_fields)
  have IH: "compressed g1 g'" "length es = length bs" "agrees (g_aliases g1) v \<Longrightarrow> map v es = map v bs" for v
    using Cons.IH [OF es] by blast+
  have "map v ds = map v (b # bs)" if "agrees (g_aliases g) v" for v
    using IH(3) resolve_value [OF d that] that g1(2) by (simp add: ds)
  then show ?case
    using compressed_trans [OF g1(1) IH(1)] IH(2) by (simp add: ds)
qed

section \<open>Simplifying keeps the meaning\<close>

lemma bval_cong: "map v bs = map w cs \<Longrightarrow> bval v bs = bval w cs"
proof (induction bs arbitrary: cs)
  case (Cons b bs)
  then show ?case
    by (cases cs) auto
qed simp

lemma num_word_cong: "map v bs = map w cs \<Longrightarrow> num_word v bs = num_word w cs"
  unfolding num_word_def using bval_cong by metis

lemma map_slice: "\<not> v 0 \<Longrightarrow> map v (slice bs off w) =
    map (\<lambda>i. 0 \<le> off + int i \<and> nat (off + int i) < length bs \<and> v (bs ! nat (off + int i))) [0..<w]"
  by (auto simp: slice_def)

lemma slice_words_cong:
  assumes "map v bs = map w cs" and "\<not> v 0" and "\<not> w 0"
  shows "slice_words v bs = slice_words w cs"
proof -
  have len: "length bs = length cs"
    using assms(1) by (metis length_map)
  have nth: "v (bs ! i) = w (cs ! i)" if "i < length bs" for i
    using assms(1) that len by (metis nth_map)
  have m: "map v (slice bs off n) = map w (slice cs off n)" for off n
    unfolding map_slice [of v, OF assms(2)] map_slice [of w, OF assms(3)] by (intro map_cong refl) (metis len nth)
  show ?thesis
    unfolding slice_words_def len by (intro map_cong refl num_word_cong m)
qed

text \<open>The value of a node depends only on the values of its operands.\<close>

lemma lane_value_cong:
  assumes "map v (n_left n) = map w (n_left m)" and "map v (n_right n) = map w (n_right m)" and "map v (n_select n) = map w (n_select m)"
    and "n_op n = n_op m" and "n_width n = n_width m" and "n_name n = n_name m" and "n_scope n = n_scope m"
    and "\<not> v 0" and "\<not> w 0"
  shows "lane_value F v n k = lane_value F w m k"
proof -
  have len: "length (n_left n) = length (n_left m)" "length (n_right n) = length (n_right m)"
    using assms(1,2) by (metis length_map)+
  have "node_word v n = node_word w m"
    unfolding node_word_def assms(4,5) num_word_cong [OF assms(1)] num_word_cong [OF assms(2)] num_word_cong [OF assms(3)]
      slice_words_cong [OF assms(1,8,9)] bval_cong [OF assms(2)] len ..
  then show ?thesis
    unfolding lane_value_def node_bit_def assms(1-7) by (simp only:)
qed

lemma node_ok_cong:
  assumes "length (n_left m) = length (n_left n)" and "length (n_right m) = length (n_right n)"
    and "length (n_select m) = length (n_select n)" and "n_op m = n_op n" and "n_width m = n_width n"
  shows "node_ok m = node_ok n"
proof -
  have "n_left m = [] \<longleftrightarrow> n_left n = []" "n_right m = [] \<longleftrightarrow> n_right n = []"
    using assms(1,2) by auto
  then show ?thesis
    unfolding node_ok_def assms by (simp only:)
qed

lemma calculate_opaque: "\<not> transparent op \<Longrightarrow> calculate op l r w \<noteq> Inr c"
  by (simp add: transparent_def word_ops_def calculate_def)

lemma redirects_opaque:
  assumes "\<not> transparent (n_op n)" and "redirects n = Inr rs"
  shows "rs = []"
proof -
  have "redirects n = Inr [] \<or> redirects n = word_redirect n"
    using assms(1) by (simp add: redirects_def transparent_def)
  moreover have "rs = []" if "word_redirect n = Inr rs"
    using that assms(1) calculate_opaque [OF assms(1)]
    by (auto simp: word_redirect_def ebind_Inr transparent_def word_ops_def split: option.splits)
  ultimately show ?thesis
    using assms(2) by auto
qed

lemma collect_range:
  assumes "collect f [0..<w] = Inr rs" and "(k, b) \<in> set rs" and "\<And>i zs k b. f i = Inr zs \<Longrightarrow> (k, b) \<in> set zs \<Longrightarrow> k = i"
  shows "k < w"
  using collect_set [OF assms(1,2)] assms(3) by fastforce

lemma redirects_range:
  assumes ok: "node_ok n" and r: "redirects n = Inr rs" "(k, b) \<in> set rs"
  shows "k < n_width n"
proof -
  have w: "0 < n_width n"
    using ok by (simp add: node_ok_def)
  have lane: "\<And>i zs k b. lane_redirect n i = Inr zs \<Longrightarrow> (k, b) \<in> set zs \<Longrightarrow> k = i"
    by (auto simp: lane_redirect_def ebind_Inr split: if_splits)
  have slice: "(k, b) \<in> set (word_slice_redirect n) \<Longrightarrow> k < n_width n"
    by (auto simp: word_slice_redirect_def split: option.splits if_splits)
  have reduce: "(k, b) \<in> set (reduce_redirect n) \<Longrightarrow> k < n_width n"
    using w by (auto simp: reduce_redirect_def split: option.splits if_splits list.splits)
  have shift: "shift_redirect n = Inr rs \<Longrightarrow> k < n_width n"
  proof (cases "number (n_right n)")
    case (Some amount)
    assume "shift_redirect n = Inr rs"
    from this [unfolded shift_redirect_def Some option.case Let_def] r(2) show ?thesis
      by (rule collect_range) (auto simp: ebind_Inr)
  qed (use r(2) in \<open>simp add: shift_redirect_def\<close>)
  have word: "word_redirect n = Inr rs \<Longrightarrow> k < n_width n"
    using r(2) w by (auto simp: word_redirect_def ebind_Inr split: option.splits if_splits)
  show ?thesis
    using r lane slice reduce shift word unfolding redirects_def
    by (auto split: if_splits intro: collect_range)
qed

lemma simplifyNode_facts:
  assumes s: "simplifyNode n g = Inr ((n', rs), g')" and shape: "transparent (n_op n) \<longrightarrow> node_ok n"
  shows "compressed g g'" and "n_width n' = n_width n" and "computes (n_op n') = computes (n_op n)"
    and "transparent (n_op n') \<Longrightarrow> node_ok n'"
    and "zero_one v \<Longrightarrow> agrees (g_aliases g) v \<Longrightarrow> k < n_width n \<Longrightarrow> lane_value F v n' k = lane_value F v n k"
    and "zero_one v \<Longrightarrow> agrees (g_aliases g) v \<Longrightarrow> (k, b) \<in> set rs \<Longrightarrow> transparent (n_op n) \<and> k < n_width n \<and> v b = lane_value F v n k"
    and "\<exists>left right select. length left = length (n_left n) \<and> length right = length (n_right n) \<and> length select = length (n_select n) \<and>
      n' = rewrite_power (n\<lparr>n_left := left, n_right := right, n_select := select\<rparr>)"
proof -
  obtain left g1 right g2 select g3 where
    left: "resolved (n_left n) g = Inr (left, g1)" and right: "resolved (n_right n) g1 = Inr (right, g2)" and
    select: "resolved (n_select n) g2 = Inr (select, g3)" and g': "g' = g3" and
    n': "n' = rewrite_power (n\<lparr>n_left := left, n_right := right, n_select := select\<rparr>)" and rs: "redirects n' = Inr rs"
    using s unfolding simplifyNode_def gbind_Inr Let_def glift_Inr gret_Inr by blast
  define m where "m = n\<lparr>n_left := left, n_right := right, n_select := select\<rparr>"
  have n'm: "n' = rewrite_power m"
    by (simp add: n' m_def)
  note fl = resolved_facts [OF left] and fr = resolved_facts [OF right] and fs = resolved_facts [OF select]
  have c1: "compressed g g1" "compressed g g2"
    using fl fr compressed_trans by blast+
  show "compressed g g'"
    using c1(2) fs compressed_trans g' by blast
  have agree: "agrees (g_aliases g1) = agrees (g_aliases g)" "agrees (g_aliases g2) = agrees (g_aliases g)"
    using compressed_fields(4) c1 by blast+
  have maps: "map v left = map v (n_left n)" "map v right = map v (n_right n)" "map v select = map v (n_select n)"
    if "agrees (g_aliases g) v" for v
    using fl fr fs that agree by simp_all
  have len: "length left = length (n_left n)" "length right = length (n_right n)" "length select = length (n_select n)"
    using fl fr fs by simp_all
  then show "\<exists>left right select. length left = length (n_left n) \<and> length right = length (n_right n) \<and> length select = length (n_select n) \<and>
      n' = rewrite_power (n\<lparr>n_left := left, n_right := right, n_select := select\<rparr>)"
    using n' by blast
  have m: "n_op m = n_op n" "n_width m = n_width n" "n_name m = n_name n" "n_scope m = n_scope n"
    by (simp_all add: m_def)
  have okm: "node_ok m \<longleftrightarrow> node_ok n"
    by (rule node_ok_cong) (simp_all add: m_def len)
  have mval: "lane_value F v m k = lane_value F v n k" if "zero_one v" "agrees (g_aliases g) v" for v k F
    using maps [OF that(2)] that(1) by (intro lane_value_cong) (simp_all add: m_def)
  have opaque: "n' = m" if "\<not> transparent (n_op n)"
    using that by (simp add: n'm m rewrite_power_def transparent_def word_ops_def)
  have "n_width n' = n_width n \<and> computes (n_op n') = computes (n_op n) \<and> (transparent (n_op n') \<longrightarrow> transparent (n_op n) \<and> node_ok n') \<and>
      (transparent (n_op n) \<longrightarrow> transparent (n_op n'))"
  proof (cases "transparent (n_op n)")
    case True
    then have ok: "node_ok m"
      using shape okm by simp
    have c: "computes op" if "transparent op" for op
      using that by (auto simp: transparent_def word_ops_def computes_def)
    have "transparent (n_op n')"
    proof (cases "n_op m = ''div'' \<or> n_op m = ''mod'' \<or> n_op m = ''mul''")
      case T: True
      then have "n_op n' = n_op m \<or> n_op n' = ''and''"
        unfolding n'm rewrite_power_def Let_def by (simp split: prod.split option.split)
      then show ?thesis
        using True m by (auto simp: transparent_def)
    next
      case False
      then have "n' = m"
        by (simp add: n'm rewrite_power_def)
      then show ?thesis
        using True m by simp
    qed
    then show ?thesis
      using True m c ok rewrite_power_sound(1,2) [OF ok, of "\<lambda>b. b = 1"] by (simp add: n'm)
  next
    case False
    then show ?thesis
      using opaque m by simp
  qed
  then have wd: "n_width n' = n_width n" and comp: "computes (n_op n') = computes (n_op n)"
    and okn: "transparent (n_op n') \<Longrightarrow> node_ok n'" and transp: "transparent (n_op n') = transparent (n_op n)"
    by blast+
  then show "n_width n' = n_width n" "computes (n_op n') = computes (n_op n)" "transparent (n_op n') \<Longrightarrow> node_ok n'"
    by blast+
  have val: "lane_value F v n' k = lane_value F v n k" if v: "zero_one v" "agrees (g_aliases g) v" and k: "k < n_width n" for v k F
  proof (cases "transparent (n_op n)")
    case True
    then have ok: "node_ok m"
      using shape okm by simp
    have "node_bit v n' k = node_bit v m k"
      unfolding n'm using rewrite_power_sound(4) [OF ok v(1)] k m by simp
    then have "lane_value F v n' k = lane_value F v m k"
      using True transp m by (simp add: lane_value_def)
    then show ?thesis
      using mval [OF v] by simp
  next
    case False
    then show ?thesis
      using opaque mval [OF v] by simp
  qed
  then show "zero_one v \<Longrightarrow> agrees (g_aliases g) v \<Longrightarrow> k < n_width n \<Longrightarrow> lane_value F v n' k = lane_value F v n k"
    by blast
  show "zero_one v \<Longrightarrow> agrees (g_aliases g) v \<Longrightarrow> (k, b) \<in> set rs \<Longrightarrow> transparent (n_op n) \<and> k < n_width n \<and> v b = lane_value F v n k"
  proof (cases "transparent (n_op n)")
    case True
    assume v: "zero_one v" "agrees (g_aliases g) v" and kb: "(k, b) \<in> set rs"
    have ok: "node_ok n'"
      using okn transp True by simp
    have k: "k < n_width n'"
      by (rule redirects_range [OF ok rs kb])
    then have "v b = node_bit v n' k"
      using redirects_sound [OF ok _ v(1) rs kb] transp True by simp
    then show ?thesis
      using val [OF v, of k F] k wd transp True by (simp add: lane_value_def)
  next
    case False
    assume "(k, b) \<in> set rs"
    then show ?thesis
      using redirects_opaque [OF _ rs] transp False by simp
  qed
qed

text \<open>The aliases a callback adds.\<close>

lemma redirect_lanes_facts:
  assumes "redirect_lanes i rs al = (al', changed)"
  shows "\<And>a b. fmlookup al a = Some b \<Longrightarrow> fmlookup al' a = Some b"
    and "\<And>a b. fmlookup al' a = Some b \<Longrightarrow> fmlookup al a = Some b \<or> (\<exists>k. a = lane_bit i k \<and> (k, b) \<in> set rs \<and> fmlookup al a = None)"
    and "\<not> changed \<Longrightarrow> al' = al"
proof -
  have "(\<forall>a b. fmlookup al a = Some b \<longrightarrow> fmlookup al' a = Some b) \<and>
    (\<forall>a b. fmlookup al' a = Some b \<longrightarrow> fmlookup al a = Some b \<or> (\<exists>k. a = lane_bit i k \<and> (k, b) \<in> set rs \<and> fmlookup al a = None)) \<and>
    (\<not> changed \<longrightarrow> al' = al)"
    using assms
  proof (induction i rs al arbitrary: al' changed rule: redirect_lanes.induct)
    case (1 index al)
    then show ?case by simp
  next
    case (2 index offset b rs al)
    show ?case
    proof (cases "fmlookup al (lane_bit index offset) = None \<and> lane_bit index offset \<noteq> b")
      case True
      obtain bl c where bl: "redirect_lanes index rs (fmupd (lane_bit index offset) b al) = (bl, c)"
        by (cases "redirect_lanes index rs (fmupd (lane_bit index offset) b al)")
      have "al' = bl" "changed"
        using 2(3) True bl by (simp_all add: Let_def)
      then show ?thesis
        using 2(1) [OF refl True bl] True by (auto split: if_splits) (metis fmupd_lookup option.inject option.simps(3))+
    next
      case False
      then have "redirect_lanes index rs al = (al', changed)"
        using 2(3) by (simp only: redirect_lanes.simps Let_def if_False)
      note IH = 2(2) [OF refl False this]
      show ?thesis
      proof (intro conjI allI impI)
        fix a c
        assume "fmlookup al' a = Some c"
        then show "fmlookup al a = Some c \<or> (\<exists>k. a = lane_bit index k \<and> (k, c) \<in> set ((offset, b) # rs) \<and> fmlookup al a = None)"
          using IH by (metis list.set_intros(2))
      qed (use IH in simp_all)
    qed
  qed
  then show "\<And>a b. fmlookup al a = Some b \<Longrightarrow> fmlookup al' a = Some b"
    "\<And>a b. fmlookup al' a = Some b \<Longrightarrow> fmlookup al a = Some b \<or> (\<exists>k. a = lane_bit i k \<and> (k, b) \<in> set rs \<and> fmlookup al a = None)"
    "\<not> changed \<Longrightarrow> al' = al"
    by blast+
qed
section \<open>Simplifying a graph keeps its models\<close>

text \<open>A pass that keeps the models and the shapes of a graph, and its nodes' number.\<close>

definition keeps :: "graph \<Rightarrow> graph \<Rightarrow> bool" where
  "keeps g g' \<longleftrightarrow> length (g_nodes g') = length (g_nodes g) \<and> shaped g' \<and> (\<forall>F v. model F g' v \<longleftrightarrow> model F g v)"

lemma keeps_trans: "keeps g h \<Longrightarrow> keeps h k \<Longrightarrow> keeps g k"
  by (simp add: keeps_def)

lemma compressed_keeps:
  assumes "compressed g g'" and "shaped g"
  shows "keeps g g'"
  using assms by (simp add: keeps_def compressed_model shaped_def compressed_fields)

lemma model_update:
  assumes "i < length (g_nodes g)" and "n_width n' = n_width (g_nodes g ! i)"
    and "computes (n_op n') = computes (n_op (g_nodes g ! i))"
    and "zero_one v \<Longrightarrow> agrees al v \<Longrightarrow> agrees (g_aliases g) v"
    and "model F g v \<Longrightarrow> agrees al v"
    and "\<And>k. zero_one v \<Longrightarrow> agrees (g_aliases g) v \<Longrightarrow> k < n_width n' \<Longrightarrow> lane_value F v n' k = lane_value F v (g_nodes g ! i) k"
  shows "model F (g\<lparr>g_nodes := (g_nodes g)[i := n'], g_aliases := al\<rparr>) v \<longleftrightarrow> model F g v"
proof (cases "zero_one v \<and> agrees (g_aliases g) v \<and> agrees al v")
  case True
  have "(j < length (g_nodes g) \<longrightarrow> (\<forall>k < n_width ((g_nodes g)[i := n'] ! j). computes (n_op ((g_nodes g)[i := n'] ! j)) \<longrightarrow>
      v (lane_bit j k) = lane_value F v ((g_nodes g)[i := n'] ! j) k)) \<longleftrightarrow>
    (j < length (g_nodes g) \<longrightarrow> (\<forall>k < n_width (g_nodes g ! j). computes (n_op (g_nodes g ! j)) \<longrightarrow>
      v (lane_bit j k) = lane_value F v (g_nodes g ! j) k))" for j
    using True assms(1-3,6) by (cases "j = i") simp_all
  then show ?thesis
    using True by (simp add: model_def)
next
  case False
  then show ?thesis
    using assms(4,5) by (auto simp: model_def)
qed

lemma simplify_keeps:
  assumes s: "simplify i g = Inr (changed, g')" and shape: "shaped g"
  shows "keeps g g'"
proof -
  have i: "i < length (g_nodes g)"
    using s by (auto simp: simplify_def split: if_splits)
  define n where "n = g_nodes g ! i"
  obtain n' rs g1 where n1: "simplifyNode n g = Inr ((n', rs), g1)"
    and rest: "(let (al, changed) = redirect_lanes i rs (g_aliases g1)
        in gret changed (g1\<lparr>g_nodes := (g_nodes g1)[i := n'], g_aliases := al\<rparr>)) = Inr (changed, g')"
    using s i unfolding simplify_def n_def by (auto simp: gbind_Inr)
  obtain al where al: "redirect_lanes i rs (g_aliases g1) = (al, changed)" and g': "g' = g1\<lparr>g_nodes := (g_nodes g1)[i := n'], g_aliases := al\<rparr>"
    using rest by (cases "redirect_lanes i rs (g_aliases g1)") auto
  have ok: "transparent (n_op n) \<longrightarrow> node_ok n"
    using shape i by (auto simp: shaped_def n_def)
  note f = simplifyNode_facts [OF n1 ok]
  note r = redirect_lanes_facts [OF al]
  have n1: "g_nodes g1 = g_nodes g"
    using f(1) by (rule compressed_fields)
  have agree: "agrees (g_aliases g1) = agrees (g_aliases g)"
    using f(1) by (rule compressed_fields)
  have "keeps g1 g'"
    unfolding keeps_def
  proof (intro conjI allI)
    show "length (g_nodes g') = length (g_nodes g1)"
      by (simp add: g')
    show "shaped g'"
      unfolding shaped_def
    proof (intro ballI impI)
      fix m
      assume m: "m \<in> set (g_nodes g')" "transparent (n_op m)"
      then have "m = n' \<or> m \<in> set (g_nodes g)"
        using set_update_subset_insert [of "g_nodes g" i n'] by (auto simp: g' n1)
      then show "node_ok m"
        using f(4) m(2) shape by (auto simp: shaped_def)
    qed
    fix F v
    show "model F g' v \<longleftrightarrow> model F g1 v"
      unfolding g'
    proof (rule model_update)
      show "i < length (g_nodes g1)" "n_width n' = n_width (g_nodes g1 ! i)"
        "computes (n_op n') = computes (n_op (g_nodes g1 ! i))"
        using i f(2,3) by (simp_all add: n1 n_def)
      show "agrees al v \<Longrightarrow> agrees (g_aliases g1) v"
        using r(1) by (simp add: agrees_def)
      show "lane_value F v n' k = lane_value F v (g_nodes g1 ! i) k"
        if "zero_one v" "agrees (g_aliases g1) v" "k < n_width n'" for k
        using f(5) [of v k F] that f(2) by (simp add: n1 n_def agree)
      assume m: "model F g1 v"
      then have v: "zero_one v" "agrees (g_aliases g) v" "agrees (g_aliases g1) v"
        by (simp_all add: model_def agree)
      have "v a = v b" if ab: "fmlookup al a = Some b" for a b
      proof -
        consider "fmlookup (g_aliases g1) a = Some b" | k where "a = lane_bit i k" "(k, b) \<in> set rs"
          using r(2) [OF ab] by blast
        then show ?thesis
        proof cases
          case 1
          then show ?thesis
            using v(3) by (simp add: agrees_def)
        next
          case 2
          note kb = f(6) [OF v(1,2) 2(2), of F]
          have "computes (n_op n)"
            using kb by (auto simp: transparent_def word_ops_def computes_def)
          then show ?thesis
            using m kb i 2(1) by (simp add: model_def n1 n_def)
        qed
      qed
      then show "agrees al v"
        by (simp add: agrees_def)
    qed
  qed
  then show ?thesis
    using keeps_trans compressed_keeps [OF f(1) shape] by blast
qed

end
