(* ===== verification/GraphOptimize.thy ===== *)
theory GraphOptimize
  imports Graph
begin

text \<open>
  \<open>optimize\<close> of the class \<open>Graph\<close>: simplification until nothing changes, at most 100 times,
  and the sharing of nodes with equal keys. The keys of nodes are injective, and every optimization
  keeps exactly the models of the graph.
\<close>

section \<open>Optimization\<close>

fun nat_string :: "nat \<Rightarrow> string" where
  "nat_string n = (if n < 10 then [char_of (48 + n)] else nat_string (n div 10) @ [char_of (48 + n mod 10)])"

declare nat_string.simps [simp del]

function optimize_rounds :: "nat \<Rightarrow> unit gcomp" where
  "optimize_rounds pass =
     (if pass < 100
      then gbind (\<lambda>g. gmap simplify [0..<length (g_nodes g)] g) (\<lambda>changed.
        if \<not> list_ex (\<lambda>c. c) changed then gret ()
        else if pass = 99 then gthrow (Runtime_error ''graph simplification did not converge'')
        else optimize_rounds (pass + 1))
      else gret ())"
  by pat_completeness auto
termination
  by (relation "measure (\<lambda>pass. 100 - pass)") auto

declare optimize_rounds.simps [simp del]

definition key_bits :: "gvalue \<Rightarrow> string" where
  "key_bits value = concat (map (\<lambda>bit. nat_string bit @ '','') value)"

definition node_key :: "node \<Rightarrow> string" where
  "node_key n =
     n_scope n @ '':'' @ n_op n @ '':'' @ nat_string (n_width n) @ (if n_op n = ''blackbox'' then '':'' @ n_name n else []) @
     ''/'' @ key_bits (n_left n) @ ''/'' @ key_bits (n_right n) @ ''/'' @ key_bits (n_select n)"

definition shareable :: "node \<Rightarrow> bool" where
  "shareable n \<longleftrightarrow> \<not> (n_op n = ''wire'' \<or> n_op n = ''input'' \<or> n_op n = ''state'' \<or> hostEffect n \<or> validation n)"

fun share_lanes :: "nat \<Rightarrow> nat \<Rightarrow> nat list \<Rightarrow> (gbit, gbit) fmap \<Rightarrow> (gbit, gbit) fmap" where
  "share_lanes index entry [] al = al"
| "share_lanes index entry (offset # os) al =
     share_lanes index entry os
       (if fmlookup al (lane_bit index offset) = None then fmupd (lane_bit index offset) (lane_bit entry offset) al else al)"

fun share_nodes :: "nat list \<Rightarrow> (string, nat) fmap \<Rightarrow> unit gcomp" where
  "share_nodes [] shared = gret ()"
| "share_nodes (index # is) shared = (\<lambda>g.
     let n = g_nodes g ! index in
     if \<not> shareable n then share_nodes is shared g
     else gbind (resolved (n_left n)) (\<lambda>left. gbind (resolved (n_right n)) (\<lambda>right. gbind (resolved (n_select n)) (\<lambda>select g.
       let n' = n\<lparr>n_left := left, n_right := right, n_select := select\<rparr>;
           g' = g\<lparr>g_nodes := (g_nodes g)[index := n']\<rparr>
       in case fmlookup shared (node_key n') of
            None \<Rightarrow> share_nodes is (fmupd (node_key n') index shared) g'
          | Some entry \<Rightarrow>
              share_nodes is shared (g'\<lparr>g_aliases := share_lanes index entry [0..<n_width n'] (g_aliases g')\<rparr>)))) g)"

definition optimize :: "unit gcomp" where
  "optimize = gbind (optimize_rounds 0) (\<lambda>_ g. share_nodes [0..<length (g_nodes g)] fmempty g)"

section \<open>Equal keys are equal nodes\<close>

lemma split_first: "xs @ c # ys = us @ c # vs \<Longrightarrow> c \<notin> set xs \<Longrightarrow> c \<notin> set us \<Longrightarrow> xs = us \<and> ys = vs"
  by (auto simp: append_eq_append_conv2 append_eq_Cons_conv Cons_eq_append_conv)

lemma split_last: "xs @ c # ys = us @ c # vs \<Longrightarrow> c \<notin> set ys \<Longrightarrow> c \<notin> set vs \<Longrightarrow> xs = us \<and> ys = vs"
  by (auto simp: append_eq_append_conv2 append_eq_Cons_conv Cons_eq_append_conv)

lemma of_char_digit: "d < 10 \<Longrightarrow> (of_char (char_of (48 + d :: nat) :: char) :: nat) = 48 + d"
  by simp

lemma nat_string_digits: "c \<in> set (nat_string n) \<Longrightarrow> 48 \<le> (of_char c :: nat) \<and> (of_char c :: nat) < 58"
proof (induction n rule: nat_string.induct)
  case (1 n)
  have d: "48 \<le> (of_char (char_of (48 + d :: nat) :: char) :: nat) \<and> (of_char (char_of (48 + d :: nat) :: char) :: nat) < 58" if "d < 10" for d
    unfolding of_char_digit [OF that] using that by simp
  show ?case
    using 1(2) 1(1) d [of n] d [of "n mod 10"] by (simp only: nat_string.simps [of n] set_append split: if_splits) auto
qed

lemma nat_string_ne: "nat_string n \<noteq> []"
  by (simp add: nat_string.simps [of n])

lemma nat_string_inject: "nat_string n = nat_string m \<longleftrightarrow> n = m"
proof
  show "nat_string n = nat_string m \<Longrightarrow> n = m"
  proof (induction n arbitrary: m rule: nat_string.induct)
    case (1 n)
    have digit: "d = e" if "char_of (48 + d :: nat) = (char_of (48 + e :: nat) :: char)" "d < 10" "e < 10" for d e
    proof -
      have "48 + d = (of_char (char_of (48 + e :: nat) :: char) :: nat)"
        unfolding that(1) [symmetric] by (rule of_char_digit [OF that(2), symmetric])
      then show ?thesis
        unfolding of_char_digit [OF that(3)] by simp
    qed
    show ?case
    proof (cases "n < 10")
      case True
      then have "m < 10"
        using 1(2) nat_string_ne [of "m div 10"] by (auto simp: nat_string.simps [of n] nat_string.simps [of m] split: if_splits)
      then show ?thesis
        using True 1(2) digit by (simp add: nat_string.simps [of n] nat_string.simps [of m])
    next
      case False
      then have m: "\<not> m < 10"
        using 1(2) nat_string_ne [of "n div 10"] by (auto simp: nat_string.simps [of n] nat_string.simps [of m] split: if_splits)
      have "nat_string (n div 10) = nat_string (m div 10)" "n mod 10 = m mod 10"
        using 1(2) False m digit by (simp_all add: nat_string.simps [of n] nat_string.simps [of m])
      then show ?thesis
        using 1(1) [OF False] by (metis div_mult_mod_eq)
    qed
  qed
qed simp

lemma not_digit: "CHR '','' \<notin> set (nat_string n)" "CHR ''/'' \<notin> set (nat_string n)" "CHR '':'' \<notin> set (nat_string n)"
  using nat_string_digits [of _ n] by fastforce+

lemma key_bits_simps [simp]: "key_bits [] = []" "key_bits (b # bs) = nat_string b @ CHR '','' # key_bits bs"
  by (simp_all add: key_bits_def)

lemma key_bits_plain: "CHR ''/'' \<notin> set (key_bits bs)"
  by (induction bs) (simp_all add: not_digit)

lemma key_bits_inject: "key_bits bs = key_bits cs \<Longrightarrow> bs = cs"
proof (induction bs arbitrary: cs)
  case Nil
  then show ?case by (cases cs) simp_all
next
  case (Cons b bs)
  then obtain c ds where cs: "cs = c # ds"
    by (cases cs) simp_all
  from split_first [OF Cons.prems [unfolded cs key_bits_simps] not_digit(1) not_digit(1)]
  have "nat_string b = nat_string c" "key_bits bs = key_bits ds"
    by blast+
  then show ?case
    using Cons.IH by (simp only: cs nat_string_inject)
qed

lemma node_key_inject:
  assumes key: "node_key n = node_key m"
    and plain: "CHR '':'' \<notin> set (n_scope n) \<union> set (n_op n)" "CHR '':'' \<notin> set (n_scope m) \<union> set (n_op m)"
  shows "n_scope n = n_scope m \<and> n_op n = n_op m \<and> n_width n = n_width m \<and> (n_op n = ''blackbox'' \<longrightarrow> n_name n = n_name m) \<and>
    n_left n = n_left m \<and> n_right n = n_right m \<and> n_select n = n_select m"
proof -
  define rest where "rest (n :: node) = (if n_op n = ''blackbox'' then CHR '':'' # n_name n else [])" for n
  define prefix where "prefix (n :: node) = n_scope n @ CHR '':'' # n_op n @ CHR '':'' # nat_string (n_width n) @ rest n" for n
  have eq: "node_key n = ((prefix n @ CHR ''/'' # key_bits (n_left n)) @ CHR ''/'' # key_bits (n_right n)) @ CHR ''/'' # key_bits (n_select n)" for n
    by (simp add: node_key_def prefix_def rest_def)
  note s = split_last [OF key [unfolded eq] key_bits_plain key_bits_plain]
  note r = split_last [OF conjunct1 [OF s] key_bits_plain key_bits_plain]
  note l = split_last [OF conjunct1 [OF r] key_bits_plain key_bits_plain]
  have "n_scope n = n_scope m \<and> n_op n @ CHR '':'' # nat_string (n_width n) @ rest n = n_op m @ CHR '':'' # nat_string (n_width m) @ rest m"
    by (rule split_first [OF conjunct1 [OF l, unfolded prefix_def]]) (use plain in auto)
  then have sc: "n_scope n = n_scope m" and "n_op n @ CHR '':'' # nat_string (n_width n) @ rest n = n_op m @ CHR '':'' # nat_string (n_width m) @ rest m"
    by auto
  from split_first [OF this(2)] plain have op: "n_op n = n_op m" and w: "nat_string (n_width n) @ rest n = nat_string (n_width m) @ rest m"
    by auto
  have "n_width n = n_width m \<and> (n_op n = ''blackbox'' \<longrightarrow> n_name n = n_name m)"
  proof (cases "n_op n = ''blackbox''")
    case True
    then have "nat_string (n_width n) @ CHR '':'' # n_name n = nat_string (n_width m) @ CHR '':'' # n_name m"
      using w op by (simp add: rest_def)
    from split_first [OF this not_digit(3) not_digit(3)] show ?thesis
      by (simp add: nat_string_inject)
  next
    case False
    then show ?thesis
      using w op by (simp add: rest_def nat_string_inject)
  qed
  then show ?thesis
    using sc op s r l key_bits_inject by blast
qed

section \<open>Optimization keeps the models\<close>

text \<open>No scope and no operation contains the separator of a key.\<close>

definition plain_names :: "graph \<Rightarrow> bool" where
  "plain_names g \<longleftrightarrow> (\<forall>n \<in> set (g_nodes g). CHR '':'' \<notin> set (n_scope n) \<union> set (n_op n))"

lemma gmap_keeps:
  assumes "gmap f xs g = Inr (ys, g')" and "P g" and "\<And>x g y g'. x \<in> set xs \<Longrightarrow> f x g = Inr (y, g') \<Longrightarrow> P g \<Longrightarrow> R g g' \<and> P g'"
    and "\<And>g. P g \<Longrightarrow> R g g" and "\<And>g h k. R g h \<Longrightarrow> R h k \<Longrightarrow> R g k"
  shows "R g g' \<and> P g'"
  using assms
proof (induction xs arbitrary: g ys)
  case (Cons x xs)
  obtain y g1 zs where x: "f x g = Inr (y, g1)" and xs: "gmap f xs g1 = Inr (zs, g')"
    using Cons.prems(1) by (auto simp: gbind_Inr)
  have g1: "R g g1" "P g1"
    using Cons.prems(3) [OF _ x Cons.prems(2)] by simp_all
  have "R g1 g' \<and> P g'"
    by (rule Cons.IH [OF xs g1(2)]) (use Cons.prems in auto)
  then show ?case
    using Cons.prems(5) g1(1) by blast
qed simp

lemma rewrite_power_names: "n_scope (rewrite_power n) = n_scope n" "n_op (rewrite_power n) = n_op n \<or> n_op (rewrite_power n) = ''and''"
  by (auto simp: rewrite_power_def Let_def split: prod.split option.split)

lemma simplify_names:
  assumes s: "simplify i g = Inr (c, g')" and shape: "shaped g" and plain: "plain_names g"
  shows "plain_names g'"
proof -
  have i: "i < length (g_nodes g)"
    using s by (auto simp: simplify_def split: if_splits)
  define n where "n = g_nodes g ! i"
  obtain n' rs g1 where n1: "simplifyNode n g = Inr ((n', rs), g1)"
    and rest: "(let (al, changed) = redirect_lanes i rs (g_aliases g1)
        in gret changed (g1\<lparr>g_nodes := (g_nodes g1)[i := n'], g_aliases := al\<rparr>)) = Inr (c, g')"
    using s i unfolding simplify_def n_def by (auto simp: gbind_Inr)
  have ok: "transparent (n_op n) \<longrightarrow> node_ok n"
    using shape i by (auto simp: shaped_def n_def)
  note f = simplifyNode_facts(1,7) [OF n1 ok]
  have "g_nodes g1 = g_nodes g"
    using f(1) by (rule compressed_fields)
  then have nodes: "g_nodes g' = (g_nodes g)[i := n']"
    using rest by (cases "redirect_lanes i rs (g_aliases g1)") auto
  obtain left right select where n': "n' = rewrite_power (n\<lparr>n_left := left, n_right := right, n_select := select\<rparr>)"
    using f(2) by blast
  have "n_scope n' = n_scope n" "n_op n' = n_op n \<or> n_op n' = ''and''"
    using rewrite_power_names [of "n\<lparr>n_left := left, n_right := right, n_select := select\<rparr>"] by (simp_all add: n')
  then have n'p: "CHR '':'' \<notin> set (n_scope n') \<union> set (n_op n')"
    using plain i by (auto simp: plain_names_def n_def)
  show ?thesis
    unfolding plain_names_def nodes
  proof
    fix m
    assume "m \<in> set ((g_nodes g)[i := n'])"
    then have "m = n' \<or> m \<in> set (g_nodes g)"
      using set_update_subset_insert [of "g_nodes g" i n'] by auto
    then show "CHR '':'' \<notin> set (n_scope m) \<union> set (n_op m)"
      using n'p plain by (auto simp: plain_names_def)
  qed
qed

lemma keeps_refl: "shaped g \<Longrightarrow> keeps g g"
  by (simp add: keeps_def)

lemma optimize_rounds_keeps:
  assumes "optimize_rounds pass g = Inr (u, g')" and "shaped g" and "plain_names g"
  shows "keeps g g' \<and> plain_names g'"
  using assms
proof (induction pass arbitrary: g rule: optimize_rounds.induct)
  case (1 pass)
  have one: "keeps g g1 \<and> shaped g1 \<and> plain_names g1" if "gmap simplify [0..<length (g_nodes g)] g = Inr (cs, g1)" for cs g1
  proof (rule gmap_keeps [OF that])
    fix x g c g'
    assume "simplify x g = Inr (c, g')" "shaped g \<and> plain_names g"
    then show "keeps g g' \<and> shaped g' \<and> plain_names g'"
      using simplify_keeps simplify_names by (metis keeps_def)
  qed (use 1(3,4) in \<open>auto intro: keeps_refl keeps_trans\<close>)
  show ?case
  proof (cases "pass < 100")
    case True
    obtain cs g1 where g1: "gmap simplify [0..<length (g_nodes g)] g = Inr (cs, g1)"
      and rest: "(if \<not> list_ex (\<lambda>c. c) cs then gret ()
        else if pass = 99 then gthrow (Runtime_error ''graph simplification did not converge'')
        else optimize_rounds (pass + 1)) g1 = Inr (u, g')"
      using 1(2) True unfolding optimize_rounds.simps [of pass] gbind_Inr if_P [OF True] by blast
    note k = one [OF g1]
    show ?thesis
    proof (cases "list_ex (\<lambda>c. c) cs")
      case True
      have "pass \<noteq> 99"
        using rest True by (auto simp: gthrow_def)
      then have "optimize_rounds (pass + 1) g1 = Inr (u, g')"
        using rest True by simp
      then have "keeps g1 g' \<and> plain_names g'"
        using 1(1) [OF \<open>pass < 100\<close> _ \<open>pass \<noteq> 99\<close>, of cs g1] True k by simp
      then show ?thesis
        using k keeps_trans by blast
    next
      case False
      then show ?thesis
        using rest k by simp
    qed
  next
    case False
    then show ?thesis
      using 1 by (simp add: optimize_rounds.simps [of pass] keeps_refl)
  qed
qed

lemma share_lanes_old: "fmlookup al a = Some b \<Longrightarrow> fmlookup (share_lanes i j os al) a = Some b"
  by (induction os arbitrary: al) simp_all

lemma share_lanes_new:
  "fmlookup (share_lanes i j os al) a = Some b \<Longrightarrow>
     fmlookup al a = Some b \<or> (\<exists>k \<in> set os. a = lane_bit i k \<and> b = lane_bit j k)"
  by (induction os arbitrary: al) (fastforce split: if_splits)+

text \<open>The entries of \<open>shared\<close> lead to earlier nodes with their key.\<close>

definition sharing :: "graph \<Rightarrow> (string, nat) fmap \<Rightarrow> nat set \<Rightarrow> bool" where
  "sharing g shared rest \<longleftrightarrow> (\<forall>key j. fmlookup shared key = Some j \<longrightarrow>
     j < length (g_nodes g) \<and> j \<notin> rest \<and> shareable (g_nodes g ! j) \<and> node_key (g_nodes g ! j) = key)"

lemma shareable_computes: "shareable n \<longleftrightarrow> computes (n_op n)"
  by (auto simp: shareable_def computes_def hostEffect_def validation_def)

lemma lane_value_eq:
  assumes "n_scope n = n_scope m" "n_op n = n_op m" "n_width n = n_width m" "n_op n = ''blackbox'' \<longrightarrow> n_name n = n_name m"
    and "n_left n = n_left m" "n_right n = n_right m" "n_select n = n_select m"
  shows "lane_value F v n k = lane_value F v m k"
  unfolding lane_value_def node_bit_def node_word_def using assms by simp

lemma share_operands:
  assumes l: "resolved (n_left n) g = Inr (left, g1)" and r: "resolved (n_right n) g1 = Inr (right, g2)"
    and s: "resolved (n_select n) g2 = Inr (select, g3)" and m: "m = n\<lparr>n_left := left, n_right := right, n_select := select\<rparr>"
  shows "compressed g g3" and "node_ok m \<longleftrightarrow> node_ok n"
    and "zero_one v \<Longrightarrow> agrees (g_aliases g) v \<Longrightarrow> lane_value F v m k = lane_value F v n k"
proof -
  note fl = resolved_facts [OF l] and fr = resolved_facts [OF r] and fs = resolved_facts [OF s]
  have c: "compressed g g1" "compressed g g2"
    using fl fr compressed_trans by blast+
  show "compressed g g3"
    using c(2) fs compressed_trans by blast
  have agree: "agrees (g_aliases g1) = agrees (g_aliases g)" "agrees (g_aliases g2) = agrees (g_aliases g)"
    using compressed_fields(4) c by blast+
  show "node_ok m \<longleftrightarrow> node_ok n"
    by (rule node_ok_cong) (use fl fr fs in \<open>simp_all add: m\<close>)
  assume v: "zero_one v" "agrees (g_aliases g) v"
  have maps: "map v left = map v (n_left n)" "map v right = map v (n_right n)" "map v select = map v (n_select n)"
    using fl fr fs v(2) agree by simp_all
  show "lane_value F v m k = lane_value F v n k"
    using maps v(1) by (intro lane_value_cong) (simp_all add: m)
qed

lemma share_nodes_keeps:
  assumes "share_nodes is shared g = Inr (u, g')" and "shaped g" and "plain_names g" and "distinct is"
    and "\<forall>i \<in> set is. i < length (g_nodes g)" and "sharing g shared (set is)"
  shows "keeps g g'"
  using assms
proof (induction "is" arbitrary: shared g)
  case Nil
  then show ?case by (simp add: keeps_refl)
next
  case (Cons i "is")
  define n where "n = g_nodes g ! i"
  show ?case
  proof (cases "shareable n")
    case False
    then have "share_nodes is shared g = Inr (u, g')"
      using Cons.prems(1) by (simp add: n_def)
    then show ?thesis
      by (rule Cons.IH) (use Cons.prems in \<open>auto simp: sharing_def\<close>)
  next
    case True
    obtain left g1 right g2 select g3 where
      left: "resolved (n_left n) g = Inr (left, g1)" and right: "resolved (n_right n) g1 = Inr (right, g2)" and
      select: "resolved (n_select n) g2 = Inr (select, g3)" and
      rest: "(let n' = n\<lparr>n_left := left, n_right := right, n_select := select\<rparr>;
           g' = g3\<lparr>g_nodes := (g_nodes g3)[i := n']\<rparr>
       in case fmlookup shared (node_key n') of
            None \<Rightarrow> share_nodes is (fmupd (node_key n') i shared) g'
          | Some entry \<Rightarrow>
              share_nodes is shared (g'\<lparr>g_aliases := share_lanes i entry [0..<n_width n'] (g_aliases g')\<rparr>)) = Inr (u, g')"
      using Cons.prems(1) True
      by (simp only: share_nodes.simps Let_def n_def [symmetric] gbind_Inr simp_thms if_False) blast
    define n' where "n' = n\<lparr>n_left := left, n_right := right, n_select := select\<rparr>"
    define g4 where "g4 = g3\<lparr>g_nodes := (g_nodes g3)[i := n']\<rparr>"
    have i: "i < length (g_nodes g)"
      using Cons.prems(5) by simp
    have same: "n_op n' = n_op n" "n_width n' = n_width n" "n_scope n' = n_scope n" "n_name n' = n_name n"
      by (simp_all add: n'_def)
    note facts = share_operands [OF left right select n'_def]
    have nodes: "g_nodes g4 = (g_nodes g)[i := n']"
      using compressed_fields(1) [OF facts(1)] by (simp add: g4_def)
    have nth: "g_nodes g4 ! j = (if j = i then n' else g_nodes g ! j)" for j
      using i by (simp add: nodes)
    have plain: "plain_names g4"
      unfolding plain_names_def
    proof
      fix m
      assume "m \<in> set (g_nodes g4)"
      then have "m = n' \<or> m \<in> set (g_nodes g)"
        using set_update_subset_insert [of "g_nodes g" i n'] by (auto simp: nodes)
      then show "CHR '':'' \<notin> set (n_scope m) \<union> set (n_op m)"
        using Cons.prems(3) same nth_mem [OF i] by (auto simp: plain_names_def n_def)
    qed
    have shape: "shaped g4"
      unfolding shaped_def
    proof (intro ballI impI)
      fix m
      assume m: "m \<in> set (g_nodes g4)" "transparent (n_op m)"
      then have "m = n' \<or> m \<in> set (g_nodes g)"
        using set_update_subset_insert [of "g_nodes g" i n'] by (auto simp: nodes)
      then show "node_ok m"
        using Cons.prems(2) same nth_mem [OF i] facts(2) m(2) by (auto simp: shaped_def n_def)
    qed
    have "model F g4 v \<longleftrightarrow> model F g3 v" for F v
    proof -
      have "g4 = g3\<lparr>g_nodes := (g_nodes g3)[i := n'], g_aliases := g_aliases g3\<rparr>"
        by (simp add: g4_def)
      moreover have "model F (g3\<lparr>g_nodes := (g_nodes g3)[i := n'], g_aliases := g_aliases g3\<rparr>) v \<longleftrightarrow> model F g3 v"
        by (rule model_update) (use i same facts(3) in \<open>simp_all add: compressed_fields [OF facts(1)] n_def model_def\<close>)
      ultimately show ?thesis
        by simp
    qed
    then have k4: "keeps g g4"
      using shape compressed_model [OF facts(1)] by (simp add: keeps_def nodes)
    show ?thesis
    proof (cases "fmlookup shared (node_key n')")
      case None
      then have next4: "share_nodes is (fmupd (node_key n') i shared) g4 = Inr (u, g')"
        using rest by (simp add: Let_def n'_def [symmetric] g4_def [symmetric])
      have "keeps g4 g'"
      proof (rule Cons.IH [OF next4 shape plain])
        have "shareable n'"
          using True same by (simp add: shareable_computes)
        then show "sharing g4 (fmupd (node_key n') i shared) (set is)"
          using Cons.prems(4,6) i by (auto simp: sharing_def nth) (simp_all add: nodes)
      qed (use Cons.prems in \<open>simp_all add: nodes\<close>)
      then show ?thesis
        using k4 keeps_trans by blast
    next
      case (Some j)
      define g5 where "g5 = g4\<lparr>g_aliases := share_lanes i j [0..<n_width n'] (g_aliases g4)\<rparr>"
      have next5: "share_nodes is shared g5 = Inr (u, g')"
        using rest Some by (simp add: Let_def n'_def [symmetric] g4_def [symmetric] g5_def)
      have j: "j < length (g_nodes g)" "j \<noteq> i" "shareable (g_nodes g ! j)" "node_key (g_nodes g ! j) = node_key n'"
        using Cons.prems(6) Some by (auto simp: sharing_def)
      have eq: "n_scope n' = n_scope (g_nodes g ! j) \<and> n_op n' = n_op (g_nodes g ! j) \<and> n_width n' = n_width (g_nodes g ! j) \<and>
          (n_op n' = ''blackbox'' \<longrightarrow> n_name n' = n_name (g_nodes g ! j)) \<and>
          n_left n' = n_left (g_nodes g ! j) \<and> n_right n' = n_right (g_nodes g ! j) \<and> n_select n' = n_select (g_nodes g ! j)"
        by (rule node_key_inject [OF j(4) [symmetric]])
          (use Cons.prems(3) same nth_mem [OF i] nth_mem [OF j(1)] in \<open>auto simp: plain_names_def n_def\<close>)
      then have lv: "lane_value F v n' k = lane_value F v (g_nodes g ! j) k" for F v k
        by (intro lane_value_eq) simp_all
      have al: "agrees (g_aliases g5) v" if m: "model F g4 v" for F v
        unfolding agrees_def
      proof (intro allI impI)
        fix a b
        assume "fmlookup (g_aliases g5) a = Some b"
        then consider "fmlookup (g_aliases g4) a = Some b" | k where "k < n_width n'" "a = lane_bit i k" "b = lane_bit j k"
          unfolding g5_def using share_lanes_new by fastforce
        then show "v a = v b"
        proof cases
          case 1
          then show ?thesis
            using m by (auto simp: model_def agrees_def)
        next
          case 2
          have "v (lane_bit i k) = lane_value F v n' k"
            using m i 2(1) True same by (auto simp: model_def nodes shareable_computes)
          moreover have "v (lane_bit j k) = lane_value F v (g_nodes g ! j) k"
            using m j 2(1) eq by (auto simp: model_def nodes shareable_computes)
          ultimately show ?thesis
            using 2 lv by simp
        qed
      qed
      have "agrees (g_aliases g4) v" if "agrees (g_aliases g5) v" for v
        using that share_lanes_old by (fastforce simp: agrees_def g5_def)
      then have "model F g5 v \<longleftrightarrow> model F g4 v" for F v
        using al [of F v] by (auto simp: model_def g5_def)
      then have k5: "keeps g4 g5"
        using shape by (simp add: keeps_def g5_def shaped_def)
      have "keeps g5 g'"
      proof (rule Cons.IH [OF next5])
        show "shaped g5" "plain_names g5"
          using shape plain by (simp_all add: g5_def shaped_def plain_names_def)
        show "sharing g5 shared (set is)"
          using Cons.prems(4,6) i by (auto simp: sharing_def nth g5_def) (simp_all add: nodes)
      qed (use Cons.prems in \<open>simp_all add: nodes g5_def\<close>)
      then show ?thesis
        using k4 k5 keeps_trans by blast
    qed
  qed
qed

lemma optimize_keeps_models:
  assumes "optimize g = Inr (u, g')" and "shaped g" and "plain_names g"
  shows "keeps g g'"
proof -
  obtain g1 where g1: "optimize_rounds 0 g = Inr ((), g1)" and s: "share_nodes [0..<length (g_nodes g1)] fmempty g1 = Inr (u, g')"
    using assms(1) by (auto simp: optimize_def gbind_Inr)
  note k = optimize_rounds_keeps [OF g1 assms(2,3)]
  have "keeps g1 g'"
    by (rule share_nodes_keeps [OF s]) (use k in \<open>auto simp: keeps_def sharing_def\<close>)
  then show ?thesis
    using k keeps_trans by blast
qed

section \<open>Properties\<close>

text \<open>Simplifying a node keeps exactly the models of the graph, whatever folds it finds.\<close>

theorem simplify_preserves_models:
  assumes "simplify index g = Inr (changed, g')" and "shaped g"
  shows "shaped g' \<and> length (g_nodes g') = length (g_nodes g) \<and> (\<forall>v. model F g' v \<longleftrightarrow> model F g v)"
  using simplify_keeps [OF assms] by (simp add: keeps_def)

text \<open>C1: An optimized graph has the nodes of the original and exactly its models: no pass of
  simplification and no sharing changes what any bit denotes.\<close>

theorem optimize_preserves_models:
  assumes "optimize g = Inr ((), g')" and "shaped g" and "plain_names g"
  shows "shaped g' \<and> length (g_nodes g') = length (g_nodes g) \<and> (\<forall>v. model F g' v \<longleftrightarrow> model F g v)"
  using optimize_keeps_models [OF assms] by (simp add: keeps_def)

text \<open>Two inputs, their conjunction twice, and a wire connected to the second one.\<close>

definition example_node :: "string \<Rightarrow> gvalue \<Rightarrow> gvalue \<Rightarrow> node" where
  "example_node op left right =
     \<lparr>n_op = op, n_width = 1, n_left = left, n_right = right, n_select = [], n_name = [], n_scope = ''top''\<rparr>"

definition example_graph :: graph where
  "example_graph = \<lparr>g_contract = RisingEdgeStep, g_clocks = [],
     g_nodes = [example_node ''input'' [] [], example_node ''input'' [] [],
       example_node ''and'' [66] [130], example_node ''wire'' [] [], example_node ''and'' [66] [130], example_node ''or'' [258] [0]],
     g_aliases = fmap_of_list [(258, 322)], g_ports = [], g_states = [], g_memories = [], g_accesses = [], g_writes = [], g_scope = ''top''\<rparr>"

lemma optimize_preserves_models_witness:
  "\<exists>g'. optimize example_graph = Inr ((), g') \<and> fmlookup (g_aliases g') 322 = Some 194 \<and> fmlookup (g_aliases g') 386 = Some 322 \<and>
    (\<forall>v. model (\<lambda>_ _ _. False) g' v \<longleftrightarrow> model (\<lambda>_ _ _. False) example_graph v)"
proof -
  have run: "(case optimize example_graph of Inr (u, g') \<Rightarrow> fmlookup (g_aliases g') 322 = Some 194 \<and> fmlookup (g_aliases g') 386 = Some 322 | Inl e \<Rightarrow> False)"
    by code_simp
  have "shaped example_graph" "plain_names example_graph"
    by code_simp+
  then show ?thesis
    using run optimize_preserves_models [of example_graph] by (auto split: sum.splits)
qed

lemma simplify_preserves_models_witness:
  "\<exists>g'. simplify 5 example_graph = Inr (True, g') \<and> fmlookup (g_aliases g') 386 = Some 322 \<and> shaped g' \<and>
    (\<forall>v. model (\<lambda>_ _ _. False) g' v \<longleftrightarrow> model (\<lambda>_ _ _. False) example_graph v)"
proof -
  have run: "(case simplify 5 example_graph of Inr (c, g') \<Rightarrow> c \<and> fmlookup (g_aliases g') 386 = Some 322 | Inl e \<Rightarrow> False)"
    by code_simp
  have "shaped example_graph"
    by code_simp
  then show ?thesis
    using run simplify_preserves_models [of 5 example_graph True] by (auto split: sum.splits)
qed
end
