(* ===== verification/GraphBuild.thy ===== *)
theory GraphBuild
  imports GraphOptimize
begin

text \<open>
  Building a graph: \<open>add\<close> and \<open>wire\<close> of the class \<open>Graph\<close>. Adding a node to a well-formed graph
  never throws and is a definitional extension: every model of the new graph is a model of the old
  one, every model of the old one extends to the new one, and the bits returned denote the node.
\<close>


section \<open>Bits below the next node\<close>

definition node_base :: "graph \<Rightarrow> gbit" where
  "node_base g = (length (g_nodes g) + 1) * 64 + 2"

definition fits :: "nat \<Rightarrow> gvalue \<Rightarrow> bool" where
  "fits N value \<longleftrightarrow> (\<forall>b \<in> set value. b < N)"

lemma fits_simps [simp]: "fits N []" "fits N (b # bs) \<longleftrightarrow> b < N \<and> fits N bs" "fits N (bs @ cs) \<longleftrightarrow> fits N bs \<and> fits N cs"
  by (auto simp: fits_def)

lemma fits_mono: "fits N bs \<Longrightarrow> N \<le> M \<Longrightarrow> fits M bs"
  by (auto simp: fits_def)

lemma fits_nth: "fits N bs \<Longrightarrow> i < length bs \<Longrightarrow> bs ! i < N"
  by (simp add: fits_def)

lemma node_base_gt: "66 \<le> node_base g"
  by (simp add: node_base_def)

section \<open>The redirections of a node\<close>

lemma collect_total: "(\<And>x. x \<in> set xs \<Longrightarrow> \<exists>ys. f x = Inr ys) \<Longrightarrow> \<exists>ys. collect f xs = Inr ys"
proof (induction xs)
  case (Cons x xs)
  then obtain ys zs where "f x = Inr ys" "collect f xs = Inr zs"
    by (meson list.set_intros)
  then show ?case
    by simp
qed simp

lemma at_total: "i < length xs \<Longrightarrow> at xs i = Inr (xs ! i)"
  by (simp add: at_def)

lemma calculate_total: "op \<in> set word_ops \<Longrightarrow> \<exists>c. calculate op l r w = Inr c"
  by (auto simp: word_ops_def calculate_def Let_def)

lemma redirects_total:
  assumes ok: "node_ok n" and t: "transparent (n_op n)"
  shows "\<exists>rs. redirects n = Inr rs"
proof -
  have not: "\<not> (hostEffect n \<or> validation n \<or> take 3 (n_op n) = ''fp_'' \<or> n_op n = ''memory_read'' \<or> n_op n = ''blackbox'')"
    using t by (auto simp: transparent_def word_ops_def hostEffect_def validation_def)
  consider "n_op n = ''word_slice''" | "n_op n \<in> {''mux'', ''and'', ''or'', ''xor''}" | "n_op n \<in> {''any'', ''all'', ''parity''}"
    | "n_op n \<in> {''shl'', ''shr'', ''sar''}" | "n_op n \<in> set word_ops"
    using t by (auto simp: transparent_def)
  then show ?thesis
  proof cases
    case 1
    then show ?thesis by (simp add: redirects_def)
  next
    case 2
    have "length (n_left n) = n_width n" "length (n_right n) = n_width n" "n_op n = ''mux'' \<Longrightarrow> length (n_select n) = 1"
      using ok 2 by (auto simp: node_ok_def)
    then have "\<exists>ys. lane_redirect n k = Inr ys" if "k < n_width n" for k
      using that by (simp add: lane_redirect_def at_total)
    then have "\<exists>ys. collect (lane_redirect n) [0..<n_width n] = Inr ys"
      by (intro collect_total) simp
    then show ?thesis
      using 2 not by (auto simp: redirects_def)
  next
    case 3
    then show ?thesis using not by (auto simp: redirects_def)
  next
    case 4
    have "n_op n = ''sar'' \<Longrightarrow> n_left n \<noteq> []"
      using ok by (simp add: node_ok_def)
    then have "\<exists>rs. shift_redirect n = Inr rs"
      by (auto simp: shift_redirect_def Let_def at_total split: option.split intro!: collect_total)
    then show ?thesis
      using 4 not by (auto simp: redirects_def)
  next
    case 5
    then obtain c where "calculate (n_op n) l r w = Inr (c l r w)" for l r w
      using calculate_total by metis
    then have "\<exists>rs. word_redirect n = Inr rs"
      by (auto simp: word_redirect_def split: option.split)
    then show ?thesis
      using 5 not by (auto simp: redirects_def word_ops_def)
  qed
qed

definition operand_bits :: "node \<Rightarrow> gvalue" where
  "operand_bits n = n_left n @ n_right n @ n_select n"

lemma single_case: "(k, b) \<in> set (case bs of [c] \<Rightarrow> [(0, c)] | _ \<Rightarrow> []) \<Longrightarrow> b \<in> set bs"
  by (auto split: list.splits)

lemma redirects_bits:
  assumes ok: "node_ok n" and t: "transparent (n_op n)" and r: "redirects n = Inr rs" "(k, b) \<in> set rs"
  shows "b \<le> 1 \<or> b \<in> set (operand_bits n)"
proof -
  have not: "\<not> (hostEffect n \<or> validation n \<or> take 3 (n_op n) = ''fp_'' \<or> n_op n = ''memory_read'' \<or> n_op n = ''blackbox'')"
    using t by (auto simp: transparent_def word_ops_def hostEffect_def validation_def)
  have lane: "lane_redirect n i = Inr zs \<Longrightarrow> (k, b) \<in> set zs \<Longrightarrow> b \<le> 1 \<or> b \<in> set (operand_bits n)" for i zs
    by (auto simp: lane_redirect_def ebind_Inr operand_bits_def split: if_splits)
  have lanes: "collect (lane_redirect n) [0..<n_width n] = Inr rs \<Longrightarrow> b \<le> 1 \<or> b \<in> set (operand_bits n)"
    using collect_set [OF _ r(2)] lane by blast
  have slice: "(k, b) \<in> set (word_slice_redirect n) \<Longrightarrow> b \<le> 1 \<or> b \<in> set (operand_bits n)"
    by (auto simp: word_slice_redirect_def operand_bits_def split: option.splits if_splits)
  have reduce: "b \<le> 1 \<or> b \<in> set (operand_bits n)" if "(k, b) \<in> set (reduce_redirect n)"
  proof (cases "number (n_left n)")
    case None
    have "b \<le> 1 \<or> b \<in> set (n_left n)"
      using that None single_case [of k b "remdups (removeAll _ (n_left n))"]
      by (fastforce simp: reduce_redirect_def Let_def split: if_splits)
    then show ?thesis
      by (auto simp: operand_bits_def)
  next
    case (Some x)
    then show ?thesis
      using that by (auto simp: reduce_redirect_def)
  qed
  have shift: "shift_redirect n = Inr rs \<Longrightarrow> b \<le> 1 \<or> b \<in> set (operand_bits n)"
  proof (cases "number (n_right n)")
    case (Some amount)
    assume s: "shift_redirect n = Inr rs"
    from collect_set [OF s [unfolded shift_redirect_def Some option.case Let_def] r(2)]
    show ?thesis
      by (auto simp: ebind_Inr operand_bits_def split: if_splits)
  qed (use r(2) in \<open>simp add: shift_redirect_def\<close>)
  have word: "word_redirect n = Inr rs \<Longrightarrow> b \<le> 1 \<or> b \<in> set (operand_bits n)"
    using r(2) by (auto simp: word_redirect_def ebind_Inr const_value_nth split: option.splits if_splits)
  show ?thesis
    using r slice reduce shift word lanes not unfolding redirects_def
    by (auto split: if_splits)
qed

lemma rewrite_power_bits:
  assumes "fits N (operand_bits n)" and "0 < N"
  shows "fits N (operand_bits (rewrite_power n))"
proof -
  have wiring: "fits N (power_wiring op w xs s)" if "fits N xs" for op w xs s
    using that assms(2) by (auto simp: power_wiring_def fits_def)
  have enable: "e < N" if "power_loop xs i f = Some (s, e)" "fits N xs" "\<forall>s e. f = Some (s, e) \<longrightarrow> e < N" for xs i f s e
    using that by (induction xs i f rule: power_loop.induct) (auto split: if_splits)
  have p: "e < N" if "power_of xs = Some (s, e)" "fits N xs" for xs s e
    using enable [of xs 0 None s e] that by (simp add: power_of_def)
  show ?thesis
    using assms(1) unfolding rewrite_power_def operand_bits_def Let_def
    by (auto simp: wiring p split: prod.split option.split if_splits) (auto simp: fits_def p)
qed
section \<open>Adding a node\<close>

fun redirect_result :: "(nat \<times> gbit) list \<Rightarrow> gvalue \<Rightarrow> gvalue" where
  "redirect_result [] result = result"
| "redirect_result ((offset, b) # rs) result = redirect_result rs (result[offset := b])"

definition add_node :: "string \<Rightarrow> nat \<Rightarrow> gvalue \<Rightarrow> gvalue \<Rightarrow> gvalue \<Rightarrow> string \<Rightarrow> gvalue gcomp" where
  "add_node op width left right select name g =
     (if width = 0 \<or> 64 < width then Inl (Runtime_error ''invalid graph node width'')
      else
        let base = node_base g;
            n = \<lparr>n_op = op, n_width = width, n_left = left, n_right = right, n_select = select, n_name = name, n_scope = g_scope g\<rparr>
        in gbind (simplifyNode n) (\<lambda>(n', rs) g.
             let result = redirect_result rs (map (\<lambda>index. base + index) [0..<width])
             in if list_all (\<lambda>b. \<not> (base \<le> b \<and> b < base + width)) result then gret result g
                else gret result (g\<lparr>g_nodes := g_nodes g @ [n'],
                  g_aliases := fold (\<lambda>index al. if result ! index \<noteq> base + index then fmupd (base + index) (result ! index) al else al)
                    [0..<width] (g_aliases g)\<rparr>)) g)"

text \<open>The values of the counter of a loop over the parts of a value.\<close>

function offsets :: "nat \<Rightarrow> nat \<Rightarrow> nat \<Rightarrow> nat list" where
  "offsets part offset width = (if part = 0 \<or> width \<le> offset then [] else offset # offsets part (offset + part) width)"
  by pat_completeness auto
termination
  by (relation "measure (\<lambda>(part, offset, width). width - offset)") auto

declare offsets.simps [simp del]

definition wire :: "nat \<Rightarrow> string \<Rightarrow> string \<Rightarrow> gvalue gcomp" where
  "wire width name op =
     gbind (gmap (\<lambda>offset. add_node op (min 64 (width - offset)) [] [] [] (name @ '':'' @ nat_string offset)) (offsets 64 0 width))
       (\<lambda>parts. gret (concat parts))"

section \<open>Well-formed graphs and their extensions\<close>

definition bounded :: "graph \<Rightarrow> bool" where
  "bounded g \<longleftrightarrow> (\<forall>a b. fmlookup (g_aliases g) a = Some b \<longrightarrow> a < node_base g \<and> b < node_base g) \<and>
     (\<forall>n \<in> set (g_nodes g). n_width n \<le> 64 \<and> fits (node_base g) (operand_bits n))"

definition good :: "graph \<Rightarrow> bool" where
  "good g \<longleftrightarrow> shaped g \<and> bounded g \<and> (\<exists>r. ranked r (g_aliases g))"

definition extends :: "graph \<Rightarrow> graph \<Rightarrow> bool" where
  "extends g g' \<longleftrightarrow> good g' \<and> length (g_nodes g) \<le> length (g_nodes g') \<and> g_scope g' = g_scope g \<and>
     (\<forall>F v. model F g' v \<longrightarrow> model F g v) \<and>
     (\<forall>F v. model F g v \<longrightarrow> (\<exists>w. model F g' w \<and> (\<forall>b < node_base g. w b = v b)))"

lemma extends_refl: "good g \<Longrightarrow> extends g g"
  by (auto simp: extends_def)

lemma extends_base: "extends g g' \<Longrightarrow> node_base g \<le> node_base g'"
  by (simp add: extends_def node_base_def)

lemma extends_good: "extends g g' \<Longrightarrow> good g'"
  by (simp add: extends_def)

lemma extends_model: "extends g g' \<Longrightarrow> model F g' v \<Longrightarrow> model F g v"
  by (simp add: extends_def)

lemma extends_trans:
  assumes gh: "extends g h" and hk: "extends h k"
  shows "extends g k"
proof -
  have "\<exists>w. model F k w \<and> (\<forall>b < node_base g. w b = v b)" if v: "model F g v" for F v
  proof -
    obtain u where u: "model F h u" "\<forall>b < node_base g. u b = v b"
      using gh v unfolding extends_def by blast
    obtain w where w: "model F k w" "\<forall>b < node_base h. w b = u b"
      using hk u(1) unfolding extends_def by blast
    then show ?thesis
      using u(2) extends_base [OF gh] by (intro exI [of _ w]) simp
  qed
  moreover have "model F g v" if "model F k v" for F v
    using gh hk that unfolding extends_def by blast
  moreover have "good k \<and> length (g_nodes g) \<le> length (g_nodes k) \<and> g_scope k = g_scope g"
    using gh hk unfolding extends_def by simp
  ultimately show ?thesis
    unfolding extends_def by blast
qed

lemma fits_extends: "fits (node_base g) bs \<Longrightarrow> extends g g' \<Longrightarrow> fits (node_base g') bs"
  using fits_mono extends_base by blast

lemma compressed_good:
  assumes c: "compressed g g'" and good: "good g"
  shows "good g'" and "node_base g' = node_base g" and "extends g g'"
proof -
  have base: "node_base g' = node_base g"
    by (simp add: node_base_def compressed_fields(1) [OF c])
  have same: "same_aliases (g_aliases g) (g_aliases g')"
    by (rule compressed_fields(5) [OF c])
  then have dom: "fmdom' (g_aliases g') = fmdom' (g_aliases g)" and below: "\<And>N. below N (g_aliases g) \<Longrightarrow> below N (g_aliases g')"
    and rank: "\<And>r. ranked r (g_aliases g) \<Longrightarrow> ranked r (g_aliases g')"
    by (simp_all add: same_aliases_def)
  have "below (node_base g) (g_aliases g)"
    using good by (auto simp: good_def bounded_def below_def)
  then have b: "below (node_base g) (g_aliases g')"
    by (rule below)
  have a: "a < node_base g" if "fmlookup (g_aliases g') a = Some b" for a b
  proof -
    have "a \<in> fmdom' (g_aliases g)"
      using that dom by (metis fmdom'I)
    then show ?thesis
      using good by (auto simp: good_def bounded_def fmlookup_dom'_iff)
  qed
  have "\<exists>r. ranked r (g_aliases g')"
    using good rank unfolding good_def by blast
  then show good': "good g'"
    using good a b by (auto simp: good_def bounded_def shaped_def base below_def compressed_fields(1) [OF c])
  show "node_base g' = node_base g"
    by (rule base)
  show "extends g g'"
    using good' by (auto simp: extends_def compressed_fields [OF c] compressed_model [OF c])
qed

lemma resolved_total:
  assumes "ranked r (g_aliases g)" and "below N (g_aliases g)" and "fits N bs"
  shows "\<exists>ds g'. resolved bs g = Inr (ds, g') \<and> fits N ds"
  using assms unfolding resolved_def
proof (induction bs arbitrary: g)
  case Nil
  then show ?case by (simp add: gret_def)
next
  case (Cons b bs)
  obtain d p where d: "resolve_loop (g_aliases g) b [] = Inr (d, p)"
    using resolve_loop_rank [OF refl Cons.prems(1), where c = b and path = "[]"] by auto
  then obtain g1 where g1: "resolve b g = Inr (d, g1)"
    by (simp add: resolve_def)
  have same: "same_aliases (g_aliases g) (g_aliases g1)"
    by (rule compressed_fields(5) [OF resolve_compressed [OF g1]])
  have dN: "d < N"
    using resolve_loop_bound [OF d Cons.prems(2) [unfolded below_def]] Cons.prems(3) by auto
  obtain ds g' where "gmap resolve bs g1 = Inr (ds, g')" "fits N ds"
    using Cons.IH [of g1] Cons.prems same by (auto simp: same_aliases_def)
  then show ?case
    using g1 dN by (auto simp: gbind_def gret_def)
qed

section \<open>Simplifying a node of a well-formed graph\<close>

text \<open>The nodes the builders add.\<close>

definition addable :: "node \<Rightarrow> bool" where
  "addable n \<longleftrightarrow> 0 < n_width n \<and> n_width n \<le> 64 \<and>
     (if transparent (n_op n) then node_ok n else n_right n = [] \<or> n_op n = ''memory_read'')"

lemma simplifyNode_total:
  assumes good: "good g" and add: "addable n" and fit: "fits (node_base g) (operand_bits n)"
  obtains n' rs g' where "simplifyNode n g = Inr ((n', rs), g')" and "compressed g g'"
    and "fits (node_base g) (operand_bits n')" and "\<And>k b. (k, b) \<in> set rs \<Longrightarrow> b < node_base g"
proof -
  obtain r where r: "ranked r (g_aliases g)"
    using good by (auto simp: good_def)
  have below: "below (node_base g) (g_aliases g)"
    using good by (auto simp: good_def bounded_def below_def)
  have next_good: "ranked r (g_aliases h)" "below (node_base g) (g_aliases h)" if "compressed g h" for h
    using compressed_fields(5) [OF that] r below by (simp_all add: same_aliases_def)
  have fit3: "fits (node_base g) (n_left n)" "fits (node_base g) (n_right n)" "fits (node_base g) (n_select n)"
    using fit by (simp_all add: operand_bits_def)
  obtain left g1 where l: "resolved (n_left n) g = Inr (left, g1)" "fits (node_base g) left"
    using resolved_total [OF r below fit3(1)] by blast
  have c1: "compressed g g1"
    using resolved_facts [OF l(1)] by blast
  obtain right g2 where rr: "resolved (n_right n) g1 = Inr (right, g2)" "fits (node_base g) right"
    using resolved_total [OF next_good [OF c1] fit3(2)] by blast
  have c2: "compressed g g2"
    using resolved_facts [OF rr(1)] c1 compressed_trans by blast
  obtain select g3 where s: "resolved (n_select n) g2 = Inr (select, g3)" "fits (node_base g) select"
    using resolved_total [OF next_good [OF c2] fit3(3)] by blast
  have c3: "compressed g g3"
    using resolved_facts [OF s(1)] c2 compressed_trans by blast
  define m where "m = n\<lparr>n_left := left, n_right := right, n_select := select\<rparr>"
  have len: "length left = length (n_left n)" "length right = length (n_right n)" "length select = length (n_select n)"
    using resolved_facts [OF l(1)] resolved_facts [OF rr(1)] resolved_facts [OF s(1)] by blast+
  have m: "n_op m = n_op n" "n_width m = n_width n" "n_right m = [] \<longleftrightarrow> n_right n = []"
    using len(2) by (auto simp: m_def)
  have okm: "node_ok m \<longleftrightarrow> node_ok n"
    by (rule node_ok_cong) (simp_all add: m_def len)
  have fit': "fits (node_base g) (operand_bits (rewrite_power m))"
    using l(2) rr(2) s(2) node_base_gt [of g] by (intro rewrite_power_bits) (simp_all add: operand_bits_def m_def)
  have "\<exists>rs. redirects (rewrite_power m) = Inr rs \<and> (\<forall>k b. (k, b) \<in> set rs \<longrightarrow> b < node_base g)"
  proof (cases "transparent (n_op n)")
    case True
    then have ok: "node_ok m"
      using add okm by (simp add: addable_def)
    define p where "p = rewrite_power m"
    have p: "node_ok p" "transparent (n_op p)"
      using rewrite_power_sound(1,3) [OF ok, of "\<lambda>b. b = 1"] True m by (simp_all add: p_def)
    obtain rs where rs: "redirects p = Inr rs"
      using redirects_total [OF p] by blast
    have "b < node_base g" if "(k, b) \<in> set rs" for k b
      using redirects_bits [OF p rs that] fit' node_base_gt [of g] by (auto simp: p_def fits_def)
    then show ?thesis
      using rs by (auto simp: p_def)
  next
    case False
    then have "rewrite_power m = m"
      using m by (simp add: rewrite_power_def transparent_def word_ops_def)
    moreover have "redirects m = Inr []"
      using False add m by (auto simp: addable_def redirects_def transparent_def)
    ultimately show ?thesis
      by simp
  qed
  then obtain rs where rs: "redirects (rewrite_power m) = Inr rs" "\<And>k b. (k, b) \<in> set rs \<Longrightarrow> b < node_base g"
    by blast
  have "simplifyNode n g = Inr ((rewrite_power m, rs), g3)"
    using l(1) rr(1) s(1) rs(1) by (simp add: simplifyNode_def gbind_def gret_def glift_def Let_def m_def)
  then show ?thesis
    using that c3 fit' rs(2) by blast
qed

section \<open>Adding a node is a definitional extension\<close>

lemma redirect_result_nth:
  "length (redirect_result rs result) = length result"
  "k < length result \<Longrightarrow> redirect_result rs result ! k = result ! k \<or> (k, redirect_result rs result ! k) \<in> set rs"
proof -
  have "length (redirect_result rs result) = length result \<and>
    (\<forall>k < length result. redirect_result rs result ! k = result ! k \<or> (k, redirect_result rs result ! k) \<in> set rs)"
  proof (induction rs result rule: redirect_result.induct)
    case (2 offset b rs result)
    have "redirect_result rs (result[offset := b]) ! k = result ! k \<or> (k, redirect_result rs (result[offset := b]) ! k) \<in> set ((offset, b) # rs)"
      if "k < length result" for k
      using 2 that by (cases "k = offset") auto
    then show ?case
      using 2 by simp
  qed simp
  then show "length (redirect_result rs result) = length result"
    "k < length result \<Longrightarrow> redirect_result rs result ! k = result ! k \<or> (k, redirect_result rs result ! k) \<in> set rs"
    by simp_all
qed

lemma fold_lane_aliases:
  "fmlookup (fold (\<lambda>i al. if result ! i \<noteq> base + i then fmupd (base + i) (result ! i) al else al) xs al) a =
     (if \<exists>i \<in> set xs. a = base + i \<and> result ! i \<noteq> base + i then Some (result ! (a - base)) else fmlookup al a)"
proof (induction xs arbitrary: al)
  case (Cons x xs)
  show ?case
    by (auto simp: Cons.IH)
qed simp

lemma lane_base: "lane_bit (length (g_nodes g)) k = node_base g + k"
  by (simp add: lane_bit_def node_base_def)

lemma lane_below: "i < length (g_nodes g) \<Longrightarrow> k < 64 \<Longrightarrow> lane_bit i k < node_base g"
proof -
  assume "i < length (g_nodes g)" "k < 64"
  then have "(i + 1) * 64 + 2 + k < (i + 1) * 64 + 2 + 64" "(i + 1) * 64 + 64 \<le> (length (g_nodes g) + 1) * 64"
    by simp_all
  then show ?thesis
    unfolding lane_bit_def node_base_def by linarith
qed

lemma map_below: "fits N bs \<Longrightarrow> (\<And>b. b < N \<Longrightarrow> w b = v b) \<Longrightarrow> map w bs = map v bs"
  by (auto simp: fits_def)

text \<open>The graph with a new node, whose lanes are redirected where the result says so.\<close>

lemma push_node:
  assumes good: "good g" and n: "addable n" and w: "n_width n = width" and fit: "fits (node_base g) (operand_bits n)"
    and len: "length result = width" and bits: "\<And>k. k < width \<Longrightarrow> result ! k = node_base g + k \<or> result ! k < node_base g"
    and val: "\<And>F v k. model F g v \<Longrightarrow> k < width \<Longrightarrow> result ! k < node_base g \<Longrightarrow> computes (n_op n) \<and> v (result ! k) = lane_value F v n k"
    and g': "g' = g\<lparr>g_nodes := g_nodes g @ [n],
      g_aliases := fold (\<lambda>i al. if result ! i \<noteq> node_base g + i then fmupd (node_base g + i) (result ! i) al else al) [0..<width] (g_aliases g)\<rparr>"
  shows "extends g g'" and "fits (node_base g') result"
    and "computes (n_op n) \<Longrightarrow> model F g' v \<Longrightarrow> k < width \<Longrightarrow> v (result ! k) = lane_value F v n k"
proof -
  define base where "base = node_base g"
  have base': "node_base g' = base + 64"
    by (simp add: g' base_def node_base_def)
  have wd: "0 < width" "width \<le> 64"
    using n w by (simp_all add: addable_def)
  have old: "a < base" "b < base" if "fmlookup (g_aliases g) a = Some b" for a b
    using good that by (auto simp: good_def bounded_def base_def)
  have bits': "result ! k < base" if "k < width" "result ! k \<noteq> base + k" for k
    using bits [OF that(1)] that(2) by (simp add: base_def)
  have lookup: "fmlookup (g_aliases g') a =
      (if \<exists>i < width. a = base + i \<and> result ! i \<noteq> base + i then Some (result ! (a - base)) else fmlookup (g_aliases g) a)" for a
    unfolding g' base_def by (simp add: fold_lane_aliases [of result "node_base g"] Bex_def)
  have link: "(fmlookup (g_aliases g) a = Some b \<and> a < base \<and> b < base) \<or> (\<exists>i < width. a = base + i \<and> b = result ! i \<and> b < base)"
    if "fmlookup (g_aliases g') a = Some b" for a b
    using that old bits' unfolding lookup by (auto split: if_splits)
  have link_old: "fmlookup (g_aliases g') a = Some b" if "fmlookup (g_aliases g) a = Some b" for a b
    using that old(1) [OF that] by (simp add: lookup)
  have link_new: "fmlookup (g_aliases g') (base + i) = Some (result ! i)" if "i < width" "result ! i \<noteq> base + i" for i
    using that by (simp add: lookup)
  have agrees: "agrees (g_aliases g') v \<longleftrightarrow> agrees (g_aliases g) v \<and> (\<forall>i < width. v (base + i) = v (result ! i))" for v
  proof (rule iffI)
    assume a: "agrees (g_aliases g') v"
    then have "agrees (g_aliases g) v"
      using link_old by (simp add: agrees_def)
    moreover have "v (base + i) = v (result ! i)" if "i < width" for i
      using a link_new [OF that] by (cases "result ! i = base + i") (simp_all add: agrees_def)
    ultimately show "agrees (g_aliases g) v \<and> (\<forall>i < width. v (base + i) = v (result ! i))"
      by blast
  next
    assume "agrees (g_aliases g) v \<and> (\<forall>i < width. v (base + i) = v (result ! i))"
    then show "agrees (g_aliases g') v"
      using link by (fastforce simp: agrees_def)
  qed
  have nodes: "(\<forall>i < length (g_nodes g'). P i (g_nodes g' ! i)) \<longleftrightarrow>
      (\<forall>i < length (g_nodes g). P i (g_nodes g ! i)) \<and> P (length (g_nodes g)) n" for P
    by (auto simp: g' nth_append less_Suc_eq)
  have every: "(\<forall>i < length (g_nodes g'). \<forall>k < n_width (g_nodes g' ! i). computes (n_op (g_nodes g' ! i)) \<longrightarrow>
        v (lane_bit i k) = lane_value F v (g_nodes g' ! i) k) \<longleftrightarrow>
      (\<forall>i < length (g_nodes g). \<forall>k < n_width (g_nodes g ! i). computes (n_op (g_nodes g ! i)) \<longrightarrow>
        v (lane_bit i k) = lane_value F v (g_nodes g ! i) k) \<and>
      (\<forall>k < width. computes (n_op n) \<longrightarrow> v (base + k) = lane_value F v n k)" for F v
    using nodes [of "\<lambda>i n. \<forall>k < n_width n. computes (n_op n) \<longrightarrow> v (lane_bit i k) = lane_value F v n k"]
    by (simp only: w base_def lane_base)
  have model': "model F g' v \<longleftrightarrow> model F g v \<and> (\<forall>i < width. v (base + i) = v (result ! i)) \<and>
      (computes (n_op n) \<longrightarrow> (\<forall>k < width. v (base + k) = lane_value F v n k))" for F v
    unfolding model_def agrees every by blast
  have width64: "n_width m \<le> 64" "fits base (operand_bits m)" if "m \<in> set (g_nodes g)" for m
    using good that by (auto simp: good_def bounded_def base_def)
  have "good g'"
  proof -
    have "shaped g'"
      using good n by (auto simp: shaped_def good_def g' addable_def)
    moreover have "bounded g'"
      unfolding bounded_def base'
    proof (intro conjI allI impI ballI)
      fix a b
      assume ab: "fmlookup (g_aliases g') a = Some b"
      show "a < base + 64" "b < base + 64"
        using link [OF ab] wd by auto
    next
      fix m
      assume "m \<in> set (g_nodes g')"
      then consider "m \<in> set (g_nodes g)" | "m = n"
        by (auto simp: g')
      then have "n_width m \<le> 64 \<and> fits base (operand_bits m)"
        using width64 wd w fit by cases (auto simp: base_def)
      then show "n_width m \<le> 64" "fits (base + 64) (operand_bits m)"
        using fits_mono [of base _ "base + 64"] by simp_all
    qed
    moreover obtain r where r: "ranked r (g_aliases g)"
      using good by (auto simp: good_def)
    have "ranked (\<lambda>a. if a < base then r a else Suc (Max (r ` {..<base}))) (g_aliases g')"
      unfolding ranked_def
    proof (intro allI impI)
      fix a b
      assume "fmlookup (g_aliases g') a = Some b"
      then consider "fmlookup (g_aliases g) a = Some b" "a < base" "b < base" | "\<not> a < base" "b < base"
        using link by fastforce
      then show "(if b < base then r b else Suc (Max (r ` {..<base}))) < (if a < base then r a else Suc (Max (r ` {..<base})))"
        using r by cases (auto simp: ranked_def less_Suc_eq_le)
    qed
    ultimately show ?thesis
      by (auto simp: good_def)
  qed
  moreover have "\<exists>u. model F g' u \<and> (\<forall>b < base. u b = v b)" if m: "model F g v" for F v
  proof -
    define u where "u b = (if base \<le> b \<and> b < base + width \<and> computes (n_op n) then lane_value F v n (b - base)
      else if base \<le> b \<and> b < base + width \<and> result ! (b - base) < base then v (result ! (b - base)) else v b)" for b
    have low: "u b = v b" if "b < base" for b
      using that by (simp add: u_def)
    have z: "zero_one v" "zero_one u"
      using m low node_base_gt [of g] by (auto simp: model_def base_def)
    have lv: "lane_value F u m k = lane_value F v m k" if "fits base (operand_bits m)" for m k
      using that z by (intro lane_value_cong map_below [of base _ u v, OF _ low]) (simp_all add: operand_bits_def)
    have "model F g u"
      unfolding model_def
    proof (intro conjI allI impI)
      show "\<not> u 0" "u (Suc 0)"
        using z(2) by simp_all
      show "agrees (g_aliases g) u"
        using m old low by (auto simp: model_def agrees_def)
      fix i k
      assume ik: "i < length (g_nodes g)" "k < n_width (g_nodes g ! i)" "computes (n_op (g_nodes g ! i))"
      then have "lane_bit i k < base"
        using width64(1) [of "g_nodes g ! i"] lane_below [of i g k] by (simp add: base_def)
      then show "u (lane_bit i k) = lane_value F u (g_nodes g ! i) k"
        using m ik lv width64(2) [of "g_nodes g ! i"] low by (simp add: model_def)
    qed
    moreover have "u (base + k) = lane_value F u n k" if "k < width" "computes (n_op n)" for k
      using that lv fit by (simp add: u_def base_def)
    moreover have "u (base + k) = u (result ! k)" if "k < width" for k
      using bits [OF that] val [OF m that] that by (auto simp: u_def base_def)
    ultimately show ?thesis
      using low by (auto simp: model')
  qed
  ultimately show "extends g g'"
    by (auto simp: extends_def model' base_def [symmetric]) (simp_all add: g')
  show "fits (node_base g') result"
    unfolding fits_def base'
  proof
    fix b
    assume "b \<in> set result"
    then obtain k where "k < width" "b = result ! k"
      by (auto simp: in_set_conv_nth len)
    then show "b < base + 64"
      using bits [of k] wd by (auto simp: base_def)
  qed
  show "v (result ! k) = lane_value F v n k" if "computes (n_op n)" "model F g' v" "k < width"
    using that unfolding model' by metis
qed

text \<open>What an addition gives: the bits of a new or an existing node.\<close>

lemma add_node_extends:
  assumes good: "good g" and n: "addable n" "fits (node_base g) (operand_bits n)"
    and n_eq: "n = \<lparr>n_op = op, n_width = width, n_left = left, n_right = right, n_select = select, n_name = name, n_scope = g_scope g\<rparr>"
  obtains result g' where "add_node op width left right select name g = Inr (result, g')" and "extends g g'" and "length result = width"
    and "fits (node_base g') result"
    and "\<And>F v k. computes op \<Longrightarrow> model F g' v \<Longrightarrow> k < width \<Longrightarrow> v (result ! k) = lane_value F v n k"
proof -
  obtain n' rs g1 where s: "simplifyNode n g = Inr ((n', rs), g1)" and c: "compressed g g1"
    and fit': "fits (node_base g) (operand_bits n')" and rsb: "\<And>k b. (k, b) \<in> set rs \<Longrightarrow> b < node_base g"
    using simplifyNode_total [OF good n] by blast
  have w: "0 < width" "width \<le> 64" "n_width n = width" "n_op n = op"
    using n(1) by (simp_all add: addable_def n_eq)
  have shape: "transparent (n_op n) \<longrightarrow> node_ok n"
    using n(1) by (simp add: addable_def)
  note f = simplifyNode_facts [OF s shape]
  note g1 = compressed_good [OF c good]
  define base where "base = node_base g"
  have agree: "agrees (g_aliases g1) = agrees (g_aliases g)"
    by (rule compressed_fields [OF c])
  define result where "result = redirect_result rs (map (\<lambda>index. base + index) [0..<width])"
  have len: "length result = width"
    by (simp add: result_def redirect_result_nth(1))
  have nth: "result ! k = base + k \<or> (k, result ! k) \<in> set rs" if "k < width" for k
    using redirect_result_nth(2) [of k "map (\<lambda>index. base + index) [0..<width]" rs] that by (simp add: result_def)
  have red: "computes op \<and> v (result ! k) = lane_value F v n k" if "model F g1 v" "k < width" "result ! k \<noteq> base + k" for F v k
  proof -
    have "(k, result ! k) \<in> set rs"
      using nth that by blast
    then have "transparent op \<and> v (result ! k) = lane_value F v n k"
      using f(6) [of v k "result ! k" F] that(1) w(4) by (simp add: model_def agree)
    moreover have "transparent op \<Longrightarrow> computes op"
      by (auto simp: transparent_def word_ops_def computes_def)
    ultimately show ?thesis
      by blast
  qed
  show thesis
  proof (cases "list_all (\<lambda>b. \<not> (base \<le> b \<and> b < base + width)) result")
    case True
    have all: "result ! k \<noteq> base + k" if "k < width" for k
      using True that len by (auto simp: list_all_length)
    have run: "add_node op width left right select name g = Inr (result, g1)"
      using w s True by (simp add: add_node_def gbind_def gret_def Let_def n_eq [symmetric] base_def result_def)
    have "result ! k < node_base g" if "k < width" for k
      using nth [OF that] all [OF that] rsb by blast
    then have "fits (node_base g1) result"
      by (auto simp: fits_def in_set_conv_nth g1(2) len)
    then show thesis
      using that [OF run g1(3) len] red all by blast
  next
    case False
    define g' where "g' = g1\<lparr>g_nodes := g_nodes g1 @ [n'],
      g_aliases := fold (\<lambda>i al. if result ! i \<noteq> node_base g1 + i then fmupd (node_base g1 + i) (result ! i) al else al) [0..<width] (g_aliases g1)\<rparr>"
    have run: "add_node op width left right select name g = Inr (result, g')"
      using w s False unfolding g'_def g1(2) result_def base_def
      by (simp add: add_node_def gbind_def gret_def Let_def n_eq [symmetric])
    have n': "n_width n' = width" "computes (n_op n') = computes op"
      using f(2,3) w by simp_all
    have lv: "lane_value F v n' k = lane_value F v n k" if "model F g1 v" "k < width" for F v k
      using f(5) [of v k F] that w by (simp add: model_def agree)
    obtain left' right' select' where m: "length left' = length (n_left n)" "length right' = length (n_right n)" "length select' = length (n_select n)"
      "n' = rewrite_power (n\<lparr>n_left := left', n_right := right', n_select := select'\<rparr>)"
      using f(7) by blast
    have "addable n'"
    proof (cases "transparent op")
      case True
      have "node_ok (n\<lparr>n_left := left', n_right := right', n_select := select'\<rparr>) = node_ok n"
        by (rule node_ok_cong) (simp_all add: m)
      then have "transparent (n_op n')"
        using True shape w(4) rewrite_power_sound(3) [of "n\<lparr>n_left := left', n_right := right', n_select := select'\<rparr>" "\<lambda>b. b = 1"]
        by (simp add: m(4))
      then show ?thesis
        using f(4) w n'(1) by (simp add: addable_def)
    next
      case False
      have "rewrite_power (n\<lparr>n_left := left', n_right := right', n_select := select'\<rparr>) = n\<lparr>n_left := left', n_right := right', n_select := select'\<rparr>"
        using False w(4) by (simp add: rewrite_power_def transparent_def word_ops_def)
      then show ?thesis
        using False n(1) m(2) w by (auto simp: addable_def m(4))
    qed
    note add' = this
    have bits: "result ! k = node_base g1 + k \<or> result ! k < node_base g1" if "k < width" for k
      using nth [OF that] rsb by (auto simp: g1(2) base_def)
    have val: "computes (n_op n') \<and> v (result ! k) = lane_value F v n' k"
      if "model F g1 v" "k < width" "result ! k < node_base g1" for F v k
      using red [OF that(1,2)] that(3) lv [OF that(1,2)] n'(2) by (simp add: g1(2) base_def)
    note p = push_node [OF g1(1) add' n'(1) fit' [folded g1(2)] len bits val g'_def]
    have "extends g g'"
      using p(1) g1(3) extends_trans by blast
    moreover have "v (result ! k) = lane_value F v n k" if "computes op" "model F g' v" "k < width" for F v k
      using p(3) [of F v k] that n'(2) lv [OF extends_model [OF p(1) that(2)] that(3)] by simp
    ultimately show thesis
      using that [OF run _ len p(2)] by blast
  qed
qed

end
