(* ===== verification/GraphOps.thy ===== *)
theory GraphOps
  imports GraphBuild
begin

text \<open>
  The operations of the class \<open>Graph\<close> that build logic: \<open>unary\<close>, \<open>binary\<close> with its bitwise, narrow
  and wide forms, and \<open>mux\<close>. The forms of \<open>binary\<close> that call \<open>binary\<close> at other operations are
  stated over the parts they reach; \<open>binary_parts\<close> and \<open>binary_mul\<close> give back the recursive calls.
\<close>

section \<open>Operations\<close>

text \<open>A loop that threads a value: \<open>for (x : xs) result = step(x, result)\<close>.\<close>

fun gfold :: "('a \<Rightarrow> 'b \<Rightarrow> 'b gcomp) \<Rightarrow> 'a list \<Rightarrow> 'b \<Rightarrow> 'b gcomp" where
  "gfold step [] result = gret result"
| "gfold step (x # xs) result = gbind (step x result) (gfold step xs)"

text \<open>\<open>binary\<close> of the bitwise operations.\<close>

definition bitwise :: "string \<Rightarrow> gvalue \<Rightarrow> gvalue \<Rightarrow> nat \<Rightarrow> gvalue gcomp" where
  "bitwise op left right width =
     (let left = resize left width False; right = resize right width False
      in gbind (gmap (\<lambda>offset.
           let count = min 64 (width - offset)
           in add_node op count (slice left (int offset) count) (slice right (int offset) count) [] [])
           (offsets 64 0 width)) (\<lambda>parts. gret (concat parts)))"

definition unary :: "string \<Rightarrow> gvalue \<Rightarrow> gvalue gcomp" where
  "unary op value =
     (if op = ''not'' then bitwise ''xor'' value (replicate (length value) 1) (length value)
      else gfold (\<lambda>offset result.
        let part = slice value (int offset) (min 64 (length value - offset))
        in gbind
          (case number part of
             Some known \<Rightarrow>
               let flag = (if op = ''all'' then known = graph_mask (length part)
                           else if op = ''parity'' then native_parity known \<noteq> 0 else known \<noteq> 0)
               in gret (const_value (of_bool flag) 1)
           | None \<Rightarrow> add_node op 1 part [] [] [])
          (\<lambda>reduced. bitwise (if op = ''all'' then ''and'' else if op = ''parity'' then ''xor'' else ''or'') result reduced 1))
        (offsets 64 0 (length value)) [of_bool (op = ''all'')])"

definition mux :: "gvalue \<Rightarrow> gvalue \<Rightarrow> gvalue \<Rightarrow> gvalue gcomp" where
  "mux condition yes no =
     gbind (unary ''any'' condition) (\<lambda>condition.
       if length yes \<noteq> length no then gthrow (Runtime_error ''mux width mismatch'')
       else gbind (glift (at condition 0)) (\<lambda>c.
         if c < 2 then gret (if c \<noteq> 0 then yes else no)
         else if yes = no then gret yes
         else gbind (gmap (\<lambda>offset.
             let count = min 64 (length yes - offset)
             in add_node ''mux'' count (slice yes (int offset) count) (slice no (int offset) count) condition [])
             (offsets 64 0 (length yes))) (\<lambda>parts. gret (concat parts))))"

text \<open>The end of \<open>binary\<close>: one node of at most 64 bits.\<close>

definition narrow :: "string \<Rightarrow> gvalue \<Rightarrow> gvalue \<Rightarrow> nat \<Rightarrow> gvalue gcomp" where
  "narrow op left right width =
     (case (number left, number right) of
        (Some lhs, Some rhs) \<Rightarrow>
          gbind (glift (calculate op lhs rhs (length left))) (\<lambda>result. gret (const_value result width))
      | _ \<Rightarrow> add_node op width left right [] [])"

text \<open>The constant power-of-two factor at the head of \<open>binary\<close>.\<close>

fun shift_loop :: "gvalue \<Rightarrow> nat \<Rightarrow> nat option \<Rightarrow> nat option" where
  "shift_loop [] i shift = shift"
| "shift_loop (b # bs) i shift =
     (if 1 < b then None
      else if b \<noteq> 0 then if shift \<noteq> None then None else shift_loop bs (i + 1) (Some i)
      else shift_loop bs (i + 1) shift)"

definition constant_power :: "gvalue \<Rightarrow> nat option gcomp" where
  "constant_power value = gbind (resolved value) (\<lambda>value. gret (shift_loop value 0 None))"

definition power_product :: "(gvalue \<Rightarrow> gvalue \<Rightarrow> nat \<Rightarrow> gvalue gcomp) \<Rightarrow> gvalue \<Rightarrow> gvalue \<Rightarrow> nat \<Rightarrow> gvalue gcomp" where
  "power_product product left right width =
     gbind (constant_power right) (\<lambda>shift.
       gbind (if shift = None
              then gbind (constant_power left) (\<lambda>shift. gret (shift, if shift \<noteq> None then (right, left) else (left, right)))
              else gret (shift, (left, right))) (\<lambda>(shift, (left, right)).
         case shift of
           Some s \<Rightarrow> gret (resize (replicate (min s width) 0 @ left) width False)
         | None \<Rightarrow> product left right width))"

definition exceeds :: "gvalue \<Rightarrow> gvalue \<Rightarrow> nat \<Rightarrow> bool" where
  "exceeds left right width \<longleftrightarrow> 64 < length left \<or> 64 < length right \<or> 64 < width"

definition wide_eq :: "gvalue \<Rightarrow> gvalue \<Rightarrow> nat \<Rightarrow> gvalue gcomp" where
  "wide_eq left right width =
     (let count = max (length left) (length right)
      in gbind (bitwise ''xor'' (resize left count False) (resize right count False) count) (\<lambda>different.
           gbind (unary ''any'' different) (\<lambda>any. gbind (unary ''not'' any) (\<lambda>equal. gret (resize equal width False)))))"

definition wide_lt :: "gvalue \<Rightarrow> gvalue \<Rightarrow> nat \<Rightarrow> gvalue gcomp" where
  "wide_lt left right width =
     (let count = max (length left) (length right); left = resize left count False; right = resize right count False
      in gbind (gfold (\<lambda>offset less.
           let len = min 64 (count - offset); a = slice left (int offset) len; b = slice right (int offset) len
           in gbind (narrow ''eq'' a b 1) (\<lambda>equal. gbind (narrow ''lt'' a b 1) (\<lambda>lower. mux equal less lower)))
           (offsets 64 0 count) [0]) (\<lambda>less. gret (resize less width False)))"

text \<open>\<open>std::vector::resize\<close> with a fill.\<close>

definition vector_resize :: "gvalue \<Rightarrow> nat \<Rightarrow> gbit \<Rightarrow> gvalue" where
  "vector_resize value n fill = take n value @ replicate (n - length value) fill"

function stage_count :: "nat \<Rightarrow> nat \<Rightarrow> nat" where
  "stage_count stages n = (if 2 ^ stages < n then stage_count (stages + 1) n else stages)"
  by pat_completeness auto
termination
  by (relation "measure (\<lambda>(stages, n). n - 2 ^ stages)") (auto intro: diff_less_mono2)

declare stage_count.simps [simp del]

definition wide_shift_right :: "string \<Rightarrow> gvalue \<Rightarrow> gvalue \<Rightarrow> nat \<Rightarrow> gvalue gcomp" where
  "wide_shift_right op left right width =
     (let fill = (if op = ''sar'' \<and> left \<noteq> [] then last left else 0);
          left = vector_resize left (max (length left) width) fill;
          stages = stage_count 0 (length left)
      in gbind (gfold (\<lambda>stage left.
           let amount = 2 ^ stage; needed = min (length left) (width + amount - 1);
               moved = map (\<lambda>i. if amount < length left - i then left ! (i + amount) else fill) [0..<needed];
               left = vector_resize left needed fill
           in if stage < length right then mux [right ! stage] moved left else gret left) (rev [0..<stages]) left) (\<lambda>left.
         let left = vector_resize left width fill
         in if stages < length right
            then gbind (unary ''any'' (slice right (int stages) (length right - stages))) (\<lambda>over. mux over (replicate width fill) left)
            else gret left))"

definition wide_shl :: "gvalue \<Rightarrow> gvalue \<Rightarrow> nat \<Rightarrow> gvalue gcomp" where
  "wide_shl left right width =
     (let left = vector_resize left (max (length left) width) 0
      in gbind (gfold (\<lambda>stage left.
           let moved = map (\<lambda>i. if stage < 63 \<and> 2 ^ stage \<le> i then left ! (i - 2 ^ stage) else 0) [0..<length left]
           in mux [right ! stage] moved left) [0..<length right] left) (\<lambda>left. gret (resize left width False)))"

text \<open>The limbs of 32 bits of an addition; the state of the loop is the result and the carry.\<close>

definition wide_add :: "string \<Rightarrow> gvalue \<Rightarrow> gvalue \<Rightarrow> nat \<Rightarrow> gvalue gcomp" where
  "wide_add op left right width =
     (let left = resize left width False; right = resize right width False
      in gbind (gfold (\<lambda>offset (result, carry).
           let count = min 32 (width - offset);
               a = resize (slice left (int offset) count) (count + 1) False;
               b = slice right (int offset) count
           in gbind (if op = ''sub'' then unary ''not'' b else gret b) (\<lambda>b.
              gbind (narrow ''add'' a (resize b (count + 1) False) (count + 1)) (\<lambda>sum.
              gbind (narrow ''add'' sum (resize carry (count + 1) False) (count + 1)) (\<lambda>sum.
                gret (result @ slice sum 0 count, slice sum (int count) 1)))))
           (offsets 32 0 width) ([], [of_bool (op = ''sub'')])) (\<lambda>(result, carry). gret result))"

definition sum_of :: "gvalue \<Rightarrow> gvalue \<Rightarrow> nat \<Rightarrow> gvalue gcomp" where
  "sum_of left right width = (if exceeds left right width then wide_add ''add'' left right width else narrow ''add'' left right width)"

definition wide_mul :: "gvalue \<Rightarrow> gvalue \<Rightarrow> nat \<Rightarrow> gvalue gcomp" where
  "wide_mul left right width =
     (let left = resize left width False; right = resize right width False
      in gfold (\<lambda>(a, b) result.
           let lhs = slice left (int a) (min 32 (width - a)); rhs = slice right (int b) (min 32 (width - b))
           in gbind (power_product (narrow ''mul'') (resize lhs 64 False) (resize rhs 64 False) 64) (\<lambda>product.
                sum_of result (resize (replicate (a + b) 0 @ product) width False) width))
           (concat (map (\<lambda>a. map (\<lambda>b. (a, b)) (offsets 32 0 (width - a))) (offsets 32 0 width)))
           (replicate width 0))"

definition wide :: "string \<Rightarrow> gvalue \<Rightarrow> gvalue \<Rightarrow> nat \<Rightarrow> gvalue gcomp" where
  "wide op left right width =
     (if op = ''eq'' then wide_eq left right width
      else if op = ''lt'' then wide_lt left right width
      else if op = ''shr'' \<or> op = ''sar'' then wide_shift_right op left right width
      else if op = ''shl'' then wide_shl left right width
      else if op = ''add'' \<or> op = ''sub'' then wide_add op left right width
      else if op = ''mul'' then wide_mul left right width
      else gthrow (Runtime_error (''wide arithmetic not supported: '' @ op)))"

definition binary :: "string \<Rightarrow> gvalue \<Rightarrow> gvalue \<Rightarrow> nat \<Rightarrow> gvalue gcomp" where
  "binary op left right width =
     (let rest = (\<lambda>left right width.
        if op = ''and'' \<or> op = ''or'' \<or> op = ''xor'' \<or> op = ''mux'' then bitwise op left right width
        else if exceeds left right width then wide op left right width
        else narrow op left right width)
      in if op = ''mul'' then power_product rest left right width else rest left right width)"

text \<open>The parts of \<open>binary\<close> that its other parts call are \<open>binary\<close> at those operations.\<close>

lemma binary_parts:
  "binary ''xor'' left right width = bitwise ''xor'' left right width"
  "binary ''and'' left right width = bitwise ''and'' left right width"
  "binary ''or'' left right width = bitwise ''or'' left right width"
  "binary ''add'' left right width = sum_of left right width"
  "\<not> exceeds left right width \<Longrightarrow> binary ''eq'' left right width = narrow ''eq'' left right width"
  "\<not> exceeds left right width \<Longrightarrow> binary ''lt'' left right width = narrow ''lt'' left right width"
  by (simp_all add: binary_def sum_of_def wide_def)

lemma gbind_simps [simp]: "gbind (gret x) f = f x" "gbind (gbind m f) h = gbind m (\<lambda>x. gbind (f x) h)" "gbind (gthrow e) f = gthrow e"
  by (auto simp: gbind_def gret_def gthrow_def fun_eq_iff split: sum.split)

lemma binary_mul:
  assumes "\<not> exceeds left right width"
  shows "binary ''mul'' left right width = power_product (narrow ''mul'') left right width"
proof -
  have "power_product f left right width = power_product h left right width" if "f left right width = h left right width" for f h
    unfolding power_product_def
  proof (rule arg_cong [of _ _ "gbind (constant_power right)"], rule ext)
    fix shift
    have inner: "(\<lambda>s. case (s, if s \<noteq> None then (right, left) else (left, right)) of (s, l, r) \<Rightarrow>
          case s of None \<Rightarrow> p l r width | Some s \<Rightarrow> gret (resize (replicate (min s width) 0 @ l) width False)) =
        (\<lambda>s. case s of None \<Rightarrow> p left right width | Some s \<Rightarrow> gret (resize (replicate (min s width) 0 @ right) width False))" for p
      by (rule ext) (simp split: option.split)
    show "gbind (if shift = None then gbind (constant_power left) (\<lambda>shift. gret (shift, if shift \<noteq> None then (right, left) else (left, right)))
        else gret (shift, left, right)) (\<lambda>(shift, left, right). case shift of None \<Rightarrow> f left right width
          | Some s \<Rightarrow> gret (resize (replicate (min s width) 0 @ left) width False)) =
      gbind (if shift = None then gbind (constant_power left) (\<lambda>shift. gret (shift, if shift \<noteq> None then (right, left) else (left, right)))
        else gret (shift, left, right)) (\<lambda>(shift, left, right). case shift of None \<Rightarrow> h left right width
          | Some s \<Rightarrow> gret (resize (replicate (min s width) 0 @ left) width False))"
    proof (cases shift)
      case None
      then show ?thesis
        by (simp only: if_True simp_thms gbind_simps inner [of f] inner [of h] that)
    qed simp
  qed
  note swap = this
  have "binary ''mul'' left right width = power_product (\<lambda>left right width.
      if exceeds left right width then wide ''mul'' left right width else narrow ''mul'' left right width) left right width"
    by (simp add: binary_def)
  also have "\<dots> = power_product (narrow ''mul'') left right width"
    by (rule swap) (simp add: assms)
  finally show ?thesis .
qed
end
