(* ===== verification/GraphOpsSound.thy ===== *)
theory GraphOpsSound
  imports GraphOps
begin

text \<open>
  Correctness of the building operations. On a well-formed graph every operation returns, extends
  the graph by definitions, and gives bits that denote the result of the arithmetic operation on
  the numbers the operands denote, at any width.
\<close>

section \<open>Builders\<close>

text \<open>A computation that returns on a graph, extends it and establishes a postcondition; a value
  that denotes a number in the models of a graph.\<close>

definition runs :: "graph \<Rightarrow> 'a gcomp \<Rightarrow> (graph \<Rightarrow> 'a \<Rightarrow> bool) \<Rightarrow> bool" where
  "runs g m P \<longleftrightarrow> (\<exists>x g'. m g = Inr (x, g') \<and> extends g g' \<and> P g' x)"

definition denotes :: "nat \<Rightarrow> ((gbit \<Rightarrow> bool) \<Rightarrow> nat) \<Rightarrow> graph \<Rightarrow> gvalue \<Rightarrow> bool" where
  "denotes w f g x \<longleftrightarrow> length x = w \<and> fits (node_base g) x \<and> (\<forall>F v. model F g v \<longrightarrow> bval v x = f v)"

abbreviation builds :: "graph \<Rightarrow> gvalue gcomp \<Rightarrow> nat \<Rightarrow> ((gbit \<Rightarrow> bool) \<Rightarrow> nat) \<Rightarrow> bool" where
  "builds g m w f \<equiv> runs g m (denotes w f)"

lemma denotes_extends: "denotes w f g x \<Longrightarrow> extends g g' \<Longrightarrow> denotes w f g' x"
  unfolding denotes_def using fits_extends extends_model by blast

lemma denotes_fits: "denotes w f g x \<Longrightarrow> fits (node_base g) x"
  and denotes_length: "denotes w f g x \<Longrightarrow> length x = w"
  by (simp_all add: denotes_def)

lemma denotes_self: "fits (node_base g) x \<Longrightarrow> denotes (length x) (\<lambda>v. bval v x) g x"
  by (simp add: denotes_def)

lemma denotes_cong: "denotes w f g x \<Longrightarrow> (\<And>F v. model F g v \<Longrightarrow> f v = f' v) \<Longrightarrow> denotes w f' g x"
  unfolding denotes_def by metis

lemma runs_ret: "good g \<Longrightarrow> P g x \<Longrightarrow> runs g (gret x) P"
  using extends_refl by (auto simp: runs_def gret_def)

lemma runs_bind:
  assumes m: "runs g m P" and k: "\<And>x g'. extends g g' \<Longrightarrow> good g' \<Longrightarrow> P g' x \<Longrightarrow> runs g' (k x) Q"
  shows "runs g (gbind m k) Q"
proof -
  obtain x g1 where x: "m g = Inr (x, g1)" "extends g g1" "P g1 x"
    using m by (auto simp: runs_def)
  have "runs g1 (k x) Q"
    using k [OF x(2) extends_good [OF x(2)] x(3)] .
  then obtain y g2 where y: "k x g1 = Inr (y, g2)" "extends g1 g2" "Q g2 y"
    by (auto simp: runs_def)
  show ?thesis
    unfolding runs_def using x(1) y(1,3) extends_trans [OF x(2) y(2)] by (auto simp: gbind_def)
qed

lemma runs_mono:
  assumes "runs g m P" and "\<And>g' x. extends g g' \<Longrightarrow> P g' x \<Longrightarrow> Q g' x"
  shows "runs g m Q"
  using assms by (auto simp: runs_def)

lemma model_zero_one: "model F g v \<Longrightarrow> zero_one v"
  by (simp add: model_def)

text \<open>The loops over the parts of a value.\<close>

lemma offsets_end: "w \<le> off \<Longrightarrow> offsets p off w = []"
  by (simp add: offsets.simps)

lemma offsets_step: "0 < p \<Longrightarrow> off < w \<Longrightarrow> offsets p off w = off # offsets p (off + p) w"
  by (subst offsets.simps) simp

lemma offsets_induct [consumes 1, case_names finish step]:
  assumes "0 < (p :: nat)" and "\<And>off. w \<le> off \<Longrightarrow> P off" and "\<And>off. off < w \<Longrightarrow> P (off + p) \<Longrightarrow> P off"
  shows "P off"
proof (induction "w - off" arbitrary: off rule: less_induct)
  case less
  show ?case
  proof (cases "w \<le> off")
    case False
    then have "w - (off + p) < w - off"
      using assms(1) by simp
    then show ?thesis
      using less assms(3) False by simp
  qed (rule assms(2))
qed

lemma runs_offsets:
  assumes p: "0 < p" and good: "good g" and start: "J off g r"
    and step: "\<And>off g' r. off < w \<Longrightarrow> extends g g' \<Longrightarrow> J off g' r \<Longrightarrow> runs g' (step off r) (J (off + p))"
  shows "runs g (gfold step (offsets p off w) r) (\<lambda>g' r. \<exists>off. w \<le> off \<and> J off g' r)"
  using good start step
proof (induction off arbitrary: g r rule: offsets_induct [OF p, of w])
  case (1 off)
  then show ?case
    by (auto simp: offsets_end intro!: runs_ret)
next
  case (2 off)
  have "runs g (gbind (step off r) (gfold step (offsets p (off + p) w))) (\<lambda>g' r. \<exists>off. w \<le> off \<and> J off g' r)"
  proof (rule runs_bind)
    show "runs g (step off r) (J (off + p))"
      by (rule 2(5) [OF 2(1) extends_refl [OF 2(3)] 2(4)])
    fix r' g'
    assume g': "extends g g'" "good g'" "J (off + p) g' r'"
    show "runs g' (gfold step (offsets p (off + p) w) r') (\<lambda>g' r. \<exists>off. w \<le> off \<and> J off g' r)"
      by (rule 2(2) [OF g'(2,3)]) (rule 2(5), assumption, rule extends_trans [OF g'(1)])
  qed
  then show ?case
    by (simp add: offsets_step [OF p 2(1)])
qed

lemma gmap_concat_Cons: "gbind (gmap c (x # xs)) (\<lambda>ps. gret (concat ps)) =
    gbind (c x) (\<lambda>p. gbind (gbind (gmap c xs) (\<lambda>ps. gret (concat ps))) (\<lambda>r. gret (p @ r)))"
  by simp

lemma split_number: "m \<le> n \<Longrightarrow> (x :: nat) mod 2 ^ m + 2 ^ m * (x div 2 ^ m mod 2 ^ (n - m)) = x mod 2 ^ n"
  using mod_mult2_eq [of x "2 ^ m" "2 ^ (n - m)"] by (simp flip: power_add)

lemma builds_chunks:
  assumes p: "0 < p" and good: "good g"
    and part: "\<And>off g'. off < w \<Longrightarrow> extends g g' \<Longrightarrow> builds g' (c off) (min p (w - off)) (\<lambda>v. f v div 2 ^ off mod 2 ^ min p (w - off))"
  shows "builds g (gbind (gmap c (offsets p off w)) (\<lambda>ps. gret (concat ps))) (w - off) (\<lambda>v. f v div 2 ^ off mod 2 ^ (w - off))"
  using good part
proof (induction off arbitrary: g rule: offsets_induct [OF p, of w])
  case (1 off)
  then show ?case
    by (auto simp: offsets_end denotes_def intro!: runs_ret)
next
  case (2 off)
  define n where "n = min p (w - off)"
  have "builds g (gbind (c off) (\<lambda>p'. gbind (gbind (gmap c (offsets p (off + p) w)) (\<lambda>ps. gret (concat ps))) (\<lambda>r. gret (p' @ r))))
      (w - off) (\<lambda>v. f v div 2 ^ off mod 2 ^ (w - off))"
  proof (rule runs_bind)
    show "builds g (c off) n (\<lambda>v. f v div 2 ^ off mod 2 ^ n)"
      unfolding n_def by (rule 2(4) [OF 2(1) extends_refl [OF 2(3)]])
    fix x g1
    assume g1: "extends g g1" "good g1" "denotes n (\<lambda>v. f v div 2 ^ off mod 2 ^ n) g1 x"
    show "builds g1 (gbind (gbind (gmap c (offsets p (off + p) w)) (\<lambda>ps. gret (concat ps))) (\<lambda>r. gret (x @ r)))
        (w - off) (\<lambda>v. f v div 2 ^ off mod 2 ^ (w - off))"
    proof (rule runs_bind)
      show "builds g1 (gbind (gmap c (offsets p (off + p) w)) (\<lambda>ps. gret (concat ps))) (w - (off + p))
          (\<lambda>v. f v div 2 ^ (off + p) mod 2 ^ (w - (off + p)))"
        by (rule 2(2) [OF g1(2)]) (rule 2(4), assumption, rule extends_trans [OF g1(1)])
      fix r g2
      assume g2: "extends g1 g2" "good g2" "denotes (w - (off + p)) (\<lambda>v. f v div 2 ^ (off + p) mod 2 ^ (w - (off + p))) g2 r"
      have x: "denotes n (\<lambda>v. f v div 2 ^ off mod 2 ^ n) g2 x"
        by (rule denotes_extends [OF g1(3) g2(1)])
      have "bval v (x @ r) = f v div 2 ^ off mod 2 ^ (w - off)" if m: "model F g2 v" for F v
      proof -
        have b: "bval v x = f v div 2 ^ off mod 2 ^ n" "bval v r = f v div 2 ^ (off + p) mod 2 ^ (w - (off + p))" "length x = n"
          using x g2(3) m by (auto simp: denotes_def)
        show ?thesis
        proof (cases "p \<le> w - off")
          case True
          then have n: "n = p"
            by (simp add: n_def)
          have "f v div 2 ^ (off + p) = f v div 2 ^ off div 2 ^ p"
            by (simp add: power_add div_mult2_eq)
          then show ?thesis
            using b True split_number [of p "w - off" "f v div 2 ^ off"] by (simp add: bval_append n)
        next
          case False
          then show ?thesis
            using b by (simp add: bval_append n_def)
        qed
      qed
      moreover have "length (x @ r) = w - off" "fits (node_base g2) (x @ r)"
        using x g2(3) by (auto simp: denotes_def n_def)
      ultimately show "builds g2 (gret (x @ r)) (w - off) (\<lambda>v. f v div 2 ^ off mod 2 ^ (w - off))"
        using g2(2) by (intro runs_ret) (auto simp: denotes_def)
    qed
  qed
  then show ?case
    unfolding offsets_step [OF p 2(1)] gmap_concat_Cons .
qed

section \<open>Nodes\<close>

definition probe :: "string \<Rightarrow> nat \<Rightarrow> gvalue \<Rightarrow> gvalue \<Rightarrow> gvalue \<Rightarrow> node" where
  "probe op width left right select =
     \<lparr>n_op = op, n_width = width, n_left = left, n_right = right, n_select = select, n_name = [], n_scope = []\<rparr>"

lemma add_builds:
  assumes good: "good g" and t: "transparent op" and ok: "node_ok (probe op width left right select)"
    and fit: "fits (node_base g) left" "fits (node_base g) right" "fits (node_base g) select"
  shows "builds g (add_node op width left right select name) width (\<lambda>v. unat (node_word v (probe op width left right select)))"
proof -
  define n where "n = \<lparr>n_op = op, n_width = width, n_left = left, n_right = right, n_select = select, n_name = name, n_scope = g_scope g\<rparr>"
  have "node_ok n = node_ok (probe op width left right select)"
    by (rule node_ok_cong) (simp_all add: n_def probe_def)
  moreover have "0 < width" "width \<le> 64"
    using ok by (simp_all add: node_ok_def probe_def)
  ultimately have "addable n"
    using ok t by (simp add: addable_def n_def)
  moreover have "fits (node_base g) (operand_bits n)"
    using fit by (simp add: operand_bits_def n_def)
  ultimately obtain result g' where run: "add_node op width left right select name g = Inr (result, g')" and ext: "extends g g'"
    and len: "length result = width" and fits: "fits (node_base g') result"
    and val: "\<And>F v k. computes op \<Longrightarrow> model F g' v \<Longrightarrow> k < width \<Longrightarrow> v (result ! k) = lane_value F v n k"
    using add_node_extends [OF good _ _ n_def] by blast
  have "computes op"
    using t by (auto simp: transparent_def word_ops_def computes_def)
  have word: "node_word v n = node_word v (probe op width left right select)" for v
    by (simp add: node_word_def n_def probe_def)
  have high: "bit (node_word v n) k \<Longrightarrow> k < width" for v k
    by (simp add: node_word_def bit_and_iff bit_graph_mask n_def)
  have "bval v result = unat (node_word v n)" if "model F g' v" for F v
  proof (rule bval_eqI)
    fix k
    show "bit (unat (node_word v n)) k \<longleftrightarrow> k < length result \<and> v (result ! k)"
      using val [OF \<open>computes op\<close> that, of k] high [of v k] t len
      by (auto simp: bit_unsigned_iff lane_value_def node_bit_def n_def dest: bit_imp_le_length)
  qed
  then show ?thesis
    using run ext len fits unfolding runs_def denotes_def word by blast
qed

section \<open>Bitwise operations\<close>

definition bit_op :: "string \<Rightarrow> nat \<Rightarrow> nat \<Rightarrow> nat" where
  "bit_op op a b = (if op = ''and'' then a AND b else if op = ''or'' then a OR b else a XOR b)"

lemma bit_bit_op: "bit (bit_op op a b) k =
    (if op = ''and'' then bit a k \<and> bit b k else if op = ''or'' then bit a k \<or> bit b k else bit a k \<noteq> bit b k)"
  by (simp add: bit_op_def bit_and_iff bit_or_iff bit_xor_iff)

lemma bit_node_word: "bit (node_word v n) k \<longleftrightarrow> node_bit v n k"
  by (simp add: node_bit_def)

lemma node_word_high: "bit (node_word v n) k \<Longrightarrow> k < n_width n"
  by (simp add: node_word_def bit_and_iff bit_graph_mask)

lemma node_word_lane:
  assumes "length left = w" "length right = w" "0 < w" "w \<le> 64" and op: "op = ''and'' \<or> op = ''or'' \<or> op = ''xor''"
  shows "unat (node_word v (probe op w left right [])) = bit_op op (bval v left) (bval v right)"
proof (rule bit_eqI)
  fix k
  define n where "n = probe op w left right []"
  have n: "n_op n = op" "n_width n = w" "n_left n = left" "n_right n = right"
    by (simp_all add: n_def probe_def)
  have "node_ok n"
    using assms by (auto simp: node_ok_def n)
  have "bit (node_word v n) k \<longleftrightarrow> k < w \<and> node_bit v n k"
    using node_word_high [of v n k] by (auto simp: bit_node_word n)
  also have "\<dots> \<longleftrightarrow> bit (bit_op op (bval v left) (bval v right)) k"
    using node_bit_lane [OF \<open>node_ok n\<close>, of k v] op assms(1,2) by (auto simp: n bit_bit_op bit_bval)
  finally show "bit (unat (node_word v n)) k \<longleftrightarrow> bit (bit_op op (bval v left) (bval v right)) k"
    by (auto simp: bit_unsigned_iff dest: bit_imp_le_length)
qed

lemma bit_op_part: "bit_op op (a div 2 ^ m mod 2 ^ n) (b div 2 ^ m mod 2 ^ n) = bit_op op a b div 2 ^ m mod 2 ^ n"
  by (rule bit_eqI) (auto simp: bit_bit_op bit_take_bit_iff bit_drop_bit_eq simp flip: take_bit_eq_mod drop_bit_eq_div)

lemma bit_op_mod: "bit_op op (a mod 2 ^ n) (b mod 2 ^ n) = bit_op op a b mod 2 ^ n"
  using bit_op_part [of op a 0 n b] by simp

lemma fits_resize: "fits N bs \<Longrightarrow> 0 < N \<Longrightarrow> fits N (resize bs w False)"
  by (auto simp: fits_def resize_def dest: in_set_takeD)

lemma fits_slice: "fits N bs \<Longrightarrow> 0 < N \<Longrightarrow> fits N (slice bs off w)"
  by (auto simp: fits_def slice_def)

lemma bitwise_builds:
  assumes good: "good g" and fit: "fits (node_base g) left" "fits (node_base g) right"
    and op: "op = ''and'' \<or> op = ''or'' \<or> op = ''xor''"
  shows "builds g (bitwise op left right width) width (\<lambda>v. bit_op op (bval v left) (bval v right) mod 2 ^ width)"
proof -
  define l where "l = resize left width False"
  define r where "r = resize right width False"
  have N: "0 < node_base g"
    using node_base_gt [of g] by simp
  have fl: "fits (node_base g) l" "fits (node_base g) r"
    using fit N by (simp_all add: l_def r_def fits_resize)
  have "builds g (gbind (gmap (\<lambda>offset. let count = min 64 (width - offset)
       in add_node op count (slice l (int offset) count) (slice r (int offset) count) [] []) (offsets 64 0 width))
      (\<lambda>parts. gret (concat parts))) (width - 0) (\<lambda>v. bit_op op (bval v left) (bval v right) div 2 ^ 0 mod 2 ^ (width - 0))"
  proof (rule builds_chunks [OF _ good])
    fix off g'
    assume off: "off < width" and g': "extends g g'"
    define c where "c = min 64 (width - off)"
    have c: "0 < c" "c \<le> 64" "c \<le> width - off"
      using off by (simp_all add: c_def)
    have "fits (node_base g') l" "fits (node_base g') r" "0 < node_base g'"
      using fl fits_extends g' node_base_gt [of g'] by auto
    then have b: "builds g' (add_node op c (slice l (int off) c) (slice r (int off) c) [] []) c
        (\<lambda>v. unat (node_word v (probe op c (slice l (int off) c) (slice r (int off) c) [])))"
      using c op extends_good [OF g'] by (intro add_builds) (auto simp: transparent_def node_ok_def probe_def fits_slice)
    show "builds g' (let count = min 64 (width - off) in add_node op count (slice l (int off) count) (slice r (int off) count) [] [])
        (min 64 (width - off)) (\<lambda>v. bit_op op (bval v left) (bval v right) div 2 ^ off mod 2 ^ min 64 (width - off))"
      unfolding Let_def c_def [symmetric]
    proof (rule runs_mono [OF b])
      fix h x
      assume "denotes c (\<lambda>v. unat (node_word v (probe op c (slice l (int off) c) (slice r (int off) c) []))) h x"
      then show "denotes c (\<lambda>v. bit_op op (bval v left) (bval v right) div 2 ^ off mod 2 ^ c) h x"
      proof (rule denotes_cong)
        fix F v
        assume "model F h v"
        then have v: "\<not> v 0"
          by (simp add: model_def)
        have "take_bit width (a :: nat) div 2 ^ off mod 2 ^ c = a div 2 ^ off mod 2 ^ c" for a
          using c(3) by (intro bit_eqI) (auto simp: bit_take_bit_iff bit_drop_bit_eq simp flip: take_bit_eq_mod drop_bit_eq_div)
        then have "bval v (slice l (int off) c) = bval v left div 2 ^ off mod 2 ^ c"
          "bval v (slice r (int off) c) = bval v right div 2 ^ off mod 2 ^ c"
          using v by (simp_all add: bval_slice l_def r_def bval_resize take_bit_eq_mod)
        then show "unat (node_word v (probe op c (slice l (int off) c) (slice r (int off) c) [])) =
            bit_op op (bval v left) (bval v right) div 2 ^ off mod 2 ^ c"
          using c op by (simp add: node_word_lane bit_op_part)
      qed
    qed
  qed simp
  then show ?thesis
    by (simp add: bitwise_def l_def r_def)
qed

section \<open>Reductions\<close>

definition reduction :: "string \<Rightarrow> (gbit \<Rightarrow> bool) \<Rightarrow> gvalue \<Rightarrow> bool" where
  "reduction op v bs = (if op = ''any'' then \<exists>b \<in> set bs. v b else if op = ''all'' then \<forall>b \<in> set bs. v b
     else odd (length (filter v bs)))"

lemma native_parity_num_word:
  assumes "length bs \<le> 64"
  shows "native_parity (num_word v bs) \<noteq> 0 \<longleftrightarrow> odd (length (filter v bs))"
proof -
  have "[0..<64] = [0..<length bs] @ [length bs..<64]"
    using assms upt_add_eq_append [of 0 "length bs" "64 - length bs"] by simp
  then have "filter (\<lambda>k. bit (num_word v bs) k) [0..<64] = filter (\<lambda>k. bit (num_word v bs) k) [0..<length bs]"
    by (simp add: filter_empty_conv bit_num_word)
  also have "\<dots> = filter (\<lambda>k. v (bs ! k)) [0..<length bs]"
    using assms by (intro filter_cong) (auto simp: bit_num_word)
  also have "length \<dots> = length (filter v bs)"
    using filter_map [of v "(!) bs" "[0..<length bs]"] by (simp add: map_nth o_def)
  finally show ?thesis
    by (simp add: native_parity_def)
qed

lemma node_word_reduce:
  assumes "op = ''any'' \<or> op = ''all'' \<or> op = ''parity''" and "length left \<le> 64"
  shows "unat (node_word v (probe op 1 left [] [])) = of_bool (reduction op v left)"
proof (rule bit_eqI)
  fix k
  define n where "n = probe op 1 left [] []"
  have n: "n_op n = op" "n_width n = 1" "n_left n = left"
    by (simp_all add: n_def probe_def)
  have "node_ok n"
    using assms by (auto simp: node_ok_def n)
  have "node_bit v n 0 \<longleftrightarrow> reduction op v left"
    using node_bit_reduce [OF \<open>node_ok n\<close>, of v] assms native_parity_num_word [OF assms(2), of v] by (auto simp: n reduction_def)
  then show "bit (unat (node_word v n)) k \<longleftrightarrow> bit (of_bool (reduction op v left) :: nat) k"
    using node_word_high [of v n k] by (cases "k = 0") (auto simp: bit_unsigned_iff bit_node_word n bit_of_bool_iff)
qed

lemma number_flag:
  assumes "number part = Some known" and "zero_one v" and "op = ''any'' \<or> op = ''all'' \<or> op = ''parity''"
  shows "(if op = ''all'' then known = graph_mask (length part)
    else if op = ''parity'' then native_parity known \<noteq> 0 else known \<noteq> 0) \<longleftrightarrow> reduction op v part"
proof -
  have len: "length part \<le> 64"
    using assms(1) by (auto simp: number_def split: if_splits)
  have "known = num_word v part"
    using num_word_number [OF assms(1,2)] by simp
  then show ?thesis
    using assms(3) len native_parity_num_word [OF len, of v] num_word_graph_mask [OF len, of v] num_word_eq_0 [OF len, of v]
    by (auto simp: reduction_def)
qed

lemma slice_take_drop: "off + n \<le> length bs \<Longrightarrow> slice bs (int off) n = take n (drop off bs)"
  by (rule nth_equalityI) (simp_all add: slice_nth)

lemma reduction_append: "reduction op v (xs @ ys) =
    (if op = ''any'' then reduction op v xs \<or> reduction op v ys else if op = ''all'' then reduction op v xs \<and> reduction op v ys
     else reduction op v xs \<noteq> reduction op v ys)"
  by (auto simp: reduction_def)

lemma bit_op_bools: "bit_op op (of_bool a) (of_bool b) mod 2 ^ 1 =
    of_bool (if op = ''and'' then a \<and> b else if op = ''or'' then a \<or> b else a \<noteq> b)"
  by (cases a; cases b) (simp_all add: bit_op_def)

lemma fits_const: "fits (node_base g) (const_value x w)"
  using node_base_gt [of g] by (auto simp: fits_def in_set_conv_nth const_value_nth)

lemma denotes_value: "denotes w f g x \<Longrightarrow> model F g v \<Longrightarrow> bval v x = f v"
  by (simp add: denotes_def)

lemma unary_builds:
  assumes good: "good g" and fit: "fits (node_base g) value" and op: "op = ''any'' \<or> op = ''all'' \<or> op = ''parity''"
  shows "builds g (unary op value) 1 (\<lambda>v. of_bool (reduction op v value))"
proof -
  define combine where "combine = (if op = ''all'' then ''and'' else if op = ''parity'' then ''xor'' else ''or'')"
  have combine: "combine = ''and'' \<or> combine = ''or'' \<or> combine = ''xor''"
    by (simp add: combine_def)
  define J where "J off = denotes 1 (\<lambda>v. of_bool (reduction op v (take off value)))" for off
  define step where "step = (\<lambda>offset result.
        let part = slice value (int offset) (min 64 (length value - offset))
        in gbind
          (case number part of
             Some known \<Rightarrow>
               let flag = (if op = ''all'' then known = graph_mask (length part)
                           else if op = ''parity'' then native_parity known \<noteq> 0 else known \<noteq> 0)
               in gret (const_value (of_bool flag) 1)
           | None \<Rightarrow> add_node op 1 part [] [] [])
          (\<lambda>reduced. bitwise combine result reduced 1))"
  have run: "runs g (gfold step (offsets 64 0 (length value)) [of_bool (op = ''all'')]) (\<lambda>g' r. \<exists>off. length value \<le> off \<and> J off g' r)"
  proof (rule runs_offsets [OF _ good])
    show "J 0 g [of_bool (op = ''all'')]"
      using op node_base_gt [of g] by (auto simp: J_def denotes_def reduction_def model_def)
    fix off g' r
    assume off: "off < length value" and g': "extends g g'" and r: "J off g' r"
    define part where "part = slice value (int off) (min 64 (length value - off))"
    have part: "part = take 64 (drop off value)" "length part \<le> 64"
      using off by (auto simp: part_def slice_take_drop min_def)
    have take: "take (off + 64) value = take off value @ part"
      by (simp add: part take_add)
    have fp: "fits (node_base g') part"
      using fits_extends [OF fit g'] node_base_gt [of g'] by (simp add: part_def fits_slice)
    have reduced: "builds g' (case number part of
             Some known \<Rightarrow>
               let flag = (if op = ''all'' then known = graph_mask (length part)
                           else if op = ''parity'' then native_parity known \<noteq> 0 else known \<noteq> 0)
               in gret (const_value (of_bool flag) 1)
           | None \<Rightarrow> add_node op 1 part [] [] []) 1 (\<lambda>v. of_bool (reduction op v part))"
    proof (cases "number part")
      case None
      have "builds g' (add_node op 1 part [] [] []) 1 (\<lambda>v. unat (node_word v (probe op 1 part [] [])))"
        using op part(2) fp extends_good [OF g'] by (intro add_builds) (auto simp: transparent_def node_ok_def probe_def)
      then show ?thesis
        unfolding node_word_reduce [OF op part(2)] using None by simp
    next
      case (Some known)
      define flag where "flag \<longleftrightarrow> (if op = ''all'' then known = graph_mask (length part)
          else if op = ''parity'' then native_parity known \<noteq> 0 else known \<noteq> 0)"
      have "bval v (const_value (of_bool flag) 1) = of_bool (reduction op v part)" if "model F g' v" for F v
        using number_flag [OF Some model_zero_one [OF that] op] model_zero_one [OF that]
        unfolding flag_def [symmetric] by (simp add: bval_const_value)
      then have "denotes 1 (\<lambda>v. of_bool (reduction op v part)) g' (const_value (of_bool flag) 1)"
        by (simp add: denotes_def fits_const)
      then show ?thesis
        unfolding Some option.case Let_def flag_def [symmetric] by (rule runs_ret [OF extends_good [OF g']])
    qed
    show "runs g' (step off r) (J (off + 64))"
      unfolding step_def part_def [symmetric] Let_def [of part]
    proof (rule runs_bind [OF reduced])
      fix x h
      assume h: "extends g' h" "good h" "denotes 1 (\<lambda>v. of_bool (reduction op v part)) h x"
      have r: "denotes 1 (\<lambda>v. of_bool (reduction op v (take off value))) h r"
        using r denotes_extends [OF _ h(1)] by (simp add: J_def)
      show "runs h (bitwise combine r x 1) (J (off + 64))"
        unfolding J_def
      proof (rule runs_mono [OF bitwise_builds [OF h(2) denotes_fits [OF r] denotes_fits [OF h(3)] combine]])
        fix k y
        assume k: "extends h k" "denotes 1 (\<lambda>v. bit_op combine (bval v r) (bval v x) mod 2 ^ 1) k y"
        show "denotes 1 (\<lambda>v. of_bool (reduction op v (take (off + 64) value))) k y"
        proof (rule denotes_cong [OF k(2)])
          fix F v
          assume "model F k v"
          then have "model F h v"
            by (rule extends_model [OF k(1)])
          then have vals: "bval v r = of_bool (reduction op v (take off value))" "bval v x = of_bool (reduction op v part)"
            using denotes_value [OF r] denotes_value [OF h(3)] by simp_all
          show "bit_op combine (bval v r) (bval v x) mod 2 ^ 1 = of_bool (reduction op v (take (off + 64) value))"
            unfolding vals bit_op_bools take reduction_append combine_def using op by (elim disjE) simp_all
        qed
      qed
    qed
  qed simp
  have "unary op value = gfold step (offsets 64 0 (length value)) [of_bool (op = ''all'')]"
  proof -
    have "(op = ''not'') = False"
      using op by auto
    then show ?thesis
      unfolding unary_def step_def combine_def by (simp only: if_False)
  qed
  moreover have "builds g (gfold step (offsets 64 0 (length value)) [of_bool (op = ''all'')]) 1 (\<lambda>v. of_bool (reduction op v value))"
    by (rule runs_mono [OF run]) (auto simp: J_def)
  ultimately show ?thesis
    by simp
qed

lemma bval_ones: "zero_one v \<Longrightarrow> bval v (replicate n 1) = 2 ^ n - 1"
proof (induction n)
  case (Suc n)
  then show ?case
    by (cases "(2 :: nat) ^ n") simp_all
qed simp

lemma xor_ones: "(a :: nat) < 2 ^ n \<Longrightarrow> bit_op ''xor'' a (2 ^ n - 1) mod 2 ^ n = 2 ^ n - 1 - a"
proof -
  assume a: "a < 2 ^ n"
  have high: "bit a k \<Longrightarrow> k < n" for k
    using a by (metis bit_take_bit_iff take_bit_nat_eq_self)
  have ones: "bit (2 ^ n - Suc 0) k \<longleftrightarrow> k < n" for k
    using bit_mask_iff [of n k, where 'a = nat] by (simp add: mask_eq_exp_minus_1)
  define b where "b = bit_op ''xor'' a (2 ^ n - 1) mod 2 ^ n"
  have b: "bit b k \<longleftrightarrow> k < n \<and> \<not> bit a k" for k
    by (auto simp: b_def bit_bit_op bit_take_bit_iff ones simp flip: take_bit_eq_mod)
  have "a + b = a OR b"
    by (rule disjunctive_add) (simp add: b)
  also have "\<dots> = 2 ^ n - 1"
    using high by (intro bit_eqI) (auto simp: bit_or_iff b ones)
  finally show "bit_op ''xor'' a (2 ^ n - 1) mod 2 ^ n = 2 ^ n - 1 - a"
    by (simp add: b_def)
qed

lemma unary_not_builds:
  assumes good: "good g" and fit: "fits (node_base g) value"
  shows "builds g (unary ''not'' value) (length value) (\<lambda>v. 2 ^ length value - 1 - bval v value)"
proof -
  have b: "builds g (bitwise ''xor'' value (replicate (length value) 1) (length value)) (length value)
      (\<lambda>v. bit_op ''xor'' (bval v value) (bval v (replicate (length value) 1)) mod 2 ^ length value)"
    using node_base_gt [of g] by (intro bitwise_builds [OF good fit]) (auto simp: fits_def)
  have "builds g (bitwise ''xor'' value (replicate (length value) 1) (length value)) (length value) (\<lambda>v. 2 ^ length value - 1 - bval v value)"
  proof (rule runs_mono [OF b], erule denotes_cong)
    fix g' F v
    assume "model F g' v"
    then show "bit_op ''xor'' (bval v value) (bval v (replicate (length value) 1)) mod 2 ^ length value = 2 ^ length value - 1 - bval v value"
      using model_zero_one bval_ones [of v] xor_ones [OF bval_lt] by metis
  qed
  then show ?thesis
    by (simp add: unary_def)
qed

section \<open>Selection\<close>

lemma node_word_mux:
  assumes "length yes = w" "length no = w" "0 < w" "w \<le> 64"
  shows "unat (node_word v (probe ''mux'' w yes no [c])) = (if v c then bval v yes else bval v no)"
proof (rule bit_eqI)
  fix k
  define n where "n = probe ''mux'' w yes no [c]"
  have n: "n_op n = ''mux''" "n_width n = w" "n_left n = yes" "n_right n = no" "n_select n = [c]"
    by (simp_all add: n_def probe_def)
  have "node_ok n"
    using assms by (simp add: node_ok_def n)
  have "bit (node_word v n) k \<longleftrightarrow> k < w \<and> node_bit v n k"
    using node_word_high [of v n k] by (auto simp: bit_node_word n)
  also have "\<dots> \<longleftrightarrow> bit (if v c then bval v yes else bval v no) k"
    using node_bit_lane [OF \<open>node_ok n\<close>, of k v] assms(1,2) by (auto simp: n bit_bval)
  finally show "bit (unat (node_word v n)) k \<longleftrightarrow> bit (if v c then bval v yes else bval v no) k"
    by (auto simp: bit_unsigned_iff dest: bit_imp_le_length)
qed

lemma any_reduction: "reduction ''any'' v bs \<longleftrightarrow> bval v bs \<noteq> 0"
  by (simp add: reduction_def bval_eq_0)

lemma builds_denotes: "builds g m w f \<Longrightarrow> (\<And>F v g'. extends g g' \<Longrightarrow> model F g' v \<Longrightarrow> f v = h v) \<Longrightarrow> builds g m w h"
  by (erule runs_mono) (auto intro: denotes_cong)

lemma mux_builds:
  assumes good: "good g" and fit: "fits (node_base g) condition" "fits (node_base g) yes" "fits (node_base g) no"
    and len: "length yes = length no"
  shows "builds g (mux condition yes no) (length yes) (\<lambda>v. if bval v condition \<noteq> 0 then bval v yes else bval v no)"
  unfolding mux_def
proof (rule runs_bind [OF unary_builds [OF good fit(1)]])
  define f where "f v = (if bval v condition \<noteq> 0 then bval v yes else bval v no)" for v
  fix cond g1
  assume g1: "extends g g1" "good g1" "denotes 1 (\<lambda>v. of_bool (reduction ''any'' v condition)) g1 cond"
  obtain c where cond: "cond = [c]"
    using g1(3) by (cases cond) (auto simp: denotes_def)
  have c: "c < node_base g1"
    using denotes_fits [OF g1(3)] by (simp add: cond)
  have glift_at: "glift (at cond 0) = gret c"
    by (simp add: cond at_def glift_def gret_def fun_eq_iff)
  have vc: "v c \<longleftrightarrow> bval v condition \<noteq> 0" if "model F g1 v" for F v
    using denotes_value [OF g1(3) that] by (cases "v c"; cases "bval v condition = 0") (simp_all add: cond any_reduction)
  have fit1: "fits (node_base g1) yes" "fits (node_base g1) no"
    using fit fits_extends g1(1) by blast+
  have "builds g1 (if c < 2 then gret (if c \<noteq> 0 then yes else no)
         else if yes = no then gret yes
         else gbind (gmap (\<lambda>offset.
             let count = min 64 (length yes - offset)
             in add_node ''mux'' count (slice yes (int offset) count) (slice no (int offset) count) cond [])
             (offsets 64 0 (length yes))) (\<lambda>parts. gret (concat parts))) (length yes) f"
  proof (cases "c < 2 \<or> yes = no")
    case True
    have "denotes (length yes) f g1 (if c < 2 then if c \<noteq> 0 then yes else no else yes)"
      unfolding denotes_def
    proof (intro conjI allI impI)
      fix F v
      assume m: "model F g1 v"
      have "v c \<longleftrightarrow> c \<noteq> 0" if "c < 2"
        using that model_zero_one [OF m] by (cases c) (auto simp: less_Suc_eq numeral_2_eq_2)
      then show "bval v (if c < 2 then if c \<noteq> 0 then yes else no else yes) = f v"
        using True vc [OF m] by (auto simp: f_def)
    qed (use fit1 len in auto)
    then have "runs g1 (gret (if c < 2 then if c \<noteq> 0 then yes else no else yes)) (denotes (length yes) f)"
      by (rule runs_ret [OF g1(2)])
    then show ?thesis
      using True by (auto split: if_splits)
  next
    case False
    have fm: "f v div 2 ^ 0 mod 2 ^ (length yes - 0) = f v" for v
      using bval_lt [of v yes] bval_lt [of v no] len by (simp add: f_def)
    have "builds g1 (gbind (gmap (\<lambda>offset. let count = min 64 (length yes - offset)
             in add_node ''mux'' count (slice yes (int offset) count) (slice no (int offset) count) cond [])
             (offsets 64 0 (length yes))) (\<lambda>parts. gret (concat parts))) (length yes - 0) (\<lambda>v. f v div 2 ^ 0 mod 2 ^ (length yes - 0))"
    proof (rule builds_chunks [OF _ g1(2)])
      fix off g'
      assume off: "off < length yes" and g': "extends g1 g'"
      define n where "n = min 64 (length yes - off)"
      have n: "0 < n" "n \<le> 64"
        using off by (simp_all add: n_def)
      have "fits (node_base g') yes" "fits (node_base g') no" "0 < node_base g'" "fits (node_base g') cond"
        using fit1 fits_extends [OF _ g'] node_base_gt [of g'] denotes_fits [OF g1(3)] by auto
      then have "builds g' (add_node ''mux'' n (slice yes (int off) n) (slice no (int off) n) cond []) n
          (\<lambda>v. unat (node_word v (probe ''mux'' n (slice yes (int off) n) (slice no (int off) n) cond)))"
        using n extends_good [OF g'] by (intro add_builds) (auto simp: transparent_def node_ok_def probe_def fits_slice cond)
      then show "builds g' (let count = min 64 (length yes - off)
             in add_node ''mux'' count (slice yes (int off) count) (slice no (int off) count) cond [])
             (min 64 (length yes - off)) (\<lambda>v. f v div 2 ^ off mod 2 ^ min 64 (length yes - off))"
        unfolding Let_def n_def [symmetric]
      proof (rule builds_denotes)
        fix F v h
        assume "extends g' h" and m: "model F h v"
        then have "model F g1 v"
          using extends_trans [OF g'] extends_model by blast
        then show "unat (node_word v (probe ''mux'' n (slice yes (int off) n) (slice no (int off) n) cond)) = f v div 2 ^ off mod 2 ^ n"
          using n vc [of F v] model_zero_one [OF m] by (simp add: node_word_mux cond bval_slice f_def)
      qed
    qed simp
    then have "builds g1 (gbind (gmap (\<lambda>offset. let count = min 64 (length yes - offset)
             in add_node ''mux'' count (slice yes (int offset) count) (slice no (int offset) count) cond [])
             (offsets 64 0 (length yes))) (\<lambda>parts. gret (concat parts))) (length yes) f"
      unfolding fm by simp
    then show ?thesis
      using False by simp
  qed
  then show "builds g1 (if length yes \<noteq> length no then gthrow (Runtime_error ''mux width mismatch'')
       else gbind (glift (at cond 0)) (\<lambda>c.
         if c < 2 then gret (if c \<noteq> 0 then yes else no)
         else if yes = no then gret yes
         else gbind (gmap (\<lambda>offset.
             let count = min 64 (length yes - offset)
             in add_node ''mux'' count (slice yes (int offset) count) (slice no (int offset) count) cond [])
             (offsets 64 0 (length yes))) (\<lambda>parts. gret (concat parts)))) (length yes) (\<lambda>v. if bval v condition \<noteq> 0 then bval v yes else bval v no)"
    unfolding f_def [symmetric] by (simp only: glift_at len simp_thms if_False gbind_simps)
qed simp

section \<open>Narrow operations\<close>

lemma unat_and_graph_mask: "unat (x AND graph_mask w) = unat x mod 2 ^ w"
proof (rule bit_eqI)
  fix k
  show "bit (unat (x AND graph_mask w)) k \<longleftrightarrow> bit (unat x mod 2 ^ w) k"
    by (auto simp: bit_unsigned_iff bit_and_iff bit_graph_mask bit_take_bit_iff simp flip: take_bit_eq_mod dest: bit_imp_le_length)
qed

definition narrow_op :: "string \<Rightarrow> bool" where
  "narrow_op op \<longleftrightarrow> op \<in> set word_ops \<or> op = ''shl'' \<or> op = ''shr'' \<or> op = ''sar''"

definition word_value :: "string \<Rightarrow> nat \<Rightarrow> gvalue \<Rightarrow> gvalue \<Rightarrow> (gbit \<Rightarrow> bool) \<Rightarrow> u64" where
  "word_value op width left right v = native_expr op (length left) (length right) (num_word v left) (num_word v right) 0"

lemma node_word_narrow:
  assumes "op \<noteq> ''word_slice''"
  shows "unat (node_word v (probe op width left right [])) = unat (word_value op width left right v) mod 2 ^ width"
  using assms by (simp add: node_word_def probe_def word_value_def unat_and_graph_mask num_word_def)

lemma calculate_shift:
  assumes "op = ''shl'' \<or> op = ''shr'' \<or> op = ''sar''" and "length left \<le> 64" and "op = ''sar'' \<longrightarrow> left \<noteq> []"
  shows "calculate op (num_word v left) (num_word v right) (length left) = Inr (word_value op width left right v)"
proof -
  have "min (unat x) 63 = (if x < 64 then unat x else 63)" for x :: u64
    by (auto simp: word_less_nat_alt)
  moreover have "op = ''sar'' \<Longrightarrow> native_sign (num_word v left) (length left) = signedNumber (num_word v left) (length left)"
    using assms(2,3) native_sign_num_word by blast
  ultimately show ?thesis
    using assms(1) by (elim disjE) (simp_all add: calculate_def word_value_def native_expr_def)
qed

lemma calculate_word_value:
  assumes op: "narrow_op op" and ok: "node_ok (probe op width left right [])"
  shows "calculate op (num_word v left) (num_word v right) (length left) = Inr (word_value op width left right v)"
proof (cases "op \<in> set word_ops")
  case True
  then obtain c where c: "calculate op (num_word v left) (num_word v right) (length left) = Inr c"
    using calculate_total by blast
  have shape: "left \<noteq> []" "length left \<le> 64" "right \<noteq> []" "length right \<le> 64"
    "op = ''sdiv'' \<or> op = ''smod'' \<or> op = ''slt'' \<Longrightarrow> length left = length right"
    using ok True word_op_not [OF True] by (simp_all add: node_ok_def probe_def)
  then show ?thesis
    using calculate_native [OF True shape(2,1,4,3) shape(5) c, where s = 0] c by (simp add: word_value_def)
next
  case False
  then have "op = ''shl'' \<or> op = ''shr'' \<or> op = ''sar''"
    using op by (simp add: narrow_op_def)
  then show ?thesis
    using ok by (intro calculate_shift) (auto simp: node_ok_def probe_def)
qed

lemma narrow_builds:
  assumes good: "good g" and fit: "fits (node_base g) left" "fits (node_base g) right"
    and op: "narrow_op op" and ok: "node_ok (probe op width left right [])"
  shows "builds g (narrow op left right width) width (\<lambda>v. unat (word_value op width left right v) mod 2 ^ width)"
proof -
  have t: "transparent op" "op \<noteq> ''word_slice''"
    using op by (auto simp: narrow_op_def transparent_def word_ops_def)
  have node: "builds g (add_node op width left right [] []) width (\<lambda>v. unat (word_value op width left right v) mod 2 ^ width)"
    using add_builds [OF good t(1) ok fit] unfolding node_word_narrow [OF t(2)] by simp
  show ?thesis
  proof (cases "number left = None \<or> number right = None")
    case True
    then show ?thesis
      using node by (auto simp: narrow_def split: option.splits)
  next
    case False
    then obtain l r where n: "number left = Some l" "number right = Some r"
      by auto
    define v1 where "v1 = (\<lambda>b :: gbit. b = 1)"
    have "num_word v1 left = l" "num_word v1 right = r"
      using num_word_number [OF n(1), of v1] num_word_number [OF n(2), of v1] by (simp_all add: v1_def)
    then have c: "calculate op l r (length left) = Inr (word_value op width left right v1)"
      using calculate_word_value [OF op ok, of v1] by simp
    have same: "word_value op width left right v = word_value op width left right v1" if "zero_one v" for v
      using num_word_number [OF n(1) that] num_word_number [OF n(2) that] \<open>num_word v1 left = l\<close> \<open>num_word v1 right = r\<close>
      by (simp add: word_value_def)
    have "bval v (const_value (word_value op width left right v1) width) = unat (word_value op width left right v) mod 2 ^ width"
      if "model F g v" for F v
      unfolding same [OF model_zero_one [OF that]] by (rule bval_const_value [OF model_zero_one [OF that]])
    then have "denotes width (\<lambda>v. unat (word_value op width left right v) mod 2 ^ width) g (const_value (word_value op width left right v1) width)"
      by (simp add: denotes_def fits_const)
    then have "runs g (gret (const_value (word_value op width left right v1) width)) (denotes width (\<lambda>v. unat (word_value op width left right v) mod 2 ^ width))"
      by (rule runs_ret [OF good])
    moreover have "narrow op left right width = gret (const_value (word_value op width left right v1) width)"
      by (simp add: narrow_def n c glift_def gbind_def gret_def fun_eq_iff)
    ultimately show ?thesis
      by simp
  qed
qed

text \<open>The operations over natural numbers.\<close>

definition nat_op :: "string \<Rightarrow> nat \<Rightarrow> nat \<Rightarrow> nat \<Rightarrow> nat" where
  "nat_op op width a b =
     (if op = ''add'' then (a + b) mod 2 ^ width
      else if op = ''sub'' then nat ((int a - int b) mod 2 ^ width)
      else if op = ''mul'' then a * b mod 2 ^ width
      else if op = ''div'' then (if b = 0 then 0 else a div b mod 2 ^ width)
      else if op = ''mod'' then (if b = 0 then 0 else a mod b mod 2 ^ width)
      else if op = ''eq'' then of_bool (a = b) mod 2 ^ width
      else if op = ''lt'' then of_bool (a < b) mod 2 ^ width
      else if op = ''shl'' then a * 2 ^ b mod 2 ^ width
      else if op = ''shr'' then a div 2 ^ b mod 2 ^ width
      else 0)"

lemma mod_mod_power: "n \<le> m \<Longrightarrow> (x :: nat) mod 2 ^ m mod 2 ^ n = x mod 2 ^ n"
  by (simp add: le_imp_power_dvd mod_mod_cancel)

lemma mod_mod_power_int: "n \<le> m \<Longrightarrow> (x :: int) mod 2 ^ m mod 2 ^ n = x mod 2 ^ n"
  by (simp add: le_imp_power_dvd mod_mod_cancel)

lemma word_value_nat:
  assumes w: "width \<le> 64" and l: "length left \<le> 64" and r: "length right \<le> 64"
    and op: "op \<in> {''add'', ''sub'', ''mul'', ''div'', ''mod'', ''eq'', ''lt'', ''shl'', ''shr''}"
  shows "unat (word_value op width left right v) mod 2 ^ width = nat_op op width (bval v left) (bval v right)"
proof -
  define a where "a = num_word v left"
  define b where "b = num_word v right"
  have ua: "unat a = bval v left" and ub: "unat b = bval v right"
    using l r by (simp_all add: a_def b_def unat_num_word)
  have w64: "width \<le> LENGTH(64)"
    using w by simp
  have value_ab: "word_value op width left right v = native_expr op (length left) (length right) a b 0"
    by (simp add: word_value_def a_def b_def)
  have bval_a: "bval v left = unat a" and bval_b: "bval v right = unat b"
    using ua ub by simp_all
  consider "op = ''add''" | "op = ''sub''" | "op = ''mul''" | "op = ''div''" | "op = ''mod''" | "op = ''eq''" | "op = ''lt''" | "op = ''shl''" | "op = ''shr''"
    using op unfolding insert_iff empty_iff simp_thms by (elim disjE)
  then show ?thesis
  proof cases
    case 1
    have "unat (a + b) mod 2 ^ width = (unat a + unat b) mod 2 ^ width"
      by (simp only: unat_word_ariths mod_mod_power [OF w64])
    then show ?thesis
      unfolding value_ab bval_a bval_b unfolding 1 native_unsigned by (simp add: nat_op_def)
  next
    case 2
    have "int (unat (a - b) mod 2 ^ width) = (int (unat a) - int (unat b)) mod 2 ^ width"
      unfolding zmod_int of_nat_power of_nat_numeral uint_nat [symmetric] uint_word_ariths by (rule mod_mod_power_int [OF w64])
    then have "unat (a - b) mod 2 ^ width = nat ((int (unat a) - int (unat b)) mod 2 ^ width)"
      by linarith
    then show ?thesis
      unfolding value_ab bval_a bval_b unfolding 2 native_unsigned by (simp add: nat_op_def)
  next
    case 3
    have "unat (a * b) mod 2 ^ width = (unat a * unat b) mod 2 ^ width"
      by (simp only: unat_word_ariths mod_mod_power [OF w64])
    then show ?thesis
      unfolding value_ab bval_a bval_b unfolding 3 native_unsigned by (simp add: nat_op_def)
  next
    case 4
    show ?thesis
      unfolding value_ab bval_a bval_b unfolding 4 native_unsigned by (simp add: nat_op_def unat_div unat_eq_0)
  next
    case 5
    show ?thesis
      unfolding value_ab bval_a bval_b unfolding 5 native_unsigned by (simp add: nat_op_def unat_mod unat_eq_0)
  next
    case 6
    show ?thesis
      unfolding value_ab bval_a bval_b unfolding 6 native_unsigned by (simp add: nat_op_def word_unat_eq_iff)
  next
    case 7
    show ?thesis
      unfolding value_ab bval_a bval_b unfolding 7 native_unsigned by (simp add: nat_op_def word_less_nat_alt)
  next
    case 8
    have "unat (if b < 64 then push_bit (unat b) a else 0) mod 2 ^ width = unat a * 2 ^ unat b mod 2 ^ width"
    proof (cases "b < 64")
      case True
      have "unat (push_bit (unat b) a) = push_bit (unat b) (unat a) mod 2 ^ LENGTH(64)"
        by (simp only: unsigned_push_bit_eq take_bit_eq_mod)
      then have "unat (push_bit (unat b) a) mod 2 ^ width = unat a * 2 ^ unat b mod 2 ^ width"
        by (simp only: mod_mod_power [OF w64] push_bit_eq_mult)
      then show ?thesis
        using True by simp
    next
      case False
      then have "width \<le> unat b"
        using w by (simp add: word_less_nat_alt)
      then have "2 ^ width dvd unat a * 2 ^ unat b"
        by (simp add: le_imp_power_dvd)
      then show ?thesis
        using False by simp
    qed
    then show ?thesis
      unfolding value_ab bval_a bval_b unfolding 8 by (simp add: nat_op_def native_expr_def)
  next
    case 9
    have "unat (if b < 64 then drop_bit (unat b) a else 0) = unat a div 2 ^ unat b"
    proof (cases "b < 64")
      case True
      have "unat (drop_bit (unat b) a) = drop_bit (unat b) (unat a)"
        using take_bit_nat_eq_self [OF unsigned_less [of a, where 'a = nat]] by (simp only: unsigned_drop_bit_eq)
      then have "unat (drop_bit (unat b) a) = unat a div 2 ^ unat b"
        by (simp only: drop_bit_eq_div)
      then show ?thesis
        using True by simp
    next
      case False
      then have "(2 :: nat) ^ 64 \<le> 2 ^ unat b"
        by (intro power_increasing) (simp_all add: word_less_nat_alt)
      then have "unat a < 2 ^ unat b"
        using unsigned_less [of a, where 'a = nat] by simp
      then show ?thesis
        using False by simp
    qed
    then show ?thesis
      unfolding value_ab bval_a bval_b unfolding 9 by (simp add: nat_op_def native_expr_def)
  qed
qed

section \<open>Wide comparisons\<close>

lemma model_not0: "model F g v \<Longrightarrow> \<not> v 0"
  by (simp add: model_def)

lemma bval_mod_ge: "length bs \<le> n \<Longrightarrow> bval v bs mod 2 ^ n = bval v bs"
proof -
  assume "length bs \<le> n"
  then have "(2 :: nat) ^ length bs \<le> 2 ^ n"
    by simp
  then show "bval v bs mod 2 ^ n = bval v bs"
    using order_less_le_trans [OF bval_lt] by (simp only: mod_less)
qed

lemma denotes_resize: "denotes n f g x \<Longrightarrow> denotes w (\<lambda>v. f v mod 2 ^ w) g (resize x w False)"
  using node_base_gt [of g] by (auto simp: denotes_def fits_resize bval_resize model_not0)

lemma denotes_slice: "denotes n f g x \<Longrightarrow> denotes w (\<lambda>v. f v div 2 ^ off mod 2 ^ w) g (slice x (int off) w)"
  using node_base_gt [of g] by (auto simp: denotes_def fits_slice bval_slice model_not0)

lemma runs_ret_denotes: "good g \<Longrightarrow> denotes w f g x \<Longrightarrow> builds g (gret x) w f"
  by (rule runs_ret)

lemma denotes_fun: "denotes w f g x \<Longrightarrow> f = h \<Longrightarrow> denotes w h g x"
  by simp

lemma bit_op_xor_0: "bit_op ''xor'' a b mod 2 ^ n = 0 \<longleftrightarrow> a mod 2 ^ n = b mod 2 ^ n"
proof
  assume eq: "bit_op ''xor'' a b mod 2 ^ n = 0"
  have "bit (a mod 2 ^ n) k \<longleftrightarrow> bit (b mod 2 ^ n) k" for k
    using arg_cong [OF eq, of "\<lambda>x. bit x k"] by (auto simp: bit_bit_op bit_take_bit_iff simp flip: take_bit_eq_mod)
  then show "a mod 2 ^ n = b mod 2 ^ n"
    by (rule bit_eqI)
next
  assume eq: "a mod 2 ^ n = b mod 2 ^ n"
  have "bit_op ''xor'' a b mod 2 ^ n = bit_op ''xor'' (a mod 2 ^ n) (b mod 2 ^ n)"
    by (rule bit_op_mod [symmetric])
  also have "\<dots> = 0"
    unfolding eq by (simp add: bit_op_def)
  finally show "bit_op ''xor'' a b mod 2 ^ n = 0" .
qed

lemma wide_eq_builds:
  assumes good: "good g" and fit: "fits (node_base g) left" "fits (node_base g) right"
  shows "builds g (wide_eq left right width) width (\<lambda>v. nat_op ''eq'' width (bval v left) (bval v right))"
proof -
  define count where "count = max (length left) (length right)"
  have N: "0 < node_base g"
    using node_base_gt [of g] by simp
  have small: "bval v left mod 2 ^ count = bval v left" "bval v right mod 2 ^ count = bval v right" for v
    by (simp_all add: bval_mod_ge count_def)
  show ?thesis
    unfolding wide_eq_def Let_def count_def [symmetric]
  proof (rule runs_bind)
    show "builds g (bitwise ''xor'' (resize left count False) (resize right count False) count) count
        (\<lambda>v. bit_op ''xor'' (bval v (resize left count False)) (bval v (resize right count False)) mod 2 ^ count)"
      by (rule bitwise_builds [OF good]) (simp_all add: fits_resize fit N)
    fix x g1
    assume g1: "extends g g1" "good g1" "denotes count
        (\<lambda>v. bit_op ''xor'' (bval v (resize left count False)) (bval v (resize right count False)) mod 2 ^ count) g1 x"
    show "builds g1 (gbind (unary ''any'' x) (\<lambda>any. gbind (unary ''not'' any) (\<lambda>equal. gret (resize equal width False)))) width
        (\<lambda>v. nat_op ''eq'' width (bval v left) (bval v right))"
    proof (rule runs_bind)
      show "builds g1 (unary ''any'' x) 1 (\<lambda>v. of_bool (reduction ''any'' v x))"
        by (rule unary_builds [OF g1(2) denotes_fits [OF g1(3)]]) simp
      fix y g2
      assume g2: "extends g1 g2" "good g2" "denotes 1 (\<lambda>v. of_bool (reduction ''any'' v x)) g2 y"
      show "builds g2 (gbind (unary ''not'' y) (\<lambda>equal. gret (resize equal width False))) width
          (\<lambda>v. nat_op ''eq'' width (bval v left) (bval v right))"
      proof (rule runs_bind)
        show "builds g2 (unary ''not'' y) (length y) (\<lambda>v. 2 ^ length y - 1 - bval v y)"
          by (rule unary_not_builds [OF g2(2) denotes_fits [OF g2(3)]])
        fix z g3
        assume g3: "extends g2 g3" "good g3" "denotes (length y) (\<lambda>v. 2 ^ length y - 1 - bval v y) g3 z"
        have "denotes width (\<lambda>v. (2 ^ length y - 1 - bval v y) mod 2 ^ width) g3 (resize z width False)"
          by (rule denotes_resize [OF g3(3)])
        then have "denotes width (\<lambda>v. nat_op ''eq'' width (bval v left) (bval v right)) g3 (resize z width False)"
        proof (rule denotes_cong)
          fix F v
          assume m3: "model F g3 v"
          note m2 = extends_model [OF g3(1) m3]
          note m1 = extends_model [OF g2(1) m2]
          have "bval v x = bit_op ''xor'' (bval v left) (bval v right) mod 2 ^ count"
            using denotes_value [OF g1(3) m1] model_not0 [OF m1] by (simp add: bval_resize bit_op_mod)
          then have "bval v x = 0 \<longleftrightarrow> bval v left = bval v right"
            by (simp add: bit_op_xor_0 small)
          then have "bval v y = of_bool (bval v left \<noteq> bval v right)" "length y = 1"
            using denotes_value [OF g2(3) m2] denotes_length [OF g2(3)] by (simp_all add: any_reduction)
          then show "(2 ^ length y - 1 - bval v y) mod 2 ^ width = nat_op ''eq'' width (bval v left) (bval v right)"
            by (simp add: nat_op_def)
        qed
        then show "builds g3 (gret (resize z width False)) width (\<lambda>v. nat_op ''eq'' width (bval v left) (bval v right))"
          by (rule runs_ret [OF g3(2)])
      qed
    qed
  qed
qed

lemma narrow_nat_builds:
  assumes good: "good g" and fit: "fits (node_base g) left" "fits (node_base g) right"
    and w: "0 < width" "width \<le> 64" and l: "0 < length left" "length left \<le> 64" and r: "0 < length right" "length right \<le> 64"
    and op: "op \<in> {''add'', ''sub'', ''mul'', ''div'', ''mod'', ''eq'', ''lt'', ''shl'', ''shr''}"
  shows "builds g (narrow op left right width) width (\<lambda>v. nat_op op width (bval v left) (bval v right))"
proof -
  have "narrow_op op"
    using op by (auto simp: narrow_op_def word_ops_def)
  moreover have "node_ok (probe op width left right [])"
    using w l r op by (auto simp: node_ok_def probe_def word_ops_def)
  ultimately show ?thesis
    using narrow_builds [OF good fit, of op width] unfolding word_value_nat [OF w(2) l(2) r(2) op] by simp
qed

text \<open>The comparison of one part more: the upper part decides, unless it is equal.\<close>

lemma less_split:
  fixes a b :: nat
  shows "a mod 2 ^ (m + n) < b mod 2 ^ (m + n) \<longleftrightarrow>
    (if a div 2 ^ m mod 2 ^ n = b div 2 ^ m mod 2 ^ n then a mod 2 ^ m < b mod 2 ^ m else a div 2 ^ m mod 2 ^ n < b div 2 ^ m mod 2 ^ n)"
proof -
  have s: "x mod 2 ^ (m + n) = x mod 2 ^ m + 2 ^ m * (x div 2 ^ m mod 2 ^ n)" for x :: nat
    using split_number [of m "m + n" x] by simp
  have lt: "x + 2 ^ m * p < y + 2 ^ m * q" if "p < q" "x < 2 ^ m" for x y p q :: nat
  proof -
    have "x + 2 ^ m * p < 2 ^ m * (p + 1)"
      using that(2) by simp
    also have "\<dots> \<le> 2 ^ m * q"
      using that(1) by (intro mult_le_mono2) simp
    finally show ?thesis
      by simp
  qed
  show ?thesis
    unfolding s by (cases "a div 2 ^ m mod 2 ^ n" "b div 2 ^ m mod 2 ^ n" rule: linorder_cases)
      (auto simp: lt not_less dest: lt [of _ _ "b mod 2 ^ m" "a mod 2 ^ m"] intro: less_imp_le)
qed

lemma wide_lt_builds:
  assumes good: "good g" and fit: "fits (node_base g) left" "fits (node_base g) right"
  shows "builds g (wide_lt left right width) width (\<lambda>v. nat_op ''lt'' width (bval v left) (bval v right))"
proof -
  define count where "count = max (length left) (length right)"
  define l where "l = resize left count False"
  define r where "r = resize right count False"
  have N: "0 < node_base g"
    using node_base_gt [of g] by simp
  have fl: "fits (node_base g) l" "fits (node_base g) r"
    using fit N by (simp_all add: l_def r_def fits_resize)
  have small: "bval v left mod 2 ^ count = bval v left" "bval v right mod 2 ^ count = bval v right" for v
    by (simp_all add: bval_mod_ge count_def)
  have lr: "bval v l = bval v left" "bval v r = bval v right" if "model F h v" for F h v
    using model_not0 [OF that] by (simp_all add: l_def r_def bval_resize small)
  define step where "step = (\<lambda>offset less.
           let len = min 64 (count - offset); a = slice l (int offset) len; b = slice r (int offset) len
           in gbind (narrow ''eq'' a b 1) (\<lambda>equal. gbind (narrow ''lt'' a b 1) (\<lambda>lower. mux equal less lower)))"
  define J where "J off = denotes 1 (\<lambda>v. of_bool (bval v left mod 2 ^ min off count < bval v right mod 2 ^ min off count))" for off
  have "runs g (gfold step (offsets 64 0 count) [0]) (\<lambda>g' x. \<exists>off. count \<le> off \<and> J off g' x)"
  proof (rule runs_offsets [OF _ good])
    show "J 0 g [0]"
      using N by (auto simp: J_def denotes_def model_not0)
    fix off g' less
    assume off: "off < count" and g': "extends g g'" and less: "J off g' less"
    define len where "len = min 64 (count - off)"
    have len: "0 < len" "len \<le> 64" "min (off + 64) count = off + len" "min off count = off"
      using off by (simp_all add: len_def)
    define a where "a = slice l (int off) len"
    define b where "b = slice r (int off) len"
    have ab: "length a = len" "length b = len" "fits (node_base g') a" "fits (node_base g') b"
      using fits_extends [OF fl(1) g'] fits_extends [OF fl(2) g'] node_base_gt [of g'] by (simp_all add: a_def b_def fits_slice)
    have vals: "bval v a = bval v left div 2 ^ off mod 2 ^ len" "bval v b = bval v right div 2 ^ off mod 2 ^ len" if "model F h v" for F h v
      using model_not0 [OF that] lr [OF that] by (simp_all add: a_def b_def bval_slice)
    note good' = extends_good [OF g']
    have "runs g' (gbind (narrow ''eq'' a b 1) (\<lambda>equal. gbind (narrow ''lt'' a b 1) (\<lambda>lower. mux equal less lower))) (J (off + 64))"
    proof (rule runs_bind)
      show "builds g' (narrow ''eq'' a b 1) 1 (\<lambda>v. nat_op ''eq'' 1 (bval v a) (bval v b))"
        using ab len by (intro narrow_nat_builds [OF good']) simp_all
      fix e h
      assume h: "extends g' h" "good h" "denotes 1 (\<lambda>v. nat_op ''eq'' 1 (bval v a) (bval v b)) h e"
      have ab': "fits (node_base h) a" "fits (node_base h) b"
        using ab fits_extends h(1) by blast+
      show "runs h (gbind (narrow ''lt'' a b 1) (\<lambda>lower. mux e less lower)) (J (off + 64))"
      proof (rule runs_bind)
        show "builds h (narrow ''lt'' a b 1) 1 (\<lambda>v. nat_op ''lt'' 1 (bval v a) (bval v b))"
          using ab ab' len by (intro narrow_nat_builds [OF h(2)]) simp_all
        fix lower k
        assume k: "extends h k" "good k" "denotes 1 (\<lambda>v. nat_op ''lt'' 1 (bval v a) (bval v b)) k lower"
        have lk: "J off k less"
          using denotes_extends extends_trans [OF h(1) k(1)] less unfolding J_def by blast
        have ek: "denotes 1 (\<lambda>v. nat_op ''eq'' 1 (bval v a) (bval v b)) k e"
          by (rule denotes_extends [OF h(3) k(1)])
        have "builds k (mux e less lower) (length less) (\<lambda>v. if bval v e \<noteq> 0 then bval v less else bval v lower)"
          using denotes_fits ek k(3) lk denotes_length unfolding J_def by (intro mux_builds [OF k(2)]) (blast | metis)+
        moreover have "length less = 1"
          using lk denotes_length unfolding J_def by blast
        ultimately have b: "builds k (mux e less lower) 1 (\<lambda>v. if bval v e \<noteq> 0 then bval v less else bval v lower)"
          by simp
        show "runs k (mux e less lower) (J (off + 64))"
          unfolding J_def
        proof (rule builds_denotes [OF b])
          fix F v h'
          assume ext: "extends k h'" and "model F h' v"
          then have m: "model F k v"
            using extends_model by blast
          have "bval v e = of_bool (bval v a = bval v b)" "bval v lower = of_bool (bval v a < bval v b)"
            using denotes_value [OF ek m] denotes_value [OF k(3) m] by (simp_all add: nat_op_def)
          moreover have "bval v less = of_bool (bval v left mod 2 ^ off < bval v right mod 2 ^ off)"
            using denotes_value [OF lk [unfolded J_def] m] len(4) by simp
          ultimately show "(if bval v e \<noteq> 0 then bval v less else bval v lower) =
              of_bool (bval v left mod 2 ^ min (off + 64) count < bval v right mod 2 ^ min (off + 64) count)"
            unfolding len(3) less_split vals [OF m] by simp
        qed
      qed
    qed
    then show "runs g' (step off less) (J (off + 64))"
      by (simp add: step_def Let_def len_def [symmetric] a_def b_def)
  qed simp
  then have "runs g (gbind (gfold step (offsets 64 0 count) [0]) (\<lambda>less. gret (resize less width False)))
      (denotes width (\<lambda>v. nat_op ''lt'' width (bval v left) (bval v right)))"
  proof (rule runs_bind)
    fix x h
    assume h: "extends g h" "good h" "\<exists>off. count \<le> off \<and> J off h x"
    then have "denotes 1 (\<lambda>v. of_bool (bval v left < bval v right)) h x"
      using small by (auto simp: J_def min_absorb2)
    then have "denotes width (\<lambda>v. of_bool (bval v left < bval v right) mod 2 ^ width) h (resize x width False)"
      by (rule denotes_resize)
    then show "builds h (gret (resize x width False)) width (\<lambda>v. nat_op ''lt'' width (bval v left) (bval v right))"
      using runs_ret [OF h(2)] by (simp add: nat_op_def)
  qed
  then show ?thesis
    by (simp add: wide_lt_def Let_def count_def l_def r_def step_def)
qed

section \<open>Wide addition and subtraction\<close>

text \<open>The complement of a part is the part of the complement.\<close>

lemma complement_part:
  assumes "(x :: nat) < 2 ^ w" and "off + n \<le> w"
  shows "2 ^ n - 1 - x div 2 ^ off mod 2 ^ n = (2 ^ w - 1 - x) div 2 ^ off mod 2 ^ n"
proof (rule bit_eqI)
  fix k
  have c: "bit (2 ^ m - 1 - y) k \<longleftrightarrow> k < m \<and> \<not> bit y k" if "y < 2 ^ m" for m k and y :: nat
  proof -
    have "bit (2 ^ m - Suc 0) k \<longleftrightarrow> k < m" for k
      using bit_mask_iff [of m k, where 'a = nat] by (simp add: mask_eq_exp_minus_1)
    then show ?thesis
      unfolding xor_ones [OF that, symmetric]
      by (auto simp: bit_bit_op bit_take_bit_iff simp flip: take_bit_eq_mod)
  qed
  show "bit (2 ^ n - 1 - x div 2 ^ off mod 2 ^ n) k \<longleftrightarrow> bit ((2 ^ w - 1 - x) div 2 ^ off mod 2 ^ n) k"
  proof -
    have part: "bit (y div 2 ^ off mod 2 ^ n) k \<longleftrightarrow> k < n \<and> bit y (off + k)" for y :: nat and k
      by (simp only: take_bit_eq_mod [symmetric] drop_bit_eq_div [symmetric] bit_take_bit_iff bit_drop_bit_eq o_apply)
    have "x div 2 ^ off mod 2 ^ n < 2 ^ n"
      by simp
    then show ?thesis
      unfolding part c [OF assms(1)] using c [of "x div 2 ^ off mod 2 ^ n" n k] part [of x k] assms(2) by linarith
  qed
qed

lemma runs_offsets_pair:
  assumes p: "0 < p" and good: "good g" and start: "J off g a b"
    and step: "\<And>off g' a b. off < w \<Longrightarrow> extends g g' \<Longrightarrow> J off g' a b \<Longrightarrow> runs g' (step off (a, b)) (\<lambda>g'' (a, b). J (off + p) g'' a b)"
  shows "runs g (gfold step (offsets p off w) (a, b)) (\<lambda>g' (a, b). \<exists>off. w \<le> off \<and> J off g' a b)"
proof -
  have "runs g (gfold step (offsets p off w) (a, b)) (\<lambda>g' r. \<exists>off. w \<le> off \<and> (case r of (a, b) \<Rightarrow> J off g' a b))"
    by (rule runs_offsets [OF p good]) (auto simp: start step)
  then show ?thesis
    by (rule runs_mono) auto
qed

lemma fits_mono_extends: "extends g g' \<Longrightarrow> fits (node_base g) bs \<Longrightarrow> fits (node_base g') bs"
  by (rule fits_extends)

text \<open>The second operand of an addition or, complemented, of a subtraction, and the carry in.\<close>

definition addend :: "string \<Rightarrow> nat \<Rightarrow> nat \<Rightarrow> nat" where
  "addend op width b = (if op = ''sub'' then 2 ^ width - 1 - b mod 2 ^ width else b mod 2 ^ width)"

lemma nat_op_addend:
  assumes "op = ''add'' \<or> op = ''sub''"
  shows "nat_op op w a b = (a mod 2 ^ w + addend op w b + of_bool (op = ''sub'')) mod 2 ^ w"
  using assms
proof
  assume "op = ''add''"
  then show ?thesis
    by (simp add: nat_op_def addend_def mod_add_eq)
next
  assume op: "op = ''sub''"
  have lt: "b mod 2 ^ w < 2 ^ w"
    by simp
  then have "a mod 2 ^ w + addend op w b + of_bool (op = ''sub'') = a mod 2 ^ w + (2 ^ w - b mod 2 ^ w)"
  proof -
    have "p + (q - 1 - r) + 1 = p + (q - r)" if "r < q" for p q r :: nat
      using that by simp
    from this [OF lt, of "a mod 2 ^ w"] show ?thesis
      by (simp add: op addend_def)
  qed
  then have "int ((a mod 2 ^ w + addend op w b + of_bool (op = ''sub'')) mod 2 ^ w) = (int (a mod 2 ^ w) + 2 ^ w - int (b mod 2 ^ w)) mod 2 ^ w"
    using lt by (simp only: zmod_int of_nat_add of_nat_diff [OF less_imp_le [OF lt]] of_nat_power of_nat_numeral add_diff_eq)
  also have "\<dots> = (int a - int b) mod 2 ^ w"
  proof -
    have "(p mod q + q - r mod q) mod q = (p - r) mod q" for p q r :: int
    proof -
      have "p mod q + q - r mod q = (p mod q - r mod q) + q"
        by simp
      then show ?thesis
        by (metis mod_add_self2 mod_diff_eq)
    qed
    then show ?thesis
      by (simp only: zmod_int of_nat_power of_nat_numeral)
  qed
  finally show ?thesis
    using op by (simp add: nat_op_def nat_eq_iff)
qed

lemma inner_mod: "(p + x mod q + c) mod q = (p + x + c) mod (q :: nat)"
  by (metis mod_add_left_eq mod_add_right_eq)

lemma limb_step:
  fixes l x c :: nat
  assumes "s = l mod 2 ^ m + x mod 2 ^ m + c"
  shows "l mod 2 ^ (m + n) + x mod 2 ^ (m + n) + c = s mod 2 ^ m + 2 ^ m * (l div 2 ^ m mod 2 ^ n + x div 2 ^ m mod 2 ^ n + s div 2 ^ m)"
proof -
  have e: "y mod 2 ^ (m + n) = y mod 2 ^ m + 2 ^ m * (y div 2 ^ m mod 2 ^ n)" for y :: nat
    using split_number [of m "m + n" y] by simp
  have "s mod 2 ^ m + 2 ^ m * (s div 2 ^ m) = s"
    by simp
  then show ?thesis
    unfolding e using assms by (simp add: algebra_simps)
qed

lemma wide_add_builds:
  assumes good: "good g" and fit: "fits (node_base g) left" "fits (node_base g) right" and op: "op = ''add'' \<or> op = ''sub''"
  shows "builds g (wide_add op left right width) width (\<lambda>v. nat_op op width (bval v left) (bval v right))"
proof -
  define l where "l = resize left width False"
  define r where "r = resize right width False"
  define c0 :: nat where "c0 = of_bool (op = ''sub'')"
  define L where "L v = bval v left mod 2 ^ width" for v
  define X where "X v = addend op width (bval v right)" for v
  define S where "S v m = L v mod 2 ^ m + X v mod 2 ^ m + c0" for v m
  have N: "0 < node_base g"
    using node_base_gt [of g] by simp
  have fl: "fits (node_base g) l" "fits (node_base g) r"
    using fit N by (simp_all add: l_def r_def fits_resize)
  have vl: "bval v l = L v" "bval v r = bval v right mod 2 ^ width" if "model F h v" for F h v
    using model_not0 [OF that] by (simp_all add: l_def r_def L_def bval_resize)
  define step where "step = (\<lambda>offset (result, carry).
           let count = min 32 (width - offset);
               a = resize (slice l (int offset) count) (count + 1) False;
               b = slice r (int offset) count
           in gbind (if op = ''sub'' then unary ''not'' b else gret b) (\<lambda>b.
              gbind (narrow ''add'' a (resize b (count + 1) False) (count + 1)) (\<lambda>sum.
              gbind (narrow ''add'' sum (resize carry (count + 1) False) (count + 1)) (\<lambda>sum.
                gret (result @ slice sum 0 count, slice sum (int count) 1)))))"
  define J where "J off h result carry \<longleftrightarrow> denotes (min off width) (\<lambda>v. S v (min off width) mod 2 ^ min off width) h result \<and>
      denotes 1 (\<lambda>v. S v (min off width) div 2 ^ min off width) h carry" for off h result carry
  have "runs g (gfold step (offsets 32 0 width) ([], [of_bool (op = ''sub'')])) (\<lambda>g' (a, b). \<exists>off. width \<le> off \<and> J off g' a b)"
  proof (rule runs_offsets_pair [OF _ good])
    show "J 0 g [] [of_bool (op = ''sub'')]"
      using node_base_gt [of g] by (auto simp: J_def denotes_def S_def c0_def model_def)
    fix off g' result carry
    assume off: "off < width" and g': "extends g g'" and J: "J off g' result carry"
    define n where "n = min 32 (width - off)"
    have n: "0 < n" "n \<le> 32" "min (off + 32) width = off + n" "min off width = off" "off + n \<le> width"
      using off by (auto simp: n_def)
    define a where "a = resize (slice l (int off) n) (n + 1) False"
    define b where "b = slice r (int off) n"
    define sl where "sl v = L v div 2 ^ off mod 2 ^ n" for v
    define sx where "sx v = X v div 2 ^ off mod 2 ^ n" for v
    note good' = extends_good [OF g']
    have fab: "fits (node_base g') a" "fits (node_base g') b" "length a = n + 1" "length b = n"
      using fits_extends [OF fl(1) g'] fits_extends [OF fl(2) g'] node_base_gt [of g'] by (simp_all add: a_def b_def fits_slice fits_resize)
    have lt: "sl v < 2 ^ n" "sx v < 2 ^ n" for v
      by (simp_all add: sl_def sx_def)
    have lt2: "sx v < 2 ^ (n + 1)" for v
      using lt(2) [of v] by simp
    have va: "bval v a = sl v" if "model F h v" for F h v
    proof -
      have "sl v mod 2 ^ (n + 1) = sl v"
        using lt(1) [of v] by (simp add: mod_less)
      then show ?thesis
        using model_not0 [OF that] vl(1) [OF that] by (simp add: a_def bval_resize bval_slice sl_def)
    qed
    have vb: "(if op = ''sub'' then 2 ^ n - 1 - bval v b else bval v b) = sx v" if "model F h v" for F h v
    proof -
      have b: "bval v b = (bval v right mod 2 ^ width) div 2 ^ off mod 2 ^ n"
        using model_not0 [OF that] vl(2) [OF that] by (simp add: b_def bval_slice)
      show ?thesis
        unfolding b sx_def X_def addend_def using complement_part [of "bval v right mod 2 ^ width" width off n] n(5) by simp
    qed
    have "runs g' (gbind (if op = ''sub'' then unary ''not'' b else gret b) (\<lambda>b.
              gbind (narrow ''add'' a (resize b (n + 1) False) (n + 1)) (\<lambda>sum.
              gbind (narrow ''add'' sum (resize carry (n + 1) False) (n + 1)) (\<lambda>sum.
                gret (result @ slice sum 0 n, slice sum (int n) 1))))) (\<lambda>g'' (a, b). J (off + 32) g'' a b)"
    proof (rule runs_bind)
      have "builds g' (if op = ''sub'' then unary ''not'' b else gret b) n (\<lambda>v. if op = ''sub'' then 2 ^ n - 1 - bval v b else bval v b)"
        using unary_not_builds [OF good' fab(2)] runs_ret_denotes [OF good' denotes_self [OF fab(2)]] fab(4) by simp
      then show "builds g' (if op = ''sub'' then unary ''not'' b else gret b) n sx"
        by (rule builds_denotes) (rule vb)
      fix b' g1
      assume g1: "extends g' g1" "good g1" "denotes n sx g1 b'"
      have d1: "denotes (n + 1) sx g1 (resize b' (n + 1) False)"
        by (rule denotes_cong [OF denotes_resize [OF g1(3)]]) (rule mod_less, rule lt2)
      have fa1: "fits (node_base g1) a"
        using fits_extends [OF fab(1) g1(1)] .
      show "runs g1 (gbind (narrow ''add'' a (resize b' (n + 1) False) (n + 1)) (\<lambda>sum.
              gbind (narrow ''add'' sum (resize carry (n + 1) False) (n + 1)) (\<lambda>sum.
                gret (result @ slice sum 0 n, slice sum (int n) 1)))) (\<lambda>g'' (a, b). J (off + 32) g'' a b)"
      proof (rule runs_bind)
        have "builds g1 (narrow ''add'' a (resize b' (n + 1) False) (n + 1)) (n + 1)
            (\<lambda>v. nat_op ''add'' (n + 1) (bval v a) (bval v (resize b' (n + 1) False)))"
          using n by (intro narrow_nat_builds [OF g1(2) fa1 denotes_fits [OF d1]]) (simp_all add: fab(3))
        then show "builds g1 (narrow ''add'' a (resize b' (n + 1) False) (n + 1)) (n + 1) (\<lambda>v. sl v + sx v)"
        proof (rule builds_denotes)
          fix F v h
          assume e: "extends g1 h" and m: "model F h v"
          have "sl v + sx v < 2 ^ (n + 1)"
            using lt [of v] by simp
          then show "nat_op ''add'' (n + 1) (bval v a) (bval v (resize b' (n + 1) False)) = sl v + sx v"
            unfolding va [OF m] denotes_value [OF d1 extends_model [OF e m]] nat_op_def by simp
        qed
        fix sum1 g2
        assume g2: "extends g1 g2" "good g2" "denotes (n + 1) (\<lambda>v. sl v + sx v) g2 sum1"
        have J2: "J off g2 result carry"
          using J denotes_extends [OF _ extends_trans [OF g1(1) g2(1)]] by (simp add: J_def)
        define cv where "cv = (\<lambda>v. S v off div 2 ^ off)"
        have cle: "cv v \<le> 1" for v
        proof -
          have "L v mod 2 ^ off + X v mod 2 ^ off + c0 < 2 * 2 ^ off"
          proof -
            have "L v mod 2 ^ off < 2 ^ off" "X v mod 2 ^ off < 2 ^ off" "c0 \<le> 1"
              by (simp_all add: c0_def)
            then show ?thesis
              by linarith
          qed
          then have "S v off div 2 ^ off < 2"
            unfolding S_def by (simp only: less_mult_imp_div_less)
          then show ?thesis
            by (simp add: cv_def)
        qed
        have dc: "denotes 1 cv g2 carry"
          using J2 n(4) by (simp add: J_def cv_def)
        have d2: "denotes (n + 1) cv g2 (resize carry (n + 1) False)"
        proof (rule denotes_cong [OF denotes_resize [OF dc]])
          fix v
          have "cv v < 2 ^ (n + 1)"
            using cle [of v] one_less_power [of "2 :: nat" "n + 1"] by linarith
          then show "cv v mod 2 ^ (n + 1) = cv v"
            by (rule mod_less)
        qed
        show "runs g2 (gbind (narrow ''add'' sum1 (resize carry (n + 1) False) (n + 1)) (\<lambda>sum.
                gret (result @ slice sum 0 n, slice sum (int n) 1))) (\<lambda>g'' (a, b). J (off + 32) g'' a b)"
        proof (rule runs_bind)
          have "builds g2 (narrow ''add'' sum1 (resize carry (n + 1) False) (n + 1)) (n + 1)
              (\<lambda>v. nat_op ''add'' (n + 1) (bval v sum1) (bval v (resize carry (n + 1) False)))"
            using n denotes_length [OF g2(3)] by (intro narrow_nat_builds [OF g2(2) denotes_fits [OF g2(3)] denotes_fits [OF d2]]) simp_all
          then show "builds g2 (narrow ''add'' sum1 (resize carry (n + 1) False) (n + 1)) (n + 1) (\<lambda>v. sl v + sx v + cv v)"
          proof (rule builds_denotes)
            fix F v h
            assume e: "extends g2 h" and m: "model F h v"
            have "sl v + sx v + cv v < 2 ^ (n + 1)"
              using lt [of v] cle [of v] by simp
            then show "nat_op ''add'' (n + 1) (bval v sum1) (bval v (resize carry (n + 1) False)) = sl v + sx v + cv v"
              unfolding denotes_value [OF g2(3) extends_model [OF e m]] denotes_value [OF d2 extends_model [OF e m]] nat_op_def by simp
          qed
          fix sum g3
          assume g3: "extends g2 g3" "good g3" "denotes (n + 1) (\<lambda>v. sl v + sx v + cv v) g3 sum"
          have J3: "denotes off (\<lambda>v. S v off mod 2 ^ off) g3 result"
            using J2 denotes_extends [OF _ g3(1)] n(4) by (simp add: J_def)
          have next_S: "S v (off + n) = S v off mod 2 ^ off + 2 ^ off * (sl v + sx v + cv v)" for v
            using limb_step [of "S v off" "L v" off "X v" c0 n] by (simp add: S_def sl_def sx_def cv_def)
          have low: "denotes n (\<lambda>v. (sl v + sx v + cv v) mod 2 ^ n) g3 (slice sum 0 n)"
            using denotes_slice [OF g3(3), of n 0] by simp
          have high: "denotes 1 (\<lambda>v. (sl v + sx v + cv v) div 2 ^ n) g3 (slice sum (int n) 1)"
          proof (rule denotes_cong [OF denotes_slice [OF g3(3), of 1 n]])
            fix v
            have "(sl v + sx v + cv v) div 2 ^ n < 2"
              using lt [of v] cle [of v] by (intro less_mult_imp_div_less) simp
            then show "(sl v + sx v + cv v) div 2 ^ n mod 2 ^ 1 = (sl v + sx v + cv v) div 2 ^ n"
              by simp
          qed
          have "denotes (off + n) (\<lambda>v. S v (off + n) mod 2 ^ (off + n)) g3 (result @ slice sum 0 n)"
            unfolding denotes_def
          proof (intro conjI allI impI)
            show "length (result @ slice sum 0 n) = off + n" "fits (node_base g3) (result @ slice sum 0 n)"
              using denotes_length [OF J3] denotes_length [OF low] denotes_fits [OF J3] denotes_fits [OF low] by simp_all
            fix F v
            assume m: "model F g3 v"
            have r: "bval v result = S v off mod 2 ^ off" "length result = off"
              using denotes_value [OF J3 m] denotes_length [OF J3] by simp_all
            have "bval v (result @ slice sum 0 n) = S v off mod 2 ^ off + 2 ^ off * ((sl v + sx v + cv v) mod 2 ^ n)"
              unfolding bval_append r denotes_value [OF low m] ..
            also have "\<dots> = S v (off + n) mod 2 ^ (off + n)"
              using split_number [of off "off + n" "S v (off + n)"] by (simp add: next_S)
            finally show "bval v (result @ slice sum 0 n) = S v (off + n) mod 2 ^ (off + n)" .
          qed
          moreover have "denotes 1 (\<lambda>v. S v (off + n) div 2 ^ (off + n)) g3 (slice sum (int n) 1)"
            by (rule denotes_cong [OF high]) (simp add: next_S power_add div_mult2_eq)
          ultimately show "runs g3 (gret (result @ slice sum 0 n, slice sum (int n) 1)) (\<lambda>g'' (a, b). J (off + 32) g'' a b)"
            by (intro runs_ret [OF g3(2)]) (simp add: J_def n(3))
        qed
      qed
    qed
    then show "runs g' (step off (result, carry)) (\<lambda>g'' (a, b). J (off + 32) g'' a b)"
      by (simp only: step_def prod.case Let_def n_def [symmetric] a_def [symmetric] b_def [symmetric])
  qed simp
  then have "runs g (gbind (gfold step (offsets 32 0 width) ([], [of_bool (op = ''sub'')])) (\<lambda>(result, carry). gret result))
      (denotes width (\<lambda>v. nat_op op width (bval v left) (bval v right)))"
  proof (rule runs_bind)
    fix x h
    assume h: "extends g h" "good h" "case x of (a, b) \<Rightarrow> \<exists>off. width \<le> off \<and> J off h a b"
    obtain result carry where x: "x = (result, carry)"
      by (cases x)
    have "denotes width (\<lambda>v. S v width mod 2 ^ width) h result"
      using h(3) by (auto simp: x J_def min_absorb2)
    moreover have "S v width mod 2 ^ width = nat_op op width (bval v left) (bval v right)" for v
      unfolding nat_op_addend [OF op] S_def L_def c0_def X_def mod_mod_trivial by (rule inner_mod)
    ultimately show "runs h (case x of (result, carry) \<Rightarrow> gret result) (denotes width (\<lambda>v. nat_op op width (bval v left) (bval v right)))"
      using runs_ret [OF h(2)] by (simp add: x)
  qed
  then show ?thesis
    by (simp only: wide_add_def Let_def l_def r_def step_def)
qed

section \<open>Multiplication\<close>

lemma shift_loop_Some:
  assumes "zero_one v" and "shift_loop bs i (Some x) = Some s"
  shows "s = x \<and> bval v bs = 0"
  using assms(2) by (induction bs arbitrary: i) (use assms(1) in \<open>auto split: if_splits\<close>)

lemma shift_loop_None:
  assumes "zero_one v" and "shift_loop bs i None = Some s"
  shows "i \<le> s \<and> bval v bs = 2 ^ (s - i)"
  using assms(2)
proof (induction bs arbitrary: i)
  case (Cons b bs)
  show ?case
  proof (cases "b = 0")
    case True
    then have "i + 1 \<le> s \<and> bval v bs = 2 ^ (s - (i + 1))"
      using Cons by simp
    moreover have "s - i = Suc (s - (i + 1))" if "i + 1 \<le> s"
      using that by simp
    ultimately show ?thesis
      using True assms(1) by simp
  next
    case False
    then have "b = 1" "shift_loop bs (i + 1) (Some i) = Some s"
      using Cons.prems by (auto split: if_splits)
    then show ?thesis
      using shift_loop_Some [OF assms(1)] assms(1) by fastforce
  qed
qed simp

text \<open>Resolving is total on a well-formed graph and keeps what a value denotes.\<close>

lemma constant_power_runs:
  assumes good: "good g" and fit: "fits (node_base g) value"
  shows "runs g (constant_power value) (\<lambda>g' shift. \<forall>s F v. shift = Some s \<longrightarrow> model F g' v \<longrightarrow> bval v value = 2 ^ s)"
proof -
  obtain r where r: "ranked r (g_aliases g)"
    using good by (auto simp: good_def)
  have below: "below (node_base g) (g_aliases g)"
    using good by (auto simp: good_def bounded_def below_def)
  obtain ds g' where ds: "resolved value g = Inr (ds, g')"
    using resolved_total [OF r below fit] by blast
  note f = resolved_facts [OF ds]
  have "bval v value = 2 ^ s" if s: "shift_loop ds 0 None = Some s" and m: "model F g' v" for s F v
  proof -
    have "model F g v"
      using m f compressed_model by blast
    then have "map v ds = map v value"
      using f by (simp add: model_def)
    then have "bval v ds = bval v value"
      by (rule bval_cong)
    then show ?thesis
      using shift_loop_None [OF model_zero_one [OF m] s] by simp
  qed
  moreover have "extends g g'"
    using compressed_good(3) [OF _ good] f by blast
  ultimately show ?thesis
    using ds by (auto simp: runs_def constant_power_def gbind_def gret_def)
qed

lemma power_result:
  assumes good: "good g" and fit: "fits (node_base g) left"
    and p: "\<And>F v. model F g v \<Longrightarrow> bval v right = 2 ^ s"
  shows "builds g (gret (resize (replicate (min s width) 0 @ left) width False)) width (\<lambda>v. bval v left * bval v right mod 2 ^ width)"
proof (rule runs_ret [OF good])
  have N: "0 < node_base g"
    using node_base_gt [of g] by simp
  show "denotes width (\<lambda>v. bval v left * bval v right mod 2 ^ width) g (resize (replicate (min s width) 0 @ left) width False)"
    unfolding denotes_def
  proof (intro conjI allI impI)
    have "fits (node_base g) (replicate (min s width) 0 @ left)"
      using fit N by (auto simp: fits_def)
    then show "fits (node_base g) (resize (replicate (min s width) 0 @ left) width False)"
      using N by (rule fits_resize)
    fix F v
    assume m: "model F g v"
    have "bval v (resize (replicate (min s width) 0 @ left) width False) = 2 ^ min s width * bval v left mod 2 ^ width"
      using model_not0 [OF m] by (simp add: bval_resize bval_append bval_zeros)
    also have "\<dots> = bval v left * 2 ^ s mod 2 ^ width"
    proof (cases "s \<le> width")
      case False
      then have "2 ^ width dvd (2 :: nat) ^ s"
        by (simp add: le_imp_power_dvd)
      then show ?thesis
        using False by (simp add: mod_eq_0_iff_dvd)
    qed (simp add: mult.commute)
    finally show "bval v (resize (replicate (min s width) 0 @ left) width False) = bval v left * bval v right mod 2 ^ width"
      using p [OF m] by simp
  qed simp
qed

lemma power_product_builds:
  assumes good: "good g" and fit: "fits (node_base g) left" "fits (node_base g) right"
    and prod: "\<And>h. extends g h \<Longrightarrow> builds h (product left right width) width (\<lambda>v. bval v left * bval v right mod 2 ^ width)"
  shows "builds g (power_product product left right width) width (\<lambda>v. bval v left * bval v right mod 2 ^ width)"
  unfolding power_product_def
proof (rule runs_bind [OF constant_power_runs [OF good fit(2)]])
  fix shift g1
  assume g1: "extends g g1" "good g1" "\<forall>s F v. shift = Some s \<longrightarrow> model F g1 v \<longrightarrow> bval v right = 2 ^ s"
  have fit1: "fits (node_base g1) left" "fits (node_base g1) right"
    using fit fits_extends g1(1) by blast+
  show "builds g1 (gbind (if shift = None
              then gbind (constant_power left) (\<lambda>shift. gret (shift, if shift \<noteq> None then (right, left) else (left, right)))
              else gret (shift, (left, right))) (\<lambda>(shift, (left, right)).
         case shift of
           Some s \<Rightarrow> gret (resize (replicate (min s width) 0 @ left) width False)
         | None \<Rightarrow> product left right width)) width (\<lambda>v. bval v left * bval v right mod 2 ^ width)"
  proof (cases shift)
    case (Some s)
    then show ?thesis
      using power_result [OF g1(2) fit1(1), of right s width] g1(3) by simp
  next
    case None
    have "builds g1 (gbind (constant_power left) (\<lambda>s. case s of
           Some s \<Rightarrow> gret (resize (replicate (min s width) 0 @ right) width False)
         | None \<Rightarrow> product left right width)) width (\<lambda>v. bval v left * bval v right mod 2 ^ width)"
    proof (rule runs_bind [OF constant_power_runs [OF g1(2) fit1(1)]])
      fix s2 g2
      assume g2: "extends g1 g2" "good g2" "\<forall>s F v. s2 = Some s \<longrightarrow> model F g2 v \<longrightarrow> bval v left = 2 ^ s"
      show "builds g2 (case s2 of Some s \<Rightarrow> gret (resize (replicate (min s width) 0 @ right) width False) | None \<Rightarrow> product left right width)
          width (\<lambda>v. bval v left * bval v right mod 2 ^ width)"
      proof (cases s2)
        case None
        then show ?thesis
          using prod [OF extends_trans [OF g1(1) g2(1)]] by simp
      next
        case (Some s)
        have "builds g2 (gret (resize (replicate (min s width) 0 @ right) width False)) width (\<lambda>v. bval v right * bval v left mod 2 ^ width)"
          using g2(3) Some by (intro power_result [OF g2(2) fits_extends [OF fit1(2) g2(1)], where right = left]) simp
        then show ?thesis
          using Some by (simp add: mult.commute)
      qed
    qed
    moreover have "(\<lambda>s. case (s, if s \<noteq> None then (right, left) else (left, right)) of (s, l, r) \<Rightarrow>
          case s of None \<Rightarrow> product l r width | Some s \<Rightarrow> gret (resize (replicate (min s width) 0 @ l) width False)) =
        (\<lambda>s. case s of None \<Rightarrow> product left right width | Some s \<Rightarrow> gret (resize (replicate (min s width) 0 @ right) width False))"
      by (rule ext) (simp split: option.split)
    ultimately show ?thesis
      using None by (simp only: if_True simp_thms gbind_simps)
  qed
qed

lemma sum_of_builds:
  assumes good: "good g" and fit: "fits (node_base g) left" "fits (node_base g) right"
    and w: "0 < width" "0 < length left" "0 < length right"
  shows "builds g (sum_of left right width) width (\<lambda>v. (bval v left + bval v right) mod 2 ^ width)"
proof -
  have op: "nat_op ''add'' width a b = (a + b) mod 2 ^ width" for a b
    by (simp add: nat_op_def)
  show ?thesis
  proof (cases "exceeds left right width")
    case True
    then show ?thesis
      using wide_add_builds [OF good fit, of "''add''" width] by (simp add: sum_of_def op)
  next
    case False
    then show ?thesis
      using narrow_nat_builds [OF good fit, of width "''add''"] w by (simp add: sum_of_def op exceeds_def)
  qed
qed

text \<open>A loop that accumulates a sum modulo the width.\<close>

lemma runs_accumulate:
  assumes good: "good g" and start: "denotes w (\<lambda>v. s v mod 2 ^ w) g r"
    and step: "\<And>x h r t. x \<in> set xs \<Longrightarrow> extends g h \<Longrightarrow> denotes w (\<lambda>v. t v mod 2 ^ w) h r \<Longrightarrow>
      builds h (step x r) w (\<lambda>v. (t v + f x v) mod 2 ^ w)"
  shows "builds g (gfold step xs r) w (\<lambda>v. (s v + sum_list (map (\<lambda>x. f x v) xs)) mod 2 ^ w)"
  using good start step
proof (induction xs arbitrary: g r s)
  case Nil
  then show ?case
    by (simp add: runs_ret)
next
  case (Cons x xs)
  have "builds g (gbind (step x r) (gfold step xs)) w (\<lambda>v. (s v + sum_list (map (\<lambda>x. f x v) (x # xs))) mod 2 ^ w)"
  proof (rule runs_bind)
    show "builds g (step x r) w (\<lambda>v. (s v + f x v) mod 2 ^ w)"
      by (rule Cons.prems(3) [OF _ extends_refl [OF Cons.prems(1)] Cons.prems(2)]) simp
    fix r' h
    assume h: "extends g h" "good h" "denotes w (\<lambda>v. (s v + f x v) mod 2 ^ w) h r'"
    have "builds h (gfold step xs r') w (\<lambda>v. ((s v + f x v) + sum_list (map (\<lambda>x. f x v) xs)) mod 2 ^ w)"
    proof (rule Cons.IH [OF h(2,3)])
      fix y k q t
      assume "y \<in> set xs" "extends h k" "denotes w (\<lambda>v. t v mod 2 ^ w) k q"
      then show "builds k (step y q) w (\<lambda>v. (t v + f y v) mod 2 ^ w)"
        using Cons.prems(3) extends_trans [OF h(1)] by simp
    qed
    then show "builds h (gfold step xs r') w (\<lambda>v. (s v + sum_list (map (\<lambda>x. f x v) (x # xs))) mod 2 ^ w)"
      by (simp add: add.assoc)
  qed
  then show ?case
    by simp
qed

text \<open>A number is the sum of its limbs.\<close>

lemma limb_sum:
  assumes "0 < p"
  shows "sum_list (map (\<lambda>b. 2 ^ b * (x div 2 ^ b mod 2 ^ min p (w - b))) (offsets p off w)) = 2 ^ off * (x div 2 ^ off mod (2 :: nat) ^ (w - off))"
proof (induction off rule: offsets_induct [OF assms, of w])
  case (1 off)
  then show ?case
    by (simp add: offsets_end)
next
  case (2 off)
  show ?case
  proof (cases "p \<le> w - off")
    case True
    have "x div 2 ^ (off + p) = x div 2 ^ off div 2 ^ p"
      by (simp add: power_add div_mult2_eq)
    then have "2 ^ off * (x div 2 ^ off mod 2 ^ p) + 2 ^ (off + p) * (x div 2 ^ (off + p) mod 2 ^ (w - (off + p))) =
        2 ^ off * (x div 2 ^ off mod 2 ^ (w - off))"
      using split_number [OF True, of "x div 2 ^ off"] by (simp add: power_add algebra_simps flip: distrib_left)
    then show ?thesis
      using 2 True by (simp add: offsets_step [OF assms 2(1)])
  next
    case False
    then have "offsets p (off + p) w = []" "min p (w - off) = w - off"
      by (simp_all add: offsets_end)
    then show ?thesis
      by (simp add: offsets_step [OF assms 2(1)])
  qed
qed

lemma sum_list_mod:
  assumes "\<And>x. x \<in> set xs \<Longrightarrow> f x mod q = h x mod (q :: nat)"
  shows "sum_list (map f xs) mod q = sum_list (map h xs) mod q"
  using assms
proof (induction xs)
  case (Cons x xs)
  then have "f x mod q = h x mod q" "sum_list (map f xs) mod q = sum_list (map h xs) mod q"
    by simp_all
  then show ?case
    unfolding list.map sum_list.Cons by (rule mod_add_cong)
qed simp

lemma offsets_less:
  assumes "0 < p"
  shows "b \<in> set (offsets p off w) \<Longrightarrow> b < w"
  by (induction off rule: offsets_induct [OF assms, of w]) (auto simp: offsets_end offsets_step [OF assms])

lemma scaled_mod: "k \<le> m \<Longrightarrow> 2 ^ b * (y mod 2 ^ m) mod 2 ^ (b + k) = 2 ^ b * (y :: nat) mod 2 ^ (b + k)"
  by (simp add: power_add mod_mod_power flip: mult_mod_right)

lemma limb_sum_mod:
  assumes p: "0 < p" and w: "w \<le> n"
  shows "sum_list (map (\<lambda>b. 2 ^ b * (x div 2 ^ b mod 2 ^ min p (n - b))) (offsets p 0 w)) mod 2 ^ w = x mod (2 :: nat) ^ w"
proof -
  note below = offsets_less [OF p]
  have "sum_list (map (\<lambda>b. 2 ^ b * (x div 2 ^ b mod 2 ^ min p (n - b))) (offsets p 0 w)) mod 2 ^ w =
      sum_list (map (\<lambda>b. 2 ^ b * (x div 2 ^ b mod 2 ^ min p (w - b))) (offsets p 0 w)) mod 2 ^ w"
  proof (rule sum_list_mod)
    fix b
    assume "b \<in> set (offsets p 0 w)"
    then have b: "b + (w - b) = w"
      using below by fastforce
    show "2 ^ b * (x div 2 ^ b mod 2 ^ min p (n - b)) mod 2 ^ w = 2 ^ b * (x div 2 ^ b mod 2 ^ min p (w - b)) mod 2 ^ w"
    proof (cases "p \<le> w - b")
      case True
      then show ?thesis
        using w by simp
    next
      case False
      then have "w - b \<le> min p (n - b)" "min p (w - b) = w - b"
        using w by simp_all
      then show ?thesis
        using scaled_mod [of "w - b" "min p (n - b)" b "x div 2 ^ b"] scaled_mod [of "w - b" "w - b" b "x div 2 ^ b"] unfolding b by simp
    qed
  qed
  then show ?thesis
    using limb_sum [OF p, of x w 0] by simp
qed

text \<open>The products of the limbs that reach the result.\<close>

definition limb_pairs :: "nat \<Rightarrow> (nat \<times> nat) list" where
  "limb_pairs w = concat (map (\<lambda>a. map (\<lambda>b. (a, b)) (offsets 32 0 (w - a))) (offsets 32 0 w))"

lemma sum_list_pairs:
  "sum_list (map h (concat (map (\<lambda>a. map (\<lambda>b. (a, b)) (bs a)) as))) = sum_list (map (\<lambda>a. sum_list (map (\<lambda>b. h (a, b)) (bs a))) as)"
  by (induction as) (simp_all add: o_def)

lemma limb_product:
  "sum_list (map (\<lambda>(a, b). 2 ^ (a + b) * ((x div 2 ^ a mod 2 ^ min 32 (w - a)) * (y div 2 ^ b mod 2 ^ min 32 (w - b)))) (limb_pairs w)) mod 2 ^ w
    = x * y mod (2 :: nat) ^ w"
proof -
  define A where "A a = x div 2 ^ a mod 2 ^ min 32 (w - a)" for a
  define B where "B b = y div 2 ^ b mod 2 ^ min 32 (w - b)" for b
  have below: "a < w" if "a \<in> set (offsets 32 off w)" for a off
    using offsets_less [of 32 a off w] that by simp
  have "sum_list (map (\<lambda>(a, b). 2 ^ (a + b) * (A a * B b)) (limb_pairs w)) =
      sum_list (map (\<lambda>a. sum_list (map (\<lambda>b. 2 ^ (a + b) * (A a * B b)) (offsets 32 0 (w - a)))) (offsets 32 0 w))"
    unfolding limb_pairs_def sum_list_pairs by simp
  also have "\<dots> mod 2 ^ w = sum_list (map (\<lambda>a. 2 ^ a * A a * y) (offsets 32 0 w)) mod 2 ^ w"
  proof (rule sum_list_mod)
    fix a
    assume "a \<in> set (offsets 32 0 w)"
    then have a: "a + (w - a) = w"
      using below by fastforce
    define S where "S = sum_list (map (\<lambda>b. 2 ^ b * B b) (offsets 32 0 (w - a)))"
    have "sum_list (map (\<lambda>b. 2 ^ (a + b) * (A a * B b)) bs) = A a * (2 ^ a * sum_list (map (\<lambda>b. 2 ^ b * B b) bs))" for bs
      by (induction bs) (simp_all add: power_add algebra_simps)
    then have "sum_list (map (\<lambda>b. 2 ^ (a + b) * (A a * B b)) (offsets 32 0 (w - a))) = A a * (2 ^ a * S)"
      by (simp add: S_def)
    moreover have "2 ^ a * S mod 2 ^ w = 2 ^ a * y mod 2 ^ w"
    proof -
      have "S mod 2 ^ (w - a) = y mod 2 ^ (w - a)"
        unfolding S_def B_def by (rule limb_sum_mod) simp_all
      then have "2 ^ a * S mod (2 ^ a * 2 ^ (w - a)) = 2 ^ a * y mod (2 ^ a * 2 ^ (w - a))"
        by (simp flip: mult_mod_right)
      then show ?thesis
        using a by (simp flip: power_add)
    qed
    then have "A a * (2 ^ a * S) mod 2 ^ w = A a * (2 ^ a * y) mod 2 ^ w"
      by (rule mod_mult_cong [OF refl])
    ultimately show "sum_list (map (\<lambda>b. 2 ^ (a + b) * (A a * B b)) (offsets 32 0 (w - a))) mod 2 ^ w = 2 ^ a * A a * y mod 2 ^ w"
      by (simp add: ac_simps)
  qed
  also have "sum_list (map (\<lambda>a. 2 ^ a * A a * y) (offsets 32 0 w)) = sum_list (map (\<lambda>a. 2 ^ a * A a) (offsets 32 0 w)) * y"
    by (rule sum_list_mult_const)
  also have "\<dots> mod 2 ^ w = x * y mod 2 ^ w"
    using limb_sum_mod [of 32 w w x] by (intro mod_mult_cong) (simp_all add: A_def)
  finally show ?thesis
    by (simp add: A_def B_def)
qed

lemma wide_mul_builds:
  assumes good: "good g" and fit: "fits (node_base g) left" "fits (node_base g) right" and w: "0 < width"
  shows "builds g (wide_mul left right width) width (\<lambda>v. bval v left * bval v right mod 2 ^ width)"
proof -
  define l where "l = resize left width False"
  define r where "r = resize right width False"
  have N: "0 < node_base g"
    using node_base_gt [of g] by simp
  have fl: "fits (node_base g) l" "fits (node_base g) r"
    using fit N by (simp_all add: l_def r_def fits_resize)
  define A where "A v a = bval v left mod 2 ^ width div 2 ^ a mod 2 ^ min 32 (width - a)" for v a
  define B where "B v b = bval v right mod 2 ^ width div 2 ^ b mod 2 ^ min 32 (width - b)" for v b
  define step where "step = (\<lambda>(a, b) result.
           let lhs = slice l (int a) (min 32 (width - a)); rhs = slice r (int b) (min 32 (width - b))
           in gbind (power_product (narrow ''mul'') (resize lhs 64 False) (resize rhs 64 False) 64) (\<lambda>product.
                sum_of result (resize (replicate (a + b) 0 @ product) width False) width))"
  have "builds g (gfold step (limb_pairs width) (replicate width 0)) width
      (\<lambda>v. (0 + sum_list (map (\<lambda>x. (case x of (a, b) \<Rightarrow> 2 ^ (a + b) * (A v a * B v b))) (limb_pairs width))) mod 2 ^ width)"
  proof (rule runs_accumulate [OF good])
    show "denotes width (\<lambda>v. 0 mod 2 ^ width) g (replicate width 0)"
      using N by (auto simp: denotes_def bval_zeros model_not0 fits_def)
    fix x :: "nat \<times> nat" and h res t
    assume h: "extends g h" and res: "denotes width (\<lambda>v. t v mod 2 ^ width) h res"
    obtain a b where x: "x = (a, b)"
      by (cases x)
    define lhs where "lhs = resize (slice l (int a) (min 32 (width - a))) 64 False"
    define rhs where "rhs = resize (slice r (int b) (min 32 (width - b))) 64 False"
    have N': "0 < node_base h"
      using node_base_gt [of h] by simp
    have fh: "fits (node_base h) lhs" "fits (node_base h) rhs"
      using fits_extends [OF fl(1) h] fits_extends [OF fl(2) h] N' by (simp_all add: lhs_def rhs_def fits_slice fits_resize)
    have lt: "A v a < 2 ^ 32" "B v b < 2 ^ 32" for v
    proof -
      have "(z :: nat) mod 2 ^ min 32 n < 2 ^ 32" for z n
        using order_less_le_trans [OF mod_less_divisor power_increasing, of 2 "min 32 n" 32 z] by simp
      then show "A v a < 2 ^ 32" "B v b < 2 ^ 32"
        by (simp_all only: A_def B_def)
    qed
    have vals: "bval v lhs = A v a" "bval v rhs = B v b" if "model F k v" for F k v
      using model_not0 [OF that] lt [of v] by (simp_all add: lhs_def rhs_def l_def r_def bval_resize bval_slice A_def B_def)
    have "runs h (gbind (power_product (narrow ''mul'') lhs rhs 64) (\<lambda>product.
                sum_of res (resize (replicate (a + b) 0 @ product) width False) width))
        (denotes width (\<lambda>v. (t v + 2 ^ (a + b) * (A v a * B v b)) mod 2 ^ width))"
    proof (rule runs_bind)
      show "builds h (power_product (narrow ''mul'') lhs rhs 64) 64 (\<lambda>v. bval v lhs * bval v rhs mod 2 ^ 64)"
      proof (rule power_product_builds [OF extends_good [OF h] fh])
        fix k
        assume k: "extends h k"
        have "builds k (narrow ''mul'' lhs rhs 64) 64 (\<lambda>v. nat_op ''mul'' 64 (bval v lhs) (bval v rhs))"
          using fits_extends [OF fh(1) k] fits_extends [OF fh(2) k]
          by (intro narrow_nat_builds [OF extends_good [OF k]]) (simp_all add: lhs_def rhs_def)
        then show "builds k (narrow ''mul'' lhs rhs 64) 64 (\<lambda>v. bval v lhs * bval v rhs mod 2 ^ 64)"
          by (simp add: nat_op_def)
      qed
      fix p k
      assume k: "extends h k" "good k" "denotes 64 (\<lambda>v. bval v lhs * bval v rhs mod 2 ^ 64) k p"
      define row where "row = resize (replicate (a + b) 0 @ p) width False"
      have frow: "fits (node_base k) row"
      proof -
        have "fits (node_base k) (replicate (a + b) 0 @ p)"
          using denotes_fits [OF k(3)] node_base_gt [of k] by (auto simp: fits_def)
        then show ?thesis
          unfolding row_def using node_base_gt [of k] by (intro fits_resize) simp_all
      qed
      have res': "denotes width (\<lambda>v. t v mod 2 ^ width) k res"
        by (rule denotes_extends [OF res k(1)])
      have "builds k (sum_of res row width) width (\<lambda>v. (bval v res + bval v row) mod 2 ^ width)"
        using w denotes_length [OF res'] by (intro sum_of_builds [OF k(2) denotes_fits [OF res'] frow]) (simp_all add: row_def)
      then show "builds k (sum_of res (resize (replicate (a + b) 0 @ p) width False) width) width
          (\<lambda>v. (t v + 2 ^ (a + b) * (A v a * B v b)) mod 2 ^ width)"
        unfolding row_def [symmetric]
      proof (rule builds_denotes)
        fix F v k'
        assume "extends k k'" "model F k' v"
        then have m: "model F k v"
          using extends_model by blast
        have "A v a * B v b < 2 ^ 32 * 2 ^ 32"
          using lt [of v] by (intro mult_strict_mono) simp_all
        then have "bval v p = A v a * B v b"
          using denotes_value [OF k(3) m] vals [OF m] by simp
        then have "bval v row = 2 ^ (a + b) * (A v a * B v b) mod 2 ^ width"
          using model_not0 [OF m] by (simp add: row_def bval_resize bval_append bval_zeros)
        then show "(bval v res + bval v row) mod 2 ^ width = (t v + 2 ^ (a + b) * (A v a * B v b)) mod 2 ^ width"
          using denotes_value [OF res' m] by (simp add: mod_simps)
      qed
    qed
    then show "builds h (step x res) width (\<lambda>v. (t v + (case x of (a, b) \<Rightarrow> 2 ^ (a + b) * (A v a * B v b))) mod 2 ^ width)"
      by (simp only: step_def x prod.case Let_def lhs_def rhs_def)
  qed
  moreover have "sum_list (map (\<lambda>x. (case x of (a, b) \<Rightarrow> 2 ^ (a + b) * (A v a * B v b))) (limb_pairs width)) mod 2 ^ width =
      bval v left * bval v right mod 2 ^ width" for v
    unfolding A_def B_def limb_product by (simp add: mod_simps)
  ultimately have "builds g (gfold step (limb_pairs width) (replicate width 0)) width (\<lambda>v. bval v left * bval v right mod 2 ^ width)"
    by simp
  then show ?thesis
    by (simp only: wide_mul_def Let_def l_def r_def step_def limb_pairs_def)
qed

section \<open>Wide shifts\<close>

lemma runs_upt:
  assumes good: "good g" and start: "J i g r" and "i \<le> n"
    and step: "\<And>i g' r. i < n \<Longrightarrow> extends g g' \<Longrightarrow> J i g' r \<Longrightarrow> runs g' (step i r) (J (Suc i))"
  shows "runs g (gfold step [i..<n] r) (J n)"
  using assms
proof (induction "n - i" arbitrary: i g r)
  case 0
  then show ?case
    by (simp add: runs_ret)
next
  case (Suc d)
  then have i: "i < n" "d = n - Suc i"
    by simp_all
  have "runs g (gbind (step i r) (gfold step [Suc i..<n])) (J n)"
  proof (rule runs_bind)
    show "runs g (step i r) (J (Suc i))"
      by (rule Suc.prems(4) [OF i(1) extends_refl [OF Suc.prems(1)] Suc.prems(2)])
    fix r' h
    assume h: "extends g h" "good h" "J (Suc i) h r'"
    show "runs h (gfold step [Suc i..<n] r') (J n)"
      by (rule Suc.hyps(1) [OF i(2) h(2,3)]) (use i Suc.prems(4) extends_trans [OF h(1)] in auto)
  qed
  then show ?case
    using i(1) by (simp add: upt_conv_Cons)
qed

lemma runs_downto:
  assumes good: "good g" and start: "J n g r"
    and step: "\<And>i g' r. i < n \<Longrightarrow> extends g g' \<Longrightarrow> J (Suc i) g' r \<Longrightarrow> runs g' (step i r) (J i)"
  shows "runs g (gfold step (rev [0..<n]) r) (J 0)"
  using assms
proof (induction n arbitrary: g r)
  case 0
  then show ?case
    by (simp add: runs_ret)
next
  case (Suc n)
  have "runs g (gbind (step n r) (gfold step (rev [0..<n]))) (J 0)"
  proof (rule runs_bind)
    show "runs g (step n r) (J n)"
      by (rule Suc.prems(3) [OF _ extends_refl [OF Suc.prems(1)] Suc.prems(2)]) simp
    fix r' h
    assume h: "extends g h" "good h" "J n h r'"
    show "runs h (gfold step (rev [0..<n]) r') (J 0)"
      by (rule Suc.IH [OF h(2,3)]) (use Suc.prems(3) extends_trans [OF h(1)] in auto)
  qed
  then show ?case
    by simp
qed

lemma mod_Suc_power: "(x :: nat) mod 2 ^ Suc i = x mod 2 ^ i + (if bit x i then 2 ^ i else 0)"
proof -
  have "x mod 2 ^ Suc i = x mod 2 ^ i + 2 ^ i * (x div 2 ^ i mod 2)"
    using split_number [of i "Suc i" x] by simp
  also have "x div 2 ^ i mod 2 = of_bool (bit x i)"
    by (simp add: bit_iff_odd mod2_eq_if)
  finally show ?thesis
    by simp
qed

lemma length_vector_resize [simp]: "length (vector_resize xs n b) = n"
  by (simp add: vector_resize_def)

lemma vector_resize_nth: "i < n \<Longrightarrow> vector_resize xs n b ! i = (if i < length xs then xs ! i else b)"
  by (simp add: vector_resize_def nth_append)

lemma fits_vector_resize: "fits N xs \<Longrightarrow> b < N \<Longrightarrow> fits N (vector_resize xs n b)"
  by (auto simp: fits_def vector_resize_def dest: in_set_takeD)

lemma wide_shl_builds:
  assumes good: "good g" and fit: "fits (node_base g) left" "fits (node_base g) right"
    and small: "length left \<le> 2 ^ 63" "width \<le> 2 ^ 63"
  shows "builds g (wide_shl left right width) width (\<lambda>v. bval v left * 2 ^ bval v right mod 2 ^ width)"
proof -
  define n where "n = max (length left) width"
  define l where "l = vector_resize left n 0"
  have N: "0 < node_base g"
    using node_base_gt [of g] by simp
  have fl: "fits (node_base g) l"
    using fit(1) N by (simp add: l_def fits_vector_resize)
  have vl: "bval v l = bval v left" if "\<not> v 0" for v
    using that by (simp add: l_def vector_resize_def bval_append bval_zeros n_def)
  define step where "step = (\<lambda>stage left.
           let moved = map (\<lambda>i. if stage < 63 \<and> 2 ^ stage \<le> i then left ! (i - 2 ^ stage) else 0) [0..<length left]
           in mux [right ! stage] moved left)"
  define J where "J i = denotes n (\<lambda>v. bval v left * 2 ^ (bval v right mod 2 ^ i) mod 2 ^ n)" for i
  have "runs g (gfold step [0..<length right] l) (J (length right))"
  proof (rule runs_upt [OF good])
    have "bval v left mod 2 ^ n = bval v left" for v
      by (rule bval_mod_ge) (simp add: n_def)
    moreover have "bval v l = bval v left" if "model F g v" for F v
      using vl model_not0 [OF that] by blast
    ultimately show "J 0 g l"
      using fl by (simp add: J_def denotes_def) (simp add: l_def)
    fix stage h x
    assume stage: "stage < length right" and h: "extends g h" and x: "J stage h x"
    have len: "length x = n"
      using x denotes_length by (auto simp: J_def)
    define moved where "moved = map (\<lambda>i. if stage < 63 \<and> 2 ^ stage \<le> i then x ! (i - 2 ^ stage) else 0) [0..<length x]"
    have fx: "fits (node_base h) x"
      using x denotes_fits by (auto simp: J_def)
    have fm: "fits (node_base h) moved"
      using fx node_base_gt [of h] by (auto simp: moved_def fits_def)
    have fb: "fits (node_base h) [right ! stage]"
      using fits_nth [OF fits_extends [OF fit(2) h] stage] by simp
    have "builds h (mux [right ! stage] moved x) (length moved)
        (\<lambda>v. if bval v [right ! stage] \<noteq> 0 then bval v moved else bval v x)"
      using extends_good [OF h] fb fm fx by (rule mux_builds) (simp add: moved_def)
    then have "builds h (mux [right ! stage] moved x) n (\<lambda>v. bval v left * 2 ^ (bval v right mod 2 ^ Suc stage) mod 2 ^ n)"
      unfolding moved_def length_map length_upt len diff_zero unfolding len [symmetric] moved_def [symmetric]
    proof (rule builds_denotes)
      fix F v k
      assume "extends h k" "model F k v"
      then have m: "model F h v"
        using extends_model by blast
      have b: "bval v [right ! stage] \<noteq> 0 \<longleftrightarrow> bit (bval v right) stage"
        using stage by (simp add: bit_bval)
      have vx: "bval v x = bval v left * 2 ^ (bval v right mod 2 ^ stage) mod 2 ^ n"
        using x denotes_value m by (simp add: J_def)
      have vm: "bval v moved = bval v x * 2 ^ 2 ^ stage mod 2 ^ n"
      proof (rule bval_eqI)
        fix k
        have "bit (bval v x * 2 ^ 2 ^ stage mod 2 ^ n) k \<longleftrightarrow> k < n \<and> 2 ^ stage \<le> k \<and> bit (bval v x) (k - 2 ^ stage)"
          by (simp only: take_bit_eq_mod [symmetric] push_bit_eq_mult [symmetric] bit_take_bit_iff bit_push_bit_iff_nat)
        moreover have "stage < 63" if "k < n" "2 ^ stage \<le> k"
        proof (rule ccontr)
          assume "\<not> stage < 63"
          then have "(2 :: nat) ^ 63 \<le> 2 ^ stage"
            by (intro power_increasing) simp_all
          then show False
            using small that by (auto simp: n_def)
        qed
        moreover have "moved ! k = (if stage < 63 \<and> 2 ^ stage \<le> k then x ! (k - 2 ^ stage) else 0)" if "k < n"
          using that by (simp add: moved_def len)
        moreover have "length moved = n"
          by (simp add: moved_def len)
        ultimately show "bit (bval v x * 2 ^ 2 ^ stage mod 2 ^ n) k \<longleftrightarrow> k < length moved \<and> v (moved ! k)"
          using model_not0 [OF m] len by (cases "k < n"; cases "2 ^ stage \<le> k") (simp_all add: bit_bval less_imp_diff_less)
      qed
      show "(if bval v [right ! stage] \<noteq> 0 then bval v moved else bval v x) = bval v left * 2 ^ (bval v right mod 2 ^ Suc stage) mod 2 ^ length x"
        unfolding b vm mod_Suc_power len by (simp add: vx power_add mod_mult_left_eq mult.assoc)
    qed
    then show "runs h (step stage x) (J (Suc stage))"
      by (simp only: step_def Let_def moved_def J_def)
  qed simp
  then have "runs g (gbind (gfold step [0..<length right] l) (\<lambda>left. gret (resize left width False)))
      (denotes width (\<lambda>v. bval v left * 2 ^ bval v right mod 2 ^ width))"
  proof (rule runs_bind)
    fix x h
    assume h: "extends g h" "good h" "J (length right) h x"
    have "denotes width (\<lambda>v. bval v left * 2 ^ (bval v right mod 2 ^ length right) mod 2 ^ n mod 2 ^ width) h (resize x width False)"
      by (rule denotes_resize) (use h(3) in \<open>simp add: J_def\<close>)
    moreover have "bval v right mod 2 ^ length right = bval v right" for v
      by (rule bval_mod_ge) simp
    ultimately show "builds h (gret (resize x width False)) width (\<lambda>v. bval v left * 2 ^ bval v right mod 2 ^ width)"
      using runs_ret [OF h(2)] by (simp add: mod_mod_power n_def)
  qed
  then show ?thesis
    by (simp only: wide_shl_def Let_def l_def n_def step_def)
qed

lemma stage_count_enough: "n \<le> 2 ^ stage_count i n"
  by (induction i n rule: stage_count.induct) (simp add: stage_count.simps)

lemma denotes_bits:
  assumes "length x = w" and "fits (node_base g) x" and "\<And>v. f v < 2 ^ w"
    and "\<And>F v k. model F g v \<Longrightarrow> k < w \<Longrightarrow> v (x ! k) \<longleftrightarrow> bit (f v) k"
  shows "denotes w f g x"
  unfolding denotes_def
proof (intro conjI allI impI)
  fix F v
  assume m: "model F g v"
  have "k < w" if "bit (f v) k" for k
  proof -
    have "take_bit w (f v) = f v"
      using assms(3) by (simp add: take_bit_nat_eq_self)
    then show ?thesis
      using that by (metis bit_take_bit_iff)
  qed
  then show "bval v x = f v"
    using assms(1) assms(4) [OF m] by (intro bval_eqI) auto
qed (use assms in auto)

text \<open>A value continued without end by its fill, and its right shift.\<close>

definition filled :: "(gbit \<Rightarrow> bool) \<Rightarrow> gbit \<Rightarrow> gvalue \<Rightarrow> nat \<Rightarrow> bool" where
  "filled v fill bs i = (if i < length bs then v (bs ! i) else v fill)"

lemma shift_stage:
  assumes amount: "amount = 2 ^ stage" and needed: "needed = min (length x) (w + amount - 1)" and i: "i < w + amount - 1"
    and moved: "moved = map (\<lambda>i. if amount < length x - i then x ! (i + amount) else fill) [0..<needed]"
  shows "filled v fill moved i = filled v fill x (i + amount)" and "filled v fill (vector_resize x needed fill) i = filled v fill x i"
proof -
  show "filled v fill (vector_resize x needed fill) i = filled v fill x i"
    using needed i by (auto simp: filled_def vector_resize_nth)
  show "filled v fill moved i = filled v fill x (i + amount)"
    using needed i by (auto simp: filled_def moved)
qed

lemma wide_shift_right_builds:
  assumes good: "good g" and fit: "fits (node_base g) left" "fits (node_base g) right"
    and fill: "fill = (if op = ''sar'' \<and> left \<noteq> [] then last left else 0)"
    and f: "\<And>v. f v < 2 ^ width" "\<And>F v k. model F g v \<Longrightarrow> k < width \<Longrightarrow> bit (f v) k \<longleftrightarrow> filled v fill left (k + bval v right)"
  shows "builds g (wide_shift_right op left right width) width f"
proof -
  define l where "l = vector_resize left (max (length left) width) fill"
  define stages where "stages = stage_count 0 (length l)"
  define R where "R v = bval v right mod 2 ^ stages" for v
  have fb: "fill < node_base g"
    using fit(1) node_base_gt [of g] fill last_in_set by (auto simp: fits_def)
  have fl: "fits (node_base g) l"
    using fit(1) fb by (simp add: l_def fits_vector_resize)
  define step where "step = (\<lambda>stage left.
           let amount = 2 ^ stage; needed = min (length left) (width + amount - 1);
               moved = map (\<lambda>i. if amount < length left - i then left ! (i + amount) else fill) [0..<needed];
               left = vector_resize left needed fill
           in if stage < length right then mux [right ! stage] moved left else gret left)"
  define J where "J s h x \<longleftrightarrow> fits (node_base h) x \<and> (\<forall>F v i. model F h v \<longrightarrow> i < width + 2 ^ s - 1 \<longrightarrow>
      filled v fill x i = filled v fill left (i + (R v - R v mod 2 ^ s)))" for s h x
  have "runs g (gfold step (rev [0..<stages]) l) (J 0)"
  proof (rule runs_downto [OF good])
    have "filled v fill l i = filled v fill left i" for v i
      by (auto simp: filled_def l_def vector_resize_nth)
    then show "J stages g l"
      using fl by (simp add: J_def R_def)
    fix s h x
    assume s: "s < stages" and h: "extends g h" and x: "J (Suc s) h x"
    define amount where "amount = (2 :: nat) ^ s"
    define needed where "needed = min (length x) (width + amount - 1)"
    define moved where "moved = map (\<lambda>i. if amount < length x - i then x ! (i + amount) else fill) [0..<needed]"
    define x' where "x' = vector_resize x needed fill"
    have fx: "fits (node_base h) x" "fill < node_base h"
      using x fb extends_base [OF h] by (auto simp: J_def)
    have fx': "fits (node_base h) x'" "fits (node_base h) moved"
      using fx by (auto simp: x'_def fits_vector_resize) (auto simp: moved_def fits_def)
    have low: "R v - R v mod 2 ^ s = (R v - R v mod 2 ^ Suc s) + (if bit (bval v right) s then 2 ^ s else 0)" for v
    proof -
      have "bit (R v) s \<longleftrightarrow> bit (bval v right) s"
        using s by (simp add: R_def bit_take_bit_iff flip: take_bit_eq_mod)
      then have "R v mod 2 ^ Suc s = R v mod 2 ^ s + (if bit (bval v right) s then 2 ^ s else 0)"
        using mod_Suc_power [of "R v" s] by simp
      moreover have "R v mod 2 ^ Suc s \<le> R v"
        by (rule mod_less_eq_dividend)
      ultimately show ?thesis
        by linarith
    qed
    have stage: "filled v fill y i = filled v fill left (i + (R v - R v mod 2 ^ s))"
      if y: "\<And>i. filled v fill y i = (if bit (bval v right) s then filled v fill moved i else filled v fill x' i)"
        and m: "model F h v" and i: "i < width + 2 ^ s - 1" for F v y i
    proof -
      note st = shift_stage [OF amount_def needed_def i [folded amount_def] moved_def, of v]
      have prev: "filled v fill x j = filled v fill left (j + (R v - R v mod 2 ^ Suc s))" if "j < width + 2 ^ Suc s - 1" for j
        using x m that unfolding J_def by blast
      show ?thesis
      proof (cases "bit (bval v right) s")
        case True
        have "i + amount < width + 2 ^ Suc s - 1"
          using i by (simp add: amount_def)
        then show ?thesis
          using True st(1) prev [of "i + amount"] low [of v] by (simp add: y amount_def ac_simps)
      next
        case False
        have "i < width + 2 ^ Suc s - 1"
          using i by simp
        then show ?thesis
          using False st(2) prev [of i] low [of v] by (simp add: y x'_def)
      qed
    qed
    have "runs h (if s < length right then mux [right ! s] moved x' else gret x') (J s)"
    proof (cases "s < length right")
      case True
      have fr: "fits (node_base h) [right ! s]"
        using fits_nth [OF fits_extends [OF fit(2) h] True] by simp
      have len: "length moved = length x'"
        by (simp add: moved_def x'_def)
      have "builds h (mux [right ! s] moved x') (length moved) (\<lambda>v. if bval v [right ! s] \<noteq> 0 then bval v moved else bval v x')"
        by (rule mux_builds [OF extends_good [OF h] fr fx'(2,1) len])
      then have "runs h (mux [right ! s] moved x') (J s)"
      proof (rule runs_mono)
        fix k y
        assume k: "extends h k" and y: "denotes (length moved) (\<lambda>v. if bval v [right ! s] \<noteq> 0 then bval v moved else bval v x') k y"
        have "filled v fill y i = filled v fill left (i + (R v - R v mod 2 ^ s))" if m: "model F k v" and i: "i < width + 2 ^ s - 1" for F v i
        proof (rule stage [OF _ extends_model [OF k m] i])
          fix i
          have c: "bval v [right ! s] \<noteq> 0 \<longleftrightarrow> bit (bval v right) s"
            using True by (simp add: bit_bval)
          have "bval v y = (if bit (bval v right) s then bval v moved else bval v x')" "length y = length moved"
            using denotes_value [OF y m] denotes_length [OF y] unfolding c by simp_all
          then have "bit (bval v y) i \<longleftrightarrow> (if bit (bval v right) s then bit (bval v moved) i else bit (bval v x') i)"
            by simp
          then have "i < length y \<and> v (y ! i) \<longleftrightarrow> (if bit (bval v right) s then i < length moved \<and> v (moved ! i) else i < length x' \<and> v (x' ! i))"
            by (simp only: bit_bval)
          then show "filled v fill y i = (if bit (bval v right) s then filled v fill moved i else filled v fill x' i)"
            using \<open>length y = length moved\<close> len by (auto simp: filled_def split: if_splits)
        qed
        then show "J s k y"
          using denotes_fits [OF y] unfolding J_def by blast
      qed
      then show ?thesis
        using True by simp
    next
      case False
      have "\<not> bit (bval v right) s" for v
        using False by (simp add: bit_bval)
      then have "J s h x'"
        unfolding J_def using fx'(1) stage [of _ x'] by simp
      then show ?thesis
        using False runs_ret [OF extends_good [OF h]] by simp
    qed
    then show "runs h (step s x) (J s)"
      by (simp only: step_def Let_def amount_def needed_def moved_def x'_def)
  qed
  then have "runs g (gbind (gfold step (rev [0..<stages]) l) (\<lambda>left.
         let left = vector_resize left width fill
         in if stages < length right
            then gbind (unary ''any'' (slice right (int stages) (length right - stages))) (\<lambda>over. mux over (replicate width fill) left)
            else gret left)) (denotes width f)"
  proof (rule runs_bind)
    fix x h
    assume h: "extends g h" "good h" "J 0 h x"
    define y where "y = vector_resize x width fill"
    have fills: "fill < node_base h"
      using fb extends_base [OF h(1)] by simp
    have y: "length y = width" "fits (node_base h) y"
      using h(3) fills by (simp_all add: y_def J_def fits_vector_resize)
    have bits: "v (y ! k) = filled v fill left (k + R v)" if "model F h v" "k < width" for F v k
    proof -
      have "filled v fill x k = filled v fill left (k + (R v - R v mod 2 ^ 0))"
        using h(3) that unfolding J_def by auto
      then show ?thesis
        using that(2) by (simp add: y_def vector_resize_nth filled_def split: if_splits)
    qed
    have n: "length left \<le> 2 ^ stages"
      using stage_count_enough [of "length l" 0] by (simp add: stages_def l_def)
    show "runs h (let left = vector_resize x width fill
         in if stages < length right
            then gbind (unary ''any'' (slice right (int stages) (length right - stages))) (\<lambda>over. mux over (replicate width fill) left)
            else gret left) (denotes width f)"
      unfolding Let_def y_def [symmetric]
    proof (cases "stages < length right")
      case False
      have "denotes width f h y"
      proof (rule denotes_bits [OF y f(1)])
        fix F v k
        assume m: "model F h v" and k: "k < width"
        have "R v = bval v right"
          using False by (simp add: R_def bval_mod_ge)
        then show "v (y ! k) \<longleftrightarrow> bit (f v) k"
          using bits [OF m k] f(2) [OF extends_model [OF h(1) m] k] by simp
      qed
      then show "runs h (if stages < length right
            then gbind (unary ''any'' (slice right (int stages) (length right - stages))) (\<lambda>over. mux over (replicate width fill) y)
            else gret y) (denotes width f)"
        using False runs_ret [OF h(2)] by simp
    next
      case True
      define top where "top = slice right (int stages) (length right - stages)"
      have ftop: "fits (node_base h) top"
        using fits_extends [OF fit(2) h(1)] node_base_gt [of h] by (simp add: top_def fits_slice)
      have "runs h (gbind (unary ''any'' top) (\<lambda>over. mux over (replicate width fill) y)) (denotes width f)"
      proof (rule runs_bind)
        show "builds h (unary ''any'' top) 1 (\<lambda>v. of_bool (reduction ''any'' v top))"
          by (rule unary_builds [OF h(2) ftop]) simp
        fix over k
        assume k: "extends h k" "good k" "denotes 1 (\<lambda>v. of_bool (reduction ''any'' v top)) k over"
        have fk: "fits (node_base k) (replicate width fill)" "fits (node_base k) y"
          using fills extends_base [OF k(1)] fits_extends [OF y(2) k(1)] by (auto simp: fits_def)
        have "builds k (mux over (replicate width fill) y) (length (replicate width fill))
            (\<lambda>v. if bval v over \<noteq> 0 then bval v (replicate width fill) else bval v y)"
          using y(1) by (intro mux_builds [OF k(2) denotes_fits [OF k(3)] fk]) simp
        then show "runs k (mux over (replicate width fill) y) (denotes width f)"
        proof (rule runs_mono)
          fix k2 z
          assume k2: "extends k k2" and z: "denotes (length (replicate width fill))
              (\<lambda>v. if bval v over \<noteq> 0 then bval v (replicate width fill) else bval v y) k2 z"
          show "denotes width f k2 z"
          proof (rule denotes_bits [OF _ denotes_fits [OF z] f(1)])
            show "length z = width"
              using denotes_length [OF z] by simp
            fix F v i
            assume m2: "model F k2 v" and i: "i < width"
            note mk = extends_model [OF k2 m2]
            note mh = extends_model [OF k(1) mk]
            note mg = extends_model [OF h(1) mh]
            have "bval v top = bval v right div 2 ^ stages"
            proof -
              have "bval v right div 2 ^ stages < 2 ^ (length right - stages)"
                using bval_lt [of v right] True by (intro less_mult_imp_div_less) (simp flip: power_add)
              then show ?thesis
                using model_not0 [OF mh] by (simp add: top_def bval_slice)
            qed
            moreover have "bval v over = of_bool (bval v top \<noteq> 0)"
              using denotes_value [OF k(3) mk] by (simp add: any_reduction)
            ultimately have over: "bval v over \<noteq> 0 \<longleftrightarrow> 2 ^ stages \<le> bval v right"
              by (simp add: div_eq_0_iff not_less)
            have zv: "v (z ! i) \<longleftrightarrow> (if 2 ^ stages \<le> bval v right then v fill else v (y ! i))"
              using arg_cong [OF denotes_value [OF z m2], of "\<lambda>x. bit x i"] denotes_length [OF z] i y(1)
              unfolding over by (auto simp: bit_bval split: if_splits)
            show "v (z ! i) \<longleftrightarrow> bit (f v) i"
            proof (cases "2 ^ stages \<le> bval v right")
              case True
              then show ?thesis
                using zv f(2) [OF mg i] n by (simp add: filled_def)
            next
              case False
              then have "R v = bval v right"
                by (simp add: R_def)
              then show ?thesis
                using False zv bits [OF mh i] f(2) [OF mg i] by simp
            qed
          qed
        qed
      qed
      then show "runs h (if stages < length right
            then gbind (unary ''any'' (slice right (int stages) (length right - stages))) (\<lambda>over. mux over (replicate width fill) y)
            else gret y) (denotes width f)"
        using True by (simp add: top_def)
    qed
  qed
  then show ?thesis
    by (simp only: wide_shift_right_def Let_def l_def stages_def step_def fill)
qed

end
