(* ===== verification/GraphBinary.thy ===== *)
theory GraphBinary
  imports GraphOpsSound
begin

text \<open>
  \<open>binary\<close> as a whole: the unsigned operations at any width, save that quotient and remainder
  have no wide form, the signed ones at the widths the source supports, and the properties of the
  builders.
\<close>

section \<open>The operation at any width\<close>

definition unsigned_ops :: "string list" where
  "unsigned_ops = [''and'', ''or'', ''xor'', ''add'', ''sub'', ''mul'', ''div'', ''mod'', ''eq'', ''lt'', ''shl'', ''shr'']"

definition meaning :: "string \<Rightarrow> nat \<Rightarrow> nat \<Rightarrow> nat \<Rightarrow> nat" where
  "meaning op width a b = (if op = ''and'' \<or> op = ''or'' \<or> op = ''xor'' then bit_op op a b mod 2 ^ width else nat_op op width a b)"

lemma unsigned_cases:
  assumes "op \<in> set unsigned_ops"
  shows "(op = ''and'' \<or> op = ''or'' \<or> op = ''xor'') \<or> op = ''mul'' \<or> op \<in> {''add'', ''sub'', ''eq'', ''lt'', ''shl'', ''shr''} \<or>
    (op = ''div'' \<or> op = ''mod'')"
  using assms unfolding unsigned_ops_def list.set insert_iff empty_iff by (elim disjE) simp_all

lemma addsub_cases:
  assumes "op \<in> {''add'', ''sub'', ''eq'', ''lt'', ''shl'', ''shr''}"
  shows "(op = ''add'' \<or> op = ''sub'') \<or> op = ''eq'' \<or> op = ''lt'' \<or> op = ''shl'' \<or> op = ''shr''"
  using assms unfolding insert_iff empty_iff by (elim disjE) simp_all

lemma wide_builds:
  assumes good: "good g" and fit: "fits (node_base g) left" "fits (node_base g) right"
    and op: "op \<in> {''add'', ''sub'', ''eq'', ''lt'', ''shl'', ''shr''}"
    and small: "length left \<le> 2 ^ 63" "width \<le> 2 ^ 63"
  shows "builds g (wide op left right width) width (\<lambda>v. nat_op op width (bval v left) (bval v right))"
proof -
  consider "op = ''add'' \<or> op = ''sub''" | "op = ''eq''" | "op = ''lt''" | "op = ''shl''" | "op = ''shr''"
    using addsub_cases [OF op] by (elim disjE) simp_all
  then show ?thesis
  proof cases
    case 1
    then have "wide op left right width = wide_add op left right width"
      by (auto simp: wide_def)
    then show ?thesis
      using wide_add_builds [OF good fit 1] by simp
  next
    case 2
    then show ?thesis
      using wide_eq_builds [OF good fit] by (simp add: wide_def)
  next
    case 3
    then show ?thesis
      using wide_lt_builds [OF good fit] by (simp add: wide_def)
  next
    case 4
    then show ?thesis
      using wide_shl_builds [OF good fit small] by (simp add: wide_def nat_op_def)
  next
    case 5
    have "builds g (wide_shift_right ''shr'' left right width) width (\<lambda>v. bval v left div 2 ^ bval v right mod 2 ^ width)"
    proof (rule wide_shift_right_builds [OF good fit refl])
      fix F v k
      assume "model F g v" "k < width"
      have "bit (bval v left div 2 ^ bval v right mod 2 ^ width) k \<longleftrightarrow> k < width \<and> bit (bval v left) (bval v right + k)"
        by (simp only: take_bit_eq_mod [symmetric] drop_bit_eq_div [symmetric] bit_take_bit_iff bit_drop_bit_eq o_apply)
      then show "bit (bval v left div 2 ^ bval v right mod 2 ^ width) k \<longleftrightarrow>
          filled v (if ''shr'' = ''sar'' \<and> left \<noteq> [] then last left else 0) left (k + bval v right)"
        using \<open>k < width\<close> model_not0 [OF \<open>model F g v\<close>] by (simp add: bit_bval filled_def add.commute)
    qed simp
    then show ?thesis
      using 5 by (simp add: wide_def nat_op_def)
  qed
qed

lemma rest_builds:
  assumes good: "good g" and fit: "fits (node_base g) left" "fits (node_base g) right"
    and op: "op \<in> {''add'', ''sub'', ''eq'', ''lt'', ''shl'', ''shr''}"
    and small: "length left \<le> 2 ^ 63" "width \<le> 2 ^ 63"
    and pos: "0 < width" "0 < length left" "0 < length right"
  shows "builds g (if exceeds left right width then wide op left right width else narrow op left right width) width
    (\<lambda>v. nat_op op width (bval v left) (bval v right))"
proof (cases "exceeds left right width")
  case True
  then show ?thesis
    using wide_builds [OF good fit op small] by simp
next
  case False
  have "builds g (narrow op left right width) width (\<lambda>v. nat_op op width (bval v left) (bval v right))"
    using False pos op by (intro narrow_nat_builds [OF good fit]) (auto simp: exceeds_def)
  then show ?thesis
    using False by simp
qed

lemma binary_builds:
  assumes good: "good g" and fit: "fits (node_base g) left" "fits (node_base g) right"
    and op: "op \<in> set unsigned_ops" and small: "length left \<le> 2 ^ 63" "width \<le> 2 ^ 63"
    and pos: "0 < width" "0 < length left" "0 < length right"
    and narrow: "op = ''div'' \<or> op = ''mod'' \<Longrightarrow> \<not> exceeds left right width"
  shows "builds g (binary op left right width) width (\<lambda>v. meaning op width (bval v left) (bval v right))"
proof -
  consider "op = ''and'' \<or> op = ''or'' \<or> op = ''xor''" | "op = ''mul''" | "op \<in> {''add'', ''sub'', ''eq'', ''lt'', ''shl'', ''shr''}"
    | "op = ''div'' \<or> op = ''mod''"
    using unsigned_cases [OF op] by (elim disjE) simp_all
  then show ?thesis
  proof cases
    case 1
    then have "binary op left right width = bitwise op left right width" "meaning op width a b = bit_op op a b mod 2 ^ width" for a b
      by (auto simp: binary_def meaning_def)
    then show ?thesis
      using bitwise_builds [OF good fit 1] by simp
  next
    case 3
    then have "binary op left right width = (if exceeds left right width then wide op left right width else narrow op left right width)"
      "meaning op width a b = nat_op op width a b" for a b
      by (auto simp: binary_def meaning_def)
    then show ?thesis
      using rest_builds [OF good fit 3 small pos] by simp
  next
    case 4
    have "builds g (narrow op left right width) width (\<lambda>v. nat_op op width (bval v left) (bval v right))"
      using narrow [OF 4] 4 pos by (intro narrow_nat_builds [OF good fit]) (auto simp: exceeds_def)
    moreover have "binary op left right width = narrow op left right width"
      using 4 narrow [OF 4] by (auto simp: binary_def)
    moreover have "meaning op width a b = nat_op op width a b" for a b
      using 4 by (auto simp: meaning_def)
    ultimately show ?thesis
      by simp
  next
    case 2
    define product where "product = (\<lambda>left right width. if exceeds left right width then wide ''mul'' left right width else narrow ''mul'' left right width)"
    have "builds g (power_product product left right width) width (\<lambda>v. bval v left * bval v right mod 2 ^ width)"
    proof (rule power_product_builds [OF good fit])
      fix h
      assume h: "extends g h"
      note fh = fits_extends [OF fit(1) h] fits_extends [OF fit(2) h]
      show "builds h (product left right width) width (\<lambda>v. bval v left * bval v right mod 2 ^ width)"
      proof (cases "exceeds left right width")
        case True
        then show ?thesis
          using wide_mul_builds [OF extends_good [OF h] fh pos(1)] by (simp add: product_def wide_def)
      next
        case False
        have "builds h (narrow ''mul'' left right width) width (\<lambda>v. nat_op ''mul'' width (bval v left) (bval v right))"
          using False pos by (intro narrow_nat_builds [OF extends_good [OF h] fh]) (auto simp: exceeds_def)
        then show ?thesis
          using False by (simp add: product_def nat_op_def)
      qed
    qed
    moreover have "binary op left right width = power_product product left right width"
      by (simp add: 2 binary_def product_def)
    ultimately show ?thesis
      by (simp add: 2 meaning_def nat_op_def)
  qed
qed

section \<open>Signed operations\<close>

definition signed_value :: "nat \<Rightarrow> nat \<Rightarrow> int" where
  "signed_value n a = signed_take_bit (n - 1) (int a)"

definition signed_op :: "string \<Rightarrow> nat \<Rightarrow> nat \<Rightarrow> nat \<Rightarrow> nat \<Rightarrow> nat" where
  "signed_op op n width a b =
     (if op = ''slt'' then of_bool (signed_value n a < signed_value n b) mod 2 ^ width
      else if op = ''sar'' then nat (signed_value n a div 2 ^ b mod 2 ^ width)
      else if b = 0 then 0
      else nat ((if op = ''sdiv'' then signed_value n a sdiv signed_value n b else signed_value n a smod signed_value n b) mod 2 ^ width))"

lemma word_of_int_low: "width \<le> 64 \<Longrightarrow> unat (word_of_int z :: u64) mod 2 ^ width = nat (z mod 2 ^ width)"
proof -
  assume w: "width \<le> 64"
  have "int (unat (word_of_int z :: u64) mod 2 ^ width) = z mod 2 ^ 64 mod 2 ^ width"
    by (simp add: zmod_int uint_word_of_int flip: uint_nat)
  also have "\<dots> = z mod 2 ^ width"
    using w by (rule mod_mod_power_int)
  finally show ?thesis
    by (simp add: nat_eq_iff)
qed

lemma native_sign_value:
  assumes "1 \<le> length bs" and "length bs \<le> 64"
  shows "native_sign (num_word v bs) (length bs) = signed_value (length bs) (bval v bs)"
proof -
  have "uint (num_word v bs) = int (bval v bs)"
    unfolding unat_num_word [OF assms(2), symmetric] by simp
  then show ?thesis
    using native_sign_take [OF assms] by (simp add: signed_value_def)
qed

lemma min_signed:
  assumes "signed_value n a = - (2 ^ 63)" and "1 \<le> n" "n \<le> 64" and "a < 2 ^ n"
  shows "a = 2 ^ 63"
proof -
  have "n = 64"
  proof (rule ccontr)
    assume "n \<noteq> 64"
    then have "n - 1 < 63"
      using assms(3) by simp
    then have "(2 :: int) ^ (n - 1) < 2 ^ 63"
      by (intro power_strict_increasing) simp_all
    moreover have "- (2 ^ (n - 1)) \<le> signed_take_bit (n - 1) (int a)"
      by (rule signed_take_bit_int_greater_eq_minus_exp)
    ultimately show False
      using assms(1) unfolding signed_value_def by linarith
  qed
  then have "take_bit 64 (signed_take_bit 63 (int a)) = take_bit 64 (- (2 ^ 63) :: int)"
    using assms(1) by (simp add: signed_value_def)
  moreover have "take_bit 64 (signed_take_bit 63 (int a)) = int a"
    using assms(4) \<open>n = 64\<close> by (simp add: take_bit_signed_take_bit take_bit_int_eq_self)
  moreover have "take_bit 64 (- (2 ^ 63) :: int) = 2 ^ 63"
    by (simp add: take_bit_eq_mod)
  ultimately have "int a = 2 ^ 63"
    by simp
  then show ?thesis
    by (metis of_nat_eq_iff of_nat_numeral of_nat_power)
qed

lemma word_value_signed:
  assumes op: "op = ''slt'' \<or> op = ''sdiv'' \<or> op = ''smod''" and n: "length left = n" "length right = n" "1 \<le> n" "n \<le> 64"
    and w: "width \<le> 64"
  shows "unat (word_value op width left right v) mod 2 ^ width = signed_op op n width (bval v left) (bval v right)"
proof -
  define a where "a = num_word v left"
  define b where "b = num_word v right"
  have sgn: "native_sign a (length left) = signed_value n (bval v left)" "native_sign b (length right) = signed_value n (bval v right)"
    using native_sign_value [of left v] native_sign_value [of right v] n by (simp_all add: a_def b_def)
  have ua: "unat a = bval v left" and b0: "b = 0 \<longleftrightarrow> bval v right = 0"
    using unat_num_word [of left v] unat_num_word [of right v] n unat_eq_0 [of b] by (simp_all add: a_def b_def)
  have lt: "bval v left < 2 ^ n"
    using bval_lt [of v left] n by simp
  have val: "word_value op width left right v = native_expr op (length left) (length right) a b 0"
    by (simp add: word_value_def a_def b_def)
  consider "op = ''slt''" | "op = ''sdiv''" | "op = ''smod''"
    using op by blast
  then show ?thesis
  proof cases
    case 1
    show ?thesis
      unfolding val unfolding 1 native_signed sgn by (simp add: signed_op_def)
  next
    case 2
    show ?thesis
    proof (cases "signed_value n (bval v left) = - (2 ^ 63) \<and> signed_value n (bval v right) = - 1")
      case True
      have "bval v left = 2 ^ 63"
        using min_signed [OF _ n(3,4) lt] True by blast
      moreover have "(- (2 ^ 63) :: int) sdiv (- 1) = 2 ^ 63"
        by (simp add: signed_divide_int_def)
      moreover have "unat a mod 2 ^ width = nat (2 ^ 63 mod 2 ^ width)" if "bval v left = 2 ^ 63"
        using that ua by (simp add: nat_mod_distrib nat_power_eq)
      ultimately show ?thesis
        unfolding val unfolding 2 native_signed sgn b0 using True by (simp add: signed_op_def)
    next
      case False
      then show ?thesis
        unfolding val unfolding 2 native_signed sgn b0 by (auto simp: signed_op_def word_of_int_low [OF w])
    qed
  next
    case 3
    show ?thesis
    proof (cases "signed_value n (bval v left) = - (2 ^ 63) \<and> signed_value n (bval v right) = - 1")
      case True
      moreover have "(- (2 ^ 63) :: int) smod (- 1) = 0"
        by (simp add: signed_modulo_int_def)
      ultimately show ?thesis
        unfolding val unfolding 3 native_signed sgn b0 by (simp add: signed_op_def)
    next
      case False
      then show ?thesis
        unfolding val unfolding 3 native_signed sgn b0 by (auto simp: signed_op_def word_of_int_low [OF w])
    qed
  qed
qed

lemma signed_builds:
  assumes good: "good g" and fit: "fits (node_base g) left" "fits (node_base g) right"
    and op: "op = ''slt'' \<or> op = ''sdiv'' \<or> op = ''smod''" and n: "length left = n" "length right = n" "1 \<le> n" "n \<le> 64"
    and w: "0 < width" "width \<le> 64"
  shows "builds g (binary op left right width) width (\<lambda>v. signed_op op n width (bval v left) (bval v right))"
proof -
  have "narrow_op op"
    using op by (auto simp: narrow_op_def word_ops_def)
  moreover have "node_ok (probe op width left right [])"
    using op n w by (auto simp: node_ok_def probe_def word_ops_def)
  ultimately have "builds g (narrow op left right width) width (\<lambda>v. signed_op op n width (bval v left) (bval v right))"
    using narrow_builds [OF good fit, of op width] unfolding word_value_signed [OF op n w(2)] by simp
  moreover have "binary op left right width = narrow op left right width"
    using op n w by (auto simp: binary_def exceeds_def)
  ultimately show ?thesis
    by simp
qed

lemma bit_signed_value: "bit (signed_value n a) k \<longleftrightarrow> bit a (min (n - 1) k)"
  by (simp add: signed_value_def bit_signed_take_bit_iff bit_of_nat_iff)

lemma bit_sar: "bit (signed_op ''sar'' n w a b) k \<longleftrightarrow> k < w \<and> bit a (min (n - 1) (k + b))"
proof -
  have "signed_op ''sar'' n w a b = nat (take_bit w (drop_bit b (signed_value n a)))"
    by (simp add: signed_op_def take_bit_eq_mod drop_bit_eq_div)
  then show ?thesis
    by (simp add: bit_nat_iff bit_take_bit_iff bit_drop_bit_eq bit_signed_value add.commute)
qed

lemma word_value_sar:
  assumes l: "1 \<le> length left" "length left \<le> 64" and r: "length right \<le> 64" and w: "width \<le> 64"
  shows "unat (word_value ''sar'' width left right v) mod 2 ^ width = signed_op ''sar'' (length left) width (bval v left) (bval v right)"
proof -
  define r where "r = num_word v right"
  define s where "s = (if r < 64 then unat r else 63)"
  have ur: "unat r = bval v right"
    using unat_num_word [OF assms(3), of v] by (simp add: r_def)
  have "word_value ''sar'' width left right v = word_of_int (drop_bit s (signed_value (length left) (bval v left)))"
    using native_sign_value [OF l, of v] by (simp add: word_value_def native_expr_def s_def r_def)
  then have "unat (word_value ''sar'' width left right v) mod 2 ^ width = nat (take_bit width (drop_bit s (signed_value (length left) (bval v left))))"
    by (simp only: word_of_int_low [OF w] take_bit_eq_mod)
  also have "\<dots> = signed_op ''sar'' (length left) width (bval v left) (bval v right)"
  proof (rule bit_eqI)
    fix k
    have "min (length left - 1) (s + k) = min (length left - 1) (k + bval v right)"
      using l by (auto simp: s_def ur [symmetric] word_less_nat_alt)
    then show "bit (nat (take_bit width (drop_bit s (signed_value (length left) (bval v left))))) k \<longleftrightarrow>
        bit (signed_op ''sar'' (length left) width (bval v left) (bval v right)) k"
      by (simp add: bit_sar bit_nat_iff bit_take_bit_iff bit_drop_bit_eq bit_signed_value)
  qed
  finally show ?thesis .
qed

lemma sar_builds:
  assumes good: "good g" and fit: "fits (node_base g) left" "fits (node_base g) right" and pos: "0 < width" "0 < length left"
  shows "builds g (binary ''sar'' left right width) width (\<lambda>v. signed_op ''sar'' (length left) width (bval v left) (bval v right))"
proof (cases "exceeds left right width")
  case False
  then have len: "length left \<le> 64" "length right \<le> 64" "width \<le> 64"
    by (simp_all add: exceeds_def)
  have "builds g (narrow ''sar'' left right width) width (\<lambda>v. unat (word_value ''sar'' width left right v) mod 2 ^ width)"
    using len pos by (intro narrow_builds [OF good fit]) (auto simp: narrow_op_def node_ok_def probe_def word_ops_def)
  moreover have "1 \<le> length left"
    using pos by (simp only: One_nat_def Suc_le_eq)
  ultimately show ?thesis
    unfolding word_value_sar [OF \<open>1 \<le> length left\<close> len] using False by (simp add: binary_def)
next
  case True
  have "builds g (wide_shift_right ''sar'' left right width) width (\<lambda>v. signed_op ''sar'' (length left) width (bval v left) (bval v right))"
  proof (rule wide_shift_right_builds [OF good fit refl])
    show "signed_op ''sar'' (length left) width (bval v left) (bval v right) < 2 ^ width" for v
      by (simp add: signed_op_def nat_less_iff)
    fix F v k
    assume "model F g v" and k: "k < width"
    show "bit (signed_op ''sar'' (length left) width (bval v left) (bval v right)) k \<longleftrightarrow>
        filled v (if ''sar'' = ''sar'' \<and> left \<noteq> [] then last left else 0) left (k + bval v right)"
    proof (cases "k + bval v right < length left")
      case True
      then have "min (length left - 1) (k + bval v right) = k + bval v right"
        by simp
      then show ?thesis
        using True k by (simp add: bit_sar bit_bval filled_def)
    next
      case False
      then have "min (length left - 1) (k + bval v right) = length left - 1"
        by simp
      then show ?thesis
        using False k pos by (simp add: bit_sar bit_bval filled_def last_conv_nth)
    qed
  qed
  then show ?thesis
    using True by (simp add: binary_def wide_def)
qed

section \<open>Alias chains\<close>

fun follow :: "(gbit, gbit) fmap \<Rightarrow> nat \<Rightarrow> gbit \<Rightarrow> gbit option" where
  "follow al 0 b = Some b"
| "follow al (Suc k) b = (case fmlookup al b of None \<Rightarrow> None | Some c \<Rightarrow> follow al k c)"

lemma follow_add: "follow al j b = Some c \<Longrightarrow> follow al (j + k) b = follow al k c"
  by (induction j arbitrary: b) (auto split: option.splits)

lemma follow_before: "follow al k b = None \<Longrightarrow> follow al (k + j) b = None"
  by (induction k arbitrary: b) (auto split: option.splits)

lemma follow_loop:
  assumes "follow al (Suc j) c = Some c"
  shows "follow al k c \<noteq> None"
proof -
  have "follow al (Suc j * m) c = Some c" for m
    by (induction m) (use follow_add [OF assms] in \<open>simp_all add: mult_Suc_right del: mult_Suc follow.simps(2)\<close>)
  from this [of k] show ?thesis
    using follow_before [of al k c "Suc j * k - k"] by fastforce
qed

lemma resolve_loop_chain:
  assumes "\<forall>e \<in> set path. \<exists>j. follow al (Suc j) e = Some c"
  shows "(\<exists>e p k. resolve_loop al c path = Inr (e, p) \<and> follow al k c = Some e \<and> fmlookup al e = None) \<or>
    resolve_loop al c path = Inl (Runtime_error ''cyclic wire alias'') \<and> (\<forall>k. follow al k c \<noteq> None)"
  using assms
proof (induction al c path rule: resolve_loop.induct)
  case (1 al c path)
  show ?case
  proof (cases "fmlookup al c")
    case None
    then have "resolve_loop al c path = Inr (c, path) \<and> follow al 0 c = Some c \<and> fmlookup al c = None"
      by (simp add: resolve_loop_cases(1))
    then show ?thesis
      by blast
  next
    case (Some b)
    show ?thesis
    proof (cases "c \<in> set path")
      case True
      then have "resolve_loop al c path = Inl (Runtime_error ''cyclic wire alias'')"
        using Some by (simp add: resolve_loop.simps [of al c path])
      moreover have "\<forall>k. follow al k c \<noteq> None"
        using 1(2) True follow_loop by blast
      ultimately show ?thesis
        by blast
    next
      case False
      have step: "resolve_loop al c path = resolve_loop al b (path @ [c])"
        using Some False by (rule resolve_loop_cases(2))
      have "\<exists>j. follow al (Suc j) e = Some b" if e: "e \<in> set (path @ [c])" for e
      proof (cases "e = c")
        case True
        have "follow al (Suc 0) c = Some b"
          using Some by simp
        then show ?thesis
          using True by blast
      next
        case False
        then obtain j where "follow al (Suc j) e = Some c"
          using e 1(2) False by (auto simp del: follow.simps)
        from follow_add [OF this, of "Suc 0"] have "follow al (Suc (Suc j)) e = Some b"
          using Some by simp
        then show ?thesis
          by blast
      qed
      from 1(1) [OF Some False] this
      consider e p k where "resolve_loop al b (path @ [c]) = Inr (e, p)" "follow al k b = Some e" "fmlookup al e = None"
        | "resolve_loop al b (path @ [c]) = Inl (Runtime_error ''cyclic wire alias'')" "\<forall>k. follow al k b \<noteq> None"
        by blast
      then show ?thesis
      proof cases
        case 1
        then have "follow al (Suc k) c = Some e"
          using Some by simp
        then show ?thesis
          unfolding step using 1 by blast
      next
        case 2
        have "follow al k c \<noteq> None" for k
          using 2(2) Some by (cases k) auto
        then show ?thesis
          unfolding step using 2(1) by blast
      qed
    qed
  qed
qed

section \<open>Properties\<close>

text \<open>C6: Resolving a bit always ends: it gives the end of the chain of aliases when the chain has
  an end, and throws exactly when the chain runs for ever; the aliases it compresses keep what every
  valuation agrees on, the set of aliased bits included.\<close>

theorem resolve_terminates:
  "(\<exists>e g' k. resolve b g = Inr (e, g') \<and> follow (g_aliases g) k b = Some e \<and> fmlookup (g_aliases g) e = None \<and>
      fmdom' (g_aliases g') = fmdom' (g_aliases g) \<and> agrees (g_aliases g') = agrees (g_aliases g)) \<or>
    resolve b g = Inl (Runtime_error ''cyclic wire alias'') \<and> (\<forall>k. follow (g_aliases g) k b \<noteq> None)"
proof -
  consider e p k where "resolve_loop (g_aliases g) b [] = Inr (e, p)" "follow (g_aliases g) k b = Some e" "fmlookup (g_aliases g) e = None"
    | "resolve_loop (g_aliases g) b [] = Inl (Runtime_error ''cyclic wire alias'')" "\<forall>k. follow (g_aliases g) k b \<noteq> None"
    using resolve_loop_chain [of "[]" "g_aliases g" b] by auto
  then show ?thesis
  proof cases
    case 1
    then obtain g' where g': "resolve b g = Inr (e, g')"
      by (simp add: resolve_def)
    have "same_aliases (g_aliases g) (g_aliases g')"
      using resolve_compressed [OF g'] by (rule compressed_fields(5))
    then show ?thesis
      using 1 g' unfolding same_aliases_def by blast
  next
    case 2
    then show ?thesis
      by (simp add: resolve_def)
  qed
qed

text \<open>C3: Adding a node to a well-formed graph returns, and is a definition: the models of the new
  graph are models of the old one, every model of the old one extends to the new one without
  changing its bits, and the bits returned, redirected or not, denote the lanes of the node.\<close>

theorem add_is_definitional:
  assumes "good g" and "addable n" and "fits (node_base g) (operand_bits n)"
    and "n = \<lparr>n_op = op, n_width = width, n_left = left, n_right = right, n_select = select, n_name = name, n_scope = g_scope g\<rparr>"
  shows "\<exists>result g'. add_node op width left right select name g = Inr (result, g') \<and> good g' \<and> length result = width \<and>
    (\<forall>F v. model F g' v \<longrightarrow> model F g v) \<and>
    (\<forall>F v. model F g v \<longrightarrow> (\<exists>w. model F g' w \<and> (\<forall>b < node_base g. w b = v b))) \<and>
    (\<forall>F v k. computes op \<longrightarrow> model F g' v \<longrightarrow> k < width \<longrightarrow> v (result ! k) = lane_value F v n k)"
proof -
  obtain result g' where r: "add_node op width left right select name g = Inr (result, g')" "extends g g'" "length result = width"
    and "fits (node_base g') result"
    and v: "\<And>F v k. computes op \<Longrightarrow> model F g' v \<Longrightarrow> k < width \<Longrightarrow> v (result ! k) = lane_value F v n k"
    by (rule add_node_extends [OF assms]) (rule that)
  have "good g'" and old: "\<forall>F v. model F g' v \<longrightarrow> model F g v"
    and new: "\<forall>F v. model F g v \<longrightarrow> (\<exists>w. model F g' w \<and> (\<forall>b < node_base g. w b = v b))"
    using r(2) by (simp_all add: extends_def)
  moreover have "\<forall>F v k. computes op \<longrightarrow> model F g' v \<longrightarrow> k < width \<longrightarrow> v (result ! k) = lane_value F v n k"
    by (intro allI impI) (rule v)
  ultimately show ?thesis
    by (intro exI conjI) (rule r(1), assumption, rule r(3), assumption+)
qed

lemma wide_unsupported:
  assumes "exceeds left right width" and "op = ''div'' \<or> op = ''mod'' \<or> op = ''sdiv'' \<or> op = ''smod'' \<or> op = ''slt''"
  shows "binary op left right width g = Inl (Runtime_error (''wide arithmetic not supported: '' @ op))"
  using assms(2) by (elim disjE) (simp_all add: binary_def wide_def gthrow_def assms(1))

text \<open>C2: The twelve unsigned operations of \<open>binary\<close>, over one node, over 64-bit or 32-bit parts
  or as a wiring: the bits returned denote the operation on the numbers of the operands modulo
  the width, in every model of the extended graph; a division by 0 and its remainder are 0. This
  holds at any width, except that \<open>div\<close> and \<open>mod\<close> with an operand or a result of more than 64 bits
  are the error that the arithmetic is not supported.\<close>

theorem binary_correct:
  assumes "good g" and "fits (node_base g) left" and "fits (node_base g) right" and "op \<in> set unsigned_ops"
    and "length left \<le> 2 ^ 63" and "width \<le> 2 ^ 63" and "0 < width" and "0 < length left" and "0 < length right"
  shows "if (op = ''div'' \<or> op = ''mod'') \<and> (64 < length left \<or> 64 < length right \<or> 64 < width)
    then binary op left right width g = Inl (Runtime_error (''wide arithmetic not supported: '' @ op))
    else \<exists>result g'. binary op left right width g = Inr (result, g') \<and> extends g g' \<and> length result = width \<and>
      (\<forall>F v. model F g' v \<longrightarrow> bval v result = meaning op width (bval v left) (bval v right))"
proof (cases "(op = ''div'' \<or> op = ''mod'') \<and> exceeds left right width")
  case True
  have "binary op left right width g = Inl (Runtime_error (''wide arithmetic not supported: '' @ op))"
    by (rule wide_unsupported [OF conjunct2 [OF True]]) (use conjunct1 [OF True] in \<open>elim disjE; simp\<close>)
  then show ?thesis
    by (simp only: if_P [OF True [unfolded exceeds_def]])
next
  case False
  then have "builds g (binary op left right width) width (\<lambda>v. meaning op width (bval v left) (bval v right))"
    by (intro binary_builds [OF assms]) (simp only: simp_thms)
  then show ?thesis
    unfolding if_not_P [OF False [unfolded exceeds_def]] runs_def denotes_def by blast
qed

text \<open>C4: The signed operations. The arithmetic right shift, at any width. Comparison, quotient and
  remainder of operands of the same width, with operands and result of up to 64 bits, the smallest
  number divided by -1 and division by 0 included; with an operand or a result of more than
  64 bits they are the error that the arithmetic is not supported. Operands of up to 64 bits and
  different widths are left out: there folding and execution disagree.\<close>

theorem signed_correct:
  assumes "good g" and "fits (node_base g) left" and "fits (node_base g) right" and "0 < width" and "0 < length left"
    and "op = ''sar'' \<or> op \<in> {''slt'', ''sdiv'', ''smod''} \<and>
      (length right = length left \<or> 64 < length left \<or> 64 < length right \<or> 64 < width)"
  shows "if op \<noteq> ''sar'' \<and> (64 < length left \<or> 64 < length right \<or> 64 < width)
    then binary op left right width g = Inl (Runtime_error (''wide arithmetic not supported: '' @ op))
    else \<exists>result g'. binary op left right width g = Inr (result, g') \<and> extends g g' \<and> length result = width \<and>
      (\<forall>F v. model F g' v \<longrightarrow> bval v result = signed_op op (length left) width (bval v left) (bval v right))"
proof (cases "op = ''sar''")
  case True
  then have c: "\<not> (op \<noteq> ''sar'' \<and> (64 < length left \<or> 64 < length right \<or> 64 < width))"
    by blast
  show ?thesis
    using sar_builds [OF assms(1-5)] unfolding if_not_P [OF c] unfolding True runs_def denotes_def by blast
next
  case False
  then have op: "op = ''slt'' \<or> op = ''sdiv'' \<or> op = ''smod''"
    using assms(6) by auto
  show ?thesis
  proof (cases "exceeds left right width")
    case True
    then have "binary op left right width g = Inl (Runtime_error (''wide arithmetic not supported: '' @ op))"
      by (rule wide_unsupported) (use op in \<open>elim disjE; simp\<close>)
    then show ?thesis
      by (simp only: if_P [OF conjI [OF False True [unfolded exceeds_def]]])
  next
    case narrow: False
    have c: "\<not> (op \<noteq> ''sar'' \<and> (64 < length left \<or> 64 < length right \<or> 64 < width))"
      using narrow unfolding exceeds_def by blast
    have len: "length right = length left" "length left \<le> 64" "width \<le> 64"
      using assms(6) False narrow by (auto simp: exceeds_def)
    have "1 \<le> length left"
      using assms(5) by (simp only: One_nat_def Suc_le_eq)
    from signed_builds [OF assms(1-3) op refl len(1) this len(2) assms(4) len(3)] show ?thesis
      unfolding if_not_P [OF c] runs_def denotes_def by blast
  qed
qed

text \<open>C5: A selection is its first value when the condition is not zero and its second one otherwise.\<close>

theorem mux_correct:
  assumes "good g" and "fits (node_base g) condition" and "fits (node_base g) yes" and "fits (node_base g) no" and "length yes = length no"
  shows "\<exists>result g'. mux condition yes no g = Inr (result, g') \<and> extends g g' \<and> length result = length yes \<and>
    (\<forall>F v. model F g' v \<longrightarrow> bval v result = (if bval v condition \<noteq> 0 then bval v yes else bval v no))"
  using mux_builds [OF assms] unfolding runs_def denotes_def by blast

section \<open>Witnesses\<close>

lemma example_good: "good example_graph"
proof -
  have shape: "shaped example_graph"
    by code_simp
  have look: "fmlookup (g_aliases example_graph) a = Some b \<Longrightarrow> a = 258 \<and> b = 322" for a b
    by (simp add: example_graph_def fmlookup_of_list split: if_splits)
  have base: "node_base example_graph = 450"
    by (simp add: node_base_def example_graph_def)
  have "bounded example_graph"
    unfolding bounded_def base
  proof (intro conjI allI impI)
    show "fmlookup (g_aliases example_graph) a = Some b \<Longrightarrow> a < 450" "fmlookup (g_aliases example_graph) a = Some b \<Longrightarrow> b < 450" for a b
      using look [of a b] by simp_all
  qed (simp add: example_graph_def example_node_def operand_bits_def)
  moreover have "ranked (\<lambda>b. if b = 258 then 1 else 0) (g_aliases example_graph)"
    using look by (fastforce simp: ranked_def)
  ultimately show ?thesis
    using shape by (auto simp: good_def)
qed

lemma example_base: "node_base example_graph = 450"
  by (simp add: node_base_def example_graph_def)

lemma add_is_definitional_witness:
  "\<exists>result g'. add_node ''or'' 2 [66, 0] [130, 66] [] [] example_graph = Inr (result, g') \<and> length result = 2 \<and>
    (\<forall>v. model (\<lambda>_ _ _. False) g' v \<longrightarrow> v (result ! 0) = (v 66 \<or> v 130))"
proof -
  define n where "n = \<lparr>n_op = ''or'', n_width = 2, n_left = [66, 0], n_right = [130, 66], n_select = [], n_name = [], n_scope = g_scope example_graph\<rparr>"
  have ok: "node_ok n"
    by (simp add: n_def node_ok_def)
  have t: "transparent ''or''" "computes ''or''"
    by code_simp+
  have "addable n"
    using ok t by (simp add: addable_def n_def)
  moreover have "fits (node_base example_graph) (operand_bits n)"
    by (simp add: example_base n_def operand_bits_def)
  ultimately have "\<exists>result g'. add_node ''or'' 2 [66, 0] [130, 66] [] [] example_graph = Inr (result, g') \<and> good g' \<and> length result = 2 \<and>
    (\<forall>F v. model F g' v \<longrightarrow> model F example_graph v) \<and>
    (\<forall>F v. model F example_graph v \<longrightarrow> (\<exists>w. model F g' w \<and> (\<forall>b < node_base example_graph. w b = v b))) \<and>
    (\<forall>F v k. computes ''or'' \<longrightarrow> model F g' v \<longrightarrow> k < 2 \<longrightarrow> v (result ! k) = lane_value F v n k)"
    by (intro add_is_definitional [OF example_good _ _ n_def])
  then obtain result g' where r: "add_node ''or'' 2 [66, 0] [130, 66] [] [] example_graph = Inr (result, g')" "length result = 2"
    and v: "\<forall>F v k. computes ''or'' \<longrightarrow> model F g' v \<longrightarrow> k < 2 \<longrightarrow> v (result ! k) = lane_value F v n k"
    by (elim exE conjE) (rule that)
  have "lane_value F v n 0 \<longleftrightarrow> v 66 \<or> v 130" for F v
    using node_bit_lane [OF ok, of 0 v] t(1) by (simp add: lane_value_def n_def)
  then have "\<forall>v. model (\<lambda>_ _ _. False) g' v \<longrightarrow> v (result ! 0) = (v 66 \<or> v 130)"
    using v [rule_format, OF t(2), of "\<lambda>_ _ _. False" _ 0] by simp
  then show ?thesis
    using r by blast
qed

lemma example_fits: "fits (node_base example_graph) [66, 130]" "fits (node_base example_graph) [194, 258]"
  "fits (node_base example_graph) [66]" "fits (node_base example_graph) [130, 0]" "fits (node_base example_graph) [1, 194]"
  by (simp_all add: example_base)

lemma binary_correct_witness:
  "(\<exists>result g'. binary ''add'' [66, 130] [194, 258] 3 example_graph = Inr (result, g') \<and> extends example_graph g' \<and> length result = 3 \<and>
    (\<forall>F v. model F g' v \<longrightarrow> bval v result = (bval v [66, 130] + bval v [194, 258]) mod 2 ^ 3)) \<and>
   (\<exists>result g'. binary ''div'' [66, 130] [194, 258] 2 example_graph = Inr (result, g') \<and> extends example_graph g' \<and> length result = 2 \<and>
    (\<forall>F v. model F g' v \<longrightarrow> bval v result =
      (if bval v [194, 258] = 0 then 0 else bval v [66, 130] div bval v [194, 258] mod 2 ^ 2))) \<and>
   binary ''mod'' [66, 130] [194, 258] 65 example_graph = Inl (Runtime_error ''wide arithmetic not supported: mod'')"
proof -
  have op: "''add'' \<in> set unsigned_ops" "''div'' \<in> set unsigned_ops" "''mod'' \<in> set unsigned_ops"
    by code_simp+
  note correct = binary_correct [OF example_good example_fits(1,2)]
  have "\<exists>result g'. binary ''add'' [66, 130] [194, 258] 3 example_graph = Inr (result, g') \<and> extends example_graph g' \<and> length result = 3 \<and>
    (\<forall>F v. model F g' v \<longrightarrow> bval v result = meaning ''add'' 3 (bval v [66, 130]) (bval v [194, 258]))"
    using correct [OF op(1), of 3] by simp
  moreover have "\<exists>result g'. binary ''div'' [66, 130] [194, 258] 2 example_graph = Inr (result, g') \<and> extends example_graph g' \<and> length result = 2 \<and>
    (\<forall>F v. model F g' v \<longrightarrow> bval v result = meaning ''div'' 2 (bval v [66, 130]) (bval v [194, 258]))"
    using correct [OF op(2), of 2] by simp
  moreover have "binary ''mod'' [66, 130] [194, 258] 65 example_graph = Inl (Runtime_error ''wide arithmetic not supported: mod'')"
    using correct [OF op(3), of 65] by simp
  moreover have "meaning ''add'' 3 a b = (a + b) mod 2 ^ 3" "meaning ''div'' 2 a b = (if b = 0 then 0 else a div b mod 2 ^ 2)" for a b
    by (simp_all add: meaning_def nat_op_def)
  ultimately show ?thesis
    by (simp only:)
qed

lemma signed_correct_witness:
  "(\<exists>result g'. binary ''slt'' [66, 130] [194, 258] 1 example_graph = Inr (result, g') \<and> extends example_graph g' \<and> length result = 1 \<and>
    (\<forall>F v. model F g' v \<longrightarrow> bval v result = signed_op ''slt'' (length [66, 130 :: nat]) 1 (bval v [66, 130]) (bval v [194, 258]))) \<and>
   binary ''smod'' [66, 130] [194, 258] 65 example_graph = Inl (Runtime_error ''wide arithmetic not supported: smod'')"
  using signed_correct [OF example_good example_fits(1,2), of 1 "''slt''"]
    signed_correct [OF example_good example_fits(1,2), of 65 "''smod''"]
  by simp

lemma mux_correct_witness:
  "\<exists>result g'. mux [66] [130, 0] [1, 194] example_graph = Inr (result, g') \<and> extends example_graph g' \<and> length result = length [130, 0 :: nat] \<and>
    (\<forall>F v. model F g' v \<longrightarrow> bval v result = (if bval v [66] \<noteq> 0 then bval v [130, 0] else bval v [1, 194]))"
  by (rule mux_correct [OF example_good example_fits(3-5)]) simp

end
