(* ===== verification/TextStream.thy ===== *)
theory TextStream
  imports GraphOptimize
begin

text \<open>
  The part of the standard streams that the graph's records are written and read with: decimal
  numbers, words and \<open>std::quoted\<close> strings, read from the rest of a text and its
  end-of-file bit with exceptions on failure. A reader consumes a text and returns its value
  or the exception; \<open>reads\<close> relates a reader to the text it understands, and the locale
  \<open>record_format\<close> carries such a pair to sequences.
\<close>

section \<open>Streams\<close>

record stream =
  chars :: string
  eof :: bool

datatype load_error = Stream_failure | Graph_error string

type_synonym 'a reader = "stream \<Rightarrow> load_error + 'a \<times> stream"

definition yields :: "'a \<Rightarrow> 'a reader" where
  "yields x s = Inr (x, s)"

definition rejects :: "load_error \<Rightarrow> 'a reader" where
  "rejects e s = Inl e"

definition after_reading :: "'a reader \<Rightarrow> ('a \<Rightarrow> 'b reader) \<Rightarrow> 'b reader" where
  "after_reading p f s = (case p s of Inl e \<Rightarrow> Inl e | Inr (x, s') \<Rightarrow> f x s')"

definition isspace :: "char \<Rightarrow> bool" where
  "isspace c \<longleftrightarrow> (of_char c :: nat) = 32 \<or> (9 \<le> (of_char c :: nat) \<and> (of_char c :: nat) \<le> 13)"

definition isdigit :: "char \<Rightarrow> bool" where
  "isdigit c \<longleftrightarrow> 48 \<le> (of_char c :: nat) \<and> (of_char c :: nat) < 58"

text \<open>
  Before a formatted extraction white space is skipped; the end of the text is a failure. The
  manipulator \<open>std::ws\<close> notes the end instead.
\<close>

definition sentry :: "unit reader" where
  "sentry s =
     (let t = dropWhile isspace (chars s) in
      if eof s \<or> t = [] then Inl Stream_failure else Inr ((), s\<lparr>chars := t\<rparr>))"

definition skip_space :: "unit reader" where
  "skip_space s =
     (if eof s then Inl Stream_failure
      else let t = dropWhile isspace (chars s) in Inr ((), s\<lparr>chars := t, eof := (t = [])\<rparr>))"

text \<open>The characters up to the first that is not wanted; running into the end sets the bit.\<close>

definition take_chars :: "(char \<Rightarrow> bool) \<Rightarrow> string reader" where
  "take_chars wanted s =
     (let t = dropWhile wanted (chars s) in Inr (takeWhile wanted (chars s), s\<lparr>chars := t, eof := (t = [])\<rparr>))"

definition digits_value :: "string \<Rightarrow> nat" where
  "digits_value ds = foldl (\<lambda>n c. 10 * n + (of_char c - 48)) 0 ds"

text \<open>An optional sign and at least one digit, as a magnitude.\<close>

definition read_sign :: "bool reader" where
  "read_sign s =
     (case chars s of
        c # t \<Rightarrow> if c = CHR ''-'' then Inr (True, s\<lparr>chars := t\<rparr>)
                 else if c = CHR ''+'' then Inr (False, s\<lparr>chars := t\<rparr>) else Inr (False, s)
      | [] \<Rightarrow> Inr (False, s))"

definition read_magnitude :: "(bool \<times> nat) reader" where
  "read_magnitude =
     after_reading sentry (\<lambda>_. after_reading read_sign (\<lambda>negative. after_reading (take_chars isdigit) (\<lambda>ds.
       if ds = [] then rejects Stream_failure else yields (negative, digits_value ds))))"

text \<open>A number of an unsigned type of \<open>w\<close> bits; a negative one wraps around.\<close>

definition read_unsigned :: "nat \<Rightarrow> nat reader" where
  "read_unsigned w =
     after_reading read_magnitude (\<lambda>(negative, n).
       if 2 ^ w \<le> n then rejects Stream_failure
       else yields (if negative then (2 ^ w - n) mod 2 ^ w else n))"

definition read_signed :: "nat \<Rightarrow> int reader" where
  "read_signed w =
     after_reading read_magnitude (\<lambda>(negative, n).
       if (if negative then 2 ^ (w - 1) < n else 2 ^ (w - 1) \<le> n) then rejects Stream_failure
       else yields (if negative then - int n else int n))"

definition read_bool :: "bool reader" where
  "read_bool =
     after_reading (read_signed 64) (\<lambda>n. if n = 0 then yields False else if n = 1 then yields True else rejects Stream_failure)"

definition read_word :: "string reader" where
  "read_word = after_reading sentry (\<lambda>_. take_chars (\<lambda>c. \<not> isspace c))"

text \<open>\<open>std::quoted\<close>: text between quotes with escaped characters, or a plain word.\<close>

fun quoted_rest :: "string \<Rightarrow> (string \<times> string) option" where
  "quoted_rest [] = None"
| "quoted_rest (c # t) =
     (if c = CHR 0x5C
      then case t of [] \<Rightarrow> None | d # t' \<Rightarrow> map_option (\<lambda>(x, r). (d # x, r)) (quoted_rest t')
      else if c = CHR 0x22 then Some ([], t)
      else map_option (\<lambda>(x, r). (c # x, r)) (quoted_rest t))"

definition read_quoted :: "string reader" where
  "read_quoted =
     after_reading sentry (\<lambda>_ s.
       case chars s of
         [] \<Rightarrow> Inl Stream_failure
       | c # t \<Rightarrow>
           if c = CHR 0x22
           then case quoted_rest t of None \<Rightarrow> Inl Stream_failure | Some (x, r) \<Rightarrow> Inr (x, s\<lparr>chars := r\<rparr>)
           else take_chars (\<lambda>c. \<not> isspace c) s)"

primrec read_times :: "nat \<Rightarrow> 'a reader \<Rightarrow> 'a list reader" where
  "read_times 0 p = yields []"
| "read_times (Suc n) p = after_reading p (\<lambda>x. after_reading (read_times n p) (\<lambda>xs. yields (x # xs)))"

primrec read_each :: "('a \<Rightarrow> 'b reader) \<Rightarrow> 'a list \<Rightarrow> 'b list reader" where
  "read_each f [] = yields []"
| "read_each f (x # xs) = after_reading (f x) (\<lambda>y. after_reading (read_each f xs) (\<lambda>ys. yields (y # ys)))"

section \<open>Writing\<close>

definition int_string :: "int \<Rightarrow> string" where
  "int_string i = (if i < 0 then CHR ''-'' # nat_string (nat (- i)) else nat_string (nat i))"

definition bool_string :: "bool \<Rightarrow> string" where
  "bool_string b = nat_string (if b then 1 else 0)"

definition quote_char :: "char \<Rightarrow> string" where
  "quote_char c = (if c = CHR 0x22 \<or> c = CHR 0x5C then [CHR 0x5C, c] else [c])"

definition quoted :: "string \<Rightarrow> string" where
  "quoted s = CHR 0x22 # concat (map quote_char s) @ [CHR 0x22]"

abbreviation newline :: string where
  "newline \<equiv> [CHR 0x0A]"

section \<open>Texts that a reader understands\<close>

text \<open>
  Whatever white space comes before the text, the reader returns the value and leaves some
  white space and what comes after the text.
\<close>

definition reads :: "'a reader \<Rightarrow> 'a \<Rightarrow> string \<Rightarrow> bool" where
  "reads p x text \<longleftrightarrow>
     (\<forall>lead rest. list_all isspace lead \<longrightarrow>
        (\<exists>trail. list_all isspace trail \<and>
           p \<lparr>chars = lead @ text @ rest, eof = False\<rparr> = Inr (x, \<lparr>chars = trail @ rest, eof = False\<rparr>)))"

lemma reads_yields: "reads (yields x) x []"
  by (auto simp: reads_def yields_def)

lemma reads_after:
  assumes "reads p x t1" and "reads (f x) y t2"
  shows "reads (after_reading p f) y (t1 @ t2)"
  unfolding reads_def
proof (intro allI impI)
  fix lead rest
  assume "list_all isspace lead"
  then obtain t where "list_all isspace t"
    and "p \<lparr>chars = lead @ t1 @ t2 @ rest, eof = False\<rparr> = Inr (x, \<lparr>chars = t @ t2 @ rest, eof = False\<rparr>)"
    using assms(1) unfolding reads_def by blast
  with assms(2) show "\<exists>trail. list_all isspace trail \<and>
      after_reading p f \<lparr>chars = lead @ (t1 @ t2) @ rest, eof = False\<rparr> = Inr (y, \<lparr>chars = trail @ rest, eof = False\<rparr>)"
    by (simp add: reads_def after_reading_def)
qed

lemma reads_last: "reads p x t \<Longrightarrow> f x = yields y \<Longrightarrow> reads (after_reading p f) y t"
  using reads_after [of p x t f y "[]"] reads_yields by fastforce

lemma reads_space: "reads p x t \<Longrightarrow> list_all isspace u \<Longrightarrow> reads p x (u @ t)"
  unfolding reads_def by (metis append.assoc list_all_append)

section \<open>Numbers\<close>

lemma digit_not_space: "isdigit c \<Longrightarrow> \<not> isspace c"
  by (auto simp: isdigit_def isspace_def)

lemma sign_plain: "isdigit c \<Longrightarrow> c \<noteq> CHR ''-'' \<and> c \<noteq> CHR ''+''"
  by (auto simp: isdigit_def)

lemma nat_string_isdigit: "list_all isdigit (nat_string n)"
  using nat_string_digits by (auto simp: list_all_iff isdigit_def)

lemma nat_string_hd: "isdigit (hd (nat_string n))"
  using nat_string_isdigit [of n] nat_string_ne [of n] by (cases "nat_string n") simp_all

lemma digits_value_snoc: "digits_value (ds @ [c]) = 10 * digits_value ds + (of_char c - 48)"
  by (simp add: digits_value_def)

lemma digits_value_nat_string [simp]: "digits_value (nat_string n) = n"
proof (induction n rule: nat_string.induct)
  case (1 n)
  show ?case
  proof (cases "n < 10")
    case True
    then show ?thesis
      using of_char_digit [of n] by (simp add: nat_string.simps [of n] digits_value_def)
  next
    case False
    have "digits_value (nat_string n) = 10 * (n div 10) + n mod 10"
      using 1 False of_char_digit [of "n mod 10"] by (simp add: nat_string.simps [of n] digits_value_snoc)
    then show ?thesis
      by simp
  qed
qed

lemma span_append:
  assumes "list_all P xs" and "ys = [] \<or> \<not> P (hd ys)"
  shows "takeWhile P (xs @ ys) = xs" and "dropWhile P (xs @ ys) = ys"
  using assms by (induction xs; cases ys; simp)+

lemma sentry_text:
  assumes "list_all isspace lead" and "t \<noteq> []" and "\<not> isspace (hd t)"
  shows "sentry \<lparr>chars = lead @ t, eof = False\<rparr> = Inr ((), \<lparr>chars = t, eof = False\<rparr>)"
  using assms span_append(2) [of isspace lead t] by (simp add: sentry_def)

lemma read_magnitude_text:
  assumes "list_all isspace lead" and "isspace sp" and "sign = (if negative then [CHR ''-''] else [])"
  shows "read_magnitude \<lparr>chars = lead @ sign @ nat_string n @ sp # rest, eof = False\<rparr> =
    Inr ((negative, n), \<lparr>chars = sp # rest, eof = False\<rparr>)"
proof -
  have "\<not> isspace (CHR ''-'')"
    by (simp add: isspace_def)
  then have s: "sentry \<lparr>chars = lead @ sign @ nat_string n @ sp # rest, eof = False\<rparr> =
      Inr ((), \<lparr>chars = sign @ nat_string n @ sp # rest, eof = False\<rparr>)"
    using assms(1,3) digit_not_space [OF nat_string_hd [of n]] nat_string_ne [of n]
    by (intro sentry_text) (simp_all add: hd_append)
  obtain c t where c: "nat_string n = c # t"
    using nat_string_ne by (cases "nat_string n") blast
  then have "c \<noteq> CHR ''-'' \<and> c \<noteq> CHR ''+''"
    using nat_string_hd [of n] sign_plain by simp
  then have r: "read_sign \<lparr>chars = sign @ nat_string n @ sp # rest, eof = False\<rparr> =
      Inr (negative, \<lparr>chars = nat_string n @ sp # rest, eof = False\<rparr>)"
    using assms(3) c by (cases negative) (simp_all add: read_sign_def)
  have "\<not> isdigit sp"
    using assms(2) digit_not_space by blast
  then have "take_chars isdigit \<lparr>chars = nat_string n @ sp # rest, eof = False\<rparr> =
      Inr (nat_string n, \<lparr>chars = sp # rest, eof = False\<rparr>)"
    using span_append [OF nat_string_isdigit [of n], of "sp # rest"] by (simp add: take_chars_def)
  with s r show ?thesis
    using nat_string_ne [of n] by (simp add: read_magnitude_def after_reading_def yields_def)
qed

lemma reads_magnitude:
  assumes "isspace sp"
  shows "reads read_magnitude (False, n) (nat_string n @ [sp])" "reads read_magnitude (True, n) (CHR ''-'' # nat_string n @ [sp])"
  unfolding reads_def
  using read_magnitude_text [OF _ assms, of _ "[]" False n] read_magnitude_text [OF _ assms, of _ "[CHR ''-'']" True n] assms
  by (auto intro!: exI [of _ "[sp]"])

lemma reads_unsigned: "n < 2 ^ w \<Longrightarrow> isspace sp \<Longrightarrow> reads (read_unsigned w) n (nat_string n @ [sp])"
  unfolding read_unsigned_def by (rule reads_last [OF reads_magnitude(1)]) simp_all

lemma reads_signed:
  assumes "- (2 ^ (w - 1)) \<le> i" and "i < 2 ^ (w - 1)" and "isspace sp"
  shows "reads (read_signed w) i (int_string i @ [sp])"
proof (cases "i < 0")
  case True
  then have "\<not> 2 ^ (w - 1) < nat (- i)"
    using assms(1) by (simp add: not_less nat_le_iff)
  then have "reads (read_signed w) i (CHR ''-'' # nat_string (nat (- i)) @ [sp])"
    unfolding read_signed_def using True by (intro reads_last [OF reads_magnitude(2) [OF assms(3)]]) simp
  then show ?thesis
    using True by (simp add: int_string_def)
next
  case False
  then have "\<not> 2 ^ (w - 1) \<le> nat i"
    using assms(2) by (simp add: not_le nat_less_iff)
  then have "reads (read_signed w) i (nat_string (nat i) @ [sp])"
    unfolding read_signed_def using False by (intro reads_last [OF reads_magnitude(1) [OF assms(3)]]) simp
  then show ?thesis
    using False by (simp add: int_string_def)
qed

lemma reads_bool: "isspace sp \<Longrightarrow> reads read_bool b (bool_string b @ [sp])"
proof -
  assume sp: "isspace sp"
  have e: "bool_string b = int_string (if b then 1 else 0)"
    by (simp add: bool_string_def int_string_def)
  have "reads (read_signed 64) (if b then 1 else 0) (bool_string b @ [sp])"
    unfolding e using sp by (intro reads_signed) (cases b; simp)+
  then show ?thesis
    unfolding read_bool_def by (rule reads_last) (cases b; simp)
qed

section \<open>Words and quoted strings\<close>

lemma reads_word:
  assumes "w \<noteq> []" and "list_all (\<lambda>c. \<not> isspace c) w" and "isspace sp"
  shows "reads read_word w (w @ [sp])"
proof -
  have "\<not> isspace (hd w)"
    using assms(1,2) by (cases w) simp_all
  then have "sentry \<lparr>chars = lead @ w @ sp # rest, eof = False\<rparr> = Inr ((), \<lparr>chars = w @ sp # rest, eof = False\<rparr>)"
    if "list_all isspace lead" for lead rest
    using that assms(1) by (intro sentry_text) simp_all
  moreover have "take_chars (\<lambda>c. \<not> isspace c) \<lparr>chars = w @ sp # rest, eof = False\<rparr> = Inr (w, \<lparr>chars = sp # rest, eof = False\<rparr>)" for rest
    using span_append [OF assms(2), of "sp # rest"] assms(3) by (simp add: take_chars_def)
  ultimately show ?thesis
    using assms(3) by (auto simp: reads_def read_word_def after_reading_def intro!: exI [of _ "[sp]"])
qed

lemma quoted_rest_quoted: "quoted_rest (concat (map quote_char s) @ CHR 0x22 # rest) = Some (s, rest)"
  by (induction s) (simp_all add: quote_char_def)

lemma reads_quoted: "reads read_quoted s (quoted s)"
proof -
  have "\<not> isspace (CHR 0x22)"
    by (simp add: isspace_def)
  then have "sentry \<lparr>chars = lead @ quoted s @ rest, eof = False\<rparr> = Inr ((), \<lparr>chars = quoted s @ rest, eof = False\<rparr>)"
    if "list_all isspace lead" for lead rest
    using that by (intro sentry_text) (simp_all add: quoted_def)
  then show ?thesis
    using quoted_rest_quoted [of s] by (auto simp: reads_def read_quoted_def after_reading_def quoted_def intro!: exI [of _ "[]"])
qed

section \<open>Sequences of records\<close>

lemma reads_times: "(\<And>x. x \<in> set xs \<Longrightarrow> reads p x (written x)) \<Longrightarrow> reads (read_times (length xs) p) xs (concat (map written xs))"
proof (induction xs)
  case (Cons x xs)
  have "reads (read_times (length (x # xs)) p) (x # xs) (written x @ concat (map written xs))"
    unfolding list.size read_times.simps One_nat_def add_Suc_right add_0_right
    by (rule reads_after [OF Cons.prems], simp) (rule reads_last [OF Cons.IH], use Cons.prems in auto)
  then show ?case
    by simp
qed (simp add: reads_yields)

lemma reads_each:
  assumes "length xs = length ys" and "\<And>i. i < length xs \<Longrightarrow> reads (f (xs ! i)) (ys ! i) (written (ys ! i))"
  shows "reads (read_each f xs) ys (concat (map written ys))"
  using assms
proof (induction xs ys rule: list_induct2)
  case (Cons x xs y ys)
  have h: "reads (f x) y (written y)"
    using Cons.prems [of 0] by simp
  have t: "reads (read_each f xs) ys (concat (map written ys))"
    using Cons.prems [of "Suc _"] by (intro Cons.IH) simp
  have "reads (read_each f (x # xs)) (y # ys) (written y @ concat (map written ys))"
    unfolding read_each.simps by (rule reads_after [OF h]) (rule reads_last [OF t], simp)
  then show ?case
    by simp
qed (simp add: reads_yields)

text \<open>A record type with a reader and its written, for the records that \<open>ok\<close> admits.\<close>

definition counted :: "('a \<Rightarrow> string) \<Rightarrow> 'a list \<Rightarrow> string" where
  "counted written xs = nat_string (length xs) @ newline @ concat (map written xs)"

definition read_counted :: "'a reader \<Rightarrow> 'a list reader" where
  "read_counted p = after_reading (read_unsigned 64) (\<lambda>n. read_times n p)"

text \<open>\<open>shown x\<close> is what the record of \<open>x\<close> says of it; other sections may say the rest.\<close>

locale record_format =
  fixes reader :: "'a reader" and written :: "'a \<Rightarrow> string" and shown :: "'a \<Rightarrow> 'a" and ok :: "'a \<Rightarrow> bool"
  assumes reads_record: "ok x \<Longrightarrow> reads reader (shown x) (written x)"
begin

lemma reads_records:
  assumes "list_all ok xs"
  shows "reads (read_times (length xs) reader) (map shown xs) (concat (map written xs))"
  using assms
proof (induction xs)
  case (Cons x xs)
  then have "reads (read_times (length (x # xs)) reader) (map shown (x # xs)) (written x @ concat (map written xs))"
    unfolding list.size read_times.simps One_nat_def add_Suc_right add_0_right
    by (intro reads_after [OF reads_record]) (simp, rule reads_last [OF Cons.IH], simp_all)
  then show ?case
    by simp
qed (simp add: reads_yields)

lemma reads_counted:
  assumes "list_all ok xs" and "length xs < 2 ^ 64"
  shows "reads (read_counted reader) (map shown xs) (counted written xs)"
proof -
  have "isspace (CHR 0x0A)"
    by (simp add: isspace_def)
  with assms have "reads (read_counted reader) (map shown xs) ((nat_string (length xs) @ newline) @ concat (map written xs))"
    unfolding read_counted_def by (intro reads_after [OF reads_unsigned] reads_records)
  then show ?thesis
    by (simp add: counted_def)
qed

lemma counted_then:
  assumes "list_all ok xs" and "length xs < 2 ^ 64" and "reads (f (map shown xs)) y t"
  shows "reads (after_reading (read_counted reader) f) y (counted written xs @ t)"
  using reads_counted [OF assms(1,2)] assms(3) by (rule reads_after)

end

text \<open>One field after another.\<close>

lemma isspace_simps [simp]: "isspace (CHR '' '')" "isspace (CHR 0x0A)" "\<not> isspace (CHR 0x22)"
  by (simp_all add: isspace_def)

lemma unsigned_then:
  "n < 2 ^ w \<Longrightarrow> isspace sp \<Longrightarrow> reads (f n) y t \<Longrightarrow> reads (after_reading (read_unsigned w) f) y (nat_string n @ [sp] @ t)"
  using reads_after [OF reads_unsigned] by fastforce

lemma signed_then:
  assumes "- (2 ^ (w - 1)) \<le> i" and "i < 2 ^ (w - 1)" and "isspace sp" and "reads (f i) y t"
  shows "reads (after_reading (read_signed w) f) y (int_string i @ [sp] @ t)"
  using reads_after [OF reads_signed [OF assms(1-3)], of f y t] assms(4) by simp

lemma bool_then: "isspace sp \<Longrightarrow> reads (f b) y t \<Longrightarrow> reads (after_reading read_bool f) y (bool_string b @ [sp] @ t)"
  using reads_after [OF reads_bool] by fastforce

lemma bool_last: "isspace sp \<Longrightarrow> reads (f b) y [] \<Longrightarrow> reads (after_reading read_bool f) y (bool_string b @ [sp])"
  using bool_then [of sp f b y "[]"] by simp

lemma unsigned_last:
  "n < 2 ^ w \<Longrightarrow> isspace sp \<Longrightarrow> reads (f n) y [] \<Longrightarrow> reads (after_reading (read_unsigned w) f) y (nat_string n @ [sp])"
  using unsigned_then [of n w sp f y "[]"] by simp

lemma quoted_then: "reads (f s) y t \<Longrightarrow> reads (after_reading read_quoted f) y (quoted s @ t)"
  using reads_quoted by (rule reads_after)

lemma space_then: "isspace sp \<Longrightarrow> reads p y t \<Longrightarrow> reads p y ([sp] @ t)"
  using reads_space [of p y t "[sp]"] by simp

lemma reads_end: "isspace sp \<Longrightarrow> x = y \<Longrightarrow> reads (yields x) y [sp]"
  using space_then [of sp "yields x" x "[]"] reads_yields [of x] by simp

lemma reads_done: "x = y \<Longrightarrow> reads (yields x) y []"
  by (simp add: reads_yields)

lemma reads_trailing: "reads p x t \<Longrightarrow> list_all isspace u \<Longrightarrow> reads p x (t @ u)"
  unfolding reads_def by (metis append.assoc list_all_append)

lemmas reads_fields = unsigned_then signed_then bool_then bool_last unsigned_last quoted_then space_then reads_end reads_done

end
