(* ===== verification/GraphValidate.thy ===== *)
theory GraphValidate
  imports TextStream "HOL-Library.List_Lexorder" "HOL-Library.Char_ord"
begin

text \<open>
  The graph with its linked records (scope attributes, streaming regions and their
  replacements) and \<open>validateClocks\<close>, the checks that every loaded graph has passed. A check is
  the exception it throws or nothing; the messages are those of the code. The key order of
  \<open>std::map\<close> is the lexicographic order of the characters' codes.
\<close>

record scope_attribute =
  attr_scope :: string
  attr_name :: string
  attr_value :: string

record pipeline =
  pipe_scope :: string
  pipe_logic :: string
  pipe_pins :: "(string, gvalue) fmap"
  pipe_registers :: "gvalue list"
  pipe_stages :: nat
  pipe_latency :: nat
  pipe_generation :: nat

record replacement =
  rep_scope :: string
  rep_module :: string
  rep_verilog :: string
  rep_latency :: nat
  rep_pins :: "(string, gvalue) fmap"

record design = graph +
  d_attributes :: "scope_attribute list"
  d_pipelines :: "pipeline list"
  d_replacements :: "replacement list"

text \<open>The entries of a map in the order of iteration.\<close>

definition entries :: "('k :: linorder, 'v) fmap \<Rightarrow> ('k \<times> 'v) list" where
  "entries m = map (\<lambda>k. (k, the (fmlookup m k))) (sorted_list_of_fset (fmdom m))"

section \<open>Checks\<close>

type_synonym check = "load_error + unit"

definition ensure :: "bool \<Rightarrow> string \<Rightarrow> check" where
  "ensure ok message = (if ok then Inr () else Inl (Graph_error message))"

definition both :: "check \<Rightarrow> check \<Rightarrow> check" where
  "both a b = (case a of Inl e \<Rightarrow> Inl e | Inr u \<Rightarrow> b)"

primrec check_each :: "('a \<Rightarrow> check) \<Rightarrow> 'a list \<Rightarrow> check" where
  "check_each f [] = Inr ()"
| "check_each f (x # xs) = both (f x) (check_each f xs)"

lemma ensure_ok [simp]: "ensure ok message = Inr () \<longleftrightarrow> ok"
  by (simp add: ensure_def)

lemma both_ok [simp]: "both a b = Inr () \<longleftrightarrow> a = Inr () \<and> b = Inr ()"
  by (cases a) (simp_all add: both_def)

lemma check_each_ok [simp]: "check_each f xs = Inr () \<longleftrightarrow> (\<forall>x \<in> set xs. f x = Inr ())"
  by (induction xs) simp_all

definition check_reset :: "gport list \<Rightarrow> gstate \<Rightarrow> check" where
  "check_reset ports st =
     (if state_reset st \<noteq> []
      then both
        (ensure (\<not> (length (state_reset st) \<noteq> 1 \<or> length (state_resetValue st) \<noteq> length (state_bits st) \<or>
             list_ex (\<lambda>bit. 1 < bit) (state_resetValue st)))
           ''asynchronous reset requires a constant full-width value'')
        (ensure (list_ex (\<lambda>port. port_input port \<and> port_bits port = state_reset st) ports)
           ''asynchronous reset must be a scalar input port'')
      else Inr ())"

definition check_memory_clock :: "contract \<Rightarrow> gclock list \<Rightarrow> int \<Rightarrow> bool \<Rightarrow> check" where
  "check_memory_clock contract clocks clock falling =
     ensure (\<not> (if contract = NamedEdges then clock < 0 \<or> length clocks \<le> nat clock else clock \<noteq> -1 \<or> falling))
       ''invalid memory clock domain''"

definition check_memory :: "gmemory \<Rightarrow> check" where
  "check_memory m =
     both (ensure (\<not> (memory_width m = 0 \<or> 1048576 < memory_width m \<or> memory_depth m = 0)) ''invalid graph memory dimensions'')
       (if memory_contents m \<noteq> []
        then let words = (memory_width m + 63) div 64; contents = memory_contents m in
          both (ensure (\<not> (length contents mod words \<noteq> 0 \<or> length contents div words \<noteq> memory_depth m))
                 ''invalid graph ROM contents'')
            (check_each (\<lambda>i. ensure (contents ! i AND NOT (graph_mask ((memory_width m - 1) mod 64 + 1)) = 0)
                 ''nonzero graph ROM padding'')
              (filter (\<lambda>i. i mod words = words - 1) [0..<length contents]))
        else Inr ())"

definition check_access :: "contract \<Rightarrow> gclock list \<Rightarrow> gmemory list \<Rightarrow> gaccess \<Rightarrow> check" where
  "check_access contract clocks memories a =
     both (ensure (\<not> (length memories \<le> access_memory a \<or> access_address a = [] \<or> 64 < length (access_address a) \<or>
            length (access_enabled a) \<noteq> 1)) ''invalid graph memory access'')
       (if access_transaction a then check_memory_clock contract clocks (access_clock a) (access_falling a)
        else ensure (\<not> (access_clock a \<noteq> -1 \<or> access_falling a)) ''combinational memory access has a clock'')"

definition check_write :: "contract \<Rightarrow> gclock list \<Rightarrow> gmemory list \<Rightarrow> gwrite \<Rightarrow> check" where
  "check_write contract clocks memories w =
     both (ensure (\<not> (length memories \<le> write_memory w \<or> length (write_data w) \<noteq> memory_width (memories ! write_memory w) \<or>
            write_address w = [] \<or> 64 < length (write_address w) \<or> length (write_enabled w) \<noteq> 1)) ''invalid graph memory write'')
       (both (ensure (memory_contents (memories ! write_memory w) = []) ''write to graph ROM'')
         (check_memory_clock contract clocks (write_clock w) (write_falling w)))"

text \<open>The writers seen so far are a map from memories to clock edges.\<close>

primrec check_writes :: "contract \<Rightarrow> gclock list \<Rightarrow> gmemory list \<Rightarrow> gwrite list \<Rightarrow> (nat \<rightharpoonup> int \<times> bool) \<Rightarrow> check" where
  "check_writes contract clocks memories [] writers = Inr ()"
| "check_writes contract clocks memories (w # ws) writers =
     both (check_write contract clocks memories w)
       (case writers (write_memory w) of
          None \<Rightarrow> check_writes contract clocks memories ws (writers(write_memory w \<mapsto> (write_clock w, write_falling w)))
        | Some domain \<Rightarrow>
            both (ensure (domain = (write_clock w, write_falling w)) ''multiple clock/edge writers for memory'')
              (check_writes contract clocks memories ws writers))"

definition isalpha :: "char \<Rightarrow> bool" where
  "isalpha c \<longleftrightarrow> (65 \<le> (of_char c :: nat) \<and> (of_char c :: nat) \<le> 90) \<or> (97 \<le> (of_char c :: nat) \<and> (of_char c :: nat) \<le> 122)"

definition reserved_name :: "string \<Rightarrow> bool" where
  "reserved_name name \<longleftrightarrow>
     name = ''eval'' \<or> name = ''step'' \<or> name = ''evaluate'' \<or> take 9 name = ''__cpphdl_''"

definition check_clock :: "gport list \<Rightarrow> string set \<Rightarrow> gclock \<Rightarrow> check" where
  "check_clock ports names clock =
     (let name = clock_name clock in
      both (ensure (\<not> (name = [] \<or> clock_frequency clock = 0 \<or> name \<in> names \<or> (\<not> isalpha (hd name) \<and> hd name \<noteq> CHR ''_'')))
             ''invalid or duplicate clock name/frequency'')
        (both (check_each (\<lambda>c. ensure (\<not> (\<not> (isalpha c \<or> isdigit c) \<and> c \<noteq> CHR ''_'')) ''invalid clock identifier'') name)
          (both (ensure (\<not> reserved_name name) (''reserved clock name: '' @ name))
            (check_each (\<lambda>port. ensure (port_name port \<noteq> name) (''clock conflicts with data port: '' @ name)) ports))))"

primrec check_clocks :: "gport list \<Rightarrow> string set \<Rightarrow> gclock list \<Rightarrow> check" where
  "check_clocks ports names [] = Inr ()"
| "check_clocks ports names (clock # clocks) =
     both (check_clock ports names clock) (check_clocks ports (insert (clock_name clock) names) clocks)"

primrec insert_owners :: "gvalue \<Rightarrow> gbit set \<Rightarrow> gbit set option" where
  "insert_owners [] owners = Some owners"
| "insert_owners (b # bits) owners = (if b \<in> owners then None else insert_owners bits (insert b owners))"

primrec check_owners :: "gclock list \<Rightarrow> gbit set \<Rightarrow> gstate list \<Rightarrow> check" where
  "check_owners clocks owners [] = Inr ()"
| "check_owners clocks owners (st # sts) =
     both (ensure (\<not> (state_clock st < 0 \<or> length clocks \<le> nat (state_clock st) \<or> state_trigger st \<noteq> [1]))
            ''invalid state clock domain/trigger'')
       (case insert_owners (state_bits st) owners of
          None \<Rightarrow> Inl (Graph_error ''multiple clock/edge owners for state'')
        | Some owners' \<Rightarrow> check_owners clocks owners' sts)"

definition validateClocks :: "'a graph_scheme \<Rightarrow> check" where
  "validateClocks g =
     both (check_each (check_reset (g_ports g)) (g_states g))
       (both (check_each check_memory (g_memories g))
         (both (check_each (check_access (g_contract g) (g_clocks g) (g_memories g)) (g_accesses g))
           (both (check_writes (g_contract g) (g_clocks g) (g_memories g) (g_writes g) Map.empty)
             (if g_contract g \<noteq> NamedEdges
              then both (ensure (g_clocks g = []) ''clock domains require a named-edge contract'')
                (check_each (\<lambda>st. ensure (\<not> (state_clock st \<noteq> -1 \<or> state_falling st)) ''unexpected state clock domain'') (g_states g))
              else both (ensure (g_clocks g \<noteq> []) ''named-edge graph has no clocks'')
                (both (check_clocks (g_ports g) {} (g_clocks g)) (check_owners (g_clocks g) {} (g_states g)))))))"

end
