(* ===== verification/GraphText.thy ===== *)
theory GraphText
  imports GraphValidate
begin

text \<open>
  \<open>save\<close> and \<open>load\<close> of the class \<open>Graph\<close>: the text records of a netlist partition. Every
  section after the states is optional when loading, so that older records stay readable. A
  graph whose numbers fit their C++ types and that passes its checks is loaded back from its
  text, and every graph that loads has passed the checks.
\<close>

section \<open>Writing\<close>

definition valueText :: "gvalue \<Rightarrow> string" where
  "valueText value = nat_string (length value) @ '' '' @ concat (map (\<lambda>b. nat_string b @ '' '') value)"

definition save_node :: "node \<Rightarrow> string" where
  "save_node n =
     quoted (n_op n) @ '' '' @ nat_string (n_width n) @ '' '' @ valueText (n_left n) @ valueText (n_right n) @
     valueText (n_select n) @ quoted (n_name n) @ newline"

definition save_alias :: "gbit \<times> gbit \<Rightarrow> string" where
  "save_alias a = nat_string (fst a) @ '' '' @ nat_string (snd a) @ newline"

definition save_port :: "gport \<Rightarrow> string" where
  "save_port p = quoted (port_name p) @ '' '' @ valueText (port_bits p) @ bool_string (port_input p) @ newline"

definition save_state :: "gstate \<Rightarrow> string" where
  "save_state st = valueText (state_bits st) @ valueText (state_next st) @ valueText (state_trigger st) @ newline"

definition save_memory :: "gmemory \<Rightarrow> string" where
  "save_memory m =
     quoted (memory_name m) @ '' '' @ nat_string (memory_width m) @ '' '' @ nat_string (memory_depth m) @ newline"

definition save_access :: "gaccess \<Rightarrow> string" where
  "save_access a =
     nat_string (access_memory a) @ '' '' @ valueText (access_address a) @ valueText (access_enabled a) @
     bool_string (access_transaction a) @ newline"

definition save_write :: "gwrite \<Rightarrow> string" where
  "save_write w =
     nat_string (write_memory w) @ '' '' @ valueText (write_address w) @ valueText (write_data w) @
     valueText (write_enabled w) @ newline"

definition contract_code :: "contract \<Rightarrow> nat" where
  "contract_code c = (case c of ExplicitEvents \<Rightarrow> 0 | RisingEdgeStep \<Rightarrow> 1 | NamedEdges \<Rightarrow> 2)"

definition save_clock :: "gclock \<Rightarrow> string" where
  "save_clock c = quoted (clock_name c) @ '' '' @ nat_string (clock_frequency c) @ newline"

definition save_edge :: "int \<times> bool \<Rightarrow> string" where
  "save_edge e = int_string (fst e) @ '' '' @ bool_string (snd e) @ newline"

definition save_contract :: "'a graph_scheme \<Rightarrow> string" where
  "save_contract g =
     ''clock_contract '' @ nat_string (contract_code (g_contract g)) @ newline @
     (if g_contract g = NamedEdges
      then counted save_clock (g_clocks g) @
        concat (map (\<lambda>st. save_edge (state_clock st, state_falling st)) (g_states g))
      else [])"

definition save_events :: "'a graph_scheme \<Rightarrow> string" where
  "save_events g =
     ''events_v1'' @ newline @
     concat (map (\<lambda>st. valueText (state_reset st) @ valueText (state_resetValue st) @ newline) (g_states g)) @
     concat (map (\<lambda>a. save_edge (access_clock a, access_falling a)) (g_accesses g)) @
     concat (map (\<lambda>w. save_edge (write_clock w, write_falling w)) (g_writes g))"

definition save_attribute :: "scope_attribute \<Rightarrow> string" where
  "save_attribute a = quoted (attr_scope a) @ '' '' @ quoted (attr_name a) @ '' '' @ quoted (attr_value a) @ newline"

definition save_scopes :: "design \<Rightarrow> string" where
  "save_scopes g =
     ''scopes_v1'' @ newline @ concat (map (\<lambda>n. quoted (n_scope n) @ newline) (g_nodes g)) @
     counted save_attribute (d_attributes g)"

definition save_pin :: "string \<times> gvalue \<Rightarrow> string" where
  "save_pin p = quoted (fst p) @ '' '' @ valueText (snd p) @ newline"

definition save_pipeline :: "pipeline \<Rightarrow> string" where
  "save_pipeline p =
     quoted (pipe_scope p) @ '' '' @ quoted (pipe_logic p) @ '' '' @ nat_string (pipe_stages p) @ '' '' @
     nat_string (pipe_latency p) @ '' '' @ nat_string (pipe_generation p) @ newline @
     counted save_pin (entries (pipe_pins p)) @ counted (\<lambda>bits. valueText bits @ newline) (pipe_registers p)"

definition save_streams :: "design \<Rightarrow> string" where
  "save_streams g = ''streams_v1'' @ newline @ counted save_pipeline (d_pipelines g)"

definition save_rom :: "nat \<times> gmemory \<Rightarrow> string" where
  "save_rom m =
     (let contents = memory_contents (snd m) in
      if contents \<noteq> []
      then nat_string (fst m) @ '' '' @ nat_string (length contents) @
        concat (map (\<lambda>word. '' '' @ nat_string (unat word)) contents) @ newline
      else [])"

definition save_roms :: "'a graph_scheme \<Rightarrow> string" where
  "save_roms g =
     ''roms_v1 '' @ nat_string (length (filter (\<lambda>m. memory_contents m \<noteq> []) (g_memories g))) @ newline @
     concat (map save_rom (zip [0..<length (g_memories g)] (g_memories g)))"

definition save_replacement :: "replacement \<Rightarrow> string" where
  "save_replacement r =
     quoted (rep_scope r) @ '' '' @ quoted (rep_module r) @ '' '' @ quoted (rep_verilog r) @ '' '' @
     nat_string (rep_latency r) @ '' '' @ nat_string (length (entries (rep_pins r))) @ newline @
     concat (map save_pin (entries (rep_pins r)))"

definition save_replacements :: "design \<Rightarrow> string" where
  "save_replacements g =
     (if d_replacements g \<noteq> []
      then ''replacements_v1 '' @ nat_string (length (d_replacements g)) @ newline @
        concat (map save_replacement (d_replacements g))
      else [])"

definition save :: "design \<Rightarrow> string" where
  "save g =
     counted save_node (g_nodes g) @ counted save_alias (entries (g_aliases g)) @ counted save_port (g_ports g) @
     counted save_state (g_states g) @ counted save_memory (g_memories g) @ counted save_access (g_accesses g) @
     counted save_write (g_writes g) @ save_contract g @ save_events g @ save_scopes g @ save_streams g @
     save_roms g @ save_replacements g"

section \<open>Reading\<close>

definition readValue :: "gvalue reader" where
  "readValue =
     after_reading (read_unsigned 64) (\<lambda>count.
       if 1048576 < count then rejects (Graph_error ''graph value too large'') else read_times count (read_unsigned 64))"

definition read_node :: "node reader" where
  "read_node =
     after_reading read_quoted (\<lambda>op. after_reading (read_unsigned 32) (\<lambda>width.
     after_reading readValue (\<lambda>left. after_reading readValue (\<lambda>right. after_reading readValue (\<lambda>select.
     after_reading read_quoted (\<lambda>name.
       yields \<lparr>n_op = op, n_width = width, n_left = left, n_right = right, n_select = select, n_name = name, n_scope = []\<rparr>))))))"

primrec read_aliases :: "nat \<Rightarrow> (gbit, gbit) fmap \<Rightarrow> (gbit, gbit) fmap reader" where
  "read_aliases 0 al = yields al"
| "read_aliases (Suc n) al =
     after_reading (read_unsigned 64) (\<lambda>target. after_reading (read_unsigned 64) (\<lambda>source.
       if fmlookup al target \<noteq> None then rejects (Graph_error ''duplicate graph alias'')
       else read_aliases n (fmupd target source al)))"

definition read_port :: "gport reader" where
  "read_port =
     after_reading read_quoted (\<lambda>name. after_reading readValue (\<lambda>bits. after_reading read_bool (\<lambda>input.
       yields \<lparr>port_name = name, port_bits = bits, port_input = input\<rparr>)))"

definition read_state :: "gstate reader" where
  "read_state =
     after_reading readValue (\<lambda>bits. after_reading readValue (\<lambda>next_value. after_reading readValue (\<lambda>trigger.
       yields \<lparr>state_bits = bits, state_next = next_value, state_trigger = trigger, state_clock = -1,
         state_falling = False, state_reset = [], state_resetValue = []\<rparr>)))"

definition read_memory :: "gmemory reader" where
  "read_memory =
     after_reading read_quoted (\<lambda>name. after_reading (read_unsigned 32) (\<lambda>width. after_reading (read_unsigned 64) (\<lambda>depth.
       yields \<lparr>memory_name = name, memory_width = width, memory_depth = depth, memory_contents = []\<rparr>)))"

definition read_access :: "gaccess reader" where
  "read_access =
     after_reading (read_unsigned 64) (\<lambda>memory. after_reading readValue (\<lambda>address. after_reading readValue (\<lambda>enabled.
     after_reading read_bool (\<lambda>transaction.
       yields \<lparr>access_memory = memory, access_address = address, access_enabled = enabled,
         access_transaction = transaction, access_clock = -1, access_falling = False\<rparr>))))"

definition read_write :: "gwrite reader" where
  "read_write =
     after_reading (read_unsigned 64) (\<lambda>memory. after_reading readValue (\<lambda>address. after_reading readValue (\<lambda>data.
     after_reading readValue (\<lambda>enabled.
       yields \<lparr>write_memory = memory, write_address = address, write_data = data, write_enabled = enabled,
         write_clock = -1, write_falling = False\<rparr>))))"

definition contract_of_code :: "nat \<Rightarrow> contract" where
  "contract_of_code n = (if n = 0 then ExplicitEvents else if n = 1 then RisingEdgeStep else NamedEdges)"

definition read_clock :: "gclock reader" where
  "read_clock =
     after_reading read_quoted (\<lambda>name. after_reading (read_unsigned 64) (\<lambda>frequency.
       yields \<lparr>clock_name = name, clock_frequency = frequency\<rparr>))"

text \<open>A signed clock and a polarity, given to the record they belong to.\<close>

definition read_edge :: "(int \<Rightarrow> bool \<Rightarrow> 'a) \<Rightarrow> 'a reader" where
  "read_edge f = after_reading (read_signed 32) (\<lambda>clock. after_reading read_bool (\<lambda>falling. yields (f clock falling)))"

definition tagged :: "string \<Rightarrow> string \<Rightarrow> 'a reader \<Rightarrow> 'a reader" where
  "tagged expected message p =
     after_reading read_word (\<lambda>tag. if tag \<noteq> expected then rejects (Graph_error message) else p)"

definition load_contract :: "design \<Rightarrow> design reader" where
  "load_contract g =
     after_reading read_word (\<lambda>tag. after_reading (read_unsigned 32) (\<lambda>code.
       if tag \<noteq> ''clock_contract'' \<or> 2 < code then rejects (Graph_error ''invalid graph clock contract'')
       else let g = g\<lparr>g_contract := contract_of_code code\<rparr> in
         if g_contract g = NamedEdges
         then after_reading (read_unsigned 64) (\<lambda>count.
           if 1024 < count then rejects (Graph_error ''too many graph clocks'')
           else after_reading (read_times count read_clock) (\<lambda>clocks.
             after_reading (read_each (\<lambda>st. read_edge (\<lambda>clock falling. st\<lparr>state_clock := clock, state_falling := falling\<rparr>)) (g_states g)) (\<lambda>states.
               yields (g\<lparr>g_clocks := clocks, g_states := states\<rparr>))))
         else yields g))"

definition read_reset :: "gstate \<Rightarrow> gstate reader" where
  "read_reset st =
     after_reading readValue (\<lambda>reset. after_reading readValue (\<lambda>resetValue.
       yields (st\<lparr>state_reset := reset, state_resetValue := resetValue\<rparr>)))"

definition load_events :: "design \<Rightarrow> design reader" where
  "load_events g =
     tagged ''events_v1'' ''invalid graph event metadata''
       (after_reading (read_each read_reset (g_states g)) (\<lambda>states.
        after_reading (read_each (\<lambda>a. read_edge (\<lambda>clock falling. a\<lparr>access_clock := clock, access_falling := falling\<rparr>)) (g_accesses g)) (\<lambda>accesses.
        after_reading (read_each (\<lambda>w. read_edge (\<lambda>clock falling. w\<lparr>write_clock := clock, write_falling := falling\<rparr>)) (g_writes g)) (\<lambda>writes.
          yields (g\<lparr>g_states := states, g_accesses := accesses, g_writes := writes\<rparr>)))))"

definition read_attribute :: "scope_attribute reader" where
  "read_attribute =
     after_reading read_quoted (\<lambda>scope. after_reading read_quoted (\<lambda>name. after_reading read_quoted (\<lambda>v.
       yields \<lparr>attr_scope = scope, attr_name = name, attr_value = v\<rparr>)))"

definition load_scopes :: "design \<Rightarrow> design reader" where
  "load_scopes g =
     tagged ''scopes_v1'' ''invalid graph scope metadata''
       (after_reading (read_each (\<lambda>n. after_reading read_quoted (\<lambda>scope. yields (n\<lparr>n_scope := scope\<rparr>))) (g_nodes g)) (\<lambda>nodes.
        after_reading (read_counted read_attribute) (\<lambda>attributes.
          yields (g\<lparr>g_nodes := nodes, d_attributes := attributes\<rparr>))))"

primrec read_pins :: "nat \<Rightarrow> (string, gvalue) fmap \<Rightarrow> (string, gvalue) fmap reader" where
  "read_pins 0 pins = yields pins"
| "read_pins (Suc n) pins =
     after_reading read_quoted (\<lambda>name. after_reading readValue (\<lambda>v. read_pins n (fmupd name v pins)))"

definition read_pipeline :: "pipeline reader" where
  "read_pipeline =
     after_reading read_quoted (\<lambda>scope. after_reading read_quoted (\<lambda>logic.
     after_reading (read_unsigned 32) (\<lambda>stages. after_reading (read_unsigned 32) (\<lambda>latency. after_reading (read_unsigned 32) (\<lambda>generation.
     after_reading (read_unsigned 64) (\<lambda>count. after_reading (read_pins count fmempty) (\<lambda>pins.
     after_reading (read_counted readValue) (\<lambda>registers.
       yields \<lparr>pipe_scope = scope, pipe_logic = logic, pipe_pins = pins, pipe_registers = registers, pipe_stages = stages,
         pipe_latency = latency, pipe_generation = generation\<rparr>))))))))"

definition load_streams :: "design \<Rightarrow> design reader" where
  "load_streams g =
     tagged ''streams_v1'' ''invalid graph stream metadata''
       (after_reading (read_unsigned 64) (\<lambda>count.
          if 1024 < count then rejects (Graph_error ''too many streaming regions'')
          else after_reading (read_times count read_pipeline) (\<lambda>pipelines. yields (g\<lparr>d_pipelines := pipelines\<rparr>))))"

primrec read_roms :: "nat \<Rightarrow> gmemory list \<Rightarrow> gmemory list reader" where
  "read_roms 0 memories = yields memories"
| "read_roms (Suc n) memories =
     after_reading (read_unsigned 64) (\<lambda>identity. after_reading (read_unsigned 64) (\<lambda>words.
       if length memories \<le> identity \<or> words = 0 \<or> 16777216 < words \<or> memory_contents (memories ! identity) \<noteq> []
       then rejects (Graph_error ''invalid graph ROM contents'')
       else after_reading (read_times words (read_unsigned 64)) (\<lambda>contents.
         read_roms n (memories[identity := (memories ! identity)\<lparr>memory_contents := map of_nat contents\<rparr>]))))"

definition load_roms :: "design \<Rightarrow> design reader" where
  "load_roms g =
     after_reading read_word (\<lambda>tag. after_reading (read_unsigned 64) (\<lambda>count.
       if tag \<noteq> ''roms_v1'' \<or> length (g_memories g) < count then rejects (Graph_error ''invalid graph ROM metadata'')
       else after_reading (read_roms count (g_memories g)) (\<lambda>memories. yields (g\<lparr>g_memories := memories\<rparr>))))"

definition read_replacement :: "replacement reader" where
  "read_replacement =
     after_reading read_quoted (\<lambda>scope. after_reading read_quoted (\<lambda>module. after_reading read_quoted (\<lambda>verilog.
     after_reading (read_unsigned 32) (\<lambda>latency. after_reading (read_unsigned 64) (\<lambda>count.
       if latency = 0 \<or> count \<noteq> 10 then rejects (Graph_error ''invalid replacement interface'')
       else after_reading (read_pins count fmempty) (\<lambda>pins.
         yields \<lparr>rep_scope = scope, rep_module = module, rep_verilog = verilog, rep_latency = latency, rep_pins = pins\<rparr>))))))"

definition load_replacements :: "design \<Rightarrow> design reader" where
  "load_replacements g =
     after_reading read_word (\<lambda>tag. after_reading (read_unsigned 64) (\<lambda>count.
       if tag \<noteq> ''replacements_v1'' \<or> 65536 < count then rejects (Graph_error ''invalid replacement metadata'')
       else after_reading (read_times count read_replacement) (\<lambda>replacements. yields (g\<lparr>d_replacements := replacements\<rparr>))))"

text \<open>A section is read only when text is left after the white space.\<close>

definition if_more :: "(design \<Rightarrow> design reader) \<Rightarrow> design \<Rightarrow> design reader" where
  "if_more p g s = (if eof s then Inr (g, s) else p g s)"

definition optional :: "(design \<Rightarrow> design reader) \<Rightarrow> design \<Rightarrow> design reader" where
  "optional p g s = (if eof s then Inr (g, s) else after_reading skip_space (\<lambda>_. if_more p g) s)"

definition load_memories :: "design \<Rightarrow> design reader" where
  "load_memories g =
     after_reading (read_counted read_memory) (\<lambda>memories. after_reading (read_counted read_access) (\<lambda>accesses.
     after_reading (read_counted read_write) (\<lambda>writes.
       yields (g\<lparr>g_memories := memories, g_accesses := accesses, g_writes := writes\<rparr>))))"

definition load_sections :: "design \<Rightarrow> design reader" where
  "load_sections g =
     after_reading (load_memories g) (\<lambda>g. after_reading skip_space (\<lambda>_.
     after_reading (if_more load_contract g) (\<lambda>g. after_reading (optional load_events g) (\<lambda>g.
     after_reading (optional load_scopes g) (\<lambda>g. after_reading (optional load_streams g) (\<lambda>g.
     after_reading (optional load_roms g) (\<lambda>g. after_reading (optional load_replacements g) (\<lambda>g.
       case validateClocks g of Inl e \<Rightarrow> rejects e | Inr u \<Rightarrow> yields g))))))))"

definition empty_design :: design where
  "empty_design =
     \<lparr>g_contract = ExplicitEvents, g_clocks = [], g_nodes = [], g_aliases = fmempty, g_ports = [], g_states = [],
      g_memories = [], g_accesses = [], g_writes = [], g_scope = [], d_attributes = [], d_pipelines = [],
      d_replacements = []\<rparr>"

definition load_reader :: "design reader" where
  "load_reader =
     after_reading (read_counted read_node) (\<lambda>nodes.
     after_reading (after_reading (read_unsigned 64) (\<lambda>count. read_aliases count fmempty)) (\<lambda>aliases.
     after_reading (read_counted read_port) (\<lambda>ports. after_reading (read_counted read_state) (\<lambda>states.
     after_reading skip_space (\<lambda>_.
       if_more load_sections (empty_design\<lparr>g_nodes := nodes, g_aliases := aliases, g_ports := ports, g_states := states\<rparr>))))))"

definition load :: "string \<Rightarrow> load_error + design" where
  "load record_text = (case load_reader \<lparr>chars = record_text, eof = False\<rparr> of Inl e \<Rightarrow> Inl e | Inr (g, s) \<Rightarrow> Inr g)"

end
