(* ===== verification/GraphRoundtrip.thy ===== *)
theory GraphRoundtrip
  imports GraphText
begin

text \<open>
  The text of a graph is loaded back: one interpretation of \<open>record_format\<close> for each kind of
  record, the sections of the text one after another, and the properties of \<open>save\<close> and
  \<open>load\<close>.
\<close>

section \<open>Records within their types\<close>

definition value_ok :: "gvalue \<Rightarrow> bool" where
  "value_ok v \<longleftrightarrow> length v \<le> 1048576 \<and> list_all (\<lambda>b. b < 2 ^ 64) v"

definition node_fits :: "node \<Rightarrow> bool" where
  "node_fits n \<longleftrightarrow> n_width n < 2 ^ 32 \<and> value_ok (n_left n) \<and> value_ok (n_right n) \<and> value_ok (n_select n)"

definition state_fits :: "gstate \<Rightarrow> bool" where
  "state_fits st \<longleftrightarrow> value_ok (state_bits st) \<and> value_ok (state_next st) \<and> value_ok (state_trigger st) \<and>
     value_ok (state_reset st) \<and> value_ok (state_resetValue st) \<and>
     - (2 ^ 31) \<le> state_clock st \<and> state_clock st < 2 ^ 31"

definition memory_fits :: "gmemory \<Rightarrow> bool" where
  "memory_fits m \<longleftrightarrow> memory_width m < 2 ^ 32 \<and> memory_depth m < 2 ^ 64 \<and> length (memory_contents m) \<le> 16777216"

definition access_fits :: "gaccess \<Rightarrow> bool" where
  "access_fits a \<longleftrightarrow> access_memory a < 2 ^ 64 \<and> value_ok (access_address a) \<and> value_ok (access_enabled a) \<and>
     - (2 ^ 31) \<le> access_clock a \<and> access_clock a < 2 ^ 31"

definition write_fits :: "gwrite \<Rightarrow> bool" where
  "write_fits w \<longleftrightarrow> write_memory w < 2 ^ 64 \<and> value_ok (write_address w) \<and> value_ok (write_data w) \<and>
     value_ok (write_enabled w) \<and> - (2 ^ 31) \<le> write_clock w \<and> write_clock w < 2 ^ 31"

definition pins_fit :: "(string, gvalue) fmap \<Rightarrow> bool" where
  "pins_fit pins \<longleftrightarrow> fcard (fmdom pins) < 2 ^ 64 \<and> (\<forall>k v. fmlookup pins k = Some v \<longrightarrow> value_ok v)"

definition pipeline_fits :: "pipeline \<Rightarrow> bool" where
  "pipeline_fits p \<longleftrightarrow> pins_fit (pipe_pins p) \<and> list_all value_ok (pipe_registers p) \<and>
     length (pipe_registers p) < 2 ^ 64 \<and> pipe_stages p < 2 ^ 32 \<and> pipe_latency p < 2 ^ 32 \<and> pipe_generation p < 2 ^ 32"

definition replacement_fits :: "replacement \<Rightarrow> bool" where
  "replacement_fits r \<longleftrightarrow> pins_fit (rep_pins r) \<and> fcard (fmdom (rep_pins r)) = 10 \<and> 0 < rep_latency r \<and> rep_latency r < 2 ^ 32"

lemma reads_value: "value_ok v \<Longrightarrow> reads readValue v (valueText v)"
proof -
  assume v: "value_ok v"
  have "reads (read_times (length v) (read_unsigned 64)) v (concat (map (\<lambda>b. nat_string b @ '' '') v))"
    using v by (intro reads_times reads_unsigned) (simp_all add: value_ok_def list_all_iff)
  then show ?thesis
    unfolding readValue_def valueText_def using v by (intro unsigned_then) (simp_all add: value_ok_def)
qed

lemma value_then: "value_ok v \<Longrightarrow> reads (f v) y t \<Longrightarrow> reads (after_reading readValue f) y (valueText v @ t)"
  using reads_value by (rule reads_after)

interpretation node_format: record_format read_node save_node "\<lambda>n. n\<lparr>n_scope := []\<rparr>" node_fits
  by unfold_locales
    (simp only: read_node_def save_node_def node_fits_def, intro reads_fields value_then, simp_all)

interpretation port_format: record_format read_port save_port "\<lambda>p. p" "\<lambda>p. value_ok (port_bits p)"
  by unfold_locales (simp only: read_port_def save_port_def, intro reads_fields value_then, simp_all)

definition bare_state :: "gstate \<Rightarrow> gstate" where
  "bare_state st = st\<lparr>state_clock := -1, state_falling := False, state_reset := [], state_resetValue := []\<rparr>"

interpretation state_format: record_format read_state save_state bare_state state_fits
  by unfold_locales
    (simp only: read_state_def save_state_def state_fits_def, intro reads_fields value_then, simp_all add: bare_state_def)

interpretation memory_format: record_format read_memory save_memory "\<lambda>m. m\<lparr>memory_contents := []\<rparr>" memory_fits
  by unfold_locales (simp only: read_memory_def save_memory_def memory_fits_def, intro reads_fields value_then, simp_all)

interpretation access_format: record_format read_access save_access "\<lambda>a. a\<lparr>access_clock := -1, access_falling := False\<rparr>" access_fits
  by unfold_locales (simp only: read_access_def save_access_def access_fits_def, intro reads_fields value_then, simp_all)

interpretation write_format: record_format read_write save_write "\<lambda>w. w\<lparr>write_clock := -1, write_falling := False\<rparr>" write_fits
  by unfold_locales (simp only: read_write_def save_write_def write_fits_def, intro reads_fields value_then, simp_all)

interpretation clock_format: record_format read_clock save_clock "\<lambda>c. c" "\<lambda>c. clock_frequency c < 2 ^ 64"
  by unfold_locales (simp only: read_clock_def save_clock_def, intro reads_fields, simp_all)

interpretation attribute_format: record_format read_attribute save_attribute "\<lambda>a. a" "\<lambda>_. True"
  by unfold_locales (simp only: read_attribute_def save_attribute_def, intro reads_fields, simp_all)

interpretation value_format: record_format readValue "\<lambda>bits. valueText bits @ newline" "\<lambda>v. v" value_ok
  by unfold_locales (rule reads_trailing [OF reads_value], simp_all)

section \<open>Maps\<close>

lemma entries_keys: "map fst (entries m) = sorted_list_of_fset (fmdom m)"
  by (simp add: entries_def o_def)

lemma entries_distinct: "distinct (map fst (entries m))"
  unfolding entries_keys by (simp add: sorted_list_of_fset.rep_eq)

lemma set_entries: "set (entries m) = {(k, v). fmlookup m k = Some v}"
  by (auto simp: entries_def fmlookup_dom_iff intro: rev_image_eqI)

lemma length_entries: "length (entries m) = fcard (fmdom m)"
  by (simp add: entries_def sorted_list_of_fset.rep_eq fcard.rep_eq)

lemma lookup_fold_upd:
  "distinct (map fst xs) \<Longrightarrow>
     fmlookup (fold (\<lambda>(k, v). fmupd k v) xs m) k = (case map_of xs k of None \<Rightarrow> fmlookup m k | Some v \<Rightarrow> Some v)"
proof (induction xs arbitrary: m)
  case (Cons x xs)
  then have "k = fst x \<Longrightarrow> map_of xs k = None"
    by (auto simp: map_of_eq_None_iff)
  then show ?case
    using Cons by (cases x; cases "map_of xs k"; cases "k = fst x") simp_all
qed simp

lemma fold_entries: "fold (\<lambda>(k, v). fmupd k v) (entries m) fmempty = m"
proof (rule fmap_ext)
  fix k
  have "map_of (entries m) k = fmlookup m k"
    using map_of_eq_Some_iff [OF entries_distinct, of m k] set_entries [of m]
    by (cases "fmlookup m k"; cases "map_of (entries m) k") auto
  then show "fmlookup (fold (\<lambda>(k, v). fmupd k v) (entries m) fmempty) k = fmlookup m k"
    by (simp add: lookup_fold_upd [OF entries_distinct] split: option.split)
qed

lemma reads_pins:
  assumes "\<forall>e \<in> set es. value_ok (snd e)"
  shows "reads (read_pins (length es) m) (fold (\<lambda>(k, v). fmupd k v) es m) (concat (map save_pin es))"
  using assms
proof (induction es arbitrary: m)
  case (Cons e es)
  then have "reads (read_pins (length (e # es)) m) (fold (\<lambda>(k, v). fmupd k v) (e # es) m)
      (quoted (fst e) @ [CHR '' ''] @ valueText (snd e) @ newline @ concat (map save_pin es))"
    by (simp only: list.size read_pins.simps One_nat_def add_Suc_right add_0_right)
      (intro reads_fields value_then, simp_all split: prod.splits)
  then show ?case
    by (simp add: save_pin_def [of e])
qed (simp add: reads_yields)

lemma pins_then:
  assumes "pins_fit pins" and "reads (f pins) y t"
  shows "reads (after_reading (read_pins (length (entries pins)) fmempty) f) y (concat (map save_pin (entries pins)) @ t)"
proof -
  have "\<forall>e \<in> set (entries pins). value_ok (snd e)"
    using assms(1) by (auto simp: pins_fit_def set_entries)
  from reads_pins [OF this, of fmempty] have "reads (read_pins (length (entries pins)) fmempty) pins (concat (map save_pin (entries pins)))"
    by (simp only: fold_entries)
  then show ?thesis
    using assms(2) by (rule reads_after)
qed

lemma reads_aliases:
  assumes "\<forall>e \<in> set es. fst e < 2 ^ 64 \<and> snd e < 2 ^ 64" and "distinct (map fst es)" and "\<forall>e \<in> set es. fmlookup m (fst e) = None"
  shows "reads (read_aliases (length es) m) (fold (\<lambda>(k, v). fmupd k v) es m) (concat (map save_alias es))"
  using assms
proof (induction es arbitrary: m)
  case (Cons e es)
  then have "reads (read_aliases (length es) (fmupd (fst e) (snd e) m)) (fold (\<lambda>(k, v). fmupd k v) es (fmupd (fst e) (snd e) m)) (concat (map save_alias es))"
    by (intro Cons.IH) auto
  with Cons.prems have "reads (read_aliases (length (e # es)) m) (fold (\<lambda>(k, v). fmupd k v) (e # es) m)
      (nat_string (fst e) @ [CHR '' ''] @ nat_string (snd e) @ newline @ concat (map save_alias es))"
    by (simp only: list.size read_aliases.simps One_nat_def add_Suc_right add_0_right)
      (intro reads_fields, simp_all add: split_beta)
  then show ?case
    by (simp add: save_alias_def [of e])
qed (simp add: reads_yields)

lemma entries_count: "nat_string (fcard (fmdom m)) = nat_string (length (entries m))"
  by (simp add: length_entries)

interpretation pipeline_format: record_format read_pipeline save_pipeline "\<lambda>p. p" pipeline_fits
proof
  fix p :: pipeline
  assume p: "pipeline_fits p"
  then have n: "length (entries (pipe_pins p)) < 2 ^ 64" "pins_fit (pipe_pins p)"
    by (simp_all add: pipeline_fits_def pins_fit_def length_entries)
  show "reads read_pipeline p (save_pipeline p)"
    unfolding read_pipeline_def save_pipeline_def counted_def [of save_pin] append_assoc
    using p n by (intro reads_fields pins_then value_format.counted_then [of _ _ _ "[]", simplified]) (simp_all add: pipeline_fits_def)
qed

lemma pins_last:
  assumes "pins_fit pins" and "n = length (entries pins)" and "f pins = yields y"
  shows "reads (after_reading (read_pins n fmempty) f) y (concat (map save_pin (entries pins)))"
  using pins_then [OF assms(1), of f y "[]"] reads_yields [of y] assms(2,3) by simp

lemma after_yields [simp]: "after_reading (yields x) f = f x"
  by (simp add: after_reading_def yields_def fun_eq_iff)

interpretation replacement_format: record_format read_replacement save_replacement "\<lambda>r. r" replacement_fits
proof
  fix r :: replacement
  assume r: "replacement_fits r"
  then have n: "length (entries (rep_pins r)) = 10" "pins_fit (rep_pins r)"
    by (simp_all add: replacement_fits_def length_entries)
  have "reads (after_reading (read_pins 10 fmempty) (\<lambda>pins. yields \<lparr>rep_scope = rep_scope r, rep_module = rep_module r,
      rep_verilog = rep_verilog r, rep_latency = rep_latency r, rep_pins = pins\<rparr>)) r (concat (map save_pin (entries (rep_pins r))))"
    by (rule pins_last [OF n(2)], simp add: n, rule arg_cong [where f = yields], simp)
  then show "reads read_replacement r (save_replacement r)"
    unfolding read_replacement_def save_replacement_def
    using r n by (intro reads_fields) (simp_all add: replacement_fits_def)
qed

section \<open>Read-only memories\<close>

lemma reads_words:
  "list_all (\<lambda>w. w < 2 ^ 64) (w # ws) \<Longrightarrow>
     reads (read_times (Suc (length ws)) (read_unsigned 64)) (w # ws)
       (nat_string w @ concat (map (\<lambda>w. '' '' @ nat_string w) ws) @ newline)"
proof (induction ws arbitrary: w)
  case Nil
  then show ?case
    by (simp only: list.size read_times.simps list.map concat.simps append_Nil after_yields)
      (intro reads_fields, simp_all)
next
  case (Cons v vs)
  then have "reads (read_times (Suc (length vs)) (read_unsigned 64)) (v # vs)
      (nat_string v @ concat (map (\<lambda>w. '' '' @ nat_string w) vs) @ newline)"
    by simp
  then have "reads (read_times (Suc (length (v # vs))) (read_unsigned 64)) (w # v # vs)
      (nat_string w @ [CHR '' ''] @ (nat_string v @ concat (map (\<lambda>w. '' '' @ nat_string w) vs) @ newline))"
    using Cons.prems unfolding list.size One_nat_def add_Suc_right add_0_right
    by (subst read_times.simps(2)) (intro unsigned_then, simp_all add: reads_last)
  then show ?case
    by simp
qed

definition cleared :: "gmemory \<Rightarrow> gmemory" where
  "cleared m = m\<lparr>memory_contents := []\<rparr>"

lemma reads_roms:
  assumes "list_all (\<lambda>m. length (memory_contents m) \<le> 16777216) suf" and "length pre + length suf < 2 ^ 64"
  shows "reads (read_roms (length (filter (\<lambda>m. memory_contents m \<noteq> []) suf)) (pre @ map cleared suf)) (pre @ suf)
    (concat (map save_rom (zip [length pre..<length pre + length suf] suf)))"
  using assms
proof (induction suf arbitrary: pre)
  case (Cons m suf)
  have zip: "zip [length pre..<length pre + length (m # suf)] (m # suf) =
      (length pre, m) # zip [length (pre @ [m])..<length (pre @ [m]) + length suf] suf"
  proof -
    have "[length pre..<length pre + length (m # suf)] = length pre # [length (pre @ [m])..<length (pre @ [m]) + length suf]"
      by (subst upt_conv_Cons) simp_all
    then show ?thesis
      by (simp only: zip_Cons_Cons)
  qed
  have IH: "reads (read_roms (length (filter (\<lambda>m. memory_contents m \<noteq> []) suf)) ((pre @ [m]) @ map cleared suf)) ((pre @ [m]) @ suf)
      (concat (map save_rom (zip [length (pre @ [m])..<length (pre @ [m]) + length suf] suf)))"
    using Cons.prems by (intro Cons.IH) simp_all
  show ?case
  proof (cases "memory_contents m")
    case Nil
    then have "cleared m = m" "save_rom (length pre, m) = []"
      by (simp_all add: cleared_def save_rom_def)
    then show ?thesis
      using IH Nil unfolding zip by simp
  next
    case (Cons w ws)
    let ?t = "concat (map save_rom (zip [length (pre @ [m])..<length (pre @ [m]) + length suf] suf))"
    let ?ns = "map unat (memory_contents m)"
    have row: "save_rom (length pre, m) @ ?t = nat_string (length pre) @ [CHR '' ''] @ nat_string (length ?ns) @ [CHR '' ''] @
        (nat_string (unat w) @ concat (map (\<lambda>w. '' '' @ nat_string w) (map unat ws)) @ newline) @ ?t"
      by (simp add: save_rom_def Cons o_def)
    have "unat v < 2 ^ 64" for v :: "64 word"
      using unsigned_less [of v, where 'a = nat] by simp
    then have words: "list_all (\<lambda>w. w < 2 ^ 64) (unat w # map unat ws)"
      unfolding list_all_iff by auto
    have restored: "map of_nat ?ns = memory_contents m"
      by (simp add: o_def)
    have written: "(pre @ map cleared (m # suf))[length pre := (cleared m)\<lparr>memory_contents := memory_contents m\<rparr>] = (pre @ [m]) @ map cleared suf"
      by (simp add: cleared_def)
    have "reads (read_roms (Suc (length (filter (\<lambda>m. memory_contents m \<noteq> []) suf))) (pre @ map cleared (m # suf))) (pre @ m # suf)
        (save_rom (length pre, m) @ ?t)"
      unfolding row read_roms.simps
    proof (intro unsigned_then)
      show "length pre < 2 ^ 64"
        using Cons.prems by simp
      show "length ?ns < 2 ^ 64"
        using Cons.prems by simp
      show "reads (if length (pre @ map cleared (m # suf)) \<le> length pre \<or> length ?ns = 0 \<or> 16777216 < length ?ns \<or>
            memory_contents ((pre @ map cleared (m # suf)) ! length pre) \<noteq> []
          then rejects (Graph_error ''invalid graph ROM contents'')
          else after_reading (read_times (length ?ns) (read_unsigned 64)) (\<lambda>contents.
            read_roms (length (filter (\<lambda>m. memory_contents m \<noteq> []) suf))
              ((pre @ map cleared (m # suf))[length pre := ((pre @ map cleared (m # suf)) ! length pre)\<lparr>memory_contents := map of_nat contents\<rparr>])))
          (pre @ m # suf)
          ((nat_string (unat w) @ concat (map (\<lambda>w. '' '' @ nat_string w) (map unat ws)) @ newline) @ ?t)"
      proof -
        have "(pre @ map cleared (m # suf)) ! length pre = cleared m" "length pre < length (pre @ map cleared (m # suf))"
          "memory_contents (cleared m) = []" "length ?ns \<noteq> 0" "length ?ns \<le> 16777216"
          using Cons.prems Cons by (simp_all add: cleared_def)
        moreover have "reads (after_reading (read_times (length ?ns) (read_unsigned 64)) (\<lambda>contents.
            read_roms (length (filter (\<lambda>m. memory_contents m \<noteq> []) suf))
              ((pre @ map cleared (m # suf))[length pre := (cleared m)\<lparr>memory_contents := map of_nat contents\<rparr>])))
          (pre @ m # suf)
          ((nat_string (unat w) @ concat (map (\<lambda>w. '' '' @ nat_string w) (map unat ws)) @ newline) @ ?t)"
        proof (rule reads_after)
          show "reads (read_times (length ?ns) (read_unsigned 64)) ?ns
              (nat_string (unat w) @ concat (map (\<lambda>w. '' '' @ nat_string w) (map unat ws)) @ newline)"
            using reads_words [OF words] by (simp add: Cons)
          show "reads (read_roms (length (filter (\<lambda>m. memory_contents m \<noteq> []) suf))
              ((pre @ map cleared (m # suf))[length pre := (cleared m)\<lparr>memory_contents := map of_nat ?ns\<rparr>])) (pre @ m # suf) ?t"
            unfolding restored written using IH by simp
        qed
        ultimately show ?thesis
          by (simp only: not_le [symmetric] if_False simp_thms not_less)
      qed
    qed simp_all
    then show ?thesis
      unfolding zip using Cons by simp
  qed
qed (simp add: reads_yields)

section \<open>The sections of a text\<close>

definition design_fits :: "design \<Rightarrow> bool" where
  "design_fits g \<longleftrightarrow>
     list_all node_fits (g_nodes g) \<and> length (g_nodes g) < 2 ^ 64 \<and>
     fcard (fmdom (g_aliases g)) < 2 ^ 64 \<and> (\<forall>a b. fmlookup (g_aliases g) a = Some b \<longrightarrow> a < 2 ^ 64 \<and> b < 2 ^ 64) \<and>
     list_all (\<lambda>p. value_ok (port_bits p)) (g_ports g) \<and> length (g_ports g) < 2 ^ 64 \<and>
     list_all state_fits (g_states g) \<and> length (g_states g) < 2 ^ 64 \<and>
     list_all memory_fits (g_memories g) \<and> length (g_memories g) < 2 ^ 64 \<and>
     list_all access_fits (g_accesses g) \<and> length (g_accesses g) < 2 ^ 64 \<and>
     list_all write_fits (g_writes g) \<and> length (g_writes g) < 2 ^ 64 \<and>
     list_all (\<lambda>c. clock_frequency c < 2 ^ 64) (g_clocks g) \<and> length (g_clocks g) \<le> 1024 \<and>
     length (d_attributes g) < 2 ^ 64 \<and>
     list_all pipeline_fits (d_pipelines g) \<and> length (d_pipelines g) \<le> 1024 \<and>
     list_all replacement_fits (d_replacements g) \<and> length (d_replacements g) \<le> 65536"

text \<open>What the sections read before have left of the records.\<close>

definition plain_node :: "node \<Rightarrow> node" where
  "plain_node n = n\<lparr>n_scope := []\<rparr>"

definition unreset :: "gstate \<Rightarrow> gstate" where
  "unreset st = st\<lparr>state_reset := [], state_resetValue := []\<rparr>"

definition plain_access :: "gaccess \<Rightarrow> gaccess" where
  "plain_access a = a\<lparr>access_clock := -1, access_falling := False\<rparr>"

definition plain_write :: "gwrite \<Rightarrow> gwrite" where
  "plain_write w = w\<lparr>write_clock := -1, write_falling := False\<rparr>"

lemmas plain_defs = plain_node_def plain_access_def plain_write_def cleared_def

lemma map_plain:
  "map (\<lambda>n. n\<lparr>n_scope := []\<rparr>) = map plain_node" "map (\<lambda>a. a\<lparr>access_clock := -1, access_falling := False\<rparr>) = map plain_access"
  "map (\<lambda>w. w\<lparr>write_clock := -1, write_falling := False\<rparr>) = map plain_write" "map (\<lambda>m. m\<lparr>memory_contents := []\<rparr>) = map cleared"
  by (simp_all add: plain_defs [abs_def])

lemma each_then:
  assumes "length xs = length ys" and "\<And>i. i < length xs \<Longrightarrow> reads (p (xs ! i)) (ys ! i) (written (ys ! i))" and "reads (f ys) y t"
  shows "reads (after_reading (read_each p xs) f) y (concat (map written ys) @ t)"
  using reads_each [of xs ys p written, OF assms(1,2)] assms(3) by (rule reads_after)

lemma each_last:
  assumes "length xs = length ys" and "\<And>i. i < length xs \<Longrightarrow> reads (p (xs ! i)) (ys ! i) (written (ys ! i))" and "f ys = yields y"
  shows "reads (after_reading (read_each p xs) f) y (concat (map written ys))"
  using reads_each [of xs ys p written, OF assms(1,2)] assms(3) by (rule reads_last)

lemma word_then:
  assumes "w \<noteq> []" and "list_all (\<lambda>c. \<not> isspace c) w" and "isspace sp" and "reads (f w) y t"
  shows "reads (after_reading read_word f) y (w @ [sp] @ t)"
  using reads_after [OF reads_word [OF assms(1-3)], of f y t] assms(4) by simp

lemma tagged_then:
  assumes "w \<noteq> []" and "list_all (\<lambda>c. \<not> isspace c) w" and "isspace sp" and "reads p y t"
  shows "reads (tagged w m p) y (w @ [sp] @ t)"
  unfolding tagged_def using assms by (intro word_then) simp_all

lemma tag_chars:
  "list_all (\<lambda>c. \<not> isspace c) ''clock_contract''" "list_all (\<lambda>c. \<not> isspace c) ''events_v1''"
  "list_all (\<lambda>c. \<not> isspace c) ''scopes_v1''" "list_all (\<lambda>c. \<not> isspace c) ''streams_v1''"
  "list_all (\<lambda>c. \<not> isspace c) ''roms_v1''" "list_all (\<lambda>c. \<not> isspace c) ''replacements_v1''"
  by (simp_all add: isspace_def)

lemma edge_read:
  assumes "- (2 ^ 31) \<le> c" and "c < 2 ^ 31" and "f c b = x"
  shows "reads (read_edge f) x (save_edge (c, b))"
  unfolding read_edge_def save_edge_def fst_conv snd_conv using assms by (intro reads_fields) simp_all

lemma reads_memories:
  assumes "design_fits g"
  shows "reads (load_memories d)
    (d\<lparr>g_memories := map cleared (g_memories g), g_accesses := map plain_access (g_accesses g), g_writes := map plain_write (g_writes g)\<rparr>)
    (counted save_memory (g_memories g) @ counted save_access (g_accesses g) @ counted save_write (g_writes g))"
proof -
  have "reads (after_reading (read_counted read_write) f) y (counted save_write (g_writes g))"
    if "f (map plain_write (g_writes g)) = yields y" for f and y :: design
    by (rule reads_last [where f = f, OF write_format.reads_counted]) (use assms that in \<open>simp_all add: design_fits_def map_plain\<close>)
  then show ?thesis
    unfolding load_memories_def using assms
    by (intro memory_format.counted_then access_format.counted_then) (simp_all add: design_fits_def map_plain)
qed

definition contract_read :: "design \<Rightarrow> design \<Rightarrow> design" where
  "contract_read g d = d\<lparr>g_contract := g_contract g, g_clocks := g_clocks g, g_states := map unreset (g_states g)\<rparr>"

lemma contract_read_contract: "g_contract (contract_read g d) = g_contract g"
  by (simp add: contract_read_def)

lemma contract_code [simp]: "contract_of_code (contract_code c) = c"
  by (cases c; simp add: contract_code_def contract_of_code_def)

lemma bare_unreset: "state_clock st = -1 \<Longrightarrow> \<not> state_falling st \<Longrightarrow> bare_state st = unreset st"
  by (cases st) (simp add: bare_state_def unreset_def)

lemma reads_contract:
  assumes g: "design_fits g" and v: "validateClocks g = Inr ()"
    and d: "g_states d = map bare_state (g_states g)" "g_clocks d = []"
  shows "reads (load_contract d) (contract_read g d) (save_contract g)"
proof (cases "g_contract g = NamedEdges")
  case False
  then have "g_clocks g = []" and "\<forall>st \<in> set (g_states g). state_clock st = -1 \<and> \<not> state_falling st"
    using v by (simp_all add: validateClocks_def)
  then have e: "d\<lparr>g_contract := g_contract g\<rparr> = contract_read g d"
    using d by (simp add: contract_read_def bare_unreset)
  have small: "\<not> 2 < contract_code (g_contract g)" "contract_code (g_contract g) < 2 ^ 32"
    by (cases "g_contract g"; simp add: contract_code_def)+
  have "reads (load_contract d) (contract_read g d) (''clock_contract'' @ '' '' @ nat_string (contract_code (g_contract g)) @ newline)"
    unfolding load_contract_def using False small
    by (intro word_then unsigned_last tag_chars) (simp_all add: Let_def e reads_yields contract_read_contract)
  then show ?thesis
    using False by (simp add: save_contract_def)
next
  case True
  have c: "\<not> 2 < contract_code NamedEdges" "contract_code NamedEdges < 2 ^ 32"
    by (simp_all add: contract_code_def)
  let ?edges = "concat (map (\<lambda>st. save_edge (state_clock st, state_falling st)) (g_states g))"
  let ?d = "d\<lparr>g_contract := NamedEdges\<rparr>"
  have edges: "reads (after_reading (read_each (\<lambda>st. read_edge (\<lambda>clock falling. st\<lparr>state_clock := clock, state_falling := falling\<rparr>)) (g_states d)) f) y
      (concat (map (\<lambda>st. save_edge (state_clock st, state_falling st)) (map unreset (g_states g))))"
    if "f (map unreset (g_states g)) = yields y" for f and y :: design
  proof (rule each_last)
    show "reads (read_edge (\<lambda>clock falling. (g_states d ! i)\<lparr>state_clock := clock, state_falling := falling\<rparr>)) (map unreset (g_states g) ! i)
        (save_edge (state_clock (map unreset (g_states g) ! i), state_falling (map unreset (g_states g) ! i)))" if "i < length (g_states d)" for i
      using that g d(1) by (intro edge_read)
        (auto simp: design_fits_def list_all_length state_fits_def bare_state_def unreset_def)
  qed (use d(1) that in simp_all)
  have "map (\<lambda>st. save_edge (state_clock st, state_falling st)) (map unreset (g_states g)) = map (\<lambda>st. save_edge (state_clock st, state_falling st)) (g_states g)"
    by (simp add: unreset_def)
  note edges = edges [unfolded this]
  have "reads (load_contract d) (contract_read g d)
      (''clock_contract'' @ '' '' @ nat_string (contract_code NamedEdges) @ newline @ nat_string (length (g_clocks g)) @ newline @
       concat (map save_clock (g_clocks g)) @ ?edges)"
    unfolding load_contract_def
  proof (intro word_then unsigned_then tag_chars)
    have "reads (after_reading (read_unsigned 64) (\<lambda>count.
         if 1024 < count then rejects (Graph_error ''too many graph clocks'')
         else after_reading (read_times count read_clock) (\<lambda>clocks.
           after_reading (read_each (\<lambda>st. read_edge (\<lambda>clock falling. st\<lparr>state_clock := clock, state_falling := falling\<rparr>)) (g_states d)) (\<lambda>states.
             yields (?d\<lparr>g_clocks := clocks, g_states := states\<rparr>))))) (contract_read g d)
        (nat_string (length (g_clocks g)) @ newline @ concat (map save_clock (g_clocks g)) @ ?edges)"
    proof (intro unsigned_then)
      have "reads (after_reading (read_times (length (g_clocks g)) read_clock) (\<lambda>clocks.
           after_reading (read_each (\<lambda>st. read_edge (\<lambda>clock falling. st\<lparr>state_clock := clock, state_falling := falling\<rparr>)) (g_states d)) (\<lambda>states.
             yields (?d\<lparr>g_clocks := clocks, g_states := states\<rparr>)))) (contract_read g d)
         (concat (map save_clock (g_clocks g)) @ ?edges)"
        by (rule reads_after [OF clock_format.reads_records edges]) (use g True in \<open>simp_all add: design_fits_def contract_read_def\<close>)
      then show "reads (if 1024 < length (g_clocks g) then rejects (Graph_error ''too many graph clocks'')
         else after_reading (read_times (length (g_clocks g)) read_clock) (\<lambda>clocks.
           after_reading (read_each (\<lambda>st. read_edge (\<lambda>clock falling. st\<lparr>state_clock := clock, state_falling := falling\<rparr>)) (g_states d)) (\<lambda>states.
             yields (?d\<lparr>g_clocks := clocks, g_states := states\<rparr>)))) (contract_read g d)
         (concat (map save_clock (g_clocks g)) @ ?edges)"
        using g by (simp add: design_fits_def)
    qed (use g in \<open>simp_all add: design_fits_def\<close>)
    then show "reads (if ''clock_contract'' \<noteq> ''clock_contract'' \<or> 2 < contract_code NamedEdges then rejects (Graph_error ''invalid graph clock contract'')
       else let g = d\<lparr>g_contract := contract_of_code (contract_code NamedEdges)\<rparr> in
         if g_contract g = NamedEdges
         then after_reading (read_unsigned 64) (\<lambda>count.
           if 1024 < count then rejects (Graph_error ''too many graph clocks'')
           else after_reading (read_times count read_clock) (\<lambda>clocks.
             after_reading (read_each (\<lambda>st. read_edge (\<lambda>clock falling. st\<lparr>state_clock := clock, state_falling := falling\<rparr>)) (g_states g)) (\<lambda>states.
               yields (g\<lparr>g_clocks := clocks, g_states := states\<rparr>))))
         else yields g) (contract_read g d)
        (nat_string (length (g_clocks g)) @ newline @ concat (map save_clock (g_clocks g)) @ ?edges)"
      using c by (simp add: Let_def cong: if_cong)
  qed (use c in simp_all)
  then show ?thesis
    using True by (simp add: save_contract_def counted_def)
qed

definition bare_edges :: "gaccess list \<Rightarrow> string" where
  "bare_edges as = concat (map (\<lambda>a. save_edge (access_clock a, access_falling a)) as)"

lemma reads_events:
  assumes g: "design_fits g"
    and d: "g_states d = map unreset (g_states g)" "g_accesses d = map plain_access (g_accesses g)" "g_writes d = map plain_write (g_writes g)"
  shows "reads (load_events d) (d\<lparr>g_states := g_states g, g_accesses := g_accesses g, g_writes := g_writes g\<rparr>) (save_events g)"
proof -
  have "reads (load_events d) (d\<lparr>g_states := g_states g, g_accesses := g_accesses g, g_writes := g_writes g\<rparr>)
      (''events_v1'' @ newline @
       concat (map (\<lambda>st. valueText (state_reset st) @ valueText (state_resetValue st) @ newline) (g_states g)) @
       concat (map (\<lambda>a. save_edge (access_clock a, access_falling a)) (g_accesses g)) @
       concat (map (\<lambda>w. save_edge (write_clock w, write_falling w)) (g_writes g)))"
    unfolding load_events_def
  proof (intro tagged_then each_then each_last tag_chars)
    show "reads (read_reset (g_states d ! i)) (g_states g ! i)
        (valueText (state_reset (g_states g ! i)) @ valueText (state_resetValue (g_states g ! i)) @ newline)"
      if "i < length (g_states d)" for i
      unfolding read_reset_def using that g d(1) by (intro value_then reads_end)
        (auto simp: design_fits_def list_all_length state_fits_def unreset_def)
    show "reads (read_edge (\<lambda>clock falling. (g_accesses d ! i)\<lparr>access_clock := clock, access_falling := falling\<rparr>)) (g_accesses g ! i)
        (save_edge (access_clock (g_accesses g ! i), access_falling (g_accesses g ! i)))" if "i < length (g_accesses d)" for i
      using that g d(2) by (intro edge_read) (auto simp: design_fits_def list_all_length access_fits_def plain_access_def)
    show "reads (read_edge (\<lambda>clock falling. (g_writes d ! i)\<lparr>write_clock := clock, write_falling := falling\<rparr>)) (g_writes g ! i)
        (save_edge (write_clock (g_writes g ! i), write_falling (g_writes g ! i)))" if "i < length (g_writes d)" for i
      using that g d(3) by (intro edge_read) (auto simp: design_fits_def list_all_length write_fits_def plain_write_def)
  qed (simp_all add: d)
  then show ?thesis
    by (simp add: save_events_def)
qed

lemma reads_scopes:
  assumes g: "design_fits g" and d: "g_nodes d = map plain_node (g_nodes g)"
  shows "reads (load_scopes d) (d\<lparr>g_nodes := g_nodes g, d_attributes := d_attributes g\<rparr>) (save_scopes g)"
proof -
  have "reads (after_reading (read_counted read_attribute) f) y (counted save_attribute (d_attributes g))"
    if "f (d_attributes g) = yields y" for f and y :: design
    by (rule reads_last [where f = f, OF attribute_format.reads_counted]) (use g that in \<open>simp_all add: design_fits_def list_all_iff\<close>)
  then have "reads (load_scopes d) (d\<lparr>g_nodes := g_nodes g, d_attributes := d_attributes g\<rparr>)
      (''scopes_v1'' @ newline @ concat (map (\<lambda>n. quoted (n_scope n) @ newline) (g_nodes g)) @ counted save_attribute (d_attributes g))"
    unfolding load_scopes_def
  proof (intro tagged_then each_then tag_chars)
    show "reads (after_reading read_quoted (\<lambda>scope. yields ((g_nodes d ! i)\<lparr>n_scope := scope\<rparr>))) (g_nodes g ! i)
        (quoted (n_scope (g_nodes g ! i)) @ newline)" if "i < length (g_nodes d)" for i
      using that d by (intro reads_fields) (simp_all add: plain_node_def)
  qed (simp_all add: d)
  then show ?thesis
    by (simp add: save_scopes_def)
qed

lemma reads_streams:
  assumes g: "design_fits g"
  shows "reads (load_streams d) (d\<lparr>d_pipelines := d_pipelines g\<rparr>) (save_streams g)"
proof -
  have "reads (after_reading (read_times (length (d_pipelines g)) read_pipeline) f) y (concat (map save_pipeline (d_pipelines g)))"
    if "f (d_pipelines g) = yields y" for f and y :: design
    by (rule reads_last [where f = f, OF pipeline_format.reads_records]) (use g that in \<open>simp_all add: design_fits_def\<close>)
  then have "reads (load_streams d) (d\<lparr>d_pipelines := d_pipelines g\<rparr>)
      (''streams_v1'' @ newline @ nat_string (length (d_pipelines g)) @ newline @ concat (map save_pipeline (d_pipelines g)))"
    unfolding load_streams_def using g by (intro tagged_then unsigned_then tag_chars) (simp_all add: design_fits_def)
  then show ?thesis
    by (simp add: save_streams_def counted_def)
qed

lemma reads_load_roms:
  assumes g: "design_fits g" and d: "g_memories d = map cleared (g_memories g)"
  shows "reads (load_roms d) (d\<lparr>g_memories := g_memories g\<rparr>) (save_roms g)"
proof -
  have "length (filter (\<lambda>m. memory_contents m \<noteq> []) (g_memories g)) \<le> length (g_memories g)"
    by (rule length_filter_le)
  then have count: "\<not> length (g_memories g) < length (filter (\<lambda>m. memory_contents m \<noteq> []) (g_memories g))"
    "length (filter (\<lambda>m. memory_contents m \<noteq> []) (g_memories g)) < 2 ^ 64"
    using g unfolding design_fits_def by linarith+
  have "reads (read_roms (length (filter (\<lambda>m. memory_contents m \<noteq> []) (g_memories g))) (g_memories d)) (g_memories g)
      (concat (map save_rom (zip [0..<length (g_memories g)] (g_memories g))))"
    using reads_roms [of "g_memories g" "[]"] g by (simp add: design_fits_def list_all_iff memory_fits_def d)
  then have "reads (after_reading (read_roms (length (filter (\<lambda>m. memory_contents m \<noteq> []) (g_memories g))) (g_memories d))
        (\<lambda>memories. yields (d\<lparr>g_memories := memories\<rparr>))) (d\<lparr>g_memories := g_memories g\<rparr>)
      (concat (map save_rom (zip [0..<length (g_memories g)] (g_memories g))))"
    by (rule reads_last) simp
  then have "reads (load_roms d) (d\<lparr>g_memories := g_memories g\<rparr>)
      (''roms_v1'' @ '' '' @ nat_string (length (filter (\<lambda>m. memory_contents m \<noteq> []) (g_memories g))) @ newline @
       concat (map save_rom (zip [0..<length (g_memories g)] (g_memories g))))"
    unfolding load_roms_def using g count d by (intro word_then unsigned_then tag_chars) (simp_all add: design_fits_def)
  then show ?thesis
    by (simp add: save_roms_def)
qed

lemma reads_replacements:
  assumes g: "design_fits g" and ne: "d_replacements g \<noteq> []"
  shows "reads (load_replacements d) (d\<lparr>d_replacements := d_replacements g\<rparr>) (save_replacements g)"
proof -
  have "reads (after_reading (read_times (length (d_replacements g)) read_replacement) f) y (concat (map save_replacement (d_replacements g)))"
    if "f (d_replacements g) = yields y" for f and y :: design
    by (rule reads_last [where f = f, OF replacement_format.reads_records]) (use g that in \<open>simp_all add: design_fits_def\<close>)
  then have "reads (load_replacements d) (d\<lparr>d_replacements := d_replacements g\<rparr>)
      (''replacements_v1'' @ '' '' @ nat_string (length (d_replacements g)) @ newline @ concat (map save_replacement (d_replacements g)))"
    unfolding load_replacements_def using g by (intro word_then unsigned_then tag_chars) (simp_all add: design_fits_def)
  then show ?thesis
    using ne by (simp add: save_replacements_def)
qed

section \<open>The whole text\<close>

text \<open>A text that is left with white space only.\<close>

definition finishes :: "'a reader \<Rightarrow> 'a \<Rightarrow> string \<Rightarrow> bool" where
  "finishes p x t \<longleftrightarrow> (\<forall>lead. list_all isspace lead \<longrightarrow> (\<exists>s. p \<lparr>chars = lead @ t, eof = False\<rparr> = Inr (x, s)))"

lemma finishes_after:
  assumes "reads p x t1" and "finishes (f x) y t2"
  shows "finishes (after_reading p f) y (t1 @ t2)"
  unfolding finishes_def
proof (intro allI impI)
  fix lead
  assume "list_all isspace lead"
  then obtain t where "list_all isspace t" and "p \<lparr>chars = lead @ t1 @ t2, eof = False\<rparr> = Inr (x, \<lparr>chars = t @ t2, eof = False\<rparr>)"
    using assms(1) unfolding reads_def by blast
  with assms(2) show "\<exists>s. after_reading p f \<lparr>chars = lead @ t1 @ t2, eof = False\<rparr> = Inr (y, s)"
    by (auto simp: finishes_def after_reading_def)
qed

lemma skip_space_text:
  assumes "list_all isspace lead" and "t \<noteq> []" and "\<not> isspace (hd t)"
  shows "skip_space \<lparr>chars = lead @ t, eof = False\<rparr> = Inr ((), \<lparr>chars = t, eof = False\<rparr>)"
  using assms span_append(2) [of isspace lead t] by (simp add: skip_space_def)

lemma finishes_skip:
  assumes "finishes p x t" and "t \<noteq> []" and "\<not> isspace (hd t)"
  shows "finishes (after_reading skip_space (\<lambda>_. p)) x t"
  using assms(1) skip_space_text [OF _ assms(2,3)] unfolding finishes_def after_reading_def
  by (auto dest: spec [of _ "[]"])

lemma finishes_if_more: "finishes (p g) x t \<Longrightarrow> finishes (if_more p g) x t"
  by (simp add: finishes_def if_more_def)

lemma reads_if_more: "reads (p g) x t \<Longrightarrow> reads (if_more p g) x t"
  by (simp add: reads_def if_more_def)

lemma reads_skip:
  assumes "reads p x t" and "t \<noteq> []" and "\<not> isspace (hd t)"
  shows "reads (after_reading skip_space (\<lambda>_. p)) x t"
  unfolding reads_def
proof (intro allI impI)
  fix lead rest
  assume "list_all isspace lead"
  then have "skip_space \<lparr>chars = lead @ t @ rest, eof = False\<rparr> = Inr ((), \<lparr>chars = t @ rest, eof = False\<rparr>)"
    using assms(2,3) by (intro skip_space_text) simp_all
  then show "\<exists>trail. list_all isspace trail \<and>
      after_reading skip_space (\<lambda>_. p) \<lparr>chars = lead @ t @ rest, eof = False\<rparr> = Inr (x, \<lparr>chars = trail @ rest, eof = False\<rparr>)"
    using assms(1) by (auto simp: reads_def after_reading_def dest: spec [of _ "[]"])
qed

lemma reads_optional:
  assumes "reads (p g) x t" and "t \<noteq> []" and "\<not> isspace (hd t)"
  shows "reads (optional p g) x t"
proof -
  have "reads (after_reading skip_space (\<lambda>_. if_more p g)) x t"
    using assms by (intro reads_skip reads_if_more)
  then show ?thesis
    by (simp add: reads_def optional_def)
qed

lemma finishes_optional_none: "finishes (after_reading (optional p g) f) x []" if "\<And>s. f g s = Inr (x, s)"
proof -
  have "dropWhile isspace lead = []" if "list_all isspace lead" for lead
    using that by (simp add: list_all_iff)
  then show ?thesis
    by (auto simp: finishes_def after_reading_def optional_def skip_space_def if_more_def that)
qed

lemma section_heads:
  "save_contract g \<noteq> [] \<and> \<not> isspace (hd (save_contract g))" "save_events g \<noteq> [] \<and> \<not> isspace (hd (save_events g))"
  "save_scopes h \<noteq> [] \<and> \<not> isspace (hd (save_scopes h))" "save_streams h \<noteq> [] \<and> \<not> isspace (hd (save_streams h))"
  "save_roms g \<noteq> [] \<and> \<not> isspace (hd (save_roms g))"
  "d_replacements h \<noteq> [] \<Longrightarrow> save_replacements h \<noteq> [] \<and> \<not> isspace (hd (save_replacements h))"
  by (simp_all add: save_contract_def save_events_def save_scopes_def save_streams_def save_roms_def save_replacements_def isspace_def)

lemma counted_head: "counted w xs @ t \<noteq> [] \<and> \<not> isspace (hd (counted w xs @ t))"
  using nat_string_ne [of "length xs"] digit_not_space [OF nat_string_hd [of "length xs"]]
  by (simp add: counted_def hd_append)

lemma append_head: "a \<noteq> [] \<and> \<not> isspace (hd a) \<Longrightarrow> a @ b \<noteq> [] \<and> \<not> isspace (hd (a @ b))"
  by (cases a) simp_all

lemma finishes_skip_reads:
  assumes "reads p x t" and "t \<noteq> [] \<and> \<not> isspace (hd t)" and "finishes (f x) y u"
  shows "finishes (after_reading skip_space (\<lambda>_. after_reading p f)) y (t @ u)"
  using append_head [OF assms(2)] by (intro finishes_skip finishes_after [where f = f, OF assms(1,3)]) simp_all

lemma reads_optional_head: "reads (p g) x t \<Longrightarrow> t \<noteq> [] \<and> \<not> isspace (hd t) \<Longrightarrow> reads (optional p g) x t"
  using reads_optional by blast

lemma finishes_replacements:
  assumes g: "design_fits g" and d: "d_replacements d = []" and v: "validateClocks (d\<lparr>d_replacements := d_replacements g\<rparr>) = Inr ()"
  shows "finishes (after_reading (optional load_replacements d) (\<lambda>g. case validateClocks g of Inl e \<Rightarrow> rejects e | Inr u \<Rightarrow> yields g))
    (d\<lparr>d_replacements := d_replacements g\<rparr>) (save_replacements g)"
proof (cases "d_replacements g = []")
  case True
  then have "d\<lparr>d_replacements := d_replacements g\<rparr> = d"
    using d by (cases d) simp
  then show ?thesis
    using True v by (auto simp: save_replacements_def yields_def intro!: finishes_optional_none)
next
  case False
  have "finishes (case validateClocks (d\<lparr>d_replacements := d_replacements g\<rparr>) of Inl e \<Rightarrow> rejects e
      | Inr u \<Rightarrow> yields (d\<lparr>d_replacements := d_replacements g\<rparr>)) (d\<lparr>d_replacements := d_replacements g\<rparr>) []"
    unfolding v sum.case by (simp add: finishes_def yields_def)
  with reads_optional_head [OF reads_replacements [OF g False] section_heads(6) [OF False]]
  have "finishes (after_reading (optional load_replacements d) (\<lambda>g. case validateClocks g of Inl e \<Rightarrow> rejects e | Inr u \<Rightarrow> yields g))
    (d\<lparr>d_replacements := d_replacements g\<rparr>) (save_replacements g @ [])"
    by (rule finishes_after)
  then show ?thesis
    by simp
qed

lemma validate_scope: "validateClocks (g\<lparr>g_scope := s\<rparr>) = validateClocks g"
  unfolding validateClocks_def by simp

lemma finishes_sections:
  assumes g: "design_fits g" and v: "validateClocks g = Inr ()"
    and d: "g_nodes d = map plain_node (g_nodes g)" "g_states d = map bare_state (g_states g)" "g_clocks d = []"
      "g_aliases d = g_aliases g" "g_ports d = g_ports g" "d_replacements d = []" "g_scope d = []"
  shows "finishes (load_sections d) (g\<lparr>g_scope := []\<rparr>)
    ((counted save_memory (g_memories g) @ counted save_access (g_accesses g) @ counted save_write (g_writes g)) @
     save_contract g @ save_events g @ save_scopes g @ save_streams g @ save_roms g @ save_replacements g)"
proof -
  define d1 where "d1 = d\<lparr>g_memories := map cleared (g_memories g), g_accesses := map plain_access (g_accesses g),
    g_writes := map plain_write (g_writes g)\<rparr>"
  define d2 where "d2 = contract_read g d1"
  define d3 where "d3 = d2\<lparr>g_states := g_states g, g_accesses := g_accesses g, g_writes := g_writes g\<rparr>"
  define d4 where "d4 = d3\<lparr>g_nodes := g_nodes g, d_attributes := d_attributes g\<rparr>"
  define d5 where "d5 = d4\<lparr>d_pipelines := d_pipelines g\<rparr>"
  define d6 where "d6 = d5\<lparr>g_memories := g_memories g\<rparr>"
  note defs = d1_def d2_def d3_def d4_def d5_def d6_def contract_read_def
  have "d6\<lparr>d_replacements := d_replacements g\<rparr> = g\<lparr>g_scope := []\<rparr>"
    using d unfolding defs by (cases g) (cases d, simp)
  note final = this
  have valid: "validateClocks (d6\<lparr>d_replacements := d_replacements g\<rparr>) = Inr ()"
    unfolding final validate_scope by (rule v)
  have r1: "reads (load_memories d) d1 (counted save_memory (g_memories g) @ counted save_access (g_accesses g) @ counted save_write (g_writes g))"
    unfolding d1_def by (rule reads_memories [OF g])
  have r2: "reads (if_more load_contract d1) d2 (save_contract g)"
    unfolding d2_def by (intro reads_if_more reads_contract g v) (simp_all add: d1_def d)
  have r3: "reads (optional load_events d2) d3 (save_events g)"
    unfolding d3_def by (intro reads_optional_head reads_events g section_heads) (simp_all add: defs)
  have r4: "reads (optional load_scopes d3) d4 (save_scopes g)"
    unfolding d4_def by (intro reads_optional_head reads_scopes g section_heads) (simp_all add: defs d)
  have r5: "reads (optional load_streams d4) d5 (save_streams g)"
    unfolding d5_def by (intro reads_optional_head reads_streams g section_heads)
  have r6: "reads (optional load_roms d5) d6 (save_roms g)"
    unfolding d6_def by (intro reads_optional_head reads_load_roms g section_heads) (simp_all add: defs)
  have r7: "finishes (after_reading (optional load_replacements d6) (\<lambda>g. case validateClocks g of Inl e \<Rightarrow> rejects e | Inr u \<Rightarrow> yields g))
    (g\<lparr>g_scope := []\<rparr>) (save_replacements g)"
    using finishes_replacements [OF g _ valid] d(6) unfolding final by (simp add: defs)
  show ?thesis
    unfolding load_sections_def
    by (rule finishes_after [OF r1], rule finishes_skip_reads [OF r2 section_heads(1)], rule finishes_after [OF r3],
        rule finishes_after [OF r4], rule finishes_after [OF r5], rule finishes_after [OF r6], rule r7)
qed

lemma finishes_design:
  assumes "design_fits g" and "validateClocks g = Inr ()"
  shows "load (save g) = Inr (g\<lparr>g_scope := []\<rparr>)"
proof -
  let ?d = "empty_design\<lparr>g_nodes := map plain_node (g_nodes g), g_aliases := g_aliases g, g_ports := g_ports g, g_states := map bare_state (g_states g)\<rparr>"
  let ?t = "(counted save_memory (g_memories g) @ counted save_access (g_accesses g) @ counted save_write (g_writes g)) @
     save_contract g @ save_events g @ save_scopes g @ save_streams g @ save_roms g @ save_replacements g"
  have sections: "finishes (if_more load_sections ?d) (g\<lparr>g_scope := []\<rparr>) ?t"
    using assms by (intro finishes_if_more finishes_sections) (simp_all add: empty_design_def)
  have head: "?t \<noteq> [] \<and> \<not> isspace (hd ?t)"
    unfolding append_assoc by (rule counted_head)
  have nodes: "reads (read_counted read_node) (map plain_node (g_nodes g)) (counted save_node (g_nodes g))"
    using node_format.reads_counted [of "g_nodes g"] assms(1) by (simp add: map_plain design_fits_def)
  have aliases: "reads (after_reading (read_unsigned 64) (\<lambda>count. read_aliases count fmempty)) (g_aliases g) (counted save_alias (entries (g_aliases g)))"
  proof -
    have "\<forall>e \<in> set (entries (g_aliases g)). fst e < 2 ^ 64 \<and> snd e < 2 ^ 64"
      using assms(1) unfolding design_fits_def set_entries by auto
    from reads_aliases [OF this entries_distinct, of fmempty]
    have "reads (read_aliases (length (entries (g_aliases g))) fmempty) (g_aliases g) (concat (map save_alias (entries (g_aliases g))))"
      by (simp add: fold_entries)
    then show ?thesis
      unfolding counted_def using assms(1) by (intro unsigned_then) (simp_all add: length_entries design_fits_def)
  qed
  have ports: "reads (read_counted read_port) (g_ports g) (counted save_port (g_ports g))"
    using port_format.reads_counted [of "g_ports g"] assms(1) by (simp add: design_fits_def)
  have states: "reads (read_counted read_state) (map bare_state (g_states g)) (counted save_state (g_states g))"
    using state_format.reads_counted [of "g_states g"] assms(1) by (simp add: design_fits_def)
  have "finishes load_reader (g\<lparr>g_scope := []\<rparr>) (counted save_node (g_nodes g) @ counted save_alias (entries (g_aliases g)) @
      counted save_port (g_ports g) @ counted save_state (g_states g) @ ?t)"
    unfolding load_reader_def
    by (rule finishes_after [OF nodes], rule finishes_after [OF aliases], rule finishes_after [OF ports],
        rule finishes_after [OF states], rule finishes_skip [OF sections]) (use head in blast)+
  then have "finishes load_reader (g\<lparr>g_scope := []\<rparr>) (save g)"
    by (simp add: save_def)
  then obtain s where "load_reader \<lparr>chars = save g, eof = False\<rparr> = Inr (g\<lparr>g_scope := []\<rparr>, s)"
    unfolding finishes_def by (auto dest: spec [of _ "[]"])
  then show ?thesis
    by (simp add: load_def)
qed

text \<open>
  C9: The text that \<open>save\<close> writes of a graph is loaded back as the same graph: nodes with their
  scopes, aliases, ports, states with their clocks and resets, memories with their contents,
  accesses, attributes, streaming regions and replacements. The graph's numbers must fit the
  types they are read into and it must pass \<open>validateClocks\<close>; only the scope that new nodes get
  is not saved.
\<close>

theorem load_save_roundtrip:
  assumes "design_fits g" and "validateClocks g = Inr ()"
  shows "load (save g) = Inr (g\<lparr>g_scope := []\<rparr>)"
  using assms by (rule finishes_design)

definition small_design :: design where
  "small_design = empty_design\<lparr>
     g_contract := NamedEdges, g_clocks := [\<lparr>clock_name = ''clk'', clock_frequency = 1000\<rparr>],
     g_nodes := [\<lparr>n_op = ''input'', n_width = 2, n_left = [], n_right = [], n_select = [], n_name = ''a b'', n_scope = ''top''\<rparr>,
                 \<lparr>n_op = ''state'', n_width = 1, n_left = [], n_right = [], n_select = [], n_name = ''q'', n_scope = []\<rparr>],
     g_aliases := fmupd 67 66 fmempty,
     g_ports := [\<lparr>port_name = [CHR 0x22], port_bits = [66], port_input = True\<rparr>],
     g_states := [\<lparr>state_bits = [130], state_next = [67], state_trigger = [1], state_clock = 0, state_falling = True,
                    state_reset = [66], state_resetValue = [0]\<rparr>],
     g_memories := [\<lparr>memory_name = ''rom'', memory_width = 2, memory_depth = 2, memory_contents = [3, 1]\<rparr>],
     d_attributes := [\<lparr>attr_scope = ''top'', attr_name = ''keep'', attr_value = []\<rparr>]\<rparr>"

lemma small_design_valid: "design_fits small_design" "validateClocks small_design = Inr ()"
  by (simp_all add: design_fits_def small_design_def empty_design_def node_fits_def state_fits_def memory_fits_def value_ok_def
      validateClocks_def check_reset_def check_memory_def check_memory_clock_def check_clock_def reserved_name_def isalpha_def
      graph_mask_def Let_def fcard.rep_eq)

theorem load_save_roundtrip_witness:
  "load (save small_design) = Inr small_design \<and> memory_contents (hd (g_memories small_design)) = [3, 1]"
proof -
  have "small_design\<lparr>g_scope := []\<rparr> = small_design"
    by (simp add: small_design_def empty_design_def)
  then show ?thesis
    using load_save_roundtrip [OF small_design_valid] by (simp add: small_design_def)
qed

text \<open>What holds of every value that a reader returns.\<close>

definition gives :: "('a \<Rightarrow> bool) \<Rightarrow> 'a reader \<Rightarrow> bool" where
  "gives P p \<longleftrightarrow> (\<forall>s x s'. p s = Inr (x, s') \<longrightarrow> P x)"

lemma gives_after: "gives Q p \<Longrightarrow> (\<And>x. Q x \<Longrightarrow> gives P (f x)) \<Longrightarrow> gives P (after_reading p f)"
  unfolding gives_def after_reading_def by (fastforce split: sum.splits)

lemma gives_any: "gives (\<lambda>_. True) p"
  by (simp add: gives_def)

lemma gives_yields: "P x \<Longrightarrow> gives P (yields x)"
  by (simp add: gives_def yields_def)

lemma gives_rejects: "gives P (rejects e)"
  by (simp add: gives_def rejects_def)

lemma gives_counted:
  assumes "gives P p"
  shows "gives (list_all P) (read_counted p)"
proof -
  have "gives (list_all P) (read_times n p)" for n
    by (induction n) (auto intro!: gives_yields gives_after [OF assms] gives_after)
  then show ?thesis
    unfolding read_counted_def by (intro gives_after [OF gives_any])
qed

text \<open>
  C10: Every graph that loads has passed the checks of \<open>validateClocks\<close>, also one of an older
  record, which ends before the sections that carry clocks and memories.
\<close>

theorem load_validates:
  assumes "load record_text = Inr g"
  shows "validateClocks g = Inr ()"
proof -
  have sections: "gives (\<lambda>g. validateClocks g = Inr ()) (load_sections d)" for d
    unfolding load_sections_def
    by (intro gives_after [OF gives_any]) (auto split: sum.split intro: gives_rejects gives_yields)
  have states: "gives (list_all (\<lambda>st. state_reset st = [] \<and> state_clock st = -1 \<and> \<not> state_falling st)) (read_counted read_state)"
    unfolding read_state_def by (intro gives_counted gives_after [OF gives_any] gives_yields) simp
  have "gives (\<lambda>g. validateClocks g = Inr ()) (if_more load_sections (empty_design\<lparr>g_nodes := n, g_aliases := a, g_ports := p, g_states := st\<rparr>))"
    if "list_all (\<lambda>st. state_reset st = [] \<and> state_clock st = -1 \<and> \<not> state_falling st) st" for n a p st
  proof -
    have "validateClocks (empty_design\<lparr>g_nodes := n, g_aliases := a, g_ports := p, g_states := st\<rparr>) = Inr ()"
      using that by (simp add: validateClocks_def empty_design_def check_reset_def list_all_iff)
    then show ?thesis
      using sections by (auto simp: gives_def if_more_def)
  qed
  then have "gives (\<lambda>g. validateClocks g = Inr ()) load_reader"
    unfolding load_reader_def
    by (intro gives_after [OF gives_any] gives_after [OF states]) auto
  then show ?thesis
    using assms by (auto simp: load_def gives_def split: sum.splits)
qed

theorem load_validates_witness:
  "load (save small_design) = Inr small_design \<and> validateClocks small_design = Inr ()"
proof -
  have "small_design\<lparr>g_scope := []\<rparr> = small_design"
    by (simp add: small_design_def empty_design_def)
  then have "load (save small_design) = Inr small_design"
    using finishes_design [OF small_design_valid] by simp
  then show ?thesis
    using load_validates by blast
qed

end
