(* ===== verification/GraphPrune.thy ===== *)
theory GraphPrune
  imports GraphOps GraphValidate
begin

text \<open>
  \<open>connect\<close> and \<open>pruneUnusedState\<close> of the class \<open>Graph\<close>. Connecting adds the equations of its
  bits to the models, or throws for a second driver. Pruning marks what the outputs, memories and
  host effects of a graph depend on over all later cycles, with a stack of nodes to visit, and
  removes the state groups that nothing marked needs.
\<close>

section \<open>Connections\<close>

text \<open>\<open>std::to_string(lane(bit))\<close>, where the subtraction of 2 wraps around for the constants.\<close>

definition lane_text :: "gbit \<Rightarrow> string" where
  "lane_text b = nat_string (if b < 2 then 62 + b else lane b)"

definition driver_error :: "gbit \<Rightarrow> graph \<Rightarrow> gerror" where
  "driver_error b g =
     (if b < 2 then Runtime_error (''multiple drivers in native graph: constant bit '' @ lane_text b)
      else if owner b < length (g_nodes g)
      then Runtime_error (''multiple drivers in native graph: '' @ n_name (g_nodes g ! owner b) @ '' bit '' @ lane_text b)
      else Undefined_behaviour ''deque index'')"

fun connect_bits :: "(gbit \<times> gbit) list \<Rightarrow> unit gcomp" where
  "connect_bits [] g = Inr ((), g)"
| "connect_bits ((target, source) # bs) g =
     (if target < 2 \<or> fmlookup (g_aliases g) target \<noteq> None then Inl (driver_error target g)
      else connect_bits bs (if target \<noteq> source then g\<lparr>g_aliases := fmupd target source (g_aliases g)\<rparr> else g))"

definition connect :: "gvalue \<Rightarrow> gvalue \<Rightarrow> unit gcomp" where
  "connect target source g =
     (if length target \<noteq> length source then Inl (Runtime_error ''connection width mismatch'')
      else connect_bits (zip target source) g)"

section \<open>Unused state\<close>

record prune =
  p_live :: "bool list"
  p_states :: "bool list"
  p_pending :: "nat list"

text \<open>The stack \<open>pending\<close> has its top at the head of the list.\<close>

definition requireNode :: "nat \<Rightarrow> prune \<Rightarrow> prune gcomp" where
  "requireNode i p =
     (if i < length (p_live p)
      then gret (if \<not> p_live p ! i then p\<lparr>p_live := (p_live p)[i := True], p_pending := i # p_pending p\<rparr> else p)
      else gthrow (Undefined_behaviour ''vector index''))"

definition require_bit :: "gbit \<Rightarrow> prune \<Rightarrow> prune gcomp" where
  "require_bit raw p = gbind (resolve raw) (\<lambda>b. if 1 < b then requireNode (owner b) p else gret p)"

definition require :: "gvalue \<Rightarrow> prune \<Rightarrow> prune gcomp" where
  "require v p = gfold require_bit v p"

text \<open>The state groups with a bit of a node, \<open>owners[word]\<close>.\<close>

definition owned_words :: "gstate \<Rightarrow> nat set" where
  "owned_words st = owner ` set (filter (\<lambda>b. 1 < b) (state_bits st))"

definition state_owners :: "graph \<Rightarrow> nat \<Rightarrow> nat list" where
  "state_owners g word = filter (\<lambda>s. word \<in> owned_words (g_states g ! s)) [0..<length (g_states g)]"

definition require_state :: "nat \<Rightarrow> prune \<Rightarrow> prune gcomp" where
  "require_state s p g =
     (if p_states p ! s then Inr (p, g)
      else let st = g_states g ! s in
        gbind (require (state_next st) (p\<lparr>p_states := (p_states p)[s := True]\<rparr>)) (\<lambda>p.
        gbind (require (state_trigger st) p) (\<lambda>p. gbind (require (state_reset st) p) (\<lambda>p.
          require (state_resetValue st) p))) g)"

definition prune_visit :: "nat \<Rightarrow> prune \<Rightarrow> prune gcomp" where
  "prune_visit index p g =
     (let n = g_nodes g ! index in
      if n_op n = ''state'' then gfold require_state (state_owners g index) p g
      else if n_op n \<noteq> ''input''
      then gbind (require (n_left n) p) (\<lambda>p. gbind (require (n_right n) p) (\<lambda>p. require (n_select n) p)) g
      else Inr (p, g))"

text \<open>The outputs, the memory accesses and writes, and the nodes with effects of their own.\<close>

definition prune_roots :: "prune \<Rightarrow> prune gcomp" where
  "prune_roots p g =
     gbind (gfold (\<lambda>port p. if \<not> port_input port then require (port_bits port) p else gret p) (g_ports g) p) (\<lambda>p.
     gbind (gfold (\<lambda>a p. gbind (require (access_address a) p) (\<lambda>p. require (access_enabled a) p)) (g_accesses g) p) (\<lambda>p.
     gbind (gfold (\<lambda>w p. gbind (require (write_address w) p) (\<lambda>p. gbind (require (write_data w) p) (\<lambda>p.
         require (write_enabled w) p))) (g_writes g) p) (\<lambda>p.
       gfold (\<lambda>i p. if hostEffect (g_nodes g ! i) \<or> validation (g_nodes g ! i) then requireNode i p else gret p)
         [0..<length (g_nodes g)] p))) g"

text \<open>Each step pops a node; marking a node moves it from the unmarked ones to the stack.\<close>

definition weight :: "prune \<Rightarrow> nat" where
  "weight p = length (filter Not (p_live p)) + length (p_pending p)"

lemma mark_fewer: "i < length xs \<Longrightarrow> \<not> xs ! i \<Longrightarrow> Suc (length (filter Not (xs[i := True]))) = length (filter Not xs)"
  by (induction xs arbitrary: i) (auto simp: nth_Cons split: nat.splits)

lemma gfold_keeps:
  assumes "gfold f xs p g = Inr (q, h)" and "\<And>x p g q h. x \<in> set xs \<Longrightarrow> f x p g = Inr (q, h) \<Longrightarrow> (m q :: nat) = m p"
  shows "m q = m p"
  using assms
proof (induction xs arbitrary: p g)
  case (Cons x xs)
  then obtain p1 g1 where x: "f x p g = Inr (p1, g1)" and xs: "gfold f xs p1 g1 = Inr (q, h)"
    by (auto simp: gbind_Inr)
  have "m q = m p1"
    by (rule Cons.IH [OF xs Cons.prems(2) [OF list.set_intros(2)]])
  then show ?case
    using Cons.prems(2) [OF list.set_intros(1) x] by simp
qed simp

lemma require_weight: "require v p g = Inr (q, h) \<Longrightarrow> weight q = weight p"
  unfolding require_def
proof (erule gfold_keeps)
  fix b p g q h
  assume "require_bit b p g = Inr (q, h)"
  then show "weight q = weight p"
    using mark_fewer by (auto simp: require_bit_def requireNode_def gthrow_def gbind_Inr weight_def split: if_splits)
qed

lemma require_state_weight: "require_state s p g = Inr (q, h) \<Longrightarrow> weight q = weight p"
  by (auto simp: require_state_def Let_def gbind_Inr weight_def [of "p\<lparr>p_states := ps\<rparr>" for ps]
      weight_def [of p, symmetric] dest!: require_weight split: if_splits)

lemma prune_visit_weight: "prune_visit i p g = Inr (q, h) \<Longrightarrow> weight q = weight p"
  by (auto simp: prune_visit_def Let_def gbind_Inr split: if_splits dest!: require_weight
      elim!: gfold_keeps dest: require_state_weight)

function (sequential) prune_loop :: "prune \<Rightarrow> prune gcomp" where
  "prune_loop p g =
     (case p_pending p of
        [] \<Rightarrow> Inr (p, g)
      | index # rest \<Rightarrow>
          (case prune_visit index (p\<lparr>p_pending := rest\<rparr>) g of
             Inl e \<Rightarrow> Inl e
           | Inr (q, h) \<Rightarrow> prune_loop q h))"
  by pat_completeness auto
termination
proof (relation "measure (\<lambda>(p, g). weight p)")
  fix p :: prune and g h :: graph and index rest r q
  assume "p_pending p = index # rest" "prune_visit index (p\<lparr>p_pending := rest\<rparr>) g = Inr r" "(q, h) = r"
  then have "weight q < weight p"
    using prune_visit_weight [of index "p\<lparr>p_pending := rest\<rparr>" g q h] by (simp add: weight_def)
  then show "((q, h), p, g) \<in> measure (\<lambda>(p, g). weight p)"
    by simp
qed simp

declare prune_loop.simps [simp del]

text \<open>
  The vector \<open>owners\<close> is written at the owner of every state bit. The states that are marked move
  to the front, in their order.
\<close>

definition pruneUnusedState :: "design \<Rightarrow> gerror + nat \<times> design" where
  "pruneUnusedState d =
     (if g_states d = [] \<or> d_pipelines d \<noteq> [] then Inr (0, d)
      else if list_ex (\<lambda>st. \<exists>word \<in> owned_words st. length (g_nodes d) \<le> word) (g_states d)
      then Inl (Undefined_behaviour ''vector index'')
      else
        (case gbind (prune_roots \<lparr>p_live = replicate (length (g_nodes d)) False,
                  p_states = replicate (length (g_states d)) False, p_pending = []\<rparr>) prune_loop (graph.truncate d) of
           Inl e \<Rightarrow> Inl e
         | Inr (p, g) \<Rightarrow>
             let retained = map fst (filter snd (zip (g_states d) (p_states p)))
             in Inr (length (g_states d) - length retained, d\<lparr>g_aliases := g_aliases g, g_states := retained\<rparr>)))"

section \<open>What pruning marks\<close>

text \<open>The unaliased bit that carries the value of a bit in every model.\<close>

definition carries :: "(gbit, gbit) fmap \<Rightarrow> gbit \<Rightarrow> gbit \<Rightarrow> bool" where
  "carries al b c \<longleftrightarrow> c \<notin> fmdom' al \<and> (\<forall>v. agrees al v \<longrightarrow> v c = v b)"

lemma resolve_carries:
  assumes "resolve b g1 = Inr (c, g2)" and "compressed g g1"
  shows "carries (g_aliases g) b c" "compressed g g2"
proof -
  obtain p where p: "resolve_loop (g_aliases g1) b [] = Inr (c, p)"
    using assms(1) by (auto simp: resolve_def split: sum.splits)
  have "fmlookup (g_aliases g1) c = None"
    using resolve_loop_path [OF p] by simp
  then have "c \<notin> fmdom' (g_aliases g1)"
    by (simp add: fmlookup_dom'_iff)
  then have "c \<notin> fmdom' (g_aliases g)"
    using compressed_fields(5) [OF assms(2)] by (simp add: same_aliases_def)
  then show "carries (g_aliases g) b c"
    using resolve_value [OF assms(1)] compressed_fields(4) [OF assms(2)] by (simp add: carries_def)
  show "compressed g g2"
    by (rule compressed_trans [OF assms(2) resolve_compressed [OF assms(1)]])
qed

definition marked :: "bool list \<Rightarrow> nat \<Rightarrow> bool" where
  "marked bs i \<longleftrightarrow> i < length bs \<and> bs ! i"

definition seen :: "graph \<Rightarrow> prune \<Rightarrow> gvalue \<Rightarrow> bool" where
  "seen g p bs \<longleftrightarrow> (\<forall>b \<in> set bs. \<exists>c. carries (g_aliases g) b c \<and> (1 < c \<longrightarrow> marked (p_live p) (owner c)))"

definition grown :: "prune \<Rightarrow> prune \<Rightarrow> bool" where
  "grown p q \<longleftrightarrow> length (p_live q) = length (p_live p) \<and> length (p_states q) = length (p_states p) \<and>
     (\<forall>i. marked (p_live p) i \<longrightarrow> marked (p_live q) i) \<and> (\<forall>i. marked (p_states p) i \<longrightarrow> marked (p_states q) i)"

lemma grown_refl: "grown p p"
  by (simp add: grown_def)

lemma grown_trans: "grown p q \<Longrightarrow> grown q r \<Longrightarrow> grown p r"
  by (simp add: grown_def)

lemma seen_grown: "seen g p bs \<Longrightarrow> grown p q \<Longrightarrow> seen g q bs"
  unfolding seen_def grown_def by metis

definition operands_seen :: "graph \<Rightarrow> prune \<Rightarrow> nat \<Rightarrow> bool" where
  "operands_seen g p i \<longleftrightarrow> seen g p (n_left (g_nodes g ! i)) \<and> seen g p (n_right (g_nodes g ! i)) \<and>
     seen g p (n_select (g_nodes g ! i))"

definition visited :: "graph \<Rightarrow> prune \<Rightarrow> nat \<Rightarrow> bool" where
  "visited g p i \<longleftrightarrow>
     (if n_op (g_nodes g ! i) = ''state'' then \<forall>s \<in> set (state_owners g i). marked (p_states p) s
      else n_op (g_nodes g ! i) \<noteq> ''input'' \<longrightarrow> operands_seen g p i)"

definition inputs_seen :: "graph \<Rightarrow> prune \<Rightarrow> gstate \<Rightarrow> bool" where
  "inputs_seen g p st \<longleftrightarrow> seen g p (state_next st) \<and> seen g p (state_trigger st) \<and>
     seen g p (state_reset st) \<and> seen g p (state_resetValue st)"

text \<open>The invariant, with a node and a state whose turn it is.\<close>

definition prune_inv :: "graph \<Rightarrow> nat set \<Rightarrow> nat set \<Rightarrow> prune \<Rightarrow> graph \<Rightarrow> bool" where
  "prune_inv g I S p h \<longleftrightarrow> compressed g h \<and>
     length (p_live p) = length (g_nodes g) \<and> length (p_states p) = length (g_states g) \<and>
     (\<forall>i \<in> set (p_pending p). i < length (g_nodes g)) \<and>
     (\<forall>i. marked (p_live p) i \<and> i \<notin> set (p_pending p) \<and> i \<notin> I \<longrightarrow> visited g p i) \<and>
     (\<forall>s. marked (p_states p) s \<and> s \<notin> S \<longrightarrow> inputs_seen g p (g_states g ! s))"

lemma visited_grown: "visited g p i \<Longrightarrow> grown p q \<Longrightarrow> visited g q i"
  using seen_grown [of g p _ q] unfolding visited_def operands_seen_def grown_def by (simp split: if_splits)

lemma inputs_seen_grown: "inputs_seen g p st \<Longrightarrow> grown p q \<Longrightarrow> inputs_seen g q st"
  unfolding inputs_seen_def using seen_grown by blast

lemma gfold_steps:
  assumes "gfold f xs p h = Inr (q, k)" and "Inv p h"
    and "\<And>x p h q k. x \<in> set xs \<Longrightarrow> Inv p h \<Longrightarrow> f x p h = Inr (q, k) \<Longrightarrow> Inv q k \<and> grown p q \<and> P x q"
    and "\<And>x p q. P x p \<Longrightarrow> grown p q \<Longrightarrow> P x q"
  shows "Inv q k \<and> grown p q \<and> (\<forall>x \<in> set xs. P x q)"
  using assms
proof (induction xs arbitrary: p h)
  case (Cons x xs)
  then obtain p1 h1 where x: "f x p h = Inr (p1, h1)" and xs: "gfold f xs p1 h1 = Inr (q, k)"
    by (auto simp: gbind_Inr)
  have first: "Inv p1 h1" "grown p p1" "P x p1"
    using Cons.prems(3) [OF list.set_intros(1) Cons.prems(2) x] by simp_all
  have "Inv q k \<and> grown p1 q \<and> (\<forall>x \<in> set xs. P x q)"
    by (rule Cons.IH [OF xs first(1) Cons.prems(3) [OF list.set_intros(2)] Cons.prems(4)])
  then show ?case
    using first grown_trans Cons.prems(4) by (auto intro: grown_trans)
qed (simp add: grown_refl)

lemma requireNode_step:
  assumes "requireNode i p h = Inr (q, k)" and "prune_inv g I S p h"
  shows "prune_inv g I S q k \<and> grown p q \<and> marked (p_live q) i \<and> p_states q = p_states p"
proof -
  have i: "i < length (p_live p)" and k: "k = h"
    and q: "q = (if \<not> p_live p ! i then p\<lparr>p_live := (p_live p)[i := True], p_pending := i # p_pending p\<rparr> else p)"
    using assms(1) by (auto simp: requireNode_def gthrow_def split: if_splits)
  have live: "marked (p_live q) j \<longleftrightarrow> marked (p_live p) j \<or> j = i" for j
    using i by (auto simp: q marked_def nth_list_update)
  have pend: "set (p_pending q) \<subseteq> insert i (set (p_pending p))" "set (p_pending p) \<subseteq> set (p_pending q)"
    "\<not> marked (p_live p) i \<Longrightarrow> i \<in> set (p_pending q)"
    using i by (auto simp: q marked_def)
  have st: "p_states q = p_states p" "length (p_live q) = length (p_live p)"
    by (simp_all add: q)
  then have grown: "grown p q"
    by (simp add: grown_def live)
  have "prune_inv g I S q h"
    unfolding prune_inv_def st
  proof (intro conjI allI impI ballI; (elim conjE)?)
    fix j
    assume "marked (p_live q) j" "j \<notin> set (p_pending q)" "j \<notin> I"
    then have "marked (p_live p) j" "j \<notin> set (p_pending p)"
      using live pend by auto
    then show "visited g q j"
      using assms(2) \<open>j \<notin> I\<close> visited_grown [OF _ grown] by (simp add: prune_inv_def)
  next
    fix s
    assume "marked (p_states p) s" "s \<notin> S"
    then show "inputs_seen g q (g_states g ! s)"
      using assms(2) inputs_seen_grown [OF _ grown] by (simp add: prune_inv_def)
  next
    fix j
    assume "j \<in> set (p_pending q)"
    then show "j < length (g_nodes g)"
      using assms(2) i pend(1) by (auto simp: prune_inv_def)
  qed (use assms(2) in \<open>simp_all add: prune_inv_def\<close>)
  then show ?thesis
    using grown live st k by simp
qed

lemma require_step:
  assumes "require bs p h = Inr (q, k)" and "prune_inv g I S p h"
  shows "prune_inv g I S q k \<and> grown p q \<and> seen g q bs"
proof -
  let ?P = "\<lambda>b q. seen g q [b]"
  have "prune_inv g I S q k \<and> grown p q \<and> (\<forall>b \<in> set bs. ?P b q)"
  proof (rule gfold_steps [where Inv = "prune_inv g I S", OF assms(1) [unfolded require_def] assms(2)])
    fix b p h q k
    assume inv: "prune_inv g I S p h" and step: "require_bit b p h = Inr (q, k)"
    then obtain c h1 where c: "resolve b h = Inr (c, h1)" and go: "(if 1 < c then requireNode (owner c) p else gret p) h1 = Inr (q, k)"
      by (auto simp: require_bit_def gbind_Inr)
    have r: "carries (g_aliases g) b c" "compressed g h1"
      using resolve_carries [OF c] inv by (simp_all add: prune_inv_def)
    have inv1: "prune_inv g I S p h1"
      using inv r(2) by (simp add: prune_inv_def)
    show "prune_inv g I S q k \<and> grown p q \<and> seen g q [b]"
    proof (cases "1 < c")
      case True
      then show ?thesis
        using requireNode_step [OF _ inv1, of "owner c" q k] go r(1) by (auto simp: seen_def)
    next
      case False
      then show ?thesis
        using go r(1) inv1 grown_refl by (auto simp: seen_def)
    qed
  qed (rule seen_grown)
  then show ?thesis
    by (auto simp: seen_def)
qed

lemma prune_inv_nodes: "prune_inv g I S p h \<Longrightarrow> g_nodes h = g_nodes g"
  unfolding prune_inv_def using compressed_fields(1) by blast

lemma compressed_states:
  assumes "compressed g h"
  shows "g_states h = g_states g" "g_ports h = g_ports g" "g_accesses h = g_accesses g" "g_writes h = g_writes g"
proof -
  obtain al where "h = g\<lparr>g_aliases := al\<rparr>"
    using assms unfolding compressed_def by blast
  then show "g_states h = g_states g" "g_ports h = g_ports g" "g_accesses h = g_accesses g" "g_writes h = g_writes g"
    by simp_all
qed

lemma require_state_step:
  assumes "require_state s p h = Inr (q, k)" and "prune_inv g I {} p h" and s: "s < length (g_states g)"
  shows "prune_inv g I {} q k \<and> grown p q \<and> marked (p_states q) s"
proof (cases "p_states p ! s")
  case True
  then show ?thesis
    using assms grown_refl by (simp add: require_state_def marked_def prune_inv_def)
next
  case False
  define p0 where "p0 = p\<lparr>p_states := (p_states p)[s := True]\<rparr>"
  define st where "st = g_states g ! s"
  have g: "compressed g h" and len: "length (p_states p) = length (g_states g)"
    using assms(2) by (simp_all add: prune_inv_def)
  have states: "marked (p_states p0) j \<longleftrightarrow> marked (p_states p) j \<or> j = s" for j
    using s len by (auto simp: p0_def marked_def nth_list_update)
  have p0: "p_live p0 = p_live p" "p_pending p0 = p_pending p" "length (p_states p0) = length (p_states p)"
    by (simp_all add: p0_def)
  have g0: "grown p p0"
    by (simp add: grown_def p0 states)
  have inv0: "prune_inv g I {s} p0 h"
    unfolding prune_inv_def p0
  proof (intro conjI allI impI; (elim conjE)?)
    fix j
    assume "marked (p_states p0) j" "j \<notin> {s}"
    then show "inputs_seen g p0 (g_states g ! j)"
      using assms(2) inputs_seen_grown [OF _ g0] states by (simp add: prune_inv_def)
  next
    fix j
    assume "marked (p_live p) j" "j \<notin> set (p_pending p)" "j \<notin> I"
    then show "visited g p0 j"
      using assms(2) visited_grown [OF _ g0] by (simp add: prune_inv_def)
  qed (use assms(2) in \<open>simp_all add: prune_inv_def\<close>)
  from assms(1) False obtain p1 h1 p2 h2 p3 h3 where steps:
      "require (state_next st) p0 h = Inr (p1, h1)" "require (state_trigger st) p1 h1 = Inr (p2, h2)"
      "require (state_reset st) p2 h2 = Inr (p3, h3)" "require (state_resetValue st) p3 h3 = Inr (q, k)"
    by (auto simp: require_state_def Let_def gbind_Inr p0_def st_def compressed_states [OF g])
  note r1 = require_step [OF steps(1) inv0]
  note r2 = require_step [OF steps(2) conjunct1 [OF r1]]
  note r3 = require_step [OF steps(3) conjunct1 [OF r2]]
  note r4 = require_step [OF steps(4) conjunct1 [OF r3]]
  have seen: "inputs_seen g q st"
    using r1 r2 r3 r4 by (simp add: inputs_seen_def) (meson seen_grown)
  have "grown p q" "marked (p_states q) s"
    using g0 r1 r2 r3 r4 states by (blast intro: grown_trans, auto simp: grown_def)
  moreover have "prune_inv g I {} q k"
    using r4 seen unfolding prune_inv_def st_def by (metis empty_iff insert_iff)
  ultimately show ?thesis
    by simp
qed

lemma prune_visit_step:
  assumes "prune_visit i p h = Inr (q, k)" and "prune_inv g {i} {} p h"
  shows "prune_inv g {} {} q k \<and> grown p q"
proof -
  note n = prune_inv_nodes [OF assms(2)]
  have g: "compressed g h"
    using assms(2) by (simp add: prune_inv_def)
  have main: "prune_inv g {i} {} q k \<and> grown p q \<and> visited g q i"
  proof (cases "n_op (g_nodes g ! i) = ''state''")
    case True
    have "prune_inv g {i} {} q k \<and> grown p q \<and> (\<forall>s \<in> set (state_owners g i). marked (p_states q) s)"
    proof (rule gfold_steps [where Inv = "prune_inv g {i} {}" and xs = "state_owners g i" and f = require_state])
      show "gfold require_state (state_owners g i) p h = Inr (q, k)"
        using assms(1) True by (simp add: prune_visit_def n Let_def state_owners_def compressed_states [OF g])
      fix s p h q k
      assume "s \<in> set (state_owners g i)" "prune_inv g {i} {} p h" "require_state s p h = Inr (q, k)"
      then show "prune_inv g {i} {} q k \<and> grown p q \<and> marked (p_states q) s"
        by (intro require_state_step) (auto simp: state_owners_def)
    qed (use assms(2) in \<open>simp_all add: grown_def\<close>)
    then show ?thesis
      using True by (simp add: visited_def)
  next
    case False
    show ?thesis
    proof (cases "n_op (g_nodes g ! i) = ''input''")
      case True
      then show ?thesis
        using assms grown_refl by (simp add: prune_visit_def n Let_def visited_def)
    next
      case inner: False
      obtain p1 h1 p2 h2 where steps: "require (n_left (g_nodes g ! i)) p h = Inr (p1, h1)"
          "require (n_right (g_nodes g ! i)) p1 h1 = Inr (p2, h2)" "require (n_select (g_nodes g ! i)) p2 h2 = Inr (q, k)"
        using assms(1) False inner by (auto simp: prune_visit_def n Let_def gbind_Inr)
      note r1 = require_step [OF steps(1) assms(2)]
      note r2 = require_step [OF steps(2) conjunct1 [OF r1]]
      note r3 = require_step [OF steps(3) conjunct1 [OF r2]]
      have "operands_seen g q i"
        using r1 r2 r3 by (simp add: operands_seen_def) (meson seen_grown)
      then show ?thesis
        using r1 r2 r3 False by (auto simp: visited_def intro: grown_trans)
    qed
  qed
  then have "prune_inv g {} {} q k"
    unfolding prune_inv_def by (metis empty_iff insert_iff)
  then show ?thesis
    using main by simp
qed

lemma prune_loop_closed:
  assumes "prune_loop p h = Inr (q, k)" and "prune_inv g {} {} p h"
  shows "prune_inv g {} {} q k \<and> grown p q \<and> p_pending q = []"
  using assms
proof (induction p h rule: prune_loop.induct)
  case (1 p h)
  show ?case
  proof (cases "p_pending p")
    case Nil
    then show ?thesis
      using 1(2,3) grown_refl by (simp add: prune_loop.simps [of p h])
  next
    case (Cons i rest)
    then obtain p1 h1 where v: "prune_visit i (p\<lparr>p_pending := rest\<rparr>) h = Inr (p1, h1)" and l: "prune_loop p1 h1 = Inr (q, k)"
      using 1(2) by (auto simp: prune_loop.simps [of p h] split: sum.splits)
    have eq: "grown (p\<lparr>p_pending := rest\<rparr>) r = grown p r" "grown p (p\<lparr>p_pending := rest\<rparr>)" for r
      by (simp_all add: grown_def)
    have "prune_inv g {i} {} (p\<lparr>p_pending := rest\<rparr>) h"
      using 1(3) Cons visited_grown [OF _ eq(2)] inputs_seen_grown [OF _ eq(2)]
      by (auto simp: prune_inv_def)
    from prune_visit_step [OF v this] have s: "prune_inv g {} {} p1 h1" "grown p p1"
      by (simp_all add: eq)
    show ?thesis
      using 1(1) [OF Cons v refl l s(1)] s(2) grown_trans by blast
  qed
qed

text \<open>What a graph shows: outputs, memory accesses and writes.\<close>

definition observed :: "graph \<Rightarrow> gvalue list" where
  "observed g = map port_bits (filter (\<lambda>port. \<not> port_input port) (g_ports g)) @
     map access_address (g_accesses g) @ map access_enabled (g_accesses g) @
     map write_address (g_writes g) @ map write_data (g_writes g) @ map write_enabled (g_writes g)"

definition effectful :: "graph \<Rightarrow> nat \<Rightarrow> bool" where
  "effectful g i \<longleftrightarrow> i < length (g_nodes g) \<and> (hostEffect (g_nodes g ! i) \<or> validation (g_nodes g ! i))"

lemma prune_roots_seen:
  assumes "prune_roots p h = Inr (q, k)" and "prune_inv g {} {} p h"
  shows "prune_inv g {} {} q k \<and> grown p q \<and> (\<forall>vs \<in> set (observed g). seen g q vs) \<and>
    (\<forall>i. effectful g i \<longrightarrow> marked (p_live q) i)"
proof -
  let ?inv = "prune_inv g {} {}"
  have g: "compressed g h"
    using assms(2) by (simp add: prune_inv_def)
  note fields = compressed_states [OF g]
  obtain p1 h1 p2 h2 p3 h3 where
      ports: "gfold (\<lambda>port p. if \<not> port_input port then require (port_bits port) p else gret p) (g_ports g) p h = Inr (p1, h1)"
    and accesses: "gfold (\<lambda>a p. gbind (require (access_address a) p) (\<lambda>p. require (access_enabled a) p)) (g_accesses g) p1 h1 = Inr (p2, h2)"
    and writes: "gfold (\<lambda>w p. gbind (require (write_address w) p) (\<lambda>p. gbind (require (write_data w) p) (\<lambda>p.
         require (write_enabled w) p))) (g_writes g) p2 h2 = Inr (p3, h3)"
    and effects: "gfold (\<lambda>i p. if hostEffect (g_nodes h ! i) \<or> validation (g_nodes h ! i) then requireNode i p else gret p)
         [0..<length (g_nodes h)] p3 h3 = Inr (q, k)"
    using assms(1) by (auto simp: prune_roots_def gbind_Inr fields)
  have r1: "?inv p1 h1 \<and> grown p p1 \<and> (\<forall>port \<in> set (g_ports g). \<not> port_input port \<longrightarrow> seen g p1 (port_bits port))"
  proof (rule gfold_steps [where Inv = ?inv, OF ports assms(2)])
    fix port p h q k
    assume inv: "?inv p h" and step: "(if \<not> port_input port then require (port_bits port) p else gret p) h = Inr (q, k)"
    show "?inv q k \<and> grown p q \<and> (\<not> port_input port \<longrightarrow> seen g q (port_bits port))"
      using require_step [OF _ inv, of "port_bits port" q k] step inv grown_refl by (cases "port_input port") auto
  qed (blast intro: seen_grown)
  have r2: "?inv p2 h2 \<and> grown p1 p2 \<and> (\<forall>a \<in> set (g_accesses g). seen g p2 (access_address a) \<and> seen g p2 (access_enabled a))"
  proof (rule gfold_steps [where Inv = ?inv, OF accesses conjunct1 [OF r1]])
    fix a p h q k
    assume inv: "?inv p h" and step: "gbind (require (access_address a) p) (\<lambda>p. require (access_enabled a) p) h = Inr (q, k)"
    then obtain p1 h1 where steps: "require (access_address a) p h = Inr (p1, h1)" "require (access_enabled a) p1 h1 = Inr (q, k)"
      by (auto simp: gbind_Inr)
    note s1 = require_step [OF steps(1) inv]
    show "?inv q k \<and> grown p q \<and> seen g q (access_address a) \<and> seen g q (access_enabled a)"
      using s1 require_step [OF steps(2) conjunct1 [OF s1]] seen_grown grown_trans by blast
  qed (blast intro: seen_grown)
  have r3: "?inv p3 h3 \<and> grown p2 p3 \<and>
      (\<forall>w \<in> set (g_writes g). seen g p3 (write_address w) \<and> seen g p3 (write_data w) \<and> seen g p3 (write_enabled w))"
  proof (rule gfold_steps [where Inv = ?inv, OF writes conjunct1 [OF r2]])
    fix w p h q k
    assume inv: "?inv p h" and step: "gbind (require (write_address w) p) (\<lambda>p. gbind (require (write_data w) p) (\<lambda>p.
         require (write_enabled w) p)) h = Inr (q, k)"
    then obtain p1 h1 p2 h2 where steps: "require (write_address w) p h = Inr (p1, h1)" "require (write_data w) p1 h1 = Inr (p2, h2)"
        "require (write_enabled w) p2 h2 = Inr (q, k)"
      by (auto simp: gbind_Inr)
    note s1 = require_step [OF steps(1) inv]
    note s2 = require_step [OF steps(2) conjunct1 [OF s1]]
    show "?inv q k \<and> grown p q \<and> seen g q (write_address w) \<and> seen g q (write_data w) \<and> seen g q (write_enabled w)"
      using s1 s2 require_step [OF steps(3) conjunct1 [OF s2]] seen_grown grown_trans by blast
  qed (blast intro: seen_grown)
  let ?effect = "\<lambda>i. hostEffect (g_nodes h ! i) \<or> validation (g_nodes h ! i)"
  have r4: "?inv q k \<and> grown p3 q \<and> (\<forall>i \<in> set [0..<length (g_nodes h)]. ?effect i \<longrightarrow> marked (p_live q) i)"
  proof (rule gfold_steps [where Inv = ?inv, OF effects conjunct1 [OF r3]])
    fix i p h' q k
    assume inv: "?inv p h'" and step: "(if ?effect i then requireNode i p else gret p) h' = Inr (q, k)"
    show "?inv q k \<and> grown p q \<and> (?effect i \<longrightarrow> marked (p_live q) i)"
      using requireNode_step [OF _ inv, of i q k] step inv grown_refl by (cases "?effect i") auto
  qed (simp add: grown_def)
  have g1: "grown p1 q" and g2: "grown p2 q"
    using r2 r3 r4 grown_trans by blast+
  have "\<forall>vs \<in> set (observed g). seen g q vs"
    using seen_grown [OF _ g1] seen_grown [OF _ g2] seen_grown [of g p3 _ q] r1 r2 r3 r4
    unfolding observed_def by auto
  moreover have "\<forall>i. effectful g i \<longrightarrow> marked (p_live q) i"
    using r4 compressed_fields(1) [OF g] by (auto simp: effectful_def)
  ultimately show ?thesis
    using r1 r4 grown_trans [OF conjunct1 [OF conjunct2 [OF r1]] g1] by simp
qed

section \<open>Runs\<close>

text \<open>
  A run of a graph: at every cycle a model of the graph, with the memories' contents in the
  interpretation of the reads; the next value of a state group is a function of the cycle, its clock
  and the values of its signals; the memories' next contents a function of the writes.
\<close>

type_synonym update = "nat \<Rightarrow> int \<times> bool \<Rightarrow> bool list list \<Rightarrow> bool list"
type_synonym 'm commit = "nat \<Rightarrow> 'm \<Rightarrow> (nat \<times> int \<times> bool \<times> bool list list) list \<Rightarrow> 'm"

definition state_signals :: "(gbit \<Rightarrow> bool) \<Rightarrow> gstate \<Rightarrow> bool list list" where
  "state_signals v st = [map v (state_bits st), map v (state_next st), map v (state_trigger st),
     map v (state_reset st), map v (state_resetValue st)]"

definition write_signals :: "(gbit \<Rightarrow> bool) \<Rightarrow> gwrite \<Rightarrow> nat \<times> int \<times> bool \<times> bool list list" where
  "write_signals v w = (write_memory w, write_clock w, write_falling w,
     [map v (write_address w), map v (write_data w), map v (write_enabled w)])"

definition trace :: "('m \<Rightarrow> interp) \<Rightarrow> update \<Rightarrow> 'm commit \<Rightarrow> graph \<Rightarrow> (nat \<Rightarrow> gbit \<Rightarrow> bool) \<Rightarrow> (nat \<Rightarrow> 'm) \<Rightarrow> bool" where
  "trace G U W g v m \<longleftrightarrow> (\<forall>t. model (G (m t)) g (v t) \<and>
     (\<forall>st \<in> set (g_states g). map (v (Suc t)) (state_bits st) =
        U t (state_clock st, state_falling st) (state_signals (v t) st)) \<and>
     m (Suc t) = W t (m t) (map (write_signals (v t)) (g_writes g)))"

text \<open>The bits no node computes, and the nodes in an order of their dependencies.\<close>

definition computed :: "graph \<Rightarrow> gbit \<Rightarrow> bool" where
  "computed g b \<longleftrightarrow> (\<exists>i < length (g_nodes g). \<exists>k < n_width (g_nodes g ! i). b = lane_bit i k \<and> computes (n_op (g_nodes g ! i)))"

definition state_bit :: "graph \<Rightarrow> gbit \<Rightarrow> bool" where
  "state_bit g b \<longleftrightarrow> (\<exists>st \<in> set (g_states g). b \<in> set (state_bits st))"

definition ordered :: "(nat \<Rightarrow> nat) \<Rightarrow> graph \<Rightarrow> bool" where
  "ordered rk g \<longleftrightarrow> (\<forall>i < length (g_nodes g). computes (n_op (g_nodes g ! i)) \<longrightarrow>
     n_width (g_nodes g ! i) \<le> 64 \<and>
     (\<forall>b \<in> set (n_left (g_nodes g ! i) @ n_right (g_nodes g ! i) @ n_select (g_nodes g ! i)).
        \<forall>c. carries (g_aliases g) b c \<and> 1 < c \<longrightarrow> rk (owner c) < rk i))"

text \<open>The bits of a state group are lanes of \<open>state\<close> nodes.\<close>

definition stated :: "graph \<Rightarrow> bool" where
  "stated g \<longleftrightarrow> (\<forall>st \<in> set (g_states g). \<forall>b \<in> set (state_bits st).
     1 < b \<and> owner b < length (g_nodes g) \<and> n_op (g_nodes g ! owner b) = ''state'')"

lemma seen_values:
  assumes "seen g p bs" and "agrees (g_aliases g) v" and "agrees (g_aliases g) w" and "zero_one v" and "zero_one w"
    and "\<And>c b. b \<in> set bs \<Longrightarrow> carries (g_aliases g) b c \<Longrightarrow> 1 < c \<Longrightarrow> marked (p_live p) (owner c) \<Longrightarrow> v c = w c"
  shows "map v bs = map w bs"
proof (rule map_cong [OF refl])
  fix b
  assume b: "b \<in> set bs"
  then obtain c where c: "carries (g_aliases g) b c" "1 < c \<longrightarrow> marked (p_live p) (owner c)"
    using assms(1) by (auto simp: seen_def)
  have "v c = w c"
  proof (cases "1 < c")
    case False
    then have "c = 0 \<or> c = 1"
      by auto
    then show ?thesis
      using assms(4,5) by (auto)
  qed (use assms(6) [OF b] c in blast)
  moreover have "v c = v b" "w c = w b"
    using c(1) assms(2,3) by (simp_all add: carries_def)
  ultimately show "v b = w b"
    by simp
qed

text \<open>Within a cycle: models that agree on the free bits of marked nodes agree on every marked node.\<close>

lemma marked_agree:
  assumes inv: "prune_inv g {} {} p h" and fin: "p_pending p = []" and ord: "ordered rk g"
    and v: "model F g v" and w: "model F g w"
    and free: "\<And>b. \<not> computed g b \<Longrightarrow> \<not> state_bit g b \<Longrightarrow> w b = v b"
    and states: "\<And>s b. marked (p_states p) s \<Longrightarrow> b \<in> set (state_bits (g_states g ! s)) \<Longrightarrow> w b = v b"
    and st: "stated g"
    and c: "marked (p_live p) (owner c)" "1 < c" "c \<notin> fmdom' (g_aliases g)"
  shows "w c = v c"
  using c
proof (induction "rk (owner c)" arbitrary: c rule: less_induct)
  case less
  define i where "i = owner c"
  have i: "i < length (g_nodes g)" "visited g p i"
    using inv fin less.prems(1) by (simp_all add: prune_inv_def i_def marked_def)
  show ?case
  proof (cases "computed g c")
    case True
    then obtain j k where j: "j < length (g_nodes g)" "k < n_width (g_nodes g ! j)" "c = lane_bit j k" "computes (n_op (g_nodes g ! j))"
      by (auto simp: computed_def)
    have w64: "n_width (g_nodes g ! j) \<le> 64"
      using ord j(1,4) by (simp add: ordered_def)
    then have ji: "j = i"
      using owner_lane(1) [of k j] j(2,3) by (simp add: i_def)
    let ?n = "g_nodes g ! i"
    have "operands_seen g p i"
      using i(2) j(4) unfolding visited_def ji computes_def by (simp split: if_splits)
    then have "seen g p (n_left ?n)" "seen g p (n_right ?n)" "seen g p (n_select ?n)"
      by (simp_all add: operands_seen_def)
    note ops_seen = this
    have vals: "map w bs = map v bs" if s: "seen g p bs"
      and sub: "set bs \<subseteq> set (n_left ?n @ n_right ?n @ n_select ?n)" for bs
    proof (rule seen_values [OF s])
      fix d b
      assume d: "b \<in> set bs" "carries (g_aliases g) b d" "1 < d" "marked (p_live p) (owner d)"
      have "b \<in> set (n_left ?n @ n_right ?n @ n_select ?n)"
        by (rule subsetD [OF sub d(1)])
      then have "rk (owner d) < rk (owner c)"
        using ord i(1) j(4) d(2,3) unfolding ordered_def i_def [symmetric] ji by simp
      then show "w d = v d"
        using less.hyps d by (simp add: carries_def)
    qed (use v w in \<open>simp_all add: model_def\<close>)
    have ops: "map w (n_left ?n) = map v (n_left ?n)" "map w (n_right ?n) = map v (n_right ?n)" "map w (n_select ?n) = map v (n_select ?n)"
      using vals [OF ops_seen(1)] vals [OF ops_seen(2)] vals [OF ops_seen(3)] by (simp_all add: subset_iff)
    have "lane_value F w ?n k = lane_value F v ?n k"
      by (rule lane_value_cong [OF ops]) (use v w in \<open>simp_all add: model_def\<close>)
    then show ?thesis
      using v w j by (simp add: model_def ji)
  next
    case comp: False
    show ?thesis
    proof (cases "state_bit g c")
      case True
      then obtain st where "st \<in> set (g_states g)" "c \<in> set (state_bits st)"
        unfolding state_bit_def by blast
      then obtain s where s: "s < length (g_states g)" "c \<in> set (state_bits (g_states g ! s))"
        by (metis in_set_conv_nth)
      then have op: "n_op (g_nodes g ! i) = ''state''"
        using st nth_mem [OF s(1)] unfolding stated_def i_def by blast
      have "s \<in> set (state_owners g i)"
        using s less.prems(2) unfolding state_owners_def owned_words_def i_def by simp
      then have "marked (p_states p) s"
        using i(2) op by (simp add: visited_def)
      then show ?thesis
        using states s(2) by blast
    next
      case False
      then show ?thesis
        using free [OF comp] by blast
    qed
  qed
qed


text \<open>The invariant at the start, and the states that pruning keeps.\<close>

lemma prune_inv_start:
  "prune_inv g {} {} \<lparr>p_live = replicate (length (g_nodes g)) False, p_states = replicate (length (g_states g)) False, p_pending = []\<rparr> g"
  by (auto simp: prune_inv_def compressed_refl marked_def)

lemma set_retained:
  "length xs = length fs \<Longrightarrow> set (map fst (filter snd (zip xs fs))) = {xs ! i |i. marked fs i}"
  by (auto simp: set_zip marked_def image_iff) blast

lemma prune_result:
  assumes "pruneUnusedState d = Inr (n, d')" and "0 < n"
  obtains p h where "prune_inv (graph.truncate d) {} {} p h" "p_pending p = []"
    "\<forall>vs \<in> set (observed (graph.truncate d)). seen (graph.truncate d) p vs"
    "\<forall>i. effectful (graph.truncate d) i \<longrightarrow> marked (p_live p) i"
    "d' = d\<lparr>g_aliases := g_aliases h, g_states := map fst (filter snd (zip (g_states d) (p_states p)))\<rparr>"
    "n + length (g_states d') = length (g_states d)"
proof -
  let ?g = "graph.truncate d"
  let ?p0 = "\<lparr>p_live = replicate (length (g_nodes ?g)) False, p_states = replicate (length (g_states ?g)) False, p_pending = []\<rparr>"
  have f: "g_nodes ?g = g_nodes d" "g_states ?g = g_states d"
    by (simp_all add: graph.truncate_def)
  obtain q k p h where roots: "prune_roots ?p0 ?g = Inr (q, k)" and loop: "prune_loop q k = Inr (p, h)"
    and d': "d' = d\<lparr>g_aliases := g_aliases h, g_states := map fst (filter snd (zip (g_states d) (p_states p)))\<rparr>"
    and n: "n = length (g_states d) - length (map fst (filter snd (zip (g_states d) (p_states p))))"
    using assms unfolding pruneUnusedState_def f
    by (auto simp: gbind_Inr Let_def split: if_splits sum.splits)
  note r = prune_roots_seen [OF roots prune_inv_start]
  note l = prune_loop_closed [OF loop conjunct1 [OF r]]
  have grown: "grown q p"
    using l by simp
  have "\<forall>vs \<in> set (observed ?g). seen ?g p vs"
    using r seen_grown [OF _ grown] by simp
  moreover have "\<forall>i. effectful ?g i \<longrightarrow> marked (p_live p) i"
    using r grown by (simp add: grown_def)
  moreover have "n + length (g_states d') = length (g_states d)"
    using length_filter_le [of snd "zip (g_states d) (p_states p)"] by (simp add: n d')
  ultimately show ?thesis
    using that l d' by blast
qed


lemma pruned_models:
  assumes "prune_inv g {} {} p h" and "g_nodes g' = g_nodes g" and "g_aliases g' = g_aliases h"
  shows "model F g' v \<longleftrightarrow> model F g v"
  using assms compressed_fields(4) [of g h] by (simp add: model_def prune_inv_def)

text \<open>One cycle: everything that is marked agrees.\<close>

lemma seen_agree:
  assumes inv: "prune_inv g {} {} p h" "p_pending p = []" and ord: "ordered rk g" and st: "stated g"
    and v: "model F g v" and w: "model F g w"
    and free: "\<And>b. \<not> computed g b \<Longrightarrow> \<not> state_bit g b \<Longrightarrow> w b = v b"
    and states: "\<And>s b. marked (p_states p) s \<Longrightarrow> b \<in> set (state_bits (g_states g ! s)) \<Longrightarrow> w b = v b"
    and seen: "seen g p bs"
  shows "map w bs = map v bs"
proof (rule seen_values [OF seen])
  fix c b
  assume "carries (g_aliases g) b c" "1 < c" "marked (p_live p) (owner c)"
  then show "w c = v c"
    using marked_agree [OF inv ord v w free states st] by (simp add: carries_def)
qed (use v w in \<open>simp_all add: model_def\<close>)

section \<open>Properties\<close>

definition operand_values :: "(gbit \<Rightarrow> bool) \<Rightarrow> node \<Rightarrow> bool list list" where
  "operand_values v n = [map v (n_left n), map v (n_right n), map v (n_select n)]"

text \<open>
  C7: pruning is not observable. If \<open>pruneUnusedState\<close> removes states of a graph whose nodes
  depend on each other without a cycle, then the original and the pruned graph, run with the same
  values of the bits that neither a node nor a state gives, the same initial memories and the same initial
  values of the states that remain, have at every cycle the same outputs, memory accesses and writes,
  memory contents and operands of host effects and failing assertions, whatever the operations, the
  clocks and the memories compute; the number it returns is the number of states removed.
\<close>

theorem pruned_state_unobservable:
  assumes prune: "pruneUnusedState d = Inr (n, d')" "0 < n"
    and ord: "ordered rk (graph.truncate d)" and st: "stated (graph.truncate d)"
    and runs: "trace G U W (graph.truncate d) v m" "trace G U W (graph.truncate d') w m'"
    and free: "\<And>t b. \<not> computed (graph.truncate d) b \<Longrightarrow> \<not> state_bit (graph.truncate d) b \<Longrightarrow> w t b = v t b"
    and init: "m' 0 = m 0" "\<And>st. st \<in> set (g_states d') \<Longrightarrow> map (w 0) (state_bits st) = map (v 0) (state_bits st)"
  shows "n + length (g_states d') = length (g_states d) \<and>
    m' t = m t \<and> map (map (w t)) (observed (graph.truncate d)) = map (map (v t)) (observed (graph.truncate d)) \<and>
    (\<forall>i. effectful (graph.truncate d) i \<longrightarrow>
       operand_values (w t) (g_nodes d ! i) = operand_values (v t) (g_nodes d ! i))"
proof -
  define g where "g = graph.truncate d"
  define g' where "g' = graph.truncate d'"
  obtain p h where inv: "prune_inv g {} {} p h" "p_pending p = []"
    and seen: "\<forall>vs \<in> set (observed g). seen g p vs" "\<forall>i. effectful g i \<longrightarrow> marked (p_live p) i"
    and d': "d' = d\<lparr>g_aliases := g_aliases h, g_states := map fst (filter snd (zip (g_states d) (p_states p)))\<rparr>"
    and n: "n + length (g_states d') = length (g_states d)"
    using prune_result [OF prune] unfolding g_def by blast
  have f: "g_nodes g = g_nodes d" "g_nodes g' = g_nodes g" "g_aliases g' = g_aliases h" "g_states g' = g_states d'"
      "g_writes g' = g_writes g" "g_states g = g_states d"
    by (simp_all add: g_def g'_def d' graph.truncate_def)
  have kept: "g_states d ! s \<in> set (g_states d')" if "marked (p_states p) s" for s
    using inv(1) that set_retained [of "g_states d" "p_states p"] by (auto simp: d' prune_inv_def f)
  have keptD: "\<exists>s. marked (p_states p) s \<and> st = g_states d ! s" if "st \<in> set (g_states d')" for st
    using inv(1) that set_retained [of "g_states d" "p_states p"] by (auto simp: d' prune_inv_def f)
  have sub: "set (g_states d') \<subseteq> set (g_states d)"
    unfolding d' by (auto dest: set_zip_leftD)
  note v = runs(1) [folded g_def, unfolded trace_def, rule_format] and w = runs(2) [folded g'_def, unfolded trace_def, rule_format]
  have model_v: "model (G (m t)) g (v t)" for t
    using v by blast
  have model_w: "model (G (m' t)) g (w t)" for t
    using w pruned_models [OF inv(1) f(2,3)] by blast
  have agree: "map (w t) bs = map (v t) bs"
    if mem: "m' t = m t" and states: "\<forall>st \<in> set (g_states d'). map (w t) (state_bits st) = map (v t) (state_bits st)"
      and bs: "seen g p bs" for t bs
  proof (rule seen_agree [OF inv ord [folded g_def] st [folded g_def] model_v [of t] model_w [of t, unfolded mem] _ _ bs])
    fix s b
    assume s: "marked (p_states p) s" and b: "b \<in> set (state_bits (g_states g ! s))"
    show "w t b = v t b"
      using bspec [OF states kept [OF s]] b by (simp add: f)
  qed (rule free [folded g_def])
  have cycle: "m' t = m t \<and> (\<forall>st \<in> set (g_states d'). map (w t) (state_bits st) = map (v t) (state_bits st)) \<and>
      (\<forall>bs. seen g p bs \<longrightarrow> map (w t) bs = map (v t) bs)" for t
  proof (induction t)
    case 0
    show ?case
      using agree [of 0] init by blast
  next
    case (Suc t)
    have val: "map (w t) bs = map (v t) bs" if "seen g p bs" for bs
      using Suc that by blast
    have states: "map (w (Suc t)) (state_bits st) = map (v (Suc t)) (state_bits st)" if m: "st \<in> set (g_states d')" for st
    proof -
      obtain s where s: "marked (p_states p) s" "st = g_states d ! s"
        using keptD [OF m] by blast
      have "inputs_seen g p st"
        using inv(1) s by (simp add: prune_inv_def f)
      then have "state_signals (w t) st = state_signals (v t) st"
        using Suc m val by (simp add: inputs_seen_def state_signals_def del: map_eq_conv)
      moreover have "st \<in> set (g_states g)" "st \<in> set (g_states g')"
        using m sub by (auto simp: f)
      ultimately show ?thesis
        using v [of t] w [of t] by simp
    qed
    have "write_signals (w t) x = write_signals (v t) x" if "x \<in> set (g_writes g)" for x
      using seen(1) that val by (simp add: write_signals_def observed_def del: map_eq_conv)
    then have mem: "m' (Suc t) = m (Suc t)"
      using v [of t] w [of t] Suc by (simp add: f cong: map_cong)
    show ?case
      using agree [of "Suc t"] states mem by blast
  qed
  have shown: "map (w t) bs = map (v t) bs" if "seen g p bs" for bs
    using cycle [of t] that by blast
  have obs: "map (map (w t)) (observed g) = map (map (v t)) (observed g)"
  proof (rule map_cong [OF refl])
    fix vs
    assume "vs \<in> set (observed g)"
    then show "map (w t) vs = map (v t) vs"
      using shown seen(1) by blast
  qed
  have eff: "operand_values (w t) (g_nodes d ! i) = operand_values (v t) (g_nodes d ! i)" if e: "effectful g i" for i
  proof -
    have "visited g p i"
      using inv seen(2) e by (simp add: prune_inv_def)
    then have "operands_seen g p i"
      using e by (auto simp: visited_def effectful_def hostEffect_def validation_def split: if_splits)
    then show ?thesis
      using shown by (simp add: operands_seen_def operand_values_def f del: map_eq_conv)
  qed
  show ?thesis
    using n cycle [of t] obs eff unfolding g_def by blast
qed


text \<open>A toggling state that an output shows, and a state that follows it unseen.\<close>

definition toggle_state :: "gbit \<Rightarrow> gbit \<Rightarrow> gstate" where
  "toggle_state b n = \<lparr>state_bits = [b], state_next = [n], state_trigger = [1], state_clock = 0, state_falling = False,
     state_reset = [], state_resetValue = []\<rparr>"

definition toggle_node :: "string \<Rightarrow> gvalue \<Rightarrow> gvalue \<Rightarrow> node" where
  "toggle_node op left right = \<lparr>n_op = op, n_width = 1, n_left = left, n_right = right, n_select = [], n_name = [], n_scope = []\<rparr>"

definition toggle :: design where
  "toggle = \<lparr>g_contract = RisingEdgeStep, g_clocks = [],
     g_nodes = [toggle_node ''state'' [] [], toggle_node ''state'' [] [], toggle_node ''xor'' [66] [1]],
     g_aliases = fmempty, g_ports = [\<lparr>port_name = ''q'', port_bits = [66], port_input = False\<rparr>],
     g_states = [toggle_state 66 194, toggle_state 130 66], g_memories = [], g_accesses = [], g_writes = [], g_scope = [],
     d_attributes = [], d_pipelines = [], d_replacements = []\<rparr>"

definition toggle_run :: "nat \<Rightarrow> gbit \<Rightarrow> bool" where
  "toggle_run t b \<longleftrightarrow> b = 1 \<or> b = 66 \<and> odd t \<or> b = 194 \<and> even t \<or> b = 130 \<and> even t \<and> t \<noteq> 0"

definition toggle_pruned :: "nat \<Rightarrow> gbit \<Rightarrow> bool" where
  "toggle_pruned t b \<longleftrightarrow> b = 1 \<or> b = 66 \<and> odd t \<or> b = 194 \<and> even t"

lemma resolve_fmempty: "g_aliases g = fmempty \<Longrightarrow> resolve b g = Inr (b, g)"
  by (simp add: resolve_def resolve_loop_cases(1))

lemma prune_toggle: "pruneUnusedState toggle = Inr (1, toggle\<lparr>g_states := [toggle_state 66 194]\<rparr>)"
proof -
  have g: "graph.truncate toggle = \<lparr>g_contract = RisingEdgeStep, g_clocks = [], g_nodes = g_nodes toggle, g_aliases = fmempty,
      g_ports = g_ports toggle, g_states = g_states toggle, g_memories = [], g_accesses = [], g_writes = [], g_scope = []\<rparr>"
    by (simp add: graph.truncate_def toggle_def)
  have own: "owner 66 = 0" "owner 130 = 1" "owner 194 = 2"
    by (simp_all add: owner_def)
  have words: "owned_words (toggle_state b n) = (if 1 < b then {owner b} else {})" for b n
    by (simp add: owned_words_def toggle_state_def)
  show ?thesis
    unfolding pruneUnusedState_def g
    by (simp add: toggle_def prune_roots_def toggle_node_def toggle_state_def gbind_def gret_def require_def require_bit_def
        requireNode_def resolve_fmempty own hostEffect_def validation_def upt_rec words [unfolded toggle_state_def, simplified]
        prune_loop.simps prune_visit_def state_owners_def require_state_def Let_def)
qed


lemma agrees_fmempty: "agrees fmempty v"
  by (simp add: agrees_def)

lemma carries_fmempty: "carries fmempty b c \<longleftrightarrow> c = b"
proof
  assume "carries fmempty b c"
  then have "(\<lambda>x. x = b) c = (\<lambda>x. x = b) b"
    unfolding carries_def by (auto simp: agrees_fmempty)
  then show "c = b"
    by simp
qed (simp add: carries_def)

definition toggle_clock :: update where
  "toggle_clock t c signals = signals ! 1"

lemma toggle_truncate:
  "g_nodes (graph.truncate toggle) = [toggle_node ''state'' [] [], toggle_node ''state'' [] [], toggle_node ''xor'' [66] [1]]"
  "g_aliases (graph.truncate toggle) = fmempty" "g_states (graph.truncate toggle) = [toggle_state 66 194, toggle_state 130 66]"
  "g_writes (graph.truncate toggle) = []"
  by (simp_all add: graph.truncate_def toggle_def)

lemma toggle_model:
  assumes "g_nodes g = g_nodes (graph.truncate toggle)" and "g_aliases g = fmempty" and "\<not> v 0" and "v 1" and "v 194 \<longleftrightarrow> \<not> v 66"
  shows "model F g v"
proof -
  have "lane_value F v (toggle_node ''xor'' [66] [1]) 0 = v 194"
    using node_bit_lane [of "toggle_node ''xor'' [66] [1]" 0 v] assms(3-5)
    by (simp add: lane_value_def transparent_def toggle_node_def node_ok_def)
  then show ?thesis
    using assms by (auto simp: model_def toggle_truncate agrees_fmempty toggle_node_def computes_def less_Suc_eq lane_bit_def nth_Cons
        split: nat.splits)
qed


lemma toggle_trace: "trace (\<lambda>m :: unit. F) toggle_clock (\<lambda>t m ws. m) (graph.truncate toggle) toggle_run (\<lambda>t. ())"
  unfolding trace_def
  by (intro allI conjI toggle_model)
    (simp_all add: toggle_truncate toggle_run_def toggle_clock_def toggle_state_def state_signals_def)

lemma toggle_pruned_trace: "trace (\<lambda>m :: unit. F) toggle_clock (\<lambda>t m ws. m)
    (graph.truncate (toggle\<lparr>g_states := [toggle_state 66 194]\<rparr>)) toggle_pruned (\<lambda>t. ())"
  unfolding trace_def
  by (intro allI conjI toggle_model)
    (simp_all add: graph.truncate_def toggle_def toggle_pruned_def toggle_clock_def toggle_state_def state_signals_def)

lemma toggle_ordered: "ordered (\<lambda>i. if i = 2 then 1 else 0) (graph.truncate toggle)"
  unfolding ordered_def toggle_truncate carries_fmempty
  by (auto simp: toggle_node_def computes_def less_Suc_eq owner_def)

lemma toggle_stated: "stated (graph.truncate toggle)"
  by (simp add: stated_def toggle_truncate toggle_state_def toggle_node_def owner_def)

lemma toggle_free: "\<not> computed (graph.truncate toggle) b \<Longrightarrow> \<not> state_bit (graph.truncate toggle) b \<Longrightarrow> toggle_pruned t b = toggle_run t b"
proof -
  assume b: "\<not> computed (graph.truncate toggle) b" "\<not> state_bit (graph.truncate toggle) b"
  have "b \<noteq> 66 \<and> b \<noteq> 130"
    using b(2) by (auto simp: state_bit_def toggle_truncate toggle_state_def)
  then show "toggle_pruned t b = toggle_run t b"
    by (simp add: toggle_pruned_def toggle_run_def)
qed

theorem pruned_state_unobservable_witness:
  "1 + length (g_states (toggle\<lparr>g_states := [toggle_state 66 194]\<rparr>)) = length (g_states toggle) \<and>
   map (map (toggle_pruned 3)) (observed (graph.truncate toggle)) = map (map (toggle_run 3)) (observed (graph.truncate toggle))"
  using pruned_state_unobservable [OF prune_toggle _ toggle_ordered toggle_stated toggle_trace toggle_pruned_trace toggle_free, of 3]
  by (simp add: toggle_pruned_def toggle_run_def toggle_state_def)

section \<open>Connecting adds equations\<close>

lemma agrees_fmupd: "fmlookup al a = None \<Longrightarrow> agrees (fmupd a b al) v \<longleftrightarrow> agrees al v \<and> v a = v b"
  by (auto simp: agrees_def)

lemma model_connect_bit:
  "fmlookup (g_aliases g) a = None \<Longrightarrow> model F (g\<lparr>g_aliases := fmupd a b (g_aliases g)\<rparr>) v \<longleftrightarrow> model F g v \<and> v a = v b"
  by (auto simp: model_def agrees_fmupd)

lemma connect_bits_step:
  assumes "connect_bits ((target, source) # bs) g = Inr r"
  obtains g1 where "connect_bits bs g1 = Inr r" "1 < target" "target \<notin> fmdom' (g_aliases g)"
    "fmdom' (g_aliases g) \<subseteq> fmdom' (g_aliases g1)" "\<And>F v. model F g1 v \<longleftrightarrow> model F g v \<and> v target = v source"
proof
  define g1 where "g1 = (if target \<noteq> source then g\<lparr>g_aliases := fmupd target source (g_aliases g)\<rparr> else g)"
  have free: "fmlookup (g_aliases g) target = None"
    using assms by (simp split: if_splits)
  show "connect_bits bs g1 = Inr r" "1 < target" "target \<notin> fmdom' (g_aliases g)"
    using assms free by (auto simp: g1_def fmlookup_dom'_iff split: if_splits)
  show "fmdom' (g_aliases g) \<subseteq> fmdom' (g_aliases g1)"
    by (auto simp: g1_def)
  show "model F g1 v \<longleftrightarrow> model F g v \<and> v target = v source" for F v
    using model_connect_bit [OF free] by (auto simp: g1_def)
qed

lemma connect_bits_model: "connect_bits ps g = Inr ((), g') \<Longrightarrow> model F g' v \<longleftrightarrow> model F g v \<and> (\<forall>(a, b) \<in> set ps. v a = v b)"
proof (induction ps arbitrary: g)
  case (Cons p ps)
  obtain a b where p: "p = (a, b)"
    by (cases p)
  show ?case
    by (rule connect_bits_step [OF Cons.prems [unfolded p]]) (auto simp: Cons.IH p)
qed simp

lemma connect_bits_targets:
  "connect_bits ps g = Inr ((), g') \<Longrightarrow> a \<in> fst ` set ps \<Longrightarrow> 1 < a \<and> a \<notin> fmdom' (g_aliases g)"
proof (induction ps arbitrary: g)
  case (Cons p ps)
  obtain t b where p: "p = (t, b)"
    by (cases p)
  obtain g1 where g1: "connect_bits ps g1 = Inr ((), g')" "1 < t" "t \<notin> fmdom' (g_aliases g)"
      "fmdom' (g_aliases g) \<subseteq> fmdom' (g_aliases g1)"
    using connect_bits_step [OF Cons.prems(1) [unfolded p]] by metis
  show ?case
    using Cons.IH [OF g1(1)] Cons.prems(2) g1(2-4) by (cases "a = t") (auto simp: p)
qed simp

lemma map_eq_zip: "length xs = length ys \<Longrightarrow> (\<forall>(a, b) \<in> set (zip xs ys). v a = v b) \<longleftrightarrow> map v xs = map v ys"
  by (induction xs ys rule: list_induct2) auto

text \<open>
  C8: a connection adds exactly its equations to the meaning of the graph: the models of the
  result are the models in which every target bit has the value of its source; it succeeds only for
  targets that are not constants and have no driver yet.
\<close>

theorem connect_adds_equations:
  assumes "connect target source g = Inr ((), g')"
  shows "length target = length source \<and> (\<forall>b \<in> set target. 1 < b \<and> b \<notin> fmdom' (g_aliases g)) \<and>
    (model F g' v \<longleftrightarrow> model F g v \<and> map v target = map v source)"
proof -
  have len: "length target = length source" and bits: "connect_bits (zip target source) g = Inr ((), g')"
    using assms by (auto simp: connect_def split: if_splits)
  have "fst ` set (zip target source) = set target"
    using len by (metis list.set_map map_fst_zip)
  then show ?thesis
    using connect_bits_targets [OF bits] connect_bits_model [OF bits, of F v] map_eq_zip [OF len, of v] len by simp
qed

definition connect_example :: graph where
  "connect_example = \<lparr>g_contract = RisingEdgeStep, g_clocks = [], g_nodes = [], g_aliases = fmempty, g_ports = [],
     g_states = [], g_memories = [], g_accesses = [], g_writes = [], g_scope = []\<rparr>"

lemma connect_adds_equations_witness:
  "\<exists>g'. connect [66, 67] [130, 1] connect_example = Inr ((), g') \<and>
     (\<forall>F v. model F g' v \<longleftrightarrow> model F connect_example v \<and> v 66 = v 130 \<and> v 67 = v 1)"
proof -
  obtain g' where g': "connect [66, 67] [130, 1] connect_example = Inr ((), g')"
    by (simp add: connect_def connect_example_def)
  show ?thesis
    using connect_adds_equations [OF g'] g' by auto
qed

end
