(* ===== verification/RvState.thy ===== *)
theory RvState
  imports SignExt
begin

text \<open>
  The decoded instruction of the Tribe processor (\<open>tribe_cpu/spec/State.h\<close>): one datatype
  per enumeration, whose first constructor has the code 0, and the record that travels down
  the pipeline. \<open>state_zero\<close> is the value-initialised structure.
\<close>

datatype alu_op = ANONE | Alu_ADD | Alu_SUB | Alu_AND | Alu_OR | Alu_XOR | Alu_SLL | Alu_SRL | Alu_SRA
  | Alu_SLT | Alu_SLTU | Alu_PASS | Alu_MUL | Alu_MULH | Alu_MULHSU | Alu_MULHU | Alu_DIV | Alu_DIVU
  | Alu_REM | Alu_REMU

datatype mem_op = MNONE | LOAD | STORE

datatype amo_op = AMONONE | LR_W | SC_W | AMOSWAP_W | AMOADD_W | AMOXOR_W | AMOAND_W | AMOOR_W
  | AMOMIN_W | AMOMAX_W | AMOMINU_W | AMOMAXU_W

datatype wb_op = WNONE | Wb_ALU | Wb_MEM | Wb_PC2 | Wb_PC4

datatype csr_op = CNONE | CSRRW | CSRRS | CSRRC | CSRRWI | CSRRSI | CSRRCI

datatype sys_op = SNONE | ECALL | EBREAK | MRET | SRET | WFI | FENCEI | SFENCE_VMA | Sys_TRAP | FENCE

datatype trap_op = TNONE | INST_MISALIGNED | ILLEGAL_INST | BREAKPOINT | LOAD_MISALIGNED | STORE_MISALIGNED
  | INST_PAGE_FAULT | LOAD_PAGE_FAULT | STORE_PAGE_FAULT | ECALL_U | ECALL_S | ECALL_M

datatype br_op = BNONE | BEQ | BNE | BLT | BGE | BLTU | BGEU | Br_JAL | Br_JALR | Br_JR | BEQZ | BNEZ

record pstate =
  st_pc :: u32
  st_rs1_val :: u32
  st_rs2_val :: u32
  st_imm :: u32
  st_valid :: bool
  st_alu_op :: alu_op
  st_mem_op :: mem_op
  st_wb_op :: wb_op
  st_br_op :: br_op
  st_funct3 :: "3 word"
  st_rd :: "5 word"
  st_rs1 :: "5 word"
  st_rs2 :: "5 word"
  st_amo_op :: amo_op
  st_csr_addr :: "12 word"
  st_csr_op :: csr_op
  st_csr_imm :: "5 word"
  st_csr_illegal :: bool
  st_sys_op :: sys_op
  st_trap_op :: trap_op

definition state_zero :: pstate where
  "state_zero =
     \<lparr>st_pc = 0, st_rs1_val = 0, st_rs2_val = 0, st_imm = 0, st_valid = False, st_alu_op = ANONE,
      st_mem_op = MNONE, st_wb_op = WNONE, st_br_op = BNONE, st_funct3 = 0, st_rd = 0, st_rs1 = 0, st_rs2 = 0,
      st_amo_op = AMONONE, st_csr_addr = 0, st_csr_op = CNONE, st_csr_imm = 0, st_csr_illegal = False,
      st_sys_op = SNONE, st_trap_op = TNONE\<rparr>"

end
