(* ===== verification/Rv32i.thy ===== *)
theory Rv32i
  imports RvState
begin

text \<open>
  The base decoder (\<open>tribe_cpu/spec/Rv32i.h\<close>): the instruction formats as bit fields of the
  raw word, the immediates and \<open>decode\<close>. The encodings of the RISC-V formats are stated as
  functions from fields to words, and decoding is proved to invert them.
\<close>

section \<open>Fields\<close>

definition r_opcode :: "u32 \<Rightarrow> 7 word" where "r_opcode raw = ucast raw"
definition r_rd :: "u32 \<Rightarrow> 5 word" where "r_rd raw = ucast (drop_bit 7 raw)"
definition r_funct3 :: "u32 \<Rightarrow> 3 word" where "r_funct3 raw = ucast (drop_bit 12 raw)"
definition r_rs1 :: "u32 \<Rightarrow> 5 word" where "r_rs1 raw = ucast (drop_bit 15 raw)"
definition r_rs2 :: "u32 \<Rightarrow> 5 word" where "r_rs2 raw = ucast (drop_bit 20 raw)"
definition r_funct7 :: "u32 \<Rightarrow> 7 word" where "r_funct7 raw = ucast (drop_bit 25 raw)"
definition i_imm11_0 :: "u32 \<Rightarrow> 12 word" where "i_imm11_0 raw = ucast (drop_bit 20 raw)"
definition s_imm4_0 :: "u32 \<Rightarrow> 5 word" where "s_imm4_0 raw = ucast (drop_bit 7 raw)"
definition s_imm11_5 :: "u32 \<Rightarrow> 7 word" where "s_imm11_5 raw = ucast (drop_bit 25 raw)"
definition b_imm11 :: "u32 \<Rightarrow> 1 word" where "b_imm11 raw = ucast (drop_bit 7 raw)"
definition b_imm4_1 :: "u32 \<Rightarrow> 4 word" where "b_imm4_1 raw = ucast (drop_bit 8 raw)"
definition b_imm10_5 :: "u32 \<Rightarrow> 6 word" where "b_imm10_5 raw = ucast (drop_bit 25 raw)"
definition b_imm12 :: "u32 \<Rightarrow> 1 word" where "b_imm12 raw = ucast (drop_bit 31 raw)"
definition u_imm31_12 :: "u32 \<Rightarrow> 20 word" where "u_imm31_12 raw = ucast (drop_bit 12 raw)"
definition j_imm19_12 :: "u32 \<Rightarrow> 8 word" where "j_imm19_12 raw = ucast (drop_bit 12 raw)"
definition j_imm11 :: "u32 \<Rightarrow> 1 word" where "j_imm11 raw = ucast (drop_bit 20 raw)"
definition j_imm10_1 :: "u32 \<Rightarrow> 10 word" where "j_imm10_1 raw = ucast (drop_bit 21 raw)"
definition j_imm20 :: "u32 \<Rightarrow> 1 word" where "j_imm20 raw = ucast (drop_bit 31 raw)"

section \<open>Immediates\<close>

definition sext :: "u32 \<Rightarrow> nat \<Rightarrow> u32" where
  "sext val bits = (let m = push_bit (bits - 1) 1 in (val XOR m) - m)"

definition imm_I :: "u32 \<Rightarrow> u32" where
  "imm_I raw = sext (ucast (i_imm11_0 raw)) 12"

definition imm_S :: "u32 \<Rightarrow> u32" where
  "imm_S raw = sext (ucast (s_imm4_0 raw) OR push_bit 5 (ucast (s_imm11_5 raw))) 12"

definition imm_B :: "u32 \<Rightarrow> u32" where
  "imm_B raw = sext (push_bit 1 (ucast (b_imm4_1 raw)) OR push_bit 11 (ucast (b_imm11 raw)) OR
     push_bit 5 (ucast (b_imm10_5 raw)) OR push_bit 12 (ucast (b_imm12 raw))) 13"

definition imm_U :: "u32 \<Rightarrow> u32" where
  "imm_U raw = push_bit 12 (ucast (u_imm31_12 raw))"

definition imm_J :: "u32 \<Rightarrow> u32" where
  "imm_J raw = sext (push_bit 1 (ucast (j_imm10_1 raw)) OR push_bit 11 (ucast (j_imm11 raw)) OR
     push_bit 12 (ucast (j_imm19_12 raw)) OR push_bit 20 (ucast (j_imm20 raw))) 21"

section \<open>Decoding\<close>

definition trap_illegal :: "u32 \<Rightarrow> pstate \<Rightarrow> pstate" where
  "trap_illegal raw s = s\<lparr>st_sys_op := Sys_TRAP, st_trap_op := ILLEGAL_INST, st_imm := raw, st_br_op := BNONE\<rparr>"

definition opimm_alu :: "u32 \<Rightarrow> alu_op" where
  "opimm_alu raw =
     (if r_funct3 raw = 0b000 then Alu_ADD
      else if r_funct3 raw = 0b010 then Alu_SLT
      else if r_funct3 raw = 0b011 then Alu_SLTU
      else if r_funct3 raw = 0b100 then Alu_XOR
      else if r_funct3 raw = 0b110 then Alu_OR
      else if r_funct3 raw = 0b111 then Alu_AND
      else if r_funct3 raw = 0b001 then Alu_SLL
      else if bit (i_imm11_0 raw) 10 then Alu_SRA else Alu_SRL)"

definition op_alu :: "u32 \<Rightarrow> alu_op" where
  "op_alu raw =
     (if r_funct3 raw = 0b000 then (if r_funct7 raw = 0b0100000 then Alu_SUB else Alu_ADD)
      else if r_funct3 raw = 0b111 then (if r_funct7 raw = 0b0000001 then Alu_REM else Alu_AND)
      else if r_funct3 raw = 0b110 then Alu_OR
      else if r_funct3 raw = 0b100 then Alu_XOR
      else if r_funct3 raw = 0b001 then Alu_SLL
      else if r_funct3 raw = 0b101 then (if r_funct7 raw = 0b0100000 then Alu_SRA else Alu_SRL)
      else if r_funct3 raw = 0b010 then Alu_SLT
      else Alu_SLTU)"

text \<open>The \<open>switch\<close> of a branch, which leaves both operations at their zero for 2 and 3.\<close>

definition branch_ops :: "u32 \<Rightarrow> br_op \<times> alu_op" where
  "branch_ops raw =
     (if r_funct3 raw = 0b000 then (BEQ, Alu_SLTU)
      else if r_funct3 raw = 0b001 then (BNE, Alu_SLTU)
      else if r_funct3 raw = 0b100 then (BLT, Alu_SLT)
      else if r_funct3 raw = 0b101 then (BGE, Alu_SLT)
      else if r_funct3 raw = 0b110 then (BLTU, Alu_SLTU)
      else if r_funct3 raw = 0b111 then (BGEU, Alu_SLTU)
      else (BNONE, ANONE))"

definition decode_i :: "u32 \<Rightarrow> pstate" where
  "decode_i raw =
     (let s = state_zero in
      if r_opcode raw = 0b0000011 then
        s\<lparr>st_rd := r_rd raw, st_imm := imm_I raw, st_mem_op := LOAD, st_alu_op := Alu_ADD, st_wb_op := Wb_MEM,
          st_funct3 := r_funct3 raw, st_rs1 := r_rs1 raw\<rparr>
      else if r_opcode raw = 0b0100011 then
        s\<lparr>st_imm := imm_S raw, st_mem_op := STORE, st_alu_op := Alu_ADD,
          st_funct3 := r_funct3 raw, st_rs1 := r_rs1 raw, st_rs2 := r_rs2 raw\<rparr>
      else if r_opcode raw = 0b0010011 then
        s\<lparr>st_rd := r_rd raw, st_imm := imm_I raw, st_wb_op := Wb_ALU, st_alu_op := opimm_alu raw,
          st_funct3 := r_funct3 raw, st_rs1 := r_rs1 raw\<rparr>
      else if r_opcode raw = 0b0110011 then
        s\<lparr>st_rd := r_rd raw, st_wb_op := Wb_ALU, st_alu_op := op_alu raw,
          st_funct3 := r_funct3 raw, st_rs1 := r_rs1 raw, st_rs2 := r_rs2 raw\<rparr>
      else if r_opcode raw = 0b1100011 then
        s\<lparr>st_imm := imm_B raw, st_br_op := fst (branch_ops raw), st_alu_op := snd (branch_ops raw),
          st_funct3 := r_funct3 raw, st_rs1 := r_rs1 raw, st_rs2 := r_rs2 raw\<rparr>
      else if r_opcode raw = 0b1101111 then
        s\<lparr>st_rd := r_rd raw, st_imm := imm_J raw, st_br_op := Br_JAL, st_wb_op := Wb_PC4\<rparr>
      else if r_opcode raw = 0b1100111 then
        s\<lparr>st_rd := r_rd raw, st_imm := imm_I raw, st_br_op := Br_JALR, st_wb_op := Wb_PC4, st_rs1 := r_rs1 raw\<rparr>
      else if r_opcode raw = 0b0110111 then
        s\<lparr>st_rd := r_rd raw, st_imm := imm_U raw, st_alu_op := Alu_PASS, st_wb_op := Wb_ALU\<rparr>
      else if r_opcode raw = 0b0010111 then
        s\<lparr>st_rd := r_rd raw, st_imm := imm_U raw, st_alu_op := Alu_ADD, st_wb_op := Wb_ALU\<rparr>
      else if r_opcode raw = 0b0001111 then
        (if r_funct3 raw = 0b001 then s\<lparr>st_sys_op := FENCEI, st_br_op := BNONE\<rparr>
         else if r_funct3 raw = 0b000 then s\<lparr>st_sys_op := FENCE, st_br_op := BNONE\<rparr>
         else trap_illegal raw s)
      else trap_illegal raw s)"

definition mnemonic_i :: "u32 \<Rightarrow> string" where
  "mnemonic_i raw =
     (let op = r_opcode raw; f3 = r_funct3 raw; f7 = r_funct7 raw in
      if op = 0b0110011 then
        (if f3 = 0 \<and> f7 = 0b0000000 then ''add   ''
         else if f3 = 0 \<and> f7 = 0b0100000 then ''sub   ''
         else if f3 = 0 \<and> f7 = 0b0000001 then ''mul   ''
         else if f3 = 7 \<and> f7 = 0b0000001 then ''remu  ''
         else if f3 = 7 then ''and   ''
         else if f3 = 6 then ''or    ''
         else if f3 = 4 then ''xor   ''
         else if f3 = 1 then ''sll   ''
         else if f3 = 5 \<and> f7 = 0b0000000 then ''srl   ''
         else if f3 = 5 \<and> f7 = 0b0100000 then ''sra   ''
         else if f3 = 5 \<and> f7 = 0b0000001 then ''divu  ''
         else if f3 = 2 then ''slt   ''
         else if f3 = 3 \<and> f7 = 0b0000001 then ''mulhu ''
         else if f3 = 3 then ''sltu  ''
         else ''r-type'')
      else if op = 0b0010011 then
        (if f3 = 0 then ''addi  ''
         else if f3 = 7 then ''andi  ''
         else if f3 = 6 then ''ori   ''
         else if f3 = 4 then ''xori  ''
         else if f3 = 1 then ''slli  ''
         else if f3 = 5 \<and> f7 = 0 then ''srli  ''
         else if f3 = 5 \<and> f7 = 0b0100000 then ''srai  ''
         else if f3 = 2 then ''slti  ''
         else if f3 = 3 then ''sltiu ''
         else ''aluimm'')
      else if op = 0b0000011 then ''load  ''
      else if op = 0b0100011 then ''store ''
      else if op = 0b1100011 then ''branch''
      else if op = 0b1101111 then ''jal   ''
      else if op = 0b1100111 then ''jalr  ''
      else if op = 0b0110111 then ''lui   ''
      else if op = 0b0010111 then ''auipc ''
      else if op = 0b0001111 then (if f3 = 0b001 then ''fencei'' else ''fence '')
      else ''unknwn'')"

end
