(* ===== verification/Rv32ic.thy ===== *)
theory Rv32ic
  imports Rv32i
begin

text \<open>
  The decoder of the compressed instructions (\<open>tribe_cpu/spec/Rv32ic.h\<close>), one definition per
  quadrant of the encoding; a raw word whose low bits are both set goes to the base decoder.
\<close>

definition c_bit :: "u32 \<Rightarrow> nat \<Rightarrow> u32" where
  "c_bit raw lo = drop_bit lo raw AND 1"

definition c_bits :: "u32 \<Rightarrow> nat \<Rightarrow> nat \<Rightarrow> u32" where
  "c_bits raw hi lo = drop_bit lo raw AND (push_bit (hi - lo + 1) 1 - 1)"

text \<open>The register number that a three-bit field names.\<close>

definition c_reg :: "u32 \<Rightarrow> 5 word" where
  "c_reg p = ucast (p + 8)"

text \<open>The signed six-bit immediate, shifted to the top and back to bit \<open>26 - down\<close>.\<close>

definition c_imm6 :: "u32 \<Rightarrow> nat \<Rightarrow> u32" where
  "c_imm6 raw down = signed_drop_bit down (push_bit 26 (push_bit 5 (c_bit raw 12) OR c_bits raw 6 2))"

definition c_imm_j :: "u32 \<Rightarrow> u32" where
  "c_imm_j raw =
     sext (push_bit 11 (c_bit raw 12) OR push_bit 10 (c_bit raw 8) OR push_bit 8 (c_bits raw 10 9) OR
       push_bit 7 (c_bit raw 6) OR push_bit 6 (c_bit raw 7) OR push_bit 5 (c_bit raw 2) OR
       push_bit 4 (c_bit raw 11) OR push_bit 1 (c_bits raw 5 3)) 12"

definition c_imm_b :: "u32 \<Rightarrow> u32" where
  "c_imm_b raw =
     (let imm = push_bit 8 (c_bit raw 12) OR push_bit 6 (c_bits raw 6 5) OR push_bit 5 (c_bit raw 2) OR
        push_bit 3 (c_bits raw 11 10) OR push_bit 1 (c_bits raw 4 3)
      in if c_bit raw 12 \<noteq> 0 then imm OR NOT 0x1FF else imm)"

definition c_imm_lw :: "u32 \<Rightarrow> u32" where
  "c_imm_lw raw = push_bit 6 (c_bit raw 5) OR push_bit 3 (c_bits raw 12 10) OR push_bit 2 (c_bit raw 6)"

definition decode_c0 :: "u32 \<Rightarrow> pstate \<Rightarrow> pstate" where
  "decode_c0 raw s =
     (let funct3 = c_bits raw 15 13; rd_p = c_bits raw 4 2; rs1_p = c_bits raw 9 7 in
      if funct3 = 0b000 then
        s\<lparr>st_rd := c_reg rd_p, st_rs1 := 2,
          st_imm := push_bit 6 (c_bits raw 10 7) OR push_bit 4 (c_bits raw 12 11) OR push_bit 3 (c_bit raw 5) OR
            push_bit 2 (c_bit raw 6), st_alu_op := Alu_ADD, st_wb_op := Wb_ALU\<rparr>
      else if funct3 = 0b010 then
        s\<lparr>st_rd := c_reg rd_p, st_rs1 := c_reg rs1_p, st_imm := c_imm_lw raw, st_alu_op := Alu_ADD,
          st_mem_op := LOAD, st_wb_op := Wb_MEM\<rparr>
      else if funct3 = 0b110 then
        s\<lparr>st_rs1 := c_reg rs1_p, st_rs2 := c_reg rd_p, st_imm := c_imm_lw raw, st_alu_op := Alu_ADD,
          st_mem_op := STORE\<rparr>
      else s)"

definition decode_c1_alu :: "u32 \<Rightarrow> pstate \<Rightarrow> pstate" where
  "decode_c1_alu raw s =
     (let rd_p = c_bits raw 4 2; rs1_p = c_bits raw 9 7; bits6_5 = c_bits raw 6 5; bits11_10 = c_bits raw 11 10;
        b12 = c_bit raw 12 in
      if bits11_10 = 0 then
        s\<lparr>st_rd := c_reg rs1_p, st_rs1 := c_reg rs1_p, st_imm := c_bits raw 6 2, st_alu_op := Alu_SRL, st_wb_op := Wb_ALU\<rparr>
      else if bits11_10 = 1 then
        s\<lparr>st_rd := c_reg rs1_p, st_rs1 := c_reg rs1_p, st_imm := c_bits raw 6 2, st_alu_op := Alu_SRA, st_wb_op := Wb_ALU\<rparr>
      else if bits11_10 = 2 then
        s\<lparr>st_rd := c_reg rs1_p, st_rs1 := c_reg rs1_p, st_imm := c_imm6 raw 26, st_alu_op := Alu_AND, st_wb_op := Wb_ALU\<rparr>
      else if bits11_10 = 3 \<and> b12 = 0 then
        s\<lparr>st_rd := c_reg rs1_p, st_rs1 := c_reg rs1_p, st_rs2 := c_reg rd_p,
          st_alu_op := (if bits6_5 = 0 then Alu_SUB else if bits6_5 = 1 then Alu_XOR else if bits6_5 = 2 then Alu_OR else Alu_AND),
          st_wb_op := Wb_ALU\<rparr>
      else s)"

definition decode_c1 :: "u32 \<Rightarrow> pstate \<Rightarrow> pstate" where
  "decode_c1 raw s =
     (let funct3 = c_bits raw 15 13; rd_rs1 = c_bits raw 11 7; rs1_p = c_bits raw 9 7 in
      if funct3 = 0b000 then
        s\<lparr>st_rd := ucast rd_rs1, st_rs1 := ucast rd_rs1, st_imm := c_imm6 raw 26, st_alu_op := Alu_ADD, st_wb_op := Wb_ALU\<rparr>
      else if funct3 = 0b001 then
        s\<lparr>st_rd := 1, st_wb_op := Wb_PC2, st_br_op := Br_JAL, st_imm := c_imm_j raw\<rparr>
      else if funct3 = 0b010 then
        s\<lparr>st_rd := ucast rd_rs1, st_imm := c_imm6 raw 26, st_alu_op := Alu_PASS, st_wb_op := Wb_ALU\<rparr>
      else if funct3 = 0b011 then
        (if rd_rs1 = 2 then
           s\<lparr>st_rd := 2, st_rs1 := 2,
             st_imm := sext (push_bit 9 (c_bit raw 12) OR push_bit 8 (c_bit raw 4) OR push_bit 7 (c_bit raw 3) OR
               push_bit 6 (c_bit raw 5) OR push_bit 5 (c_bit raw 2) OR push_bit 4 (c_bit raw 6)) 10,
             st_alu_op := Alu_ADD, st_wb_op := Wb_ALU\<rparr>
         else
           s\<lparr>st_rd := ucast rd_rs1, st_imm := c_imm6 raw 14, st_alu_op := Alu_PASS, st_wb_op := Wb_ALU\<rparr>)
      else if funct3 = 0b100 then decode_c1_alu raw s
      else if funct3 = 0b101 then s\<lparr>st_rd := 0, st_br_op := Br_JAL, st_imm := c_imm_j raw\<rparr>
      else if funct3 = 0b110 then
        s\<lparr>st_rs1 := c_reg rs1_p, st_br_op := BEQZ, st_alu_op := Alu_SLTU, st_imm := c_imm_b raw\<rparr>
      else if funct3 = 0b111 then
        s\<lparr>st_rs1 := c_reg rs1_p, st_br_op := BNEZ, st_alu_op := Alu_SLTU, st_imm := c_imm_b raw\<rparr>
      else s)"

definition decode_c2 :: "u32 \<Rightarrow> pstate \<Rightarrow> pstate" where
  "decode_c2 raw s =
     (let funct3 = c_bits raw 15 13; rd_rs1 = c_bits raw 11 7; rs2 = c_bits raw 6 2; b12 = c_bit raw 12 in
      if funct3 = 0b000 then
        s\<lparr>st_rd := ucast rd_rs1, st_rs1 := ucast rd_rs1, st_imm := push_bit 5 b12 OR c_bits raw 6 2,
          st_alu_op := Alu_SLL, st_wb_op := Wb_ALU\<rparr>
      else if funct3 = 0b010 then
        s\<lparr>st_rd := ucast rd_rs1, st_rs1 := 2,
          st_imm := push_bit 5 b12 OR push_bit 2 (c_bits raw 6 4) OR push_bit 6 (c_bits raw 3 2),
          st_alu_op := Alu_ADD, st_mem_op := LOAD, st_wb_op := Wb_MEM\<rparr>
      else if funct3 = 0b100 then
        (if rs2 = 0 \<and> rd_rs1 = 0 \<and> b12 = 1 then s\<lparr>st_sys_op := EBREAK, st_trap_op := BREAKPOINT\<rparr>
         else if rs2 \<noteq> 0 then
           (let s = s\<lparr>st_rd := ucast rd_rs1, st_rs2 := ucast rs2\<rparr>;
                s = (if b12 = 0 then s\<lparr>st_alu_op := Alu_PASS\<rparr>
                     else s\<lparr>st_rs1 := ucast rd_rs1, st_alu_op := Alu_ADD\<rparr>)
            in s\<lparr>st_wb_op := Wb_ALU\<rparr>)
         else if rs2 = 0 \<and> b12 = 0 then s\<lparr>st_rs1 := ucast rd_rs1, st_br_op := Br_JR, st_wb_op := Wb_PC2\<rparr>
         else if rs2 = 0 \<and> b12 = 1 then
           s\<lparr>st_rs1 := ucast rd_rs1, st_rd := 1, st_br_op := Br_JALR, st_wb_op := Wb_PC2\<rparr>
         else s)
      else if funct3 = 0b110 then
        s\<lparr>st_rs1 := 2, st_rs2 := ucast rs2, st_imm := push_bit 6 (c_bits raw 8 7) OR push_bit 2 (c_bits raw 12 9),
          st_mem_op := STORE, st_alu_op := Alu_ADD\<rparr>
      else s)"

definition decode_ic :: "u32 \<Rightarrow> pstate" where
  "decode_ic raw =
     (if raw AND 3 = 3 then decode_i raw
      else let opcode = c_bits raw 1 0; s = state_zero\<lparr>st_funct3 := 0b010\<rparr> in
        if opcode = 0b00 then decode_c0 raw s
        else if opcode = 0b01 then decode_c1 raw s
        else if opcode = 0b10 then decode_c2 raw s
        else s)"

definition mnemonic_c1 :: "u32 \<Rightarrow> string" where
  "mnemonic_c1 raw =
     (let f3 = c_bits raw 15 13; b12 = c_bit raw 12; bits6_5 = c_bits raw 6 5; bits11_10 = c_bits raw 11 10 in
      if f3 = 0b000 then ''addi  ''
      else if f3 = 0b001 then ''jal   ''
      else if f3 = 0b010 then ''li    ''
      else if f3 = 0b011 then ''addisp''
      else if f3 = 0b100 then
        (if bits11_10 = 0 then ''srli  ''
         else if bits11_10 = 1 then ''srai  ''
         else if bits11_10 = 2 then ''andi  ''
         else if bits11_10 = 3 \<and> b12 = 0 \<and> bits6_5 = 0 then ''sub   ''
         else if bits11_10 = 3 \<and> b12 = 0 \<and> bits6_5 = 1 then ''xor   ''
         else if bits11_10 = 3 \<and> b12 = 0 \<and> bits6_5 = 2 then ''or    ''
         else if bits11_10 = 3 \<and> b12 = 0 \<and> bits6_5 = 3 then ''and   ''
         else ''illgl '')
      else if f3 = 0b101 then ''j     ''
      else if f3 = 0b110 then ''beqz  ''
      else ''bnez  '')"

definition mnemonic_ic :: "u32 \<Rightarrow> string" where
  "mnemonic_ic raw =
     (if raw AND 3 = 3 then mnemonic_i raw
      else let op = c_bits raw 1 0; f3 = c_bits raw 15 13; b12 = c_bit raw 12; rs2 = c_bits raw 6 2 in
        if op = 0b00 then
          (if f3 = 0b000 then ''addi4s'' else if f3 = 0b010 then ''lw    '' else if f3 = 0b110 then ''sw    ''
           else if f3 = 0b011 then ''ld    '' else if f3 = 0b111 then ''sd    '' else ''rsrvd '')
        else if op = 0b01 then mnemonic_c1 raw
        else if op = 0b10 then
          (if f3 = 0b000 then ''slli  '' else if f3 = 0b001 then ''fldsp '' else if f3 = 0b010 then ''lwsp  ''
           else if f3 = 0b100 then
             (if rs2 \<noteq> 0 \<and> b12 = 0 then ''mv    '' else if rs2 \<noteq> 0 \<and> b12 = 1 then ''add   ''
              else if rs2 = 0 \<and> b12 = 0 then ''jr    '' else if rs2 = 0 \<and> b12 = 1 then ''jalr  '' else ''illgl '')
           else if f3 = 0b110 then ''swsp  '' else if f3 = 0b011 then ''ldsp  '' else if f3 = 0b111 then ''sdsp  ''
           else ''rsrvd '')
        else ''unknwn'')"

end
