(* ===== verification/Zicsr.thy ===== *)
theory Zicsr
  imports Rv32ic
begin

text \<open>
  The decoders stacked on the compressed one: multiplication (\<open>Rv32im.h\<close>), atomics
  (\<open>Rv32ia.h\<close>), system instructions (\<open>Zicsr.h\<close>) in the default configuration with atomics and
  address translation, and the decode stage (\<open>Decode.h\<close>) that adds the register values.
\<close>

definition muldiv_alu :: "u32 \<Rightarrow> alu_op" where
  "muldiv_alu raw =
     (if r_funct3 raw = 0b000 then Alu_MUL
      else if r_funct3 raw = 0b001 then Alu_MULH
      else if r_funct3 raw = 0b010 then Alu_MULHSU
      else if r_funct3 raw = 0b011 then Alu_MULHU
      else if r_funct3 raw = 0b100 then Alu_DIV
      else if r_funct3 raw = 0b101 then Alu_DIVU
      else if r_funct3 raw = 0b110 then Alu_REM
      else Alu_REMU)"

definition decode_im :: "u32 \<Rightarrow> pstate" where
  "decode_im raw =
     (if r_opcode raw = 0b0110011 \<and> r_funct7 raw = 0b0000001
      then state_zero\<lparr>st_rd := r_rd raw, st_wb_op := Wb_ALU, st_alu_op := muldiv_alu raw,
             st_funct3 := r_funct3 raw, st_rs1 := r_rs1 raw, st_rs2 := r_rs2 raw\<rparr>
      else decode_ic raw)"

definition mnemonic_im :: "u32 \<Rightarrow> string" where
  "mnemonic_im raw =
     (if r_opcode raw = 0b0110011 \<and> r_funct7 raw = 0b0000001 then
        (if r_funct3 raw = 0b000 then ''mul   '' else if r_funct3 raw = 0b001 then ''mulh  ''
         else if r_funct3 raw = 0b010 then ''mulhsu'' else if r_funct3 raw = 0b011 then ''mulhu ''
         else if r_funct3 raw = 0b100 then ''div   '' else if r_funct3 raw = 0b101 then ''divu  ''
         else if r_funct3 raw = 0b110 then ''rem   '' else ''remu  '')
      else mnemonic_ic raw)"

definition funct5 :: "u32 \<Rightarrow> 8 word" where
  "funct5 raw = ucast (drop_bit 27 raw)"

definition is_amo :: "u32 \<Rightarrow> bool" where
  "is_amo raw \<longleftrightarrow> raw AND 3 = 3 \<and> r_opcode raw = 0b0101111 \<and> r_funct3 raw = 0b010"

text \<open>The \<open>switch\<close> on \<open>funct5\<close>: the operation, its memory access and its write-back.\<close>

definition amo_ops :: "u32 \<Rightarrow> (amo_op \<times> mem_op \<times> wb_op) option" where
  "amo_ops raw =
     (if funct5 raw = 0b00010
      then Some (if r_rs2 raw = 0 then (LR_W, LOAD, Wb_MEM) else (AMONONE, MNONE, WNONE))
      else if funct5 raw = 0b00011 then Some (SC_W, STORE, Wb_ALU)
      else if funct5 raw = 0b00001 then Some (AMOSWAP_W, LOAD, Wb_MEM)
      else if funct5 raw = 0b00000 then Some (AMOADD_W, LOAD, Wb_MEM)
      else if funct5 raw = 0b00100 then Some (AMOXOR_W, LOAD, Wb_MEM)
      else if funct5 raw = 0b01100 then Some (AMOAND_W, LOAD, Wb_MEM)
      else if funct5 raw = 0b01000 then Some (AMOOR_W, LOAD, Wb_MEM)
      else if funct5 raw = 0b10000 then Some (AMOMIN_W, LOAD, Wb_MEM)
      else if funct5 raw = 0b10100 then Some (AMOMAX_W, LOAD, Wb_MEM)
      else if funct5 raw = 0b11000 then Some (AMOMINU_W, LOAD, Wb_MEM)
      else if funct5 raw = 0b11100 then Some (AMOMAXU_W, LOAD, Wb_MEM)
      else None)"

definition decode_ia :: "u32 \<Rightarrow> pstate" where
  "decode_ia raw =
     (if is_amo raw then
        let s = state_zero\<lparr>st_rd := r_rd raw, st_rs1 := r_rs1 raw, st_rs2 := r_rs2 raw, st_funct3 := r_funct3 raw,
              st_imm := 0, st_alu_op := Alu_ADD\<rparr>;
            s = (case amo_ops raw of
                   Some (amo, mem, wb) \<Rightarrow> s\<lparr>st_amo_op := amo, st_mem_op := mem, st_wb_op := wb\<rparr>
                 | None \<Rightarrow> trap_illegal raw state_zero)
        in if st_amo_op s = AMONONE then trap_illegal raw s else s
      else decode_im raw)"

definition mnemonic_ia :: "u32 \<Rightarrow> string" where
  "mnemonic_ia raw =
     (if is_amo raw \<and> funct5 raw = 0b00010 \<and> r_rs2 raw = 0 then ''lr.w  ''
      else if is_amo raw \<and> funct5 raw = 0b00011 then ''sc.w  ''
      else if is_amo raw \<and> funct5 raw = 0b00001 then ''amoswp''
      else if is_amo raw \<and> funct5 raw = 0b00000 then ''amoadd''
      else if is_amo raw \<and> funct5 raw = 0b00100 then ''amoxor''
      else if is_amo raw \<and> funct5 raw = 0b01100 then ''amoand''
      else if is_amo raw \<and> funct5 raw = 0b01000 then ''amoor ''
      else if is_amo raw \<and> funct5 raw = 0b10000 then ''amomin''
      else if is_amo raw \<and> funct5 raw = 0b10100 then ''amomax''
      else if is_amo raw \<and> funct5 raw = 0b11000 then ''amomiu''
      else if is_amo raw \<and> funct5 raw = 0b11100 then ''amomau''
      else mnemonic_im raw)"

definition is_system :: "u32 \<Rightarrow> bool" where
  "is_system raw \<longleftrightarrow> raw AND 3 = 3 \<and> r_opcode raw = 0b1110011"

definition decode_priv :: "u32 \<Rightarrow> pstate" where
  "decode_priv raw =
     (if raw = 0x00000073 then state_zero\<lparr>st_sys_op := ECALL, st_imm := raw, st_br_op := BNONE\<rparr>
      else if raw = 0x00100073
      then state_zero\<lparr>st_sys_op := EBREAK, st_trap_op := BREAKPOINT, st_imm := raw, st_br_op := BNONE\<rparr>
      else if raw = 0x30200073 then state_zero\<lparr>st_sys_op := MRET, st_imm := 0, st_br_op := BNONE\<rparr>
      else if raw = 0x10200073 then state_zero\<lparr>st_sys_op := SRET, st_imm := 0, st_br_op := BNONE\<rparr>
      else if raw = 0x10500073 then state_zero\<lparr>st_sys_op := WFI, st_imm := raw\<rparr>
      else if raw AND 0xfe007fff = 0x12000073
      then state_zero\<lparr>st_sys_op := SFENCE_VMA, st_rs1 := r_rs1 raw, st_rs2 := r_rs2 raw, st_imm := raw\<rparr>
      else trap_illegal raw state_zero)"

definition decode_csr :: "u32 \<Rightarrow> pstate" where
  "decode_csr raw =
     (let s = state_zero\<lparr>st_rd := r_rd raw, st_funct3 := r_funct3 raw, st_csr_addr := i_imm11_0 raw,
            st_csr_imm := r_rs1 raw, st_imm := raw\<rparr>;
          wb = (if r_rd raw \<noteq> 0 then Wb_ALU else WNONE)
      in if r_funct3 raw = 0b001 then s\<lparr>st_csr_op := CSRRW, st_rs1 := r_rs1 raw, st_wb_op := wb\<rparr>
         else if r_funct3 raw = 0b010 then s\<lparr>st_csr_op := CSRRS, st_rs1 := r_rs1 raw, st_wb_op := wb\<rparr>
         else if r_funct3 raw = 0b011 then s\<lparr>st_csr_op := CSRRC, st_rs1 := r_rs1 raw, st_wb_op := wb\<rparr>
         else if r_funct3 raw = 0b101 then s\<lparr>st_csr_op := CSRRWI, st_wb_op := wb\<rparr>
         else if r_funct3 raw = 0b110 then s\<lparr>st_csr_op := CSRRSI, st_wb_op := wb\<rparr>
         else if r_funct3 raw = 0b111 then s\<lparr>st_csr_op := CSRRCI, st_wb_op := wb\<rparr>
         else trap_illegal raw state_zero)"

definition decode_zicsr :: "u32 \<Rightarrow> pstate" where
  "decode_zicsr raw =
     (if is_system raw then if r_funct3 raw = 0 then decode_priv raw else decode_csr raw
      else decode_ia raw)"

definition mnemonic_zicsr :: "u32 \<Rightarrow> string" where
  "mnemonic_zicsr raw =
     (if is_system raw \<and> raw = 0x00000073 then ''ecall ''
      else if is_system raw \<and> raw = 0x00100073 then ''ebreak''
      else if is_system raw \<and> raw = 0x30200073 then ''mret  ''
      else if is_system raw \<and> raw = 0x10200073 then ''sret  ''
      else if is_system raw \<and> raw = 0x10500073 then ''wfi   ''
      else if is_system raw \<and> raw AND 0xfe007fff = 0x12000073 then ''sfence''
      else if is_system raw \<and> r_funct3 raw = 0b001 then ''csrrw ''
      else if is_system raw \<and> r_funct3 raw = 0b010 then ''csrrs ''
      else if is_system raw \<and> r_funct3 raw = 0b011 then ''csrrc ''
      else if is_system raw \<and> r_funct3 raw = 0b101 then ''csrrwi''
      else if is_system raw \<and> r_funct3 raw = 0b110 then ''csrrsi''
      else if is_system raw \<and> r_funct3 raw = 0b111 then ''csrrci''
      else mnemonic_ia raw)"

section \<open>The decode stage\<close>

record decode_in =
  d_pc_in :: u32
  d_instr_valid_in :: bool
  d_instr_in :: u32
  d_regs_data0_in :: u32
  d_regs_data1_in :: u32

definition state_comb :: "decode_in \<Rightarrow> pstate" where
  "state_comb d =
     (let raw = d_instr_in d;
          s = decode_zicsr raw;
          s = (if raw AND 3 = 3 \<and> r_opcode raw = 0b0010111 then s\<lparr>st_rs1_val := d_pc_in d\<rparr> else s);
          s = s\<lparr>st_valid := d_instr_valid_in d, st_pc := d_pc_in d\<rparr>;
          s = (if st_rs1 s \<noteq> 0 then s\<lparr>st_rs1_val := d_regs_data0_in d\<rparr> else s)
      in if st_rs2 s \<noteq> 0 then s\<lparr>st_rs2_val := d_regs_data1_in d\<rparr> else s)"

definition rs1_out_comb :: "decode_in \<Rightarrow> 5 word" where
  "rs1_out_comb d = st_rs1 (state_comb d)"

definition rs2_out_comb :: "decode_in \<Rightarrow> 5 word" where
  "rs2_out_comb d = st_rs2 (state_comb d)"

end
