(* ===== verification/Isa.thy ===== *)
theory Isa
  imports Zicsr
begin

text \<open>
  The instruction formats of the RISC-V manual as an encoder from abstract instructions to
  words, and the proof that the decoders of the processor invert it.
\<close>

section \<open>Encodings\<close>

text \<open>An instruction word from its six fields, lowest first.\<close>

definition pack :: "7 word \<Rightarrow> 5 word \<Rightarrow> 3 word \<Rightarrow> 5 word \<Rightarrow> 5 word \<Rightarrow> 7 word \<Rightarrow> u32" where
  "pack opc rd f3 rs1 rs2 f7 =
     ucast opc OR push_bit 7 (ucast rd) OR push_bit 12 (ucast f3) OR push_bit 15 (ucast rs1) OR
     push_bit 20 (ucast rs2) OR push_bit 25 (ucast f7)"

lemma bit_pack:
  "bit (pack opc rd f3 rs1 rs2 f7) n \<longleftrightarrow>
    (if n < 7 then bit opc n else if n < 12 then bit rd (n - 7) else if n < 15 then bit f3 (n - 12)
     else if n < 20 then bit rs1 (n - 15) else if n < 25 then bit rs2 (n - 20) else n < 32 \<and> bit f7 (n - 25))"
proof -
  have "bit (pack opc rd f3 rs1 rs2 f7) n \<longleftrightarrow> n < 32 \<and> (bit opc n \<or> 7 \<le> n \<and> bit rd (n - 7) \<or> 12 \<le> n \<and> bit f3 (n - 12) \<or>
      15 \<le> n \<and> bit rs1 (n - 15) \<or> 20 \<le> n \<and> bit rs2 (n - 20) \<or> 25 \<le> n \<and> bit f7 (n - 25))"
    unfolding pack_def bit_or_iff bit_push_bit_iff bit_ucast_iff by auto
  moreover have "bit opc n \<Longrightarrow> n < 7" "bit rd (n - 7) \<Longrightarrow> n < 12" "bit f3 (n - 12) \<Longrightarrow> n < 15"
    "bit rs1 (n - 15) \<Longrightarrow> n < 20" "bit rs2 (n - 20) \<Longrightarrow> n < 25"
    using bit_imp_le_length [of opc n] bit_imp_le_length [of rd "n - 7"] bit_imp_le_length [of f3 "n - 12"]
      bit_imp_le_length [of rs1 "n - 15"] bit_imp_le_length [of rs2 "n - 20"] by auto
  ultimately show ?thesis
    by auto
qed

lemma field_pack:
  "r_opcode (pack opc rd f3 rs1 rs2 f7) = opc"
  "r_rd (pack opc rd f3 rs1 rs2 f7) = rd"
  "r_funct3 (pack opc rd f3 rs1 rs2 f7) = f3"
  "r_rs1 (pack opc rd f3 rs1 rs2 f7) = rs1"
  "r_rs2 (pack opc rd f3 rs1 rs2 f7) = rs2"
  "r_funct7 (pack opc rd f3 rs1 rs2 f7) = f7"
  by (rule bit_word_eqI; simp add: r_opcode_def r_rd_def r_funct3_def r_rs1_def r_rs2_def r_funct7_def
      bit_ucast_iff bit_drop_bit_eq bit_pack)+

lemma sext_scast: "LENGTH('b) \<le> 32 \<Longrightarrow> sext (ucast x) LENGTH('b) = scast x" for x :: "'b :: len word"
  using xor_minus_scast [of x, where 'a = 32] by (simp add: sext_def Let_def push_bit_eq_mult)

lemma i_imm11_0_pack: "i_imm11_0 (pack opc rd f3 rs1 (ucast imm) (ucast (drop_bit 5 imm))) = imm"
  by (rule bit_word_eqI) (auto simp: i_imm11_0_def bit_ucast_iff bit_drop_bit_eq bit_pack)

lemma imm_I_pack: "imm_I (pack opc rd f3 rs1 (ucast imm) (ucast (drop_bit 5 imm))) = scast imm" for imm :: "12 word"
  using sext_scast [of imm] by (simp add: imm_I_def i_imm11_0_pack)

lemma imm_S_pack: "imm_S (pack opc (ucast imm) f3 rs1 rs2 (ucast (drop_bit 5 imm))) = scast imm" for imm :: "12 word"
proof -
  let ?w = "pack opc (ucast imm) f3 rs1 rs2 (ucast (drop_bit 5 imm))"
  have "ucast (s_imm4_0 ?w) OR push_bit 5 (ucast (s_imm11_5 ?w)) = (ucast imm :: u32)"
    by (rule bit_word_eqI)
      (auto simp: s_imm4_0_def s_imm11_5_def bit_or_iff bit_push_bit_iff bit_ucast_iff bit_drop_bit_eq bit_pack dest: bit_imp_le_length)
  then show ?thesis
    using sext_scast [of imm] by (simp add: imm_S_def)
qed

lemma less_13: "(n :: nat) < 13 \<longleftrightarrow> n \<in> {0, 1, 2, 3, 4, 5, 6, 7, 8, 9, 10, 11, 12}"
  by (simp only: insert_iff empty_iff) presburger

lemma less_21: "(n :: nat) < 21 \<longleftrightarrow> n \<in> {0, 1, 2, 3, 4, 5, 6, 7, 8, 9, 10, 11, 12, 13, 14, 15, 16, 17, 18, 19, 20}"
  by (simp only: insert_iff empty_iff) presburger

lemma bit_field:
  "bit (push_bit s (ucast (ucast (drop_bit d w) :: 'b :: len word)) :: u32) n \<longleftrightarrow>
    n < 32 \<and> s \<le> n \<and> n - s < LENGTH('b) \<and> bit w (d + (n - s))"
  for w :: u32
  by (auto simp: bit_push_bit_iff bit_ucast_iff bit_drop_bit_eq)

definition b_rd :: "13 word \<Rightarrow> 5 word" where
  "b_rd imm = ucast (drop_bit 11 imm AND 1) OR (ucast imm AND NOT 1)"

definition b_f7 :: "13 word \<Rightarrow> 7 word" where
  "b_f7 imm = (ucast (drop_bit 5 imm) AND mask 6) OR push_bit 6 (ucast (drop_bit 12 imm))"

lemma imm_B_pack:
  assumes "\<not> bit imm 0"
  shows "imm_B (pack opc (b_rd imm) f3 rs1 rs2 (b_f7 imm)) = scast imm"
proof -
  let ?w = "pack opc (b_rd imm) f3 rs1 rs2 (b_f7 imm)"
  let ?v = "push_bit 1 (ucast (b_imm4_1 ?w)) OR push_bit 11 (ucast (b_imm11 ?w)) OR
     push_bit 5 (ucast (b_imm10_5 ?w)) OR push_bit 12 (ucast (b_imm12 ?w)) :: u32"
  have rd: "bit (b_rd imm) n \<longleftrightarrow> (if n = 0 then bit imm 11 else n < 5 \<and> bit imm n)" for n
    by (auto simp: b_rd_def bit_or_iff bit_and_iff bit_not_iff bit_ucast_iff bit_drop_bit_eq bit_1_iff)
  have f7: "bit (b_f7 imm) n \<longleftrightarrow> (if n < 6 then bit imm (n + 5) else n = 6 \<and> bit imm 12)" for n
    using bit_beyond_word [of "12 + (n - 6)" imm]
    by (cases "n < 6"; cases "n = 6")
      (simp_all add: b_f7_def bit_or_iff bit_and_iff bit_push_bit_iff bit_ucast_iff bit_drop_bit_eq bit_mask_iff add.commute)
  note v = bit_or_iff b_imm4_1_def b_imm11_def b_imm10_5_def b_imm12_def bit_field
  have "?v = ucast imm"
  proof (rule bit_word_eqI)
    fix n
    show "bit ?v n \<longleftrightarrow> bit (ucast imm :: u32) n"
    proof (cases "n < 13")
      case True
      then show ?thesis
        unfolding less_13 by (elim insertE emptyE; simp only: v) (use assms in \<open>simp_all add: bit_pack rd f7 bit_ucast_iff\<close>)
    next
      case False
      then have "\<not> n - 1 < 4" "\<not> n - 5 < 6"
        by arith+
      then show ?thesis
        unfolding v using False bit_beyond_word [of n imm] by (simp add: bit_ucast_iff)
    qed
  qed
  then show ?thesis
    using sext_scast [of imm] by (simp add: imm_B_def)
qed

definition j_f3 :: "21 word \<Rightarrow> 3 word" where "j_f3 imm = ucast (drop_bit 12 imm)"
definition j_rs1 :: "21 word \<Rightarrow> 5 word" where "j_rs1 imm = ucast (drop_bit 15 imm)"
definition j_rs2 :: "21 word \<Rightarrow> 5 word" where
  "j_rs2 imm = (ucast (drop_bit 11 imm) AND 1) OR (ucast imm AND NOT 1)"
definition j_f7 :: "21 word \<Rightarrow> 7 word" where
  "j_f7 imm = (ucast (drop_bit 5 imm) AND mask 6) OR push_bit 6 (ucast (drop_bit 20 imm))"

lemma imm_J_pack:
  assumes "\<not> bit imm 0"
  shows "imm_J (pack opc rd (j_f3 imm) (j_rs1 imm) (j_rs2 imm) (j_f7 imm)) = scast imm"
proof -
  let ?w = "pack opc rd (j_f3 imm) (j_rs1 imm) (j_rs2 imm) (j_f7 imm)"
  let ?v = "push_bit 1 (ucast (j_imm10_1 ?w)) OR push_bit 11 (ucast (j_imm11 ?w)) OR
     push_bit 12 (ucast (j_imm19_12 ?w)) OR push_bit 20 (ucast (j_imm20 ?w)) :: u32"
  have f3: "bit (j_f3 imm) n \<longleftrightarrow> n < 3 \<and> bit imm (n + 12)" and rs1: "bit (j_rs1 imm) n \<longleftrightarrow> n < 5 \<and> bit imm (n + 15)" for n
    by (auto simp: j_f3_def j_rs1_def bit_ucast_iff bit_drop_bit_eq add.commute)
  have rs2: "bit (j_rs2 imm) n \<longleftrightarrow> (if n = 0 then bit imm 11 else n < 5 \<and> bit imm n)" for n
    by (auto simp: j_rs2_def bit_or_iff bit_and_iff bit_not_iff bit_ucast_iff bit_drop_bit_eq bit_1_iff)
  have f7: "bit (j_f7 imm) n \<longleftrightarrow> (if n < 6 then bit imm (n + 5) else n = 6 \<and> bit imm 20)" for n
    using bit_beyond_word [of "20 + (n - 6)" imm]
    by (cases "n < 6"; cases "n = 6")
      (simp_all add: j_f7_def bit_or_iff bit_and_iff bit_push_bit_iff bit_ucast_iff bit_drop_bit_eq bit_mask_iff add.commute)
  note v = bit_or_iff j_imm10_1_def j_imm11_def j_imm19_12_def j_imm20_def bit_field
  have "?v = ucast imm"
  proof (rule bit_word_eqI)
    fix n
    show "bit ?v n \<longleftrightarrow> bit (ucast imm :: u32) n"
    proof (cases "n < 21")
      case True
      then show ?thesis
        unfolding less_21 by (elim insertE emptyE; simp only: v) (use assms in \<open>simp_all add: bit_pack f3 rs1 rs2 f7 bit_ucast_iff\<close>)
    next
      case False
      then have "\<not> n - 1 < 10" "\<not> n - 12 < 8"
        by arith+
      then show ?thesis
        unfolding v using False bit_beyond_word [of n imm] by (simp add: bit_ucast_iff)
    qed
  qed
  then show ?thesis
    using sext_scast [of imm] by (simp add: imm_J_def)
qed

definition u_f3 :: "20 word \<Rightarrow> 3 word" where "u_f3 imm = ucast imm"
definition u_rs1 :: "20 word \<Rightarrow> 5 word" where "u_rs1 imm = ucast (drop_bit 3 imm)"
definition u_rs2 :: "20 word \<Rightarrow> 5 word" where "u_rs2 imm = ucast (drop_bit 8 imm)"
definition u_f7 :: "20 word \<Rightarrow> 7 word" where "u_f7 imm = ucast (drop_bit 13 imm)"

lemma imm_U_pack: "imm_U (pack opc rd (u_f3 imm) (u_rs1 imm) (u_rs2 imm) (u_f7 imm)) = push_bit 12 (ucast imm)"
proof -
  have "u_imm31_12 (pack opc rd (u_f3 imm) (u_rs1 imm) (u_rs2 imm) (u_f7 imm)) = imm"
    by (rule bit_word_eqI) (auto simp: u_imm31_12_def u_f3_def u_rs1_def u_rs2_def u_f7_def bit_ucast_iff bit_drop_bit_eq bit_pack)
  then show ?thesis
    by (simp add: imm_U_def)
qed

section \<open>Instructions\<close>

text \<open>The instructions of the base set and of multiplication, with the encoding of the manual.\<close>

datatype insn =
    I_Load "3 word" "5 word" "5 word" "12 word"
  | I_Store "3 word" "5 word" "5 word" "12 word"
  | I_OpImm "3 word" "5 word" "5 word" "12 word"
  | I_Op "3 word" "7 word" "5 word" "5 word" "5 word"
  | I_Branch "3 word" "5 word" "5 word" "13 word"
  | I_Jal "5 word" "21 word"
  | I_Jalr "5 word" "5 word" "12 word"
  | I_Lui "5 word" "20 word"
  | I_Auipc "5 word" "20 word"
  | I_Csr "3 word" "5 word" "5 word" "12 word"

fun encode :: "insn \<Rightarrow> u32" where
  "encode (I_Load f3 rd rs1 imm) = pack 0b0000011 rd f3 rs1 (ucast imm) (ucast (drop_bit 5 imm))"
| "encode (I_Store f3 rs1 rs2 imm) = pack 0b0100011 (ucast imm) f3 rs1 rs2 (ucast (drop_bit 5 imm))"
| "encode (I_OpImm f3 rd rs1 imm) = pack 0b0010011 rd f3 rs1 (ucast imm) (ucast (drop_bit 5 imm))"
| "encode (I_Op f3 f7 rd rs1 rs2) = pack 0b0110011 rd f3 rs1 rs2 f7"
| "encode (I_Branch f3 rs1 rs2 imm) = pack 0b1100011 (b_rd imm) f3 rs1 rs2 (b_f7 imm)"
| "encode (I_Jal rd imm) = pack 0b1101111 rd (j_f3 imm) (j_rs1 imm) (j_rs2 imm) (j_f7 imm)"
| "encode (I_Jalr rd rs1 imm) = pack 0b1100111 rd 0 rs1 (ucast imm) (ucast (drop_bit 5 imm))"
| "encode (I_Lui rd imm) = pack 0b0110111 rd (u_f3 imm) (u_rs1 imm) (u_rs2 imm) (u_f7 imm)"
| "encode (I_Auipc rd imm) = pack 0b0010111 rd (u_f3 imm) (u_rs1 imm) (u_rs2 imm) (u_f7 imm)"
| "encode (I_Csr f3 rd rs1 csr) = pack 0b1110011 rd f3 rs1 (ucast csr) (ucast (drop_bit 5 csr))"

text \<open>The instructions of the manual; other codes of these formats are reserved.\<close>

fun legal :: "insn \<Rightarrow> bool" where
  "legal (I_Load f3 rd rs1 imm) = (f3 \<in> {0, 1, 2, 4, 5})"
| "legal (I_Store f3 rs1 rs2 imm) = (f3 \<in> {0, 1, 2})"
| "legal (I_OpImm f3 rd rs1 imm) =
     ((f3 = 1 \<longrightarrow> drop_bit 5 imm = 0) \<and> (f3 = 5 \<longrightarrow> drop_bit 5 imm = 0 \<or> drop_bit 5 imm = 32))"
| "legal (I_Op f3 f7 rd rs1 rs2) = (f7 = 0 \<or> f7 = 1 \<or> f7 = 32 \<and> (f3 = 0 \<or> f3 = 5))"
| "legal (I_Branch f3 rs1 rs2 imm) = (f3 \<noteq> 2 \<and> f3 \<noteq> 3 \<and> \<not> bit imm 0)"
| "legal (I_Jal rd imm) = (\<not> bit imm 0)"
| "legal (I_Csr f3 rd rs1 csr) = (f3 \<noteq> 0 \<and> f3 \<noteq> 4)"
| "legal _ = True"

text \<open>What decoding is to give: the operation of the execute stage and its operands.\<close>

definition op_meaning :: "3 word \<Rightarrow> 7 word \<Rightarrow> alu_op" where
  "op_meaning f3 f7 =
     (if f7 = 1
      then [Alu_MUL, Alu_MULH, Alu_MULHSU, Alu_MULHU, Alu_DIV, Alu_DIVU, Alu_REM, Alu_REMU] ! unat f3
      else if f7 = 32 then if f3 = 0 then Alu_SUB else Alu_SRA
      else [Alu_ADD, Alu_SLL, Alu_SLT, Alu_SLTU, Alu_XOR, Alu_SRL, Alu_OR, Alu_AND] ! unat f3)"

fun meaning :: "insn \<Rightarrow> pstate" where
  "meaning (I_Load f3 rd rs1 imm) =
     state_zero\<lparr>st_mem_op := LOAD, st_alu_op := Alu_ADD, st_wb_op := Wb_MEM, st_funct3 := f3, st_rd := rd, st_rs1 := rs1,
       st_imm := scast imm\<rparr>"
| "meaning (I_Store f3 rs1 rs2 imm) =
     state_zero\<lparr>st_mem_op := STORE, st_alu_op := Alu_ADD, st_funct3 := f3, st_rs1 := rs1, st_rs2 := rs2, st_imm := scast imm\<rparr>"
| "meaning (I_OpImm f3 rd rs1 imm) =
     state_zero\<lparr>st_wb_op := Wb_ALU, st_alu_op := op_meaning f3 (if f3 = 5 \<and> drop_bit 5 imm = 32 then 32 else 0),
       st_funct3 := f3, st_rd := rd, st_rs1 := rs1, st_imm := scast imm\<rparr>"
| "meaning (I_Op f3 f7 rd rs1 rs2) =
     state_zero\<lparr>st_wb_op := Wb_ALU, st_alu_op := op_meaning f3 f7, st_funct3 := f3, st_rd := rd, st_rs1 := rs1, st_rs2 := rs2\<rparr>"
| "meaning (I_Branch f3 rs1 rs2 imm) =
     state_zero\<lparr>st_br_op := [BEQ, BNE, BNONE, BNONE, BLT, BGE, BLTU, BGEU] ! unat f3,
       st_alu_op := [Alu_SLTU, Alu_SLTU, ANONE, ANONE, Alu_SLT, Alu_SLT, Alu_SLTU, Alu_SLTU] ! unat f3,
       st_funct3 := f3, st_rs1 := rs1, st_rs2 := rs2, st_imm := scast imm\<rparr>"
| "meaning (I_Jal rd imm) = state_zero\<lparr>st_br_op := Br_JAL, st_wb_op := Wb_PC4, st_rd := rd, st_imm := scast imm\<rparr>"
| "meaning (I_Jalr rd rs1 imm) =
     state_zero\<lparr>st_br_op := Br_JALR, st_wb_op := Wb_PC4, st_rd := rd, st_rs1 := rs1, st_imm := scast imm\<rparr>"
| "meaning (I_Lui rd imm) =
     state_zero\<lparr>st_wb_op := Wb_ALU, st_alu_op := Alu_PASS, st_rd := rd, st_imm := push_bit 12 (ucast imm)\<rparr>"
| "meaning (I_Auipc rd imm) =
     state_zero\<lparr>st_wb_op := Wb_ALU, st_alu_op := Alu_ADD, st_rd := rd, st_imm := push_bit 12 (ucast imm)\<rparr>"
| "meaning (I_Csr f3 rd rs1 csr) =
     state_zero\<lparr>st_csr_op := [CNONE, CSRRW, CSRRS, CSRRC, CNONE, CSRRWI, CSRRSI, CSRRCI] ! unat f3,
       st_wb_op := (if rd \<noteq> 0 then Wb_ALU else WNONE), st_funct3 := f3, st_rd := rd,
       st_rs1 := (if unat f3 < 4 then rs1 else 0), st_csr_imm := rs1, st_csr_addr := csr,
       st_imm := encode (I_Csr f3 rd rs1 csr)\<rparr>"

lemma three_bits: "x = 0 \<or> x = 1 \<or> x = 2 \<or> x = 3 \<or> x = 4 \<or> x = 5 \<or> x = 6 \<or> x = 7" for x :: "3 word"
proof -
  have "unat x < 8"
    using unsigned_less [of x, where 'a = nat] by simp
  then have "unat x \<in> {0, 1, 2, 3, 4, 5, 6, 7}"
    by auto
  then show ?thesis
    by (auto simp: word_unat_eq_iff)
qed

lemma low_bits_pack: "pack opc rd f3 rs1 rs2 f7 AND 3 = 3 \<longleftrightarrow> bit opc 0 \<and> bit opc 1"
proof -
  have "(3 :: u32) = mask 2"
    by (simp add: mask_eq_exp_minus_1)
  moreover have "w AND mask 2 = mask 2 \<longleftrightarrow> bit w 0 \<and> bit w 1" for w :: u32
  proof
    assume eq: "w AND mask 2 = mask 2"
    have "bit (w AND mask 2) 0" "bit (w AND mask 2) 1"
      unfolding eq by (simp_all add: bit_mask_iff)
    then show "bit w 0 \<and> bit w 1"
      unfolding bit_and_iff by blast
  next
    assume "bit w 0 \<and> bit w 1"
    then show "w AND mask 2 = mask 2"
      by (intro bit_word_eqI) (auto simp: bit_and_iff bit_mask_iff less_2_cases_iff simp del: bit_0)
  qed
  ultimately show ?thesis
    by (simp only: bit_pack) simp
qed

lemma decode_plain:
  "opc \<noteq> 0b1110011 \<Longrightarrow> opc \<noteq> 0b0101111 \<Longrightarrow> bit opc 0 \<and> bit opc 1 \<Longrightarrow> opc \<noteq> 0b0110011 \<or> f7 \<noteq> 1 \<Longrightarrow>
    decode_zicsr (pack opc rd f3 rs1 rs2 f7) = decode_i (pack opc rd f3 rs1 rs2 f7)"
  by (auto simp: decode_zicsr_def is_system_def decode_ia_def is_amo_def decode_im_def decode_ic_def field_pack low_bits_pack)

lemma shift_amount_bit:
  fixes imm :: "12 word"
  assumes "drop_bit 5 imm = 0 \<or> drop_bit 5 imm = 32"
  shows "bit imm 10 \<longleftrightarrow> drop_bit 5 imm = 32"
proof -
  have "bit imm 10 \<longleftrightarrow> bit (drop_bit 5 imm) 5"
    by (simp add: bit_drop_bit_eq)
  then show ?thesis
    using assms by auto
qed

lemma opimm_meaning:
  assumes "legal (I_OpImm f3 rd rs1 imm)"
  shows "opimm_alu (encode (I_OpImm f3 rd rs1 imm)) = op_meaning f3 (if f3 = 5 \<and> drop_bit 5 imm = 32 then 32 else 0)"
  using three_bits [of f3] assms shift_amount_bit [of imm]
  by (elim disjE) (simp_all add: opimm_alu_def op_meaning_def field_pack i_imm11_0_pack)

lemma op_meaning_decoded:
  assumes "legal (I_Op f3 f7 rd rs1 rs2)"
  shows "(if f7 = 1 then muldiv_alu (encode (I_Op f3 f7 rd rs1 rs2)) else op_alu (encode (I_Op f3 f7 rd rs1 rs2))) = op_meaning f3 f7"
  using three_bits [of f3] assms
  by (elim disjE) (auto simp: muldiv_alu_def op_alu_def op_meaning_def field_pack)

lemma branch_meaning:
  assumes "legal (I_Branch f3 rs1 rs2 imm)"
  shows "branch_ops (encode (I_Branch f3 rs1 rs2 imm)) =
    ([BEQ, BNE, BNONE, BNONE, BLT, BGE, BLTU, BGEU] ! unat f3,
     [Alu_SLTU, Alu_SLTU, ANONE, ANONE, Alu_SLT, Alu_SLT, Alu_SLTU, Alu_SLTU] ! unat f3)"
  using three_bits [of f3] assms by (elim disjE) (simp_all add: branch_ops_def field_pack)

lemma decode_insn: "legal x \<Longrightarrow> decode_zicsr (encode x) = meaning x"
proof (cases x)
  case (I_Load f3 rd rs1 imm)
  then show ?thesis
    by (simp add: decode_plain field_pack decode_i_def imm_I_pack)
next
  case (I_Store f3 rs1 rs2 imm)
  then show ?thesis
    by (simp add: decode_plain field_pack decode_i_def imm_S_pack)
next
  case (I_OpImm f3 rd rs1 imm)
  assume "legal x"
  then show ?thesis
    unfolding I_OpImm meaning.simps opimm_meaning [symmetric, OF \<open>legal x\<close> [unfolded I_OpImm]]
    by (simp add: decode_plain field_pack decode_i_def imm_I_pack)
next
  case (I_Op f3 f7 rd rs1 rs2)
  assume "legal x"
  show ?thesis
    unfolding I_Op meaning.simps op_meaning_decoded [symmetric, OF \<open>legal x\<close> [unfolded I_Op]]
    by (cases "f7 = 1")
      (simp_all add: decode_plain field_pack decode_i_def decode_zicsr_def is_system_def decode_ia_def is_amo_def decode_im_def
        decode_ic_def low_bits_pack)
next
  case (I_Branch f3 rs1 rs2 imm)
  assume "legal x"
  then show ?thesis
    using branch_meaning [OF \<open>legal x\<close> [unfolded I_Branch]]
    by (simp add: I_Branch decode_plain field_pack decode_i_def imm_B_pack)
next
  case (I_Jal rd imm)
  assume "legal x"
  then show ?thesis
    by (simp add: I_Jal decode_plain field_pack decode_i_def imm_J_pack)
next
  case (I_Jalr rd rs1 imm)
  then show ?thesis
    by (simp add: decode_plain field_pack decode_i_def imm_I_pack)
next
  case (I_Lui rd imm)
  then show ?thesis
    by (simp add: decode_plain field_pack decode_i_def imm_U_pack)
next
  case (I_Auipc rd imm)
  then show ?thesis
    by (simp add: decode_plain field_pack decode_i_def imm_U_pack)
next
  case (I_Csr f3 rd rs1 csr)
  assume "legal x"
  have "decode_zicsr (encode x) = decode_csr (encode x)"
    using \<open>legal x\<close> by (simp add: I_Csr decode_zicsr_def is_system_def field_pack low_bits_pack)
  also have "\<dots> = meaning x"
    using three_bits [of f3] \<open>legal x\<close> unfolding I_Csr
    by (elim disjE) (simp_all add: decode_csr_def field_pack i_imm11_0_pack state_zero_def)
  finally show ?thesis .
qed

text \<open>
  C23: Decoding inverts encoding: every instruction of the manual, assembled from its fields, decodes
  to its operation with exactly these registers and the sign-extended immediate.
\<close>

theorem decode_encode: "legal x \<Longrightarrow> decode_zicsr (encode x) = meaning x"
  by (rule decode_insn)

text \<open>A 32-bit word of an opcode that no decoder knows is an illegal instruction.\<close>

theorem unknown_opcode_traps:
  assumes "raw AND 3 = 3"
    and "r_opcode raw \<notin> {0b0000011, 0b0100011, 0b0010011, 0b0110011, 0b1100011, 0b1101111, 0b1100111, 0b0110111,
      0b0010111, 0b0001111, 0b0101111, 0b1110011}"
  shows "decode_zicsr raw = state_zero\<lparr>st_sys_op := Sys_TRAP, st_trap_op := ILLEGAL_INST, st_imm := raw\<rparr>"
proof -
  have "decode_zicsr raw = decode_i raw"
    using assms by (simp add: decode_zicsr_def is_system_def decode_ia_def is_amo_def decode_im_def decode_ic_def)
  also have "\<dots> = trap_illegal raw state_zero"
    using assms(2) by (simp add: decode_i_def)
  also have "\<dots> = state_zero\<lparr>st_sys_op := Sys_TRAP, st_trap_op := ILLEGAL_INST, st_imm := raw\<rparr>"
    by (simp add: trap_illegal_def state_zero_def)
  finally show ?thesis .
qed

lemma unknown_opcode_traps_witness:
  "decode_zicsr 0xFFFFFFFF = state_zero\<lparr>st_sys_op := Sys_TRAP, st_trap_op := ILLEGAL_INST, st_imm := 0xFFFFFFFF\<rparr>"
  by (rule unknown_opcode_traps) code_simp+

lemma decode_zero_word:
  "decode_zicsr 0 = state_zero\<lparr>st_rd := 8, st_rs1 := 2, st_funct3 := 2, st_alu_op := Alu_ADD, st_wb_op := Wb_ALU\<rparr>"
  by code_simp

text \<open>
  Reserved encodings are not trapped: a register operation with a reserved \<open>funct7\<close> decodes as the
  operation with \<open>funct7\<close> zero, and the all-zero halfword, which the compressed set defines to be
  illegal, decodes as an addition to register 8.
\<close>

theorem reserved_encodings_execute:
  "(f7 \<notin> {0, 1, 32} \<longrightarrow> decode_zicsr (encode (I_Op f3 f7 rd rs1 rs2)) = decode_zicsr (encode (I_Op f3 0 rd rs1 rs2))) \<and>
   decode_zicsr 0 = state_zero\<lparr>st_rd := 8, st_rs1 := 2, st_funct3 := 2, st_alu_op := Alu_ADD, st_wb_op := Wb_ALU\<rparr>"
proof (intro conjI impI)
  assume f7: "f7 \<notin> {0, 1, 32}"
  have d: "decode_zicsr (encode (I_Op f3 f rd rs1 rs2)) = decode_i (encode (I_Op f3 f rd rs1 rs2))" if "f \<noteq> 1" for f
    using that by (simp add: decode_plain)
  have "op_alu (encode (I_Op f3 f7 rd rs1 rs2)) = op_alu (encode (I_Op f3 0 rd rs1 rs2))"
    using f7 by (simp add: op_alu_def field_pack)
  then show "decode_zicsr (encode (I_Op f3 f7 rd rs1 rs2)) = decode_zicsr (encode (I_Op f3 0 rd rs1 rs2))"
    using f7 d [of f7] d [of 0] by (simp add: decode_i_def field_pack)
qed (rule decode_zero_word)

lemma reserved_encodings_execute_witness:
  "decode_zicsr (encode (I_Op 0 0x7F 1 2 3)) = decode_zicsr (encode (I_Op 0 0 1 2 3))"
  using reserved_encodings_execute [of "0x7F" 0 1 2 3] by simp

lemma decode_encode_witness: "decode_zicsr (encode (I_OpImm 0 1 2 0xFFF)) = meaning (I_OpImm 0 1 2 0xFFF)"
  by (rule decode_encode) simp
end
