(* ===== verification/Execute.thy ===== *)
theory Execute
  imports RvState RegMemory
begin

text \<open>
  The execute stage (\<open>tribe_cpu/Execute.h\<close>): the combinational arithmetic unit, branch
  decision and targets, and the two multi-cycle units, a restoring divider and a shift-and-add
  multiplier, each with its registers. A unit's registers are one record, held twice in a
  register: the committed values and the values of the next strobe.
\<close>

section \<open>Registers\<close>

record div_regs =
  div_busy :: bool
  div_done :: bool
  div_count :: "6 word"
  div_dividend :: u32
  div_divisor :: u32
  div_quotient :: u32
  div_remainder :: "33 word"
  div_quotient_neg :: bool
  div_remainder_neg :: bool
  div_result :: u32
  div_pc :: u32
  div_a :: u32
  div_b :: u32
  div_op :: alu_op

record mul_regs =
  mul_busy :: bool
  mul_done :: bool
  mul_count :: "6 word"
  mul_multiplicand :: u64
  mul_multiplier :: u32
  mul_accumulator :: u64
  mul_negate :: bool
  mul_high :: bool
  mul_result :: u32
  mul_pc :: u32
  mul_a :: u32
  mul_b :: u32
  mul_op :: alu_op

record exec_state =
  div_unit :: "div_regs reg"
  mul_unit :: "mul_regs reg"

definition div_zero :: div_regs where
  "div_zero = \<lparr>div_busy = False, div_done = False, div_count = 0, div_dividend = 0, div_divisor = 0,
     div_quotient = 0, div_remainder = 0, div_quotient_neg = False, div_remainder_neg = False,
     div_result = 0, div_pc = 0, div_a = 0, div_b = 0, div_op = ANONE\<rparr>"

definition mul_zero :: mul_regs where
  "mul_zero = \<lparr>mul_busy = False, mul_done = False, mul_count = 0, mul_multiplicand = 0, mul_multiplier = 0,
     mul_accumulator = 0, mul_negate = False, mul_high = False, mul_result = 0, mul_pc = 0,
     mul_a = 0, mul_b = 0, mul_op = ANONE\<rparr>"

section \<open>Combinational outputs\<close>

definition is_div :: "alu_op \<Rightarrow> bool" where
  "is_div op \<longleftrightarrow> op = Alu_DIV \<or> op = Alu_DIVU \<or> op = Alu_REM \<or> op = Alu_REMU"

definition is_mul :: "alu_op \<Rightarrow> bool" where
  "is_mul op \<longleftrightarrow> op = Alu_MUL \<or> op = Alu_MULH \<or> op = Alu_MULHSU \<or> op = Alu_MULHU"

definition div_instruction :: "pstate \<Rightarrow> bool" where
  "div_instruction s \<longleftrightarrow> st_valid s \<and> is_div (st_alu_op s)"

definition div_result_match :: "pstate \<Rightarrow> div_regs \<Rightarrow> bool" where
  "div_result_match s d \<longleftrightarrow> div_done d \<and> div_instruction s \<and> div_pc d = st_pc s \<and>
     div_a d = st_rs1_val s \<and> div_b d = st_rs2_val s \<and> div_op d = st_alu_op s"

definition mul_instruction :: "pstate \<Rightarrow> bool" where
  "mul_instruction s \<longleftrightarrow> st_valid s \<and> is_mul (st_alu_op s)"

definition mul_result_match :: "pstate \<Rightarrow> mul_regs \<Rightarrow> bool" where
  "mul_result_match s m \<longleftrightarrow> mul_done m \<and> mul_instruction s \<and> mul_pc m = st_pc s \<and>
     mul_a m = st_rs1_val s \<and> mul_b m = st_rs2_val s \<and> mul_op m = st_alu_op s"

definition multicycle_wait :: "pstate \<Rightarrow> exec_state \<Rightarrow> bool" where
  "multicycle_wait s e \<longleftrightarrow>
     (div_instruction s \<and> \<not> div_result_match s (cur (div_unit e))) \<or>
     (mul_instruction s \<and> \<not> mul_result_match s (cur (mul_unit e)))"

definition alu_a :: "pstate \<Rightarrow> u32" where
  "alu_a s = st_rs1_val s"

definition alu_b :: "pstate \<Rightarrow> u32" where
  "alu_b s =
     (if st_alu_op s = Alu_ADD \<and> st_mem_op s \<noteq> MNONE then st_imm s
      else if st_rs2 s \<noteq> 0 then st_rs2_val s else st_imm s)"

definition mem_addr :: "pstate \<Rightarrow> u32" where
  "mem_addr s = st_rs1_val s + st_imm s"

definition alu_result :: "pstate \<Rightarrow> exec_state \<Rightarrow> u32" where
  "alu_result s e =
     (let a = alu_a s; b = alu_b s in
      if st_br_op s = BNONE then
        (case st_alu_op s of
           Alu_ADD \<Rightarrow> a + b
         | Alu_SUB \<Rightarrow> a - b
         | Alu_AND \<Rightarrow> a AND b
         | Alu_OR \<Rightarrow> a OR b
         | Alu_XOR \<Rightarrow> a XOR b
         | Alu_SLL \<Rightarrow> push_bit (unat (b AND 0x1F)) a
         | Alu_SRL \<Rightarrow> drop_bit (unat (b AND 0x1F)) a
         | Alu_SRA \<Rightarrow> signed_drop_bit (unat (b AND 0x1F)) a
         | Alu_SLT \<Rightarrow> of_bool (sint a < sint b)
         | Alu_SLTU \<Rightarrow> of_bool (a < b)
         | Alu_PASS \<Rightarrow> b
         | Alu_MUL \<Rightarrow> mul_result (cur (mul_unit e))
         | Alu_MULH \<Rightarrow> mul_result (cur (mul_unit e))
         | Alu_MULHSU \<Rightarrow> mul_result (cur (mul_unit e))
         | Alu_MULHU \<Rightarrow> mul_result (cur (mul_unit e))
         | Alu_DIV \<Rightarrow> div_result (cur (div_unit e))
         | Alu_DIVU \<Rightarrow> div_result (cur (div_unit e))
         | Alu_REM \<Rightarrow> div_result (cur (div_unit e))
         | Alu_REMU \<Rightarrow> div_result (cur (div_unit e))
         | ANONE \<Rightarrow> 0)
      else 0)"

definition branch_taken :: "pstate \<Rightarrow> bool" where
  "branch_taken s =
     (let a = st_rs1_val s; b = st_rs2_val s;
          signed_less = (if drop_bit 31 (a XOR b) \<noteq> 0 then drop_bit 31 a \<noteq> 0 else a < b);
          taken = (case st_br_op s of
             BEQZ \<Rightarrow> a = 0 | BNEZ \<Rightarrow> a \<noteq> 0 | BEQ \<Rightarrow> a = b | BNE \<Rightarrow> a \<noteq> b
           | BLT \<Rightarrow> signed_less | BGE \<Rightarrow> \<not> signed_less | BLTU \<Rightarrow> a < b | BGEU \<Rightarrow> b \<le> a
           | Br_JAL \<Rightarrow> True | Br_JALR \<Rightarrow> True | Br_JR \<Rightarrow> True | BNONE \<Rightarrow> False)
      in taken \<and> st_valid s)"

definition branch_target :: "pstate \<Rightarrow> u32" where
  "branch_target s =
     (if st_br_op s \<noteq> BNONE
      then if st_br_op s = Br_JAL then st_pc s + st_imm s
           else if st_br_op s = Br_JALR \<or> st_br_op s = Br_JR then (st_rs1_val s + st_imm s) AND NOT 1
           else st_pc s + st_imm s
      else 0)"

section \<open>The clock edge\<close>

definition neg_if :: "bool \<Rightarrow> u32 \<Rightarrow> u32" where
  "neg_if n x = (if n then NOT x + 1 else x)"

definition div_final :: "div_regs \<Rightarrow> u32" where
  "div_final d =
     (let quotient_op = (div_op d = Alu_DIV \<or> div_op d = Alu_DIVU);
          final_result = (if quotient_op then div_quotient d else ucast (div_remainder d))
      in neg_if (quotient_op \<and> div_quotient_neg d \<or>
           (div_op d = Alu_REM \<or> div_op d = Alu_REMU) \<and> div_remainder_neg d) final_result)"

definition div_step :: "div_regs \<Rightarrow> div_regs \<Rightarrow> div_regs" where
  "div_step d next =
     (let shifted_remainder = push_bit 1 (ucast (div_remainder d) :: u64) OR ucast (drop_bit 31 (div_dividend d));
          shifted_quotient = push_bit 1 (div_quotient d);
          ge = ((ucast (div_divisor d) :: u64) \<le> shifted_remainder)
      in next\<lparr>div_dividend := push_bit 1 (div_dividend d),
           div_remainder := ucast (if ge then shifted_remainder - ucast (div_divisor d) else shifted_remainder),
           div_quotient := (if ge then shifted_quotient OR 1 else shifted_quotient),
           div_count := div_count d + 1\<rparr>)"

definition div_start :: "pstate \<Rightarrow> div_regs \<Rightarrow> div_regs" where
  "div_start s next =
     (let a = st_rs1_val s; b = st_rs2_val s; op = st_alu_op s;
          signed_op = (op = Alu_DIV \<or> op = Alu_REM);
          quotient_op = (op = Alu_DIV \<or> op = Alu_DIVU);
          a_negative = (signed_op \<and> drop_bit 31 a \<noteq> 0);
          b_negative = (signed_op \<and> drop_bit 31 b \<noteq> 0);
          next = next\<lparr>div_pc := st_pc s, div_a := a, div_b := b, div_op := op, div_count := 0,
            div_dividend := neg_if a_negative a, div_divisor := neg_if b_negative b,
            div_quotient := 0, div_remainder := 0,
            div_quotient_neg := (a_negative \<noteq> b_negative), div_remainder_neg := a_negative\<rparr>
      in if b = 0
         then next\<lparr>div_result := (if quotient_op then NOT 0 else a), div_busy := False, div_done := True\<rparr>
         else next\<lparr>div_busy := True, div_done := False\<rparr>)"

definition div_work :: "pstate \<Rightarrow> div_regs reg \<Rightarrow> div_regs reg" where
  "div_work s r =
     (let d = cur r in
      if div_busy d then
        (if div_count d = 32
         then r\<lparr>nxt := (nxt r)\<lparr>div_result := div_final d, div_busy := False, div_done := True\<rparr>\<rparr>
         else r\<lparr>nxt := div_step d (nxt r)\<rparr>)
      else if div_instruction s \<and> \<not> div_result_match s d then r\<lparr>nxt := div_start s (nxt r)\<rparr>
      else if \<not> div_instruction s then r\<lparr>nxt := (nxt r)\<lparr>div_done := False\<rparr>\<rparr>
      else r)"

definition mul_step :: "mul_regs \<Rightarrow> mul_regs \<Rightarrow> mul_regs" where
  "mul_step m next =
     (let mul_sum = (if mul_multiplier m AND 1 \<noteq> 0 then mul_accumulator m + mul_multiplicand m else mul_accumulator m);
          next = next\<lparr>mul_accumulator := mul_sum, mul_multiplicand := push_bit 1 (mul_multiplicand m),
            mul_multiplier := drop_bit 1 (mul_multiplier m)\<rparr>
      in if mul_count m = 31
         then let mul_product = (if mul_negate m then NOT mul_sum + 1 else mul_sum)
              in next\<lparr>mul_result := (if mul_high m then ucast (drop_bit 32 mul_product) else ucast mul_product),
                   mul_busy := False, mul_done := True\<rparr>
         else next\<lparr>mul_count := mul_count m + 1\<rparr>)"

definition mul_start :: "pstate \<Rightarrow> mul_regs \<Rightarrow> mul_regs" where
  "mul_start s next =
     (let a = st_rs1_val s; b = st_rs2_val s; op = st_alu_op s;
          a_negative = ((op = Alu_MULH \<or> op = Alu_MULHSU) \<and> drop_bit 31 a \<noteq> 0);
          b_negative = (op = Alu_MULH \<and> drop_bit 31 b \<noteq> 0)
      in next\<lparr>mul_pc := st_pc s, mul_a := a, mul_b := b, mul_op := op, mul_count := 0,
           mul_multiplicand := ucast (neg_if a_negative a), mul_multiplier := neg_if b_negative b,
           mul_accumulator := 0, mul_negate := (a_negative \<noteq> b_negative), mul_high := (op \<noteq> Alu_MUL),
           mul_busy := True, mul_done := False\<rparr>)"

definition mul_work :: "pstate \<Rightarrow> mul_regs reg \<Rightarrow> mul_regs reg" where
  "mul_work s r =
     (let m = cur r in
      if mul_busy m then r\<lparr>nxt := mul_step m (nxt r)\<rparr>
      else if mul_instruction s \<and> \<not> mul_result_match s m then r\<lparr>nxt := mul_start s (nxt r)\<rparr>
      else if \<not> mul_instruction s then r\<lparr>nxt := (nxt r)\<lparr>mul_done := False\<rparr>\<rparr>
      else r)"

definition exec_work :: "bool \<Rightarrow> pstate \<Rightarrow> exec_state \<Rightarrow> exec_state" where
  "exec_work reset s e =
     (let e = e\<lparr>div_unit := div_work s (div_unit e), mul_unit := mul_work s (mul_unit e)\<rparr>
      in if reset
         then e\<lparr>div_unit := reg_clr div_zero (div_unit e), mul_unit := reg_clr mul_zero (mul_unit e)\<rparr>
         else e)"

definition exec_strobe :: "exec_state \<Rightarrow> exec_state" where
  "exec_strobe e = e\<lparr>div_unit := reg_strobe (div_unit e), mul_unit := reg_strobe (mul_unit e)\<rparr>"

definition exec_cycle :: "pstate \<Rightarrow> exec_state \<Rightarrow> exec_state" where
  "exec_cycle s e = exec_strobe (exec_work False s e)"

end
