(* ===== verification/ExecUnits.thy ===== *)
theory ExecUnits
  imports Execute "HOL-Library.Signed_Division"
begin

text \<open>
  Correctness of the execute stage. The divider keeps, after \<open>n\<close> of its 32 steps, quotient and
  remainder of the top \<open>n\<close> bits of the dividend; the multiplier keeps accumulator plus
  multiplicand times the remaining multiplier. From these follow the results and the number of
  cycles of one instruction, and an invariant over any sequence of instructions.
\<close>

section \<open>The divider\<close>

lemma push_or_bit: "push_bit (Suc 0) x OR of_bool c = 2 * x + of_bool c" for x :: "'a :: len word"
proof -
  have "2 * x + of_bool c = push_bit (Suc 0) x + of_bool c"
    by (simp add: push_bit_eq_mult)
  also have "\<dots> = push_bit (Suc 0) x OR of_bool c"
    by (rule disjunctive_add) (auto simp: bit_push_bit_iff bit_of_bool_iff bit_0 even_mult_iff)
  finally show ?thesis by simp
qed

lemma unat_push_or_bit:
  "2 * unat x + of_bool c < 2 ^ LENGTH('a) \<Longrightarrow> unat (push_bit (Suc 0) x OR of_bool c) = 2 * unat x + of_bool c"
  for x :: "'a :: len word"
proof -
  assume "2 * unat x + of_bool c < 2 ^ LENGTH('a)"
  moreover have "2 * x + of_bool c = of_nat (2 * unat x + of_bool c)"
    by simp
  ultimately show ?thesis
    unfolding push_or_bit by (simp only: unat_of_nat mod_less)
qed

lemma top_bit: "drop_bit 31 (x :: u32) = of_bool (bit x 31)"
proof (rule bit_word_eqI)
  fix n
  show "bit (drop_bit 31 x) n \<longleftrightarrow> bit (of_bool (bit x 31) :: u32) n"
    using bit_beyond_word [of "31 + n" x] by (cases n) (simp_all add: bit_drop_bit_eq bit_of_bool_iff)
qed

definition div_inv :: "nat \<Rightarrow> nat \<Rightarrow> nat \<Rightarrow> div_regs \<Rightarrow> bool" where
  "div_inv A B n d \<longleftrightarrow> n \<le> 32 \<and> A < 2 ^ 32 \<and> 0 < B \<and> B < 2 ^ 32 \<and> div_count d = of_nat n \<and>
     unat (div_divisor d) = B \<and> div_dividend d = of_nat (A * 2 ^ n) \<and>
     unat (div_quotient d) = A div 2 ^ (32 - n) div B \<and>
     unat (div_remainder d) = A div 2 ^ (32 - n) mod B"

lemma halves: "n < 32 \<Longrightarrow> A div 2 ^ (31 - n) = 2 * (A div 2 ^ (32 - n)) + of_bool (bit A (31 - n))" for A :: nat
proof -
  assume "n < 32"
  then have "32 - n = Suc (31 - n)"
    by simp
  then have "A div 2 ^ (32 - n) = A div 2 ^ (31 - n) div 2"
    by (simp add: power_Suc2 div_mult2_eq del: power_Suc)
  moreover have "A div 2 ^ (31 - n) mod 2 = of_bool (bit A (31 - n))"
    by (simp add: bit_iff_odd mod2_eq_if)
  moreover have "A div 2 ^ (31 - n) = 2 * (A div 2 ^ (31 - n) div 2) + A div 2 ^ (31 - n) mod 2"
    by simp
  ultimately show ?thesis
    by (simp only:)
qed

lemma div_mod_step:
  fixes h B c :: nat
  assumes "0 < B" and "c \<le> 1"
  shows "(2 * h + c) div B = 2 * (h div B) + of_bool (B \<le> 2 * (h mod B) + c)"
    and "(2 * h + c) mod B = 2 * (h mod B) + c - B * of_bool (B \<le> 2 * (h mod B) + c)"
proof -
  define q r where "q = h div B" and "r = h mod B"
  have h: "h = B * q + r" and r: "r < B"
    using assms(1) by (simp_all add: q_def r_def)
  have e: "2 * h + c = (2 * r + c) + B * (2 * q)"
    by (simp add: h algebra_simps)
  have lt: "2 * r + c < 2 * B"
    using r assms(2) by linarith
  have "(2 * r + c) div B = of_bool (B \<le> 2 * r + c)"
  proof (cases "B \<le> 2 * r + c")
    case True
    then have "(2 * r + c) div B = 1 + (2 * r + c - B) div B"
      using assms(1) by (simp add: le_div_geq)
    then show ?thesis
      using True lt by simp
  qed simp
  moreover have "(2 * r + c) mod B = 2 * r + c - B * of_bool (B \<le> 2 * r + c)"
  proof (cases "B \<le> 2 * r + c")
    case True
    then show ?thesis
      using lt by (simp add: le_mod_geq)
  qed simp
  ultimately show "(2 * h + c) div B = 2 * (h div B) + of_bool (B \<le> 2 * (h mod B) + c)"
    and "(2 * h + c) mod B = 2 * (h mod B) + c - B * of_bool (B \<le> 2 * (h mod B) + c)"
    unfolding e q_def [symmetric] r_def [symmetric] using assms(1) by simp_all
qed

lemma div_step_inv:
  assumes inv: "div_inv A B n d" and n: "n < 32" and same: "div_divisor next = div_divisor d"
  shows "div_inv A B (Suc n) (div_step d next)"
proof -
  let ?h = "A div 2 ^ (32 - n)"
  let ?b = "bit A (31 - n)"
  let ?c = "of_bool ?b :: nat"
  have AB: "A < 2 ^ 32" "0 < B" "B < 2 ^ 32" and d: "unat (div_divisor d) = B"
    and q: "unat (div_quotient d) = ?h div B" and r: "unat (div_remainder d) = ?h mod B"
    and dd: "div_dividend d = of_nat (A * 2 ^ n)"
    using inv by (simp_all add: div_inv_def)
  have top: "bit (div_dividend d) 31 \<longleftrightarrow> ?b"
    using n unfolding dd by (simp add: bit_of_nat_iff bit_push_bit_iff flip: push_bit_eq_mult)
  define S :: u64 where "S = push_bit (Suc 0) (ucast (div_remainder d)) OR of_bool ?b"
  have u: "unat (ucast (div_remainder d) :: u64) = ?h mod B"
    using r by (simp add: unat_up_ucast)
  have rB: "?h mod B < B"
    using AB by simp
  have r32: "?h mod B < 2 ^ 32"
    using rB AB(3) by (rule less_trans)
  have sr: "unat S = 2 * (?h mod B) + ?c"
  proof -
    have "2 * unat (ucast (div_remainder d) :: u64) + ?c < 2 ^ LENGTH(64)"
      using r32 unfolding u by simp
    then show ?thesis
      unfolding S_def u [symmetric] by (rule unat_push_or_bit)
  qed
  have ge: "(ucast (div_divisor d) :: u64) \<le> S \<longleftrightarrow> B \<le> 2 * (?h mod B) + ?c"
    unfolding word_le_nat_alt sr by (simp add: d unat_up_ucast)
  have c: "?c \<le> 1"
    by simp
  have next_h: "A div 2 ^ (32 - Suc n) = 2 * ?h + ?c"
    using halves [OF n, of A] by simp
  have "?h < 2 ^ n"
    using AB n by (simp add: less_mult_imp_div_less flip: power_add)
  then have "?h div B < 2 ^ n"
    by (meson div_le_dividend le_less_trans)
  also have "(2::nat) ^ n \<le> 2 ^ 31"
    using n by (intro power_increasing) simp_all
  finally have qs: "?h div B < 2 ^ 31" .
  let ?g = "B \<le> 2 * (?h mod B) + ?c"
  have quot: "unat (push_bit (Suc 0) (div_quotient d) OR of_bool ?g) = 2 * (?h div B) + of_bool ?g"
  proof -
    have "2 * unat (div_quotient d) + of_bool ?g < 2 ^ LENGTH(32)"
      using qs unfolding q by simp
    then show ?thesis
      unfolding q [symmetric] by (rule unat_push_or_bit)
  qed
  have rem: "unat (ucast (if (ucast (div_divisor d) :: u64) \<le> S then S - ucast (div_divisor d) else S) :: 33 word) =
      2 * (?h mod B) + ?c - B * of_bool ?g"
  proof -
    have "unat (if (ucast (div_divisor d) :: u64) \<le> S then S - ucast (div_divisor d) else S) =
        2 * (?h mod B) + ?c - B * of_bool ?g"
      using ge by (simp add: unat_sub sr d unat_up_ucast)
    moreover have "2 * (?h mod B) + ?c - B * of_bool ?g < 2 ^ 33"
      using r32 c by (intro le_less_trans [OF diff_le_self]) simp
    ultimately show ?thesis
      by (simp add: unsigned_ucast_eq take_bit_nat_eq_self)
  qed
  have S: "push_bit 1 (ucast (div_remainder d)) OR ucast (drop_bit 31 (div_dividend d)) = S"
    by (cases ?b) (simp_all add: S_def top_bit top)
  have num: "div_count d = of_nat n" "n \<le> 32"
    using inv by (simp_all add: div_inv_def)
  have or1: "push_bit (Suc 0) (div_quotient d) OR of_bool ?g =
      (if (ucast (div_divisor d) :: u64) \<le> S then push_bit 1 (div_quotient d) OR 1 else push_bit 1 (div_quotient d))"
    by (simp add: ge)
  show ?thesis
    unfolding div_inv_def
  proof (intro conjI)
    show "unat (div_quotient (div_step d next)) = A div 2 ^ (32 - Suc n) div B"
      unfolding next_h div_mod_step(1) [OF AB(2) c] quot [symmetric] or1 by (simp add: div_step_def Let_def S [simplified])
    show "unat (div_remainder (div_step d next)) = A div 2 ^ (32 - Suc n) mod B"
      unfolding next_h div_mod_step(2) [OF AB(2) c] rem [symmetric] by (simp add: div_step_def Let_def S [simplified])
  qed (use AB n num same d dd in \<open>simp_all add: div_step_def Let_def push_bit_eq_mult\<close>)
qed

text \<open>The results that the instruction set defines for a division.\<close>

definition div_spec :: "alu_op \<Rightarrow> u32 \<Rightarrow> u32 \<Rightarrow> u32" where
  "div_spec op a b =
     (if op = Alu_DIV then if b = 0 then - 1 else word_of_int (sint a sdiv sint b)
      else if op = Alu_REM then if b = 0 then a else word_of_int (sint a smod sint b)
      else if op = Alu_DIVU then if b = 0 then - 1 else a div b
      else if b = 0 then a else a mod b)"

lemma neg_if_minus: "neg_if n x = (if n then - x else x)"
  by (simp add: neg_if_def minus_eq_not_plus_1)

lemma top_bit_negative: "drop_bit 31 (x :: u32) \<noteq> 0 \<longleftrightarrow> sint x < 0"
  using bit_last_iff [of x] by (simp add: top_bit)

lemma abs_word:
  fixes x :: u32
  shows "int (unat (neg_if (sint x < 0) x)) = \<bar>sint x\<bar>"
proof (cases "sint x < 0")
  case True
  have lt: "uint x < 2 ^ 32"
    using uint_bounded [of x] by simp
  have bit: "bit x 31"
    using True bit_last_iff [of x] by simp
  have s: "sint x = uint x - 2 ^ 32"
    using bit by (simp add: sint_u32)
  have "x \<noteq> 0"
    using True by auto
  then have "uint x mod 2 ^ 32 \<noteq> 0"
    using lt by (simp add: uint_0_iff)
  then have "uint (- x) = 2 ^ 32 - uint x"
    using lt by (simp add: uint_word_ariths zmod_zminus1_eq_if)
  then show ?thesis
    using True s lt by (simp add: neg_if_minus)
next
  case False
  then have "\<not> bit x 31"
    using bit_last_iff [of x] by simp
  then have "sint x = uint x"
    by (simp add: sint_u32)
  then show ?thesis
    using False by (simp add: neg_if_minus)
qed

lemma sgn_mult_abs: "sgn x * k = (if x < 0 then - k else if x = 0 then 0 else k)" for x :: int
  by (simp add: sgn_if)

lemma signed_division_spec:
  fixes a b q r :: u32
  assumes q: "unat q = unat (neg_if (sint a < 0) a) div unat (neg_if (sint b < 0) b)"
    and r: "unat r = unat (neg_if (sint a < 0) a) mod unat (neg_if (sint b < 0) b)"
    and b: "b \<noteq> 0"
  shows "neg_if ((sint a < 0) \<noteq> (sint b < 0)) q = word_of_int (sint a sdiv sint b)"
    and "neg_if (sint a < 0) r = word_of_int (sint a smod sint b)"
proof -
  have q': "q = word_of_int (\<bar>sint a\<bar> div \<bar>sint b\<bar>)"
  proof -
    have "q = word_of_int (int (unat q))"
      by simp
    then show ?thesis
      unfolding q zdiv_int abs_word .
  qed
  have r': "r = word_of_int (\<bar>sint a\<bar> mod \<bar>sint b\<bar>)"
  proof -
    have "r = word_of_int (int (unat r))"
      by simp
    then show ?thesis
      unfolding r zmod_int abs_word .
  qed
  have b0: "sint b \<noteq> 0"
    using b by (metis signed_0 signed_word_eqI)
  show "neg_if ((sint a < 0) \<noteq> (sint b < 0)) q = word_of_int (sint a sdiv sint b)"
    unfolding q' signed_divide_int_def neg_if_minus using b0 by (auto simp: sgn_if)
  show "neg_if (sint a < 0) r = word_of_int (sint a smod sint b)"
    unfolding r' signed_modulo_int_def neg_if_minus sgn_mult_abs by simp
qed

text \<open>A unit from rest to rest: the committed registers after one cycle.\<close>

definition div_next :: "pstate \<Rightarrow> div_regs \<Rightarrow> div_regs" where
  "div_next s d = nxt (div_work s \<lparr>cur = d, nxt = d\<rparr>)"

lemma div_next_simps:
  "div_busy d \<Longrightarrow> div_count d = 32 \<Longrightarrow>
    div_next s d = d\<lparr>div_result := div_final d, div_busy := False, div_done := True\<rparr>"
  "div_busy d \<Longrightarrow> div_count d \<noteq> 32 \<Longrightarrow> div_next s d = div_step d d"
  "\<not> div_busy d \<Longrightarrow> div_instruction s \<Longrightarrow> \<not> div_result_match s d \<Longrightarrow> div_next s d = div_start s d"
  "\<not> div_busy d \<Longrightarrow> div_instruction s \<Longrightarrow> div_result_match s d \<Longrightarrow> div_next s d = d"
  "\<not> div_busy d \<Longrightarrow> \<not> div_instruction s \<Longrightarrow> div_next s d = d\<lparr>div_done := False\<rparr>"
  by (simp_all add: div_next_def div_work_def Let_def)

text \<open>What the divider keeps while it works on the instruction in \<open>s\<close>.\<close>

definition div_holds :: "pstate \<Rightarrow> div_regs \<Rightarrow> bool" where
  "div_holds s d \<longleftrightarrow> div_pc d = st_pc s \<and> div_a d = st_rs1_val s \<and> div_b d = st_rs2_val s \<and> div_op d = st_alu_op s \<and>
     (let signed = (st_alu_op s = Alu_DIV \<or> st_alu_op s = Alu_REM) in
      div_quotient_neg d = (signed \<and> (sint (st_rs1_val s) < 0) \<noteq> (sint (st_rs2_val s) < 0)) \<and>
      div_remainder_neg d = (signed \<and> sint (st_rs1_val s) < 0))"

definition div_magnitude :: "pstate \<Rightarrow> u32 \<Rightarrow> nat" where
  "div_magnitude s x = unat (neg_if ((st_alu_op s = Alu_DIV \<or> st_alu_op s = Alu_REM) \<and> sint x < 0) x)"

lemma div_start_inv:
  assumes "st_rs2_val s \<noteq> 0"
  shows "div_inv (div_magnitude s (st_rs1_val s)) (div_magnitude s (st_rs2_val s)) 0 (div_start s d)"
    and "div_busy (div_start s d)" and "\<not> div_done (div_start s d)" and "div_holds s (div_start s d)"
proof -
  have "div_magnitude s (st_rs2_val s) \<noteq> 0"
    using assms by (simp add: div_magnitude_def neg_if_minus unat_gt_0)
  then show "div_inv (div_magnitude s (st_rs1_val s)) (div_magnitude s (st_rs2_val s)) 0 (div_start s d)"
    using assms by (simp add: div_inv_def div_start_def Let_def div_magnitude_def top_bit_negative unat_word_less
        unat_word_less [simplified])
qed (use assms in \<open>auto simp: div_start_def Let_def div_holds_def top_bit_negative\<close>)

lemma div_run:
  assumes start: "\<not> div_busy d" "div_instruction s" "\<not> div_result_match s d" and b: "st_rs2_val s \<noteq> 0" and k: "k \<le> 32"
  defines "dk \<equiv> (div_next s ^^ Suc k) d"
  shows "div_busy dk \<and> \<not> div_done dk \<and> div_holds s dk \<and>
    div_inv (div_magnitude s (st_rs1_val s)) (div_magnitude s (st_rs2_val s)) k dk"
  using k unfolding dk_def
proof (induction k)
  case 0
  then show ?case
    using div_start_inv [OF b] start by (simp add: div_next_simps(3))
next
  case (Suc k)
  let ?d = "(div_next s ^^ Suc k) d"
  have IH: "div_busy ?d" "\<not> div_done ?d" "div_holds s ?d"
    "div_inv (div_magnitude s (st_rs1_val s)) (div_magnitude s (st_rs2_val s)) k ?d"
    using Suc by simp_all
  have "unat (of_nat k :: 6 word) = k"
    using Suc.prems by (simp add: unat_of_nat)
  then have "div_count ?d \<noteq> 32"
    using IH(4) Suc.prems by (auto simp: div_inv_def)
  then have step: "(div_next s ^^ Suc (Suc k)) d = div_step ?d ?d"
    using IH(1) by (simp add: div_next_simps(2))
  show ?case
    unfolding step using IH div_step_inv [OF IH(4) _ refl] Suc.prems
    by (simp add: div_holds_def) (simp add: div_step_def Let_def)
qed

lemma div_final_spec:
  assumes holds: "div_holds s d" and op: "is_div (st_alu_op s)" and b: "st_rs2_val s \<noteq> 0"
    and inv: "div_inv (div_magnitude s (st_rs1_val s)) (div_magnitude s (st_rs2_val s)) 32 d"
  shows "div_final d = div_spec (st_alu_op s) (st_rs1_val s) (st_rs2_val s)"
proof -
  let ?a = "st_rs1_val s" and ?b = "st_rs2_val s"
  let ?A = "div_magnitude s ?a" and ?B = "div_magnitude s ?b"
  have AB: "?A < 2 ^ 32" "?B < 2 ^ 32" "?B > 0"
    and q: "unat (div_quotient d) = ?A div ?B" and r: "unat (div_remainder d) = ?A mod ?B"
    using inv by (simp_all add: div_inv_def)
  have "?A mod ?B < 2 ^ 32"
    using AB by (meson less_trans mod_less_divisor)
  then have r: "unat (ucast (div_remainder d) :: u32) = ?A mod ?B"
    using r by (simp add: unsigned_ucast_eq take_bit_nat_eq_self)
  note sd = signed_division_spec [of "div_quotient d" ?a ?b "ucast (div_remainder d)", OF _ _ b]
  consider "st_alu_op s = Alu_DIV" | "st_alu_op s = Alu_REM" | "st_alu_op s = Alu_DIVU" | "st_alu_op s = Alu_REMU"
    using op by (auto simp: is_div_def)
  then show ?thesis
  proof cases
    case 1
    then show ?thesis
      using sd q r holds b by (simp add: div_magnitude_def div_holds_def div_final_def div_spec_def Let_def)
  next
    case 2
    then show ?thesis
      using sd q r holds b by (simp add: div_magnitude_def div_holds_def div_final_def div_spec_def Let_def)
  next
    case 3
    then have "div_quotient d = ?a div ?b"
      using q by (intro word_unat_eq_iff [THEN iffD2]) (simp add: unat_div_distrib div_magnitude_def neg_if_def)
    then show ?thesis
      using 3 holds b by (simp add: div_holds_def div_final_def div_spec_def Let_def neg_if_def)
  next
    case 4
    then have "ucast (div_remainder d) = ?a mod ?b"
      using r by (intro word_unat_eq_iff [THEN iffD2]) (simp add: unat_mod_distrib div_magnitude_def neg_if_def)
    then show ?thesis
      using 4 holds b by (simp add: div_holds_def div_final_def div_spec_def Let_def neg_if_def)
  qed
qed

definition div_cycles :: "pstate \<Rightarrow> nat" where
  "div_cycles s = (if st_rs2_val s = 0 then 1 else 34)"

lemma div_finishes:
  assumes start: "\<not> div_busy d" "div_instruction s" "\<not> div_result_match s d"
  shows "div_result_match s ((div_next s ^^ div_cycles s) d)"
    and "\<not> div_busy ((div_next s ^^ div_cycles s) d)"
    and "div_result ((div_next s ^^ div_cycles s) d) = div_spec (st_alu_op s) (st_rs1_val s) (st_rs2_val s)"
    and "k < div_cycles s \<Longrightarrow> \<not> div_result_match s ((div_next s ^^ k) d)"
proof -
  have op: "is_div (st_alu_op s)"
    using start(2) by (simp add: div_instruction_def)
  let ?e = "(div_next s ^^ div_cycles s) d"
  have "div_result_match s ?e \<and> \<not> div_busy ?e \<and>
      div_result ?e = div_spec (st_alu_op s) (st_rs1_val s) (st_rs2_val s)"
  proof (cases "st_rs2_val s = 0")
    case True
    have "?e = div_start s d"
      using start True by (simp add: div_cycles_def div_next_simps(3))
    then show ?thesis
      using True start(2) op
      by (auto simp: div_start_def Let_def div_result_match_def div_spec_def is_div_def neg_if_def)
  next
    case False
    let ?d = "(div_next s ^^ Suc 32) d"
    note run = div_run [OF start False order_refl]
    have e: "?e = ?d\<lparr>div_result := div_final ?d, div_busy := False, div_done := True\<rparr>"
    proof -
      have "div_cycles s = Suc (Suc 32)"
        using False by (simp add: div_cycles_def)
      then have "?e = div_next s ?d"
        by (simp only: funpow.simps o_apply)
      also have "\<dots> = ?d\<lparr>div_result := div_final ?d, div_busy := False, div_done := True\<rparr>"
        using run by (intro div_next_simps(1)) (simp_all only: div_inv_def of_nat_numeral)
      finally show ?thesis .
    qed
    have "div_final ?d = div_spec (st_alu_op s) (st_rs1_val s) (st_rs2_val s)"
      using run by (intro div_final_spec [OF _ op False]) simp_all
    then show ?thesis
      unfolding e using run start(2) by (simp add: div_result_match_def div_holds_def)
  qed
  then show "div_result_match s ?e" "\<not> div_busy ?e" "div_result ?e = div_spec (st_alu_op s) (st_rs1_val s) (st_rs2_val s)"
    by simp_all
  show "\<not> div_result_match s ((div_next s ^^ k) d)" if k: "k < div_cycles s"
  proof (cases k)
    case 0
    then show ?thesis using start(3) by simp
  next
    case (Suc j)
    then have "st_rs2_val s \<noteq> 0" "j \<le> 32"
      using k by (auto simp: div_cycles_def split: if_splits)
    then show ?thesis
      using div_run [OF start] unfolding Suc by (simp add: div_result_match_def)
  qed
qed

section \<open>The multiplier\<close>

definition mul_signed_a :: "alu_op \<Rightarrow> u32 \<Rightarrow> int" where
  "mul_signed_a op a = (if op = Alu_MULH \<or> op = Alu_MULHSU then sint a else uint a)"

definition mul_signed_b :: "alu_op \<Rightarrow> u32 \<Rightarrow> int" where
  "mul_signed_b op b = (if op = Alu_MULH then sint b else uint b)"

text \<open>The results that the instruction set defines for a multiplication.\<close>

definition mul_spec :: "alu_op \<Rightarrow> u32 \<Rightarrow> u32 \<Rightarrow> u32" where
  "mul_spec op a b =
     (if op = Alu_MUL then a * b
      else word_of_int (drop_bit 32 (mul_signed_a op a * mul_signed_b op b)))"

definition mul_next :: "pstate \<Rightarrow> mul_regs \<Rightarrow> mul_regs" where
  "mul_next s m = nxt (mul_work s \<lparr>cur = m, nxt = m\<rparr>)"

lemma mul_next_simps:
  "mul_busy m \<Longrightarrow> mul_next s m = mul_step m m"
  "\<not> mul_busy m \<Longrightarrow> mul_instruction s \<Longrightarrow> \<not> mul_result_match s m \<Longrightarrow> mul_next s m = mul_start s m"
  "\<not> mul_busy m \<Longrightarrow> mul_instruction s \<Longrightarrow> mul_result_match s m \<Longrightarrow> mul_next s m = m"
  "\<not> mul_busy m \<Longrightarrow> \<not> mul_instruction s \<Longrightarrow> mul_next s m = m\<lparr>mul_done := False\<rparr>"
  by (simp_all add: mul_next_def mul_work_def Let_def)

definition mul_inv :: "u64 \<Rightarrow> nat \<Rightarrow> mul_regs \<Rightarrow> bool" where
  "mul_inv P n m \<longleftrightarrow> n \<le> 31 \<and> mul_count m = of_nat n \<and> unat (mul_multiplier m) < 2 ^ (32 - n) \<and>
     mul_accumulator m + mul_multiplicand m * of_nat (unat (mul_multiplier m)) = P"

definition mul_holds :: "pstate \<Rightarrow> mul_regs \<Rightarrow> bool" where
  "mul_holds s m \<longleftrightarrow> mul_pc m = st_pc s \<and> mul_a m = st_rs1_val s \<and> mul_b m = st_rs2_val s \<and> mul_op m = st_alu_op s \<and>
     mul_high m = (st_alu_op s \<noteq> Alu_MUL) \<and>
     mul_negate m = ((mul_signed_a (st_alu_op s) (st_rs1_val s) < 0) \<noteq> (mul_signed_b (st_alu_op s) (st_rs2_val s) < 0))"

definition mul_magnitudes :: "pstate \<Rightarrow> u64" where
  "mul_magnitudes s = word_of_int (\<bar>mul_signed_a (st_alu_op s) (st_rs1_val s)\<bar> * \<bar>mul_signed_b (st_alu_op s) (st_rs2_val s)\<bar>)"

lemma mul_magnitude:
  fixes x :: u32
  shows "int (unat (neg_if (c \<and> sint x < 0) x)) = \<bar>if c then sint x else uint x\<bar>"
  using abs_word [of x] by (cases c) (simp_all add: neg_if_def)

lemma mul_start_inv:
  "mul_inv (mul_magnitudes s) 0 (mul_start s m)" "mul_busy (mul_start s m)" "\<not> mul_done (mul_start s m)"
  "mul_holds s (mul_start s m)"
proof -
  let ?a = "st_rs1_val s" and ?b = "st_rs2_val s" and ?op = "st_alu_op s"
  let ?A = "neg_if ((?op = Alu_MULH \<or> ?op = Alu_MULHSU) \<and> sint ?a < 0) ?a" and ?B = "neg_if (?op = Alu_MULH \<and> sint ?b < 0) ?b"
  have "(ucast ?A :: u64) * of_nat (unat ?B) = of_nat (unat ?A) * of_nat (unat ?B)"
    by (simp add: unat_up_ucast flip: word_unat_eq_iff)
  also have "\<dots> = word_of_int (int (unat ?A) * int (unat ?B))"
    by simp
  finally have "(ucast ?A :: u64) * of_nat (unat ?B) = mul_magnitudes s"
    unfolding mul_magnitude mul_magnitudes_def mul_signed_a_def mul_signed_b_def .
  then show "mul_inv (mul_magnitudes s) 0 (mul_start s m)"
    by (simp add: mul_inv_def mul_start_def Let_def top_bit_negative unat_word_less [simplified])
qed (auto simp: mul_start_def Let_def mul_holds_def top_bit_negative mul_signed_a_def mul_signed_b_def)

definition mul_sum :: "mul_regs \<Rightarrow> u64" where
  "mul_sum m = (if mul_multiplier m AND 1 \<noteq> 0 then mul_accumulator m + mul_multiplicand m else mul_accumulator m)"

lemma unat_half: "unat (drop_bit 1 (x :: u32)) = unat x div 2"
  by (simp add: drop_bit_eq_div unat_div_distrib)

lemma mul_sum_next:
  "mul_sum m + push_bit 1 (mul_multiplicand m) * of_nat (unat (drop_bit 1 (mul_multiplier m))) =
    mul_accumulator m + mul_multiplicand m * of_nat (unat (mul_multiplier m))"
proof -
  let ?x = "unat (mul_multiplier m)"
  have odd: "mul_multiplier m AND 1 \<noteq> 0 \<longleftrightarrow> ?x mod 2 = 1"
    by (simp add: and_one_eq unat_mod_distrib flip: unat_eq_0)
  have half: "unat (drop_bit 1 (mul_multiplier m)) = ?x div 2"
    by (rule unat_half)
  have x: "(of_nat ?x :: u64) = of_nat (?x mod 2) + 2 * of_nat (?x div 2)"
  proof -
    have "?x = ?x mod 2 + 2 * (?x div 2)"
      by simp
    then show ?thesis
      by (metis of_nat_add of_nat_mult of_nat_numeral)
  qed
  show ?thesis
    unfolding half x mul_sum_def odd
    by (cases "?x mod 2 = 1") (simp_all add: push_bit_eq_mult algebra_simps)
qed

lemma mul_step_simps:
  "mul_count m \<noteq> 31 \<Longrightarrow> mul_step m m = m\<lparr>mul_accumulator := mul_sum m, mul_multiplicand := push_bit 1 (mul_multiplicand m),
     mul_multiplier := drop_bit 1 (mul_multiplier m), mul_count := mul_count m + 1\<rparr>"
  "mul_count m = 31 \<Longrightarrow> mul_step m m = m\<lparr>mul_accumulator := mul_sum m, mul_multiplicand := push_bit 1 (mul_multiplicand m),
     mul_multiplier := drop_bit 1 (mul_multiplier m),
     mul_result := (if mul_high m then ucast (drop_bit 32 (if mul_negate m then - mul_sum m else mul_sum m))
       else ucast (if mul_negate m then - mul_sum m else mul_sum m)),
     mul_busy := False, mul_done := True\<rparr>"
  by (simp_all add: mul_step_def Let_def mul_sum_def minus_eq_not_plus_1)

lemma mul_result_final:
  "mul_count m = 31 \<Longrightarrow> (if mul_negate m then - mul_sum m else mul_sum m) = p \<Longrightarrow>
    mul_result (mul_step m m) = (if mul_high m then ucast (drop_bit 32 p) else ucast p)"
  by (simp add: mul_step_simps(2))

lemma mul_step_inv:
  assumes inv: "mul_inv P k m" and k: "k < 31"
  shows "mul_inv P (Suc k) (mul_step m m)" and "mul_busy (mul_step m m) = mul_busy m"
    and "mul_done (mul_step m m) = mul_done m"
proof -
  have "unat (of_nat k :: 6 word) = k"
    using k by (simp add: unat_of_nat)
  then have count: "mul_count m \<noteq> 31"
    using inv k by (auto simp: mul_inv_def)
  have "32 - k = Suc (32 - Suc k)"
    using k by simp
  then have "unat (drop_bit 1 (mul_multiplier m)) < 2 ^ (32 - Suc k)"
    using inv unfolding unat_half mul_inv_def by (simp add: less_mult_imp_div_less mult.commute)
  then show "mul_inv P (Suc k) (mul_step m m)"
    using inv k mul_sum_next [of m] by (simp add: mul_step_simps(1) [OF count] mul_inv_def)
  show "mul_busy (mul_step m m) = mul_busy m" "mul_done (mul_step m m) = mul_done m"
    by (simp_all add: mul_step_simps(1) [OF count])
qed

lemma mul_step_fields:
  "mul_pc (mul_step m m) = mul_pc m" "mul_a (mul_step m m) = mul_a m" "mul_b (mul_step m m) = mul_b m"
  "mul_op (mul_step m m) = mul_op m" "mul_negate (mul_step m m) = mul_negate m" "mul_high (mul_step m m) = mul_high m"
  by (simp_all add: mul_step_def Let_def)

lemma mul_run:
  assumes start: "\<not> mul_busy m" "mul_instruction s" "\<not> mul_result_match s m" and k: "k \<le> 31"
  defines "mk \<equiv> (mul_next s ^^ Suc k) m"
  shows "mul_busy mk \<and> \<not> mul_done mk \<and> mul_holds s mk \<and> mul_inv (mul_magnitudes s) k mk"
  using k unfolding mk_def
proof (induction k)
  case 0
  then show ?case
    using mul_start_inv start by (simp add: mul_next_simps(2))
next
  case (Suc k)
  define M where "M = (mul_next s ^^ Suc k) m"
  have IH: "mul_busy M" "\<not> mul_done M" "mul_holds s M" "mul_inv (mul_magnitudes s) k M"
    unfolding M_def using Suc by simp_all
  have step: "(mul_next s ^^ Suc (Suc k)) m = mul_step M M"
    using IH(1) by (simp add: mul_next_simps(1) M_def)
  show ?case
    unfolding step using mul_step_inv [OF IH(4)] IH Suc.prems by (simp add: mul_holds_def mul_step_fields)
qed

lemma high_word: "(ucast (drop_bit 32 (word_of_int x :: u64)) :: u32) = word_of_int (drop_bit 32 x)"
  by (rule bit_word_eqI) (simp add: bit_ucast_iff bit_drop_bit_eq bit_word_of_int_iff)

lemma low_word: "(ucast (word_of_int x :: u64) :: u32) = word_of_int x"
  by (rule bit_word_eqI) (simp add: bit_ucast_iff bit_word_of_int_iff)

lemma mul_product_spec:
  fixes a b :: u32
  assumes "is_mul op"
  defines "x \<equiv> mul_signed_a op a * mul_signed_b op b"
  shows "(if op \<noteq> Alu_MUL then ucast (drop_bit 32 (word_of_int x :: u64)) else ucast (word_of_int x :: u64)) = mul_spec op a b"
proof (cases "op = Alu_MUL")
  case True
  then have "word_of_int x = a * b"
    by (simp add: x_def mul_signed_a_def mul_signed_b_def)
  then show ?thesis
    using True unfolding mul_spec_def low_word by simp
next
  case False
  then show ?thesis
    unfolding mul_spec_def high_word x_def by simp
qed

lemma mul_final:
  assumes inv: "mul_inv (mul_magnitudes s) 31 m" and holds: "mul_holds s m" and op: "is_mul (st_alu_op s)"
  shows "mul_result (mul_step m m) = mul_spec (st_alu_op s) (st_rs1_val s) (st_rs2_val s)"
    and "\<not> mul_busy (mul_step m m)" and "mul_done (mul_step m m)"
proof -
  have count: "mul_count m = 31"
    using inv by (simp only: mul_inv_def of_nat_numeral)
  have "unat (mul_multiplier m) < 2"
    using inv by (simp add: mul_inv_def)
  then have "unat (drop_bit 1 (mul_multiplier m)) = 0"
    unfolding unat_half by simp
  then have sum: "mul_sum m = mul_magnitudes s"
    using mul_sum_next [of m] inv by (simp only: mul_inv_def) simp
  have high: "mul_high m = (st_alu_op s \<noteq> Alu_MUL)"
    using holds unfolding mul_holds_def by iprover
  have "(if mul_negate m then - mul_sum m else mul_sum m) =
      word_of_int (mul_signed_a (st_alu_op s) (st_rs1_val s) * mul_signed_b (st_alu_op s) (st_rs2_val s))"
    using holds unfolding sum mul_magnitudes_def by (auto simp: mul_holds_def abs_if)
  note mul_result_final [OF count this]
  then show "mul_result (mul_step m m) = mul_spec (st_alu_op s) (st_rs1_val s) (st_rs2_val s)"
    unfolding high mul_product_spec [OF op] .
  show "\<not> mul_busy (mul_step m m)" "mul_done (mul_step m m)"
    by (simp_all add: mul_step_simps(2) [OF count])
qed

lemma mul_finishes:
  assumes start: "\<not> mul_busy m" "mul_instruction s" "\<not> mul_result_match s m"
  shows "mul_result_match s ((mul_next s ^^ 33) m)"
    and "\<not> mul_busy ((mul_next s ^^ 33) m)"
    and "mul_result ((mul_next s ^^ 33) m) = mul_spec (st_alu_op s) (st_rs1_val s) (st_rs2_val s)"
    and "k < 33 \<Longrightarrow> \<not> mul_result_match s ((mul_next s ^^ k) m)"
proof -
  have op: "is_mul (st_alu_op s)"
    using start(2) by (simp add: mul_instruction_def)
  define M where "M = (mul_next s ^^ Suc 31) m"
  have run: "mul_busy M" "mul_holds s M" "mul_inv (mul_magnitudes s) 31 M"
    unfolding M_def using mul_run [OF start order_refl] by iprover+
  have last: "(mul_next s ^^ 33) m = mul_step M M"
  proof -
    have "(mul_next s ^^ 33) m = (mul_next s ^^ Suc (Suc 31)) m"
      by simp
    also have "\<dots> = mul_next s M"
      unfolding M_def by (simp only: funpow.simps o_apply)
    also have "\<dots> = mul_step M M"
      by (rule mul_next_simps(1) [OF run(1)])
    finally show ?thesis .
  qed
  note final = mul_final [OF run(3,2) op]
  show "mul_result ((mul_next s ^^ 33) m) = mul_spec (st_alu_op s) (st_rs1_val s) (st_rs2_val s)"
    "\<not> mul_busy ((mul_next s ^^ 33) m)"
    unfolding last by (fact final)+
  show "mul_result_match s ((mul_next s ^^ 33) m)"
    unfolding last using final(3) run(2) start(2) by (simp add: mul_result_match_def mul_holds_def mul_step_fields)
  show "\<not> mul_result_match s ((mul_next s ^^ k) m)" if k: "k < 33"
  proof (cases k)
    case 0
    then show ?thesis using start(3) by simp
  next
    case (Suc j)
    then show ?thesis
      using mul_run [OF start, of j] k unfolding Suc by (simp add: mul_result_match_def)
  qed
qed

section \<open>Results under any sequence of instructions\<close>

text \<open>The instruction a unit works on, as its own registers remember it.\<close>

definition div_insn :: "div_regs \<Rightarrow> pstate" where
  "div_insn d = state_zero\<lparr>st_pc := div_pc d, st_rs1_val := div_a d, st_rs2_val := div_b d, st_alu_op := div_op d, st_valid := True\<rparr>"

definition mul_insn :: "mul_regs \<Rightarrow> pstate" where
  "mul_insn m = state_zero\<lparr>st_pc := mul_pc m, st_rs1_val := mul_a m, st_rs2_val := mul_b m, st_alu_op := mul_op m, st_valid := True\<rparr>"

definition div_ok :: "div_regs \<Rightarrow> bool" where
  "div_ok d \<longleftrightarrow>
     (div_busy d \<longrightarrow> \<not> div_done d \<and> is_div (div_op d) \<and> div_b d \<noteq> 0 \<and> div_holds (div_insn d) d \<and>
       (\<exists>n. div_inv (div_magnitude (div_insn d) (div_a d)) (div_magnitude (div_insn d) (div_b d)) n d)) \<and>
     (div_done d \<longrightarrow> div_result d = div_spec (div_op d) (div_a d) (div_b d))"

definition mul_ok :: "mul_regs \<Rightarrow> bool" where
  "mul_ok m \<longleftrightarrow>
     (mul_busy m \<longrightarrow> \<not> mul_done m \<and> is_mul (mul_op m) \<and> mul_holds (mul_insn m) m \<and>
       (\<exists>n. mul_inv (mul_magnitudes (mul_insn m)) n m)) \<and>
     (mul_done m \<longrightarrow> mul_result m = mul_spec (mul_op m) (mul_a m) (mul_b m))"

lemma div_insn_simps [simp]:
  "st_pc (div_insn d) = div_pc d" "st_rs1_val (div_insn d) = div_a d" "st_rs2_val (div_insn d) = div_b d"
  "st_alu_op (div_insn d) = div_op d" "st_valid (div_insn d)"
  by (simp_all add: div_insn_def)

lemma mul_insn_simps [simp]:
  "st_pc (mul_insn m) = mul_pc m" "st_rs1_val (mul_insn m) = mul_a m" "st_rs2_val (mul_insn m) = mul_b m"
  "st_alu_op (mul_insn m) = mul_op m" "st_valid (mul_insn m)"
  by (simp_all add: mul_insn_def)

lemma div_start_fields:
  "div_pc (div_start s d) = st_pc s" "div_a (div_start s d) = st_rs1_val s" "div_b (div_start s d) = st_rs2_val s"
  "div_op (div_start s d) = st_alu_op s"
  by (simp_all add: div_start_def Let_def)

lemma div_step_fields:
  "div_pc (div_step d d) = div_pc d" "div_a (div_step d d) = div_a d" "div_b (div_step d d) = div_b d"
  "div_op (div_step d d) = div_op d" "div_busy (div_step d d) = div_busy d" "div_done (div_step d d) = div_done d"
  "div_quotient_neg (div_step d d) = div_quotient_neg d" "div_remainder_neg (div_step d d) = div_remainder_neg d"
  by (simp_all add: div_step_def Let_def)

lemma div_next_ok:
  assumes ok: "div_ok d"
  shows "div_ok (div_next s d)"
proof (cases "div_busy d")
  case True
  then obtain n where op: "is_div (div_op d)" and b: "div_b d \<noteq> 0" and holds: "div_holds (div_insn d) d" and nd: "\<not> div_done d"
    and inv: "div_inv (div_magnitude (div_insn d) (div_a d)) (div_magnitude (div_insn d) (div_b d)) n d"
    using ok by (auto simp: div_ok_def)
  have n: "n \<le> 32" "div_count d = of_nat n"
    using inv by (simp_all add: div_inv_def)
  show ?thesis
  proof (cases "n = 32")
    case True
    have c: "div_count d = 32"
      using n True by simp
    have "div_final d = div_spec (div_op d) (div_a d) (div_b d)"
      using div_final_spec [of "div_insn d" d] holds op b inv True by simp
    then show ?thesis
      using \<open>div_busy d\<close> by (simp add: div_next_simps(1) [OF _ c] div_ok_def)
  next
    case False
    then have "unat (of_nat n :: 6 word) = n"
      using n by (simp add: unat_of_nat)
    then have "div_count d \<noteq> 32"
      using n False by auto
    then have step: "div_next s d = div_step d d"
      using \<open>div_busy d\<close> by (simp add: div_next_simps(2))
    have mag: "div_magnitude (div_insn (div_step d d)) = div_magnitude (div_insn d)"
      by (simp add: div_magnitude_def div_step_fields fun_eq_iff)
    have "div_inv (div_magnitude (div_insn d) (div_a d)) (div_magnitude (div_insn d) (div_b d)) (Suc n) (div_step d d)"
      using inv n False by (intro div_step_inv) simp_all
    then have "\<exists>n. div_inv (div_magnitude (div_insn d) (div_a d)) (div_magnitude (div_insn d) (div_b d)) n (div_step d d)"
      by blast
    moreover have "div_holds (div_insn (div_step d d)) (div_step d d)"
      using holds by (simp add: div_holds_def div_step_fields)
    ultimately show ?thesis
      unfolding step div_ok_def mag div_step_fields using op b nd by simp
  qed
next
  case False
  show ?thesis
  proof (cases "div_instruction s \<and> \<not> div_result_match s d")
    case True
    then have start: "div_next s d = div_start s d"
      using False by (simp add: div_next_simps(3))
    have mag: "div_magnitude (div_insn (div_start s d)) = div_magnitude s"
      by (simp add: div_magnitude_def div_start_fields fun_eq_iff)
    show ?thesis
    proof (cases "st_rs2_val s = 0")
      case True
      then show ?thesis
        using \<open>div_instruction s \<and> \<not> div_result_match s d\<close> unfolding start
        by (auto simp: div_ok_def div_start_def Let_def div_spec_def div_instruction_def is_div_def neg_if_def)
    next
      case b: False
      have "div_holds (div_insn (div_start s d)) (div_start s d)"
        using div_start_inv(4) [OF b] by (simp add: div_holds_def div_start_fields)
      moreover have "is_div (st_alu_op s)"
        using True by (simp add: div_instruction_def)
      ultimately show ?thesis
        using div_start_inv(1,2,3) [OF b] b unfolding start div_ok_def mag div_start_fields by auto
    qed
  next
    case other: False
    show ?thesis
    proof (cases "div_instruction s")
      case True
      then show ?thesis
        using other False ok by (simp add: div_next_simps(4))
    next
      case F: False
      then show ?thesis
        using False by (simp add: div_next_simps(5) div_ok_def)
    qed
  qed
qed

lemma mul_start_fields:
  "mul_pc (mul_start s m) = st_pc s" "mul_a (mul_start s m) = st_rs1_val s" "mul_b (mul_start s m) = st_rs2_val s"
  "mul_op (mul_start s m) = st_alu_op s"
  by (simp_all add: mul_start_def Let_def)

lemma mul_next_ok:
  assumes ok: "mul_ok m"
  shows "mul_ok (mul_next s m)"
proof (cases "mul_busy m")
  case True
  then obtain n where op: "is_mul (mul_op m)" and holds: "mul_holds (mul_insn m) m" and nd: "\<not> mul_done m"
    and inv: "mul_inv (mul_magnitudes (mul_insn m)) n m"
    using ok by (auto simp: mul_ok_def)
  have step: "mul_next s m = mul_step m m"
    using True by (rule mul_next_simps(1))
  show ?thesis
  proof (cases "n = 31")
    case True
    then show ?thesis
      using mul_final [of "mul_insn m" m] inv holds op unfolding step
      by (simp add: mul_ok_def mul_step_fields)
  next
    case False
    then have n: "n < 31"
      using inv by (simp add: mul_inv_def)
    have mag: "mul_magnitudes (mul_insn (mul_step m m)) = mul_magnitudes (mul_insn m)"
      by (simp add: mul_magnitudes_def mul_step_fields)
    show ?thesis
      using mul_step_inv [OF inv n] holds op nd unfolding step
      by (auto simp: mul_ok_def mul_step_fields mag mul_holds_def)
  qed
next
  case False
  show ?thesis
  proof (cases "mul_instruction s \<and> \<not> mul_result_match s m")
    case True
    then have start: "mul_next s m = mul_start s m"
      using False by (simp add: mul_next_simps(2))
    have mag: "mul_magnitudes (mul_insn (mul_start s m)) = mul_magnitudes s"
      by (simp add: mul_magnitudes_def mul_start_fields)
    have "mul_holds (mul_insn (mul_start s m)) (mul_start s m)"
      using mul_start_inv(4) [of s m] by (simp add: mul_holds_def mul_start_fields)
    moreover have "is_mul (st_alu_op s)"
      using True by (simp add: mul_instruction_def)
    ultimately show ?thesis
      using mul_start_inv(1,2,3) [of s m] unfolding start by (auto simp: mul_ok_def mag mul_start_fields)
  next
    case other: False
    show ?thesis
    proof (cases "mul_instruction s")
      case True
      then show ?thesis
        using other False ok by (simp add: mul_next_simps(3))
    next
      case F: False
      then show ?thesis
        using False by (simp add: mul_next_simps(4) mul_ok_def)
    qed
  qed
qed

section \<open>The stage\<close>

definition exec_rest :: "exec_state \<Rightarrow> bool" where
  "exec_rest e \<longleftrightarrow> settled (div_unit e) \<and> settled (mul_unit e)"

lemma exec_cycle_units:
  assumes "exec_rest e"
  shows "exec_rest (exec_cycle s e)" and "cur (div_unit (exec_cycle s e)) = div_next s (cur (div_unit e))"
    and "cur (mul_unit (exec_cycle s e)) = mul_next s (cur (mul_unit e))"
proof -
  have "div_unit e = \<lparr>cur = cur (div_unit e), nxt = cur (div_unit e)\<rparr>" "mul_unit e = \<lparr>cur = cur (mul_unit e), nxt = cur (mul_unit e)\<rparr>"
    using assms by (simp_all add: exec_rest_def settled_def)
  then show "cur (div_unit (exec_cycle s e)) = div_next s (cur (div_unit e))"
    "cur (mul_unit (exec_cycle s e)) = mul_next s (cur (mul_unit e))"
    by (simp_all add: exec_cycle_def exec_strobe_def exec_work_def Let_def div_next_def mul_next_def)
qed (simp add: exec_rest_def exec_cycle_def exec_strobe_def)

lemma exec_cycles:
  assumes "exec_rest e"
  shows "exec_rest ((exec_cycle s ^^ n) e) \<and>
    cur (div_unit ((exec_cycle s ^^ n) e)) = (div_next s ^^ n) (cur (div_unit e)) \<and>
    cur (mul_unit ((exec_cycle s ^^ n) e)) = (mul_next s ^^ n) (cur (mul_unit e))"
  by (induction n) (use assms exec_cycle_units in auto)

lemma div_not_mul: "div_instruction s \<Longrightarrow> \<not> mul_instruction s"
  by (auto simp: div_instruction_def mul_instruction_def is_div_def is_mul_def)

lemma alu_result_units:
  "st_br_op s = BNONE \<Longrightarrow> is_div (st_alu_op s) \<Longrightarrow> alu_result s e = div_result (cur (div_unit e))"
  "st_br_op s = BNONE \<Longrightarrow> is_mul (st_alu_op s) \<Longrightarrow> alu_result s e = mul_result (cur (mul_unit e))"
  by (auto simp: alu_result_def is_div_def is_mul_def)

definition div_example :: pstate where
  "div_example = state_zero\<lparr>st_valid := True, st_alu_op := Alu_DIV, st_rs1_val := - 7, st_rs2_val := 2\<rparr>"

definition mul_example :: pstate where
  "mul_example = state_zero\<lparr>st_valid := True, st_alu_op := Alu_MULH, st_rs1_val := - 2, st_rs2_val := 3\<rparr>"

definition exec_start :: exec_state where
  "exec_start = exec_strobe (exec_work True state_zero
     \<lparr>div_unit = \<lparr>cur = div_zero, nxt = div_zero\<rparr>, mul_unit = \<lparr>cur = mul_zero, nxt = mul_zero\<rparr>\<rparr>)"

lemma exec_start_simps:
  "exec_rest exec_start" "\<not> div_busy (cur (div_unit exec_start))" "\<not> mul_busy (cur (mul_unit exec_start))"
  "\<not> div_result_match s (cur (div_unit exec_start))" "\<not> mul_result_match s (cur (mul_unit exec_start))"
  by (simp_all add: exec_start_def exec_strobe_def exec_work_def Let_def exec_rest_def div_zero_def mul_zero_def
      div_result_match_def mul_result_match_def)

lemma example_simps:
  "div_instruction div_example" "st_br_op div_example = BNONE" "mul_instruction mul_example" "st_br_op mul_example = BNONE"
  by (simp_all add: div_example_def mul_example_def div_instruction_def mul_instruction_def is_div_def is_mul_def state_zero_def)

lemma example_results:
  "div_spec (st_alu_op div_example) (st_rs1_val div_example) (st_rs2_val div_example) = - 3"
  "mul_spec (st_alu_op mul_example) (st_rs1_val mul_example) (st_rs2_val mul_example) = - 1"
  by (simp_all add: div_example_def mul_example_def div_spec_def mul_spec_def mul_signed_a_def mul_signed_b_def signed_divide_int_def)

text \<open>
  C26: A division that starts on an idle divider which does not hold its result yet holds the
  pipeline for exactly one cycle when the divisor is zero and 34 cycles otherwise, and then delivers
  the architectural result.
\<close>

theorem division_completes:
  assumes "exec_rest e" and "\<not> div_busy (cur (div_unit e))" and "div_instruction s" and "st_br_op s = BNONE"
    and "\<not> div_result_match s (cur (div_unit e))"
  shows "(\<forall>k < div_cycles s. multicycle_wait s ((exec_cycle s ^^ k) e)) \<and> \<not> multicycle_wait s ((exec_cycle s ^^ div_cycles s) e) \<and>
    alu_result s ((exec_cycle s ^^ div_cycles s) e) = div_spec (st_alu_op s) (st_rs1_val s) (st_rs2_val s)"
proof -
  note fin = div_finishes [OF assms(2,3,5)]
  have "is_div (st_alu_op s)"
    using assms(3) by (simp add: div_instruction_def)
  then show ?thesis
    using exec_cycles [OF assms(1), where s = s] fin assms(3) div_not_mul [OF assms(3)] alu_result_units(1) [OF assms(4)]
    unfolding multicycle_wait_def by simp
qed

lemma division_completes_witness:
  "\<not> multicycle_wait div_example ((exec_cycle div_example ^^ div_cycles div_example) exec_start) \<and>
    alu_result div_example ((exec_cycle div_example ^^ div_cycles div_example) exec_start) = - 3"
  using division_completes [OF exec_start_simps(1,2) example_simps(1,2) exec_start_simps(4)]
  unfolding example_results by blast

text \<open>C27: A multiplication that starts on an idle multiplier which does not hold its result yet holds
  the pipeline for exactly 33 cycles and delivers the architectural result.\<close>

theorem multiplication_completes:
  assumes "exec_rest e" and "\<not> mul_busy (cur (mul_unit e))" and "mul_instruction s" and "st_br_op s = BNONE"
    and "\<not> mul_result_match s (cur (mul_unit e))"
  shows "(\<forall>k < 33. multicycle_wait s ((exec_cycle s ^^ k) e)) \<and> \<not> multicycle_wait s ((exec_cycle s ^^ 33) e) \<and>
    alu_result s ((exec_cycle s ^^ 33) e) = mul_spec (st_alu_op s) (st_rs1_val s) (st_rs2_val s)"
proof -
  note fin = mul_finishes [OF assms(2,3,5)]
  have "is_mul (st_alu_op s)" "\<not> div_instruction s"
    using assms(3) div_not_mul by (auto simp: mul_instruction_def)
  then show ?thesis
    using exec_cycles [OF assms(1), where s = s] fin assms(3) alu_result_units(2) [OF assms(4)]
    unfolding multicycle_wait_def by simp
qed

lemma multiplication_completes_witness:
  "\<not> multicycle_wait mul_example ((exec_cycle mul_example ^^ 33) exec_start) \<and>
    alu_result mul_example ((exec_cycle mul_example ^^ 33) exec_start) = - 1"
  using multiplication_completes [OF exec_start_simps(1,3) example_simps(3,4) exec_start_simps(5)]
  unfolding example_results by blast

text \<open>The states reached from reset when the instruction may change at any cycle.\<close>

inductive exec_reach :: "exec_state \<Rightarrow> bool" where
  reset: "exec_reach (exec_strobe (exec_work True s e))"
| cycle: "exec_reach e \<Longrightarrow> exec_reach (exec_cycle s e)"

lemma exec_reach_ok: "exec_reach e \<Longrightarrow> exec_rest e \<and> div_ok (cur (div_unit e)) \<and> mul_ok (cur (mul_unit e))"
proof (induction rule: exec_reach.induct)
  case (reset s e)
  then show ?case
    by (simp add: exec_rest_def exec_strobe_def exec_work_def Let_def div_ok_def mul_ok_def div_zero_def mul_zero_def)
next
  case (cycle e s)
  then show ?case
    using exec_cycle_units div_next_ok mul_next_ok by simp
qed

lemma multicycle_result:
  assumes "exec_reach e" and "st_br_op s = BNONE" and "div_instruction s \<or> mul_instruction s" and "\<not> multicycle_wait s e"
  shows "alu_result s e = (if div_instruction s then div_spec (st_alu_op s) (st_rs1_val s) (st_rs2_val s)
    else mul_spec (st_alu_op s) (st_rs1_val s) (st_rs2_val s))"
proof (cases "div_instruction s")
  case True
  then have "is_div (st_alu_op s)"
    by (simp add: div_instruction_def)
  then show ?thesis
    using True assms(4) exec_reach_ok [OF assms(1)] alu_result_units(1) [OF assms(2), of e]
    by (auto simp: multicycle_wait_def div_result_match_def div_ok_def)
next
  case False
  then have "is_mul (st_alu_op s)"
    using assms(3) by (simp add: mul_instruction_def)
  then show ?thesis
    using False assms(3,4) exec_reach_ok [OF assms(1)] alu_result_units(2) [OF assms(2), of e]
    by (auto simp: multicycle_wait_def mul_result_match_def mul_ok_def)
qed
text \<open>
  C25: Whatever instructions were issued, flushed or replaced before, a multiplication or division
  that does not wait has its own architectural result on the output.
\<close>

theorem multicycle_result_correct:
  assumes "exec_reach e" and "st_br_op s = BNONE" and "div_instruction s \<or> mul_instruction s" and "\<not> multicycle_wait s e"
  shows "alu_result s e = (if div_instruction s then div_spec (st_alu_op s) (st_rs1_val s) (st_rs2_val s)
    else mul_spec (st_alu_op s) (st_rs1_val s) (st_rs2_val s))"
  using assms by (rule multicycle_result)

lemma exec_reach_example: "exec_reach ((exec_cycle s ^^ n) exec_start)"
  by (induction n) (auto simp: exec_start_def intro: exec_reach.intros)

lemma example_ready:
  "\<not> multicycle_wait div_example ((exec_cycle div_example ^^ div_cycles div_example) exec_start)"
  using exec_cycles [OF exec_start_simps(1), where s = div_example] example_simps(1) div_not_mul [OF example_simps(1)]
    div_finishes(1) [OF exec_start_simps(2) example_simps(1) exec_start_simps(4)]
  by (simp add: multicycle_wait_def)

lemma multicycle_result_correct_witness:
  "alu_result div_example ((exec_cycle div_example ^^ div_cycles div_example) exec_start) = - 3"
  using multicycle_result_correct [OF exec_reach_example example_simps(2) disjI1 [OF example_simps(1)] example_ready]
  unfolding example_results by (simp only: example_simps if_True)

lemma branch_taken_numbers:
  "branch_taken s \<longleftrightarrow> st_valid s \<and>
     (case st_br_op s of
        BEQZ \<Rightarrow> st_rs1_val s = 0 | BNEZ \<Rightarrow> st_rs1_val s \<noteq> 0
      | BEQ \<Rightarrow> st_rs1_val s = st_rs2_val s | BNE \<Rightarrow> st_rs1_val s \<noteq> st_rs2_val s
      | BLT \<Rightarrow> sint (st_rs1_val s) < sint (st_rs2_val s) | BGE \<Rightarrow> sint (st_rs2_val s) \<le> sint (st_rs1_val s)
      | BLTU \<Rightarrow> uint (st_rs1_val s) < uint (st_rs2_val s) | BGEU \<Rightarrow> uint (st_rs2_val s) \<le> uint (st_rs1_val s)
      | Br_JAL \<Rightarrow> True | Br_JALR \<Rightarrow> True | Br_JR \<Rightarrow> True | BNONE \<Rightarrow> False)"
proof -
  let ?a = "st_rs1_val s" and ?b = "st_rs2_val s"
  have "(if drop_bit 31 (?a XOR ?b) \<noteq> 0 then drop_bit 31 ?a \<noteq> 0 else ?a < ?b) \<longleftrightarrow> sint ?a < sint ?b"
  proof -
    have u: "uint x < 2 ^ 32" "0 \<le> uint x" for x :: u32
      using uint_bounded [of x] by simp_all
    have less: "uint ?a - 2 ^ 32 < uint ?b" "\<not> uint ?a < uint ?b - 2 ^ 32"
      using u [of ?a] u [of ?b] by linarith+
    show ?thesis
      using less by (cases "bit ?a 31"; cases "bit ?b 31") (simp_all add: top_bit sint_u32 word_less_def bit_xor_iff)
  qed
  then show ?thesis
    unfolding branch_taken_def Let_def by (cases "st_br_op s") (auto simp: word_less_def word_le_def)
qed

text \<open>
  The branch decision compares as the instruction set says, although the signed comparison is
  built from unsigned ones: exclusive or of the operands, their top bits and an unsigned comparison.
\<close>

theorem branch_decision:
  "branch_taken s \<longleftrightarrow> st_valid s \<and>
     (case st_br_op s of
        BEQZ \<Rightarrow> st_rs1_val s = 0 | BNEZ \<Rightarrow> st_rs1_val s \<noteq> 0
      | BEQ \<Rightarrow> st_rs1_val s = st_rs2_val s | BNE \<Rightarrow> st_rs1_val s \<noteq> st_rs2_val s
      | BLT \<Rightarrow> sint (st_rs1_val s) < sint (st_rs2_val s) | BGE \<Rightarrow> sint (st_rs2_val s) \<le> sint (st_rs1_val s)
      | BLTU \<Rightarrow> uint (st_rs1_val s) < uint (st_rs2_val s) | BGEU \<Rightarrow> uint (st_rs2_val s) \<le> uint (st_rs1_val s)
      | Br_JAL \<Rightarrow> True | Br_JALR \<Rightarrow> True | Br_JR \<Rightarrow> True | BNONE \<Rightarrow> False)"
  by (rule branch_taken_numbers)

end
