(* ===== verification/Writeback.thy ===== *)
theory Writeback
  imports RvState
begin

text \<open>
  The writeback stage (\<open>tribe_cpu/Writeback.h\<close>): the value and the enable of the register
  write. Load data arrives aligned to bit 0 and is only extended here.
\<close>

record writeback_in =
  wb_state_in :: pstate
  wb_alu_result_in :: u32
  wb_mem_data_in :: u32

definition load_extend :: "3 word \<Rightarrow> u32 \<Rightarrow> u32" where
  "load_extend funct3 mem_word =
     (if funct3 = 0b000 then scast (ucast mem_word :: 8 word)
      else if funct3 = 0b001 then scast (ucast mem_word :: 16 word)
      else if funct3 = 0b010 then mem_word
      else if funct3 = 0b100 then ucast (ucast mem_word :: 8 word)
      else if funct3 = 0b101 then ucast (ucast mem_word :: 16 word)
      else 0)"

definition regs_out_comb :: "writeback_in \<Rightarrow> u32" where
  "regs_out_comb w =
     (let s = wb_state_in w in
      case st_wb_op s of
        Wb_PC2 \<Rightarrow> st_pc s + 2
      | Wb_PC4 \<Rightarrow> st_pc s + 4
      | Wb_ALU \<Rightarrow> wb_alu_result_in w
      | Wb_MEM \<Rightarrow> load_extend (st_funct3 s) (wb_mem_data_in w)
      | WNONE \<Rightarrow> 0)"

definition regs_wr_id :: "writeback_in \<Rightarrow> 5 word" where
  "regs_wr_id w = st_rd (wb_state_in w)"

definition regs_write_comb :: "writeback_in \<Rightarrow> bool" where
  "regs_write_comb w = (st_wb_op (wb_state_in w) \<noteq> WNONE \<and> st_valid (wb_state_in w))"

text \<open>The numbers that the five kinds of load write.\<close>

lemma load_extend_number:
  "sint (load_extend 0b000 x) = signed_take_bit 7 (uint x)"
  "sint (load_extend 0b001 x) = signed_take_bit 15 (uint x)"
  "load_extend 0b010 x = x"
  "uint (load_extend 0b100 x) = take_bit 8 (uint x)"
  "uint (load_extend 0b101 x) = take_bit 16 (uint x)"
proof -
  have "sint (scast y :: u32) = sint y" "sint (scast z :: u32) = sint z" for y :: "8 word" and z :: "16 word"
    by (simp_all add: sint_up_scast is_up)
  moreover have "sint (ucast x :: 8 word) = signed_take_bit 7 (uint x)" "sint (ucast x :: 16 word) = signed_take_bit 15 (uint x)"
    by (simp_all add: sint_uint unsigned_ucast_eq signed_take_bit_take_bit)
  ultimately show "sint (load_extend 0b000 x) = signed_take_bit 7 (uint x)" "sint (load_extend 0b001 x) = signed_take_bit 15 (uint x)"
    by (simp_all add: load_extend_def)
  have "uint (ucast (ucast x :: 8 word) :: u32) = uint (ucast x :: 8 word)"
    "uint (ucast (ucast x :: 16 word) :: u32) = uint (ucast x :: 16 word)"
    by (rule uint_up_ucast; simp add: is_up)+
  moreover have "uint (ucast x :: 8 word) = take_bit 8 (uint x)" "uint (ucast x :: 16 word) = take_bit 16 (uint x)"
    by (simp_all add: unsigned_ucast_eq)
  ultimately show "uint (load_extend 0b100 x) = take_bit 8 (uint x)" "uint (load_extend 0b101 x) = take_bit 16 (uint x)"
    by (simp_all only: load_extend_def if_False if_True simp_thms) simp_all
qed (simp add: load_extend_def)

end
