(* ===== verification/IsaStep.thy ===== *)
theory IsaStep
  imports Isa ExecUnits Writeback
begin

text \<open>
  The stages composed: what the decode, execute and writeback stages do with one instruction
  word, and what the manual says the instruction does.
\<close>

section \<open>One instruction\<close>

text \<open>The arithmetic of the manual, on 32-bit registers.\<close>

definition isa_op :: "3 word \<Rightarrow> 7 word \<Rightarrow> u32 \<Rightarrow> u32 \<Rightarrow> u32" where
  "isa_op f3 f7 a b =
     (if f7 = 1 then if unat f3 < 4 then mul_spec (op_meaning f3 1) a b else div_spec (op_meaning f3 1) a b
      else if f3 = 0 then if f7 = 32 then a - b else a + b
      else if f3 = 1 then push_bit (unat b mod 32) a
      else if f3 = 2 then of_bool (sint a < sint b)
      else if f3 = 3 then of_bool (uint a < uint b)
      else if f3 = 4 then a XOR b
      else if f3 = 5 then if f7 = 32 then word_of_int (sint a div 2 ^ (unat b mod 32)) else word_of_int (uint a div 2 ^ (unat b mod 32))
      else if f3 = 6 then a OR b
      else a AND b)"

fun isa_value :: "u32 \<Rightarrow> (5 word \<Rightarrow> u32) \<Rightarrow> insn \<Rightarrow> (5 word \<times> u32) option" where
  "isa_value p regs (I_OpImm f3 rd rs1 imm) =
     Some (rd, isa_op f3 (if f3 = 5 \<and> drop_bit 5 imm = 32 then 32 else 0) (regs rs1) (scast imm))"
| "isa_value p regs (I_Op f3 f7 rd rs1 rs2) = Some (rd, isa_op f3 f7 (regs rs1) (regs rs2))"
| "isa_value p regs (I_Jal rd imm) = Some (rd, p + 4)"
| "isa_value p regs (I_Jalr rd rs1 imm) = Some (rd, p + 4)"
| "isa_value p regs (I_Lui rd imm) = Some (rd, push_bit 12 (ucast imm))"
| "isa_value p regs (I_Auipc rd imm) = Some (rd, p + push_bit 12 (ucast imm))"
| "isa_value p regs _ = None"

definition isa_condition :: "3 word \<Rightarrow> u32 \<Rightarrow> u32 \<Rightarrow> bool" where
  "isa_condition f3 a b =
     (if f3 = 0 then a = b else if f3 = 1 then a \<noteq> b
      else if f3 = 4 then sint a < sint b else if f3 = 5 then sint b \<le> sint a
      else if f3 = 6 then uint a < uint b else uint b \<le> uint a)"

fun isa_next :: "u32 \<Rightarrow> (5 word \<Rightarrow> u32) \<Rightarrow> insn \<Rightarrow> u32" where
  "isa_next p regs (I_Branch f3 rs1 rs2 imm) = (if isa_condition f3 (regs rs1) (regs rs2) then p + scast imm else p + 4)"
| "isa_next p regs (I_Jal rd imm) = p + scast imm"
| "isa_next p regs (I_Jalr rd rs1 imm) = (regs rs1 + scast imm) AND NOT 1"
| "isa_next p regs _ = p + 4"

text \<open>The instructions whose effect is a register write and the next address.\<close>

fun is_register_insn :: "insn \<Rightarrow> bool" where
  "is_register_insn (I_Load _ _ _ _) = False"
| "is_register_insn (I_Store _ _ _ _) = False"
| "is_register_insn (I_Csr _ _ _ _) = False"
| "is_register_insn _ = True"

text \<open>The decode stage fed with the instruction and the registers it asks for.\<close>

definition decoded :: "u32 \<Rightarrow> (5 word \<Rightarrow> u32) \<Rightarrow> u32 \<Rightarrow> pstate" where
  "decoded p regs raw =
     (let s = decode_zicsr raw in
      state_comb \<lparr>d_pc_in = p, d_instr_valid_in = True, d_instr_in = raw, d_regs_data0_in = regs (st_rs1 s), d_regs_data1_in = regs (st_rs2 s)\<rparr>)"

definition stage_write :: "pstate \<Rightarrow> exec_state \<Rightarrow> u32 \<Rightarrow> (5 word \<times> u32) option" where
  "stage_write s e mem =
     (let w = \<lparr>wb_state_in = s, wb_alu_result_in = alu_result s e, wb_mem_data_in = mem\<rparr>
      in if regs_write_comb w then Some (regs_wr_id w, regs_out_comb w) else None)"

definition stage_next :: "pstate \<Rightarrow> u32" where
  "stage_next s = (if branch_taken s then branch_target s else st_pc s + 4)"

lemma decoded_fields:
  fixes x p regs
  assumes "legal x" and "s = decoded p regs (encode x)" and "m = meaning x"
  shows "st_rs1_val s = (if st_rs1 m \<noteq> 0 then regs (st_rs1 m) else if r_opcode (encode x) = 0b0010111 then p else st_rs1_val m)"
    and "st_rs2_val s = (if st_rs2 m \<noteq> 0 then regs (st_rs2 m) else st_rs2_val m)"
    and "st_pc s = p" "st_valid s" "st_imm s = st_imm m" "st_alu_op s = st_alu_op m" "st_mem_op s = st_mem_op m" "st_wb_op s = st_wb_op m"
    and "st_br_op s = st_br_op m" "st_rd s = st_rd m" "st_rs2 s = st_rs2 m" "st_funct3 s = st_funct3 m"
proof -
  have low: "r_opcode (encode x) = 0b0010111 \<Longrightarrow> encode x AND 3 = 3"
    by (cases x) (simp_all add: low_bits_pack field_pack)
  have m: "decode_zicsr (encode x) = m"
    using decode_insn [OF assms(1)] assms(3) by simp
  define d where "d = \<lparr>d_pc_in = p, d_instr_valid_in = True, d_instr_in = encode x, d_regs_data0_in = regs (st_rs1 m),
    d_regs_data1_in = regs (st_rs2 m)\<rparr>"
  define s1 where "s1 = (if encode x AND 3 = 3 \<and> r_opcode (encode x) = 0b0010111 then m\<lparr>st_rs1_val := p\<rparr> else m)"
  define s2 where "s2 = s1\<lparr>st_valid := True, st_pc := p\<rparr>"
  define s3 where "s3 = (if st_rs1 m \<noteq> 0 then s2\<lparr>st_rs1_val := regs (st_rs1 m)\<rparr> else s2)"
  have f1: "st_rs1 s1 = st_rs1 m" "st_rs2 s1 = st_rs2 m"
    by (simp_all add: s1_def)
  have f3: "st_rs2 s3 = st_rs2 m"
    by (simp add: s3_def s2_def f1)
  have s: "s = (if st_rs2 m \<noteq> 0 then s3\<lparr>st_rs2_val := regs (st_rs2 m)\<rparr> else s3)"
  proof -
    have "s = state_comb d"
      by (simp add: assms(2) decoded_def m d_def Let_def)
    then show ?thesis
      by (simp add: state_comb_def Let_def d_def m s3_def s2_def s1_def)
  qed
  show "st_rs1_val s = (if st_rs1 m \<noteq> 0 then regs (st_rs1 m) else if r_opcode (encode x) = 0b0010111 then p else st_rs1_val m)"
    using low by (auto simp: s s3_def s2_def s1_def)
  show "st_rs2_val s = (if st_rs2 m \<noteq> 0 then regs (st_rs2 m) else st_rs2_val m)"
    "st_pc s = p" "st_valid s" "st_imm s = st_imm m" "st_alu_op s = st_alu_op m" "st_mem_op s = st_mem_op m" "st_wb_op s = st_wb_op m"
    "st_br_op s = st_br_op m" "st_rd s = st_rd m" "st_rs2 s = st_rs2 m" "st_funct3 s = st_funct3 m"
    by (simp_all add: s s3_def s2_def s1_def)
qed

lemma shift_amount: "unat ((b :: u32) AND 0x1F) = unat b mod 32"
proof -
  have "(0x1F :: u32) = mask 5"
    by (simp add: mask_eq_exp_minus_1)
  then have "b AND 0x1F = take_bit 5 b"
    by (simp only: take_bit_eq_mask)
  then have "unat (b AND 0x1F) = take_bit 5 (unat b)"
    by (simp only: unsigned_take_bit_eq)
  then show ?thesis
    by (simp add: take_bit_eq_mod)
qed

lemma shift_right_numbers:
  "drop_bit n (a :: u32) = word_of_int (uint a div 2 ^ n)"
  "signed_drop_bit n (a :: u32) = word_of_int (sint a div 2 ^ n)"
proof -
  have "drop_bit n a = word_of_int (drop_bit n (uint a))"
    by (rule bit_word_eqI) (auto simp: bit_drop_bit_eq bit_word_of_int_iff bit_unsigned_iff)
  moreover have "signed_drop_bit n a = word_of_int (drop_bit n (sint a))"
    by (simp only: sint_signed_drop_bit_eq [symmetric] of_int_sint scast_id id_apply)
  ultimately show "drop_bit n a = word_of_int (uint a div 2 ^ n)" "signed_drop_bit n a = word_of_int (sint a div 2 ^ n)"
    by (simp_all only: drop_bit_eq_div)
qed

text \<open>The unit result, when the operation is one of the combinational ones.\<close>

lemma alu_isa_op:
  assumes "op_meaning f3 f7 = st_alu_op s" and "f7 = 0 \<or> f7 = 32 \<and> (f3 = 0 \<or> f3 = 5)" and "st_br_op s = BNONE"
  shows "alu_result s e = isa_op f3 f7 (alu_a s) (alu_b s)"
  using three_bits [of f3] assms unfolding alu_result_def Let_def shift_amount shift_right_numbers
  by (elim disjE) (auto simp: op_meaning_def isa_op_def word_less_def dest!: sym)

lemma is_op_meaning:
  "f7 = 1 \<Longrightarrow> is_div (op_meaning f3 f7) \<or> is_mul (op_meaning f3 f7)"
  "f7 = 1 \<Longrightarrow> is_div (op_meaning f3 f7) \<longleftrightarrow> 4 \<le> unat f3"
  using three_bits [of f3] by (auto simp: op_meaning_def is_div_def is_mul_def)

lemma op_result:
  assumes op: "st_alu_op s = op_meaning f3 f7" "st_br_op s = BNONE" "st_valid s" and f7: "f7 = 0 \<or> f7 = 1 \<or> f7 = 32 \<and> (f3 = 0 \<or> f3 = 5)"
    and ready: "exec_reach e" "\<not> multicycle_wait s e" and m: "f7 = 1 \<Longrightarrow> st_rs1_val s = a \<and> st_rs2_val s = b"
    and ab: "alu_a s = a" "f7 \<noteq> 1 \<Longrightarrow> alu_b s = b"
  shows "alu_result s e = isa_op f3 f7 a b"
proof (cases "f7 = 1")
  case True
  then have kind: "div_instruction s \<longleftrightarrow> 4 \<le> unat f3" "div_instruction s \<or> mul_instruction s"
    using is_op_meaning [of f7 f3] op by (auto simp: div_instruction_def mul_instruction_def)
  show ?thesis
    using multicycle_result [OF ready(1) op(2) kind(2) ready(2)] m [OF True] op(1) kind(1) True by (simp add: isa_op_def)
next
  case False
  then show ?thesis
    using alu_isa_op [OF op(1) [symmetric] _ op(2)] f7 ab by simp
qed

lemma not_multicycle: "\<not> is_div (st_alu_op s) \<Longrightarrow> \<not> is_mul (st_alu_op s) \<Longrightarrow> \<not> multicycle_wait s e"
  by (simp add: multicycle_wait_def div_instruction_def mul_instruction_def)

lemma register_insn_meaning:
  "is_register_insn x \<Longrightarrow> st_mem_op (meaning x) = MNONE"
  "st_rs1_val (meaning x) = 0" "st_rs2_val (meaning x) = 0"
  by (cases x; simp add: state_zero_def)+

lemma stage_write_alu:
  "st_wb_op s = Wb_ALU \<Longrightarrow> st_valid s \<Longrightarrow> stage_write s e mem = Some (st_rd s, alu_result s e)"
  "st_wb_op s = Wb_PC4 \<Longrightarrow> st_valid s \<Longrightarrow> stage_write s e mem = Some (st_rd s, st_pc s + 4)"
  "st_wb_op s = WNONE \<Longrightarrow> stage_write s e mem = None"
  by (simp_all add: stage_write_def Let_def regs_write_comb_def regs_wr_id_def regs_out_comb_def)

lemma stage_next_plain: "st_br_op s = BNONE \<Longrightarrow> stage_next s = st_pc s + 4"
  by (simp add: stage_next_def branch_taken_numbers)

lemma state_zero_fields [simp]:
  "st_pc state_zero = 0" "st_rs1_val state_zero = 0" "st_rs2_val state_zero = 0" "st_imm state_zero = 0"
  "st_valid state_zero = False" "st_alu_op state_zero = ANONE" "st_mem_op state_zero = MNONE" "st_wb_op state_zero = WNONE"
  "st_br_op state_zero = BNONE" "st_funct3 state_zero = 0" "st_rd state_zero = 0" "st_rs1 state_zero = 0" "st_rs2 state_zero = 0"
  by (simp_all add: state_zero_def)

lemma register_insn_refines:
  assumes x: "legal x" "is_register_insn x" and r0: "regs 0 = 0" and s: "s = decoded p regs (encode x)"
    and ready: "exec_reach e" "\<not> multicycle_wait s e"
  shows "stage_write s e mem = isa_value p regs x \<and> stage_next s = isa_next p regs x"
proof -
  note f = decoded_fields [OF x(1) s refl]
  have v1: "st_rs1_val s = regs (st_rs1 (meaning x))" if "r_opcode (encode x) \<noteq> 0b0010111"
    using that f(1) r0 register_insn_meaning(2) [of x] by (cases "st_rs1 (meaning x) = 0") simp_all
  have v2: "st_rs2_val s = regs (st_rs2 (meaning x))"
    using f(2) r0 register_insn_meaning(3) [of x] by (cases "st_rs2 (meaning x) = 0") simp_all
  have mem: "st_mem_op s = MNONE"
    using f(7) register_insn_meaning(1) [OF x(2)] by simp
  have a: "alu_a s = st_rs1_val s" and b: "alu_b s = (if st_rs2 s \<noteq> 0 then st_rs2_val s else st_imm s)"
    by (simp_all add: alu_a_def alu_b_def mem)
  show ?thesis
  proof (cases x)
    case (I_OpImm f3 rd rs1 imm)
    define g :: "7 word" where "g = (if f3 = 5 \<and> drop_bit 5 imm = 32 then 32 else 0)"
    have g: "g = 0 \<or> g = 1 \<or> g = 32 \<and> (f3 = 0 \<or> f3 = 5)" "g \<noteq> 1"
      by (simp_all add: g_def)
    have "alu_a s = regs rs1" "alu_b s = scast imm" "st_br_op s = BNONE"
      using f v1 a b I_OpImm by (simp_all add: field_pack)
    moreover have "st_alu_op s = op_meaning f3 g"
      using f(6) unfolding I_OpImm by (simp add: g_def)
    ultimately have "alu_result s e = isa_op f3 g (regs rs1) (scast imm)"
      using g by (intro op_result [OF _ _ f(4) g(1) ready]) simp_all
    then show ?thesis
      using f I_OpImm by (simp add: stage_write_alu stage_next_plain g_def)
  next
    case (I_Op f3 f7 rd rs1 rs2)
    have "alu_b s = regs rs2"
      using f v2 b I_Op r0 by (cases "rs2 = 0") simp_all
    then have "alu_result s e = isa_op f3 f7 (regs rs1) (regs rs2)"
      using f v1 v2 a x(1) I_Op by (intro op_result [OF _ _ _ _ ready]) (simp_all add: field_pack)
    then show ?thesis
      using f I_Op by (simp add: stage_write_alu stage_next_plain)
  next
    case (I_Branch f3 rs1 rs2 imm)
    have vs: "st_rs1_val s = regs rs1" "st_rs2_val s = regs rs2"
      using v1 v2 I_Branch by (simp_all add: field_pack)
    have w: "stage_write s e mem = None"
      using f I_Branch by (intro stage_write_alu(3)) simp
    have br: "st_br_op s = [BEQ, BNE, BNONE, BNONE, BLT, BGE, BLTU, BGEU] ! unat f3" "st_imm s = scast imm"
      using f I_Branch by simp_all
    have "stage_next s = isa_next p regs x"
      using three_bits [of f3] x(1) br f(3,4) vs unfolding I_Branch
      by (elim disjE) (simp_all add: stage_next_def branch_taken_numbers branch_target_def isa_condition_def)
    then show ?thesis
      using w I_Branch by simp
  next
    case (I_Jal rd imm)
    then show ?thesis
      using f by (simp add: stage_write_alu stage_next_def branch_taken_numbers branch_target_def)
  next
    case (I_Jalr rd rs1 imm)
    then show ?thesis
      using f v1 by (simp add: stage_write_alu stage_next_def branch_taken_numbers branch_target_def field_pack)
  next
    case (I_Lui rd imm)
    then have "alu_result s e = push_bit 12 (ucast imm)"
      using f b by (simp add: alu_result_def Let_def)
    then show ?thesis
      using f I_Lui by (simp add: stage_write_alu stage_next_plain)
  next
    case (I_Auipc rd imm)
    then have "alu_result s e = p + push_bit 12 (ucast imm)"
      using f a b by (simp add: alu_result_def Let_def field_pack)
    then show ?thesis
      using f I_Auipc by (simp add: stage_write_alu stage_next_plain)
  qed (use x(2) in simp_all)
qed
text \<open>
  C24: The decode, execute and writeback stages together implement the manual: an instruction that
  does not wait writes the register and value, and continues at the address, that the manual gives.
\<close>

theorem instruction_refines_manual:
  assumes "legal x" and "is_register_insn x" and "regs 0 = 0" and "exec_reach e"
    and "\<not> multicycle_wait (decoded p regs (encode x)) e"
  shows "stage_write (decoded p regs (encode x)) e mem = isa_value p regs x \<and>
    stage_next (decoded p regs (encode x)) = isa_next p regs x"
  using register_insn_refines [OF assms(1,2,3) refl assms(4,5)] .

lemma instruction_refines_manual_witness:
  "stage_write (decoded 0 (\<lambda>r. if r = 2 then 7 else 0) (encode (I_OpImm 0 1 2 5))) exec_start 0 = Some (1, 12)"
proof -
  let ?x = "I_OpImm 0 1 2 5" and ?regs = "\<lambda>r. if r = 2 then 7 else 0 :: u32"
  have legal: "legal ?x"
    by simp
  have "st_alu_op (decoded 0 ?regs (encode ?x)) = Alu_ADD"
    using decoded_fields(6) [OF legal refl refl, of 0 ?regs] by (simp add: op_meaning_def)
  then have "\<not> multicycle_wait (decoded 0 ?regs (encode ?x)) exec_start"
    by (intro not_multicycle) (simp_all add: is_div_def is_mul_def)
  moreover have "exec_reach exec_start"
    using exec_reach_example [of 0] by simp
  ultimately show ?thesis
    using instruction_refines_manual [OF legal _ _ _, of ?regs exec_start 0 0] by (simp add: isa_op_def)
qed

end
