(* ===== verification/BranchPredictor.thy ===== *)
theory BranchPredictor
  imports RvState RegMemory Clog2
begin

text \<open>
  The branch predictor (\<open>tribe_cpu/BranchPredictor.h\<close>): direct-mapped entries with a
  saturating counter, a target, a tag and a valid bit. The template parameters are a record;
  the arrays are lists in registers, and an access out of range is \<open>None\<close>. Counters are the
  numbers below \<open>2 ^ COUNTER_BITS\<close>; what is stored in one is truncated to that width.
\<close>

record bp_cfg =
  ENTRIES :: nat
  COUNTER_BITS :: nat

text \<open>The \<open>static_assert\<close>s, with the logarithm of the number of entries.\<close>

definition bp_cfg_ok :: "nat \<Rightarrow> bp_cfg \<Rightarrow> bool" where
  "bp_cfg_ok k c \<longleftrightarrow> ENTRIES c = 2 ^ k \<and> 0 < COUNTER_BITS c \<and> COUNTER_BITS c \<le> 8"

definition INDEX_BITS :: "bp_cfg \<Rightarrow> nat" where
  "INDEX_BITS c = (if ENTRIES c \<le> 1 then 1 else clog2 (ENTRIES c))"

definition COUNTER_MAX :: "bp_cfg \<Rightarrow> nat" where
  "COUNTER_MAX c = 2 ^ COUNTER_BITS c - 1"

definition COUNTER_INIT :: "bp_cfg \<Rightarrow> nat" where
  "COUNTER_INIT c = COUNTER_MAX c div 2"

record bp_state =
  counter_reg :: "nat list reg"
  target_reg :: "u32 list reg"
  tag_reg :: "u32 list reg"
  valid_reg :: "bool list reg"

record bp_in =
  lookup_valid_in :: bool
  lookup_pc_in :: u32
  lookup_target_in :: u32
  lookup_fallthrough_in :: u32
  lookup_br_op_in :: br_op
  update_valid_in :: bool
  update_pc_in :: u32
  update_taken_in :: bool
  update_target_in :: u32

definition element :: "'a list \<Rightarrow> nat \<Rightarrow> 'a option" where
  "element xs i = (if i < length xs then Some (xs ! i) else None)"

section \<open>Lookup\<close>

definition lookup_index :: "bp_cfg \<Rightarrow> bp_in \<Rightarrow> nat" where
  "lookup_index c i = unat (drop_bit 1 (lookup_pc_in i)) mod 2 ^ INDEX_BITS c"

definition lookup_hit :: "bp_cfg \<Rightarrow> bp_in \<Rightarrow> bp_state \<Rightarrow> bool option" where
  "lookup_hit c i s =
     (case element (cur (valid_reg s)) (lookup_index c i) of
        None \<Rightarrow> None
      | Some v \<Rightarrow> if v then map_option (\<lambda>t. t = lookup_pc_in i) (element (cur (tag_reg s)) (lookup_index c i))
                 else Some False)"

definition lookup_unconditional :: "bp_in \<Rightarrow> bool" where
  "lookup_unconditional i \<longleftrightarrow>
     lookup_br_op_in i = Br_JAL \<or> lookup_br_op_in i = Br_JALR \<or> lookup_br_op_in i = Br_JR"

definition predict_taken :: "bp_cfg \<Rightarrow> bp_in \<Rightarrow> bp_state \<Rightarrow> bool option" where
  "predict_taken c i s =
     (if lookup_valid_in i
      then if lookup_unconditional i then Some True
           else case lookup_hit c i s of
                  None \<Rightarrow> None
                | Some hit \<Rightarrow>
                    if hit then map_option (\<lambda>n. (COUNTER_MAX c + 1) div 2 \<le> n) (element (cur (counter_reg s)) (lookup_index c i))
                    else Some False
      else Some False)"

definition predict_next :: "bp_cfg \<Rightarrow> bp_in \<Rightarrow> bp_state \<Rightarrow> u32 option" where
  "predict_next c i s =
     (case predict_taken c i s of
        None \<Rightarrow> None
      | Some taken \<Rightarrow>
          if taken
          then case lookup_hit c i s of
                 None \<Rightarrow> None
               | Some hit \<Rightarrow> if hit then element (cur (target_reg s)) (lookup_index c i) else Some (lookup_target_in i)
          else Some (lookup_fallthrough_in i))"

section \<open>Update\<close>

definition update_index :: "bp_cfg \<Rightarrow> u32 \<Rightarrow> nat" where
  "update_index c pc = unat (drop_bit 1 pc) AND (ENTRIES c - 1)"

definition bp_count :: "bp_cfg \<Rightarrow> bool \<Rightarrow> nat \<Rightarrow> nat" where
  "bp_count c taken counter =
     (if taken then if counter \<noteq> COUNTER_MAX c then (counter + 1) mod 2 ^ COUNTER_BITS c else counter
      else if counter \<noteq> 0 then (counter - 1) mod 2 ^ COUNTER_BITS c else counter)"

definition bp_update :: "bp_cfg \<Rightarrow> bp_in \<Rightarrow> bp_state \<Rightarrow> bp_state" where
  "bp_update c i s =
     (let index = update_index c (update_pc_in i);
          counter = cur (counter_reg s) ! index;
          counters = (if bp_count c (update_taken_in i) counter \<noteq> counter
            then (nxt (counter_reg s))[index := bp_count c (update_taken_in i) counter]
            else nxt (counter_reg s))
      in s\<lparr>counter_reg := (counter_reg s)\<lparr>nxt := counters\<rparr>,
           target_reg := (target_reg s)\<lparr>nxt := (nxt (target_reg s))[index := update_target_in i]\<rparr>,
           tag_reg := (tag_reg s)\<lparr>nxt := (nxt (tag_reg s))[index := update_pc_in i]\<rparr>,
           valid_reg := (valid_reg s)\<lparr>nxt := (nxt (valid_reg s))[index := True]\<rparr>\<rparr>)"

definition bp_reset :: "bp_cfg \<Rightarrow> bp_state \<Rightarrow> bp_state" where
  "bp_reset c s =
     s\<lparr>counter_reg := (counter_reg s)\<lparr>nxt := replicate (ENTRIES c) (COUNTER_INIT c)\<rparr>,
       target_reg := (target_reg s)\<lparr>nxt := replicate (ENTRIES c) 0\<rparr>,
       tag_reg := (tag_reg s)\<lparr>nxt := replicate (ENTRIES c) 0\<rparr>,
       valid_reg := (valid_reg s)\<lparr>nxt := replicate (ENTRIES c) False\<rparr>\<rparr>"

definition bp_work :: "bp_cfg \<Rightarrow> bool \<Rightarrow> bp_in \<Rightarrow> bp_state \<Rightarrow> bp_state" where
  "bp_work c reset i s =
     (let s = (if update_valid_in i then bp_update c i s else s) in if reset then bp_reset c s else s)"

definition bp_strobe :: "bp_state \<Rightarrow> bp_state" where
  "bp_strobe s =
     s\<lparr>counter_reg := reg_strobe (counter_reg s), target_reg := reg_strobe (target_reg s),
       tag_reg := reg_strobe (tag_reg s), valid_reg := reg_strobe (valid_reg s)\<rparr>"

definition bp_cycle :: "bp_cfg \<Rightarrow> bool \<Rightarrow> bp_in \<Rightarrow> bp_state \<Rightarrow> bp_state" where
  "bp_cycle c reset i s = bp_strobe (bp_work c reset i s)"

section \<open>Invariant\<close>

definition bp_inv :: "bp_cfg \<Rightarrow> bp_state \<Rightarrow> bool" where
  "bp_inv c s \<longleftrightarrow> settled (counter_reg s) \<and> settled (target_reg s) \<and> settled (tag_reg s) \<and> settled (valid_reg s) \<and>
     length (cur (counter_reg s)) = ENTRIES c \<and> length (cur (target_reg s)) = ENTRIES c \<and>
     length (cur (tag_reg s)) = ENTRIES c \<and> length (cur (valid_reg s)) = ENTRIES c \<and>
     (\<forall>n \<in> set (cur (counter_reg s)). n \<le> COUNTER_MAX c)"

text \<open>Counting saturates, and the truncation to the width of a counter loses nothing.\<close>

lemma counter_width: "2 ^ COUNTER_BITS c = Suc (COUNTER_MAX c)"
  by (simp add: COUNTER_MAX_def)

lemma bp_count_saturates:
  "n \<le> COUNTER_MAX c \<Longrightarrow> bp_count c t n = (if t then min (n + 1) (COUNTER_MAX c) else n - 1)"
  by (auto simp: bp_count_def counter_width)

lemma bp_count_le: "n \<le> COUNTER_MAX c \<Longrightarrow> bp_count c t n \<le> COUNTER_MAX c"
  by (auto simp: bp_count_saturates)

lemma update_index: "bp_cfg_ok k c \<Longrightarrow> update_index c pc = unat (drop_bit 1 pc) mod 2 ^ k"
proof -
  assume "bp_cfg_ok k c"
  then have "ENTRIES c - 1 = mask k"
    by (simp add: bp_cfg_ok_def mask_eq_exp_minus_1)
  then show ?thesis
    by (simp only: update_index_def take_bit_eq_mask [symmetric] take_bit_eq_mod)
qed

lemma update_index_lt: "bp_cfg_ok k c \<Longrightarrow> update_index c pc < ENTRIES c"
  by (simp add: update_index) (simp add: bp_cfg_ok_def)

lemma lookup_index: "bp_cfg_ok k c \<Longrightarrow> 0 < k \<Longrightarrow> lookup_index c i = update_index c (lookup_pc_in i)"
proof -
  assume c: "bp_cfg_ok k c" "0 < k"
  then have "2 ^ 1 \<le> (2 :: nat) ^ k"
    by (intro power_increasing) simp_all
  then have "INDEX_BITS c = k"
    using c clog2_power [of k] by (simp add: INDEX_BITS_def bp_cfg_ok_def)
  then show ?thesis
    by (simp add: lookup_index_def update_index [OF c(1)])
qed

text \<open>The committed arrays after a cycle with an update, and after one without.\<close>

lemma bp_cycle_update:
  assumes "bp_inv c s" and "update_valid_in i"
  defines "k \<equiv> update_index c (update_pc_in i)" and "s' \<equiv> bp_cycle c False i s"
  shows "cur (counter_reg s') = (cur (counter_reg s))[k := bp_count c (update_taken_in i) (cur (counter_reg s) ! k)]"
    and "cur (target_reg s') = (cur (target_reg s))[k := update_target_in i]"
    and "cur (tag_reg s') = (cur (tag_reg s))[k := update_pc_in i]"
    and "cur (valid_reg s') = (cur (valid_reg s))[k := True]"
  using assms(1,2) unfolding k_def s'_def
  by (auto simp: bp_cycle_def bp_work_def bp_update_def bp_strobe_def Let_def bp_inv_def settled_def)

lemma bp_cycle_settled:
  assumes "s' = bp_cycle c r i s"
  shows "settled (counter_reg s')" "settled (target_reg s')" "settled (tag_reg s')" "settled (valid_reg s')"
  using assms by (simp_all add: bp_cycle_def bp_strobe_def)

lemma bp_cycle_inv: "bp_inv c s \<Longrightarrow> bp_inv c (bp_cycle c False i s)"
proof (cases "update_valid_in i")
  case True
  assume inv: "bp_inv c s"
  let ?k = "update_index c (update_pc_in i)" and ?cs = "cur (counter_reg s)"
  have "n \<le> COUNTER_MAX c" if n: "n \<in> set (?cs[?k := bp_count c (update_taken_in i) (?cs ! ?k)])" for n
  proof (cases "?k < length ?cs")
    case True
    then have "n \<in> set ?cs \<or> n = bp_count c (update_taken_in i) (?cs ! ?k)"
      using n set_update_subset_insert [of ?cs ?k] by blast
    then show ?thesis
      using inv True bp_count_le [of "?cs ! ?k" c] by (auto simp: bp_inv_def)
  next
    case False
    then show ?thesis
      using n inv by (simp add: bp_inv_def list_update_beyond)
  qed
  then show ?thesis
    using inv bp_cycle_settled [OF refl] unfolding bp_inv_def bp_cycle_update [OF inv True] by simp
next
  case False
  assume "bp_inv c s"
  then show ?thesis
    using False by (simp add: bp_inv_def bp_cycle_def bp_work_def bp_strobe_def settled_def reg_strobe_def)
qed

lemma bp_reset_inv: "bp_inv c (bp_cycle c True i s)"
  by (auto simp: bp_inv_def bp_cycle_def bp_work_def bp_reset_def bp_strobe_def Let_def COUNTER_INIT_def settled_def reg_strobe_def)

lemma bp_cycle_reset:
  "cur (counter_reg (bp_cycle c True i s)) = replicate (ENTRIES c) (COUNTER_INIT c)"
  "cur (valid_reg (bp_cycle c True i s)) = replicate (ENTRIES c) False"
  by (simp_all add: bp_cycle_def bp_work_def bp_reset_def bp_strobe_def Let_def reg_strobe_def)

lemma bp_cycle_idle:
  assumes "bp_inv c s" and "\<not> update_valid_in i"
  shows "cur (counter_reg (bp_cycle c False i s)) = cur (counter_reg s)"
    and "cur (target_reg (bp_cycle c False i s)) = cur (target_reg s)"
    and "cur (tag_reg (bp_cycle c False i s)) = cur (tag_reg s)"
    and "cur (valid_reg (bp_cycle c False i s)) = cur (valid_reg s)"
  using assms by (simp_all add: bp_cycle_def bp_work_def bp_strobe_def bp_inv_def settled_def reg_strobe_def)

section \<open>Training\<close>

fun bp_run :: "bp_cfg \<Rightarrow> bp_in list \<Rightarrow> bp_state \<Rightarrow> bp_state" where
  "bp_run c [] s = s"
| "bp_run c (i # is) s = bp_run c is (bp_cycle c False i s)"

lemma bp_run_inv: "bp_inv c s \<Longrightarrow> bp_inv c (bp_run c is s)"
  by (induction "is" arbitrary: s) (auto intro: bp_cycle_inv)

definition trains :: "u32 \<Rightarrow> bool \<Rightarrow> bp_in list \<Rightarrow> bool" where
  "trains pc t is \<longleftrightarrow> list_all (\<lambda>i. update_valid_in i \<and> update_pc_in i = pc \<and> update_taken_in i = t) is"

lemma bp_run_entry:
  assumes "bp_inv c s" and "bp_cfg_ok k c" and "trains pc t is"
  defines "x \<equiv> update_index c pc"
  shows "cur (counter_reg (bp_run c is s)) ! x =
      (if t then min (cur (counter_reg s) ! x + length is) (COUNTER_MAX c) else cur (counter_reg s) ! x - length is)"
    and "is \<noteq> [] \<Longrightarrow> cur (target_reg (bp_run c is s)) ! x = update_target_in (last is) \<and>
      cur (tag_reg (bp_run c is s)) ! x = pc \<and> cur (valid_reg (bp_run c is s)) ! x"
proof -
  have x: "x < ENTRIES c"
    unfolding x_def by (rule update_index_lt [OF assms(2)])
  have "cur (counter_reg (bp_run c is s)) ! x =
      (if t then min (cur (counter_reg s) ! x + length is) (COUNTER_MAX c) else cur (counter_reg s) ! x - length is) \<and>
      (is \<noteq> [] \<longrightarrow> cur (target_reg (bp_run c is s)) ! x = update_target_in (last is) \<and>
        cur (tag_reg (bp_run c is s)) ! x = pc \<and> cur (valid_reg (bp_run c is s)) ! x)"
    using assms(1,3)
  proof (induction "is" arbitrary: s)
    case Nil
    have "cur (counter_reg s) ! x \<le> COUNTER_MAX c"
      using Nil.prems(1) x by (auto simp: bp_inv_def)
    then show ?case by simp
  next
    case (Cons i "is")
    let ?s = "bp_cycle c False i s"
    have i: "update_valid_in i" "update_index c (update_pc_in i) = x" "update_taken_in i = t" "update_pc_in i = pc"
      and rest: "trains pc t is"
      using Cons.prems(2) by (auto simp: trains_def x_def)
    have len: "x < length (cur (counter_reg s))" "x < length (cur (target_reg s))" "x < length (cur (tag_reg s))"
      "x < length (cur (valid_reg s))" and max: "cur (counter_reg s) ! x \<le> COUNTER_MAX c"
      using Cons.prems(1) x by (auto simp: bp_inv_def)
    have fields: "cur (counter_reg ?s) ! x = bp_count c t (cur (counter_reg s) ! x)" "cur (target_reg ?s) ! x = update_target_in i"
      "cur (tag_reg ?s) ! x = pc" "cur (valid_reg ?s) ! x"
      using bp_cycle_update [OF Cons.prems(1) i(1)] i len by simp_all
    show ?case
      using Cons.IH [OF bp_cycle_inv [OF Cons.prems(1)] rest] fields max
      by (cases "is") (auto simp: bp_count_saturates)
  qed
  then show "cur (counter_reg (bp_run c is s)) ! x =
      (if t then min (cur (counter_reg s) ! x + length is) (COUNTER_MAX c) else cur (counter_reg s) ! x - length is)"
    and "is \<noteq> [] \<Longrightarrow> cur (target_reg (bp_run c is s)) ! x = update_target_in (last is) \<and>
      cur (tag_reg (bp_run c is s)) ! x = pc \<and> cur (valid_reg (bp_run c is s)) ! x"
    by simp_all
qed

text \<open>
  C36: After half the counter range of consecutive outcomes of one branch, whatever the predictor held
  before, that branch is predicted with this outcome: taken to its last target, or falling through.
\<close>

theorem training_decides_prediction:
  assumes "bp_inv c s" and "bp_cfg_ok k c" and "0 < k" and "trains pc t is"
    and "2 ^ (COUNTER_BITS c - 1) \<le> length is"
    and "lookup_valid_in j" and "lookup_pc_in j = pc" and "\<not> lookup_unconditional j"
  shows "predict_taken c j (bp_run c is s) = Some t \<and>
    predict_next c j (bp_run c is s) = Some (if t then update_target_in (last is) else lookup_fallthrough_in j)"
proof -
  let ?s = "bp_run c is s" and ?x = "update_index c pc"
  have ne: "is \<noteq> []"
    using assms(5) by (cases "is") auto
  note run = bp_run_entry [OF assms(1,2,4)]
  have x: "lookup_index c j = ?x" "?x < ENTRIES c"
    using lookup_index [OF assms(2,3)] assms(7) update_index_lt [OF assms(2)] by simp_all
  have inv: "bp_inv c ?s"
    using assms(1) by (rule bp_run_inv)
  then have len: "?x < length (cur (counter_reg ?s))" "?x < length (cur (target_reg ?s))" "?x < length (cur (tag_reg ?s))"
    "?x < length (cur (valid_reg ?s))"
    using x by (simp_all add: bp_inv_def)
  have hit: "lookup_hit c j ?s = Some True"
    using run(2) [OF ne] len assms(7) by (simp add: lookup_hit_def element_def x)
  obtain b where b: "COUNTER_BITS c = Suc b"
    using assms(2) by (cases "COUNTER_BITS c") (auto simp: bp_cfg_ok_def)
  define B :: nat where "B = 2 ^ b"
  have half: "(COUNTER_MAX c + 1) div 2 = B" "COUNTER_MAX c = 2 * B - 1" "B \<le> length is" "0 < B"
    using assms(5) by (simp_all add: COUNTER_MAX_def b B_def)
  have "cur (counter_reg s) ! ?x \<le> COUNTER_MAX c"
    using assms(1) x by (auto simp: bp_inv_def)
  then have "(COUNTER_MAX c + 1) div 2 \<le> cur (counter_reg ?s) ! ?x \<longleftrightarrow> t"
    unfolding run(1) half(1) unfolding half(2) using half(3,4) by (cases t) auto
  then have taken: "predict_taken c j ?s = Some t"
    using assms(6,8) len by (simp add: predict_taken_def hit element_def x)
  then show ?thesis
    using run(2) [OF ne] len by (simp add: predict_next_def hit element_def x)
qed

definition bp_example :: bp_cfg where
  "bp_example = \<lparr>ENTRIES = 16, COUNTER_BITS = 2\<rparr>"

definition bp_example_in :: bp_in where
  "bp_example_in = \<lparr>lookup_valid_in = True, lookup_pc_in = 100, lookup_target_in = 0, lookup_fallthrough_in = 104,
     lookup_br_op_in = BEQ, update_valid_in = True, update_pc_in = 100, update_taken_in = True, update_target_in = 40\<rparr>"

definition bp_example_start :: bp_state where
  "bp_example_start = bp_cycle bp_example True bp_example_in
     \<lparr>counter_reg = \<lparr>cur = [], nxt = []\<rparr>, target_reg = \<lparr>cur = [], nxt = []\<rparr>, tag_reg = \<lparr>cur = [], nxt = []\<rparr>,
      valid_reg = \<lparr>cur = [], nxt = []\<rparr>\<rparr>"

lemma bp_example_ok:
  "bp_cfg_ok 4 bp_example" "bp_inv bp_example bp_example_start" "trains 100 True [bp_example_in, bp_example_in]"
  "2 ^ (COUNTER_BITS bp_example - 1) \<le> length [bp_example_in, bp_example_in]"
  by (simp_all add: bp_cfg_ok_def bp_example_def trains_def bp_example_in_def bp_example_start_def bp_inv_def bp_cycle_def bp_work_def
      bp_reset_def bp_strobe_def Let_def COUNTER_INIT_def COUNTER_MAX_def settled_def reg_strobe_def bp_update_def)

lemma training_decides_prediction_witness:
  "predict_next bp_example bp_example_in (bp_run bp_example [bp_example_in, bp_example_in] bp_example_start) = Some 40"
  using training_decides_prediction [OF bp_example_ok(2,1) _ bp_example_ok(3,4), of bp_example_in]
  by (simp add: bp_example_in_def lookup_unconditional_def)

section \<open>The prediction as a function of the history\<close>

text \<open>
  The specification: branches share the entry of their address modulo the number of entries;
  an entry counts the outcomes of all of them, saturating, from half the range, and belongs to the
  branch that was resolved last.
\<close>

definition shared_updates :: "nat \<Rightarrow> u32 \<Rightarrow> bp_in list \<Rightarrow> bp_in list" where
  "shared_updates k pc is =
     filter (\<lambda>i. update_valid_in i \<and> unat (update_pc_in i) div 2 mod 2 ^ k = unat pc div 2 mod 2 ^ k) is"

definition count_outcomes :: "nat \<Rightarrow> nat \<Rightarrow> bp_in list \<Rightarrow> nat" where
  "count_outcomes b n is = foldl (\<lambda>n i. if update_taken_in i then min (n + 1) (2 ^ b - 1) else n - 1) n is"

definition known :: "u32 \<Rightarrow> bp_in list \<Rightarrow> bool" where
  "known pc us \<longleftrightarrow> us \<noteq> [] \<and> update_pc_in (last us) = pc"

lemma count_outcomes_Cons:
  "count_outcomes b n (i # is) = count_outcomes b (if update_taken_in i then min (n + 1) (2 ^ b - 1) else n - 1) is"
  by (simp add: count_outcomes_def)

lemma bp_run_history:
  fixes c :: bp_cfg and s :: bp_state and k :: nat and pc :: u32 and hs :: "bp_in list"
  assumes "bp_inv c s" and c: "bp_cfg_ok k c"
  defines "x \<equiv> update_index c pc" and "us \<equiv> \<lambda>is. shared_updates k pc is"
  shows "cur (counter_reg (bp_run c hs s)) ! x = count_outcomes (COUNTER_BITS c) (cur (counter_reg s) ! x) (us hs) \<and>
    cur (valid_reg (bp_run c hs s)) ! x = (us hs \<noteq> [] \<or> cur (valid_reg s) ! x) \<and>
    cur (tag_reg (bp_run c hs s)) ! x = (if us hs = [] then cur (tag_reg s) ! x else update_pc_in (last (us hs))) \<and>
    cur (target_reg (bp_run c hs s)) ! x = (if us hs = [] then cur (target_reg s) ! x else update_target_in (last (us hs)))"
proof -
  have x: "x < ENTRIES c"
    unfolding x_def by (rule update_index_lt [OF c])
  have index: "update_index c p = unat p div 2 mod 2 ^ k" for p
    by (simp add: update_index [OF c] unat_drop_bit_eq) (simp add: drop_bit_eq_div)
  have Cons_us: "us (i # is) = (if update_valid_in i \<and> update_index c (update_pc_in i) = x then i # us is else us is)" for i "is"
    by (simp add: us_def shared_updates_def x_def index)
  have "us [] = []"
    by (simp add: us_def shared_updates_def)
  with assms(1) show ?thesis
  proof (induction hs arbitrary: s)
    case Nil
    then show ?case by (simp add: count_outcomes_def)
  next
    case (Cons i hs)
    let ?s = "bp_cycle c False i s"
    note IH = Cons.IH [OF bp_cycle_inv [OF Cons.prems(1)] Cons.prems(2)]
    have len: "x < length (cur (counter_reg s))" "x < length (cur (target_reg s))" "x < length (cur (tag_reg s))"
      "x < length (cur (valid_reg s))" and max: "cur (counter_reg s) ! x \<le> COUNTER_MAX c"
      using Cons.prems(1) x by (auto simp: bp_inv_def)
    consider (mine) "update_valid_in i" "update_index c (update_pc_in i) = x"
      | (other) "update_valid_in i" "update_index c (update_pc_in i) \<noteq> x" | (idle) "\<not> update_valid_in i"
      by blast
    then show ?case
    proof cases
      case mine
      have fields: "cur (counter_reg ?s) ! x =
          (if update_taken_in i then min (cur (counter_reg s) ! x + 1) (2 ^ COUNTER_BITS c - 1) else cur (counter_reg s) ! x - 1)"
        "cur (target_reg ?s) ! x = update_target_in i" "cur (tag_reg ?s) ! x = update_pc_in i" "cur (valid_reg ?s) ! x"
        using bp_cycle_update [OF Cons.prems(1) mine(1)] mine(2) len bp_count_saturates [OF max]
        by (simp_all add: COUNTER_MAX_def)
      show ?thesis
        using IH mine by (simp add: Cons_us count_outcomes_Cons fields)
    next
      case other
      have "cur (counter_reg ?s) ! x = cur (counter_reg s) ! x" "cur (valid_reg ?s) ! x = cur (valid_reg s) ! x"
        "cur (tag_reg ?s) ! x = cur (tag_reg s) ! x" "cur (target_reg ?s) ! x = cur (target_reg s) ! x"
        using bp_cycle_update [OF Cons.prems(1) other(1)] other(2) by simp_all
      then show ?thesis
        using IH other by (simp add: Cons_us)
    next
      case idle
      then show ?thesis
        using IH bp_cycle_idle [OF Cons.prems(1) idle] by (simp add: Cons_us)
    qed
  qed
qed

text \<open>
  C37: After a reset, whatever the state before, and any sequence of resolved branches, the prediction is the
  one that the history determines. A conditional branch is predicted taken exactly when the last update of
  its entry was its own and the outcomes counted there, from half the range and saturating at
  both ends, are in the upper half; an unconditional one always. The predicted address is the last
  target when the entry belongs to the branch, the decoded target when it does not, and the
  fall-through address when the branch is not predicted taken.
\<close>

theorem prediction_is_history:
  assumes "bp_cfg_ok k c" and "0 < k"
  shows "let s = bp_run c is (bp_cycle c True i0 s0); us = shared_updates k (lookup_pc_in j) is;
      hit = known (lookup_pc_in j) us; b = COUNTER_BITS c;
      taken = (lookup_valid_in j \<and> (lookup_unconditional j \<or>
        hit \<and> 2 ^ (b - 1) \<le> count_outcomes b ((2 ^ b - 1) div 2) us))
    in predict_taken c j s = Some taken \<and>
      predict_next c j s = Some (if taken then if hit then update_target_in (last us) else lookup_target_in j
        else lookup_fallthrough_in j)"
proof -
  let ?r = "bp_cycle c True i0 s0" and ?s = "bp_run c is (bp_cycle c True i0 s0)"
  let ?us = "shared_updates k (lookup_pc_in j) is" and ?x = "update_index c (lookup_pc_in j)" and ?b = "COUNTER_BITS c"
  have x: "lookup_index c j = ?x" "?x < ENTRIES c"
    using lookup_index [OF assms] update_index_lt [OF assms(1)] by simp_all
  have "bp_inv c ?s"
    by (intro bp_run_inv bp_reset_inv)
  then have len: "?x < length (cur (counter_reg ?s))" "?x < length (cur (target_reg ?s))" "?x < length (cur (tag_reg ?s))"
    "?x < length (cur (valid_reg ?s))"
    using x by (simp_all add: bp_inv_def)
  note history = bp_run_history [OF bp_reset_inv [of c i0 s0] assms(1), where pc = "lookup_pc_in j" and hs = "is"]
  have count: "cur (counter_reg ?s) ! ?x = count_outcomes ?b ((2 ^ ?b - 1) div 2) ?us"
    using history x by (simp add: bp_cycle_reset COUNTER_INIT_def COUNTER_MAX_def)
  have hit: "lookup_hit c j ?s = Some (known (lookup_pc_in j) ?us)"
    using history x len by (auto simp: lookup_hit_def element_def known_def bp_cycle_reset)
  have target: "known (lookup_pc_in j) ?us \<Longrightarrow> cur (target_reg ?s) ! ?x = update_target_in (last ?us)"
    using history by (simp add: known_def)
  obtain b where "?b = Suc b"
    using assms(1) by (cases ?b) (auto simp: bp_cfg_ok_def)
  then have "(COUNTER_MAX c + 1) div 2 = 2 ^ (?b - 1)"
    by (simp add: COUNTER_MAX_def)
  then have taken: "predict_taken c j ?s = Some (lookup_valid_in j \<and> (lookup_unconditional j \<or>
      known (lookup_pc_in j) ?us \<and> 2 ^ (?b - 1) \<le> count_outcomes ?b ((2 ^ ?b - 1) div 2) ?us))"
    using len by (simp add: predict_taken_def hit element_def x count)
  then show ?thesis
    using len target by (auto simp: predict_next_def hit element_def x Let_def)
qed

text \<open>One taken outcome makes a two-bit counter predict taken; a branch 32 bytes on takes the entry over.\<close>

lemma prediction_is_history_witness:
  "predict_next bp_example bp_example_in (bp_run bp_example [bp_example_in] (bp_cycle bp_example True bp_example_in bp_example_start)) = Some 40 \<and>
   predict_next bp_example bp_example_in
     (bp_run bp_example [bp_example_in, bp_example_in\<lparr>update_pc_in := 132\<rparr>] (bp_cycle bp_example True bp_example_in bp_example_start)) = Some 104"
proof -
  let ?own = "[bp_example_in]" and ?both = "[bp_example_in, bp_example_in\<lparr>update_pc_in := 132\<rparr>]"
  have in_100: "lookup_pc_in bp_example_in = 100" "lookup_valid_in bp_example_in" "\<not> lookup_unconditional bp_example_in"
    "lookup_fallthrough_in bp_example_in = 104" "update_target_in bp_example_in = 40" "COUNTER_BITS bp_example = 2"
    by (simp_all add: bp_example_in_def bp_example_def lookup_unconditional_def)
  have own: "shared_updates 4 100 ?own = ?own" "known 100 ?own" "count_outcomes 2 (Suc 0) ?own = 2"
    and both: "shared_updates 4 100 ?both = ?both" "\<not> known 100 ?both"
    by (simp_all add: shared_updates_def known_def count_outcomes_def bp_example_in_def)
  show ?thesis
    using prediction_is_history [OF bp_example_ok(1), of ?own bp_example_in bp_example_start bp_example_in]
      prediction_is_history [OF bp_example_ok(1), of ?both bp_example_in bp_example_start bp_example_in]
    unfolding Let_def in_100 own(1) both(1)
    by (simp add: in_100 own both del: bp_run.simps)
qed

text \<open>
  With a single entry, which the assertions of the template admit, the index of a lookup is one
  bit wide: an address with bit 1 set reads past the arrays.
\<close>

theorem single_entry_lookup_out_of_range:
  "\<exists>c i s. bp_cfg_ok 0 c \<and> bp_inv c s \<and> predict_taken c i s = None"
proof -
  define c where "c = \<lparr>ENTRIES = 1, COUNTER_BITS = 2\<rparr>"
  define s where "s = bp_cycle c True bp_example_in bp_example_start"
  define i where "i = bp_example_in\<lparr>lookup_pc_in := 2\<rparr>"
  have "bp_cfg_ok 0 c" "bp_inv c s"
    using bp_reset_inv [of c bp_example_in bp_example_start] unfolding s_def by (simp_all add: c_def bp_cfg_ok_def)
  moreover have "lookup_index c i = 1"
    by (simp add: lookup_index_def INDEX_BITS_def c_def i_def)
  then have "predict_taken c i s = None"
    using \<open>bp_inv c s\<close>
    by (simp add: predict_taken_def lookup_hit_def element_def bp_inv_def c_def i_def bp_example_in_def lookup_unconditional_def)
  ultimately show ?thesis by blast
qed

end
