(* ===== verification/InterruptController.thy ===== *)
theory InterruptController
  imports Prelude
begin

text \<open>
  The interrupt controller (\<open>tribe_cpu/InterruptController.h\<close>), a combinational module: the
  pending bits seen by the current privilege, the cause that is picked, its target privilege
  and the global enable.
\<close>

record irq_in =
  mstatus_in :: u32
  mie_in :: u32
  mideleg_in :: u32
  mip_sw_in :: u32
  priv_in :: "2 word"
  clint_msip_in :: bool
  clint_mtip_in :: bool
  external_irq_in :: bool

definition MSTATUS_SIE :: "u32" where "MSTATUS_SIE = push_bit 1 1"
definition MSTATUS_MIE :: "u32" where "MSTATUS_MIE = push_bit 3 1"
definition PRIV_S :: "2 word" where "PRIV_S = 1"
definition PRIV_M :: "2 word" where "PRIV_M = 3"
definition IRQ_SSIP :: "nat" where "IRQ_SSIP = 1"
definition IRQ_MSIP :: "nat" where "IRQ_MSIP = 3"
definition IRQ_STIP :: "nat" where "IRQ_STIP = 5"
definition IRQ_MTIP :: "nat" where "IRQ_MTIP = 7"
definition IRQ_SEIP :: "nat" where "IRQ_SEIP = 9"
definition IRQ_MEIP :: "nat" where "IRQ_MEIP = 11"
definition MIP_SOFTWARE_WRITABLE_MASK :: "u32" where "MIP_SOFTWARE_WRITABLE_MASK = push_bit IRQ_SSIP 1"

lemmas irq_consts = MSTATUS_SIE_def MSTATUS_MIE_def PRIV_S_def PRIV_M_def IRQ_SSIP_def IRQ_MSIP_def IRQ_STIP_def
  IRQ_MTIP_def IRQ_SEIP_def IRQ_MEIP_def MIP_SOFTWARE_WRITABLE_MASK_def

definition mip_comb :: "irq_in \<Rightarrow> u32" where
  "mip_comb i =
     (let m = mip_sw_in i AND MIP_SOFTWARE_WRITABLE_MASK;
          m = (if clint_msip_in i then m OR push_bit (if priv_in i = PRIV_M then IRQ_MSIP else IRQ_SSIP) 1 else m);
          m = (if clint_mtip_in i then m OR push_bit (if priv_in i = PRIV_M then IRQ_MTIP else IRQ_STIP) 1 else m)
      in if external_irq_in i then m OR push_bit (if priv_in i = PRIV_M then IRQ_MEIP else IRQ_SEIP) 1 else m)"

definition enabled_pending_comb :: "irq_in \<Rightarrow> u32" where
  "enabled_pending_comb i = mip_comb i AND mie_in i"

definition interrupt_cause_comb :: "irq_in \<Rightarrow> nat" where
  "interrupt_cause_comb i =
     (let pending = enabled_pending_comb i in
      if pending AND push_bit IRQ_MEIP 1 \<noteq> 0 then IRQ_MEIP
      else if pending AND push_bit IRQ_STIP 1 \<noteq> 0 \<and> priv_in i \<noteq> PRIV_M \<and> drop_bit IRQ_STIP (mideleg_in i) AND 1 \<noteq> 0
      then IRQ_STIP
      else if pending AND push_bit IRQ_MSIP 1 \<noteq> 0 then IRQ_MSIP
      else if pending AND push_bit IRQ_MTIP 1 \<noteq> 0 then IRQ_MTIP
      else if pending AND push_bit IRQ_SEIP 1 \<noteq> 0 then IRQ_SEIP
      else if pending AND push_bit IRQ_SSIP 1 \<noteq> 0 then IRQ_SSIP
      else if pending AND push_bit IRQ_STIP 1 \<noteq> 0 then IRQ_STIP
      else 0)"

definition interrupt_to_supervisor_comb :: "irq_in \<Rightarrow> bool" where
  "interrupt_to_supervisor_comb i =
     (let cause = interrupt_cause_comb i in
      cause \<noteq> 0 \<and> priv_in i \<noteq> PRIV_M \<and> drop_bit cause (mideleg_in i) AND 1 \<noteq> 0)"

definition interrupt_valid_comb :: "irq_in \<Rightarrow> bool" where
  "interrupt_valid_comb i =
     (let cause = interrupt_cause_comb i; to_s = interrupt_to_supervisor_comb i;
          global_enable =
            (if cause \<noteq> 0
             then if to_s then priv_in i < PRIV_S \<or> mstatus_in i AND MSTATUS_SIE \<noteq> 0
                  else priv_in i < PRIV_M \<or> mstatus_in i AND MSTATUS_MIE \<noteq> 0
             else False)
      in cause \<noteq> 0 \<and> global_enable)"

section \<open>Which interrupts are taken\<close>

lemma and_push_1: "(x :: u32) AND push_bit n 1 \<noteq> 0 \<longleftrightarrow> bit x n"
  by (simp add: push_bit_eq_mult and_exp_eq_0_iff_not_bit)

lemma drop_and_1: "drop_bit n (x :: u32) AND 1 \<noteq> 0 \<longleftrightarrow> bit x n"
  by (simp add: and_one_eq odd_iff_mod_2_eq_one bit_iff_odd_drop_bit)

lemma bit_mip:
  "bit (mip_comb i) n \<longleftrightarrow>
    (n = 1 \<and> bit (mip_sw_in i) 1) \<or>
    (clint_msip_in i \<and> n = (if priv_in i = 3 then 3 else 1)) \<or>
    (clint_mtip_in i \<and> n = (if priv_in i = 3 then 7 else 5)) \<or>
    (external_irq_in i \<and> n = (if priv_in i = 3 then 11 else 9))"
proof -
  have push: "bit (push_bit k (1 :: u32)) n \<longleftrightarrow> n = k \<and> k < 32" for k
    using bit_imp_le_length [of "push_bit k (1 :: u32)" n] by (auto simp: push_bit_eq_mult bit_exp_iff)
  have or_if: "bit (if c then x OR y else x) n \<longleftrightarrow> bit x n \<or> c \<and> bit y n" for c and x y :: u32
    by (simp add: bit_or_iff)
  have pick: "push_bit (if c then j else k) (1 :: u32) = (if c then push_bit j 1 else push_bit k 1)" for c j k
    by simp
  show ?thesis
    unfolding mip_comb_def Let_def or_if bit_and_iff MIP_SOFTWARE_WRITABLE_MASK_def push
    unfolding irq_consts by (cases "priv_in i = 3") auto
qed

text \<open>
  C38: The interrupt that is picked is pending in the view of the current privilege and enabled;
  none is picked exactly when nothing is pending and enabled.
\<close>

theorem cause_is_pending:
  "(if interrupt_cause_comb i = 0 then enabled_pending_comb i = 0
    else bit (mip_comb i) (interrupt_cause_comb i) \<and> bit (mie_in i) (interrupt_cause_comb i))"
proof -
  have bits: "bit (enabled_pending_comb i) n \<longleftrightarrow> bit (mip_comb i) n \<and> bit (mie_in i) n" for n
    by (simp add: enabled_pending_comb_def bit_and_iff)
  have none: "enabled_pending_comb i = 0" if "\<forall>n \<in> {1, 3, 5, 7, 9, 11}. \<not> bit (enabled_pending_comb i) n"
  proof (rule bit_word_eqI)
    fix n
    show "bit (enabled_pending_comb i) n \<longleftrightarrow> bit 0 n"
      using that by (auto simp: bits bit_mip split: if_splits)
  qed
  define P where "P = bit (enabled_pending_comb i)"
  have cause: "interrupt_cause_comb i =
      (if P 11 then 11 else if P 5 \<and> priv_in i \<noteq> 3 \<and> bit (mideleg_in i) 5 then 5 else if P 3 then 3
       else if P 7 then 7 else if P 9 then 9 else if P 1 then 1 else if P 5 then 5 else 0)"
    unfolding interrupt_cause_comb_def Let_def and_push_1 drop_and_1 irq_consts P_def ..
  have "P (interrupt_cause_comb i)" if "interrupt_cause_comb i \<noteq> 0"
    using that unfolding cause by (simp split: if_splits)
  moreover have "enabled_pending_comb i = 0" if "interrupt_cause_comb i = 0"
    using that none unfolding cause P_def [symmetric] by (simp split: if_splits)
  ultimately show ?thesis
    unfolding P_def bits by simp
qed

text \<open>
  In machine mode the order is external, software, timer; below it, where the controller shows
  the lines as supervisor interrupts, a delegated timer comes before external and software ones.
\<close>

theorem cause_priority:
  "interrupt_cause_comb i =
    (if priv_in i = PRIV_M
     then if external_irq_in i \<and> bit (mie_in i) 11 then 11
          else if clint_msip_in i \<and> bit (mie_in i) 3 then 3
          else if clint_mtip_in i \<and> bit (mie_in i) 7 then 7
          else if bit (mip_sw_in i) 1 \<and> bit (mie_in i) 1 then 1 else 0
     else if clint_mtip_in i \<and> bit (mie_in i) 5 \<and> bit (mideleg_in i) 5 then 5
          else if external_irq_in i \<and> bit (mie_in i) 9 then 9
          else if (clint_msip_in i \<or> bit (mip_sw_in i) 1) \<and> bit (mie_in i) 1 then 1
          else if clint_mtip_in i \<and> bit (mie_in i) 5 then 5 else 0)"
  unfolding interrupt_cause_comb_def Let_def and_push_1 drop_and_1 enabled_pending_comb_def bit_and_iff bit_mip irq_consts
  by (cases "priv_in i = 3") auto

text \<open>
  An interrupt is taken exactly when a cause is picked and the target privilege is above the
  current one, or equal to it with its enable bit set.
\<close>

theorem interrupt_taken:
  "interrupt_valid_comb i \<longleftrightarrow> interrupt_cause_comb i \<noteq> 0 \<and>
    (if interrupt_to_supervisor_comb i then priv_in i = 0 \<or> bit (mstatus_in i) 1
     else if priv_in i = PRIV_M then bit (mstatus_in i) 3 else True)"
proof -
  have "priv_in i < PRIV_S \<longleftrightarrow> priv_in i = 0"
    by (simp add: PRIV_S_def)
  moreover have "priv_in i < PRIV_M \<longleftrightarrow> priv_in i \<noteq> PRIV_M"
    using unsigned_less [of "priv_in i", where 'a = nat]
    by (auto simp: PRIV_M_def word_less_nat_alt word_unat_eq_iff)
  ultimately show ?thesis
    unfolding interrupt_valid_comb_def Let_def MSTATUS_SIE_def MSTATUS_MIE_def and_push_1 by auto
qed

text \<open>
  A delegated interrupt is nevertheless taken in machine mode: the controller does not mask
  delegated causes there, although it never delegates them from machine mode either.
\<close>

theorem delegated_taken_in_machine_mode:
  "\<exists>i. priv_in i = PRIV_M \<and> bit (mideleg_in i) (interrupt_cause_comb i) \<and> interrupt_valid_comb i \<and>
     \<not> interrupt_to_supervisor_comb i"
proof -
  define i where "i = \<lparr>mstatus_in = 8, mie_in = 2, mideleg_in = 2, mip_sw_in = 2, priv_in = 3,
    clint_msip_in = False, clint_mtip_in = False, external_irq_in = False\<rparr>"
  have "priv_in i = PRIV_M \<and> bit (mideleg_in i) (interrupt_cause_comb i) \<and> interrupt_valid_comb i \<and>
     \<not> interrupt_to_supervisor_comb i"
    unfolding i_def by code_simp
  then show ?thesis ..
qed

end
