(* ===== verification/NextValue.thy ===== *)
theory NextValue
  imports RegMemory
begin

text \<open>
  Assignments to the \<open>_next\<close> value of a register and of an element of a register array, which the
  modules of the processor make in \<open>_work\<close>.
\<close>

definition next_to :: "'a \<Rightarrow> 'a reg \<Rightarrow> 'a reg" where
  "next_to v r = r\<lparr>nxt := v\<rparr>"

definition next_at :: "nat \<Rightarrow> 'a \<Rightarrow> 'a list reg \<Rightarrow> 'a list reg" where
  "next_at j v r = r\<lparr>nxt := (nxt r)[j := v]\<rparr>"

lemma next_sel [simp]:
  "cur (next_to v r) = cur r" "nxt (next_to v r) = v"
  "cur (next_at j v s) = cur s" "nxt (next_at j v s) = (nxt s)[j := v]"
  by (simp_all add: next_to_def next_at_def)

end
