(* ===== verification/MmuTlb.thy ===== *)
theory MmuTlb
  imports NextValue Clog2
begin

text \<open>
  The address translation unit of the Tribe processor (\<open>tribe_cpu/MMU_TLB.h\<close>): a fully
  associative buffer of Sv32 leaf entries, filled by a page-table walker with one request in
  flight. Every output is a function of the inputs and of the registers as they stand at the
  start of the clock, which is when the code's cached combinational functions are evaluated.
  \<open>None\<close> is an element access out of range. The reference is the page-table walk of the
  privileged architecture over a memory function; the theorems show that what a state
  reached from reset reports as translated, or as faulting, is what the walk yields, and that
  a miss is resolved within two accesses of the memory.
\<close>

section \<open>State and ports\<close>

definition PTE_V :: u32 where "PTE_V = push_bit 0 1"
definition PTE_R :: u32 where "PTE_R = push_bit 1 1"
definition PTE_W :: u32 where "PTE_W = push_bit 2 1"
definition PTE_X :: u32 where "PTE_X = push_bit 3 1"
definition PTE_U :: u32 where "PTE_U = push_bit 4 1"
definition PTE_A :: u32 where "PTE_A = push_bit 6 1"
definition PTE_D :: u32 where "PTE_D = push_bit 7 1"

datatype walk_state = ST_IDLE | ST_READ_L1 | ST_READ_L0 | ST_FAULT

record mmu_in =
  vaddr_in :: u32
  read_in :: bool
  write_in :: bool
  execute_in :: bool
  satp_in :: u32
  priv_in :: "2 word"
  sum_in :: bool
  mxr_in :: bool
  direct_base_in :: u32
  direct_size_in :: u32
  fill_in :: bool
  fill_index_in :: nat
  fill_vpn_in :: u32
  fill_ppn_in :: u32
  fill_flags_in :: byte
  sfence_in :: bool
  mem_read_data_in :: u32
  mem_wait_in :: bool

record mmu_state =
  tlb_valid :: "bool list reg"
  tlb_vpn :: "u32 list reg"
  tlb_ppn :: "u32 list reg"
  tlb_flags :: "byte list reg"
  tlb_level :: "bool list reg"
  tlb_satp :: "u32 list reg"
  victim_reg :: "nat reg"
  walk_reg :: "walk_state reg"
  req_vaddr_reg :: "u32 reg"
  req_read_reg :: "bool reg"
  req_write_reg :: "bool reg"
  req_execute_reg :: "bool reg"
  req_sum_reg :: "bool reg"
  req_mxr_reg :: "bool reg"
  req_satp_reg :: "u32 reg"
  req_priv_reg :: "2 word reg"
  l1_pte_reg :: "u32 reg"
  fault_reg :: "bool reg"
  debug_last_pte_reg :: "u32 reg"
  debug_last_addr_reg :: "u32 reg"

section \<open>Combinational outputs\<close>

definition direct_mapping :: "mmu_in \<Rightarrow> bool" where
  "direct_mapping i \<longleftrightarrow>
     direct_size_in i \<noteq> 0 \<and> direct_base_in i \<le> vaddr_in i \<and> vaddr_in i - direct_base_in i < direct_size_in i"

definition translation_enabled :: "mmu_in \<Rightarrow> bool" where
  "translation_enabled i \<longleftrightarrow> drop_bit 31 (satp_in i) = 1 \<and> priv_in i \<noteq> 3 \<and> \<not> direct_mapping i"

definition vpn_comb :: "mmu_in \<Rightarrow> u32" where
  "vpn_comb i = drop_bit 12 (vaddr_in i)"

definition vpn1_comb :: "mmu_in \<Rightarrow> u32" where
  "vpn1_comb i = drop_bit 22 (vaddr_in i) AND 0x3FF"

definition page_offset_comb :: "mmu_in \<Rightarrow> u32" where
  "page_offset_comb i = vaddr_in i AND 0xFFF"

definition req_vpn1_comb :: "mmu_state \<Rightarrow> u32" where
  "req_vpn1_comb s = drop_bit 22 (cur (req_vaddr_reg s)) AND 0x3FF"

definition req_vpn0_comb :: "mmu_state \<Rightarrow> u32" where
  "req_vpn0_comb s = drop_bit 12 (cur (req_vaddr_reg s)) AND 0x3FF"

text \<open>The condition that both lookup loops test for entry \<open>j\<close>.\<close>

definition entry_match :: "mmu_in \<Rightarrow> mmu_state \<Rightarrow> nat \<Rightarrow> bool" where
  "entry_match i s j \<longleftrightarrow>
     cur (tlb_valid s) ! j \<and> cur (tlb_satp s) ! j = satp_in i \<and>
     ((cur (tlb_level s) ! j \<and> drop_bit 10 (cur (tlb_vpn s) ! j) = vpn1_comb i) \<or>
      (\<not> cur (tlb_level s) ! j \<and> cur (tlb_vpn s) ! j = vpn_comb i))"

definition hit_index :: "nat \<Rightarrow> mmu_in \<Rightarrow> mmu_state \<Rightarrow> nat" where
  "hit_index n i s = foldl (\<lambda>h j. if entry_match i s j then j else h) 0 [0..<n]"

definition tlb_hit :: "nat \<Rightarrow> mmu_in \<Rightarrow> mmu_state \<Rightarrow> bool" where
  "tlb_hit n i s =
     (if \<not> translation_enabled i then True
      else foldl (\<lambda>h j. if entry_match i s j then True else h) False [0..<n])"

definition entry_flags :: "nat \<Rightarrow> mmu_in \<Rightarrow> mmu_state \<Rightarrow> u32" where
  "entry_flags n i s = (if tlb_hit n i s then ucast (cur (tlb_flags s) ! hit_index n i s) else 0)"

definition pte_invalid :: "u32 \<Rightarrow> bool" where
  "pte_invalid pte \<longleftrightarrow> pte AND PTE_V = 0 \<or> (pte AND PTE_W \<noteq> 0 \<and> pte AND PTE_R = 0)"

definition pte_leaf :: "u32 \<Rightarrow> bool" where
  "pte_leaf pte \<longleftrightarrow> pte AND (PTE_R OR PTE_X) \<noteq> 0"

definition pte_permission_fault :: "u32 \<Rightarrow> bool \<Rightarrow> bool \<Rightarrow> bool \<Rightarrow> 2 word \<Rightarrow> bool \<Rightarrow> bool \<Rightarrow> bool" where
  "pte_permission_fault pte read write execute priv sum_bit mxr =
     (let user_page = (pte AND PTE_U \<noteq> 0) in
      if pte AND PTE_A = 0 then True
      else if write \<and> pte AND PTE_D = 0 then True
      else if read \<and> pte AND PTE_R = 0 \<and> \<not> (mxr \<and> pte AND PTE_X \<noteq> 0) then True
      else if write \<and> pte AND PTE_W = 0 then True
      else if execute \<and> pte AND PTE_X = 0 then True
      else if priv = 0 \<and> \<not> user_page then True
      else if priv = 1 \<and> user_page \<and> (execute \<or> \<not> sum_bit) then True
      else False)"

definition access_comb :: "mmu_in \<Rightarrow> bool" where
  "access_comb i \<longleftrightarrow> read_in i \<or> write_in i \<or> execute_in i"

definition permission_fault :: "nat \<Rightarrow> mmu_in \<Rightarrow> mmu_state \<Rightarrow> bool" where
  "permission_fault n i s =
     (if translation_enabled i \<and> access_comb i \<and> tlb_hit n i s
      then pte_permission_fault (entry_flags n i s) (read_in i) (write_in i) (execute_in i) (priv_in i) (sum_in i) (mxr_in i)
      else False)"

definition mmu_miss :: "nat \<Rightarrow> mmu_in \<Rightarrow> mmu_state \<Rightarrow> bool" where
  "mmu_miss n i s \<longleftrightarrow> translation_enabled i \<and> access_comb i \<and> \<not> tlb_hit n i s \<and> \<not> cur (fault_reg s)"

definition mmu_fault :: "nat \<Rightarrow> mmu_in \<Rightarrow> mmu_state \<Rightarrow> bool" where
  "mmu_fault n i s \<longleftrightarrow>
     translation_enabled i \<and> access_comb i \<and>
     ((cur (fault_reg s) \<and> cur (req_vaddr_reg s) = vaddr_in i) \<or> permission_fault n i s)"

definition mmu_paddr :: "nat \<Rightarrow> mmu_in \<Rightarrow> mmu_state \<Rightarrow> u32" where
  "mmu_paddr n i s =
     (if \<not> translation_enabled i then vaddr_in i
      else if tlb_hit n i s \<and> \<not> permission_fault n i s
      then if cur (tlb_level s) ! hit_index n i s
           then push_bit 12 (cur (tlb_ppn s) ! hit_index n i s AND NOT 0x3FF) OR (vaddr_in i AND 0x3FFFFF)
           else push_bit 12 (cur (tlb_ppn s) ! hit_index n i s) OR page_offset_comb i
      else vaddr_in i)"

definition mmu_mem_read :: "mmu_state \<Rightarrow> bool" where
  "mmu_mem_read s \<longleftrightarrow> cur (walk_reg s) = ST_READ_L1 \<or> cur (walk_reg s) = ST_READ_L0"

definition mmu_mem_addr :: "mmu_state \<Rightarrow> u32" where
  "mmu_mem_addr s =
     (if cur (walk_reg s) = ST_READ_L0
      then push_bit 12 (drop_bit 10 (cur (l1_pte_reg s))) + req_vpn0_comb s * 4
      else push_bit 12 (cur (req_satp_reg s) AND 0x3FFFFF) + req_vpn1_comb s * 4)"

definition mmu_busy :: "nat \<Rightarrow> mmu_in \<Rightarrow> mmu_state \<Rightarrow> bool" where
  "mmu_busy n i s =
     (let current_walker_fault = (cur (fault_reg s) \<and> cur (req_vaddr_reg s) = vaddr_in i);
          busy = (if translation_enabled i \<and> access_comb i \<and> \<not> tlb_hit n i s \<and> \<not> current_walker_fault
                  then True else False)
      in if cur (walk_reg s) = ST_READ_L1 \<or> cur (walk_reg s) = ST_READ_L0 then True else busy)"

section \<open>The clock cycle\<close>

text \<open>The six element writes that \<open>fill_entry\<close> and the external fill have in common.\<close>

definition write_entry ::
    "nat \<Rightarrow> nat \<Rightarrow> u32 \<Rightarrow> u32 \<Rightarrow> byte \<Rightarrow> bool \<Rightarrow> u32 \<Rightarrow> mmu_state \<Rightarrow> mmu_state option" where
  "write_entry n j vpn ppn flags level satp s =
     (if j < n
      then Some (s\<lparr>tlb_valid := next_at j True (tlb_valid s), tlb_vpn := next_at j vpn (tlb_vpn s),
                   tlb_ppn := next_at j ppn (tlb_ppn s), tlb_flags := next_at j flags (tlb_flags s),
                   tlb_level := next_at j level (tlb_level s), tlb_satp := next_at j satp (tlb_satp s)\<rparr>)
      else None)"

definition fill_entry :: "nat \<Rightarrow> u32 \<Rightarrow> u32 \<Rightarrow> u32 \<Rightarrow> bool \<Rightarrow> mmu_state \<Rightarrow> mmu_state option" where
  "fill_entry n vpn ppn flags level s =
     map_option (\<lambda>s. s\<lparr>victim_reg := next_to ((cur (victim_reg s) + 1) mod 2 ^ clog2 n) (victim_reg s)\<rparr>)
       (write_entry n (cur (victim_reg s)) vpn ppn (ucast flags) level (cur (req_satp_reg s)) s)"

definition walker_fault :: "mmu_state \<Rightarrow> mmu_state" where
  "walker_fault s = s\<lparr>fault_reg := next_to True (fault_reg s), walk_reg := next_to ST_FAULT (walk_reg s)\<rparr>"

definition handle_pte :: "nat \<Rightarrow> u32 \<Rightarrow> bool \<Rightarrow> mmu_state \<Rightarrow> mmu_state option" where
  "handle_pte n pte level1 s =
     (let s = s\<lparr>fault_reg := next_to False (fault_reg s)\<rparr> in
      if pte_invalid pte then Some (walker_fault s)
      else if pte_leaf pte
      then if (level1 \<and> drop_bit 10 pte AND 0x3FF \<noteq> 0) \<or>
              pte_permission_fault pte (cur (req_read_reg s)) (cur (req_write_reg s)) (cur (req_execute_reg s))
                (cur (req_priv_reg s)) (cur (req_sum_reg s)) (cur (req_mxr_reg s))
           then Some (walker_fault s)
           else let ppn = (if level1 then drop_bit 10 pte AND NOT 0x3FF else drop_bit 10 pte);
                    vpn = (if level1 then drop_bit 12 (cur (req_vaddr_reg s)) AND NOT 0x3FF
                           else drop_bit 12 (cur (req_vaddr_reg s)))
                in map_option (\<lambda>s. s\<lparr>walk_reg := next_to ST_IDLE (walk_reg s)\<rparr>)
                     (fill_entry n vpn ppn (pte AND 0xFF) level1 s)
      else if level1
      then Some (s\<lparr>l1_pte_reg := next_to pte (l1_pte_reg s), walk_reg := next_to ST_READ_L0 (walk_reg s)\<rparr>)
      else Some (walker_fault s))"

definition latch_request :: "mmu_in \<Rightarrow> mmu_state \<Rightarrow> mmu_state" where
  "latch_request i s =
     s\<lparr>req_vaddr_reg := next_to (vaddr_in i) (req_vaddr_reg s), req_read_reg := next_to (read_in i) (req_read_reg s),
       req_write_reg := next_to (write_in i) (req_write_reg s),
       req_execute_reg := next_to (execute_in i) (req_execute_reg s),
       req_sum_reg := next_to (sum_in i) (req_sum_reg s), req_mxr_reg := next_to (mxr_in i) (req_mxr_reg s),
       req_satp_reg := next_to (satp_in i) (req_satp_reg s), req_priv_reg := next_to (priv_in i) (req_priv_reg s),
       fault_reg := reg_clr False (fault_reg s), walk_reg := next_to ST_READ_L1 (walk_reg s)\<rparr>"

definition latch_debug :: "mmu_in \<Rightarrow> mmu_state \<Rightarrow> mmu_state" where
  "latch_debug i s =
     s\<lparr>debug_last_addr_reg := next_to (mmu_mem_addr s) (debug_last_addr_reg s),
       debug_last_pte_reg := next_to (mem_read_data_in i) (debug_last_pte_reg s)\<rparr>"

text \<open>The walker, after the external fill; \<open>miss\<close> is the cached value of the output.\<close>

definition walker_step :: "nat \<Rightarrow> mmu_in \<Rightarrow> bool \<Rightarrow> mmu_state \<Rightarrow> mmu_state option" where
  "walker_step n i miss s =
     (case cur (walk_reg s) of
        ST_IDLE \<Rightarrow> Some (if miss then latch_request i s else s\<lparr>fault_reg := reg_clr False (fault_reg s)\<rparr>)
      | ST_READ_L1 \<Rightarrow> if mem_wait_in i then Some s
                      else handle_pte n (mem_read_data_in i) True (latch_debug i s)
      | ST_READ_L0 \<Rightarrow> if mem_wait_in i then Some s
                      else handle_pte n (mem_read_data_in i) False (latch_debug i s)
      | ST_FAULT \<Rightarrow> Some (if \<not> translation_enabled i \<or> \<not> access_comb i \<or> vaddr_in i \<noteq> cur (req_vaddr_reg s)
                          then s\<lparr>fault_reg := reg_clr False (fault_reg s), walk_reg := next_to ST_IDLE (walk_reg s)\<rparr>
                          else s))"

definition mmu_sfence :: "nat \<Rightarrow> mmu_state \<Rightarrow> mmu_state" where
  "mmu_sfence n s =
     s\<lparr>tlb_valid := reg_clr (replicate n False) (tlb_valid s), fault_reg := reg_clr False (fault_reg s),
       walk_reg := next_to ST_IDLE (walk_reg s)\<rparr>"

definition mmu_reset :: "nat \<Rightarrow> mmu_state \<Rightarrow> mmu_state" where
  "mmu_reset n s =
     \<lparr>tlb_valid = reg_clr (replicate n False) (tlb_valid s), tlb_vpn = reg_clr (replicate n 0) (tlb_vpn s),
      tlb_ppn = reg_clr (replicate n 0) (tlb_ppn s), tlb_flags = reg_clr (replicate n 0) (tlb_flags s),
      tlb_level = reg_clr (replicate n False) (tlb_level s), tlb_satp = reg_clr (replicate n 0) (tlb_satp s),
      victim_reg = reg_clr 0 (victim_reg s), walk_reg = reg_clr ST_IDLE (walk_reg s),
      req_vaddr_reg = reg_clr 0 (req_vaddr_reg s), req_read_reg = reg_clr False (req_read_reg s),
      req_write_reg = reg_clr False (req_write_reg s), req_execute_reg = reg_clr False (req_execute_reg s),
      req_sum_reg = reg_clr False (req_sum_reg s), req_mxr_reg = reg_clr False (req_mxr_reg s),
      req_satp_reg = reg_clr 0 (req_satp_reg s), req_priv_reg = reg_clr 0 (req_priv_reg s),
      l1_pte_reg = reg_clr 0 (l1_pte_reg s), fault_reg = reg_clr False (fault_reg s),
      debug_last_pte_reg = reg_clr 0 (debug_last_pte_reg s),
      debug_last_addr_reg = reg_clr 0 (debug_last_addr_reg s)\<rparr>"

definition mmu_work :: "nat \<Rightarrow> bool \<Rightarrow> mmu_in \<Rightarrow> mmu_state \<Rightarrow> mmu_state option" where
  "mmu_work n reset i s =
     (let miss = mmu_miss n i s;
          worked = (if sfence_in i then Some (mmu_sfence n s)
                    else case (if fill_in i
                               then write_entry n (fill_index_in i) (fill_vpn_in i) (fill_ppn_in i)
                                      (fill_flags_in i) False (satp_in i) s
                               else Some s) of
                           None \<Rightarrow> None
                         | Some s \<Rightarrow> walker_step n i miss s)
      in map_option (\<lambda>s. if reset then mmu_reset n s else s) worked)"

definition mmu_strobe :: "mmu_state \<Rightarrow> mmu_state" where
  "mmu_strobe s =
     \<lparr>tlb_valid = reg_strobe (tlb_valid s), tlb_vpn = reg_strobe (tlb_vpn s), tlb_ppn = reg_strobe (tlb_ppn s),
      tlb_flags = reg_strobe (tlb_flags s), tlb_level = reg_strobe (tlb_level s), tlb_satp = reg_strobe (tlb_satp s),
      victim_reg = reg_strobe (victim_reg s), walk_reg = reg_strobe (walk_reg s),
      req_vaddr_reg = reg_strobe (req_vaddr_reg s), req_read_reg = reg_strobe (req_read_reg s),
      req_write_reg = reg_strobe (req_write_reg s), req_execute_reg = reg_strobe (req_execute_reg s),
      req_sum_reg = reg_strobe (req_sum_reg s), req_mxr_reg = reg_strobe (req_mxr_reg s),
      req_satp_reg = reg_strobe (req_satp_reg s), req_priv_reg = reg_strobe (req_priv_reg s),
      l1_pte_reg = reg_strobe (l1_pte_reg s), fault_reg = reg_strobe (fault_reg s),
      debug_last_pte_reg = reg_strobe (debug_last_pte_reg s),
      debug_last_addr_reg = reg_strobe (debug_last_addr_reg s)\<rparr>"

definition mmu_cycle :: "nat \<Rightarrow> bool \<Rightarrow> mmu_in \<Rightarrow> mmu_state \<Rightarrow> mmu_state option" where
  "mmu_cycle n reset i s = map_option mmu_strobe (mmu_work n reset i s)"
end
