(* ===== verification/Sv32.thy ===== *)
theory Sv32
  imports MmuTlb
begin

text \<open>
  The reference the address translation unit is proved against: the Sv32 page-table walk of
  the privileged architecture, over bits and numbers instead of masks and shifts, and the
  equations between its tests and those of the code.
\<close>

section \<open>The page-table walk of the privileged architecture\<close>

text \<open>
  A memory gives the word at each address. Physical addresses are those of Sv32 cut to the
  32 bits of the bus. The number of a page-table entry's bit is that of the manual: V, R, W,
  X, U are 0 to 4, A and D are 6 and 7.
\<close>

type_synonym word_memory = "u32 \<Rightarrow> u32"

definition pte_address :: "nat \<Rightarrow> nat \<Rightarrow> u32" where
  "pte_address ppn index = of_nat (ppn * 4096 + index * 4)"

definition well_formed :: "u32 \<Rightarrow> bool" where
  "well_formed pte \<longleftrightarrow> bit pte 0 \<and> (bit pte 2 \<longrightarrow> bit pte 1)"

definition is_leaf :: "u32 \<Rightarrow> bool" where
  "is_leaf pte \<longleftrightarrow> bit pte 1 \<or> bit pte 3"

text \<open>The leaf entry of an address and whether it is that of a 4 MiB superpage.\<close>

definition sv32_leaf :: "word_memory \<Rightarrow> u32 \<Rightarrow> u32 \<Rightarrow> (u32 \<times> bool) option" where
  "sv32_leaf M satp va =
     (let root = M (pte_address (unat satp mod 2 ^ 22) (unat va div 2 ^ 22)) in
      if \<not> well_formed root then None
      else if is_leaf root
      then if unat root div 2 ^ 10 mod 2 ^ 10 = 0 then Some (root, True) else None
      else let pte = M (pte_address (unat root div 2 ^ 10) (unat va div 2 ^ 12 mod 2 ^ 10)) in
           if well_formed pte \<and> is_leaf pte then Some (pte, False) else None)"

record access =
  reads :: bool
  writes :: bool
  fetches :: bool
  mode :: "2 word"
  sum_bit :: bool
  mxr_bit :: bool

definition permitted :: "u32 \<Rightarrow> access \<Rightarrow> bool" where
  "permitted pte a \<longleftrightarrow>
     bit pte 6 \<and>
     (writes a \<longrightarrow> bit pte 7 \<and> bit pte 2) \<and>
     (reads a \<longrightarrow> bit pte 1 \<or> (mxr_bit a \<and> bit pte 3)) \<and>
     (fetches a \<longrightarrow> bit pte 3) \<and>
     (mode a = 0 \<longrightarrow> bit pte 4) \<and>
     (mode a = 1 \<and> bit pte 4 \<longrightarrow> sum_bit a \<and> \<not> fetches a)"

definition page_target :: "u32 \<times> bool \<Rightarrow> u32 \<Rightarrow> u32" where
  "page_target e va =
     of_nat (if snd e then (unat (fst e) div 2 ^ 20) * 2 ^ 22 + unat va mod 2 ^ 22
             else (unat (fst e) div 2 ^ 10) * 2 ^ 12 + unat va mod 2 ^ 12)"

definition sv32_translate :: "word_memory \<Rightarrow> u32 \<Rightarrow> access \<Rightarrow> u32 \<Rightarrow> u32 option" where
  "sv32_translate M satp a va =
     (case sv32_leaf M satp va of
        None \<Rightarrow> None
      | Some e \<Rightarrow> if permitted (fst e) a then Some (page_target e va) else None)"

text \<open>The access that the inputs ask for, and the one that the walker has latched.\<close>

definition asked :: "mmu_in \<Rightarrow> access" where
  "asked i = \<lparr>reads = read_in i, writes = write_in i, fetches = execute_in i, mode = priv_in i,
     sum_bit = sum_in i, mxr_bit = mxr_in i\<rparr>"

definition latched :: "mmu_state \<Rightarrow> access" where
  "latched s = \<lparr>reads = cur (req_read_reg s), writes = cur (req_write_reg s), fetches = cur (req_execute_reg s),
     mode = cur (req_priv_reg s), sum_bit = cur (req_sum_reg s), mxr_bit = cur (req_mxr_reg s)\<rparr>"

section \<open>The code's bit tests\<close>

lemma test_bit_word: "w AND push_bit k 1 = (0 :: 'a :: len word) \<longleftrightarrow> \<not> bit w k"
  by (simp add: and_exp_eq_0_iff_not_bit push_bit_eq_mult)

lemma pte_tests:
  "pte AND PTE_V = 0 \<longleftrightarrow> \<not> bit pte 0" "pte AND PTE_R = 0 \<longleftrightarrow> \<not> bit pte 1" "pte AND PTE_W = 0 \<longleftrightarrow> \<not> bit pte 2"
  "pte AND PTE_X = 0 \<longleftrightarrow> \<not> bit pte 3" "pte AND PTE_U = 0 \<longleftrightarrow> \<not> bit pte 4" "pte AND PTE_A = 0 \<longleftrightarrow> \<not> bit pte 6"
  "pte AND PTE_D = 0 \<longleftrightarrow> \<not> bit pte 7"
  unfolding PTE_V_def PTE_R_def PTE_W_def PTE_X_def PTE_U_def PTE_A_def PTE_D_def by (rule test_bit_word)+

lemma pte_invalid_iff: "pte_invalid pte \<longleftrightarrow> \<not> well_formed pte"
  unfolding pte_invalid_def well_formed_def pte_tests by blast

lemma pte_leaf_iff: "pte_leaf pte \<longleftrightarrow> is_leaf pte"
  unfolding pte_leaf_def is_leaf_def bit.conj_disj_distrib or_eq_0_iff pte_tests by blast

lemma pte_permission_fault_iff:
  "pte_permission_fault pte r w x p sm mx \<longleftrightarrow>
     \<not> permitted pte \<lparr>reads = r, writes = w, fetches = x, mode = p, sum_bit = sm, mxr_bit = mx\<rparr>"
proof -
  have "p = 0 \<Longrightarrow> p \<noteq> (1 :: 2 word)"
    by simp
  then show ?thesis
    unfolding pte_permission_fault_def permitted_def pte_tests Let_def by simp blast
qed

lemma permitted_flags: "permitted (ucast (ucast pte :: byte)) a = permitted pte a"
  by (simp add: permitted_def bit_unsigned_iff)

section \<open>The code's addresses\<close>

lemma unat_drop: "unat (drop_bit k (w :: 'a :: len word)) = unat w div 2 ^ k"
  by (simp only: unat_drop_bit_eq) (rule drop_bit_eq_div)

lemma unat_drop_and: "unat (drop_bit k (w :: 'a :: len word) AND mask m) = unat w div 2 ^ k mod 2 ^ m"
  by (simp only: unat_and_mask unat_drop)

lemma word_of_nat_unat: "of_nat (unat (w :: 'a :: len word)) = w"
  by simp

lemma word_parts:
  "drop_bit k (w :: 'a :: len word) = of_nat (unat w div 2 ^ k)"
  "w AND mask m = of_nat (unat w mod 2 ^ m)"
  "drop_bit k w AND mask m = of_nat (unat w div 2 ^ k mod 2 ^ m)"
  by (simp_all only: unat_drop [symmetric] unat_and_mask [symmetric] unat_drop_and [symmetric] word_of_nat_unat)

lemma mask_numerals: "mask 10 = (0x3FF :: u32)" "mask 12 = (0xFFF :: u32)" "mask 22 = (0x3FFFFF :: u32)"
  by (simp_all add: mask_eq_exp_minus_1)

lemma push_plus: "push_bit k x OR (w AND mask k) = push_bit k x + (w AND mask k)" for x :: "'a :: len word"
  by (rule disjunctive_add [symmetric]) (simp add: bit_simps)

lemma bit_u32_bound: "bit (w :: u32) n \<Longrightarrow> n < 32"
  by (auto dest: bit_imp_le_length)

lemma high_vpn: "drop_bit 22 va AND 0x3FF = drop_bit 22 (va :: u32)"
proof -
  have "bit va (22 + n) \<Longrightarrow> n < 10" for n
    using bit_u32_bound [of va "22 + n"] by simp
  then show ?thesis
    unfolding mask_numerals [symmetric] by (intro bit_eqI) (auto simp: bit_simps)
qed

lemma root_address:
  "push_bit 12 (satp AND 0x3FFFFF) + (drop_bit 22 va AND 0x3FF) * 4 = pte_address (unat satp mod 2 ^ 22) (unat va div 2 ^ 22)"
  unfolding pte_address_def high_vpn unfolding mask_numerals [symmetric] word_parts(1,2) push_bit_eq_mult by simp

lemma table_address:
  "push_bit 12 (drop_bit 10 pte) + (drop_bit 12 va AND 0x3FF) * 4 = pte_address (unat pte div 2 ^ 10) (unat va div 2 ^ 12 mod 2 ^ 10)"
  unfolding pte_address_def mask_numerals [symmetric] word_parts(3) unfolding word_parts(1) push_bit_eq_mult by simp

lemma page_address:
  "push_bit 12 (drop_bit 10 pte) OR (va AND 0xFFF) = page_target (pte, False) va"
  unfolding mask_numerals [symmetric] push_plus page_target_def
  unfolding word_parts push_bit_eq_mult by simp

lemma superpage_address:
  "push_bit 12 (drop_bit 10 pte AND NOT 0x3FF) OR (va AND 0x3FFFFF) = page_target (pte, True) va"
proof -
  have "push_bit 12 (drop_bit 10 pte AND NOT (mask 10)) = push_bit 22 (drop_bit 20 pte)"
    by (rule bit_eqI) (auto simp: bit_simps)
  then show ?thesis
    unfolding mask_numerals [symmetric] page_target_def
    by (simp only: push_plus) (simp add: word_parts push_bit_eq_mult)
qed

lemma superpage_aligned: "drop_bit 10 pte AND 0x3FF = (0 :: u32) \<longleftrightarrow> unat pte div 2 ^ 10 mod 2 ^ 10 = 0"
  unfolding mask_numerals [symmetric] unat_drop_and [symmetric] by (simp only: unat_eq_0)

end
