(* ===== verification/MmuInvariant.thy ===== *)
theory MmuInvariant
  imports Sv32
begin

section \<open>The invariant\<close>

text \<open>
  What a buffered entry must say: every address it matches has the buffered leaf entry. The
  conditions on a state read the next values of the registers, so that they can be stated
  for the states inside a cycle; between cycles the next values are the current ones.
\<close>

definition entry_ok :: "word_memory \<Rightarrow> u32 \<Rightarrow> u32 \<Rightarrow> byte \<Rightarrow> bool \<Rightarrow> u32 \<Rightarrow> bool" where
  "entry_ok M vpn ppn flags level satp \<longleftrightarrow>
     (\<forall>va. (if level then drop_bit 10 vpn = drop_bit 22 va else vpn = drop_bit 12 va) \<longrightarrow>
        (\<exists>pte. sv32_leaf M satp va = Some (pte, level) \<and> flags = ucast pte \<and>
          ppn = (if level then drop_bit 10 pte AND NOT 0x3FF else drop_bit 10 pte)))"

definition entries_ok :: "nat \<Rightarrow> word_memory \<Rightarrow> mmu_state \<Rightarrow> bool" where
  "entries_ok n M s \<longleftrightarrow>
     length (nxt (tlb_valid s)) = n \<and> length (nxt (tlb_vpn s)) = n \<and> length (nxt (tlb_ppn s)) = n \<and>
     length (nxt (tlb_flags s)) = n \<and> length (nxt (tlb_level s)) = n \<and> length (nxt (tlb_satp s)) = n \<and>
     (\<forall>j < n. nxt (tlb_valid s) ! j \<longrightarrow>
        entry_ok M (nxt (tlb_vpn s) ! j) (nxt (tlb_ppn s) ! j) (nxt (tlb_flags s) ! j) (nxt (tlb_level s) ! j)
          (nxt (tlb_satp s) ! j))"

definition root_pte :: "word_memory \<Rightarrow> u32 \<Rightarrow> u32 \<Rightarrow> u32" where
  "root_pte M satp va = M (pte_address (unat satp mod 2 ^ 22) (unat va div 2 ^ 22))"

definition table_pte :: "word_memory \<Rightarrow> u32 \<Rightarrow> u32 \<Rightarrow> u32" where
  "table_pte M root va = M (pte_address (unat root div 2 ^ 10) (unat va div 2 ^ 12 mod 2 ^ 10))"

definition next_latched :: "mmu_state \<Rightarrow> access" where
  "next_latched s = \<lparr>reads = nxt (req_read_reg s), writes = nxt (req_write_reg s),
     fetches = nxt (req_execute_reg s), mode = nxt (req_priv_reg s), sum_bit = nxt (req_sum_reg s),
     mxr_bit = nxt (req_mxr_reg s)\<rparr>"

definition walker_ok :: "word_memory \<Rightarrow> mmu_state \<Rightarrow> bool" where
  "walker_ok M s \<longleftrightarrow>
     (nxt (fault_reg s) \<longleftrightarrow> nxt (walk_reg s) = ST_FAULT) \<and>
     (nxt (walk_reg s) = ST_READ_L0 \<longrightarrow>
        nxt (l1_pte_reg s) = root_pte M (nxt (req_satp_reg s)) (nxt (req_vaddr_reg s)) \<and>
        well_formed (nxt (l1_pte_reg s)) \<and> \<not> is_leaf (nxt (l1_pte_reg s))) \<and>
     (nxt (walk_reg s) = ST_FAULT \<longrightarrow>
        sv32_translate M (nxt (req_satp_reg s)) (next_latched s) (nxt (req_vaddr_reg s)) = None)"

definition mmu_core :: "nat \<Rightarrow> word_memory \<Rightarrow> mmu_state \<Rightarrow> bool" where
  "mmu_core n M s \<longleftrightarrow> entries_ok n M s \<and> nxt (victim_reg s) < n \<and> walker_ok M s"

definition mmu_inv :: "nat \<Rightarrow> word_memory \<Rightarrow> mmu_state \<Rightarrow> bool" where
  "mmu_inv n M s \<longleftrightarrow> mmu_strobe s = s \<and> mmu_core n M s"

section \<open>The walk as the code takes it\<close>

lemma sv32_leaf_root:
  "sv32_leaf M satp va =
     (let root = root_pte M satp va in
      if \<not> well_formed root then None
      else if is_leaf root then if drop_bit 10 root AND 0x3FF = 0 then Some (root, True) else None
      else let pte = table_pte M root va in
           if well_formed pte \<and> is_leaf pte then Some (pte, False) else None)"
  unfolding sv32_leaf_def root_pte_def table_pte_def superpage_aligned by (rule refl)

lemma root_pte_cong: "drop_bit 22 va = drop_bit 22 va' \<Longrightarrow> root_pte M satp va = root_pte M satp va'"
  by (simp only: root_pte_def unat_drop [symmetric])

lemma drop_22_12: "drop_bit 22 (va :: u32) = drop_bit 10 (drop_bit 12 va)"
  by simp

lemma leaf_cong: 
  assumes "drop_bit 12 va = drop_bit 12 va'"
  shows "sv32_leaf M satp va = sv32_leaf M satp va'"
proof -
  have "drop_bit 22 va = drop_bit 22 va'"
    using assms by (simp only: drop_22_12)
  then have "root_pte M satp va = root_pte M satp va'"
    by (rule root_pte_cong)
  moreover have "table_pte M root va = table_pte M root va'" for root
    using assms by (simp only: table_pte_def unat_drop [symmetric])
  ultimately show ?thesis
    by (simp only: sv32_leaf_root)
qed

lemma superpage_cong:
  assumes "drop_bit 22 va = drop_bit 22 va'" and "sv32_leaf M satp va = Some (pte, True)"
  shows "sv32_leaf M satp va' = Some (pte, True)"
proof -
  have "root_pte M satp va' = root_pte M satp va"
    using assms(1) [symmetric] by (rule root_pte_cong)
  then show ?thesis
    using assms(2) by (simp add: sv32_leaf_root Let_def split: if_splits)
qed

lemma vpn_tag: "drop_bit 10 (drop_bit 12 va AND NOT 0x3FF) = drop_bit 22 (va :: u32)"
proof -
  have "bit va (22 + n) \<Longrightarrow> n < 22" for n
    using bit_u32_bound [of va "22 + n"] by simp
  then show ?thesis
    unfolding mask_numerals [symmetric] by (intro bit_eqI) (auto simp: bit_simps)
qed

lemma entry_ok_superpage:
  assumes "sv32_leaf M satp va = Some (pte, True)"
  shows "entry_ok M (drop_bit 12 va AND NOT 0x3FF) (drop_bit 10 pte AND NOT 0x3FF) (ucast pte) True satp"
  unfolding entry_ok_def vpn_tag using superpage_cong [OF _ assms] by auto

lemma entry_ok_page:
  assumes "sv32_leaf M satp va = Some (pte, False)"
  shows "entry_ok M (drop_bit 12 va) (drop_bit 10 pte) (ucast pte) False satp"
  using leaf_cong [of va] assms by (metis entry_ok_def)

section \<open>The operations keep it\<close>

lemma entries_ok_write:
  assumes "entries_ok n M s" and "write_entry n j vpn ppn flags level satp s = Some s'"
    and "entry_ok M vpn ppn flags level satp"
  shows "entries_ok n M s'"
proof -
  have "j < n" and s': "s' = s\<lparr>tlb_valid := next_at j True (tlb_valid s), tlb_vpn := next_at j vpn (tlb_vpn s),
      tlb_ppn := next_at j ppn (tlb_ppn s), tlb_flags := next_at j flags (tlb_flags s),
      tlb_level := next_at j level (tlb_level s), tlb_satp := next_at j satp (tlb_satp s)\<rparr>"
    using assms(2) by (simp_all add: write_entry_def split: if_splits)
  then show ?thesis
    using assms(1,3) unfolding entries_ok_def s' by (simp add: next_at_def nth_list_update)
qed

lemma write_entry_frame:
  assumes "write_entry n j vpn ppn flags level satp s = Some s'"
  shows "victim_reg s' = victim_reg s" "walk_reg s' = walk_reg s" "req_vaddr_reg s' = req_vaddr_reg s"
    "req_satp_reg s' = req_satp_reg s" "latched s' = latched s" "next_latched s' = next_latched s"
    "l1_pte_reg s' = l1_pte_reg s" "fault_reg s' = fault_reg s"
    "req_read_reg s' = req_read_reg s" "req_write_reg s' = req_write_reg s" "req_execute_reg s' = req_execute_reg s"
    "req_priv_reg s' = req_priv_reg s" "req_sum_reg s' = req_sum_reg s" "req_mxr_reg s' = req_mxr_reg s"
  using assms by (auto simp: write_entry_def latched_def next_latched_def split: if_splits)

lemma at_rest:
  assumes "mmu_strobe s = s"
  shows "nxt (victim_reg s) = cur (victim_reg s)" "nxt (walk_reg s) = cur (walk_reg s)"
    "nxt (req_vaddr_reg s) = cur (req_vaddr_reg s)" "nxt (req_satp_reg s) = cur (req_satp_reg s)"
    "nxt (l1_pte_reg s) = cur (l1_pte_reg s)" "nxt (fault_reg s) = cur (fault_reg s)" "next_latched s = latched s"
    "nxt (tlb_valid s) = cur (tlb_valid s)" "nxt (tlb_vpn s) = cur (tlb_vpn s)" "nxt (tlb_ppn s) = cur (tlb_ppn s)"
    "nxt (tlb_flags s) = cur (tlb_flags s)" "nxt (tlb_level s) = cur (tlb_level s)" "nxt (tlb_satp s) = cur (tlb_satp s)"
  unfolding next_latched_def latched_def
  by (subst (2) assms [symmetric], simp add: mmu_strobe_def)+

text \<open>What the walker relies on when a page-table entry arrives.\<close>

definition walking :: "word_memory \<Rightarrow> bool \<Rightarrow> mmu_state \<Rightarrow> bool" where
  "walking M level1 s \<longleftrightarrow>
     nxt (req_vaddr_reg s) = cur (req_vaddr_reg s) \<and> nxt (req_satp_reg s) = cur (req_satp_reg s) \<and>
     next_latched s = latched s \<and>
     (\<not> level1 \<longrightarrow> cur (l1_pte_reg s) = root_pte M (cur (req_satp_reg s)) (cur (req_vaddr_reg s)) \<and>
        well_formed (cur (l1_pte_reg s)) \<and> \<not> is_leaf (cur (l1_pte_reg s)))"

definition fetched :: "word_memory \<Rightarrow> bool \<Rightarrow> mmu_state \<Rightarrow> u32" where
  "fetched M level1 s =
     (if level1 then root_pte M (cur (req_satp_reg s)) (cur (req_vaddr_reg s))
      else table_pte M (cur (l1_pte_reg s)) (cur (req_vaddr_reg s)))"

lemma latched_permission:
  "pte_permission_fault pte (cur (req_read_reg s)) (cur (req_write_reg s)) (cur (req_execute_reg s))
     (cur (req_priv_reg s)) (cur (req_sum_reg s)) (cur (req_mxr_reg s)) \<longleftrightarrow> \<not> permitted pte (latched s)"
  by (simp add: pte_permission_fault_iff latched_def)

text \<open>What the entry that has arrived says of the latched request.\<close>

definition verdict :: "bool \<Rightarrow> u32 \<Rightarrow> access \<Rightarrow> bool option" where
  "verdict level1 pte a =
     (if \<not> well_formed pte then Some False
      else if is_leaf pte then Some (\<not> (level1 \<and> drop_bit 10 pte AND 0x3FF \<noteq> 0) \<and> permitted pte a)
      else if level1 then None else Some False)"

lemma verdict_walk:
  assumes "walking M level1 s" and "pte = fetched M level1 s"
  shows "verdict level1 pte (latched s) = Some False \<Longrightarrow>
      sv32_translate M (cur (req_satp_reg s)) (latched s) (cur (req_vaddr_reg s)) = None"
    and "verdict level1 pte (latched s) = Some True \<Longrightarrow>
      sv32_leaf M (cur (req_satp_reg s)) (cur (req_vaddr_reg s)) = Some (pte, level1) \<and> permitted pte (latched s)"
    and "verdict level1 pte (latched s) = None \<Longrightarrow> level1 \<and> well_formed pte \<and> \<not> is_leaf pte"
  using assms unfolding verdict_def walking_def fetched_def sv32_translate_def sv32_leaf_root Let_def
  by (auto split: if_splits)

lemma handle_pte_verdict:
  "handle_pte n pte level1 s =
     (let s = s\<lparr>fault_reg := next_to False (fault_reg s)\<rparr> in
      case verdict level1 pte (latched s) of
        Some False \<Rightarrow> Some (walker_fault s)
      | Some True \<Rightarrow> map_option (\<lambda>s. s\<lparr>walk_reg := next_to ST_IDLE (walk_reg s)\<rparr>)
          (fill_entry n (if level1 then drop_bit 12 (cur (req_vaddr_reg s)) AND NOT 0x3FF else drop_bit 12 (cur (req_vaddr_reg s)))
             (if level1 then drop_bit 10 pte AND NOT 0x3FF else drop_bit 10 pte) (pte AND 0xFF) level1 s)
      | None \<Rightarrow> Some (s\<lparr>l1_pte_reg := next_to pte (l1_pte_reg s), walk_reg := next_to ST_READ_L0 (walk_reg s)\<rparr>))"
proof -
  have "latched (s\<lparr>fault_reg := f\<rparr>) = latched s" for f
    by (simp add: latched_def)
  then show ?thesis
    unfolding handle_pte_def verdict_def Let_def latched_permission pte_invalid_iff pte_leaf_iff
    by (cases level1; cases "well_formed pte"; cases "is_leaf pte"; cases "drop_bit 10 pte AND 0x3FF = 0";
        cases "permitted pte (latched s)") (simp_all only: if_True if_False simp_thms option.case bool.case)
qed

lemma ucast_flags: "ucast (pte AND 0xFF :: u32) = (ucast pte :: byte)"
proof -
  have e: "(0xFF :: u32) = mask 8"
    by (simp add: mask_eq_exp_minus_1)
  show ?thesis
    unfolding e by (rule bit_eqI) (auto simp: bit_simps dest: bit_byte_bound)
qed

lemma fill_entry_Some:
  assumes "cur (victim_reg s) < n"
  obtains s1 where "write_entry n (cur (victim_reg s)) vpn ppn (ucast flags) level (cur (req_satp_reg s)) s = Some s1"
    and "fill_entry n vpn ppn flags level s =
      Some (s1\<lparr>victim_reg := next_to ((cur (victim_reg s1) + 1) mod 2 ^ clog2 n) (victim_reg s1)\<rparr>)"
proof -
  obtain s1 where e: "write_entry n (cur (victim_reg s)) vpn ppn (ucast flags) level (cur (req_satp_reg s)) s = Some s1"
    using assms by (auto simp: write_entry_def)
  from that [OF this] show thesis
    by (simp add: fill_entry_def e write_entry_frame [OF e])
qed

lemma entries_ok_frame [simp]:
  "entries_ok n M (s\<lparr>fault_reg := f\<rparr>) = entries_ok n M s" "entries_ok n M (s\<lparr>walk_reg := k\<rparr>) = entries_ok n M s"
  "entries_ok n M (s\<lparr>victim_reg := v\<rparr>) = entries_ok n M s" "entries_ok n M (s\<lparr>l1_pte_reg := p\<rparr>) = entries_ok n M s"
  "entries_ok n M (latch_request i s) = entries_ok n M s" "entries_ok n M (latch_debug i s) = entries_ok n M s"
  "entries_ok n M (walker_fault s) = entries_ok n M s" "entries_ok n M (mmu_strobe s) = entries_ok n M s"
  unfolding entries_ok_def latch_request_def latch_debug_def walker_fault_def mmu_strobe_def by simp_all

lemma handle_pte_cases:
  defines "s0 s \<equiv> s\<lparr>fault_reg := next_to False (fault_reg s)\<rparr>"
  shows "verdict level1 pte (latched s) = None \<Longrightarrow> handle_pte n pte level1 s =
      Some ((s0 s)\<lparr>l1_pte_reg := next_to pte (l1_pte_reg s), walk_reg := next_to ST_READ_L0 (walk_reg s)\<rparr>)"
    and "verdict level1 pte (latched s) = Some False \<Longrightarrow> handle_pte n pte level1 s = Some (walker_fault (s0 s))"
    and "verdict level1 pte (latched s) = Some True \<Longrightarrow> handle_pte n pte level1 s =
      map_option (\<lambda>s. s\<lparr>walk_reg := next_to ST_IDLE (walk_reg s)\<rparr>)
          (fill_entry n (if level1 then drop_bit 12 (cur (req_vaddr_reg s)) AND NOT 0x3FF else drop_bit 12 (cur (req_vaddr_reg s)))
             (if level1 then drop_bit 10 pte AND NOT 0x3FF else drop_bit 10 pte) (pte AND 0xFF) level1 (s0 s))"
proof -
  have [simp]: "latched (s0 s) = latched s" "req_vaddr_reg (s0 s) = req_vaddr_reg s" "l1_pte_reg (s0 s) = l1_pte_reg s"
    "walk_reg (s0 s) = walk_reg s"
    by (simp_all add: latched_def s0_def)
  note r = handle_pte_verdict [of n pte level1 s, folded s0_def, unfolded Let_def]
  show "verdict level1 pte (latched s) = None \<Longrightarrow> handle_pte n pte level1 s =
      Some ((s0 s)\<lparr>l1_pte_reg := next_to pte (l1_pte_reg s), walk_reg := next_to ST_READ_L0 (walk_reg s)\<rparr>)"
    and "verdict level1 pte (latched s) = Some False \<Longrightarrow> handle_pte n pte level1 s = Some (walker_fault (s0 s))"
    and "verdict level1 pte (latched s) = Some True \<Longrightarrow> handle_pte n pte level1 s =
      map_option (\<lambda>s. s\<lparr>walk_reg := next_to ST_IDLE (walk_reg s)\<rparr>)
          (fill_entry n (if level1 then drop_bit 12 (cur (req_vaddr_reg s)) AND NOT 0x3FF else drop_bit 12 (cur (req_vaddr_reg s)))
             (if level1 then drop_bit 10 pte AND NOT 0x3FF else drop_bit 10 pte) (pte AND 0xFF) level1 (s0 s))"
    by (simp_all add: r)
qed

definition power_of_two :: "nat \<Rightarrow> bool" where
  "power_of_two n \<longleftrightarrow> (\<exists>k > 0. n = 2 ^ k)"

lemma victim_wraps: "power_of_two n \<Longrightarrow> v mod 2 ^ clog2 n < n"
  by (auto simp: power_of_two_def clog2_power)

lemma handle_pte_core:
  assumes n: "power_of_two n" and core: "entries_ok n M s" "nxt (victim_reg s) < n"
    and rest: "cur (victim_reg s) < n" and w: "walking M level1 s" and pte: "pte = fetched M level1 s"
  shows "\<exists>s'. handle_pte n pte level1 s = Some s' \<and> mmu_core n M s'"
proof (cases "verdict level1 pte (latched s)")
  case None
  note nw = verdict_walk(3) [OF w pte None]
  then have "pte = root_pte M (nxt (req_satp_reg s)) (nxt (req_vaddr_reg s))"
    using pte w by (simp add: fetched_def walking_def)
  then have "mmu_core n M (s\<lparr>fault_reg := next_to False (fault_reg s), l1_pte_reg := next_to pte (l1_pte_reg s),
      walk_reg := next_to ST_READ_L0 (walk_reg s)\<rparr>)"
    using core nw by (simp add: mmu_core_def walker_ok_def next_to_def)
  then show ?thesis
    by (intro exI conjI) (rule handle_pte_cases(1) [OF None])
next
  case (Some b)
  show ?thesis
  proof (cases b)
    case False
    let ?s = "walker_fault (s\<lparr>fault_reg := next_to False (fault_reg s)\<rparr>)"
    have "next_latched ?s = latched s"
      using w by (simp add: walker_fault_def next_latched_def walking_def)
    then have "walker_ok M ?s"
      using w verdict_walk(1) [OF w pte] Some False
      by (simp add: walker_ok_def walking_def walker_fault_def next_to_def)
    moreover have "entries_ok n M ?s" "nxt (victim_reg ?s) < n"
      using core by (simp_all add: walker_fault_def)
    ultimately have "mmu_core n M ?s"
      by (simp add: mmu_core_def)
    then show ?thesis
      by (intro exI conjI) (rule handle_pte_cases(2), use Some False in simp)
  next
    case True
    let ?s = "s\<lparr>fault_reg := next_to False (fault_reg s)\<rparr>"
    let ?vpn = "if level1 then drop_bit 12 (cur (req_vaddr_reg s)) AND NOT 0x3FF else drop_bit 12 (cur (req_vaddr_reg s))"
    let ?ppn = "if level1 then drop_bit 10 pte AND NOT 0x3FF else drop_bit 10 pte"
    have leaf: "sv32_leaf M (cur (req_satp_reg s)) (cur (req_vaddr_reg s)) = Some (pte, level1)"
      using verdict_walk(2) [OF w pte] Some True by simp
    have ok: "entry_ok M ?vpn ?ppn (ucast pte) level1 (cur (req_satp_reg s))"
      using leaf entry_ok_superpage entry_ok_page by (cases level1) simp_all
    obtain s1 where s1: "write_entry n (cur (victim_reg ?s)) ?vpn ?ppn (ucast (pte AND 0xFF)) level1 (cur (req_satp_reg ?s)) ?s = Some s1"
      and fill: "fill_entry n ?vpn ?ppn (pte AND 0xFF) level1 ?s =
        Some (s1\<lparr>victim_reg := next_to ((cur (victim_reg s1) + 1) mod 2 ^ clog2 n) (victim_reg s1)\<rparr>)"
      by (rule fill_entry_Some [of ?s n ?vpn ?ppn "pte AND 0xFF" level1]) (simp_all add: rest)
    have "entries_ok n M s1"
      by (rule entries_ok_write [OF _ s1]) (use core ok in \<open>simp_all add: ucast_flags\<close>)
    moreover have "nxt (fault_reg s1) = False"
      using write_entry_frame [OF s1] by (simp add: next_to_def)
    ultimately have "mmu_core n M (s1\<lparr>victim_reg := next_to ((cur (victim_reg s1) + 1) mod 2 ^ clog2 n) (victim_reg s1),
        walk_reg := next_to ST_IDLE (walk_reg s1)\<rparr>)"
      using victim_wraps [OF n] by (simp add: mmu_core_def walker_ok_def next_to_def)
    moreover have "handle_pte n pte level1 s = Some (s1\<lparr>victim_reg := next_to ((cur (victim_reg s1) + 1) mod 2 ^ clog2 n) (victim_reg s1),
        walk_reg := next_to ST_IDLE (walk_reg s1)\<rparr>)"
      using Some True fill by (subst handle_pte_cases(3)) simp_all
    ultimately show ?thesis
      by blast
  qed
qed

text \<open>
  The memory answers the walker with its word, and an external fill installs a leaf entry of
  the page tables.
\<close>

definition environment :: "nat \<Rightarrow> word_memory \<Rightarrow> mmu_in \<Rightarrow> mmu_state \<Rightarrow> bool" where
  "environment n M i s \<longleftrightarrow>
     (mmu_mem_read s \<and> \<not> mem_wait_in i \<longrightarrow> mem_read_data_in i = M (mmu_mem_addr s)) \<and>
     (fill_in i \<longrightarrow> fill_index_in i < n \<and>
        entry_ok M (fill_vpn_in i) (fill_ppn_in i) (fill_flags_in i) False (satp_in i))"

text \<open>The registers that the external fill leaves alone are at rest.\<close>

definition quiet :: "mmu_state \<Rightarrow> bool" where
  "quiet s \<longleftrightarrow> nxt (victim_reg s) = cur (victim_reg s) \<and> nxt (walk_reg s) = cur (walk_reg s) \<and>
     nxt (req_vaddr_reg s) = cur (req_vaddr_reg s) \<and> nxt (req_satp_reg s) = cur (req_satp_reg s) \<and>
     nxt (l1_pte_reg s) = cur (l1_pte_reg s) \<and> nxt (fault_reg s) = cur (fault_reg s) \<and> next_latched s = latched s"

lemma latch_debug_frame [simp]:
  "victim_reg (latch_debug i s) = victim_reg s" "req_vaddr_reg (latch_debug i s) = req_vaddr_reg s"
  "req_satp_reg (latch_debug i s) = req_satp_reg s" "l1_pte_reg (latch_debug i s) = l1_pte_reg s"
  "latched (latch_debug i s) = latched s" "next_latched (latch_debug i s) = next_latched s"
  "walk_reg (latch_debug i s) = walk_reg s"
  by (simp_all add: latch_debug_def latched_def next_latched_def)

lemma latch_request_frame [simp]:
  "victim_reg (latch_request i s) = victim_reg s" "fault_reg (latch_request i s) = reg_clr False (fault_reg s)"
  "walk_reg (latch_request i s) = next_to ST_READ_L1 (walk_reg s)"
  by (simp_all add: latch_request_def)

lemma read_data:
  assumes "environment n M i s" and "\<not> mem_wait_in i"
  shows "cur (walk_reg s) = ST_READ_L1 \<Longrightarrow> mem_read_data_in i = fetched M True (latch_debug i s)"
    and "cur (walk_reg s) = ST_READ_L0 \<Longrightarrow> mem_read_data_in i = fetched M False (latch_debug i s)"
  using assms unfolding environment_def mmu_mem_read_def mmu_mem_addr_def req_vpn1_comb_def req_vpn0_comb_def
    root_address table_address fetched_def root_pte_def table_pte_def by simp_all

lemma walker_step_core:
  assumes n: "power_of_two n" and core: "mmu_core n M s" and q: "quiet s" and env: "environment n M i s"
  shows "\<exists>s'. walker_step n i miss s = Some s' \<and> mmu_core n M s'"
proof -
  have victim: "cur (victim_reg s) < n"
    using core q by (simp add: mmu_core_def quiet_def)
  have pte: "\<exists>s'. handle_pte n (mem_read_data_in i) level1 (latch_debug i s) = Some s' \<and> mmu_core n M s'"
    if "\<not> mem_wait_in i" and "cur (walk_reg s) = (if level1 then ST_READ_L1 else ST_READ_L0)" for level1
  proof (rule handle_pte_core [OF n])
    show "entries_ok n M (latch_debug i s)" "nxt (victim_reg (latch_debug i s)) < n" "cur (victim_reg (latch_debug i s)) < n"
      using core victim by (simp_all add: mmu_core_def)
    show "walking M level1 (latch_debug i s)"
      using core q that by (auto simp: walking_def mmu_core_def walker_ok_def quiet_def)
    show "mem_read_data_in i = fetched M level1 (latch_debug i s)"
      using read_data [OF env that(1)] that(2) by (cases level1) simp_all
  qed
  show ?thesis
  proof (cases "cur (walk_reg s)")
    case ST_IDLE
    then have "mmu_core n M (latch_request i s)" "mmu_core n M (s\<lparr>fault_reg := reg_clr False (fault_reg s)\<rparr>)"
      using core q unfolding mmu_core_def walker_ok_def quiet_def
      by (simp_all add: next_to_def reg_clr_def)
    then show ?thesis
      using ST_IDLE by (simp add: walker_step_def)
  next
    case ST_READ_L1
    then show ?thesis
      using core pte [of True] by (simp add: walker_step_def)
  next
    case ST_READ_L0
    then show ?thesis
      using core pte [of False] by (simp add: walker_step_def)
  next
    case ST_FAULT
    then have "mmu_core n M (s\<lparr>fault_reg := reg_clr False (fault_reg s), walk_reg := next_to ST_IDLE (walk_reg s)\<rparr>)"
      using core by (simp add: mmu_core_def walker_ok_def next_to_def reg_clr_def)
    then show ?thesis
      using ST_FAULT core by (simp add: walker_step_def)
  qed
qed

lemma entries_ok_invalid:
  assumes "entries_ok n M s"
  shows "entries_ok n M' (mmu_sfence n s)" 
  using assms by (simp add: entries_ok_def mmu_sfence_def reg_clr_def)

lemma reset_core: "power_of_two n \<Longrightarrow> mmu_core n M (mmu_reset n s)"
  by (auto simp: mmu_core_def entries_ok_def walker_ok_def mmu_reset_def reg_clr_def power_of_two_def)

lemma strobe_inv: "mmu_core n M s \<Longrightarrow> mmu_inv n M (mmu_strobe s)"
proof -
  have "mmu_strobe (mmu_strobe s) = mmu_strobe s"
    by (simp add: mmu_strobe_def reg_strobe_def)
  moreover have "walker_ok M (mmu_strobe s) = walker_ok M s" "victim_reg (mmu_strobe s) = reg_strobe (victim_reg s)"
    by (simp_all add: walker_ok_def mmu_strobe_def next_latched_def)
  ultimately show "mmu_core n M s \<Longrightarrow> mmu_inv n M (mmu_strobe s)"
    by (simp add: mmu_inv_def mmu_core_def)
qed

lemma mmu_cycle_inv:
  assumes n: "power_of_two n" and inv: "mmu_inv n M s" and env: "environment n M i s"
  shows "\<exists>s'. mmu_cycle n reset i s = Some s' \<and> mmu_inv n M s'"
proof -
  have core: "mmu_core n M s" and rest: "mmu_strobe s = s"
    using inv by (simp_all add: mmu_inv_def)
  have q: "quiet s"
    by (simp add: quiet_def at_rest [OF rest])
  have fill: "\<exists>s1. (if fill_in i then write_entry n (fill_index_in i) (fill_vpn_in i) (fill_ppn_in i) (fill_flags_in i) False (satp_in i) s
      else Some s) = Some s1 \<and> mmu_core n M s1 \<and> quiet s1 \<and> environment n M i s1"
  proof (cases "fill_in i")
    case True
    then have j: "fill_index_in i < n"
      and ok: "entry_ok M (fill_vpn_in i) (fill_ppn_in i) (fill_flags_in i) False (satp_in i)"
      using env by (simp_all add: environment_def)
    then obtain s1 where s1: "write_entry n (fill_index_in i) (fill_vpn_in i) (fill_ppn_in i) (fill_flags_in i) False (satp_in i) s = Some s1"
      by (auto simp: write_entry_def)
    have "mmu_mem_read s1 = mmu_mem_read s" "mmu_mem_addr s1 = mmu_mem_addr s"
      by (simp_all add: mmu_mem_read_def mmu_mem_addr_def req_vpn0_comb_def req_vpn1_comb_def write_entry_frame [OF s1])
    moreover have "entries_ok n M s1"
      using core by (intro entries_ok_write [OF _ s1 ok]) (simp add: mmu_core_def)
    moreover have "walker_ok M s1 = walker_ok M s" "quiet s1 = quiet s"
      by (simp_all add: walker_ok_def quiet_def write_entry_frame [OF s1])
    ultimately show ?thesis
      using core q env s1 True by (simp add: mmu_core_def environment_def write_entry_frame [OF s1])
  qed (use core q env in simp)
  have "\<exists>s'. (if sfence_in i then Some (mmu_sfence n s)
      else case (if fill_in i then write_entry n (fill_index_in i) (fill_vpn_in i) (fill_ppn_in i) (fill_flags_in i) False (satp_in i) s
                 else Some s) of None \<Rightarrow> None | Some s1 \<Rightarrow> walker_step n i (mmu_miss n i s) s1) = Some s' \<and> mmu_core n M s'"
  proof (cases "sfence_in i")
    case True
    have "mmu_core n M (mmu_sfence n s)"
      using core entries_ok_invalid [of n M s M]
      by (simp add: mmu_core_def walker_ok_def) (simp add: mmu_sfence_def next_to_def reg_clr_def)
    then show ?thesis
      using True by simp
  next
    case False
    then show ?thesis
      using fill walker_step_core [OF n] by fastforce
  qed
  then show ?thesis
    unfolding mmu_cycle_def mmu_work_def Let_def using reset_core [OF n, of M] strobe_inv [of n M]
    by auto
qed

section \<open>Lookup\<close>

lemma tlb_hit_iff: "tlb_hit n i s \<longleftrightarrow> \<not> translation_enabled i \<or> (\<exists>j < n. entry_match i s j)"
proof -
  have "foldl (\<lambda>h j. if entry_match i s j then True else h) False [0..<n] \<longleftrightarrow> (\<exists>j < n. entry_match i s j)"
    by (induction n) (auto simp: less_Suc_eq)
  then show ?thesis
    by (simp add: tlb_hit_def)
qed

lemma hit_index_match:
  assumes "\<exists>j < n. entry_match i s j"
  shows "hit_index n i s < n \<and> entry_match i s (hit_index n i s)"
  using assms by (induction n) (auto simp: hit_index_def less_Suc_eq)

lemma matched_entry:
  assumes inv: "mmu_inv n M s" and e: "translation_enabled i" and hit: "tlb_hit n i s"
  defines "j \<equiv> hit_index n i s"
  shows "\<exists>pte. sv32_leaf M (satp_in i) (vaddr_in i) = Some (pte, cur (tlb_level s) ! j) \<and>
    cur (tlb_flags s) ! j = ucast pte \<and>
    cur (tlb_ppn s) ! j = (if cur (tlb_level s) ! j then drop_bit 10 pte AND NOT 0x3FF else drop_bit 10 pte)"
proof -
  have rest: "mmu_strobe s = s" and ents: "entries_ok n M s"
    using inv by (simp_all add: mmu_inv_def mmu_core_def)
  have j: "j < n" and m: "entry_match i s j"
    using hit_index_match [of n i s] hit e by (simp_all add: tlb_hit_iff j_def)
  have "entry_ok M (cur (tlb_vpn s) ! j) (cur (tlb_ppn s) ! j) (cur (tlb_flags s) ! j) (cur (tlb_level s) ! j) (cur (tlb_satp s) ! j)"
    using ents j m unfolding entries_ok_def entry_match_def at_rest [OF rest] by blast
  then show ?thesis
    using m unfolding entry_match_def entry_ok_def vpn1_comb_def vpn_comb_def high_vpn by metis
qed

lemma hit_translation:
  assumes "mmu_inv n M s" and "translation_enabled i" and "access_comb i" and "tlb_hit n i s"
  shows "sv32_translate M (satp_in i) (asked i) (vaddr_in i) =
    (if permission_fault n i s then None else Some (mmu_paddr n i s))"
proof -
  obtain pte where pte: "sv32_leaf M (satp_in i) (vaddr_in i) = Some (pte, cur (tlb_level s) ! hit_index n i s)"
    "cur (tlb_flags s) ! hit_index n i s = ucast pte"
    "cur (tlb_ppn s) ! hit_index n i s =
      (if cur (tlb_level s) ! hit_index n i s then drop_bit 10 pte AND NOT 0x3FF else drop_bit 10 pte)"
    using matched_entry [OF assms(1,2,4)] by blast
  have "permission_fault n i s \<longleftrightarrow> \<not> permitted pte (asked i)"
    using assms pte(2) permitted_flags [of pte]
    by (simp add: permission_fault_def entry_flags_def pte_permission_fault_iff asked_def)
  moreover have "mmu_paddr n i s = page_target (pte, cur (tlb_level s) ! hit_index n i s) (vaddr_in i)" if "\<not> permission_fault n i s"
    using assms(2,4) that unfolding mmu_paddr_def page_offset_comb_def pte(3)
    by (cases "cur (tlb_level s) ! hit_index n i s") (simp_all only: if_True if_False and.assoc and.idem superpage_address page_address simp_thms)
  ultimately show ?thesis
    by (simp add: sv32_translate_def pte(1))
qed

section \<open>A walk\<close>

text \<open>The unit holds the request of the inputs.\<close>

definition pending :: "mmu_in \<Rightarrow> mmu_state \<Rightarrow> bool" where
  "pending i s \<longleftrightarrow> cur (req_vaddr_reg s) = vaddr_in i \<and> cur (req_satp_reg s) = satp_in i \<and> latched s = asked i"

text \<open>How many accesses of the memory, or cycles without one, are left of a request.\<close>

definition stage :: "nat \<Rightarrow> mmu_in \<Rightarrow> mmu_state \<Rightarrow> nat \<Rightarrow> bool" where
  "stage n i s k \<longleftrightarrow>
     (case cur (walk_reg s) of
        ST_IDLE \<Rightarrow> if tlb_hit n i s then k = 0 else k = 3
      | ST_READ_L1 \<Rightarrow> pending i s \<and> k = 2
      | ST_READ_L0 \<Rightarrow> pending i s \<and> k = 1
      | ST_FAULT \<Rightarrow> pending i s \<and> k = 0)"

lemma answered:
  assumes "mmu_inv n M s" and "translation_enabled i" and "access_comb i" and "stage n i s 0"
  shows "\<not> mmu_busy n i s"
    and "sv32_translate M (satp_in i) (asked i) (vaddr_in i) = (if mmu_fault n i s then None else Some (mmu_paddr n i s))"
proof -
  have rest: "mmu_strobe s = s" and w: "walker_ok M s"
    using assms(1) by (simp_all add: mmu_inv_def mmu_core_def)
  have "cur (walk_reg s) = ST_IDLE \<and> tlb_hit n i s \<or> cur (walk_reg s) = ST_FAULT \<and> pending i s"
    using assms(4) by (simp add: stage_def split: walk_state.splits if_splits)
  then consider (hit) "cur (walk_reg s) = ST_IDLE" "tlb_hit n i s" "\<not> cur (fault_reg s)"
    | (failed) "cur (walk_reg s) = ST_FAULT" "pending i s" "cur (fault_reg s)"
    using w by (auto simp: walker_ok_def at_rest [OF rest])
  note cases = this
  show "\<not> mmu_busy n i s"
    using cases by cases (simp_all add: mmu_busy_def pending_def)
  show "sv32_translate M (satp_in i) (asked i) (vaddr_in i) = (if mmu_fault n i s then None else Some (mmu_paddr n i s))"
    using cases
  proof cases
    case hit
    then show ?thesis
      using hit_translation [OF assms(1-3)] assms(2,3) by (simp add: mmu_fault_def)
  next
    case failed
    then show ?thesis
      using w assms(2,3) by (simp add: walker_ok_def at_rest [OF rest] pending_def mmu_fault_def)
  qed
qed

text \<open>The inputs in one cycle: \<open>None\<close> is an answer of the memory, \<open>Some g\<close> a wait with some word on the bus.\<close>

definition answer :: "word_memory \<Rightarrow> u32 option \<Rightarrow> mmu_in \<Rightarrow> mmu_state \<Rightarrow> mmu_in" where
  "answer M w i s =
     (case w of None \<Rightarrow> i\<lparr>mem_wait_in := False, mem_read_data_in := M (mmu_mem_addr s)\<rparr>
      | Some g \<Rightarrow> i\<lparr>mem_wait_in := True, mem_read_data_in := g\<rparr>)"

primrec served :: "nat \<Rightarrow> word_memory \<Rightarrow> mmu_in \<Rightarrow> u32 option list \<Rightarrow> mmu_state \<Rightarrow> mmu_state option" where
  "served n M i [] s = Some s"
| "served n M i (w # ws) s =
     (case mmu_cycle n False (answer M w i s) s of None \<Rightarrow> None | Some s' \<Rightarrow> served n M i ws s')"

lemma answer_simps [simp]:
  "entry_match (answer M w i s) = entry_match i" "tlb_hit n (answer M w i s) = tlb_hit n i"
  "translation_enabled (answer M w i s) = translation_enabled i" "access_comb (answer M w i s) = access_comb i"
  "vaddr_in (answer M w i s) = vaddr_in i" "sfence_in (answer M w i s) = sfence_in i" "fill_in (answer M w i s) = fill_in i"
  "satp_in (answer M w i s) = satp_in i" "asked (answer M w i s) = asked i" "mem_wait_in (answer M w i s) \<longleftrightarrow> w \<noteq> None"
  by (cases w; simp add: answer_def fun_eq_iff entry_match_def vpn1_comb_def vpn_comb_def tlb_hit_iff
      translation_enabled_def direct_mapping_def access_comb_def asked_def)+

lemma answer_environment: "\<not> fill_in i \<Longrightarrow> environment n M (answer M w i s) s"
  by (cases w) (simp_all add: environment_def answer_def)

lemma strobed [simp]:
  "walk_reg (mmu_strobe s) = reg_strobe (walk_reg s)" "req_vaddr_reg (mmu_strobe s) = reg_strobe (req_vaddr_reg s)"
  "req_satp_reg (mmu_strobe s) = reg_strobe (req_satp_reg s)" "latched (mmu_strobe s) = next_latched s"
  "tlb_valid (mmu_strobe s) = reg_strobe (tlb_valid s)" "tlb_vpn (mmu_strobe s) = reg_strobe (tlb_vpn s)"
  "tlb_level (mmu_strobe s) = reg_strobe (tlb_level s)" "tlb_satp (mmu_strobe s) = reg_strobe (tlb_satp s)"
  by (simp_all add: mmu_strobe_def latched_def next_latched_def)

lemma latch_request_pending: "pending i (mmu_strobe (latch_request i s))"
  by (simp add: pending_def next_latched_def asked_def latch_request_def next_to_def)

lemma pending_request: "vaddr_in i' = vaddr_in i \<Longrightarrow> satp_in i' = satp_in i \<Longrightarrow> asked i' = asked i \<Longrightarrow> pending i' s = pending i s"
  by (simp add: pending_def)

lemma pending_walk:
  assumes "pending i s" and "walking M level1 s"
  shows "pending i (mmu_strobe (s\<lparr>fault_reg := f, walk_reg := w\<rparr>))"
    "pending i (mmu_strobe (s\<lparr>fault_reg := f, l1_pte_reg := p, walk_reg := w\<rparr>))"
  using assms by (simp_all add: pending_def walking_def) (simp_all add: next_latched_def)

lemma filled_hit:
  assumes lens: "entries_ok n M s" and s1: "write_entry n j vpn ppn flags level satp s = Some s1"
    and tag: "satp = satp_in i" "vpn = (if level then drop_bit 12 (vaddr_in i) AND NOT 0x3FF else drop_bit 12 (vaddr_in i))"
  shows "tlb_hit n i (mmu_strobe (s1\<lparr>victim_reg := v, walk_reg := w\<rparr>))"
proof -
  have "j < n"
    using s1 by (simp add: write_entry_def split: if_splits)
  moreover have "entry_match i (mmu_strobe (s1\<lparr>victim_reg := v, walk_reg := w\<rparr>)) j"
  proof -
    have "drop_bit 10 vpn = vpn1_comb i" if level
      unfolding tag(2) vpn1_comb_def high_vpn using that by (simp only: if_True vpn_tag)
    moreover have "vpn = vpn_comb i" if "\<not> level"
      using that by (simp add: tag(2) vpn_comb_def)
    ultimately show ?thesis
      using s1 lens \<open>j < n\<close> unfolding entry_match_def tag(1) [symmetric]
      by (cases level) (auto simp: write_entry_def next_at_def entries_ok_def)
  qed
  ultimately show ?thesis
    by (auto simp: tlb_hit_iff)
qed

lemma handle_pte_stage:
  assumes ents: "entries_ok n M s" and w: "walking M level1 s" and pte: "pte = fetched M level1 s"
    and p: "pending i s" and s': "handle_pte n pte level1 s = Some s'"
  shows "\<exists>k. stage n i (mmu_strobe s') k \<and> k \<le> (if level1 then 1 else 0)"
proof (cases "verdict level1 pte (latched s)")
  case None
  then have "s' = s\<lparr>fault_reg := next_to False (fault_reg s), l1_pte_reg := next_to pte (l1_pte_reg s),
      walk_reg := next_to ST_READ_L0 (walk_reg s)\<rparr>"
    using s' by (simp add: handle_pte_cases(1))
  then have "stage n i (mmu_strobe s') 1"
    using pending_walk(2) [OF p w] by (simp add: stage_def next_to_def)
  then show ?thesis
    using verdict_walk(3) [OF w pte None] by auto
next
  case (Some b)
  show ?thesis
  proof (cases b)
    case False
    then have "s' = walker_fault (s\<lparr>fault_reg := next_to False (fault_reg s)\<rparr>)"
      using s' Some by (simp add: handle_pte_cases(2))
    then have "stage n i (mmu_strobe s') 0"
      using pending_walk(1) [OF p w] by (simp add: stage_def next_to_def walker_fault_def)
    then show ?thesis
      by auto
  next
    case True
    let ?s = "s\<lparr>fault_reg := next_to False (fault_reg s)\<rparr>"
    let ?vpn = "if level1 then drop_bit 12 (cur (req_vaddr_reg s)) AND NOT 0x3FF else drop_bit 12 (cur (req_vaddr_reg s))"
    let ?ppn = "if level1 then drop_bit 10 pte AND NOT 0x3FF else drop_bit 10 pte"
    obtain s1 where s1: "write_entry n (cur (victim_reg ?s)) ?vpn ?ppn (ucast (pte AND 0xFF)) level1 (cur (req_satp_reg ?s)) ?s = Some s1"
      and e: "s' = s1\<lparr>victim_reg := next_to ((cur (victim_reg s1) + 1) mod 2 ^ clog2 n) (victim_reg s1),
        walk_reg := next_to ST_IDLE (walk_reg s1)\<rparr>"
      using s' Some True by (auto simp: handle_pte_cases(3) fill_entry_def)
    have "tlb_hit n i (mmu_strobe s')"
      unfolding e by (rule filled_hit [OF _ s1]) (use ents p in \<open>simp_all add: pending_def\<close>)
    then have "stage n i (mmu_strobe s') 0"
      by (simp add: stage_def e next_to_def)
    then show ?thesis
      by auto
  qed
qed

lemma tlb_hit_cong:
  assumes "tlb_valid s' = tlb_valid s" "tlb_vpn s' = tlb_vpn s" "tlb_level s' = tlb_level s" "tlb_satp s' = tlb_satp s"
  shows "tlb_hit n i s' = tlb_hit n i s"
  by (simp add: tlb_hit_iff entry_match_def assms)

lemma strobe_fixed_tlb:
  assumes "mmu_strobe s = s" "tlb_valid s' = tlb_valid s" "tlb_vpn s' = tlb_vpn s" "tlb_level s' = tlb_level s" "tlb_satp s' = tlb_satp s"
  shows "tlb_hit n i (mmu_strobe s') = tlb_hit n i s"
proof -
  have "tlb_hit n i (mmu_strobe s') = tlb_hit n i (mmu_strobe s)"
    by (rule tlb_hit_cong) (simp_all only: strobed assms(2-))
  then show ?thesis
    by (simp only: assms(1))
qed

lemma walker_step_stage:
  assumes inv: "mmu_inv n M s" and e: "translation_enabled i" "access_comb i" and k: "stage n i s k"
    and s': "walker_step n (answer M w i s) (mmu_miss n i s) s = Some s'" and "\<not> fill_in i"
  shows "\<exists>k'. stage n i (mmu_strobe s') k' \<and> k' \<le> k \<and> (w = None \<longrightarrow> k' \<le> k - 1)"
proof -
  have rest: "mmu_strobe s = s" and core: "mmu_core n M s"
    using inv by (simp_all add: mmu_inv_def)
  let ?i = "answer M w i s"
  have env: "environment n M ?i s"
    using assms(6) by (rule answer_environment)
  have pte: "\<exists>k'. stage n i (mmu_strobe s') k' \<and> k' \<le> (if level1 then 1 else 0)"
    if "w = None" "pending i s" "cur (walk_reg s) = (if level1 then ST_READ_L1 else ST_READ_L0)"
      "handle_pte n (mem_read_data_in ?i) level1 (latch_debug ?i s) = Some s'" for level1
  proof (rule handle_pte_stage [OF _ _ _ _ that(4)])
    show "entries_ok n M (latch_debug ?i s)"
      using core by (simp add: mmu_core_def)
    show "walking M level1 (latch_debug ?i s)"
      using core that(3) by (auto simp: walking_def mmu_core_def walker_ok_def at_rest [OF rest])
    show "mem_read_data_in ?i = fetched M level1 (latch_debug ?i s)"
      using read_data [OF env] that(1,3) by (cases level1) simp_all
    show "pending i (latch_debug ?i s)"
      using that(2) by (simp add: pending_def)
  qed
  show ?thesis
  proof (cases "cur (walk_reg s)")
    case ST_IDLE
    then have f: "\<not> cur (fault_reg s)"
      using core by (simp add: mmu_core_def walker_ok_def at_rest [OF rest])
    show ?thesis
    proof (cases "tlb_hit n i s")
      case True
      then have "s' = s\<lparr>fault_reg := reg_clr False (fault_reg s)\<rparr>" and "k = 0"
        using s' k ST_IDLE by (simp_all add: walker_step_def mmu_miss_def stage_def)
      moreover from this have "tlb_hit n i (mmu_strobe s')"
        using True rest by (subst strobe_fixed_tlb [of s]) simp_all
      ultimately have "stage n i (mmu_strobe s') 0"
        using ST_IDLE by (simp add: stage_def at_rest [OF rest])
      then show ?thesis
        by auto
    next
      case False
      then have e: "s' = latch_request ?i s" and "k = 3"
        using s' k e f ST_IDLE by (simp_all add: walker_step_def mmu_miss_def stage_def)
      have "pending i (mmu_strobe s')"
        unfolding e using latch_request_pending [of ?i s] pending_request [of ?i i] by simp
      then have "stage n i (mmu_strobe s') 2"
        by (simp add: stage_def e next_to_def)
      then show ?thesis
        using \<open>k = 3\<close> by auto
    qed
  next
    case ST_READ_L1
    then have "pending i s" "k = 2"
      using k by (simp_all add: stage_def)
    then show ?thesis
      using ST_READ_L1 s' k rest pte [of True] by (cases w) (auto simp: walker_step_def)
  next
    case ST_READ_L0
    then have "pending i s" "k = 1"
      using k by (simp_all add: stage_def)
    then show ?thesis
      using ST_READ_L0 s' k rest pte [of False] by (cases w) (auto simp: walker_step_def)
  next
    case ST_FAULT
    then have "pending i s" "k = 0"
      using k by (simp_all add: stage_def)
    then show ?thesis
      using ST_FAULT s' k e rest by (auto simp: walker_step_def pending_def)
  qed
qed

lemma mmu_cycle_stage:
  assumes n: "power_of_two n" and inv: "mmu_inv n M s" and e: "translation_enabled i" "access_comb i"
    and k: "stage n i s k" and calm: "\<not> fill_in i" "\<not> sfence_in i"
  shows "\<exists>s' k'. mmu_cycle n False (answer M w i s) s = Some s' \<and> mmu_inv n M s' \<and> stage n i s' k' \<and> k' \<le> k \<and>
    (w = None \<longrightarrow> k' \<le> k - 1)"
proof -
  obtain s' where c: "mmu_cycle n False (answer M w i s) s = Some s'" and "mmu_inv n M s'"
    using mmu_cycle_inv [OF n inv answer_environment [OF calm(1)]] by blast
  have "mmu_miss n (answer M w i s) s = mmu_miss n i s"
    by (simp add: mmu_miss_def)
  with c obtain t where "walker_step n (answer M w i s) (mmu_miss n i s) s = Some t" and "s' = mmu_strobe t"
    using calm by (auto simp: mmu_cycle_def mmu_work_def)
  with walker_step_stage [OF inv e k _ calm(1)] show ?thesis
    using c \<open>mmu_inv n M s'\<close> by blast
qed

lemma served_stage:
  assumes "power_of_two n" and "mmu_inv n M s" and "translation_enabled i" "access_comb i"
    and "stage n i s k" and "\<not> fill_in i" "\<not> sfence_in i"
  shows "\<exists>s' k'. served n M i ws s = Some s' \<and> mmu_inv n M s' \<and> stage n i s' k' \<and> k' \<le> k - count_list ws None"
  using assms(2,5)
proof (induction ws arbitrary: s k)
  case (Cons w ws)
  obtain s1 k1 where s1: "mmu_cycle n False (answer M w i s) s = Some s1" "mmu_inv n M s1" "stage n i s1 k1"
    "k1 \<le> k" "w = None \<longrightarrow> k1 \<le> k - 1"
    using mmu_cycle_stage [OF assms(1) Cons.prems(1) assms(3,4) Cons.prems(2) assms(6,7)] by blast
  obtain s2 k2 where "served n M i ws s1 = Some s2" "mmu_inv n M s2" "stage n i s2 k2" "k2 \<le> k1 - count_list ws None"
    using Cons.IH [OF s1(2,3)] by blast
  then show ?case
    using s1 by (cases w) auto
qed auto

end
