(* ===== verification/MmuTranslation.thy ===== *)
theory MmuTranslation
  imports MmuInvariant
begin

text \<open>
  The promises of the translation unit over its whole life: reset, any inputs, and page
  tables that change only with an \<open>sfence\<close>.
\<close>

inductive mmu_reachable :: "nat \<Rightarrow> word_memory \<Rightarrow> mmu_state \<Rightarrow> bool" for n where
  from_reset: "mmu_cycle n True i s = Some s' \<Longrightarrow> mmu_reachable n M s'"
| from_cycle: "mmu_reachable n M s \<Longrightarrow> environment n M i s \<Longrightarrow> mmu_cycle n reset i s = Some s' \<Longrightarrow> mmu_reachable n M s'"
| from_sfence: "mmu_reachable n M s \<Longrightarrow> sfence_in i \<Longrightarrow> mmu_cycle n False i s = Some s' \<Longrightarrow> mmu_reachable n M' s'"

lemma sfence_inv:
  assumes "mmu_inv n M s" and "sfence_in i" and "mmu_cycle n False i s = Some s'"
  shows "mmu_inv n M' s'"
proof -
  have "mmu_core n M' (mmu_sfence n s)"
    using assms(1) entries_ok_invalid [of n M s M']
    by (simp add: mmu_inv_def mmu_core_def walker_ok_def) (simp add: mmu_sfence_def next_to_def reg_clr_def)
  moreover have "s' = mmu_strobe (mmu_sfence n s)"
    using assms(2,3) by (simp add: mmu_cycle_def mmu_work_def)
  ultimately show ?thesis
    using strobe_inv by blast
qed

lemma reachable_inv:
  assumes "power_of_two n" and "mmu_reachable n M s"
  shows "mmu_inv n M s"
  using assms(2)
proof induction
  case (from_reset i s s' M)
  then obtain t where "s' = mmu_strobe (mmu_reset n t)"
    by (auto simp: mmu_cycle_def mmu_work_def)
  then show ?case
    using strobe_inv reset_core [OF assms(1)] by blast
next
  case (from_cycle M s i reset s')
  then show ?case
    using mmu_cycle_inv [OF assms(1), of M s i reset] by auto
next
  case (from_sfence M s i s' M')
  then show ?case
    using sfence_inv by blast
qed

lemma served_reachable:
  assumes "mmu_reachable n M s" and "\<not> fill_in i" and "served n M i ws s = Some s'"
  shows "mmu_reachable n M s'"
  using assms(1,3)
proof (induction ws arbitrary: s)
  case (Cons w ws)
  then show ?case
    using from_cycle [OF Cons.prems(1) answer_environment [OF assms(2)]] by (auto split: option.splits)
qed simp

section \<open>A small instance\<close>

text \<open>
  Two entries; the page tables hold one readable user superpage at 0, accessed but not
  dirty. A load finds it, a store faults.
\<close>

definition small_tables :: word_memory where
  "small_tables a = (if a = 0x1000 then 0x10000053 else 0)"

definition small_request :: "bool \<Rightarrow> mmu_in" where
  "small_request store =
     \<lparr>vaddr_in = 0x1234, read_in = \<not> store, write_in = store, execute_in = False, satp_in = 0x80000001, priv_in = 0,
      sum_in = False, mxr_in = False, direct_base_in = 0, direct_size_in = 0, fill_in = False, fill_index_in = 0,
      fill_vpn_in = 0, fill_ppn_in = 0, fill_flags_in = 0, sfence_in = False, mem_read_data_in = 0, mem_wait_in = False\<rparr>"

definition hold :: "'a \<Rightarrow> 'a reg" where
  "hold v = \<lparr>cur = v, nxt = v\<rparr>"

definition zeroed :: mmu_state where
  "zeroed =
     \<lparr>tlb_valid = hold [False, False], tlb_vpn = hold [0, 0], tlb_ppn = hold [0, 0], tlb_flags = hold [0, 0],
      tlb_level = hold [False, False], tlb_satp = hold [0, 0], victim_reg = hold 0, walk_reg = hold ST_IDLE,
      req_vaddr_reg = hold 0, req_read_reg = hold False, req_write_reg = hold False, req_execute_reg = hold False,
      req_sum_reg = hold False, req_mxr_reg = hold False, req_satp_reg = hold 0, req_priv_reg = hold 0,
      l1_pte_reg = hold 0, fault_reg = hold False, debug_last_pte_reg = hold 0, debug_last_addr_reg = hold 0\<rparr>"


lemma zeroed_reset: "mmu_cycle 2 True (small_request False) zeroed = Some zeroed"
  by (simp add: mmu_cycle_def mmu_work_def small_request_def walker_step_def zeroed_def mmu_reset_def mmu_strobe_def reg_clr_def reg_strobe_def hold_def numeral_2_eq_2)

lemma small_enabled: "translation_enabled (small_request b)" "access_comb (small_request b)"
  by (simp_all add: translation_enabled_def small_request_def direct_mapping_def access_comb_def)

lemma small_walk: "sv32_translate small_tables 0x80000001 (asked (small_request b)) 0x1234 = (if b then None else Some 0x40001234)"
  by (simp add: sv32_translate_def sv32_leaf_def small_tables_def pte_address_def well_formed_def is_leaf_def permitted_def page_target_def asked_def small_request_def bit_numeral_rec)

lemma zeroed_reachable: "mmu_reachable 2 M zeroed"
  using zeroed_reset by (rule from_reset)

lemma zeroed_stage: "stage 2 (small_request b) zeroed 3"
proof -
  have "\<not> tlb_hit 2 (small_request b) zeroed"
    by (simp add: tlb_hit_iff small_enabled) (simp add: entry_match_def zeroed_def hold_def less_Suc_eq numeral_2_eq_2)
  then show ?thesis
    by (simp add: stage_def) (simp add: zeroed_def hold_def)
qed
lemma small_fields [simp]:
  "vaddr_in (small_request b) = 0x1234" "satp_in (small_request b) = 0x80000001" "\<not> fill_in (small_request b)"
  "\<not> sfence_in (small_request b)"
  by (simp_all add: small_request_def)

lemma power_of_two_2: "power_of_two 2"
  unfolding power_of_two_def by (rule exI [of _ 1]) simp

lemma zeroed_idle: "cur (walk_reg zeroed) = ST_IDLE"
  by (simp add: zeroed_def hold_def)

text \<open>The end of a walk for the small request, with its latched state.\<close>

lemma small_served:
  obtains s where "served 2 small_tables (small_request b) [None, None, None] zeroed = Some s"
    and "mmu_reachable 2 small_tables s" and "stage 2 (small_request b) s 0"
    and "mmu_fault 2 (small_request b) s = b"
proof -
  have inv: "mmu_inv 2 small_tables zeroed"
    using power_of_two_2 zeroed_reachable by (rule reachable_inv)
  obtain s where s: "served 2 small_tables (small_request b) [None, None, None] zeroed = Some s" "mmu_inv 2 small_tables s"
    "stage 2 (small_request b) s 0"
    using served_stage [OF power_of_two_2 inv small_enabled zeroed_stage, where ws = "[None, None, None]"] by auto
  moreover have "mmu_reachable 2 small_tables s"
    using served_reachable [OF zeroed_reachable _ s(1)] by simp
  moreover have "mmu_fault 2 (small_request b) s = b"
    using answered(2) [OF s(2) small_enabled s(3)] by (simp add: small_walk split: if_splits)
  ultimately show thesis
    using that by blast
qed

lemma small_hit:
  obtains s where "mmu_reachable 2 small_tables s" and "tlb_hit 2 (small_request False) s"
proof -
  obtain s where s: "mmu_reachable 2 small_tables s" "stage 2 (small_request False) s 0" "\<not> mmu_fault 2 (small_request False) s"
    by (rule small_served [of False]) auto
  have "walker_ok small_tables s" "mmu_strobe s = s"
    using reachable_inv [OF power_of_two_2 s(1)] by (simp_all add: mmu_inv_def mmu_core_def)
  then have "cur (walk_reg s) = ST_FAULT \<Longrightarrow> cur (fault_reg s)"
    by (simp add: walker_ok_def at_rest)
  then have "cur (walk_reg s) = ST_IDLE"
    using s(2,3) small_enabled [of False] by (cases "cur (walk_reg s)") (auto simp: stage_def mmu_fault_def pending_def)
  then have "tlb_hit 2 (small_request False) s"
    using s(2) by (simp add: stage_def split: if_splits)
  with s(1) show thesis
    by (rule that)
qed

section \<open>Properties\<close>

text \<open>
  C31: The address translation unit implements the Sv32 page-table walk: in every state
  reached from reset, whatever the inputs were and with page tables that change only with an
  \<open>sfence\<close>, a hit yields the translated address or a permission fault exactly as the walk
  does, and a latched fault of the request on the inputs is a fault of the walk.
\<close>

theorem mmu_refines_sv32:
  assumes "power_of_two n" and "mmu_reachable n M s" and "translation_enabled i" and "access_comb i"
  shows "(tlb_hit n i s \<longrightarrow>
      sv32_translate M (satp_in i) (asked i) (vaddr_in i) = (if permission_fault n i s then None else Some (mmu_paddr n i s))) \<and>
    (cur (fault_reg s) \<and> pending i s \<longrightarrow> sv32_translate M (satp_in i) (asked i) (vaddr_in i) = None)"
proof -
  have inv: "mmu_inv n M s"
    using assms(1,2) by (rule reachable_inv)
  then have "walker_ok M s" "mmu_strobe s = s"
    by (simp_all add: mmu_inv_def mmu_core_def)
  then show ?thesis
    using hit_translation [OF inv assms(3,4)] by (auto simp: walker_ok_def at_rest pending_def)
qed

theorem mmu_refines_sv32_witness:
  "\<exists>s. mmu_reachable 2 small_tables s \<and> tlb_hit 2 (small_request False) s \<and>
     (if permission_fault 2 (small_request False) s then None else Some (mmu_paddr 2 (small_request False) s)) = Some 0x40001234"
proof -
  obtain s where s: "mmu_reachable 2 small_tables s" "tlb_hit 2 (small_request False) s"
    by (rule small_hit)
  then show ?thesis
    using mmu_refines_sv32 [OF power_of_two_2 s(1) small_enabled [of False]] by (auto simp: small_walk)
qed

text \<open>
  C32: A request is answered: from any state reached from reset whose walker is idle, with the
  request held, three answers of the memory, however long it makes the unit wait before each,
  end the stall, and then the fault output and the physical address are those of the
  page-table walk.
\<close>

theorem mmu_walk_completes:
  assumes "power_of_two n" and "mmu_reachable n M s" and "cur (walk_reg s) = ST_IDLE"
    and "translation_enabled i" and "access_comb i" and "\<not> fill_in i" and "\<not> sfence_in i" and "3 \<le> count_list ws None"
  shows "\<exists>s'. served n M i ws s = Some s' \<and> \<not> mmu_busy n i s' \<and>
    sv32_translate M (satp_in i) (asked i) (vaddr_in i) = (if mmu_fault n i s' then None else Some (mmu_paddr n i s'))"
proof -
  have inv: "mmu_inv n M s"
    using assms(1,2) by (rule reachable_inv)
  obtain k where "stage n i s k" and "k \<le> 3"
    using assms(3) by (cases "tlb_hit n i s") (simp_all add: stage_def)
  with served_stage [OF assms(1) inv assms(4,5) _ assms(6,7), of k ws] assms(8)
  obtain s' where "served n M i ws s = Some s'" "mmu_inv n M s'" "stage n i s' 0"
    by auto
  then show ?thesis
    using answered [OF _ assms(4,5)] by blast
qed

theorem mmu_walk_completes_witness:
  "(\<exists>s. served 2 small_tables (small_request False) [Some 7, None, None, Some 9, None] zeroed = Some s \<and>
      \<not> mmu_busy 2 (small_request False) s \<and> \<not> mmu_fault 2 (small_request False) s \<and>
      mmu_paddr 2 (small_request False) s = 0x40001234) \<and>
   (\<exists>s. served 2 small_tables (small_request True) [None, None, None] zeroed = Some s \<and>
      \<not> mmu_busy 2 (small_request True) s \<and> mmu_fault 2 (small_request True) s)"
  using mmu_walk_completes [OF power_of_two_2 zeroed_reachable zeroed_idle small_enabled [of False], where M = small_tables and ws = "[Some 7, None, None, Some 9, None]"]
    mmu_walk_completes [OF power_of_two_2 zeroed_reachable zeroed_idle small_enabled [of True], where M = small_tables and ws = "[None, None, None]"]
  by (auto simp: small_walk split: if_splits)

text \<open>
  C33: An \<open>sfence\<close> forgets: the state after it has no hit for any translated request, no walk
  and no fault, so that it is right for any page tables.
\<close>

theorem sfence_forgets:
  assumes "power_of_two n" and "mmu_reachable n M s" and "sfence_in i" and "mmu_cycle n False i s = Some s'"
  shows "(\<forall>i'. translation_enabled i' \<longrightarrow> \<not> tlb_hit n i' s' \<and> \<not> mmu_fault n i' s') \<and> \<not> mmu_mem_read s' \<and>
    (\<forall>M'. mmu_inv n M' s')"
proof -
  have inv: "mmu_inv n M s"
    using assms(1,2) by (rule reachable_inv)
  have inv': "mmu_inv n M' s'" for M'
    by (rule sfence_inv [OF inv assms(3,4)])
  have s': "s' = mmu_strobe (mmu_sfence n s)"
    using assms(3,4) by (simp add: mmu_cycle_def mmu_work_def)
  have hit: "\<not> tlb_hit n i' s'" if "translation_enabled i'" for i'
    using that by (simp add: tlb_hit_iff entry_match_def s') (auto simp: mmu_sfence_def reg_clr_def)
  moreover have "cur (walk_reg s') = ST_IDLE" "\<not> cur (fault_reg s')"
    unfolding s' by (simp_all add: mmu_strobe_def mmu_sfence_def next_to_def reg_clr_def)
  ultimately show ?thesis
    using inv' by (simp add: mmu_fault_def permission_fault_def mmu_mem_read_def)
qed

theorem sfence_forgets_witness:
  "\<exists>s s'. mmu_reachable 2 small_tables s \<and> tlb_hit 2 (small_request False) s \<and>
     mmu_cycle 2 False ((small_request False)\<lparr>sfence_in := True\<rparr>) s = Some s' \<and> \<not> tlb_hit 2 (small_request False) s'"
proof -
  obtain s where s: "mmu_reachable 2 small_tables s" "tlb_hit 2 (small_request False) s"
    by (rule small_hit)
  obtain s' where s': "mmu_cycle 2 False ((small_request False)\<lparr>sfence_in := True\<rparr>) s = Some s'"
    by (simp add: mmu_cycle_def mmu_work_def)
  show ?thesis
    using sfence_forgets [OF power_of_two_2 s(1) _ s'] s s' small_enabled by auto
qed

text \<open>
  C34: No access of an entry is out of range: with a power of two of entries, a memory that
  answers with its words and external fills below the number of entries, every cycle from a
  state reached from reset has a next state.
\<close>

theorem mmu_stays_in_range:
  assumes "power_of_two n" and "mmu_reachable n M s" and "environment n M i s"
  shows "\<exists>s'. mmu_cycle n reset i s = Some s' \<and> cur (victim_reg s') < n \<and> length (cur (tlb_valid s')) = n"
proof -
  obtain s' where s': "mmu_cycle n reset i s = Some s'" "mmu_inv n M s'"
    using mmu_cycle_inv [OF assms(1) reachable_inv [OF assms(1,2)] assms(3)] by blast
  then have "mmu_strobe s' = s'" "entries_ok n M s'" "nxt (victim_reg s') < n"
    by (simp_all add: mmu_inv_def mmu_core_def)
  then show ?thesis
    using s'(1) by (simp add: entries_ok_def at_rest)
qed

theorem mmu_stays_in_range_witness:
  "\<exists>s'. mmu_cycle 2 False (small_request True) zeroed = Some s' \<and> cur (victim_reg s') < 2 \<and> length (cur (tlb_valid s')) = 2"
  by (rule mmu_stays_in_range [OF power_of_two_2 zeroed_reachable, of small_tables])
    (simp add: environment_def mmu_mem_read_def zeroed_idle)

text \<open>A store to the page that only loads may use leaves a latched fault.\<close>

lemma small_store_fault:
  obtains s where "mmu_reachable 2 small_tables s" and "cur (fault_reg s)" and "cur (req_vaddr_reg s) = 0x1234"
proof -
  let ?i = "\<lambda>s. answer small_tables None (small_request True) s" and ?s1 = "mmu_strobe (latch_request (small_request True) zeroed)"
  have miss: "mmu_miss 2 (small_request True) zeroed"
    using zeroed_stage [of True] zeroed_idle by (simp add: stage_def mmu_miss_def small_enabled split: if_splits)
      (simp add: zeroed_def hold_def)
  have s1: "mmu_cycle 2 False (small_request True) zeroed = Some ?s1"
    using miss zeroed_idle by (simp add: mmu_cycle_def mmu_work_def walker_step_def)
  have r1: "mmu_reachable 2 small_tables ?s1"
    by (rule from_cycle [OF zeroed_reachable _ s1]) (simp add: environment_def mmu_mem_read_def zeroed_idle)
  have p1: "pending (small_request True) ?s1"
    by (rule latch_request_pending)
  let ?d = "latch_debug (?i ?s1) ?s1"
  have pte: "mem_read_data_in (?i ?s1) = 0x10000053"
    using read_data(1) [where i = "?i ?s1" and s = ?s1 and M = small_tables and n = 2] p1
    by (simp add: answer_environment fetched_def root_pte_def pending_def next_to_def small_tables_def pte_address_def)
  have "latched ?d = asked (small_request True)"
    using p1 by (simp add: pending_def)
  then have "verdict True 0x10000053 (latched ?d) = Some False"
    by (simp add: verdict_def well_formed_def is_leaf_def permitted_def asked_def small_request_def bit_numeral_rec)
  then have "handle_pte 2 0x10000053 True ?d = Some (walker_fault (?d\<lparr>fault_reg := next_to False (fault_reg ?d)\<rparr>))"
    by (rule handle_pte_cases(2))
  then have s2: "mmu_cycle 2 False (?i ?s1) ?s1 = Some (mmu_strobe (walker_fault (?d\<lparr>fault_reg := next_to False (fault_reg ?d)\<rparr>)))"
    using pte by (simp add: mmu_cycle_def mmu_work_def walker_step_def next_to_def)
  let ?s2 = "mmu_strobe (walker_fault (?d\<lparr>fault_reg := next_to False (fault_reg ?d)\<rparr>))"
  have "mmu_reachable 2 small_tables ?s2"
    by (rule from_cycle [OF r1 answer_environment s2]) simp
  moreover have "cur (fault_reg ?s2)" "cur (req_vaddr_reg ?s2) = 0x1234"
    using p1 by (simp_all add: mmu_strobe_def walker_fault_def next_to_def pending_def latch_debug_def)
  ultimately show thesis
    by (rule that)
qed

text \<open>One cycle with a latched fault, up to what the external fill writes.\<close>

lemma fault_cycle:
  assumes "cur (walk_reg s) = ST_FAULT" and "environment n M i s" and "\<not> sfence_in i"
  obtains s1 where "fault_reg s1 = fault_reg s" and "walk_reg s1 = walk_reg s" and "req_vaddr_reg s1 = req_vaddr_reg s"
    and "mmu_cycle n False i s =
      Some (mmu_strobe (if \<not> translation_enabled i \<or> \<not> access_comb i \<or> vaddr_in i \<noteq> cur (req_vaddr_reg s)
        then s1\<lparr>fault_reg := reg_clr False (fault_reg s1), walk_reg := next_to ST_IDLE (walk_reg s1)\<rparr> else s1))"
proof (cases "fill_in i")
  case True
  then obtain s1 where s1: "write_entry n (fill_index_in i) (fill_vpn_in i) (fill_ppn_in i) (fill_flags_in i) False (satp_in i) s = Some s1"
    using assms(2) by (auto simp: environment_def write_entry_def)
  show thesis
    by (rule that [of s1])
      (simp_all add: mmu_cycle_def mmu_work_def walker_step_def Let_def assms(1,3) True s1 write_entry_frame [OF s1])
next
  case False
  then show thesis
    by (intro that [of s]) (simp_all add: mmu_cycle_def mmu_work_def walker_step_def Let_def assms(1,3))
qed

text \<open>
  C35: The scope of a latched fault, in every state reached from reset: it is a fault of the
  page-table walk for the request it was latched with. It is reported, without a stall, for
  exactly the translated accesses of the same address, whatever their kind, address space and
  mode (a load that the page tables allow included), and for no other access, which faults only
  when its own cached entry denies it. It stays latched while such accesses come and is gone
  after the first cycle with another address or without an access.
\<close>

theorem latched_fault_scope:
  assumes "power_of_two n" and "mmu_reachable n M s" and "cur (fault_reg s)"
    and "environment n M i s" and "\<not> sfence_in i"
  defines "same \<equiv> translation_enabled i \<and> access_comb i \<and> vaddr_in i = cur (req_vaddr_reg s)"
  shows "sv32_translate M (cur (req_satp_reg s)) (latched s) (cur (req_vaddr_reg s)) = None \<and>
    (mmu_fault n i s \<longleftrightarrow> same \<or> translation_enabled i \<and> access_comb i \<and> tlb_hit n i s \<and>
      sv32_translate M (satp_in i) (asked i) (vaddr_in i) = None) \<and>
    (same \<longrightarrow> \<not> mmu_busy n i s) \<and>
    (\<exists>s'. mmu_cycle n False i s = Some s' \<and> (cur (fault_reg s') \<longleftrightarrow> same) \<and>
      (same \<longrightarrow> cur (req_vaddr_reg s') = cur (req_vaddr_reg s)) \<and>
      (\<not> same \<longrightarrow> cur (walk_reg s') = ST_IDLE))"
proof -
  have inv: "mmu_inv n M s"
    using assms(1,2) by (rule reachable_inv)
  then have rest: "mmu_strobe s = s" and w: "walker_ok M s"
    by (simp_all add: mmu_inv_def mmu_core_def)
  have f: "cur (walk_reg s) = ST_FAULT"
    and walk: "sv32_translate M (cur (req_satp_reg s)) (latched s) (cur (req_vaddr_reg s)) = None"
    using w assms(3) by (simp_all add: walker_ok_def at_rest [OF rest])
  have "permission_fault n i s \<longleftrightarrow> tlb_hit n i s \<and> sv32_translate M (satp_in i) (asked i) (vaddr_in i) = None"
    if "translation_enabled i" "access_comb i"
    using hit_translation [OF inv that] that by (cases "tlb_hit n i s") (simp_all add: permission_fault_def)
  then have fault: "mmu_fault n i s \<longleftrightarrow> same \<or> translation_enabled i \<and> access_comb i \<and> tlb_hit n i s \<and>
      sv32_translate M (satp_in i) (asked i) (vaddr_in i) = None"
    using assms(3) unfolding mmu_fault_def same_def by metis
  have busy: "same \<longrightarrow> \<not> mmu_busy n i s"
    using assms(3) f by (simp add: mmu_busy_def same_def)
  obtain s1 where s1: "fault_reg s1 = fault_reg s" "walk_reg s1 = walk_reg s" "req_vaddr_reg s1 = req_vaddr_reg s"
    and c: "mmu_cycle n False i s =
      Some (mmu_strobe (if \<not> translation_enabled i \<or> \<not> access_comb i \<or> vaddr_in i \<noteq> cur (req_vaddr_reg s)
        then s1\<lparr>fault_reg := reg_clr False (fault_reg s1), walk_reg := next_to ST_IDLE (walk_reg s1)\<rparr> else s1))"
    using fault_cycle [OF f assms(4,5)] by blast
  have "fault_reg (mmu_strobe t) = reg_strobe (fault_reg t)" for t
    by (simp add: mmu_strobe_def)
  then have "\<exists>s'. mmu_cycle n False i s = Some s' \<and> (cur (fault_reg s') \<longleftrightarrow> same) \<and>
      (same \<longrightarrow> cur (req_vaddr_reg s') = cur (req_vaddr_reg s)) \<and> (\<not> same \<longrightarrow> cur (walk_reg s') = ST_IDLE)"
    using assms(3) unfolding c same_def
    by (simp add: s1 at_rest [OF rest] next_to_def)
  with walk fault busy show ?thesis
    by blast
qed

text \<open>A store has faulted; the load of the same address that the page tables allow is reported as a fault.\<close>

theorem latched_fault_scope_witness:
  "\<exists>s. mmu_reachable 2 small_tables s \<and> mmu_fault 2 (small_request False) s \<and>
     sv32_translate small_tables (satp_in (small_request False)) (asked (small_request False)) (vaddr_in (small_request False)) = Some 0x40001234"
proof -
  obtain s where s: "mmu_reachable 2 small_tables s" "cur (fault_reg s)" "cur (req_vaddr_reg s) = 0x1234"
    by (rule small_store_fault)
  have "environment 2 small_tables (answer small_tables None (small_request False) s) s"
    by (rule answer_environment) simp
  then have "mmu_fault 2 (answer small_tables None (small_request False) s) s"
    using latched_fault_scope [OF power_of_two_2 s(1,2)] s(3) small_enabled [of False] by simp
  moreover have "mmu_fault 2 (answer small_tables None (small_request False) s) s = mmu_fault 2 (small_request False) s"
    using s(2,3) small_enabled [of False] by (simp add: mmu_fault_def)
  ultimately show ?thesis
    using s(1) small_walk [of False] by auto
qed

end
