(* ===== verification/Clint.thy ===== *)
theory Clint
  imports NextValue
begin

text \<open>
  The core-local interruptor (\<open>tribe_cpu/devices/CLINT.h\<close>): software interrupt bits, a timer with
  its compare registers, and the channels of a simple AXI slave. A data beat has 256 bits,
  addresses have 32 and identifiers 4, the defaults of the module. The number of harts and the
  divider of the timer are arguments. The abstract device has one register file and the two
  channels as small state machines; a cycle of the module refines it.
\<close>

section \<open>The module\<close>

type_synonym beat = "256 word"

definition REG_MSIP :: nat where "REG_MSIP = 0x0000"
definition REG_MTIMECMP_LO :: nat where "REG_MTIMECMP_LO = 0x4000"
definition REG_MTIME_LO :: nat where "REG_MTIME_LO = 0xBFF8"
definition REG_MTIME_HI :: nat where "REG_MTIME_HI = 0xBFFC"

lemmas clint_regs = REG_MSIP_def REG_MTIMECMP_LO_def REG_MTIME_LO_def REG_MTIME_HI_def

record clint_in =
  arvalid_in :: bool
  araddr_in :: u32
  arid_in :: "4 word"
  rready_in :: bool
  awvalid_in :: bool
  awaddr_in :: u32
  awid_in :: "4 word"
  wvalid_in :: bool
  wdata_in :: beat
  bready_in :: bool
  set_mtimecmp_in :: bool
  set_mtimecmp_lo_in :: u32
  set_mtimecmp_hi_in :: u32
  set_mtimecmp_per_hart_in :: "(bool \<times> u32 \<times> u32) list"

record clint_state =
  read_addr_reg :: "u32 reg"
  read_id_reg :: "4 word reg"
  read_valid_reg :: "bool reg"
  write_addr_reg :: "u32 reg"
  write_id_reg :: "4 word reg"
  write_addr_valid_reg :: "bool reg"
  write_resp_valid_reg :: "bool reg"
  msip_reg :: "u32 reg"
  mtime_reg :: "u64 reg"
  mtimecmp_reg :: "u64 list reg"
  mtime_div_reg :: "u32 reg"

text \<open>The 32-bit lanes of a data beat, \<open>bits(lane * 32 + 31, lane * 32)\<close>.\<close>

definition lane32 :: "beat \<Rightarrow> nat \<Rightarrow> u32" where
  "lane32 x l = ucast (drop_bit (l * 32) x)"

definition put_lane32 :: "nat \<Rightarrow> u32 \<Rightarrow> beat \<Rightarrow> beat" where
  "put_lane32 l w x = (x AND NOT (push_bit (l * 32) (mask 32))) OR push_bit (l * 32) (ucast w)"

definition lo32 :: "u64 \<Rightarrow> u32" where "lo32 x = ucast x"
definition hi32 :: "u64 \<Rightarrow> u32" where "hi32 x = ucast (drop_bit 32 x)"

definition join32 :: "u32 \<Rightarrow> u32 \<Rightarrow> u64" where
  "join32 hi lo = push_bit 32 (ucast hi) OR ucast lo"

definition read_word_comb :: "nat \<Rightarrow> clint_state \<Rightarrow> u32" where
  "read_word_comb harts s =
     (let addr = unat (cur (read_addr_reg s)) in
      if REG_MSIP \<le> addr \<and> addr < REG_MSIP + harts * 4
      then drop_bit ((addr - REG_MSIP) div 4) (cur (msip_reg s)) AND 1
      else if REG_MTIMECMP_LO \<le> addr \<and> addr < REG_MTIMECMP_LO + harts * 8
      then let hart = (addr - REG_MTIMECMP_LO) div 8
           in if (addr - REG_MTIMECMP_LO) AND 4 = 0 then lo32 (cur (mtimecmp_reg s) ! hart)
              else hi32 (cur (mtimecmp_reg s) ! hart)
      else if addr = REG_MTIME_LO then lo32 (cur (mtime_reg s))
      else if addr = REG_MTIME_HI then hi32 (cur (mtime_reg s))
      else 0)"

definition clint_read_data_comb :: "nat \<Rightarrow> clint_state \<Rightarrow> beat" where
  "clint_read_data_comb harts s = fold (\<lambda>l. put_lane32 l (read_word_comb harts s)) [0..<256 div 8 div 4] 0"

definition write_word_comb :: "clint_in \<Rightarrow> u32" where
  "write_word_comb i = fold (\<lambda>l w. w OR lane32 (wdata_in i) l) [0..<256 div 8 div 4] 0"

definition msip_comb :: "clint_state \<Rightarrow> bool" where
  "msip_comb s \<longleftrightarrow> cur (msip_reg s) AND 1 \<noteq> 0"

definition mtip_comb :: "clint_state \<Rightarrow> bool" where
  "mtip_comb s \<longleftrightarrow> cur (mtimecmp_reg s) ! 0 \<le> cur (mtime_reg s)"

definition msip_per_hart :: "clint_state \<Rightarrow> nat \<Rightarrow> bool" where
  "msip_per_hart s i \<longleftrightarrow> drop_bit i (cur (msip_reg s)) AND 1 \<noteq> 0"

definition mtip_per_hart :: "clint_state \<Rightarrow> nat \<Rightarrow> bool" where
  "mtip_per_hart s i \<longleftrightarrow> cur (mtimecmp_reg s) ! i \<le> cur (mtime_reg s)"

definition awready :: "clint_state \<Rightarrow> bool" where
  "awready s \<longleftrightarrow> \<not> cur (write_addr_valid_reg s) \<and> \<not> cur (write_resp_valid_reg s)"

definition wready :: "clint_state \<Rightarrow> bool" where
  "wready s \<longleftrightarrow> cur (write_addr_valid_reg s) \<and> \<not> cur (write_resp_valid_reg s)"

definition arready :: "clint_state \<Rightarrow> bool" where
  "arready s \<longleftrightarrow> \<not> cur (read_valid_reg s)"

text \<open>\<open>_work\<close> in its order: timer, compare inputs, read channel, write channel, reset.\<close>

definition clint_tick :: "nat \<Rightarrow> clint_state \<Rightarrow> clint_state" where
  "clint_tick ticks s =
     (if ticks \<le> 1 then s\<lparr>mtime_reg := next_to (cur (mtime_reg s) + 1) (mtime_reg s)\<rparr>
      else if of_nat ticks \<le> cur (mtime_div_reg s) + 1
      then s\<lparr>mtime_div_reg := next_to 0 (mtime_div_reg s), mtime_reg := next_to (cur (mtime_reg s) + 1) (mtime_reg s)\<rparr>
      else s\<lparr>mtime_div_reg := next_to (cur (mtime_div_reg s) + 1) (mtime_div_reg s),
             mtime_reg := next_to (cur (mtime_reg s)) (mtime_reg s)\<rparr>)"

definition set_mtimecmp :: "nat \<Rightarrow> u64 \<Rightarrow> clint_state \<Rightarrow> clint_state" where
  "set_mtimecmp hart x s = s\<lparr>mtimecmp_reg := next_at hart x (mtimecmp_reg s)\<rparr>"

definition clint_set :: "clint_in \<Rightarrow> clint_state \<Rightarrow> clint_state" where
  "clint_set i s =
     (let s = (if set_mtimecmp_in i then set_mtimecmp 0 (join32 (set_mtimecmp_hi_in i) (set_mtimecmp_lo_in i)) s else s)
      in fold (\<lambda>(hart, set, lo, hi) s. if set then set_mtimecmp hart (join32 hi lo) s else s)
           (enumerate 0 (set_mtimecmp_per_hart_in i)) s)"

definition clint_read :: "clint_in \<Rightarrow> clint_state \<Rightarrow> clint_state" where
  "clint_read i s =
     (let s1 = (if arvalid_in i \<and> arready s
                then s\<lparr>read_addr_reg := next_to (araddr_in i) (read_addr_reg s),
                       read_id_reg := next_to (arid_in i) (read_id_reg s), read_valid_reg := next_to True (read_valid_reg s)\<rparr>
                else s)
      in if cur (read_valid_reg s) \<and> rready_in i then s1\<lparr>read_valid_reg := next_to False (read_valid_reg s1)\<rparr> else s1)"

definition clint_write_reg :: "nat \<Rightarrow> u32 \<Rightarrow> clint_state \<Rightarrow> clint_state" where
  "clint_write_reg harts word s =
     (let addr = unat (cur (write_addr_reg s)) in
      if REG_MSIP \<le> addr \<and> addr < REG_MSIP + harts * 4
      then let hart = (addr - REG_MSIP) div 4
           in s\<lparr>msip_reg := next_to (if word AND 1 \<noteq> 0 then cur (msip_reg s) OR push_bit hart 1
                                    else cur (msip_reg s) AND NOT (push_bit hart 1)) (msip_reg s)\<rparr>
      else if REG_MTIMECMP_LO \<le> addr \<and> addr < REG_MTIMECMP_LO + harts * 8
      then let hart = (addr - REG_MTIMECMP_LO) div 8
           in if (addr - REG_MTIMECMP_LO) AND 4 = 0
              then set_mtimecmp hart (join32 (hi32 (cur (mtimecmp_reg s) ! hart)) word) s
              else set_mtimecmp hart (join32 word (lo32 (cur (mtimecmp_reg s) ! hart))) s
      else if addr = REG_MTIME_LO
      then s\<lparr>mtime_reg := next_to (join32 (hi32 (cur (mtime_reg s))) word) (mtime_reg s)\<rparr>
      else if addr = REG_MTIME_HI
      then s\<lparr>mtime_reg := next_to (join32 word (lo32 (cur (mtime_reg s)))) (mtime_reg s)\<rparr>
      else s)"

definition clint_write :: "nat \<Rightarrow> clint_in \<Rightarrow> clint_state \<Rightarrow> clint_state" where
  "clint_write harts i s =
     (let s1 = (if awvalid_in i \<and> awready s
                then s\<lparr>write_addr_reg := next_to (awaddr_in i) (write_addr_reg s),
                       write_id_reg := next_to (awid_in i) (write_id_reg s),
                       write_addr_valid_reg := next_to True (write_addr_valid_reg s)\<rparr>
                else s);
          s2 = (if wvalid_in i \<and> wready s
                then clint_write_reg harts (write_word_comb i)
                       (s1\<lparr>write_addr_valid_reg := next_to False (write_addr_valid_reg s1),
                           write_resp_valid_reg := next_to True (write_resp_valid_reg s1)\<rparr>)
                else s1)
      in if cur (write_resp_valid_reg s) \<and> bready_in i
         then s2\<lparr>write_resp_valid_reg := next_to False (write_resp_valid_reg s2)\<rparr> else s2)"

definition clint_reset :: "nat \<Rightarrow> clint_state \<Rightarrow> clint_state" where
  "clint_reset harts s =
     \<lparr>read_addr_reg = reg_clr 0 (read_addr_reg s), read_id_reg = reg_clr 0 (read_id_reg s),
      read_valid_reg = reg_clr False (read_valid_reg s), write_addr_reg = reg_clr 0 (write_addr_reg s),
      write_id_reg = reg_clr 0 (write_id_reg s), write_addr_valid_reg = reg_clr False (write_addr_valid_reg s),
      write_resp_valid_reg = reg_clr False (write_resp_valid_reg s), msip_reg = reg_clr 0 (msip_reg s),
      mtime_reg = reg_clr 0 (mtime_reg s),
      mtimecmp_reg = next_to (replicate harts (NOT 0)) (mtimecmp_reg s), mtime_div_reg = reg_clr 0 (mtime_div_reg s)\<rparr>"

definition clint_work :: "nat \<Rightarrow> nat \<Rightarrow> bool \<Rightarrow> clint_in \<Rightarrow> clint_state \<Rightarrow> clint_state" where
  "clint_work harts ticks reset i s =
     (let s = clint_write harts i (clint_read i (clint_set i (clint_tick ticks s)))
      in if reset then clint_reset harts s else s)"

definition clint_strobe :: "clint_state \<Rightarrow> clint_state" where
  "clint_strobe s =
     \<lparr>read_addr_reg = reg_strobe (read_addr_reg s), read_id_reg = reg_strobe (read_id_reg s),
      read_valid_reg = reg_strobe (read_valid_reg s), write_addr_reg = reg_strobe (write_addr_reg s),
      write_id_reg = reg_strobe (write_id_reg s), write_addr_valid_reg = reg_strobe (write_addr_valid_reg s),
      write_resp_valid_reg = reg_strobe (write_resp_valid_reg s), msip_reg = reg_strobe (msip_reg s),
      mtime_reg = reg_strobe (mtime_reg s), mtimecmp_reg = reg_strobe (mtimecmp_reg s),
      mtime_div_reg = reg_strobe (mtime_div_reg s)\<rparr>"

definition clint_cycle :: "nat \<Rightarrow> nat \<Rightarrow> bool \<Rightarrow> clint_in \<Rightarrow> clint_state \<Rightarrow> clint_state" where
  "clint_cycle harts ticks reset i s = clint_strobe (clint_work harts ticks reset i s)"

section \<open>Lanes of a beat\<close>

lemma bit_lane32: "bit (lane32 x l) n \<longleftrightarrow> n < 32 \<and> bit x (l * 32 + n)"
  by (auto simp: lane32_def bit_ucast_iff bit_drop_bit_eq)

lemma bit_put_lane32: "l < 8 \<Longrightarrow> bit (put_lane32 l w x) n \<longleftrightarrow> (if l * 32 \<le> n \<and> n < l * 32 + 32 then bit w (n - l * 32) else bit x n)"
  using bit_imp_le_length [of w "n - l * 32"] bit_imp_le_length [of x n]
  by (auto simp: put_lane32_def bit_or_iff bit_and_iff bit_not_iff bit_push_bit_iff bit_mask_iff bit_ucast_iff)

lemma lane32_put: "l < 8 \<Longrightarrow> lane32 (put_lane32 l w x) m = (if m = l then w else lane32 x m)"
proof (rule bit_word_eqI)
  fix n
  assume "l < 8" "n < LENGTH(32)"
  then show "bit (lane32 (put_lane32 l w x) m) n \<longleftrightarrow> bit (if m = l then w else lane32 x m) n"
    by (auto simp: bit_lane32 bit_put_lane32)
qed

lemma lane32_0: "lane32 0 m = 0"
  by (simp add: lane32_def)

lemma lanes_8: "[0..<256 div 8 div 4] = [0, 1, 2, 3, 4, 5, 6, 7]"
  by (simp add: upt_rec)

text \<open>Every lane of a read beat has the register; a write beat with one active lane has its word.\<close>

lemma read_data_lanes: "m < 8 \<Longrightarrow> lane32 (clint_read_data_comb harts s) m = read_word_comb harts s"
proof -
  assume m: "m < 8"
  have "lane32 (fold (\<lambda>l. put_lane32 l w) ls x) m = (if m \<in> set ls then w else lane32 x m)" if "\<forall>l \<in> set ls. l < 8" for ls x w
    using that by (induction ls arbitrary: x) (auto simp: lane32_put)
  then show ?thesis
    using m unfolding clint_read_data_comb_def by simp
qed

lemma write_word_lane: "l < 8 \<Longrightarrow> wdata_in i = put_lane32 l w 0 \<Longrightarrow> write_word_comb i = w"
proof -
  assume l: "l < 8" and d: "wdata_in i = put_lane32 l w 0"
  have "fold (\<lambda>l' a. a OR lane32 (put_lane32 l w 0) l') ls a = (if l \<in> set ls then a OR w else a)" for ls a
    using l by (induction ls arbitrary: a) (auto simp: lane32_put lane32_0 or.assoc)
  then show ?thesis
    using l unfolding write_word_comb_def d by simp
qed

lemma join32_halves: "lo32 (join32 h l) = l" "hi32 (join32 h l) = h" "join32 (hi32 x) (lo32 x) = x"
  by (rule bit_word_eqI, auto simp: lo32_def hi32_def join32_def bit_ucast_iff bit_or_iff bit_push_bit_iff bit_drop_bit_eq
      dest: bit_imp_le_length)+

section \<open>A cycle on the current values\<close>

definition clint_settled :: "clint_state \<Rightarrow> bool" where
  "clint_settled s \<longleftrightarrow> settled (read_addr_reg s) \<and> settled (read_id_reg s) \<and> settled (read_valid_reg s) \<and>
     settled (write_addr_reg s) \<and> settled (write_id_reg s) \<and> settled (write_addr_valid_reg s) \<and>
     settled (write_resp_valid_reg s) \<and> settled (msip_reg s) \<and> settled (mtime_reg s) \<and> settled (mtimecmp_reg s) \<and>
     settled (mtime_div_reg s)"

lemma cycle_settled: "clint_settled (clint_cycle harts ticks reset i s)"
  by (simp add: clint_cycle_def clint_strobe_def clint_settled_def settled_def reg_strobe_def)

text \<open>No compare value comes from outside.\<close>

definition no_set :: "clint_in \<Rightarrow> bool" where
  "no_set i \<longleftrightarrow> \<not> set_mtimecmp_in i \<and> set_mtimecmp_per_hart_in i = []"

lemma clint_set_quiet: "no_set i \<Longrightarrow> clint_set i s = s"
  by (simp add: clint_set_def no_set_def)

lemma write_reg_sel:
  "read_addr_reg (clint_write_reg h w s) = read_addr_reg s" "read_id_reg (clint_write_reg h w s) = read_id_reg s"
  "read_valid_reg (clint_write_reg h w s) = read_valid_reg s" "write_addr_reg (clint_write_reg h w s) = write_addr_reg s"
  "write_id_reg (clint_write_reg h w s) = write_id_reg s" "write_addr_valid_reg (clint_write_reg h w s) = write_addr_valid_reg s"
  "write_resp_valid_reg (clint_write_reg h w s) = write_resp_valid_reg s" "mtime_div_reg (clint_write_reg h w s) = mtime_div_reg s"
  by (simp_all add: clint_write_reg_def set_mtimecmp_def Let_def)

lemma tick_sel:
  "read_addr_reg (clint_tick n s) = read_addr_reg s" "read_id_reg (clint_tick n s) = read_id_reg s"
  "read_valid_reg (clint_tick n s) = read_valid_reg s" "write_addr_reg (clint_tick n s) = write_addr_reg s"
  "write_id_reg (clint_tick n s) = write_id_reg s" "write_addr_valid_reg (clint_tick n s) = write_addr_valid_reg s"
  "write_resp_valid_reg (clint_tick n s) = write_resp_valid_reg s" "msip_reg (clint_tick n s) = msip_reg s"
  "mtimecmp_reg (clint_tick n s) = mtimecmp_reg s" "cur (mtime_reg (clint_tick n s)) = cur (mtime_reg s)"
  by (simp_all add: clint_tick_def)

lemma strobe_sel [simp]: "cur (read_addr_reg (clint_strobe s)) = nxt (read_addr_reg s)"
  "cur (read_id_reg (clint_strobe s)) = nxt (read_id_reg s)"
  "cur (read_valid_reg (clint_strobe s)) = nxt (read_valid_reg s)" "cur (write_addr_reg (clint_strobe s)) = nxt (write_addr_reg s)"
  "cur (write_id_reg (clint_strobe s)) = nxt (write_id_reg s)" "cur (write_addr_valid_reg (clint_strobe s)) = nxt (write_addr_valid_reg s)"
  "cur (write_resp_valid_reg (clint_strobe s)) = nxt (write_resp_valid_reg s)" "cur (msip_reg (clint_strobe s)) = nxt (msip_reg s)"
  "cur (mtime_reg (clint_strobe s)) = nxt (mtime_reg s)" "cur (mtimecmp_reg (clint_strobe s)) = nxt (mtimecmp_reg s)"
  "cur (mtime_div_reg (clint_strobe s)) = nxt (mtime_div_reg s)"
  by (simp_all add: clint_strobe_def reg_strobe_def)

text \<open>The fields that the read and the write part assign.\<close>

lemma read_sel:
  "mtimecmp_reg (clint_read i s) = mtimecmp_reg s" "msip_reg (clint_read i s) = msip_reg s"
  "mtime_reg (clint_read i s) = mtime_reg s" "mtime_div_reg (clint_read i s) = mtime_div_reg s"
  "write_addr_reg (clint_read i s) = write_addr_reg s" "write_id_reg (clint_read i s) = write_id_reg s"
  "write_addr_valid_reg (clint_read i s) = write_addr_valid_reg s" "write_resp_valid_reg (clint_read i s) = write_resp_valid_reg s"
  "nxt (read_addr_reg (clint_read i s)) = (if arvalid_in i \<and> arready s then araddr_in i else nxt (read_addr_reg s))"
  "nxt (read_id_reg (clint_read i s)) = (if arvalid_in i \<and> arready s then arid_in i else nxt (read_id_reg s))"
  "nxt (read_valid_reg (clint_read i s)) = (if cur (read_valid_reg s) \<and> rready_in i then False
     else if arvalid_in i \<and> arready s then True else nxt (read_valid_reg s))"
  by (simp_all add: clint_read_def Let_def)

lemma write_sel:
  "read_addr_reg (clint_write h i s) = read_addr_reg s" "read_id_reg (clint_write h i s) = read_id_reg s"
  "read_valid_reg (clint_write h i s) = read_valid_reg s" "mtime_div_reg (clint_write h i s) = mtime_div_reg s"
  "nxt (write_addr_reg (clint_write h i s)) = (if awvalid_in i \<and> awready s then awaddr_in i else nxt (write_addr_reg s))"
  "nxt (write_addr_valid_reg (clint_write h i s)) = (if wvalid_in i \<and> wready s then False
     else if awvalid_in i \<and> awready s then True else nxt (write_addr_valid_reg s))"
  "nxt (write_resp_valid_reg (clint_write h i s)) = (if cur (write_resp_valid_reg s) \<and> bready_in i then False
     else if wvalid_in i \<and> wready s then True else nxt (write_resp_valid_reg s))"
  by (simp_all add: clint_write_def Let_def write_reg_sel)

lemma write_registers:
  "\<not> (wvalid_in i \<and> wready s) \<Longrightarrow> nxt (mtimecmp_reg (clint_write h i s)) = nxt (mtimecmp_reg s) \<and>
     nxt (msip_reg (clint_write h i s)) = nxt (msip_reg s) \<and> nxt (mtime_reg (clint_write h i s)) = nxt (mtime_reg s)"
  unfolding clint_write_def Let_def by (simp only: if_False) simp

text \<open>The channels: who is waiting for what.\<close>

lemma cycle_unfold: "no_set i \<Longrightarrow>
    clint_cycle harts ticks False i s = clint_strobe (clint_write harts i (clint_read i (clint_tick ticks s)))"
  by (simp add: clint_cycle_def clint_work_def clint_set_quiet Let_def)

lemma cycle_channels:
  fixes s i harts ticks
  assumes "clint_settled s" and "no_set i"
  defines "s' \<equiv> clint_cycle harts ticks False i s"
  shows "cur (read_valid_reg s') \<longleftrightarrow> (if cur (read_valid_reg s) then \<not> rready_in i else arvalid_in i)"
    and "cur (read_addr_reg s') = (if arvalid_in i \<and> arready s then araddr_in i else cur (read_addr_reg s))"
    and "cur (read_id_reg s') = (if arvalid_in i \<and> arready s then arid_in i else cur (read_id_reg s))"
    and "cur (write_addr_reg s') = (if awvalid_in i \<and> awready s then awaddr_in i else cur (write_addr_reg s))"
    and "cur (write_addr_valid_reg s') \<longleftrightarrow> (if wvalid_in i \<and> wready s then False else awvalid_in i \<and> awready s \<or> cur (write_addr_valid_reg s))"
    and "cur (write_resp_valid_reg s') \<longleftrightarrow> (if cur (write_resp_valid_reg s) then \<not> bready_in i else wvalid_in i \<and> wready s)"
  using assms(1) unfolding s'_def cycle_unfold [OF assms(2)]
  by (simp_all add: read_sel write_sel tick_sel clint_settled_def settled_def arready_def awready_def wready_def) blast

text \<open>The registers, without and with a write.\<close>

lemma cycle_registers:
  fixes s i harts ticks
  assumes "clint_settled s" and "no_set i" and "\<not> (wvalid_in i \<and> wready s)"
  defines "s' \<equiv> clint_cycle harts ticks False i s"
  shows "cur (mtimecmp_reg s') = cur (mtimecmp_reg s)" and "cur (msip_reg s') = cur (msip_reg s)"
    and "cur (mtime_reg s') = (if ticks \<le> 1 \<or> of_nat ticks \<le> cur (mtime_div_reg s) + 1 then cur (mtime_reg s) + 1 else cur (mtime_reg s))"
    and "cur (mtime_div_reg s') = (if ticks \<le> 1 then cur (mtime_div_reg s)
       else if of_nat ticks \<le> cur (mtime_div_reg s) + 1 then 0 else cur (mtime_div_reg s) + 1)"
proof -
  let ?r = "clint_read i (clint_tick ticks s)"
  have "\<not> (wvalid_in i \<and> wready ?r)"
    using assms(3) by (simp add: wready_def read_sel tick_sel)
  note w = write_registers [OF this, of harts]
  have s': "s' = clint_strobe (clint_write harts i ?r)"
    by (simp add: s'_def cycle_unfold [OF assms(2)])
  show "cur (mtimecmp_reg s') = cur (mtimecmp_reg s)" "cur (msip_reg s') = cur (msip_reg s)"
    "cur (mtime_reg s') = (if ticks \<le> 1 \<or> of_nat ticks \<le> cur (mtime_div_reg s) + 1 then cur (mtime_reg s) + 1 else cur (mtime_reg s))"
    "cur (mtime_div_reg s') = (if ticks \<le> 1 then cur (mtime_div_reg s)
       else if of_nat ticks \<le> cur (mtime_div_reg s) + 1 then 0 else cur (mtime_div_reg s) + 1)"
    using assms(1) unfolding s' by (simp_all add: w write_sel read_sel tick_sel clint_settled_def settled_def) (simp_all add: clint_tick_def)
qed

section \<open>The timer\<close>

text \<open>The step of the time and the divider, on their values.\<close>

definition timer_next :: "nat \<Rightarrow> u64 \<times> u32 \<Rightarrow> u64 \<times> u32" where
  "timer_next ticks = (\<lambda>(time, d).
     (if ticks \<le> 1 \<or> of_nat ticks \<le> d + 1 then time + 1 else time,
      if ticks \<le> 1 then d else if of_nat ticks \<le> d + 1 then 0 else d + 1))"

definition timer :: "clint_state \<Rightarrow> u64 \<times> u32" where
  "timer s = (cur (mtime_reg s), cur (mtime_div_reg s))"

lemma cycle_timer:
  "\<lbrakk>clint_settled s; no_set i; \<not> (wvalid_in i \<and> wready s)\<rbrakk> \<Longrightarrow>
    timer (clint_cycle harts ticks False i s) = timer_next ticks (timer s)"
  by (simp add: timer_def timer_next_def cycle_registers(3,4))

definition clint_run :: "nat \<Rightarrow> nat \<Rightarrow> clint_in list \<Rightarrow> clint_state \<Rightarrow> clint_state" where
  "clint_run harts ticks is s = fold (\<lambda>i. clint_cycle harts ticks False i) is s"

lemma clint_run_simps [simp]: "clint_run harts ticks [] s = s"
  "clint_run harts ticks (i # is) s = clint_run harts ticks is (clint_cycle harts ticks False i s)"
  by (simp_all add: clint_run_def)

text \<open>The time and the divider as one number, in ticks of the clock.\<close>

definition clocks :: "nat \<Rightarrow> clint_state \<Rightarrow> nat" where
  "clocks ticks s = unat (cur (mtime_reg s)) * max 1 ticks + unat (cur (mtime_div_reg s))"

lemma clocks_step:
  fixes s i harts ticks
  assumes s: "clint_settled s" and q: "no_set i" "\<not> wvalid_in i" and t: "ticks < 2 ^ 32"
    and d: "unat (cur (mtime_div_reg s)) < max 1 ticks" and b: "clocks ticks s + 1 < 2 ^ 64 * max 1 ticks"
  defines "s' \<equiv> clint_cycle harts ticks False i s"
  shows "clocks ticks s' = clocks ticks s + 1" and "unat (cur (mtime_div_reg s')) < max 1 ticks"
proof -
  note regs = cycle_registers [where s = s and i = i and harts = harts and ticks = ticks, OF s q(1), folded s'_def]
  have w: "\<not> (wvalid_in i \<and> wready s)"
    using q(2) by simp
  have T: "unat (of_nat ticks :: u32) = ticks"
    using t by (simp add: unat_of_nat)
  have "clocks ticks s' = clocks ticks s + 1 \<and> unat (cur (mtime_div_reg s')) < max 1 ticks"
  proof (cases "ticks \<le> 1 \<or> of_nat ticks \<le> cur (mtime_div_reg s) + 1")
    case True
    have full: "unat (cur (mtime_div_reg s)) + 1 = max 1 ticks"
    proof (cases "ticks \<le> 1")
      case False
      then have "ticks \<le> unat (cur (mtime_div_reg s) + 1)"
        using True T by (simp add: word_le_nat_alt)
      moreover have "unat (cur (mtime_div_reg s) + 1) \<le> unat (cur (mtime_div_reg s)) + 1"
        by (simp add: unat_word_ariths)
      ultimately show ?thesis
        using d by simp
    qed (use d in simp)
    have "clocks ticks s + 1 = (unat (cur (mtime_reg s)) + 1) * max 1 ticks"
      using full by (simp add: clocks_def)
    then have "unat (cur (mtime_reg s)) + 1 < 2 ^ 64"
      using b by (metis mult_less_cancel2)
    then have "unat (cur (mtime_reg s) + 1) = unat (cur (mtime_reg s)) + 1"
      by (simp add: unat_word_ariths)
    then show ?thesis
      using True full regs(3,4) [OF w] by (auto simp: clocks_def)
  next
    case False
    then have "unat (cur (mtime_div_reg s) + 1) = unat (cur (mtime_div_reg s)) + 1"
      using d t by (simp add: unat_word_ariths)
    moreover have "unat (cur (mtime_div_reg s) + 1) < ticks"
      using False T by (simp add: word_less_nat_alt not_le)
    ultimately show ?thesis
      using False regs(3,4) [OF w] by (simp add: clocks_def)
  qed
  then show "clocks ticks s' = clocks ticks s + 1" "unat (cur (mtime_div_reg s')) < max 1 ticks"
    by simp_all
qed

lemma clint_run_clocks:
  assumes "clint_settled s" and "\<forall>i \<in> set is. no_set i \<and> \<not> wvalid_in i" and "ticks < 2 ^ 32"
    and "unat (cur (mtime_div_reg s)) < max 1 ticks" and "clocks ticks s + length is < 2 ^ 64 * max 1 ticks"
  shows "clocks ticks (clint_run harts ticks is s) = clocks ticks s + length is \<and>
    unat (cur (mtime_div_reg (clint_run harts ticks is s))) < max 1 ticks \<and>
    cur (mtimecmp_reg (clint_run harts ticks is s)) = cur (mtimecmp_reg s)"
  using assms
proof (induction "is" arbitrary: s)
  case (Cons i "is")
  have q: "no_set i" "\<not> wvalid_in i"
    using Cons.prems(2) by simp_all
  have step: "clocks ticks (clint_cycle harts ticks False i s) = clocks ticks s + 1"
      "unat (cur (mtime_div_reg (clint_cycle harts ticks False i s))) < max 1 ticks"
    using clocks_step [OF Cons.prems(1) q Cons.prems(3,4), of harts] Cons.prems(5) by simp_all
  have "cur (mtimecmp_reg (clint_cycle harts ticks False i s)) = cur (mtimecmp_reg s)"
    using cycle_registers(1) [OF Cons.prems(1) q(1)] q(2) by blast
  then show ?case
    using Cons.IH [of "clint_cycle harts ticks False i s", OF cycle_settled] Cons.prems step by simp
qed simp

section \<open>Properties\<close>

text \<open>
  C39: the timer interrupt comes on time. Over any number of cycles in which no register is
  written, the time advances by one every \<open>TICK_DIV\<close> cycles (every cycle when that is at most one),
  counted from the present divider, and the interrupt of hart 0 is raised exactly when the time has reached
  its compare value.
\<close>

theorem timer_interrupt_on_time:
  assumes "clint_settled s" and "\<forall>i \<in> set is. no_set i \<and> \<not> wvalid_in i" and "ticks < 2 ^ 32"
    and "unat (cur (mtime_div_reg s)) < max 1 ticks"
    and "unat (cur (mtime_reg s)) + (unat (cur (mtime_div_reg s)) + length is) div max 1 ticks < 2 ^ 64"
  shows "unat (cur (mtime_reg (clint_run harts ticks is s))) =
      unat (cur (mtime_reg s)) + (unat (cur (mtime_div_reg s)) + length is) div max 1 ticks \<and>
    (mtip_comb (clint_run harts ticks is s) \<longleftrightarrow> unat (cur (mtimecmp_reg s) ! 0) \<le>
      unat (cur (mtime_reg s)) + (unat (cur (mtime_div_reg s)) + length is) div max 1 ticks)"
proof -
  let ?T = "max 1 ticks" and ?s = "clint_run harts ticks is s"
  have num: "(clocks ticks s + length is) div ?T = unat (cur (mtime_reg s)) + (unat (cur (mtime_div_reg s)) + length is) div ?T"
    by (simp add: clocks_def add.assoc)
  have "clocks ticks s + length is < 2 ^ 64 * ?T"
    using assms(5) unfolding num [symmetric] by (metis div_less_iff_less_mult less_max_iff_disj less_one zero_less_one)
  note run = clint_run_clocks [OF assms(1-4) this, of harts]
  have "unat (cur (mtime_reg ?s)) = clocks ticks ?s div ?T"
    using conjunct1 [OF conjunct2 [OF run]] by (simp add: clocks_def)
  then have time: "unat (cur (mtime_reg ?s)) = unat (cur (mtime_reg s)) + (unat (cur (mtime_div_reg s)) + length is) div ?T"
    using run num by simp
  then show ?thesis
    using run by (simp add: mtip_comb_def word_le_nat_alt)
qed

definition idle_beat :: clint_in where
  "idle_beat = \<lparr>arvalid_in = False, araddr_in = 0, arid_in = 0, rready_in = False, awvalid_in = False, awaddr_in = 0, awid_in = 0,
     wvalid_in = False, wdata_in = 0, bready_in = False, set_mtimecmp_in = False, set_mtimecmp_lo_in = 0, set_mtimecmp_hi_in = 0,
     set_mtimecmp_per_hart_in = []\<rparr>"

lemma no_set_idle: "no_set idle_beat"
  by (simp add: no_set_def idle_beat_def)

definition clint_example :: clint_state where
  "clint_example = clint_strobe (clint_reset 1 \<lparr>read_addr_reg = reg_clr 0 undefined, read_id_reg = reg_clr 0 undefined,
      read_valid_reg = reg_clr False undefined, write_addr_reg = reg_clr 0 undefined,
      write_id_reg = reg_clr 0 undefined, write_addr_valid_reg = reg_clr False undefined,
      write_resp_valid_reg = reg_clr False undefined, msip_reg = reg_clr 0 undefined,
      mtime_reg = reg_clr 0 undefined, mtimecmp_reg = reg_clr [] undefined, mtime_div_reg = reg_clr 0 undefined\<rparr>)"

lemma timer_interrupt_on_time_witness:
  "unat (cur (mtime_reg (clint_run 1 4 (replicate 10 idle_beat) clint_example))) = 2"
  using timer_interrupt_on_time [of clint_example "replicate 10 idle_beat" 4 1]
  by (simp add: clint_example_def clint_settled_def clint_strobe_def clint_reset_def reg_strobe_def settled_def reg_clr_def no_set_idle)
    (simp add: idle_beat_def)

lemma idle_timer:
  "clint_settled s \<Longrightarrow>
    timer (clint_run harts ticks (replicate k idle_beat) s) = (timer_next ticks ^^ k) (timer s)"
proof (induction k arbitrary: s)
  case (Suc k)
  have "timer (clint_cycle harts ticks False idle_beat s) = timer_next ticks (timer s)"
    by (rule cycle_timer [OF Suc.prems no_set_idle]) (simp add: idle_beat_def)
  then show ?case
    using Suc.IH [OF cycle_settled] by (simp add: funpow_swap1)
qed simp

definition put_addr :: "u32 \<Rightarrow> 4 word \<Rightarrow> clint_in" where
  "put_addr a n = idle_beat\<lparr>awvalid_in := True, awaddr_in := a, awid_in := n\<rparr>"

definition put_data :: "nat \<Rightarrow> u32 \<Rightarrow> clint_in" where
  "put_data l w = idle_beat\<lparr>wvalid_in := True, wdata_in := put_lane32 l w 0\<rparr>"

definition take_resp :: clint_in where
  "take_resp = idle_beat\<lparr>bready_in := True\<rparr>"

definition get_addr :: "u32 \<Rightarrow> 4 word \<Rightarrow> clint_in" where
  "get_addr a n = idle_beat\<lparr>arvalid_in := True, araddr_in := a, arid_in := n\<rparr>"

definition compare_addr :: "nat \<Rightarrow> bool \<Rightarrow> u32" where
  "compare_addr hart upper = of_nat (REG_MTIMECMP_LO + 8 * hart + (if upper then 4 else 0))"

lemmas beats = put_addr_def put_data_def take_resp_def get_addr_def

lemma no_set_beats: "no_set (put_addr a n)" "no_set (put_data l w)" "no_set take_resp" "no_set (get_addr a n)"
  by (simp_all add: beats no_set_def idle_beat_def)

lemma compare_decode:
  assumes "hart < harts" and "harts \<le> 4095"
  shows "unat (compare_addr hart upper) = REG_MTIMECMP_LO + 8 * hart + (if upper then 4 else 0)"
    and "\<not> unat (compare_addr hart upper) < REG_MSIP + harts * 4"
    and "REG_MTIMECMP_LO \<le> unat (compare_addr hart upper) \<and> unat (compare_addr hart upper) < REG_MTIMECMP_LO + harts * 8"
    and "(unat (compare_addr hart upper) - REG_MTIMECMP_LO) div 8 = hart"
    and "(unat (compare_addr hart upper) - REG_MTIMECMP_LO) AND 4 = 0 \<longleftrightarrow> \<not> upper"
proof -
  have "REG_MTIMECMP_LO + 8 * hart + (if upper then 4 else 0) < 2 ^ 32"
    using assms by (simp add: clint_regs)
  then show u: "unat (compare_addr hart upper) = REG_MTIMECMP_LO + 8 * hart + (if upper then 4 else 0)"
    unfolding compare_addr_def by (simp only: unat_of_nat) simp
  show "\<not> unat (compare_addr hart upper) < REG_MSIP + harts * 4"
    "REG_MTIMECMP_LO \<le> unat (compare_addr hart upper) \<and> unat (compare_addr hart upper) < REG_MTIMECMP_LO + harts * 8"
    "(unat (compare_addr hart upper) - REG_MTIMECMP_LO) div 8 = hart"
    using assms unfolding u clint_regs by auto
  have "bit (8 * hart + (if upper then 4 else 0)) 2 \<longleftrightarrow> upper"
    by (simp add: bit_iff_odd)
  then show "(unat (compare_addr hart upper) - REG_MTIMECMP_LO) AND 4 = 0 \<longleftrightarrow> \<not> upper"
    unfolding u using and_exp_eq_0_iff_not_bit [of "8 * hart + (if upper then 4 else 0)" 2] by (simp add: add.assoc)
qed

text \<open>A write beat to a compare register.\<close>

definition put_half :: "bool \<Rightarrow> u32 \<Rightarrow> u64 \<Rightarrow> u64" where
  "put_half upper w x = (if upper then join32 w (lo32 x) else join32 (hi32 x) w)"

definition half :: "bool \<Rightarrow> u64 \<Rightarrow> u32" where
  "half upper x = (if upper then hi32 x else lo32 x)"

lemma half_put_half [simp]: "half upper (put_half upper w x) = w" "half (\<not> upper) (put_half upper w x) = half (\<not> upper) x"
  by (simp_all add: half_def put_half_def join32_halves)

lemma write_compare:
  assumes "hart < harts" and "harts \<le> 4095" and "cur (write_addr_reg s) = compare_addr hart upper"
  shows "mtimecmp_reg (clint_write_reg harts w s) = next_at hart (put_half upper w (cur (mtimecmp_reg s) ! hart)) (mtimecmp_reg s)"
    and "msip_reg (clint_write_reg harts w s) = msip_reg s"
    and "mtime_reg (clint_write_reg harts w s) = mtime_reg s"
  using compare_decode(2-5) [OF assms(1,2), of upper] unfolding clint_write_reg_def assms(3) Let_def
  by (cases upper; simp add: set_mtimecmp_def put_half_def)+

lemma read_compare:
  assumes "hart < harts" and "harts \<le> 4095" and "cur (read_addr_reg s) = compare_addr hart upper"
  shows "read_word_comb harts s = half upper (cur (mtimecmp_reg s) ! hart)"
  using compare_decode(2-5) [OF assms(1,2), of upper] unfolding read_word_comb_def assms(3) Let_def
  by (cases upper; simp add: half_def)

lemma cycle_write:
  fixes s harts ticks
  assumes "clint_settled s" and "no_set i" and "wvalid_in i" and "wready s"
    and "hart < harts" and "harts \<le> 4095" and "cur (write_addr_reg s) = compare_addr hart upper"
  defines "s' \<equiv> clint_cycle harts ticks False i s"
  shows "cur (mtimecmp_reg s') = (cur (mtimecmp_reg s))[hart := put_half upper (write_word_comb i) (cur (mtimecmp_reg s) ! hart)]"
    and "cur (msip_reg s') = cur (msip_reg s)" and "timer s' = timer_next ticks (timer s)"
proof -
  let ?r = "clint_read i (clint_tick ticks s)"
  have ready: "wready ?r" "\<not> awready ?r" "\<not> cur (write_resp_valid_reg ?r)"
    using assms(4) by (simp_all add: wready_def awready_def read_sel tick_sel)
  define s2 where "s2 = ?r\<lparr>write_addr_valid_reg := next_to False (write_addr_valid_reg ?r),
                           write_resp_valid_reg := next_to True (write_resp_valid_reg ?r)\<rparr>"
  have w: "clint_write harts i ?r = clint_write_reg harts (write_word_comb i) s2"
    unfolding clint_write_def Let_def s2_def using ready assms(3) by simp
  have s2: "cur (write_addr_reg s2) = compare_addr hart upper" "mtimecmp_reg s2 = mtimecmp_reg s" "msip_reg s2 = msip_reg s"
    and t2: "mtime_reg s2 = mtime_reg (clint_tick ticks s)" "mtime_div_reg s2 = mtime_div_reg (clint_tick ticks s)"
    using assms(7) by (simp_all add: s2_def read_sel tick_sel)
  show "cur (mtimecmp_reg s') = (cur (mtimecmp_reg s))[hart := put_half upper (write_word_comb i) (cur (mtimecmp_reg s) ! hart)]"
    "cur (msip_reg s') = cur (msip_reg s)"
    using assms(1) unfolding s'_def cycle_unfold [OF assms(2)] w strobe_sel write_compare [OF assms(5,6) s2(1)] s2(2,3)
    by (simp_all add: clint_settled_def settled_def)
  have "settled (mtime_div_reg s)"
    using assms(1) by (simp add: clint_settled_def)
  then show "timer s' = timer_next ticks (timer s)"
    unfolding s'_def cycle_unfold [OF assms(2)] w timer_def strobe_sel write_compare [OF assms(5,6) s2(1)] write_reg_sel t2
    by (simp add: timer_next_def clint_tick_def settled_def)
qed

text \<open>
  C40: what is written to a compare register is read back. An address, a data beat with the word in any of its
  lanes, the response and a read of the same address, one after the other on idle channels, leave the word in the
  addressed half of the addressed hart's compare register and the read channel answering the read's
  identifier with the word in every lane. The other half, the other harts' compare registers and the
  software interrupt bits are unchanged, the time and its divider are those of four idle cycles, and the write
  channels are idle again.
\<close>

theorem compare_write_read:
  assumes "clint_settled s" and "\<not> cur (read_valid_reg s)" and "\<not> cur (write_addr_valid_reg s)" and "\<not> cur (write_resp_valid_reg s)"
    and "l < 8" and "hart < harts" and "harts \<le> 4095" and "length (cur (mtimecmp_reg s)) = harts"
  shows "let s' = clint_run harts ticks
      [put_addr (compare_addr hart upper) n, put_data l w, take_resp, get_addr (compare_addr hart upper) n'] s in
    cur (read_valid_reg s') \<and> cur (read_id_reg s') = n' \<and> (\<forall>m < 8. lane32 (clint_read_data_comb harts s') m = w) \<and>
    cur (mtimecmp_reg s') = (cur (mtimecmp_reg s))[hart := put_half upper w (cur (mtimecmp_reg s) ! hart)] \<and>
    cur (msip_reg s') = cur (msip_reg s) \<and>
    cur (mtime_reg s') = cur (mtime_reg (clint_run harts ticks (replicate 4 idle_beat) s)) \<and>
    cur (mtime_div_reg s') = cur (mtime_div_reg (clint_run harts ticks (replicate 4 idle_beat) s)) \<and>
    \<not> cur (write_addr_valid_reg s') \<and> \<not> cur (write_resp_valid_reg s')"
proof -
  let ?c = "clint_cycle harts ticks False"
  define s1 where "s1 = ?c (put_addr (compare_addr hart upper) n) s"
  define s2 where "s2 = ?c (put_data l w) s1"
  define s3 where "s3 = ?c take_resp s2"
  define s4 where "s4 = ?c (get_addr (compare_addr hart upper) n') s3"
  note settled = cycle_settled [of harts ticks False]
  have set: "clint_settled s1" "clint_settled s2" "clint_settled s3" "clint_settled s4"
    by (simp_all add: s1_def s2_def s3_def s4_def settled)
  note c1 = cycle_channels [OF assms(1) no_set_beats(1) [of "compare_addr hart upper" n], where harts = harts and ticks = ticks, folded s1_def]
  note c2 = cycle_channels [OF set(1) no_set_beats(2) [of l w], where harts = harts and ticks = ticks, folded s2_def]
  note c3 = cycle_channels [OF set(2) no_set_beats(3), where harts = harts and ticks = ticks, folded s3_def]
  note c4 = cycle_channels [OF set(3) no_set_beats(4) [of "compare_addr hart upper" n'], where harts = harts and ticks = ticks, folded s4_def]
  have s1: "\<not> cur (read_valid_reg s1)" "cur (write_addr_reg s1) = compare_addr hart upper" "wready s1"
    using c1 assms(2-4) by (simp_all add: beats idle_beat_def awready_def wready_def)
  have s2: "\<not> cur (read_valid_reg s2)" "cur (write_resp_valid_reg s2)"
    using c2 s1 by (simp_all add: beats idle_beat_def)
  have s3: "\<not> cur (read_valid_reg s3)"
    using c3 s2 by (simp_all add: beats idle_beat_def)
  have s4: "cur (read_valid_reg s4)" "cur (read_addr_reg s4) = compare_addr hart upper" "cur (read_id_reg s4) = n'"
    using c4 s3 by (simp_all add: beats idle_beat_def arready_def)
  have word: "write_word_comb (put_data l w) = w"
    by (rule write_word_lane [OF assms(5)]) (simp add: beats)
  have v: "wvalid_in (put_data l w)"
    by (simp add: beats)
  have r1: "cur (mtimecmp_reg s1) = cur (mtimecmp_reg s) \<and> cur (msip_reg s1) = cur (msip_reg s)"
    unfolding s1_def using cycle_registers(1,2) [OF assms(1) no_set_beats(1) [of "compare_addr hart upper" n]] by (simp add: beats idle_beat_def)
  have r2: "cur (mtimecmp_reg s2) = (cur (mtimecmp_reg s1))[hart := put_half upper w (cur (mtimecmp_reg s1) ! hart)] \<and>
      cur (msip_reg s2) = cur (msip_reg s1)"
    unfolding s2_def using cycle_write [OF set(1) no_set_beats(2) v s1(3) assms(6,7) s1(2)] word by simp
  have r3: "cur (mtimecmp_reg s3) = cur (mtimecmp_reg s2) \<and> cur (msip_reg s3) = cur (msip_reg s2)"
    unfolding s3_def using cycle_registers(1,2) [OF set(2) no_set_beats(3)] by (simp add: beats idle_beat_def)
  have r4: "cur (mtimecmp_reg s4) = cur (mtimecmp_reg s3) \<and> cur (msip_reg s4) = cur (msip_reg s3)"
    unfolding s4_def using cycle_registers(1,2) [OF set(3) no_set_beats(4) [of "compare_addr hart upper" n']] by (simp add: beats idle_beat_def)
  have regs: "cur (mtimecmp_reg s4) = (cur (mtimecmp_reg s))[hart := put_half upper w (cur (mtimecmp_reg s) ! hart)]"
      "cur (msip_reg s4) = cur (msip_reg s)"
    using r1 r2 r3 r4 by simp_all
  have nw: "\<not> wvalid_in (put_addr a k)" "\<not> wvalid_in take_resp" "\<not> wvalid_in (get_addr a k)" for a k
    by (simp_all add: beats idle_beat_def)
  have "timer s1 = timer_next ticks (timer s)"
    unfolding s1_def by (rule cycle_timer [OF assms(1) no_set_beats(1)]) (simp add: nw)
  moreover have "timer s3 = timer_next ticks (timer s2)"
    unfolding s3_def by (rule cycle_timer [OF set(2) no_set_beats(3)]) (simp add: nw)
  moreover have "timer s4 = timer_next ticks (timer s3)"
    unfolding s4_def by (rule cycle_timer [OF set(3) no_set_beats(4)]) (simp add: nw)
  moreover have "timer s2 = timer_next ticks (timer s1)"
    unfolding s2_def by (rule cycle_write(3) [OF set(1) no_set_beats(2) v s1(3) assms(6,7) s1(2)])
  moreover have idle: "timer (clint_run harts ticks (replicate k idle_beat) s) = (timer_next ticks ^^ k) (timer s)" for k
    by (rule idle_timer [OF assms(1)])
  ultimately have "timer s4 = timer (clint_run harts ticks (replicate 4 idle_beat) s)"
    unfolding idle by (simp add: numeral_eq_Suc)
  then have time: "cur (mtime_reg s4) = cur (mtime_reg (clint_run harts ticks (replicate 4 idle_beat) s))"
    "cur (mtime_div_reg s4) = cur (mtime_div_reg (clint_run harts ticks (replicate 4 idle_beat) s))"
    by (simp_all add: timer_def)
  have "\<not> cur (write_addr_valid_reg s2)"
    using c2(5) s1(3) v by simp
  then have channels: "\<not> cur (write_addr_valid_reg s4)" "\<not> cur (write_resp_valid_reg s4)"
    using c3(5,6) c4(5,6) s2(2) by (simp_all add: beats idle_beat_def)
  have "read_word_comb harts s4 = w"
    unfolding read_compare [OF assms(6,7) s4(2)] regs(1) using assms(6,8) by simp
  moreover have "clint_run harts ticks [put_addr (compare_addr hart upper) n, put_data l w, take_resp, get_addr (compare_addr hart upper) n'] s = s4"
    by (simp add: s4_def s3_def s2_def s1_def)
  ultimately show ?thesis
    unfolding Let_def using s4 regs time channels read_data_lanes [of _ harts s4] by simp
qed

lemma compare_write_read_witness:
  "lane32 (clint_read_data_comb 1 (clint_run 1 4
      [put_addr (compare_addr 0 True) 3, put_data 5 77, take_resp, get_addr (compare_addr 0 True) 2] clint_example)) 6 = 77"
  using compare_write_read [of clint_example 5 0 1 4 True 3 77 2]
  by (simp add: clint_example_def clint_settled_def clint_strobe_def clint_reset_def reg_strobe_def settled_def reg_clr_def Let_def)

end
