(* ===== verification/L1Cache.thy ===== *)
theory L1Cache
  imports NextValue Clog2
begin

text \<open>
  The first-level cache (\<open>tribe_cpu/cache/l1\<close>): request decoding, associative lookup over split
  16-bit data banks and a tag bank per way, line refill, held response, generation counters for
  invalidation, and the controller. Lines have 32 bytes, as the code asserts. A value of \<open>logic\<close> is
  a word or, for the tag entries whose width depends on the geometry, its number; the data port of
  the backing memory is the list of its 32-bit words. All registers and memories of the module are
  one record, held as the current and the next value of a register.
\<close>

section \<open>Geometry\<close>

record l1_cfg =
  SETS :: nat
  WAYS :: nat
  DCACHE :: bool
  ADDR_BITS :: nat
  PORT_WORDS :: nat

definition LINE_WORDS :: nat where "LINE_WORDS = 8"

definition PORT_BYTES :: "l1_cfg \<Rightarrow> nat" where "PORT_BYTES c = 4 * PORT_WORDS c"
definition REFILL_BEATS :: "l1_cfg \<Rightarrow> nat" where "REFILL_BEATS c = 32 div PORT_BYTES c"
definition TAG_BITS :: "l1_cfg \<Rightarrow> nat" where "TAG_BITS c = ADDR_BITS c - clog2 (SETS c) - 5"

definition line_base :: "u32 \<Rightarrow> u32" where
  "line_base addr = addr AND NOT 31"

definition beat_base :: "l1_cfg \<Rightarrow> u32 \<Rightarrow> u32" where
  "beat_base c addr = addr AND NOT (of_nat (PORT_BYTES c) - 1)"

definition set_index :: "l1_cfg \<Rightarrow> u32 \<Rightarrow> nat" where
  "set_index c addr = unat addr div 32 mod SETS c"

definition tag_value :: "l1_cfg \<Rightarrow> u32 \<Rightarrow> nat" where
  "tag_value c addr = unat addr div (32 * SETS c)"

definition word_index :: "u32 \<Rightarrow> nat" where
  "word_index addr = unat (drop_bit 2 addr AND of_nat (LINE_WORDS - 1))"

definition refill_beat :: "l1_cfg \<Rightarrow> u32 \<Rightarrow> nat" where
  "refill_beat c addr = unat (addr AND 31) div PORT_BYTES c"

definition direct_cross_beat :: "l1_cfg \<Rightarrow> u32 \<Rightarrow> bool \<Rightarrow> bool" where
  "direct_cross_beat c addr cache_disabled \<longleftrightarrow>
     \<not> cache_disabled \<and> addr AND 3 \<noteq> 0 \<and> PORT_WORDS c \<le> unat addr mod PORT_BYTES c div 4 + 1"

definition cacheable :: "l1_cfg \<Rightarrow> u32 \<Rightarrow> bool \<Rightarrow> bool" where
  "cacheable c addr cache_disabled \<longleftrightarrow>
     \<not> cache_disabled \<and> addr AND 1 = 0 \<and>
     \<not> (DCACHE c \<and> addr AND 3 \<noteq> 0 \<and> word_index addr = LINE_WORDS - 1) \<and>
     \<not> (\<not> DCACHE c \<and> addr AND 2 \<noteq> 0 \<and> word_index addr = LINE_WORDS - 1)"

section \<open>State\<close>

datatype l1_fsm = L1_ST_IDLE | L1_ST_LOOKUP | L1_ST_DONE | L1_ST_REFILL | L1_ST_INIT | L1_ST_SELECT | L1_ST_ASSEMBLE | L1_ST_COMPARE

type_synonym half_line = "128 word"

record l1_request =
  rq_addr :: u32
  rq_read :: bool
  rq_cacheable :: bool
  rq_cache_disable :: bool

record l1_refill =
  rf_beat :: nat
  rf_even :: half_line
  rf_odd :: half_line
  rf_req_data :: u32
  rf_req_data_valid :: bool

record l1_response =
  rs_addr :: u32
  rs_data :: u32
  rs_valid :: bool

record l1_lookup =
  lk_hit :: bool
  lk_way :: nat

record l1_line =
  sl_even :: half_line
  sl_odd :: half_line
  sl_addr :: u32
  sl_valid :: bool

record 'a ram =
  ram_rows :: "'a list"
  ram_q :: 'a

record l1_regs =
  l1_state :: l1_fsm
  req_reg :: l1_request
  tag_epoch_reg :: bool
  epoch_wrap_pending_reg :: bool
  tag_set_epoch_reg :: "byte list"
  refill_reg :: l1_refill
  victim_reg :: nat
  init_set_reg :: nat
  response_reg :: l1_response
  lookup_reg :: l1_lookup
  selected_line_reg :: l1_line
  tag_entries_reg :: "nat list"
  even_ram :: "half_line ram list"
  odd_ram :: "half_line ram list"
  tag_ram :: "nat ram list"

record l1_in =
  write_in :: bool
  write_data_in :: u32
  write_mask_in :: byte
  read_in :: bool
  addr_in :: u32
  stall_in :: bool
  flush_in :: bool
  invalidate_in :: bool
  invalidate_line_in :: bool
  invalidate_addr_in :: u32
  cache_disable_in :: bool
  mem_read_data :: "u32 list"
  mem_wait :: bool

section \<open>Requests\<close>

record l1_geometry =
  gm_set :: nat
  gm_tag :: nat
  gm_word :: nat
  gm_refill_beat :: nat
  gm_direct_cross_beat :: bool

definition request_geometry_comb :: "l1_cfg \<Rightarrow> l1_regs \<Rightarrow> l1_geometry" where
  "request_geometry_comb c s =
     (let addr = rq_addr (req_reg s) in
      \<lparr>gm_set = set_index c addr, gm_tag = tag_value c addr, gm_word = word_index addr,
       gm_refill_beat = refill_beat c addr, gm_direct_cross_beat = direct_cross_beat c addr (rq_cache_disable (req_reg s))\<rparr>)"

record l1_input_request =
  ir_set :: nat
  ir_cacheable :: bool
  ir_start :: bool
  ir_issue :: bool

definition input_decode_comb :: "l1_cfg \<Rightarrow> l1_in \<Rightarrow> l1_input_request" where
  "input_decode_comb c i =
     \<lparr>ir_set = set_index c (addr_in i), ir_cacheable = cacheable c (addr_in i) (cache_disable_in i),
      ir_start = False, ir_issue = False\<rparr>"

record l1_mem_driver =
  md_read :: bool
  md_write :: bool
  md_addr :: u32
  md_write_data :: u32
  md_write_mask :: byte
  md_cache_disable :: bool

definition mem_driver_comb :: "l1_cfg \<Rightarrow> l1_in \<Rightarrow> l1_regs \<Rightarrow> l1_mem_driver" where
  "mem_driver_comb c i s =
     (let req = req_reg s; active = (l1_state s = L1_ST_REFILL \<and> rq_read req) in
      \<lparr>md_read = active, md_write = write_in i,
       md_addr =
         (if active \<and> rq_cacheable req
          then line_base (rq_addr req) + of_nat (rf_beat (refill_reg s)) * of_nat (PORT_BYTES c)
          else if active
          then if DCACHE c \<and> \<not> rq_cache_disable req
               then if gm_direct_cross_beat (request_geometry_comb c s) then rq_addr req else beat_base c (rq_addr req)
               else rq_addr req
          else addr_in i),
       md_write_data = write_data_in i, md_write_mask = write_mask_in i,
       md_cache_disable = (if write_in i then cache_disable_in i else rq_cache_disable req)\<rparr>)"

section \<open>Refill\<close>

text \<open>The 16-bit slices \<open>bits(word * 16 + 15, word * 16)\<close> of a half line and the halves of a word.\<close>

definition half_at :: "half_line \<Rightarrow> nat \<Rightarrow> u32" where
  "half_at line word = ucast (drop_bit (16 * word) line) AND 0xFFFF"

definition put_half_at :: "nat \<Rightarrow> u32 \<Rightarrow> half_line \<Rightarrow> half_line" where
  "put_half_at word x line =
     (line AND NOT (push_bit (16 * word) (mask 16))) OR push_bit (16 * word) (ucast (x AND 0xFFFF))"

definition refill_lines_comb :: "l1_cfg \<Rightarrow> l1_in \<Rightarrow> l1_regs \<Rightarrow> half_line \<times> half_line" where
  "refill_lines_comb c i s =
     fold (\<lambda>k (ev, od).
         let word = rf_beat (refill_reg s) * PORT_WORDS c + k in
         if word < LINE_WORDS
         then (put_half_at word (mem_read_data i ! k) ev, put_half_at word (drop_bit 16 (mem_read_data i ! k)) od)
         else (ev, od))
       [0..<PORT_WORDS c] (rf_even (refill_reg s), rf_odd (refill_reg s))"

definition line_word :: "half_line \<Rightarrow> half_line \<Rightarrow> nat \<Rightarrow> u32" where
  "line_word ev od word = half_at ev word OR push_bit 16 (half_at od word)"

definition assemble_line_word :: "half_line \<Rightarrow> half_line \<Rightarrow> nat \<Rightarrow> nat \<Rightarrow> u32" where
  "assemble_line_word ev od word byte_offset =
     (let word_data = line_word ev od word;
          next_word_data = (if byte_offset \<noteq> 0 \<and> word + 1 < LINE_WORDS then line_word ev od (word + 1) else 0)
      in if byte_offset = 0 then word_data
         else drop_bit (byte_offset * 8) word_data OR push_bit (32 - byte_offset * 8) next_word_data)"

definition refill_data_comb :: "l1_cfg \<Rightarrow> l1_in \<Rightarrow> l1_regs \<Rightarrow> u32" where
  "refill_data_comb c i s =
     (let (ev, od) = refill_lines_comb c i s
      in assemble_line_word ev od (gm_word (request_geometry_comb c s)) (unat (rq_addr (req_reg s) AND 3)))"

definition direct_data_comb :: "l1_cfg \<Rightarrow> l1_in \<Rightarrow> l1_regs \<Rightarrow> u32" where
  "direct_data_comb c i s =
     (let req = req_reg s; byte = unat (rq_addr req AND 3); word = unat (rq_addr req) mod PORT_BYTES c div 4 in
      if \<not> rq_cacheable req \<and> gm_direct_cross_beat (request_geometry_comb c s) then mem_read_data i ! 0
      else let data = drop_bit (byte * 8) (mem_read_data i ! word)
           in if byte \<noteq> 0 \<and> word + 1 < PORT_WORDS c
              then data OR push_bit (32 - byte * 8) (mem_read_data i ! (word + 1))
              else if byte \<noteq> 0 then data OR push_bit (32 - byte * 8) (mem_read_data i ! 0)
              else data)"

section \<open>Lookup\<close>

text \<open>The fields of a tag entry: tag, set generation, global generation and valid bit.\<close>

definition entry_tag :: "l1_cfg \<Rightarrow> nat \<Rightarrow> nat" where
  "entry_tag c e = e mod 2 ^ TAG_BITS c"

definition entry_set_epoch :: "l1_cfg \<Rightarrow> nat \<Rightarrow> nat" where
  "entry_set_epoch c e = e div 2 ^ TAG_BITS c mod 2 ^ 8"

definition entry_epoch :: "l1_cfg \<Rightarrow> nat \<Rightarrow> bool" where
  "entry_epoch c e = bit e (TAG_BITS c + 8)"

definition entry_valid :: "l1_cfg \<Rightarrow> nat \<Rightarrow> bool" where
  "entry_valid c e = bit e (TAG_BITS c + 9)"

definition tag_matches :: "l1_cfg \<Rightarrow> nat \<Rightarrow> nat \<Rightarrow> bool \<Rightarrow> byte \<Rightarrow> bool" where
  "tag_matches c entry tag epoch set_epoch \<longleftrightarrow>
     entry_valid c entry \<and> entry_epoch c entry = epoch \<and> entry_set_epoch c entry = unat set_epoch \<and> entry_tag c entry = tag"

definition lookup_comb :: "l1_cfg \<Rightarrow> l1_regs \<Rightarrow> l1_lookup" where
  "lookup_comb c s =
     (if l1_state s = L1_ST_COMPARE \<and> rq_read (req_reg s) \<and> rq_cacheable (req_reg s)
      then fold (\<lambda>i lookup.
             if tag_matches c (tag_entries_reg s ! i) (gm_tag (request_geometry_comb c s)) (tag_epoch_reg s)
                  (tag_set_epoch_reg s ! gm_set (request_geometry_comb c s))
             then \<lparr>lk_hit = True, lk_way = i mod 2 ^ 8\<rparr> else lookup)
           [0..<WAYS c] \<lparr>lk_hit = False, lk_way = 0\<rparr>
      else \<lparr>lk_hit = False, lk_way = 0\<rparr>)"

definition selected_line_comb :: "l1_cfg \<Rightarrow> l1_regs \<Rightarrow> l1_line" where
  "selected_line_comb c s =
     (if l1_state s = L1_ST_SELECT \<and> lk_hit (lookup_reg s)
      then fold (\<lambda>i line.
             if lk_way (lookup_reg s) = i
             then \<lparr>sl_even = ram_q (even_ram s ! i), sl_odd = ram_q (odd_ram s ! i),
                   sl_addr = line_base (rq_addr (req_reg s)), sl_valid = True\<rparr>
             else line)
           [0..<WAYS c] \<lparr>sl_even = 0, sl_odd = 0, sl_addr = 0, sl_valid = False\<rparr>
      else \<lparr>sl_even = 0, sl_odd = 0, sl_addr = 0, sl_valid = False\<rparr>)"

definition selected_line_hit_comb :: "l1_cfg \<Rightarrow> l1_in \<Rightarrow> l1_regs \<Rightarrow> bool" where
  "selected_line_hit_comb c i s \<longleftrightarrow>
     l1_state s = L1_ST_IDLE \<and> read_in i \<and> \<not> write_in i \<and> \<not> flush_in i \<and> sl_valid (selected_line_reg s) \<and>
     ir_cacheable (input_decode_comb c i) \<and> line_base (addr_in i) = sl_addr (selected_line_reg s)"

definition selected_line_data_comb :: "l1_in \<Rightarrow> l1_regs \<Rightarrow> u32" where
  "selected_line_data_comb i s =
     assemble_line_word (sl_even (selected_line_reg s)) (sl_odd (selected_line_reg s)) (word_index (addr_in i))
       (unat (addr_in i AND 3))"

definition lookup_data_comb :: "l1_cfg \<Rightarrow> l1_regs \<Rightarrow> u32" where
  "lookup_data_comb c s =
     assemble_line_word (sl_even (selected_line_reg s)) (sl_odd (selected_line_reg s)) (gm_word (request_geometry_comb c s))
       (unat (rq_addr (req_reg s) AND 3))"

definition input_request_comb :: "l1_cfg \<Rightarrow> l1_in \<Rightarrow> l1_regs \<Rightarrow> l1_input_request" where
  "input_request_comb c i s =
     (let start = (read_in i \<and> \<not> stall_in i \<and> \<not> selected_line_hit_comb c i s \<and>
                   (l1_state s = L1_ST_IDLE \<or>
                    l1_state s = L1_ST_DONE \<and> rq_cacheable (req_reg s) \<and> addr_in i \<noteq> rs_addr (response_reg s)))
      in (input_decode_comb c i)\<lparr>ir_start := start, ir_issue := start\<rparr>)"

text \<open>The tag entry as a number: the tag below, then both generations and the valid bit.\<close>

definition refill_tag_comb :: "l1_cfg \<Rightarrow> l1_regs \<Rightarrow> nat" where
  "refill_tag_comb c s =
     gm_tag (request_geometry_comb c s) mod 2 ^ TAG_BITS c +
     2 ^ TAG_BITS c * (unat (tag_set_epoch_reg s ! gm_set (request_geometry_comb c s)) +
       2 ^ 8 * (of_bool (tag_epoch_reg s) + 2 * 1))"

section \<open>Response\<close>

record l1_cpu_response =
  cr_data :: u32
  cr_addr :: u32
  cr_valid :: bool
  cr_busy :: bool

definition cpu_response_comb :: "l1_cfg \<Rightarrow> l1_in \<Rightarrow> l1_regs \<Rightarrow> l1_cpu_response" where
  "cpu_response_comb c i s =
     \<lparr>cr_data = (if rs_valid (response_reg s) then rs_data (response_reg s)
                 else if selected_line_hit_comb c i s then selected_line_data_comb i s
                 else direct_data_comb c i s),
      cr_addr = (if rs_valid (response_reg s) then rs_addr (response_reg s)
                 else if selected_line_hit_comb c i s then addr_in i else rq_addr (req_reg s)),
      cr_valid = ((rs_valid (response_reg s) \<or> selected_line_hit_comb c i s) \<and> \<not> epoch_wrap_pending_reg s),
      cr_busy = (epoch_wrap_pending_reg s \<or> l1_state s = L1_ST_INIT \<or> l1_state s = L1_ST_REFILL \<or>
        l1_state s = L1_ST_LOOKUP \<or> l1_state s = L1_ST_COMPARE \<or> l1_state s = L1_ST_SELECT \<or> l1_state s = L1_ST_ASSEMBLE)\<rparr>"

record l1_perf =
  pf_hit :: bool
  pf_lookup_wait :: bool
  pf_refill_wait :: bool
  pf_init_wait :: bool
  pf_issue_wait :: bool
  pf_state :: l1_fsm

definition perf_comb :: "l1_cfg \<Rightarrow> l1_in \<Rightarrow> l1_regs \<Rightarrow> l1_perf" where
  "perf_comb c i s =
     (let busy = cr_busy (cpu_response_comb c i s); st = l1_state s in
      \<lparr>pf_hit = (if st = L1_ST_SELECT \<or> st = L1_ST_ASSEMBLE then lk_hit (lookup_reg s)
                 else if st = L1_ST_COMPARE then lk_hit (lookup_comb c s) else False),
       pf_lookup_wait = (busy \<and> (st = L1_ST_LOOKUP \<or> st = L1_ST_COMPARE \<or> st = L1_ST_SELECT \<or> st = L1_ST_ASSEMBLE)),
       pf_refill_wait = (busy \<and> st = L1_ST_REFILL), pf_init_wait = (busy \<and> st = L1_ST_INIT),
       pf_issue_wait = (read_in i \<and> st = L1_ST_IDLE \<and> \<not> selected_line_hit_comb c i s), pf_state = st\<rparr>)"

section \<open>Memories\<close>

text \<open>A cycle of \<open>RAM\<close> (\<open>tribe_cpu/common/RAM.h\<close>): the write is seen after the clock edge, a read gives the committed row.\<close>

definition ram_cycle :: "bool \<Rightarrow> bool \<Rightarrow> nat \<Rightarrow> 'a \<Rightarrow> 'a ram \<Rightarrow> 'a ram" where
  "ram_cycle wr rd addr data r =
     \<lparr>ram_rows = (if wr then (ram_rows r)[addr := data] else ram_rows r),
      ram_q = (if rd then ram_rows r ! addr else ram_q r)\<rparr>"

text \<open>The port assignments of \<open>_assign\<close>: the set that the data banks and the tag banks address, and the installation of a line.\<close>

definition data_ram_addr :: "l1_cfg \<Rightarrow> l1_in \<Rightarrow> l1_regs \<Rightarrow> nat" where
  "data_ram_addr c i s =
     (if l1_state s = L1_ST_REFILL \<or> l1_state s = L1_ST_LOOKUP \<and> \<not> ir_issue (input_request_comb c i s)
      then gm_set (request_geometry_comb c s) else ir_set (input_request_comb c i s))"

definition tag_ram_addr :: "l1_cfg \<Rightarrow> l1_in \<Rightarrow> l1_regs \<Rightarrow> nat" where
  "tag_ram_addr c i s =
     (if l1_state s = L1_ST_INIT then init_set_reg s
      else if write_in i then ir_set (input_request_comb c i s)
      else data_ram_addr c i s)"

definition install :: "l1_cfg \<Rightarrow> l1_in \<Rightarrow> l1_regs \<Rightarrow> nat \<Rightarrow> bool" where
  "install c i s way \<longleftrightarrow>
     l1_state s = L1_ST_REFILL \<and> rq_read (req_reg s) \<and> rq_cacheable (req_reg s) \<and> \<not> mem_wait i \<and>
     rf_beat (refill_reg s) = REFILL_BEATS c - 1 \<and> victim_reg s = way"

definition ram_read :: "l1_cfg \<Rightarrow> l1_in \<Rightarrow> l1_regs \<Rightarrow> bool" where
  "ram_read c i s \<longleftrightarrow> ir_issue (input_request_comb c i s) \<and> ir_cacheable (input_request_comb c i s)"

definition l1_rams :: "l1_cfg \<Rightarrow> l1_in \<Rightarrow> l1_regs \<Rightarrow> l1_regs \<Rightarrow> l1_regs" where
  "l1_rams c i s n =
     n\<lparr>even_ram := map (\<lambda>way. ram_cycle (install c i s way) (ram_read c i s) (data_ram_addr c i s)
           (fst (refill_lines_comb c i s)) (even_ram s ! way)) [0..<WAYS c],
       odd_ram := map (\<lambda>way. ram_cycle (install c i s way) (ram_read c i s) (data_ram_addr c i s)
           (snd (refill_lines_comb c i s)) (odd_ram s ! way)) [0..<WAYS c],
       tag_ram := map (\<lambda>way. ram_cycle (l1_state s = L1_ST_INIT \<or> install c i s way \<or> write_in i) (ram_read c i s)
           (tag_ram_addr c i s) (if l1_state s = L1_ST_REFILL then refill_tag_comb c s else 0) (tag_ram s ! way)) [0..<WAYS c]\<rparr>"

section \<open>The controller\<close>

text \<open>\<open>s\<close> has the current values and \<open>n\<close> the next ones; each step is a part of \<open>_work\<close>.\<close>

definition l1_prepare :: "l1_regs \<Rightarrow> l1_regs \<Rightarrow> l1_regs" where
  "l1_prepare s n =
     (if l1_state s = L1_ST_LOOKUP \<and> rq_read (req_reg s)
      then n\<lparr>refill_reg := (refill_reg n)\<lparr>rf_beat := 0, rf_req_data_valid := False\<rparr>\<rparr> else n)"

definition invalidate_conflict :: "l1_in \<Rightarrow> l1_regs \<Rightarrow> bool" where
  "invalidate_conflict i s \<longleftrightarrow>
     invalidate_line_in i \<and> rq_read (req_reg s) \<and> line_base (rq_addr (req_reg s)) = line_base (invalidate_addr_in i)"

definition l1_invalidate_line :: "l1_cfg \<Rightarrow> l1_in \<Rightarrow> l1_regs \<Rightarrow> l1_regs \<Rightarrow> l1_regs" where
  "l1_invalidate_line c i s n =
     (if invalidate_line_in i
      then let invalidate_set = set_index c (invalidate_addr_in i);
               epoch = tag_set_epoch_reg s ! invalidate_set;
               n = n\<lparr>tag_set_epoch_reg := (tag_set_epoch_reg n)[invalidate_set := epoch + 1]\<rparr>
           in if epoch = 0xFF then n\<lparr>tag_epoch_reg := \<not> tag_epoch_reg s, epoch_wrap_pending_reg := True\<rparr> else n
      else n)"

text \<open>The assignments that abort a request, and those that accept one.\<close>

definition l1_abort :: "l1_regs \<Rightarrow> l1_regs" where
  "l1_abort n =
     n\<lparr>req_reg := (req_reg n)\<lparr>rq_read := False\<rparr>, response_reg := (response_reg n)\<lparr>rs_valid := False\<rparr>,
       refill_reg := (refill_reg n)\<lparr>rf_req_data_valid := False\<rparr>\<rparr>"

definition l1_accept :: "l1_cfg \<Rightarrow> l1_in \<Rightarrow> l1_regs \<Rightarrow> l1_regs \<Rightarrow> l1_regs" where
  "l1_accept c i s n =
     n\<lparr>req_reg := \<lparr>rq_addr = addr_in i, rq_read = True, rq_cacheable = ir_cacheable (input_request_comb c i s),
         rq_cache_disable = cache_disable_in i\<rparr>, l1_state := L1_ST_LOOKUP\<rparr>"

definition l1_respond :: "u32 \<Rightarrow> l1_regs \<Rightarrow> l1_regs \<Rightarrow> l1_regs" where
  "l1_respond data s n =
     n\<lparr>response_reg := \<lparr>rs_addr = rq_addr (req_reg s), rs_data = data, rs_valid = True\<rparr>, l1_state := L1_ST_DONE\<rparr>"

definition l1_last_beat :: "l1_cfg \<Rightarrow> l1_in \<Rightarrow> l1_regs \<Rightarrow> l1_regs \<Rightarrow> l1_regs" where
  "l1_last_beat c i s n =
     (let data = (if rf_beat (refill_reg s) = gm_refill_beat (request_geometry_comb c s) then direct_data_comb c i s
                  else if rf_req_data_valid (refill_reg s) then rf_req_data (refill_reg s) else refill_data_comb c i s);
          n = l1_respond data s n
      in n\<lparr>selected_line_reg := \<lparr>sl_even = fst (refill_lines_comb c i s), sl_odd = snd (refill_lines_comb c i s),
             sl_addr = line_base (rq_addr (req_reg s)), sl_valid = True\<rparr>,
           refill_reg := (refill_reg n)\<lparr>rf_req_data_valid := False\<rparr>,
           victim_reg := (if victim_reg s = WAYS c - 1 then 0 else (victim_reg s + 1) mod 2 ^ (if WAYS c \<le> 1 then 1 else clog2 (WAYS c)))\<rparr>)"

definition l1_refill_step :: "l1_cfg \<Rightarrow> l1_in \<Rightarrow> l1_regs \<Rightarrow> l1_regs \<Rightarrow> l1_regs" where
  "l1_refill_step c i s n =
     (if mem_wait i then n
      else if rq_cacheable (req_reg s)
      then let n = n\<lparr>refill_reg := (refill_reg n)\<lparr>rf_even := fst (refill_lines_comb c i s), rf_odd := snd (refill_lines_comb c i s)\<rparr>\<rparr>;
               n = (if rf_beat (refill_reg s) = gm_refill_beat (request_geometry_comb c s) \<and> rq_addr (req_reg s) AND 3 = 0
                    then n\<lparr>refill_reg := (refill_reg n)\<lparr>rf_req_data := direct_data_comb c i s, rf_req_data_valid := True\<rparr>\<rparr> else n)
           in if rf_beat (refill_reg s) = REFILL_BEATS c - 1 then l1_last_beat c i s n
              else n\<lparr>refill_reg := (refill_reg n)\<lparr>rf_beat := (rf_beat (refill_reg s) + 1) mod 2 ^ 8\<rparr>\<rparr>
      else l1_respond (direct_data_comb c i s) s n)"

definition l1_done_step :: "l1_cfg \<Rightarrow> l1_in \<Rightarrow> l1_regs \<Rightarrow> l1_regs \<Rightarrow> l1_regs" where
  "l1_done_step c i s n =
     (let n = n\<lparr>response_reg := (response_reg n)\<lparr>rs_valid := False\<rparr>\<rparr>
      in if ir_start (input_request_comb c i s) then l1_accept c i s n
         else n\<lparr>req_reg := (req_reg n)\<lparr>rq_read := False, rq_cacheable := False\<rparr>, l1_state := L1_ST_IDLE\<rparr>)"

definition l1_idle_step :: "l1_cfg \<Rightarrow> l1_in \<Rightarrow> l1_regs \<Rightarrow> l1_regs \<Rightarrow> l1_regs" where
  "l1_idle_step c i s n =
     (let n = n\<lparr>response_reg := (response_reg n)\<lparr>rs_valid := False\<rparr>\<rparr>
      in if ir_start (input_request_comb c i s) then l1_accept c i s n else n)"

definition l1_init_step :: "l1_cfg \<Rightarrow> l1_regs \<Rightarrow> l1_regs \<Rightarrow> l1_regs" where
  "l1_init_step c s n =
     (let n = l1_abort n
      in if init_set_reg s = SETS c - 1 then n\<lparr>l1_state := L1_ST_IDLE\<rparr>
         else n\<lparr>init_set_reg := (init_set_reg s + 1) mod 2 ^ clog2 (SETS c)\<rparr>)"

definition l1_control :: "l1_cfg \<Rightarrow> l1_in \<Rightarrow> l1_regs \<Rightarrow> l1_regs \<Rightarrow> l1_regs" where
  "l1_control c i s n =
     (let read = rq_read (req_reg s) in
      if epoch_wrap_pending_reg s
      then (l1_abort n)\<lparr>init_set_reg := 0, l1_state := L1_ST_INIT, epoch_wrap_pending_reg := False\<rparr>
      else if invalidate_conflict i s then (l1_abort n)\<lparr>l1_state := L1_ST_IDLE\<rparr>
      else if invalidate_in i then (l1_abort n)\<lparr>init_set_reg := 0, l1_state := L1_ST_INIT\<rparr>
      else if flush_in i
      then n\<lparr>req_reg := (req_reg n)\<lparr>rq_read := False, rq_cacheable := False\<rparr>,
             response_reg := (response_reg n)\<lparr>rs_valid := False\<rparr>, l1_state := L1_ST_IDLE\<rparr>
      else if l1_state s = L1_ST_INIT then l1_init_step c s n
      else if l1_state s = L1_ST_IDLE then l1_idle_step c i s n
      else if l1_state s = L1_ST_LOOKUP \<and> read
      then n\<lparr>tag_entries_reg := map (\<lambda>way. ram_q (tag_ram s ! way)) [0..<WAYS c], l1_state := L1_ST_COMPARE\<rparr>
      else if l1_state s = L1_ST_COMPARE \<and> read then n\<lparr>lookup_reg := lookup_comb c s, l1_state := L1_ST_SELECT\<rparr>
      else if l1_state s = L1_ST_SELECT \<and> read
      then if lk_hit (lookup_reg s) then n\<lparr>selected_line_reg := selected_line_comb c s, l1_state := L1_ST_ASSEMBLE\<rparr>
           else n\<lparr>l1_state := L1_ST_REFILL\<rparr>
      else if l1_state s = L1_ST_ASSEMBLE \<and> read then l1_respond (lookup_data_comb c s) s n
      else if l1_state s = L1_ST_REFILL \<and> read then l1_refill_step c i s n
      else if l1_state s = L1_ST_DONE \<and> \<not> stall_in i then l1_done_step c i s n
      else n)"

definition l1_drop_lines :: "l1_cfg \<Rightarrow> l1_in \<Rightarrow> l1_regs \<Rightarrow> l1_regs \<Rightarrow> l1_regs" where
  "l1_drop_lines c i s n =
     (let n = (if write_in i
               then n\<lparr>response_reg := (response_reg n)\<lparr>rs_valid := False\<rparr>, selected_line_reg := (selected_line_reg n)\<lparr>sl_valid := False\<rparr>\<rparr>
               else n);
          n = (if invalidate_in i \<or> epoch_wrap_pending_reg s
               then n\<lparr>selected_line_reg := (selected_line_reg n)\<lparr>sl_valid := False\<rparr>\<rparr> else n)
      in if invalidate_line_in i \<and> sl_valid (selected_line_reg s) \<and>
            set_index c (sl_addr (selected_line_reg s)) = set_index c (invalidate_addr_in i)
         then n\<lparr>selected_line_reg := (selected_line_reg n)\<lparr>sl_valid := False\<rparr>\<rparr> else n)"

definition l1_reset :: "l1_cfg \<Rightarrow> l1_regs \<Rightarrow> l1_regs" where
  "l1_reset c s =
     \<lparr>l1_state = L1_ST_INIT, req_reg = \<lparr>rq_addr = 0, rq_read = False, rq_cacheable = False, rq_cache_disable = False\<rparr>,
      tag_epoch_reg = False, epoch_wrap_pending_reg = False, tag_set_epoch_reg = replicate (SETS c) 0,
      refill_reg = \<lparr>rf_beat = 0, rf_even = 0, rf_odd = 0, rf_req_data = 0, rf_req_data_valid = False\<rparr>, victim_reg = 0,
      init_set_reg = 0, response_reg = \<lparr>rs_addr = 0, rs_data = 0, rs_valid = False\<rparr>, lookup_reg = \<lparr>lk_hit = False, lk_way = 0\<rparr>,
      selected_line_reg = \<lparr>sl_even = 0, sl_odd = 0, sl_addr = 0, sl_valid = False\<rparr>, tag_entries_reg = replicate (WAYS c) 0,
      even_ram = map (\<lambda>r. r\<lparr>ram_q := 0\<rparr>) (even_ram s), odd_ram = map (\<lambda>r. r\<lparr>ram_q := 0\<rparr>) (odd_ram s),
      tag_ram = map (\<lambda>r. r\<lparr>ram_q := 0\<rparr>) (tag_ram s)\<rparr>"

definition l1_work :: "l1_cfg \<Rightarrow> bool \<Rightarrow> l1_in \<Rightarrow> l1_regs reg \<Rightarrow> l1_regs reg" where
  "l1_work c reset i r =
     (let s = cur r in
      if reset then next_to (l1_reset c s) r
      else next_to (l1_rams c i s (l1_drop_lines c i s (l1_control c i s (l1_invalidate_line c i s (l1_prepare s (nxt r)))))) r)"

definition l1_strobe :: "l1_regs reg \<Rightarrow> l1_regs reg" where
  "l1_strobe r = reg_strobe r"

definition l1_cycle :: "l1_cfg \<Rightarrow> bool \<Rightarrow> l1_in \<Rightarrow> l1_regs reg \<Rightarrow> l1_regs reg" where
  "l1_cycle c reset i r = l1_strobe (l1_work c reset i r)"

end
