(* ===== verification/L1Line.thy ===== *)
theory L1Line
  imports L1Cache
begin

text \<open>
  Addresses, lines and words of the first-level cache: the sets and tags of a line, the split banks as
  the words they hold, and the words a request and a refill assemble, against a memory that is a
  function from the addresses of aligned words.
\<close>

section \<open>Addresses\<close>

lemma unat_and_not_mask: "unat ((a :: u32) AND NOT (mask n)) = 2 ^ n * (unat a div 2 ^ n)"
proof -
  have le: "a AND mask n \<le> a"
    by (simp add: word_le_nat_alt unat_and_mask)
  have "a AND NOT (mask n) = push_bit n (drop_bit n a)"
    by (rule bit_word_eqI) (auto simp: bit_and_iff bit_not_iff bit_mask_iff bit_push_bit_iff bit_drop_bit_eq)
  moreover have "push_bit n (drop_bit n a) + (a AND mask n) = a"
    by (simp only: take_bit_eq_mask [symmetric] bits_ident)
  ultimately have "(a AND NOT (mask n)) + (a AND mask n) = a"
    by (simp only:)
  then have "a AND NOT (mask n) = a - (a AND mask n)"
    by (simp add: eq_diff_eq)
  then have "unat (a AND NOT (mask n)) = unat a - unat a mod 2 ^ n"
    using le by (simp add: unat_sub unat_and_mask)
  then show ?thesis
    by (simp add: minus_mod_eq_mult_div)
qed

lemma masks: "(3 :: u32) = mask 2" "(31 :: u32) = mask 5" "(7 :: u32) = mask 3"
  by (simp_all add: mask_eq_exp_minus_1)

lemma unat_low: "unat ((a :: u32) AND 3) = unat a mod 4" "unat (a AND 31) = unat a mod 32" "unat (a AND NOT 3) = 4 * (unat a div 4)"
  by (simp_all only: masks unat_and_mask unat_and_not_mask) simp_all

lemma unat_line_base: "unat (line_base a) = 32 * (unat a div 32)"
  unfolding line_base_def by (simp only: masks unat_and_not_mask) simp

lemma word_index_nat: "word_index a = unat a div 4 mod 8"
proof -
  have "word_index a = unat (drop_bit 2 a AND mask 3)"
    by (simp add: word_index_def LINE_WORDS_def mask_eq_exp_minus_1)
  also have "\<dots> = unat (drop_bit 2 a) mod 8"
    by (simp only: unat_and_mask) simp
  also have "unat (drop_bit 2 a) = unat a div 4"
    by (simp only: unat_drop_bit_eq) (simp add: drop_bit_eq_div)
  finally show ?thesis .
qed

lemma low_bits_0: "(a :: u32) AND 3 = 0 \<longleftrightarrow> unat a mod 4 = 0"
  using unat_low(1) [of a] by (metis unat_eq_zero)

text \<open>A line and its words: the address of word \<open>k\<close> of a line.\<close>

lemma line_base_eq: "line_base a = line_base b \<longleftrightarrow> unat a div 32 = unat b div 32"
  by (simp add: word_unat_eq_iff unat_line_base)

lemma unat_line_word:
  assumes "k < 8"
  shows "unat (line_base a + of_nat (4 * k)) = 32 * (unat a div 32) + 4 * k"
proof -
  have "unat a div 32 < 2 ^ 27"
    using unsigned_less [of a, where 'a = nat] by (intro less_mult_imp_div_less) simp
  then have "32 * (unat a div 32) + 4 * k < 2 ^ 32"
    using assms by simp
  then show ?thesis
    using assms by (simp add: unat_word_ariths unat_line_base unat_of_nat)
qed

lemma line_base_idem [simp]: "line_base (line_base a) = line_base a"
  by (simp add: line_base_eq unat_line_base)

lemma line_base_word: "k < 8 \<Longrightarrow> line_base (line_base a + of_nat (4 * k)) = line_base a"
  by (simp only: line_base_eq unat_line_word)

text \<open>The aligned word of an address.\<close>

lemma index_less: "word_index a < 8"
  by (simp add: word_index_nat)

lemma aligned_word: "a AND NOT 3 = line_base a + of_nat (4 * word_index a)"
proof -
  have "4 * (unat a div 4) = 32 * (unat a div 32) + 4 * (unat a div 4 mod 8)"
    by (simp add: div_mult2_eq [of "unat a" 4 8, simplified]) presburger
  then show ?thesis
    by (simp only: word_unat_eq_iff unat_low unat_line_word [OF index_less]) (simp only: word_index_nat)
qed

lemma set_tag_line:
  assumes "0 < SETS c"
  shows "tag_value c a * SETS c + set_index c a = unat a div 32"
  using assms by (simp add: tag_value_def set_index_def div_mult2_eq)

lemma same_line:
  assumes "0 < SETS c"
  shows "set_index c a = set_index c b \<and> tag_value c a = tag_value c b \<longleftrightarrow> line_base a = line_base b"
  using set_tag_line [OF assms, of a] set_tag_line [OF assms, of b] unfolding line_base_eq
  by (metis assms div_mult2_eq set_index_def tag_value_def)

section \<open>Words of a line\<close>

lemma bit_FFFF: "bit (65535 :: int) n \<longleftrightarrow> n < 16" "bit (65535 :: nat) n \<longleftrightarrow> n < 16"
proof -
  have m: "(65535 :: int) = mask 16" "(65535 :: nat) = mask 16"
    by (simp_all add: mask_eq_exp_minus_1)
  show "bit (65535 :: int) n \<longleftrightarrow> n < 16" "bit (65535 :: nat) n \<longleftrightarrow> n < 16"
    unfolding m by (simp_all add: bit_mask_iff)
qed

lemma bit_half_at: "bit (half_at line k) n \<longleftrightarrow> n < 16 \<and> bit line (16 * k + n)"
  by (auto simp: half_at_def bit_and_iff bit_ucast_iff bit_drop_bit_eq bit_FFFF)

lemma bit_put_half_at:
  assumes "k < 8"
  shows "bit (put_half_at k x line) n \<longleftrightarrow> (if 16 * k \<le> n \<and> n < 16 * k + 16 then bit x (n - 16 * k) else bit line n)"
  using assms bit_imp_le_length [of line n]
  by (auto simp: put_half_at_def bit_or_iff bit_and_iff bit_not_iff bit_push_bit_iff bit_mask_iff bit_ucast_iff bit_FFFF)

lemma half_at_put: "k < 8 \<Longrightarrow> half_at (put_half_at k x line) j = (if j = k then x AND 0xFFFF else half_at line j)"
proof (rule bit_word_eqI)
  fix n
  assume "k < 8"
  then show "bit (half_at (put_half_at k x line) j) n \<longleftrightarrow> bit (if j = k then x AND 0xFFFF else half_at line j) n"
    by (auto simp: bit_half_at bit_put_half_at bit_and_iff bit_FFFF)
qed

lemma line_word_put:
  "k < 8 \<Longrightarrow> line_word (put_half_at k x ev) (put_half_at k (drop_bit 16 x) od) j = (if j = k then x else line_word ev od j)"
proof -
  have "(x AND 0xFFFF) OR push_bit 16 (drop_bit 16 x AND 0xFFFF) = x"
    by (rule bit_word_eqI, simp only: bit_or_iff bit_and_iff bit_push_bit_iff bit_drop_bit_eq) (auto simp: bit_FFFF)
  then show "k < 8 \<Longrightarrow> ?thesis"
    by (simp add: line_word_def half_at_put)
qed

section \<open>Reading words\<close>

type_synonym memory = "u32 \<Rightarrow> u32"

text \<open>The word at any byte address, from the aligned words of a memory.\<close>

definition read_word :: "memory \<Rightarrow> u32 \<Rightarrow> u32" where
  "read_word M a =
     (let byte = unat (a AND 3); base = a AND NOT 3 in
      if byte = 0 then M base else drop_bit (8 * byte) (M base) OR push_bit (32 - 8 * byte) (M (base + 4)))"

definition within_line :: "u32 \<Rightarrow> bool" where
  "within_line a \<longleftrightarrow> a AND 3 = 0 \<or> word_index a < 7"

definition line_image :: "memory \<Rightarrow> u32 \<Rightarrow> half_line \<Rightarrow> half_line \<Rightarrow> bool" where
  "line_image M base ev od \<longleftrightarrow> (\<forall>k < 8. line_word ev od k = M (base + of_nat (4 * k)))"

text \<open>Memories that have the same line.\<close>

definition same_on_line :: "memory \<Rightarrow> memory \<Rightarrow> u32 \<Rightarrow> bool" where
  "same_on_line M M' a \<longleftrightarrow> (\<forall>b. line_base b = line_base a \<longrightarrow> M' b = M b)"

lemma line_image_same: "same_on_line M M' a \<Longrightarrow> line_image M' (line_base a) ev od \<longleftrightarrow> line_image M (line_base a) ev od"
  unfolding line_image_def same_on_line_def using line_base_word by metis

lemma and3_zero: "unat (a AND 3) = 0 \<longleftrightarrow> (a :: u32) AND 3 = 0"
  by (rule unat_eq_zero)

lemma next_word: "(a AND NOT 3) + 4 = line_base a + of_nat (4 * (word_index a + 1))"
  by (simp only: aligned_word) (simp add: algebra_simps)

lemma read_word_same:
  assumes "same_on_line M M' a" and "within_line a"
  shows "read_word M' a = read_word M a"
proof -
  have "M' (a AND NOT 3) = M (a AND NOT 3)"
    using assms(1) line_base_word [OF index_less, of a a] unfolding same_on_line_def aligned_word by blast
  moreover have "M' ((a AND NOT 3) + 4) = M ((a AND NOT 3) + 4)" if "a AND 3 \<noteq> 0"
  proof -
    have "word_index a + 1 < 8"
      using assms(2) that by (simp add: within_line_def)
    then show ?thesis
      using assms(1) line_base_word [of "word_index a + 1" a] unfolding same_on_line_def next_word by blast
  qed
  ultimately show ?thesis
    unfolding read_word_def Let_def by (simp add: and3_zero)
qed

lemma assemble_read_word:
  assumes "line_image M (line_base a) ev od" and "within_line a"
  shows "assemble_line_word ev od (word_index a) (unat (a AND 3)) = read_word M a"
proof -
  have word: "line_word ev od (word_index a) = M (a AND NOT 3)"
    using assms(1) index_less [of a] unfolding line_image_def aligned_word by blast
  show ?thesis
  proof (cases "a AND 3 = 0")
    case True
    then show ?thesis
      by (simp add: assemble_line_word_def read_word_def word)
  next
    case False
    then have i: "word_index a + 1 < 8"
      using assms(2) by (simp add: within_line_def)
    then have nw: "line_word ev od (word_index a + 1) = M ((a AND NOT 3) + 4)"
      using assms(1) unfolding line_image_def next_word by blast
    have b: "unat (a AND 3) \<noteq> 0"
      using False by (simp only: and3_zero simp_thms)
    show ?thesis
      unfolding assemble_line_word_def read_word_def Let_def word nw LINE_WORDS_def mult.commute [of 8]
      by (simp only: b i simp_thms if_True if_False)
  qed
qed

section \<open>Refilling\<close>

text \<open>The geometries the code admits: whole lines of beats, and tags that tell the lines of a set apart.\<close>

definition l1_geometry_ok :: "l1_cfg \<Rightarrow> bool" where
  "l1_geometry_ok c \<longleftrightarrow> 0 < SETS c \<and> SETS c \<le> 2 ^ clog2 (SETS c) \<and> 0 < WAYS c \<and> WAYS c \<le> 256 \<and>
     PORT_WORDS c \<in> {1, 2, 4, 8} \<and> 2 ^ 27 \<le> SETS c * 2 ^ TAG_BITS c"

lemma refill_fold:
  assumes "\<forall>k \<in> set ks. f k < 8"
  shows "(case fold (\<lambda>k (ev, od). let w = f k in if w < LINE_WORDS then (put_half_at w (d ! k) ev, put_half_at w (drop_bit 16 (d ! k)) od)
            else (ev, od)) ks (ev, od) of (ev', od') \<Rightarrow> line_word ev' od' j) =
    (case rev (filter (\<lambda>k. f k = j) ks) of [] \<Rightarrow> line_word ev od j | k # _ \<Rightarrow> d ! k)"
  using assms
proof (induction ks arbitrary: ev od)
  case (Cons k ks)
  have k: "f k < 8"
    using Cons.prems by simp
  have "line_word (put_half_at (f k) (d ! k) ev) (put_half_at (f k) (drop_bit 16 (d ! k)) od) j = (if j = f k then d ! k else line_word ev od j)"
    using line_word_put [OF k] .
  then show ?case
    using Cons.IH [of "put_half_at (f k) (d ! k) ev" "put_half_at (f k) (drop_bit 16 (d ! k)) od"] Cons.prems k
    by (auto simp: LINE_WORDS_def Let_def split: list.splits)
qed simp

lemma geometry_ports:
  assumes "l1_geometry_ok c"
  obtains n where "n < 4" "PORT_WORDS c = 2 ^ n" "PORT_BYTES c = 2 ^ (n + 2)" "REFILL_BEATS c = 2 ^ (3 - n)"
proof -
  have "PORT_WORDS c \<in> {1, 2, 4, 8}"
    using assms by (simp add: l1_geometry_ok_def)
  then consider "PORT_WORDS c = 2 ^ 0" | "PORT_WORDS c = 2 ^ 1" | "PORT_WORDS c = 2 ^ 2" | "PORT_WORDS c = 2 ^ 3"
    by auto
  then show ?thesis
  proof cases
    case 1
    then show ?thesis
      using that [of 0] by (simp add: PORT_BYTES_def REFILL_BEATS_def)
  next
    case 2
    then show ?thesis
      using that [of 1] by (simp add: PORT_BYTES_def REFILL_BEATS_def)
  next
    case 3
    then show ?thesis
      using that [of 2] by (simp add: PORT_BYTES_def REFILL_BEATS_def)
  next
    case 4
    then show ?thesis
      using that [of 3] by (simp add: PORT_BYTES_def REFILL_BEATS_def)
  qed
qed

lemma beats_words: "l1_geometry_ok c \<Longrightarrow> REFILL_BEATS c * PORT_WORDS c = 8" "l1_geometry_ok c \<Longrightarrow> 0 < PORT_WORDS c"
    "l1_geometry_ok c \<Longrightarrow> REFILL_BEATS c \<le> 8"
  by (auto simp: l1_geometry_ok_def REFILL_BEATS_def PORT_BYTES_def)

lemma refill_lines_words:
  assumes c: "l1_geometry_ok c" and b: "rf_beat (refill_reg s) < REFILL_BEATS c"
  shows "line_word (fst (refill_lines_comb c i s)) (snd (refill_lines_comb c i s)) j =
    (if rf_beat (refill_reg s) * PORT_WORDS c \<le> j \<and> j < (rf_beat (refill_reg s) + 1) * PORT_WORDS c
     then mem_read_data i ! (j - rf_beat (refill_reg s) * PORT_WORDS c)
     else line_word (rf_even (refill_reg s)) (rf_odd (refill_reg s)) j)"
proof -
  define f where "f k = rf_beat (refill_reg s) * PORT_WORDS c + k" for k
  have "(rf_beat (refill_reg s) + 1) * PORT_WORDS c \<le> REFILL_BEATS c * PORT_WORDS c"
    using b by (intro mult_le_mono1) simp
  then have range: "\<forall>k \<in> set [0..<PORT_WORDS c]. f k < 8"
    using beats_words(1) [OF c] by (auto simp: f_def)
  have "filter (\<lambda>k. f k = j) [0..<m] = (if f 0 \<le> j \<and> j < f m then [j - f 0] else [])" for m
    by (induction m) (auto simp: f_def)
  then show ?thesis
    using refill_fold [OF range, where d = "mem_read_data i" and ev = "rf_even (refill_reg s)" and od = "rf_odd (refill_reg s)" and j = j]
    by (simp add: refill_lines_comb_def f_def case_prod_beta algebra_simps)
qed

section \<open>Beats of the memory\<close>

text \<open>
  What the backing memory returns for a read: the words of the beat that has the address, or the
  word itself when an unaligned access crosses the end of its beat.
\<close>

definition answers :: "l1_cfg \<Rightarrow> memory \<Rightarrow> u32 \<Rightarrow> bool \<Rightarrow> u32 list \<Rightarrow> bool" where
  "answers c M a cache_disabled data \<longleftrightarrow> length data = PORT_WORDS c \<and>
     (if direct_cross_beat c a cache_disabled then data ! 0 = read_word M a
      else \<forall>k < PORT_WORDS c. data ! k = M (beat_base c a + of_nat (4 * k)))"

lemma unat_beat_base:
  assumes "l1_geometry_ok c"
  shows "unat (beat_base c a) = PORT_BYTES c * (unat a div PORT_BYTES c)"
proof -
  obtain n where n: "n < 4" "PORT_BYTES c = 2 ^ (n + 2)"
    using geometry_ports [OF assms] by metis
  have "of_nat (2 ^ (n + 2)) - (1 :: u32) = mask (n + 2)"
    by (simp add: mask_eq_exp_minus_1)
  then show ?thesis
    unfolding beat_base_def n(2) by (simp only: unat_and_not_mask)
qed

definition beat_word :: "l1_cfg \<Rightarrow> u32 \<Rightarrow> nat" where
  "beat_word c a = unat a mod PORT_BYTES c div 4"

lemma unat_beat_word:
  assumes "l1_geometry_ok c" and "k < PORT_WORDS c"
  shows "unat (beat_base c a + of_nat (4 * k)) = PORT_BYTES c * (unat a div PORT_BYTES c) + 4 * k"
proof -
  obtain n where n: "n < 4" "PORT_BYTES c = 2 ^ (n + 2)" "PORT_WORDS c = 2 ^ n"
    using geometry_ports [OF assms(1)] by metis
  have full: "2 ^ (30 - n) * 2 ^ (n + 2) = (2 :: nat) ^ 32"
    by (simp only: power_add [symmetric]) (use n(1) in simp)
  have "unat a < 2 ^ 32"
    using unsigned_less [of a, where 'a = nat] by simp
  then have "unat a div 2 ^ (n + 2) < 2 ^ (30 - n)"
    unfolding full [symmetric] by (rule less_mult_imp_div_less)
  then have "Suc (unat a div 2 ^ (n + 2)) * 2 ^ (n + 2) \<le> 2 ^ (30 - n) * 2 ^ (n + 2)"
    by (intro mult_le_mono1) simp
  also note full
  finally have "PORT_BYTES c * (unat a div PORT_BYTES c) + 4 * k < 2 ^ 32"
    using assms(2) n(2,3) by (simp add: algebra_simps)
  then show ?thesis
    by (simp add: unat_word_ariths unat_beat_base [OF assms(1)] unat_of_nat)
qed

lemma beat_word_less: "l1_geometry_ok c \<Longrightarrow> beat_word c a < PORT_WORDS c"
  using beats_words(2) [of c] by (simp add: beat_word_def PORT_BYTES_def less_mult_imp_div_less mult.commute)

lemma aligned_beat_word:
  assumes "l1_geometry_ok c"
  shows "a AND NOT 3 = beat_base c a + of_nat (4 * beat_word c a)"
proof -
  have "4 * (unat a div 4) = PORT_BYTES c * (unat a div PORT_BYTES c) + 4 * (unat a mod PORT_BYTES c div 4)"
  proof -
    have r: "unat a mod PORT_BYTES c div 4 = unat a div 4 mod PORT_WORDS c"
      by (simp add: PORT_BYTES_def mod_mult2_eq)
    have "4 * (unat a div 4) = 4 * (PORT_WORDS c * (unat a div 4 div PORT_WORDS c) + unat a div 4 mod PORT_WORDS c)"
      by (simp only: mult_div_mod_eq)
    then show ?thesis
      unfolding r by (simp only: PORT_BYTES_def div_mult2_eq distrib_left mult.assoc)
  qed
  then show ?thesis
    by (simp only: word_unat_eq_iff unat_low unat_beat_word [OF assms beat_word_less [OF assms]]) (simp only: beat_word_def)
qed

lemma direct_data_words:
  assumes "l1_geometry_ok c" and a: "a = rq_addr (req_reg s)" and "\<not> (\<not> rq_cacheable (req_reg s) \<and> direct_cross_beat c a (rq_cache_disable (req_reg s)))"
    and words: "\<forall>k < PORT_WORDS c. mem_read_data i ! k = M (beat_base c a + of_nat (4 * k))"
    and fits: "a AND 3 = 0 \<or> beat_word c a + 1 < PORT_WORDS c"
  shows "direct_data_comb c i s = read_word M a"
proof -
  have word: "mem_read_data i ! beat_word c a = M (a AND NOT 3)"
    using words beat_word_less [OF assms(1)] unfolding aligned_beat_word [OF assms(1)] by blast
  have branch: "direct_data_comb c i s =
      (let data = drop_bit (unat (a AND 3) * 8) (mem_read_data i ! beat_word c a)
       in if unat (a AND 3) \<noteq> 0 \<and> beat_word c a + 1 < PORT_WORDS c
          then data OR push_bit (32 - unat (a AND 3) * 8) (mem_read_data i ! (beat_word c a + 1))
          else if unat (a AND 3) \<noteq> 0 then data OR push_bit (32 - unat (a AND 3) * 8) (mem_read_data i ! 0)
          else data)"
    using assms(3) unfolding direct_data_comb_def Let_def a [symmetric] request_geometry_comb_def beat_word_def
    by (simp only: l1_geometry.simps if_False simp_thms)
  show ?thesis
  proof (cases "a AND 3 = 0")
    case True
    then show ?thesis
      unfolding branch word read_word_def Let_def by simp
  next
    case False
    then have next_fits: "beat_word c a + 1 < PORT_WORDS c" and b: "unat (a AND 3) \<noteq> 0"
      using fits by (simp_all only: and3_zero simp_thms)
    have "(a AND NOT 3) + 4 = beat_base c a + of_nat (4 * (beat_word c a + 1))"
      by (simp only: aligned_beat_word [OF assms(1)]) (simp add: algebra_simps)
    then have nw: "mem_read_data i ! (beat_word c a + 1) = M ((a AND NOT 3) + 4)"
      using words next_fits by metis
    show ?thesis
      unfolding branch word nw read_word_def Let_def mult.commute [of 8] by (simp only: b next_fits simp_thms if_True if_False)
  qed
qed

lemma not_crossing: "direct_cross_beat c a d \<longleftrightarrow> \<not> d \<and> \<not> (a AND 3 = 0 \<or> beat_word c a + 1 < PORT_WORDS c)"
  by (auto simp: direct_cross_beat_def beat_word_def)

text \<open>The address of a beat of a line.\<close>

definition refill_addr :: "l1_cfg \<Rightarrow> u32 \<Rightarrow> nat \<Rightarrow> u32" where
  "refill_addr c a b = line_base a + of_nat b * of_nat (PORT_BYTES c)"

lemma refill_addr_word: "refill_addr c a b = line_base a + of_nat (4 * (b * PORT_WORDS c))"
  by (simp add: refill_addr_def PORT_BYTES_def algebra_simps)

lemma beat_in_line:
  assumes "l1_geometry_ok c" and "b < REFILL_BEATS c" and "k < PORT_WORDS c"
  shows "b * PORT_WORDS c + k < 8"
proof -
  have "(b + 1) * PORT_WORDS c \<le> REFILL_BEATS c * PORT_WORDS c"
    using assms(2) by (intro mult_le_mono1) simp
  then show ?thesis
    using assms(3) beats_words(1) [OF assms(1)] by simp
qed

lemma line_of_beats:
  assumes "l1_geometry_ok c"
  shows "PORT_BYTES c dvd 32" "0 < PORT_BYTES c"
proof -
  obtain n where n: "n < 4" "PORT_BYTES c = 2 ^ (n + 2)"
    using geometry_ports [OF assms] by metis
  have "(2 :: nat) ^ (n + 2) dvd 2 ^ 5"
    using n(1) by (intro le_imp_power_dvd) simp
  then show "PORT_BYTES c dvd 32" "0 < PORT_BYTES c"
    by (simp_all add: n(2))
qed

lemma refill_addr_beat:
  assumes c: "l1_geometry_ok c" and b: "b < REFILL_BEATS c" and k: "k < PORT_WORDS c"
  shows "beat_base c (refill_addr c a b) + of_nat (4 * k) = line_base a + of_nat (4 * (b * PORT_WORDS c + k))"
    and "\<not> direct_cross_beat c (refill_addr c a b) d"
proof -
  have "b * PORT_WORDS c < 8"
    using beat_in_line [OF c b beats_words(2) [OF c]] by simp
  then have u: "unat (refill_addr c a b) = 32 * (unat a div 32) + b * PORT_BYTES c"
    by (simp only: refill_addr_word unat_line_word) (simp add: PORT_BYTES_def)
  have d: "PORT_BYTES c dvd unat (refill_addr c a b)"
    unfolding u using line_of_beats(1) [OF c] by (intro dvd_add) (simp_all add: dvd_mult2)
  have "unat (beat_base c (refill_addr c a b) + of_nat (4 * k)) = unat (refill_addr c a b) + 4 * k"
    by (simp only: unat_beat_word [OF c k] dvd_mult_div_cancel [OF d])
  also have "\<dots> = unat (line_base a + of_nat (4 * (b * PORT_WORDS c + k)))"
    by (simp only: u unat_line_word [OF beat_in_line [OF c b k]]) (simp add: PORT_BYTES_def)
  finally show "beat_base c (refill_addr c a b) + of_nat (4 * k) = line_base a + of_nat (4 * (b * PORT_WORDS c + k))"
    by (simp only: word_unat_eq_iff)
  have "unat (refill_addr c a b) mod 4 = 0"
    using d by (simp add: PORT_BYTES_def dvd_def) auto
  then show "\<not> direct_cross_beat c (refill_addr c a b) d"
    by (simp add: not_crossing low_bits_0)
qed

lemma refill_beat_base:
  assumes "l1_geometry_ok c"
  shows "refill_addr c a (refill_beat c a) = beat_base c a" "refill_beat c a < REFILL_BEATS c"
proof -
  obtain m where m: "32 = PORT_BYTES c * m"
    using line_of_beats(1) [OF assms] by (auto simp: dvd_def)
  have pos: "0 < PORT_BYTES c"
    by (rule line_of_beats(2) [OF assms])
  have RB: "REFILL_BEATS c = m"
    using pos by (simp add: REFILL_BEATS_def m)
  have rb: "refill_beat c a = unat a div PORT_BYTES c mod m"
    by (simp add: refill_beat_def unat_low) (simp add: m mod_mult2_eq pos)
  have "0 < m"
    using m by (cases m) auto
  then show less: "refill_beat c a < REFILL_BEATS c"
    by (simp add: rb RB)
  have "refill_beat c a * PORT_WORDS c < 8"
    using beat_in_line [OF assms less beats_words(2) [OF assms]] by simp
  then have "unat (refill_addr c a (refill_beat c a)) = 32 * (unat a div 32) + refill_beat c a * PORT_BYTES c"
    by (simp only: refill_addr_word unat_line_word) (simp add: PORT_BYTES_def)
  also have "\<dots> = PORT_BYTES c * (m * (unat a div PORT_BYTES c div m) + unat a div PORT_BYTES c mod m)"
  proof -
    have e: "unat a div 32 = unat a div PORT_BYTES c div m"
      by (simp only: m div_mult2_eq)
    show ?thesis
      unfolding rb e by (subst m) (simp only: algebra_simps)
  qed
  also have "\<dots> = unat (beat_base c a)"
    by (simp only: mult_div_mod_eq unat_beat_base [OF assms])
  finally show "refill_addr c a (refill_beat c a) = beat_base c a"
    by (simp only: word_unat_eq_iff)
qed

text \<open>What a refill beat and a direct read return.\<close>

lemma refill_answer:
  assumes c: "l1_geometry_ok c" and b: "b < REFILL_BEATS c" and "answers c M (refill_addr c a b) d data"
  shows "\<forall>k < PORT_WORDS c. data ! k = M (line_base a + of_nat (4 * (b * PORT_WORDS c + k)))"
  using assms(3) refill_addr_beat [OF c b] unfolding answers_def by metis

lemma refill_beat_words:
  assumes "l1_geometry_ok c"
  shows "line_base a + of_nat (4 * (refill_beat c a * PORT_WORDS c + k)) = beat_base c a + of_nat (4 * k)"
  unfolding refill_beat_base(1) [OF assms, symmetric] refill_addr_word by (simp add: algebra_simps)

lemma direct_answer:
  assumes c: "l1_geometry_ok c" and s: "l1_state s = L1_ST_REFILL" "rq_read (req_reg s)" "\<not> rq_cacheable (req_reg s)"
    and fits: "rq_cache_disable (req_reg s) \<longrightarrow> rq_addr (req_reg s) AND 3 = 0 \<or> beat_word c (rq_addr (req_reg s)) + 1 < PORT_WORDS c"
    and ans: "answers c M (md_addr (mem_driver_comb c i s)) (rq_cache_disable (req_reg s)) (mem_read_data i)"
  shows "direct_data_comb c i s = read_word M (rq_addr (req_reg s))"
proof -
  define a where "a = rq_addr (req_reg s)"
  define d where "d = rq_cache_disable (req_reg s)"
  have addr: "md_addr (mem_driver_comb c i s) = (if DCACHE c \<and> \<not> d \<and> \<not> direct_cross_beat c a d then beat_base c a else a)"
    using s by (cases "rq_cache_disable (req_reg s)") (simp_all add: mem_driver_comb_def request_geometry_comb_def a_def d_def Let_def)
  show ?thesis
  proof (cases "direct_cross_beat c a d")
    case True
    then have "mem_read_data i ! 0 = read_word M a"
      using ans unfolding addr by (simp add: answers_def d_def)
    then show ?thesis
      using True s(3) by (simp add: direct_data_comb_def request_geometry_comb_def a_def d_def Let_def)
  next
    case False
    have base: "beat_base c (beat_base c a) = beat_base c a" "\<not> direct_cross_beat c (beat_base c a) d"
    proof -
      have u: "unat (beat_base c a) = PORT_BYTES c * (unat a div PORT_BYTES c)"
        by (rule unat_beat_base [OF c])
      show "beat_base c (beat_base c a) = beat_base c a"
        using line_of_beats(2) [OF c] by (simp add: word_unat_eq_iff unat_beat_base [OF c])
      have "unat (beat_base c a) mod 4 = 0"
        unfolding u PORT_BYTES_def by (simp add: mult.assoc)
      then show "\<not> direct_cross_beat c (beat_base c a) d"
        by (simp add: not_crossing low_bits_0)
    qed
    have words: "\<forall>k < PORT_WORDS c. mem_read_data i ! k = M (beat_base c a + of_nat (4 * k))"
      using ans False base unfolding addr by (auto simp: answers_def d_def [symmetric] split: if_splits)
    have "a AND 3 = 0 \<or> beat_word c a + 1 < PORT_WORDS c"
      using False fits by (auto simp: not_crossing a_def d_def)
    then show ?thesis
      using direct_data_words [OF c refl _ words [unfolded a_def]] False by (simp add: a_def d_def)
  qed
qed

end
