(* ===== verification/L1Coherence.thy ===== *)
theory L1Coherence
  imports L1Line
begin

text \<open>
  The invariant of the first-level cache against a memory that changes under it, by its own stores,
  by those of others, which are announced by the invalidation of a line, and with a full invalidation: every
  entry that can still match holds the line of the memory, and every stage of a request holds what
  it has got so far. The invariant makes every response the word of the memory.
\<close>

section \<open>Tag entries\<close>

lemma bit_of_field: "bit (x + 2 ^ n * y :: nat) (n + k) \<longleftrightarrow> bit y k" if "x < 2 ^ n"
  using that by (simp add: bit_iff_odd power_add div_mult2_eq)

lemma refill_tag_fields:
  fixes c s
  defines "e \<equiv> refill_tag_comb c s"
  shows "entry_tag c e = gm_tag (request_geometry_comb c s) mod 2 ^ TAG_BITS c"
    and "entry_set_epoch c e = unat (tag_set_epoch_reg s ! gm_set (request_geometry_comb c s))"
    and "entry_epoch c e = tag_epoch_reg s" and "entry_valid c e"
proof -
  let ?t = "gm_tag (request_geometry_comb c s) mod 2 ^ TAG_BITS c"
  let ?p = "unat (tag_set_epoch_reg s ! gm_set (request_geometry_comb c s))"
  have t: "?t < 2 ^ TAG_BITS c"
    by simp
  have p: "?p < 2 ^ 8"
    using unat_byte_lt by simp
  define r where "r = ?p + 2 ^ 8 * (of_bool (tag_epoch_reg s) + 2 * 1)"
  have e: "e = ?t + 2 ^ TAG_BITS c * r"
    by (simp add: e_def refill_tag_comb_def r_def)
  show "entry_tag c e = ?t"
    using t by (simp add: e entry_tag_def)
  show "entry_set_epoch c e = ?p"
  proof -
    have "e div 2 ^ TAG_BITS c = r"
      using t by (simp add: e)
    moreover have "r mod 2 ^ 8 = ?p"
      using p by (simp only: r_def mod_mult_self2 mod_less)
    ultimately show ?thesis
      by (simp only: entry_set_epoch_def)
  qed
  have "bit r (8 + k) \<longleftrightarrow> bit (of_bool (tag_epoch_reg s) + 2 * 1 :: nat) k" for k
    unfolding r_def by (rule bit_of_field [OF p])
  from this [of 0] this [of 1] have "bit r 8 \<longleftrightarrow> tag_epoch_reg s" "bit r 9"
    by (simp_all add: bit_iff_odd)
  then show "entry_epoch c e = tag_epoch_reg s" "entry_valid c e"
    unfolding entry_epoch_def entry_valid_def e by (simp_all only: bit_of_field [OF t])
qed

lemma entry_zero: "\<not> entry_valid c 0"
  by (simp add: entry_valid_def)

section \<open>Rows\<close>

text \<open>
  A row of the banks of a way: its generation is not after the present one of its set, and when an
  entry matches an address, the banks have the line of that address. \<open>te\<close> is the global generation.
\<close>

definition row_ok :: "l1_cfg \<Rightarrow> memory \<Rightarrow> bool \<Rightarrow> byte \<Rightarrow> nat \<Rightarrow> half_line \<Rightarrow> half_line \<Rightarrow> nat \<Rightarrow> bool" where
  "row_ok c M te ep si ev od e \<longleftrightarrow>
     (entry_valid c e \<and> entry_epoch c e = te \<longrightarrow> entry_set_epoch c e \<le> unat ep) \<and>
     (\<forall>a. set_index c a = si \<and> tag_matches c e (tag_value c a) te ep \<longrightarrow> line_image M (line_base a) ev od)"

lemma row_ok_zero: "row_ok c M te ep si ev od 0"
  by (simp add: row_ok_def tag_matches_def entry_zero)

text \<open>A new generation leaves no entry that matches, whatever the memory.\<close>

lemma row_ok_bump:
  assumes "row_ok c M te ep si ev od e" and "ep \<noteq> 0xFF"
  shows "row_ok c M' te (ep + 1) si ev od e"
proof -
  have "unat ep \<noteq> 255"
    using assms(2) by (simp add: word_unat_eq_iff)
  then have "unat (ep + 1) = unat ep + 1"
    using unat_byte_lt [of ep] by (simp add: unat_word_ariths)
  then show ?thesis
    using assms(1) by (auto simp: row_ok_def tag_matches_def)
qed

lemma row_ok_memory:
  assumes "row_ok c M te ep si ev od e" and "\<And>a. set_index c a = si \<Longrightarrow> same_on_line M M' a"
  shows "row_ok c M' te ep si ev od e"
  using assms line_image_same unfolding row_ok_def by blast

lemma row_ok_install:
  assumes c: "l1_geometry_ok c" and a: "gm_set (request_geometry_comb c s) = set_index c a" "gm_tag (request_geometry_comb c s) = tag_value c a"
    and "line_image M (line_base a) ev od"
  shows "row_ok c M (tag_epoch_reg s) (tag_set_epoch_reg s ! set_index c a) (set_index c a) ev od (refill_tag_comb c s)"
proof -
  have S: "0 < SETS c" and fit: "2 ^ 27 \<le> SETS c * 2 ^ TAG_BITS c"
    using c by (simp_all add: l1_geometry_ok_def)
  have small: "tag_value c b < 2 ^ TAG_BITS c" for b
  proof -
    have "unat b < 32 * SETS c * 2 ^ TAG_BITS c"
      using unsigned_less [of b, where 'a = nat] fit by simp
    then show ?thesis
      using S by (simp add: tag_value_def less_mult_imp_div_less mult.commute)
  qed
  show ?thesis
    unfolding row_ok_def tag_matches_def
  proof (intro conjI allI impI; (elim conjE)?)
    fix b
    assume "set_index c b = set_index c a" "entry_tag c (refill_tag_comb c s) = tag_value c b"
    then have "line_base b = line_base a"
      using small [of a] same_line [OF S, of b a] by (simp add: refill_tag_fields a)
    then show "line_image M (line_base b) ev od"
      using assms(4) by simp
  qed (simp add: refill_tag_fields a)
qed

section \<open>The invariant\<close>

definition l1_sizes :: "l1_cfg \<Rightarrow> l1_regs \<Rightarrow> bool" where
  "l1_sizes c s \<longleftrightarrow> length (even_ram s) = WAYS c \<and> length (odd_ram s) = WAYS c \<and> length (tag_ram s) = WAYS c \<and>
     (\<forall>way < WAYS c. length (ram_rows (even_ram s ! way)) = SETS c \<and> length (ram_rows (odd_ram s ! way)) = SETS c \<and>
        length (ram_rows (tag_ram s ! way)) = SETS c) \<and>
     length (tag_set_epoch_reg s) = SETS c \<and> init_set_reg s < SETS c"

definition rows_ok :: "l1_cfg \<Rightarrow> memory \<Rightarrow> l1_regs \<Rightarrow> bool" where
  "rows_ok c M s \<longleftrightarrow> (\<forall>way < WAYS c. \<forall>si < SETS c. (l1_state s = L1_ST_INIT \<longrightarrow> si < init_set_reg s) \<longrightarrow>
     row_ok c M (tag_epoch_reg s) (tag_set_epoch_reg s ! si) si (ram_rows (even_ram s ! way) ! si)
       (ram_rows (odd_ram s ! way) ! si) (ram_rows (tag_ram s ! way) ! si))"

definition line_ok :: "memory \<Rightarrow> l1_regs \<Rightarrow> bool" where
  "line_ok M s \<longleftrightarrow> (sl_valid (selected_line_reg s) \<longrightarrow>
     sl_addr (selected_line_reg s) = line_base (sl_addr (selected_line_reg s)) \<and>
     line_image M (sl_addr (selected_line_reg s)) (sl_even (selected_line_reg s)) (sl_odd (selected_line_reg s)))"

text \<open>A request that the cache can answer: within a line, or within a beat when the cache is disabled for it.\<close>

definition fits_beat :: "l1_cfg \<Rightarrow> u32 \<Rightarrow> bool" where
  "fits_beat c a \<longleftrightarrow> a AND 3 = 0 \<or> beat_word c a + 1 < PORT_WORDS c"

definition request_ok :: "l1_cfg \<Rightarrow> l1_request \<Rightarrow> bool" where
  "request_ok c rq \<longleftrightarrow> (rq_cacheable rq \<longrightarrow> within_line (rq_addr rq)) \<and>
     (rq_read rq \<and> rq_cache_disable rq \<longrightarrow> fits_beat c (rq_addr rq))"

text \<open>The banks' outputs belong to the request; \<open>e\<close> has the entries that were read.\<close>

definition outputs_ok :: "l1_cfg \<Rightarrow> memory \<Rightarrow> l1_regs \<Rightarrow> (nat \<Rightarrow> nat) \<Rightarrow> bool" where
  "outputs_ok c M s e \<longleftrightarrow> (let si = set_index c (rq_addr (req_reg s)) in
     \<forall>way < WAYS c. row_ok c M (tag_epoch_reg s) (tag_set_epoch_reg s ! si) si (ram_q (even_ram s ! way))
       (ram_q (odd_ram s ! way)) (e way))"

definition refill_ok :: "l1_cfg \<Rightarrow> memory \<Rightarrow> l1_regs \<Rightarrow> bool" where
  "refill_ok c M s \<longleftrightarrow> (let r = refill_reg s; a = rq_addr (req_reg s) in
     rf_beat r < REFILL_BEATS c \<and>
     (\<forall>j < rf_beat r * PORT_WORDS c. line_word (rf_even r) (rf_odd r) j = M (line_base a + of_nat (4 * j))) \<and>
     (rf_req_data_valid r \<longrightarrow> rf_req_data r = read_word M a))"

definition stage_ok :: "l1_cfg \<Rightarrow> memory \<Rightarrow> l1_regs \<Rightarrow> bool" where
  "stage_ok c M s \<longleftrightarrow> (rq_read (req_reg s) \<longrightarrow>
     (case l1_state s of
        L1_ST_LOOKUP \<Rightarrow> rq_cacheable (req_reg s) \<longrightarrow> outputs_ok c M s (\<lambda>way. ram_q (tag_ram s ! way))
      | L1_ST_COMPARE \<Rightarrow> rf_beat (refill_reg s) = 0 \<and> \<not> rf_req_data_valid (refill_reg s) \<and>
          (rq_cacheable (req_reg s) \<longrightarrow> outputs_ok c M s (\<lambda>way. tag_entries_reg s ! way))
      | L1_ST_SELECT \<Rightarrow> rf_beat (refill_reg s) = 0 \<and> \<not> rf_req_data_valid (refill_reg s) \<and>
          (lk_hit (lookup_reg s) \<longrightarrow> rq_cacheable (req_reg s) \<and> lk_way (lookup_reg s) < WAYS c \<and>
             line_image M (line_base (rq_addr (req_reg s))) (ram_q (even_ram s ! lk_way (lookup_reg s)))
               (ram_q (odd_ram s ! lk_way (lookup_reg s))))
      | L1_ST_ASSEMBLE \<Rightarrow> rq_cacheable (req_reg s) \<and>
          line_image M (line_base (rq_addr (req_reg s))) (sl_even (selected_line_reg s)) (sl_odd (selected_line_reg s))
      | L1_ST_REFILL \<Rightarrow> rq_cacheable (req_reg s) \<longrightarrow> refill_ok c M s
      | _ \<Rightarrow> True))"

definition response_ok :: "memory \<Rightarrow> l1_regs \<Rightarrow> bool" where
  "response_ok M s \<longleftrightarrow> (rs_valid (response_reg s) \<longrightarrow>
     l1_state s = L1_ST_DONE \<and> rq_read (req_reg s) \<and> rs_addr (response_reg s) = rq_addr (req_reg s) \<and>
     (within_line (rs_addr (response_reg s)) \<longrightarrow> rs_data (response_reg s) = read_word M (rs_addr (response_reg s))))"

definition l1_inv :: "l1_cfg \<Rightarrow> memory \<Rightarrow> l1_regs \<Rightarrow> bool" where
  "l1_inv c M s \<longleftrightarrow> l1_sizes c s \<and> request_ok c (req_reg s) \<and> line_ok M s \<and> response_ok M s \<and>
     (l1_state s = L1_ST_INIT \<longrightarrow> \<not> rq_read (req_reg s)) \<and> (\<not> epoch_wrap_pending_reg s \<longrightarrow> rows_ok c M s \<and> stage_ok c M s)"

text \<open>
  What the environment does in a cycle: the memory answers a read with its contents; a store comes
  when the cache is not busy and with no read; a read with the cache disabled has its word within a
  beat; a flush does not come during the clear walk; the memory changes only at the line of the
  store, at the line whose invalidation comes in, or with a full invalidation that the cache takes.
\<close>

definition l1_env :: "l1_cfg \<Rightarrow> memory \<Rightarrow> memory \<Rightarrow> l1_in \<Rightarrow> l1_regs \<Rightarrow> bool" where
  "l1_env c M M' i s \<longleftrightarrow>
     (md_read (mem_driver_comb c i s) \<and> \<not> mem_wait i \<longrightarrow>
        answers c M (md_addr (mem_driver_comb c i s)) (md_cache_disable (mem_driver_comb c i s)) (mem_read_data i)) \<and>
     (write_in i \<longrightarrow> \<not> cr_busy (cpu_response_comb c i s) \<and> \<not> read_in i) \<and>
     (read_in i \<and> cache_disable_in i \<longrightarrow> fits_beat c (addr_in i)) \<and>
     (flush_in i \<longrightarrow> l1_state s \<noteq> L1_ST_INIT) \<and>
     (\<forall>a. same_on_line M M' a \<or> write_in i \<and> line_base a = line_base (addr_in i) \<or>
        invalidate_line_in i \<and> line_base a = line_base (invalidate_addr_in i) \<or>
        invalidate_in i \<and> \<not> invalidate_conflict i s)"

text \<open>Every valid response of a state that has the invariant is the word of the memory.\<close>

lemma response_correct:
  assumes "l1_inv c M s" and "cr_valid (cpu_response_comb c i s)" and "within_line (cr_addr (cpu_response_comb c i s))"
  shows "cr_data (cpu_response_comb c i s) = read_word M (cr_addr (cpu_response_comb c i s))"
proof (cases "rs_valid (response_reg s)")
  case True
  then show ?thesis
    using assms by (simp add: cpu_response_comb_def l1_inv_def response_ok_def)
next
  case False
  then have hit: "selected_line_hit_comb c i s"
    using assms(2) by (simp add: cpu_response_comb_def)
  then have "sl_valid (selected_line_reg s)" "line_base (addr_in i) = sl_addr (selected_line_reg s)"
    by (simp_all add: selected_line_hit_comb_def)
  then have "line_image M (line_base (addr_in i)) (sl_even (selected_line_reg s)) (sl_odd (selected_line_reg s))"
    using assms(1) by (simp add: l1_inv_def line_ok_def)
  then show ?thesis
    using False hit assms(3) assemble_read_word by (simp add: cpu_response_comb_def selected_line_data_comb_def)
qed

section \<open>The parts of a cycle\<close>

lemma drop_sel:
  "l1_state (l1_drop_lines c i s n) = l1_state n" "req_reg (l1_drop_lines c i s n) = req_reg n"
  "tag_epoch_reg (l1_drop_lines c i s n) = tag_epoch_reg n" "tag_set_epoch_reg (l1_drop_lines c i s n) = tag_set_epoch_reg n"
  "epoch_wrap_pending_reg (l1_drop_lines c i s n) = epoch_wrap_pending_reg n"
  "refill_reg (l1_drop_lines c i s n) = refill_reg n" "victim_reg (l1_drop_lines c i s n) = victim_reg n"
  "init_set_reg (l1_drop_lines c i s n) = init_set_reg n" "lookup_reg (l1_drop_lines c i s n) = lookup_reg n"
  "tag_entries_reg (l1_drop_lines c i s n) = tag_entries_reg n"
  by (simp_all add: l1_drop_lines_def Let_def)

lemma drop_response:
  "rs_valid (response_reg (l1_drop_lines c i s n)) \<longleftrightarrow> rs_valid (response_reg n) \<and> \<not> write_in i"
  "rs_addr (response_reg (l1_drop_lines c i s n)) = rs_addr (response_reg n)"
  "rs_data (response_reg (l1_drop_lines c i s n)) = rs_data (response_reg n)"
  by (auto simp add: l1_drop_lines_def Let_def)

lemma drop_line:
  "sl_valid (selected_line_reg (l1_drop_lines c i s n)) \<longleftrightarrow> sl_valid (selected_line_reg n) \<and> \<not> write_in i \<and>
     \<not> invalidate_in i \<and> \<not> epoch_wrap_pending_reg s \<and>
     \<not> (invalidate_line_in i \<and> sl_valid (selected_line_reg s) \<and>
        set_index c (sl_addr (selected_line_reg s)) = set_index c (invalidate_addr_in i))"
  "sl_addr (selected_line_reg (l1_drop_lines c i s n)) = sl_addr (selected_line_reg n)"
  "sl_even (selected_line_reg (l1_drop_lines c i s n)) = sl_even (selected_line_reg n)"
  "sl_odd (selected_line_reg (l1_drop_lines c i s n)) = sl_odd (selected_line_reg n)"
  by (auto simp add: l1_drop_lines_def Let_def)

lemma rams_sel:
  "l1_state (l1_rams c i s n) = l1_state n" "req_reg (l1_rams c i s n) = req_reg n"
  "tag_epoch_reg (l1_rams c i s n) = tag_epoch_reg n" "tag_set_epoch_reg (l1_rams c i s n) = tag_set_epoch_reg n"
  "epoch_wrap_pending_reg (l1_rams c i s n) = epoch_wrap_pending_reg n"
  "refill_reg (l1_rams c i s n) = refill_reg n" "victim_reg (l1_rams c i s n) = victim_reg n"
  "init_set_reg (l1_rams c i s n) = init_set_reg n" "lookup_reg (l1_rams c i s n) = lookup_reg n"
  "tag_entries_reg (l1_rams c i s n) = tag_entries_reg n" "response_reg (l1_rams c i s n) = response_reg n"
  "selected_line_reg (l1_rams c i s n) = selected_line_reg n"
  by (simp_all add: l1_rams_def)

definition l1_before :: "l1_cfg \<Rightarrow> l1_in \<Rightarrow> l1_regs \<Rightarrow> l1_regs" where
  "l1_before c i s = l1_invalidate_line c i s (l1_prepare s s)"

definition l1_next :: "l1_cfg \<Rightarrow> l1_in \<Rightarrow> l1_regs \<Rightarrow> l1_regs" where
  "l1_next c i s = l1_rams c i s (l1_drop_lines c i s (l1_control c i s (l1_before c i s)))"

lemma l1_cycle_next: "settled r \<Longrightarrow> cur (l1_cycle c False i r) = l1_next c i (cur r)"
  by (simp add: l1_cycle_def l1_work_def l1_strobe_def settled_def l1_next_def l1_before_def Let_def)

definition wraps :: "l1_cfg \<Rightarrow> l1_in \<Rightarrow> l1_regs \<Rightarrow> bool" where
  "wraps c i s \<longleftrightarrow> invalidate_line_in i \<and> tag_set_epoch_reg s ! set_index c (invalidate_addr_in i) = 0xFF"

lemma before_sel:
  "l1_state (l1_before c i s) = l1_state s" "req_reg (l1_before c i s) = req_reg s" "victim_reg (l1_before c i s) = victim_reg s"
  "init_set_reg (l1_before c i s) = init_set_reg s" "lookup_reg (l1_before c i s) = lookup_reg s"
  "tag_entries_reg (l1_before c i s) = tag_entries_reg s" "response_reg (l1_before c i s) = response_reg s"
  "selected_line_reg (l1_before c i s) = selected_line_reg s"
  "tag_epoch_reg (l1_before c i s) = (if wraps c i s then \<not> tag_epoch_reg s else tag_epoch_reg s)"
  "epoch_wrap_pending_reg (l1_before c i s) \<longleftrightarrow> wraps c i s \<or> epoch_wrap_pending_reg s"
  "tag_set_epoch_reg (l1_before c i s) = (if invalidate_line_in i
     then (tag_set_epoch_reg s)[set_index c (invalidate_addr_in i) := tag_set_epoch_reg s ! set_index c (invalidate_addr_in i) + 1]
     else tag_set_epoch_reg s)"
  "rf_beat (refill_reg (l1_before c i s)) = (if l1_state s = L1_ST_LOOKUP \<and> rq_read (req_reg s) then 0 else rf_beat (refill_reg s))"
  "rf_req_data_valid (refill_reg (l1_before c i s)) = (if l1_state s = L1_ST_LOOKUP \<and> rq_read (req_reg s) then False else rf_req_data_valid (refill_reg s))"
  "rf_even (refill_reg (l1_before c i s)) = rf_even (refill_reg s)" "rf_odd (refill_reg (l1_before c i s)) = rf_odd (refill_reg s)"
  "rf_req_data (refill_reg (l1_before c i s)) = rf_req_data (refill_reg s)"
  by (simp_all add: l1_before_def l1_invalidate_line_def l1_prepare_def wraps_def Let_def)

lemmas control_parts = l1_abort_def l1_accept_def l1_respond_def l1_last_beat_def l1_refill_step_def l1_done_step_def
  l1_idle_step_def l1_init_step_def

lemma control_keeps:
  "tag_epoch_reg (l1_control c i s n) = tag_epoch_reg n" "tag_set_epoch_reg (l1_control c i s n) = tag_set_epoch_reg n"
  "epoch_wrap_pending_reg (l1_control c i s n) \<longleftrightarrow> \<not> epoch_wrap_pending_reg s \<and> epoch_wrap_pending_reg n"
  unfolding l1_control_def Let_def by (simp_all add: control_parts Let_def)

section \<open>The banks keep the lines\<close>

lemma set_less: "l1_geometry_ok c \<Longrightarrow> set_index c a < SETS c"
  by (simp add: l1_geometry_ok_def set_index_def)

lemma set_of_line: "l1_geometry_ok c \<Longrightarrow> line_base a = line_base b \<Longrightarrow> set_index c a = set_index c b"
  using same_line [of c a b] by (simp add: l1_geometry_ok_def)

lemma driver_refill:
  assumes "l1_state s = L1_ST_REFILL" and "rq_read (req_reg s)" and "rq_cacheable (req_reg s)"
  shows "md_read (mem_driver_comb c i s)" and "md_addr (mem_driver_comb c i s) = refill_addr c (rq_addr (req_reg s)) (rf_beat (refill_reg s))"
  using assms by (simp_all add: mem_driver_comb_def Let_def refill_addr_def)

text \<open>The lines of a beat that the memory answers, together with the earlier ones.\<close>

lemma refill_progress:
  assumes c: "l1_geometry_ok c" and s: "l1_state s = L1_ST_REFILL" "rq_read (req_reg s)" "rq_cacheable (req_reg s)"
    and env: "l1_env c M M' i s" and "\<not> mem_wait i" and ok: "refill_ok c M s"
  shows "\<forall>j < (rf_beat (refill_reg s) + 1) * PORT_WORDS c.
    line_word (fst (refill_lines_comb c i s)) (snd (refill_lines_comb c i s)) j = M (line_base (rq_addr (req_reg s)) + of_nat (4 * j))"
    and "rf_beat (refill_reg s) = refill_beat c (rq_addr (req_reg s)) \<Longrightarrow> fits_beat c (rq_addr (req_reg s)) \<Longrightarrow>
      direct_data_comb c i s = read_word M (rq_addr (req_reg s))"
proof -
  define a where "a = rq_addr (req_reg s)"
  define b where "b = rf_beat (refill_reg s)"
  have b: "b < REFILL_BEATS c" and old: "\<forall>j < b * PORT_WORDS c. line_word (rf_even (refill_reg s)) (rf_odd (refill_reg s)) j = M (line_base a + of_nat (4 * j))"
    using ok by (simp_all add: refill_ok_def Let_def a_def b_def)
  have "answers c M (refill_addr c a b) (md_cache_disable (mem_driver_comb c i s)) (mem_read_data i)"
    using env assms(6) driver_refill [OF s, of c i] by (simp add: l1_env_def a_def b_def)
  note words = refill_answer [OF c b this]
  show "\<forall>j < (rf_beat (refill_reg s) + 1) * PORT_WORDS c.
    line_word (fst (refill_lines_comb c i s)) (snd (refill_lines_comb c i s)) j = M (line_base (rq_addr (req_reg s)) + of_nat (4 * j))"
  proof (intro allI impI)
    fix j
    assume j: "j < (rf_beat (refill_reg s) + 1) * PORT_WORDS c"
    show "line_word (fst (refill_lines_comb c i s)) (snd (refill_lines_comb c i s)) j = M (line_base (rq_addr (req_reg s)) + of_nat (4 * j))"
    proof (cases "b * PORT_WORDS c \<le> j")
      case True
      then have k: "j - b * PORT_WORDS c < PORT_WORDS c" "b * PORT_WORDS c + (j - b * PORT_WORDS c) = j"
        using j by (simp_all add: b_def less_diff_conv2 algebra_simps)
      have "mem_read_data i ! (j - b * PORT_WORDS c) = M (line_base a + of_nat (4 * j))"
        using words k by metis
      then show ?thesis
        using True j refill_lines_words [OF c b [unfolded b_def], of i j] by (simp add: a_def b_def)
    next
      case False
      then show ?thesis
        using old refill_lines_words [OF c b [unfolded b_def], of i j] by (simp add: a_def b_def)
    qed
  qed
  assume rb: "rf_beat (refill_reg s) = refill_beat c (rq_addr (req_reg s))" and fits: "fits_beat c (rq_addr (req_reg s))"
  have "\<forall>k < PORT_WORDS c. mem_read_data i ! k = M (beat_base c a + of_nat (4 * k))"
    using words rb refill_beat_words [OF c, of a] by (simp only: a_def b_def)
  then show "direct_data_comb c i s = read_word M (rq_addr (req_reg s))"
    using direct_data_words [OF c refl] s(3) fits by (simp add: a_def fits_beat_def)
qed

text \<open>A row that no one writes, across a change of the memory and of the generation of its set.\<close>

lemma row_step:
  assumes row: "row_ok c M (tag_epoch_reg s) (tag_set_epoch_reg s ! si) si ev od e"
    and wraps: "\<not> wraps c i s" and len: "si < length (tag_set_epoch_reg s)"
    and mem: "\<And>a. set_index c a = si \<Longrightarrow> same_on_line M M' a \<or> invalidate_line_in i \<and> set_index c (invalidate_addr_in i) = si"
  shows "row_ok c M' (tag_epoch_reg (l1_before c i s)) (tag_set_epoch_reg (l1_before c i s) ! si) si ev od e"
proof (cases "invalidate_line_in i \<and> set_index c (invalidate_addr_in i) = si")
  case True
  then have "tag_set_epoch_reg s ! si \<noteq> 0xFF"
    using wraps by (auto simp: wraps_def)
  then show ?thesis
    using row_ok_bump [OF row] True wraps len by (simp add: before_sel)
next
  case False
  then have "row_ok c M' (tag_epoch_reg s) (tag_set_epoch_reg s ! si) si ev od e"
    using row_ok_memory [OF row] mem by blast
  then show ?thesis
    using False wraps by (auto simp: before_sel)
qed

lemma next_sel2:
  "tag_epoch_reg (l1_next c i s) = tag_epoch_reg (l1_before c i s)"
  "tag_set_epoch_reg (l1_next c i s) = tag_set_epoch_reg (l1_before c i s)"
  "epoch_wrap_pending_reg (l1_next c i s) \<longleftrightarrow> \<not> epoch_wrap_pending_reg s \<and> wraps c i s"
  "l1_state (l1_next c i s) = l1_state (l1_control c i s (l1_before c i s))"
  "req_reg (l1_next c i s) = req_reg (l1_control c i s (l1_before c i s))"
  "init_set_reg (l1_next c i s) = init_set_reg (l1_control c i s (l1_before c i s))"
  "refill_reg (l1_next c i s) = refill_reg (l1_control c i s (l1_before c i s))"
  "lookup_reg (l1_next c i s) = lookup_reg (l1_control c i s (l1_before c i s))"
  "tag_entries_reg (l1_next c i s) = tag_entries_reg (l1_control c i s (l1_before c i s))"
  by (auto simp: l1_next_def rams_sel drop_sel control_keeps before_sel)

lemma next_rams:
  "way < WAYS c \<Longrightarrow> even_ram (l1_next c i s) ! way = ram_cycle (install c i s way) (ram_read c i s) (data_ram_addr c i s)
     (fst (refill_lines_comb c i s)) (even_ram s ! way)"
  "way < WAYS c \<Longrightarrow> odd_ram (l1_next c i s) ! way = ram_cycle (install c i s way) (ram_read c i s) (data_ram_addr c i s)
     (snd (refill_lines_comb c i s)) (odd_ram s ! way)"
  "way < WAYS c \<Longrightarrow> tag_ram (l1_next c i s) ! way = ram_cycle (l1_state s = L1_ST_INIT \<or> install c i s way \<or> write_in i) (ram_read c i s)
     (tag_ram_addr c i s) (if l1_state s = L1_ST_REFILL then refill_tag_comb c s else 0) (tag_ram s ! way)"
  by (simp_all add: l1_next_def l1_rams_def)

lemma init_next:
  assumes "l1_geometry_ok c" and "l1_sizes c s" and "l1_state s = L1_ST_INIT" and "\<not> epoch_wrap_pending_reg s"
    and "\<not> invalidate_conflict i s" and "\<not> invalidate_in i" and "\<not> flush_in i"
  shows "if init_set_reg s = SETS c - 1 then l1_state (l1_next c i s) = L1_ST_IDLE
    else l1_state (l1_next c i s) = L1_ST_INIT \<and> init_set_reg (l1_next c i s) = init_set_reg s + 1"
  using assms by (auto simp: next_sel2 l1_control_def l1_init_step_def l1_abort_def before_sel Let_def l1_sizes_def l1_geometry_ok_def)

lemma rows_next:
  assumes c: "l1_geometry_ok c" and inv: "l1_inv c M s" and env: "l1_env c M M' i s"
    and pending: "\<not> epoch_wrap_pending_reg s" and wraps: "\<not> wraps c i s"
  shows "rows_ok c M' (l1_next c i s)"
proof (cases "invalidate_in i \<and> \<not> invalidate_conflict i s")
  case True
  then show ?thesis
    using pending by (simp add: rows_ok_def next_sel2 l1_control_def l1_abort_def)
next
  case False
  note parts = inv [unfolded l1_inv_def]
  have sizes: "l1_sizes c s" and stage: "stage_ok c M s" and rows: "rows_ok c M s"
    using parts pending by blast+
  have changed: "same_on_line M M' a \<or> write_in i \<and> set_index c (addr_in i) = set_index c a \<or>
      invalidate_line_in i \<and> set_index c (invalidate_addr_in i) = set_index c a" for a
    using env False set_of_line [OF c] unfolding l1_env_def by metis
  have busy: "write_in i \<Longrightarrow> l1_state s \<noteq> L1_ST_INIT \<and> l1_state s \<noteq> L1_ST_REFILL"
    using env by (auto simp: l1_env_def cpu_response_comb_def)
  show ?thesis
    unfolding rows_ok_def
  proof (intro allI impI)
    fix way si
    assume way: "way < WAYS c" and si: "si < SETS c"
      and clear: "l1_state (l1_next c i s) = L1_ST_INIT \<longrightarrow> si < init_set_reg (l1_next c i s)"
    have len: "si < length (tag_set_epoch_reg s)" "si < length (ram_rows (even_ram s ! way))"
        "si < length (ram_rows (odd_ram s ! way))" "si < length (ram_rows (tag_ram s ! way))"
      using sizes way si by (simp_all add: l1_sizes_def)
    let ?tagwr = "l1_state s = L1_ST_INIT \<or> install c i s way \<or> write_in i"
    show "row_ok c M' (tag_epoch_reg (l1_next c i s)) (tag_set_epoch_reg (l1_next c i s) ! si) si
        (ram_rows (even_ram (l1_next c i s) ! way) ! si) (ram_rows (odd_ram (l1_next c i s) ! way) ! si)
        (ram_rows (tag_ram (l1_next c i s) ! way) ! si)"
    proof (cases "?tagwr \<and> tag_ram_addr c i s = si")
      case written: True
      show ?thesis
      proof (cases "l1_state s = L1_ST_REFILL")
        case False
        then have "ram_rows (tag_ram (l1_next c i s) ! way) ! si = 0"
          using written len(4) by (simp add: next_rams [OF way] ram_cycle_def)
        then show ?thesis
          by (simp add: row_ok_zero)
      next
        case True
        then have inst: "install c i s way" and no_write: "\<not> write_in i"
          using written busy by auto
        define a where "a = rq_addr (req_reg s)"
        have req: "rq_read (req_reg s)" "rq_cacheable (req_reg s)" "\<not> mem_wait i" "rf_beat (refill_reg s) = REFILL_BEATS c - 1"
          using inst by (simp_all add: install_def)
        have "refill_ok c M s"
          using stage True req by (simp add: stage_ok_def)
        then have "\<forall>j < (rf_beat (refill_reg s) + 1) * PORT_WORDS c.
            line_word (fst (refill_lines_comb c i s)) (snd (refill_lines_comb c i s)) j = M (line_base a + of_nat (4 * j))"
          unfolding a_def by (rule refill_progress(1) [OF c True req(1,2) env req(3)])
        moreover have "(rf_beat (refill_reg s) + 1) * PORT_WORDS c = 8"
          using beats_words [OF c] \<open>refill_ok c M s\<close> by (simp add: req(4) refill_ok_def Let_def)
        ultimately have image: "line_image M (line_base a) (fst (refill_lines_comb c i s)) (snd (refill_lines_comb c i s))"
          by (simp add: line_image_def)
        have addr: "data_ram_addr c i s = si" "set_index c a = si"
          using written True no_write by (simp_all add: tag_ram_addr_def data_ram_addr_def request_geometry_comb_def a_def Let_def)
        have "row_ok c M (tag_epoch_reg s) (tag_set_epoch_reg s ! si) si (fst (refill_lines_comb c i s))
            (snd (refill_lines_comb c i s)) (refill_tag_comb c s)"
          using row_ok_install [OF c, of s a] image by (simp add: request_geometry_comb_def a_def [symmetric] Let_def addr(2))
        then have "row_ok c M' (tag_epoch_reg (l1_before c i s)) (tag_set_epoch_reg (l1_before c i s) ! si) si
            (fst (refill_lines_comb c i s)) (snd (refill_lines_comb c i s)) (refill_tag_comb c s)"
          by (rule row_step [OF _ wraps len(1)]) (use changed no_write in metis)
        then show ?thesis
          using written True inst len addr by (simp add: next_rams [OF way] ram_cycle_def next_sel2)
      qed
    next
      case kept: False
      have "ram_rows (tag_ram (l1_next c i s) ! way) ! si = ram_rows (tag_ram s ! way) ! si"
        using kept by (auto simp: next_rams [OF way] ram_cycle_def nth_list_update)
      moreover have "\<not> (install c i s way \<and> data_ram_addr c i s = si)"
        using kept busy by (auto simp: tag_ram_addr_def install_def split: if_splits)
      then have "ram_rows (even_ram (l1_next c i s) ! way) ! si = ram_rows (even_ram s ! way) ! si"
          "ram_rows (odd_ram (l1_next c i s) ! way) ! si = ram_rows (odd_ram s ! way) ! si"
        by (auto simp: next_rams [OF way] ram_cycle_def nth_list_update)
      moreover have "l1_state s = L1_ST_INIT \<longrightarrow> si < init_set_reg s"
      proof
        assume init: "l1_state s = L1_ST_INIT"
        then have conf: "\<not> invalidate_conflict i s"
          using parts by (simp add: invalidate_conflict_def)
        have "si \<noteq> init_set_reg s"
          using kept init by (simp add: tag_ram_addr_def)
        then show "si < init_set_reg s"
          using init_next [OF c sizes init pending conf] False conf env init clear si by (auto simp: l1_env_def split: if_splits)
      qed
      then have "row_ok c M (tag_epoch_reg s) (tag_set_epoch_reg s ! si) si (ram_rows (even_ram s ! way) ! si)
          (ram_rows (odd_ram s ! way) ! si) (ram_rows (tag_ram s ! way) ! si)"
        using rows way si by (simp add: rows_ok_def)
      then have "row_ok c M' (tag_epoch_reg (l1_before c i s)) (tag_set_epoch_reg (l1_before c i s) ! si) si
          (ram_rows (even_ram s ! way) ! si) (ram_rows (odd_ram s ! way) ! si) (ram_rows (tag_ram s ! way) ! si)"
      proof (rule row_step [OF _ wraps len(1)])
        fix a
        assume a: "set_index c a = si"
        have "\<not> (write_in i \<and> set_index c (addr_in i) = si)"
          using kept busy by (auto simp: tag_ram_addr_def input_request_comb_def input_decode_comb_def Let_def)
        then show "same_on_line M M' a \<or> invalidate_line_in i \<and> set_index c (invalidate_addr_in i) = si"
          using changed [of a] a by auto
      qed
      ultimately show ?thesis
        by (simp add: next_sel2)
    qed
  qed
qed

section \<open>Requests, lines and responses\<close>

lemma cacheable_within: "cacheable c a d \<Longrightarrow> within_line a"
proof -
  assume c: "cacheable c a d"
  have "a AND 3 = (a AND 1) OR (a AND 2)"
    by (simp add: bit.conj_disj_distrib [symmetric])
  then show "within_line a"
    using c index_less [of a] by (cases "DCACHE c") (auto simp: cacheable_def within_line_def LINE_WORDS_def)
qed

text \<open>No branch of higher priority is taken.\<close>

definition quiet_cycle :: "l1_in \<Rightarrow> l1_regs \<Rightarrow> bool" where
  "quiet_cycle i s \<longleftrightarrow> \<not> epoch_wrap_pending_reg s \<and> \<not> invalidate_conflict i s \<and> \<not> invalidate_in i \<and> \<not> flush_in i"

lemma control_quiet:
  assumes "quiet_cycle i s"
  shows "l1_state s = L1_ST_INIT \<Longrightarrow> l1_control c i s n = l1_init_step c s n"
    and "l1_state s = L1_ST_IDLE \<Longrightarrow> l1_control c i s n = l1_idle_step c i s n"
    and "l1_state s = L1_ST_DONE \<Longrightarrow> l1_control c i s n = (if stall_in i then n else l1_done_step c i s n)"
    and "l1_state s = L1_ST_LOOKUP \<Longrightarrow> rq_read (req_reg s) \<Longrightarrow> l1_control c i s n =
      n\<lparr>tag_entries_reg := map (\<lambda>way. ram_q (tag_ram s ! way)) [0..<WAYS c], l1_state := L1_ST_COMPARE\<rparr>"
    and "l1_state s = L1_ST_COMPARE \<Longrightarrow> rq_read (req_reg s) \<Longrightarrow> l1_control c i s n =
      n\<lparr>lookup_reg := lookup_comb c s, l1_state := L1_ST_SELECT\<rparr>"
    and "l1_state s = L1_ST_SELECT \<Longrightarrow> rq_read (req_reg s) \<Longrightarrow> l1_control c i s n =
      (if lk_hit (lookup_reg s) then n\<lparr>selected_line_reg := selected_line_comb c s, l1_state := L1_ST_ASSEMBLE\<rparr>
       else n\<lparr>l1_state := L1_ST_REFILL\<rparr>)"
    and "l1_state s = L1_ST_ASSEMBLE \<Longrightarrow> rq_read (req_reg s) \<Longrightarrow> l1_control c i s n = l1_respond (lookup_data_comb c s) s n"
    and "l1_state s = L1_ST_REFILL \<Longrightarrow> rq_read (req_reg s) \<Longrightarrow> l1_control c i s n = l1_refill_step c i s n"
    and "l1_state s \<notin> {L1_ST_INIT, L1_ST_IDLE, L1_ST_DONE} \<Longrightarrow> \<not> rq_read (req_reg s) \<Longrightarrow> l1_control c i s n = n"
  using assms by (simp_all add: l1_control_def quiet_cycle_def)

lemma control_loud:
  "\<not> quiet_cycle i s \<Longrightarrow> \<not> rs_valid (response_reg (l1_control c i s n)) \<and> \<not> rq_read (req_reg (l1_control c i s n)) \<and>
     rq_addr (req_reg (l1_control c i s n)) = rq_addr (req_reg n) \<and>
     (rq_cacheable (req_reg (l1_control c i s n)) \<longrightarrow> rq_cacheable (req_reg n)) \<and>
     selected_line_reg (l1_control c i s n) = selected_line_reg n \<and>
     l1_state (l1_control c i s n) \<in> {L1_ST_INIT, L1_ST_IDLE}"
  by (auto simp: l1_control_def quiet_cycle_def l1_abort_def Let_def)

lemma start_reads: "ir_start (input_request_comb c i s) \<Longrightarrow> read_in i \<and> (l1_state s = L1_ST_IDLE \<or> l1_state s = L1_ST_DONE)"
  by (auto simp: input_request_comb_def Let_def)

lemma accept_request:
  assumes "ir_start (input_request_comb c i s)" and "l1_env c M M' i s"
  shows "request_ok c (req_reg (l1_accept c i s n))"
  using assms start_reads [OF assms(1)] cacheable_within
  by (auto simp: request_ok_def l1_accept_def l1_env_def input_request_comb_def input_decode_comb_def Let_def)

lemma request_next:
  assumes inv: "l1_inv c M s" and env: "l1_env c M M' i s"
  shows "request_ok c (req_reg (l1_next c i s))"
    and "l1_state (l1_next c i s) = L1_ST_INIT \<longrightarrow> \<not> rq_read (req_reg (l1_next c i s))"
proof -
  have req: "request_ok c (req_reg s)"
    using inv by (simp add: l1_inv_def)
  let ?n = "l1_control c i s (l1_before c i s)"
  have "request_ok c (req_reg ?n) \<and> (l1_state ?n = L1_ST_INIT \<longrightarrow> \<not> rq_read (req_reg ?n))"
  proof (cases "quiet_cycle i s")
    case False
    then show ?thesis
      using control_loud [OF False, of c "l1_before c i s"] req by (auto simp: request_ok_def before_sel)
  next
    case quiet: True
    show ?thesis
    proof (cases "l1_state s \<in> {L1_ST_INIT, L1_ST_IDLE, L1_ST_DONE} \<or> rq_read (req_reg s)")
      case False
      then show ?thesis
        using req by (simp add: control_quiet [OF quiet] before_sel)
    next
      case True
      then show ?thesis
        using req accept_request [OF _ env]
        by (cases "l1_state s")
          (auto simp: control_quiet [OF quiet] l1_init_step_def l1_idle_step_def l1_done_step_def l1_abort_def before_sel
            l1_respond_def l1_refill_step_def l1_last_beat_def l1_accept_def Let_def request_ok_def)
    qed
  qed
  then show "request_ok c (req_reg (l1_next c i s))"
    and "l1_state (l1_next c i s) = L1_ST_INIT \<longrightarrow> \<not> rq_read (req_reg (l1_next c i s))"
    by (simp_all add: next_sel2)
qed

end
