(* ===== verification/L1Invariant.thy ===== *)
theory L1Invariant
  imports L1Coherence
begin

text \<open>
  Every part of the invariant of the first-level cache is kept by a cycle: the sizes of the registers
  and memories, the selected line, the stages of a request, and the held response.
\<close>

section \<open>The selected line\<close>

lemma sizes_next:
  assumes c: "l1_geometry_ok c" and sizes: "l1_sizes c s"
  shows "l1_sizes c (l1_next c i s)"
proof -
  have "init_set_reg (l1_control c i s (l1_before c i s)) < SETS c"
  proof (cases "quiet_cycle i s")
    case False
    then show ?thesis
      using c sizes by (auto simp: l1_control_def quiet_cycle_def l1_abort_def before_sel l1_sizes_def l1_geometry_ok_def Let_def)
  next
    case quiet: True
    show ?thesis
    proof (cases "l1_state s \<in> {L1_ST_INIT, L1_ST_IDLE, L1_ST_DONE} \<or> rq_read (req_reg s)")
      case False
      then show ?thesis
        using sizes by (simp add: control_quiet [OF quiet] before_sel l1_sizes_def)
    next
      case True
      then show ?thesis
        using c sizes by (cases "l1_state s")
          (auto simp: control_quiet [OF quiet] control_parts before_sel Let_def l1_sizes_def l1_geometry_ok_def)
    qed
  qed
  then have "init_set_reg (l1_next c i s) < SETS c"
    by (simp add: next_sel2)
  moreover have "length (even_ram (l1_next c i s)) = WAYS c" "length (odd_ram (l1_next c i s)) = WAYS c"
      "length (tag_ram (l1_next c i s)) = WAYS c"
    by (simp_all add: l1_next_def l1_rams_def)
  moreover have "length (tag_set_epoch_reg (l1_next c i s)) = SETS c"
    using sizes by (simp add: next_sel2 before_sel l1_sizes_def)
  ultimately show ?thesis
    using sizes by (simp add: l1_sizes_def next_rams ram_cycle_def)
qed

text \<open>The line of a request that goes on has not changed.\<close>

lemma request_line_same:
  assumes "l1_env c M M' i s" and "quiet_cycle i s" and "rq_read (req_reg s)" and "\<not> write_in i"
  shows "same_on_line M M' (rq_addr (req_reg s))"
  using assms unfolding l1_env_def quiet_cycle_def invalidate_conflict_def by blast

lemma no_write: "l1_env c M M' i s \<Longrightarrow> l1_state s \<notin> {L1_ST_IDLE, L1_ST_DONE} \<Longrightarrow> \<not> write_in i"
  by (cases "l1_state s") (auto simp: l1_env_def cpu_response_comb_def)

lemma selected_line:
  assumes "l1_state s = L1_ST_SELECT" and "lk_hit (lookup_reg s)" and "lk_way (lookup_reg s) < WAYS c"
  shows "selected_line_comb c s = \<lparr>sl_even = ram_q (even_ram s ! lk_way (lookup_reg s)), sl_odd = ram_q (odd_ram s ! lk_way (lookup_reg s)),
    sl_addr = line_base (rq_addr (req_reg s)), sl_valid = True\<rparr>"
proof -
  let ?f = "\<lambda>i line. if lk_way (lookup_reg s) = i
      then \<lparr>sl_even = ram_q (even_ram s ! i), sl_odd = ram_q (odd_ram s ! i),
            sl_addr = line_base (rq_addr (req_reg s)), sl_valid = True\<rparr> else line"
  have "fold ?f [0..<m] z = (if lk_way (lookup_reg s) < m then ?f (lk_way (lookup_reg s)) z else z)" for m z
    by (induction m) auto
  then show ?thesis
    using assms by (simp add: selected_line_comb_def)
qed

text \<open>The last beat of a line completes its image.\<close>

lemma refill_complete:
  assumes c: "l1_geometry_ok c" and s: "l1_state s = L1_ST_REFILL" "rq_read (req_reg s)" "rq_cacheable (req_reg s)"
    and env: "l1_env c M M' i s" and "\<not> mem_wait i" and ok: "refill_ok c M s" and b: "rf_beat (refill_reg s) = REFILL_BEATS c - 1"
  shows "line_image M (line_base (rq_addr (req_reg s))) (fst (refill_lines_comb c i s)) (snd (refill_lines_comb c i s))"
proof -
  have "(rf_beat (refill_reg s) + 1) * PORT_WORDS c = 8"
    using beats_words [OF c] ok by (simp add: b refill_ok_def Let_def)
  then show ?thesis
    using refill_progress(1) [OF c s env assms(6) ok] by (simp add: line_image_def)
qed

lemma line_next:
  assumes c: "l1_geometry_ok c" and inv: "l1_inv c M s" and env: "l1_env c M M' i s"
  shows "line_ok M' (l1_next c i s)"
  unfolding line_ok_def
proof (intro impI)
  let ?n = "l1_control c i s (l1_before c i s)"
  let ?l = "selected_line_reg ?n"
  assume "sl_valid (selected_line_reg (l1_next c i s))"
  then have v: "sl_valid ?l" "\<not> write_in i" "\<not> invalidate_in i" "\<not> epoch_wrap_pending_reg s"
      and drop: "\<not> (invalidate_line_in i \<and> sl_valid (selected_line_reg s) \<and>
        set_index c (sl_addr (selected_line_reg s)) = set_index c (invalidate_addr_in i))"
    by (simp_all add: l1_next_def rams_sel drop_line)
  have eq: "sl_addr (selected_line_reg (l1_next c i s)) = sl_addr ?l" "sl_even (selected_line_reg (l1_next c i s)) = sl_even ?l"
      "sl_odd (selected_line_reg (l1_next c i s)) = sl_odd ?l"
    by (simp_all add: l1_next_def rams_sel drop_line)
  have stage: "stage_ok c M s" and old: "line_ok M s"
    using inv v(4) by (simp_all add: l1_inv_def)
  have kept: "sl_addr ?l = line_base (sl_addr ?l) \<and> line_image M' (sl_addr ?l) (sl_even ?l) (sl_odd ?l)" if same: "?l = selected_line_reg s"
  proof -
    have l: "sl_addr ?l = line_base (sl_addr ?l)" "line_image M (line_base (sl_addr ?l)) (sl_even ?l) (sl_odd ?l)"
      using old v(1) same by (simp_all add: line_ok_def)
    have "same_on_line M M' (sl_addr ?l)"
      using env drop v set_of_line [OF c] unfolding l1_env_def same by metis
    then show ?thesis
      using l line_image_same by metis
  qed
  have new: "sl_addr ?l = line_base (sl_addr ?l) \<and> line_image M' (sl_addr ?l) (sl_even ?l) (sl_odd ?l)"
    if "quiet_cycle i s" "rq_read (req_reg s)" "sl_addr ?l = line_base (rq_addr (req_reg s))"
      "line_image M (line_base (rq_addr (req_reg s))) (sl_even ?l) (sl_odd ?l)"
    using line_image_same [OF request_line_same [OF env that(1,2) v(2)]] that(3,4) by simp
  have "sl_addr ?l = line_base (sl_addr ?l) \<and> line_image M' (sl_addr ?l) (sl_even ?l) (sl_odd ?l)"
  proof (cases "quiet_cycle i s")
    case False
    then show ?thesis
      using kept control_loud [OF False] by (simp add: before_sel)
  next
    case quiet: True
    show ?thesis
    proof (cases "l1_state s \<in> {L1_ST_SELECT, L1_ST_REFILL} \<and> rq_read (req_reg s)")
      case False
      then have "?l = selected_line_reg s"
        by (cases "rq_read (req_reg s)"; cases "l1_state s")
          (simp_all add: control_quiet [OF quiet] control_parts before_sel Let_def)
      then show ?thesis
        by (rule kept)
    next
      case True
      have same: "?l = selected_line_reg s" if sel: "\<not> (l1_state s = L1_ST_SELECT \<and> lk_hit (lookup_reg s))"
        and ref: "\<not> (l1_state s = L1_ST_REFILL \<and> rq_cacheable (req_reg s) \<and> \<not> mem_wait i \<and> rf_beat (refill_reg s) = REFILL_BEATS c - 1)"
      proof (cases "l1_state s = L1_ST_SELECT")
        case select: True
        then show ?thesis
          using sel True by (simp add: control_quiet(6) [OF quiet] before_sel)
      next
        case False
        then have refill: "l1_state s = L1_ST_REFILL"
          using True by simp
        have eq: "l1_control c i s (l1_before c i s) = l1_refill_step c i s (l1_before c i s)"
          using True by (simp only: control_quiet(8) [OF quiet refill])
        consider "mem_wait i" | "\<not> mem_wait i" "\<not> rq_cacheable (req_reg s)"
          | "\<not> mem_wait i" "rq_cacheable (req_reg s)" "rf_beat (refill_reg s) \<noteq> REFILL_BEATS c - 1"
          using ref refill by (cases "mem_wait i"; cases "rq_cacheable (req_reg s)") auto
        then show ?thesis
          unfolding eq by cases (simp_all add: l1_refill_step_def l1_respond_def before_sel Let_def)
      qed
      then consider (hit) "l1_state s = L1_ST_SELECT" "lk_hit (lookup_reg s)"
        | (last) "l1_state s = L1_ST_REFILL" "rq_cacheable (req_reg s)" "\<not> mem_wait i" "rf_beat (refill_reg s) = REFILL_BEATS c - 1"
        | (same) "?l = selected_line_reg s"
        by blast
      then show ?thesis
      proof cases
        case hit
        have way: "lk_way (lookup_reg s) < WAYS c"
            "line_image M (line_base (rq_addr (req_reg s))) (ram_q (even_ram s ! lk_way (lookup_reg s))) (ram_q (odd_ram s ! lk_way (lookup_reg s)))"
          using stage hit True by (simp_all add: stage_ok_def)
        show ?thesis
          using hit True way(2) selected_line [OF hit way(1)] by (intro new) (simp_all add: control_quiet [OF quiet] quiet)
      next
        case last
        then have "refill_ok c M s"
          using stage True by (simp add: stage_ok_def)
        then have "line_image M (line_base (rq_addr (req_reg s))) (fst (refill_lines_comb c i s)) (snd (refill_lines_comb c i s))"
          using refill_complete [OF c last(1) _ last(2) env last(3) _ last(4)] True by blast
        then show ?thesis
          using last True by (intro new) (simp_all add: control_quiet [OF quiet] quiet l1_refill_step_def l1_last_beat_def Let_def)
      next
        case same
        then show ?thesis
          by (rule kept)
      qed
    qed
  qed
  then show "sl_addr (selected_line_reg (l1_next c i s)) = line_base (sl_addr (selected_line_reg (l1_next c i s))) \<and>
    line_image M' (sl_addr (selected_line_reg (l1_next c i s))) (sl_even (selected_line_reg (l1_next c i s)))
      (sl_odd (selected_line_reg (l1_next c i s)))"
    by (simp only: eq)
qed

section \<open>The response\<close>

lemma beat_of_word:
  assumes "l1_geometry_ok c"
  shows "word_index a = refill_beat c a * PORT_WORDS c + beat_word c a"
proof -
  define w where "w = PORT_WORDS c"
  have w: "REFILL_BEATS c * w = 8" "0 < w"
    using beats_words [OF assms] by (simp_all add: w_def)
  define m where "m = REFILL_BEATS c"
  have m: "8 = w * m"
    using w by (simp add: m_def mult.commute)
  have line: "32 = 4 * w * m"
    using arg_cong [OF m, of "\<lambda>x. 4 * x"] by (simp only: mult.assoc)
  have "unat a div 4 mod 8 = w * (unat a div 4 div w mod m) + unat a div 4 mod w"
    by (simp only: m(1) mod_mult2_eq)
  also have "unat a div 4 div w mod m = unat a mod 32 div (4 * w)"
    using w(2) by (simp only: line mod_mult2_eq [of _ "4 * w" m] div_mult2_eq [symmetric]) simp
  also have "unat a div 4 mod w = unat a mod (4 * w) div 4"
    by (simp add: mod_mult2_eq)
  finally show ?thesis
    by (simp add: word_index_nat refill_beat_def beat_word_def unat_low PORT_BYTES_def w_def [symmetric] mult.commute)
qed

lemma last_beat_fits:
  assumes c: "l1_geometry_ok c" and "within_line a" and "refill_beat c a = REFILL_BEATS c - 1"
  shows "fits_beat c a"
proof -
  have "(REFILL_BEATS c - 1) * PORT_WORDS c + PORT_WORDS c = 8"
    using beats_words(1) [OF c] by (cases "REFILL_BEATS c") (simp_all add: add.commute)
  then show ?thesis
    using beat_of_word [OF c, of a] assms(2,3) by (auto simp: within_line_def fits_beat_def)
qed

lemma last_beat_data:
  assumes c: "l1_geometry_ok c" and s: "l1_state s = L1_ST_REFILL" "rq_read (req_reg s)" "rq_cacheable (req_reg s)"
    and env: "l1_env c M M' i s" and wait: "\<not> mem_wait i" and ok: "refill_ok c M s" and b: "rf_beat (refill_reg s) = REFILL_BEATS c - 1"
    and within: "within_line (rq_addr (req_reg s))"
  shows "(if rf_beat (refill_reg s) = gm_refill_beat (request_geometry_comb c s) then direct_data_comb c i s
     else if rf_req_data_valid (refill_reg s) then rf_req_data (refill_reg s) else refill_data_comb c i s) = read_word M (rq_addr (req_reg s))"
proof -
  have g: "gm_refill_beat (request_geometry_comb c s) = refill_beat c (rq_addr (req_reg s))"
      "gm_word (request_geometry_comb c s) = word_index (rq_addr (req_reg s))"
    by (simp_all add: request_geometry_comb_def Let_def)
  show ?thesis
  proof (cases "rf_beat (refill_reg s) = refill_beat c (rq_addr (req_reg s))")
    case True
    then have "fits_beat c (rq_addr (req_reg s))"
      using last_beat_fits [OF c within] b by simp
    then show ?thesis
      using refill_progress(2) [OF c s env wait ok True] True by (simp add: g)
  next
    case False
    have "refill_data_comb c i s = read_word M (rq_addr (req_reg s))"
      using assemble_read_word [OF refill_complete [OF c s env wait ok b] within]
      by (simp add: refill_data_comb_def g case_prod_beta)
    then show ?thesis
      using False ok by (simp add: g refill_ok_def Let_def)
  qed
qed

lemma uncached_data:
  assumes c: "l1_geometry_ok c" and s: "l1_state s = L1_ST_REFILL" "rq_read (req_reg s)" "\<not> rq_cacheable (req_reg s)"
    and env: "l1_env c M M' i s" and wait: "\<not> mem_wait i" and req: "request_ok c (req_reg s)"
  shows "direct_data_comb c i s = read_word M (rq_addr (req_reg s))"
proof -
  have "\<not> write_in i"
    using no_write [OF env] s by simp
  then have "md_read (mem_driver_comb c i s)" "md_cache_disable (mem_driver_comb c i s) = rq_cache_disable (req_reg s)"
    using s by (simp_all add: mem_driver_comb_def Let_def)
  then have "answers c M (md_addr (mem_driver_comb c i s)) (rq_cache_disable (req_reg s)) (mem_read_data i)"
    using env wait by (simp add: l1_env_def)
  moreover have "rq_cache_disable (req_reg s) \<longrightarrow> rq_addr (req_reg s) AND 3 = 0 \<or> beat_word c (rq_addr (req_reg s)) + 1 < PORT_WORDS c"
    using req s(2) by (simp add: request_ok_def fits_beat_def)
  ultimately show ?thesis
    by (intro direct_answer [OF c s])
qed

text \<open>The response of a request whose data are the word of the memory.\<close>

lemma response_of:
  assumes env: "l1_env c M M' i s" and quiet: "quiet_cycle i s" and s: "rq_read (req_reg s)" "l1_state s \<notin> {L1_ST_IDLE, L1_ST_DONE}"
    and n: "l1_state n = L1_ST_DONE" "req_reg n = req_reg s" "response_reg n = \<lparr>rs_addr = rq_addr (req_reg s), rs_data = data, rs_valid = True\<rparr>"
    and data: "within_line (rq_addr (req_reg s)) \<Longrightarrow> data = read_word M (rq_addr (req_reg s))"
  shows "response_ok M' n"
  using data read_word_same [OF request_line_same [OF env quiet s(1) no_write [OF env s(2)]]] s(1) n
  by (simp add: response_ok_def)

lemma response_control:
  assumes c: "l1_geometry_ok c" and inv: "l1_inv c M s" and env: "l1_env c M M' i s" and still: "\<not> write_in i"
    and quiet: "quiet_cycle i s"
  shows "response_ok M' (l1_control c i s (l1_before c i s))"
proof -
  let ?n = "l1_control c i s (l1_before c i s)"
  have stage: "stage_ok c M s" and old: "response_ok M s" and req: "request_ok c (req_reg s)"
    using inv quiet by (simp_all add: l1_inv_def quiet_cycle_def)
  have unchanged: ?thesis if "l1_state s \<noteq> L1_ST_DONE \<or> \<not> rq_read (req_reg s)" "response_reg ?n = response_reg s"
    using old that by (auto simp: response_ok_def)
  have cleared: ?thesis if "\<not> rs_valid (response_reg ?n)"
    using that by (simp add: response_ok_def)
  show ?thesis
  proof (cases "l1_state s \<in> {L1_ST_INIT, L1_ST_IDLE, L1_ST_DONE} \<or> rq_read (req_reg s)")
    case False
    then show ?thesis
      by (intro unchanged) (simp_all add: control_quiet [OF quiet] before_sel)
  next
    case True
    show ?thesis
    proof (cases "l1_state s")
      case L1_ST_INIT
      then show ?thesis
        by (intro cleared) (simp add: control_quiet [OF quiet] l1_init_step_def l1_abort_def Let_def)
    next
      case L1_ST_IDLE
      then show ?thesis
        by (intro cleared) (simp add: control_quiet [OF quiet] l1_idle_step_def l1_accept_def Let_def)
    next
      case L1_ST_DONE
      show ?thesis
      proof (cases "stall_in i \<and> rs_valid (response_reg s)")
        case True
        then have r: "rq_read (req_reg s)" "rs_addr (response_reg s) = rq_addr (req_reg s)"
            "within_line (rs_addr (response_reg s)) \<longrightarrow> rs_data (response_reg s) = read_word M (rs_addr (response_reg s))"
          using old by (simp_all add: response_ok_def)
        have eq: "?n = l1_before c i s"
          using True L1_ST_DONE by (simp add: control_quiet [OF quiet])
        show ?thesis
          unfolding eq using r L1_ST_DONE read_word_same [OF request_line_same [OF env quiet r(1) still]]
          by (simp add: response_ok_def before_sel)
      next
        case False
        then show ?thesis
          using L1_ST_DONE by (intro cleared) (auto simp: control_quiet [OF quiet] l1_done_step_def l1_accept_def before_sel Let_def)
      qed
    next
      case L1_ST_ASSEMBLE
      then have read: "rq_read (req_reg s)"
        using True by simp
      have "lookup_data_comb c s = read_word M (rq_addr (req_reg s))" if "within_line (rq_addr (req_reg s))"
        using stage read L1_ST_ASSEMBLE assemble_read_word [OF _ that]
        by (simp add: stage_ok_def lookup_data_comb_def request_geometry_comb_def Let_def)
      note data = this
      show ?thesis
        by (rule response_of [OF env quiet read _ _ _ _ data])
          (simp_all add: control_quiet [OF quiet] L1_ST_ASSEMBLE read l1_respond_def before_sel)
    next
      case L1_ST_REFILL
      then have read: "rq_read (req_reg s)"
        using True by simp
      have eq: "?n = l1_refill_step c i s (l1_before c i s)"
        by (simp only: control_quiet(8) [OF quiet L1_ST_REFILL read])
      consider (same) "mem_wait i \<or> rq_cacheable (req_reg s) \<and> rf_beat (refill_reg s) \<noteq> REFILL_BEATS c - 1"
        | (last) "\<not> mem_wait i" "rq_cacheable (req_reg s)" "rf_beat (refill_reg s) = REFILL_BEATS c - 1"
        | (direct) "\<not> mem_wait i" "\<not> rq_cacheable (req_reg s)"
        by blast
      then show ?thesis
      proof cases
        case same
        then show ?thesis
          unfolding eq using L1_ST_REFILL
          by (intro unchanged [unfolded eq]) (auto simp: l1_refill_step_def before_sel Let_def)
      next
        case last
        have "refill_ok c M s"
          using stage read L1_ST_REFILL last(2) by (simp add: stage_ok_def)
        note data = last_beat_data [OF c L1_ST_REFILL read last(2) env last(1) this last(3)]
        show ?thesis
          by (rule response_of [OF env quiet read _ _ _ _ data])
            (simp_all add: eq L1_ST_REFILL l1_refill_step_def l1_last_beat_def l1_respond_def before_sel Let_def last)
      next
        case direct
        note data = uncached_data [OF c L1_ST_REFILL read direct(2) env direct(1) req]
        show ?thesis
          by (rule response_of [OF env quiet read _ _ _ _ data])
            (simp_all add: eq L1_ST_REFILL l1_refill_step_def l1_respond_def before_sel direct)
      qed
    qed (use True in \<open>intro unchanged; simp add: control_quiet [OF quiet] before_sel\<close>)+
  qed
qed

lemma response_next:
  assumes c: "l1_geometry_ok c" and inv: "l1_inv c M s" and env: "l1_env c M M' i s"
  shows "response_ok M' (l1_next c i s)"
proof (cases "quiet_cycle i s \<and> \<not> write_in i")
  case True
  then show ?thesis
    using response_control [OF c inv env] by (auto simp: response_ok_def l1_next_def rams_sel drop_sel drop_response)
next
  case False
  then have "\<not> rs_valid (response_reg (l1_next c i s))"
    using control_loud by (auto simp: l1_next_def rams_sel drop_response)
  then show ?thesis
    by (simp add: response_ok_def)
qed

section \<open>The stages of a request\<close>

text \<open>Where the memory changes in a cycle that goes on with a request.\<close>

lemma quiet_memory:
  assumes c: "l1_geometry_ok c" and env: "l1_env c M M' i s" and quiet: "quiet_cycle i s" and "\<not> write_in i"
    and a: "set_index c a = si"
  shows "same_on_line M M' a \<or> invalidate_line_in i \<and> set_index c (invalidate_addr_in i) = si"
proof -
  have "same_on_line M M' a \<or> invalidate_line_in i \<and> line_base a = line_base (invalidate_addr_in i)"
    using env quiet assms(4) unfolding l1_env_def quiet_cycle_def by blast
  then show ?thesis
    using set_of_line [OF c, of a "invalidate_addr_in i"] a by auto
qed

lemma outputs_kept: "\<not> ram_read c i s \<Longrightarrow> way < WAYS c \<Longrightarrow> ram_q (even_ram (l1_next c i s) ! way) = ram_q (even_ram s ! way)"
  "\<not> ram_read c i s \<Longrightarrow> way < WAYS c \<Longrightarrow> ram_q (odd_ram (l1_next c i s) ! way) = ram_q (odd_ram s ! way)"
  "\<not> ram_read c i s \<Longrightarrow> way < WAYS c \<Longrightarrow> ram_q (tag_ram (l1_next c i s) ! way) = ram_q (tag_ram s ! way)"
  by (simp_all add: next_rams ram_cycle_def)

lemma reads_idle: "ram_read c i s \<Longrightarrow> l1_state s = L1_ST_IDLE \<or> l1_state s = L1_ST_DONE"
  by (auto simp: ram_read_def input_request_comb_def Let_def)

lemma accept_outputs:
  assumes c: "l1_geometry_ok c" and inv: "l1_inv c M s" and env: "l1_env c M M' i s" and quiet: "quiet_cycle i s"
    and wraps: "\<not> wraps c i s" and start: "ir_start (input_request_comb c i s)" and cch: "ir_cacheable (input_request_comb c i s)"
    and addr: "rq_addr (req_reg (l1_next c i s)) = addr_in i"
  shows "outputs_ok c M' (l1_next c i s) (\<lambda>way. ram_q (tag_ram (l1_next c i s) ! way))"
  unfolding outputs_ok_def Let_def addr
proof (intro allI impI)
  fix way
  assume way: "way < WAYS c"
  let ?si = "set_index c (addr_in i)"
  have read: "read_in i" and st: "l1_state s = L1_ST_IDLE \<or> l1_state s = L1_ST_DONE"
    using start_reads [OF start] by simp_all
  then have still: "\<not> write_in i"
    using env by (auto simp: l1_env_def)
  have rd: "ram_read c i s" and sets: "data_ram_addr c i s = ?si" "tag_ram_addr c i s = ?si"
    using start cch st still
    by (auto simp: ram_read_def data_ram_addr_def tag_ram_addr_def input_request_comb_def input_decode_comb_def Let_def)
  have "row_ok c M (tag_epoch_reg s) (tag_set_epoch_reg s ! ?si) ?si (ram_rows (even_ram s ! way) ! ?si)
      (ram_rows (odd_ram s ! way) ! ?si) (ram_rows (tag_ram s ! way) ! ?si)"
    using inv quiet way st set_less [OF c, of "addr_in i"] by (auto simp: l1_inv_def quiet_cycle_def rows_ok_def)
  then have "row_ok c M' (tag_epoch_reg (l1_before c i s)) (tag_set_epoch_reg (l1_before c i s) ! ?si) ?si (ram_rows (even_ram s ! way) ! ?si)
      (ram_rows (odd_ram s ! way) ! ?si) (ram_rows (tag_ram s ! way) ! ?si)"
    by (rule row_step [OF _ wraps _ quiet_memory [OF c env quiet still]]) (use inv set_less [OF c] in \<open>simp_all add: l1_inv_def l1_sizes_def\<close>)
  then show "row_ok c M' (tag_epoch_reg (l1_next c i s)) (tag_set_epoch_reg (l1_next c i s) ! ?si) ?si
      (ram_q (even_ram (l1_next c i s) ! way)) (ram_q (odd_ram (l1_next c i s) ! way)) (ram_q (tag_ram (l1_next c i s) ! way))"
    by (simp add: next_rams [OF way] ram_cycle_def rd sets next_sel2)
qed

text \<open>A cycle without a read of the banks keeps what was read.\<close>

lemma outputs_step:
  assumes c: "l1_geometry_ok c" and inv: "l1_inv c M s" and env: "l1_env c M M' i s" and quiet: "quiet_cycle i s"
    and wraps: "\<not> wraps c i s" and st: "l1_state s \<notin> {L1_ST_IDLE, L1_ST_DONE}" and ok: "outputs_ok c M s e"
    and n: "rq_addr (req_reg (l1_next c i s)) = rq_addr (req_reg s)" "\<And>way. way < WAYS c \<Longrightarrow> e' way = e way"
  shows "outputs_ok c M' (l1_next c i s) e'"
  unfolding outputs_ok_def Let_def n(1)
proof (intro allI impI)
  fix way
  assume way: "way < WAYS c"
  let ?si = "set_index c (rq_addr (req_reg s))"
  have still: "\<not> write_in i"
    using no_write [OF env st] .
  have idle: "\<not> ram_read c i s"
    using reads_idle [of c i s] st by auto
  have "row_ok c M (tag_epoch_reg s) (tag_set_epoch_reg s ! ?si) ?si (ram_q (even_ram s ! way)) (ram_q (odd_ram s ! way)) (e way)"
    using ok way by (simp add: outputs_ok_def Let_def)
  then have "row_ok c M' (tag_epoch_reg (l1_before c i s)) (tag_set_epoch_reg (l1_before c i s) ! ?si) ?si
      (ram_q (even_ram s ! way)) (ram_q (odd_ram s ! way)) (e way)"
    by (rule row_step [OF _ wraps _ quiet_memory [OF c env quiet still]]) (use inv set_less [OF c] in \<open>simp_all add: l1_inv_def l1_sizes_def\<close>)
  then show "row_ok c M' (tag_epoch_reg (l1_next c i s)) (tag_set_epoch_reg (l1_next c i s) ! ?si) ?si
      (ram_q (even_ram (l1_next c i s) ! way)) (ram_q (odd_ram (l1_next c i s) ! way)) (e' way)"
    by (simp add: outputs_kept [OF idle way] n(2) [OF way] next_sel2)
qed

text \<open>A way that the comparison selects has the line of the request.\<close>

lemma lookup_way:
  assumes c: "l1_geometry_ok c" and s: "l1_state s = L1_ST_COMPARE" "rq_read (req_reg s)" "rq_cacheable (req_reg s) \<longrightarrow> outputs_ok c M s (\<lambda>way. tag_entries_reg s ! way)"
    and hit: "lk_hit (lookup_comb c s)"
  shows "rq_cacheable (req_reg s)" and "lk_way (lookup_comb c s) < WAYS c"
    and "line_image M (line_base (rq_addr (req_reg s))) (ram_q (even_ram s ! lk_way (lookup_comb c s))) (ram_q (odd_ram s ! lk_way (lookup_comb c s)))"
proof -
  show cch: "rq_cacheable (req_reg s)"
    using hit by (auto simp: lookup_comb_def split: if_splits)
  let ?m = "\<lambda>k. tag_matches c (tag_entries_reg s ! k) (tag_value c (rq_addr (req_reg s))) (tag_epoch_reg s)
    (tag_set_epoch_reg s ! set_index c (rq_addr (req_reg s)))"
  let ?f = "\<lambda>k lookup. if ?m k then \<lparr>lk_hit = True, lk_way = k mod 2 ^ 8\<rparr> else lookup"
  have eq: "lookup_comb c s = fold ?f [0..<WAYS c] \<lparr>lk_hit = False, lk_way = 0\<rparr>"
    using s cch by (simp add: lookup_comb_def request_geometry_comb_def Let_def)
  have ways: "WAYS c \<le> 256"
    using c by (simp add: l1_geometry_ok_def)
  have "m \<le> 256 \<Longrightarrow> lk_hit (fold ?f [0..<m] \<lparr>lk_hit = False, lk_way = 0\<rparr>) \<Longrightarrow>
      lk_way (fold ?f [0..<m] \<lparr>lk_hit = False, lk_way = 0\<rparr>) < m \<and> ?m (lk_way (fold ?f [0..<m] \<lparr>lk_hit = False, lk_way = 0\<rparr>))" for m
    by (induction m) (auto simp: less_Suc_eq)
  from this [OF ways hit [unfolded eq]] show way: "lk_way (lookup_comb c s) < WAYS c"
    and "line_image M (line_base (rq_addr (req_reg s))) (ram_q (even_ram s ! lk_way (lookup_comb c s))) (ram_q (odd_ram s ! lk_way (lookup_comb c s)))"
    using s(3) cch unfolding eq [symmetric] outputs_ok_def row_ok_def Let_def by blast+
qed

text \<open>A beat that comes in continues the refill.\<close>

lemma refill_same:
  assumes "refill_ok c M s" and "same_on_line M M' (rq_addr (req_reg s))" and "within_line (rq_addr (req_reg s))"
    and n: "refill_reg n = refill_reg s" "rq_addr (req_reg n) = rq_addr (req_reg s)" and c: "l1_geometry_ok c"
  shows "refill_ok c M' n"
proof -
  have r: "rf_beat (refill_reg s) < REFILL_BEATS c"
      "\<forall>j < rf_beat (refill_reg s) * PORT_WORDS c. line_word (rf_even (refill_reg s)) (rf_odd (refill_reg s)) j =
        M (line_base (rq_addr (req_reg s)) + of_nat (4 * j))"
      "rf_req_data_valid (refill_reg s) \<longrightarrow> rf_req_data (refill_reg s) = read_word M (rq_addr (req_reg s))"
    using assms(1) by (simp_all add: refill_ok_def Let_def)
  have same: "M' (line_base (rq_addr (req_reg s)) + of_nat (4 * j)) = M (line_base (rq_addr (req_reg s)) + of_nat (4 * j))"
    if "j < rf_beat (refill_reg s) * PORT_WORDS c" for j
  proof -
    have "(rf_beat (refill_reg s) + 1) * PORT_WORDS c \<le> REFILL_BEATS c * PORT_WORDS c"
      using r(1) by (intro mult_le_mono1) simp
    then have "j < 8"
      using that beats_words(1) [OF c] by simp
    then show ?thesis
      using assms(2) line_base_word unfolding same_on_line_def by blast
  qed
  show ?thesis
    unfolding refill_ok_def Let_def n
    using r(1) r(2) r(3) same read_word_same [OF assms(2,3)] by metis
qed

lemma refill_next:
  assumes c: "l1_geometry_ok c" and s: "l1_state s = L1_ST_REFILL" "rq_read (req_reg s)" "rq_cacheable (req_reg s)"
    and inv: "l1_inv c M s" and env: "l1_env c M M' i s" and quiet: "quiet_cycle i s"
    and next_state: "l1_state (l1_next c i s) = L1_ST_REFILL"
  shows "refill_ok c M' (l1_next c i s)"
proof -
  let ?a = "rq_addr (req_reg s)"
  have ok: "refill_ok c M s" and within: "within_line ?a"
    using inv quiet s by (simp_all add: l1_inv_def quiet_cycle_def stage_ok_def request_ok_def)
  have same: "same_on_line M M' ?a"
    using request_line_same [OF env quiet s(2) no_write [OF env]] s(1) by simp
  have eq: "l1_control c i s (l1_before c i s) = l1_refill_step c i s (l1_before c i s)"
    by (simp only: control_quiet(8) [OF quiet s(1,2)])
  have req: "req_reg (l1_next c i s) = req_reg s"
    unfolding next_sel2 eq by (simp add: l1_refill_step_def l1_last_beat_def l1_respond_def before_sel s(3) Let_def)
  have before: "refill_reg (l1_before c i s) = refill_reg s"
    using s(1) by (simp add: l1_before_def l1_invalidate_line_def l1_prepare_def Let_def)
  show ?thesis
  proof (cases "mem_wait i")
    case True
    then have "refill_reg (l1_next c i s) = refill_reg s"
      by (simp add: next_sel2 eq l1_refill_step_def before)
    then show ?thesis
      using refill_same [OF ok same within _ _ c] req by simp
  next
    case wait: False
    have more: "rf_beat (refill_reg s) \<noteq> REFILL_BEATS c - 1"
      using next_state wait s(3) by (auto simp: next_sel2 eq l1_refill_step_def l1_last_beat_def l1_respond_def Let_def)
    define n where "n = s\<lparr>refill_reg := refill_reg (l1_next c i s)\<rparr>"
    have fields: "req_reg n = req_reg s" "refill_reg (l1_next c i s) = refill_reg n"
      by (simp_all add: n_def)
    have beat: "rf_beat (refill_reg s) < REFILL_BEATS c"
      using ok by (simp add: refill_ok_def Let_def)
    have small: "(rf_beat (refill_reg s) + 1) mod 2 ^ 8 = rf_beat (refill_reg s) + 1"
      using beat beats_words(3) [OF c] by simp
    have parts: "rf_beat (refill_reg n) = rf_beat (refill_reg s) + 1"
        "rf_even (refill_reg n) = fst (refill_lines_comb c i s)" "rf_odd (refill_reg n) = snd (refill_lines_comb c i s)"
        "rf_req_data_valid (refill_reg n) \<longrightarrow> rf_req_data_valid (refill_reg s) \<and> rf_req_data (refill_reg n) = rf_req_data (refill_reg s) \<or>
           rf_beat (refill_reg s) = refill_beat c ?a \<and> ?a AND 3 = 0 \<and> rf_req_data (refill_reg n) = direct_data_comb c i s"
      using wait s(3) more small
      by (auto simp: n_def next_sel2 eq l1_refill_step_def before request_geometry_comb_def Let_def)
    have "rf_req_data (refill_reg n) = read_word M ?a" if valid: "rf_req_data_valid (refill_reg n)"
    proof -
      consider "rf_req_data_valid (refill_reg s)" "rf_req_data (refill_reg n) = rf_req_data (refill_reg s)"
        | "rf_beat (refill_reg s) = refill_beat c ?a" "fits_beat c ?a" "rf_req_data (refill_reg n) = direct_data_comb c i s"
        using parts(4) valid unfolding fits_beat_def by blast
      then show ?thesis
      proof cases
        case 1
        then show ?thesis
          using ok by (simp add: refill_ok_def Let_def)
      next
        case 2
        then show ?thesis
          using refill_progress(2) [OF c s env wait ok] by simp
      qed
    qed
    then have "refill_ok c M n"
      using refill_progress(1) [OF c s env wait ok] parts(1-3) beat more
      by (simp add: refill_ok_def Let_def n_def)
    then show ?thesis
      by (rule refill_same) (simp_all only: fields req same within c)
  qed
qed

lemma stage_accept:
  assumes c: "l1_geometry_ok c" and inv: "l1_inv c M s" and env: "l1_env c M M' i s" and quiet: "quiet_cycle i s"
    and wraps: "\<not> wraps c i s" and start: "ir_start (input_request_comb c i s)"
    and n: "l1_control c i s (l1_before c i s) = l1_accept c i s b"
  shows "stage_ok c M' (l1_next c i s)"
proof -
  have "l1_state (l1_next c i s) = L1_ST_LOOKUP" "rq_addr (req_reg (l1_next c i s)) = addr_in i"
      "rq_cacheable (req_reg (l1_next c i s)) = ir_cacheable (input_request_comb c i s)"
    by (simp_all add: next_sel2 n l1_accept_def)
  then show ?thesis
    using accept_outputs [OF c inv env quiet wraps start] by (simp add: stage_ok_def)
qed

lemma stage_next:
  assumes c: "l1_geometry_ok c" and inv: "l1_inv c M s" and env: "l1_env c M M' i s" and wraps: "\<not> wraps c i s"
  shows "stage_ok c M' (l1_next c i s)"
proof (cases "quiet_cycle i s \<and> rq_read (req_reg (l1_next c i s))")
  case False
  then show ?thesis
    using control_loud by (auto simp: stage_ok_def next_sel2)
next
  case True
  then have quiet: "quiet_cycle i s" and go: "rq_read (req_reg (l1_next c i s))"
    by simp_all
  let ?a = "rq_addr (req_reg s)"
  have stage: "stage_ok c M s" and req: "request_ok c (req_reg s)"
    using inv quiet by (simp_all add: l1_inv_def quiet_cycle_def)
  show ?thesis
  proof (cases "l1_state s \<in> {L1_ST_INIT, L1_ST_IDLE, L1_ST_DONE}")
    case True
    then consider (init) "l1_state s = L1_ST_INIT"
      | (idle) "l1_state s = L1_ST_IDLE \<or> l1_state s = L1_ST_DONE" "\<not> (ir_start (input_request_comb c i s) \<and> (l1_state s = L1_ST_DONE \<longrightarrow> \<not> stall_in i))"
      | (accept) "l1_state s = L1_ST_IDLE \<or> l1_state s = L1_ST_DONE" "ir_start (input_request_comb c i s)" "l1_state s = L1_ST_DONE \<longrightarrow> \<not> stall_in i"
      by blast
    then show ?thesis
    proof cases
      case init
      then show ?thesis
        using go by (simp add: next_sel2 control_quiet [OF quiet] l1_init_step_def l1_abort_def Let_def split: if_splits)
    next
      case accept
      define b where "b = (l1_before c i s)\<lparr>response_reg := (response_reg s)\<lparr>rs_valid := False\<rparr>\<rparr>"
      have "l1_control c i s (l1_before c i s) = l1_accept c i s b"
        using accept by (elim disjE) (simp_all add: b_def control_quiet [OF quiet] l1_idle_step_def l1_done_step_def before_sel)
      then show ?thesis
        by (rule stage_accept [OF c inv env quiet wraps accept(2)])
    next
      case idle
      then have "l1_state (l1_next c i s) = L1_ST_IDLE \<or> l1_state (l1_next c i s) = L1_ST_DONE"
        by (elim disjE) (auto simp: next_sel2 control_quiet [OF quiet] l1_idle_step_def l1_done_step_def before_sel Let_def)
      then show ?thesis
        by (auto simp: stage_ok_def)
    qed
  next
    case busy: False
    then have still: "\<not> write_in i" and idle: "\<not> ram_read c i s"
      using no_write [OF env] reads_idle [of c i s] by auto
    have read: "rq_read (req_reg s)"
    proof (rule ccontr)
      assume "\<not> rq_read (req_reg s)"
      then show False
        using go by (simp add: next_sel2 control_quiet(9) [OF quiet busy] before_sel)
    qed
    have image: "line_image M' (line_base ?a) ev od" if "line_image M (line_base ?a) ev od" for ev od
      using line_image_same [OF request_line_same [OF env quiet read still]] that by blast
    show ?thesis
    proof (cases "l1_state s")
      case L1_ST_LOOKUP
      note n = control_quiet(4) [OF quiet L1_ST_LOOKUP read]
      have sel: "l1_state (l1_next c i s) = L1_ST_COMPARE" "req_reg (l1_next c i s) = req_reg s"
          "rf_beat (refill_reg (l1_next c i s)) = 0" "\<not> rf_req_data_valid (refill_reg (l1_next c i s))"
          "\<And>way. way < WAYS c \<Longrightarrow> tag_entries_reg (l1_next c i s) ! way = ram_q (tag_ram s ! way)"
        using L1_ST_LOOKUP read by (simp_all add: next_sel2 n before_sel)
      have "outputs_ok c M' (l1_next c i s) (\<lambda>way. tag_entries_reg (l1_next c i s) ! way)" if "rq_cacheable (req_reg s)"
      proof (rule outputs_step [OF c inv env quiet wraps])
        show "outputs_ok c M s (\<lambda>way. ram_q (tag_ram s ! way))"
          using stage read that L1_ST_LOOKUP by (simp add: stage_ok_def)
      qed (simp_all add: sel L1_ST_LOOKUP)
      then show ?thesis
        by (simp add: stage_ok_def sel)
    next
      case L1_ST_COMPARE
      note n = control_quiet(5) [OF quiet L1_ST_COMPARE read]
      have sel: "l1_state (l1_next c i s) = L1_ST_SELECT" "req_reg (l1_next c i s) = req_reg s"
          "rf_beat (refill_reg (l1_next c i s)) = rf_beat (refill_reg s)"
          "rf_req_data_valid (refill_reg (l1_next c i s)) = rf_req_data_valid (refill_reg s)"
          "lookup_reg (l1_next c i s) = lookup_comb c s"
        using L1_ST_COMPARE by (simp_all add: next_sel2 n before_sel)
      have now: "rf_beat (refill_reg s) = 0" "\<not> rf_req_data_valid (refill_reg s)"
          "rq_cacheable (req_reg s) \<longrightarrow> outputs_ok c M s (\<lambda>way. tag_entries_reg s ! way)"
        using stage read L1_ST_COMPARE by (simp_all add: stage_ok_def)
      note way = lookup_way [OF c L1_ST_COMPARE read now(3)]
      show ?thesis
        using way image now(1,2) by (simp add: stage_ok_def sel outputs_kept [OF idle])
    next
      case L1_ST_SELECT
      note n = control_quiet(6) [OF quiet L1_ST_SELECT read]
      have now: "rf_beat (refill_reg s) = 0" "\<not> rf_req_data_valid (refill_reg s)"
        using stage read L1_ST_SELECT by (simp_all add: stage_ok_def)
      show ?thesis
      proof (cases "lk_hit (lookup_reg s)")
        case True
        then have way: "rq_cacheable (req_reg s)" "lk_way (lookup_reg s) < WAYS c"
            "line_image M (line_base ?a) (ram_q (even_ram s ! lk_way (lookup_reg s))) (ram_q (odd_ram s ! lk_way (lookup_reg s)))"
          using stage read L1_ST_SELECT by (simp_all add: stage_ok_def)
        have "l1_state (l1_next c i s) = L1_ST_ASSEMBLE" "req_reg (l1_next c i s) = req_reg s"
            "sl_even (selected_line_reg (l1_next c i s)) = ram_q (even_ram s ! lk_way (lookup_reg s))"
            "sl_odd (selected_line_reg (l1_next c i s)) = ram_q (odd_ram s ! lk_way (lookup_reg s))"
          using True selected_line [OF L1_ST_SELECT True way(2)]
          by (simp_all add: n before_sel l1_next_def rams_sel drop_sel drop_line)
        then show ?thesis
          using way image by (simp add: stage_ok_def)
      next
        case False
        then have "l1_state (l1_next c i s) = L1_ST_REFILL" "rf_beat (refill_reg (l1_next c i s)) = 0"
            "\<not> rf_req_data_valid (refill_reg (l1_next c i s))"
          using now by (simp_all add: next_sel2 n before_sel)
        moreover have "0 < REFILL_BEATS c"
          using beats_words(1) [OF c] by (cases "REFILL_BEATS c") simp_all
        ultimately show ?thesis
          by (simp add: stage_ok_def refill_ok_def Let_def)
      qed
    next
      case L1_ST_ASSEMBLE
      then have "l1_state (l1_next c i s) = L1_ST_DONE"
        using read by (simp add: next_sel2 control_quiet [OF quiet] l1_respond_def)
      then show ?thesis
        by (simp add: stage_ok_def)
    next
      case L1_ST_REFILL
      note n = control_quiet(8) [OF quiet L1_ST_REFILL read]
      have "l1_state (l1_next c i s) \<in> {L1_ST_REFILL, L1_ST_DONE}" "rq_cacheable (req_reg (l1_next c i s)) = rq_cacheable (req_reg s)"
        using L1_ST_REFILL by (simp_all add: next_sel2 n before_sel l1_refill_step_def l1_last_beat_def l1_respond_def Let_def)
      then show ?thesis
        using refill_next [OF c L1_ST_REFILL read _ inv env quiet] by (auto simp: stage_ok_def)
    qed (use busy in simp_all)
  qed
qed

section \<open>A cycle keeps the invariant\<close>

lemma rows_init: "l1_state s = L1_ST_INIT \<Longrightarrow> init_set_reg s = 0 \<Longrightarrow> rows_ok c M s"
  by (simp add: rows_ok_def)

lemma l1_inv_step:
  assumes c: "l1_geometry_ok c" and inv: "l1_inv c M s" and env: "l1_env c M M' i s"
  shows "l1_inv c M' (l1_next c i s)"
proof -
  have "rows_ok c M' (l1_next c i s) \<and> stage_ok c M' (l1_next c i s)" if "\<not> epoch_wrap_pending_reg (l1_next c i s)"
  proof (cases "epoch_wrap_pending_reg s")
    case True
    then have "l1_control c i s (l1_before c i s) = (l1_abort (l1_before c i s))\<lparr>init_set_reg := 0, l1_state := L1_ST_INIT, epoch_wrap_pending_reg := False\<rparr>"
      by (simp add: l1_control_def)
    then have "l1_state (l1_next c i s) = L1_ST_INIT" "init_set_reg (l1_next c i s) = 0" "\<not> rq_read (req_reg (l1_next c i s))"
      by (simp_all add: next_sel2 l1_abort_def)
    then show ?thesis
      using rows_init by (simp add: stage_ok_def)
  next
    case False
    then have "\<not> wraps c i s"
      using that by (simp add: next_sel2)
    then show ?thesis
      using rows_next [OF c inv env False] stage_next [OF c inv env] by blast
  qed
  then show ?thesis
    using sizes_next [OF c] line_next [OF c inv env] response_next [OF c inv env] request_next [OF inv env] inv
    unfolding l1_inv_def by blast
qed

end
