(* ===== verification/L1Trace.thy ===== *)
theory L1Trace
  imports L1Invariant
begin

text \<open>
  The runs of the first-level cache from reset, and what they promise: coherent responses, an answer to every
  undisturbed request within a fixed number of cycles, and what a flush does to the clear walk, down
  to a response with an old word.
\<close>

section \<open>Runs\<close>

text \<open>The memories of the cache have a bank for each way and a row for each set.\<close>

definition l1_banks :: "l1_cfg \<Rightarrow> l1_regs \<Rightarrow> bool" where
  "l1_banks c s \<longleftrightarrow> length (even_ram s) = WAYS c \<and> length (odd_ram s) = WAYS c \<and> length (tag_ram s) = WAYS c \<and>
     list_all (\<lambda>r. length (ram_rows r) = SETS c) (even_ram s) \<and> list_all (\<lambda>r. length (ram_rows r) = SETS c) (odd_ram s) \<and>
     list_all (\<lambda>r. length (ram_rows r) = SETS c) (tag_ram s)"

text \<open>The states the cache reaches from a reset cycle, each with the memory of that cycle.\<close>

inductive l1_run :: "l1_cfg \<Rightarrow> memory \<Rightarrow> l1_regs reg \<Rightarrow> bool" for c where
  reset: "l1_banks c (cur r) \<Longrightarrow> l1_run c M (l1_cycle c True i r)"
| cycle: "l1_run c M r \<Longrightarrow> l1_env c M M' i (cur r) \<Longrightarrow> l1_run c M' (l1_cycle c False i r)"

lemma l1_cycle_settled: "settled (l1_cycle c reset i r)"
  by (simp add: l1_cycle_def l1_strobe_def settled_def reg_strobe_def)

lemma l1_run_settled: "l1_run c M r \<Longrightarrow> settled r"
  by (induction rule: l1_run.induct) (simp_all add: l1_cycle_settled)

lemma reset_inv:
  assumes "l1_geometry_ok c" and "l1_banks c s"
  shows "l1_inv c M (l1_reset c s)"
proof -
  have "l1_state (l1_reset c s) = L1_ST_INIT" "init_set_reg (l1_reset c s) = 0"
    by (simp_all add: l1_reset_def)
  then have "rows_ok c M (l1_reset c s)"
    by (rule rows_init)
  moreover have "l1_sizes c (l1_reset c s)"
    using assms by (simp add: l1_sizes_def l1_reset_def l1_banks_def l1_geometry_ok_def list_all_length)
  ultimately show ?thesis
    by (simp add: l1_inv_def l1_reset_def request_ok_def line_ok_def response_ok_def stage_ok_def)
qed

lemma l1_run_inv:
  assumes "l1_run c M r" and c: "l1_geometry_ok c"
  shows "l1_inv c M (cur r)"
  using assms(1)
proof (induction rule: l1_run.induct)
  case (reset r M i)
  then show ?case
    using reset_inv [OF c] by (simp add: l1_cycle_def l1_work_def l1_strobe_def reg_strobe_def Let_def)
next
  case (cycle M r M' i)
  then show ?case
    using l1_inv_step [OF c] by (simp add: l1_cycle_next [OF l1_run_settled])
qed

text \<open>
  C28: Coherence of the first-level cache: in every state the cache reaches from reset in the environment
  \<open>l1_env\<close>, a valid response is the word that the memory has at the response's address, whether it comes
  from the held response, from the selected line, from the banks, or from a refill, for every address
  whose word is within a line. The environment: the memory answers each accepted read with its
  contents; a store comes only when the cache is not busy and with no read; a read with the
  cache disabled has its word within a beat of the port; no flush comes while the clear walk
  runs; and the memory changes only at the line of a store, at the line of an invalidation on the inputs, or
  with a full invalidation that no invalidation of the requested line overrides. Without the
  condition on the flush the statement is false: \<open>l1_flush_in_walk_serves_stale_word\<close> below.
\<close>

theorem l1_response_correct:
  assumes "l1_geometry_ok c" and "l1_run c M r"
    and "cr_valid (cpu_response_comb c i (cur r))" and "within_line (cr_addr (cpu_response_comb c i (cur r)))"
  shows "cr_data (cpu_response_comb c i (cur r)) = read_word M (cr_addr (cpu_response_comb c i (cur r)))"
  by (rule response_correct [OF l1_run_inv [OF assms(2,1)] assms(3,4)])

text \<open>An environment that leaves the memory alone, as a condition that evaluates.\<close>

definition l1_calm :: "l1_cfg \<Rightarrow> memory \<Rightarrow> l1_in \<Rightarrow> l1_regs \<Rightarrow> bool" where
  "l1_calm c M i s \<longleftrightarrow> \<not> write_in i \<and> \<not> flush_in i \<and> \<not> cache_disable_in i \<and>
     (md_read (mem_driver_comb c i s) \<and> \<not> mem_wait i \<longrightarrow>
        answers c M (md_addr (mem_driver_comb c i s)) (md_cache_disable (mem_driver_comb c i s)) (mem_read_data i))"

lemma calm_env: "l1_calm c M i s \<Longrightarrow> l1_env c M M i s"
  by (simp add: l1_calm_def l1_env_def same_on_line_def)

primrec l1_calm_run :: "l1_cfg \<Rightarrow> memory \<Rightarrow> l1_in list \<Rightarrow> l1_regs reg \<Rightarrow> bool" where
  "l1_calm_run c M [] r \<longleftrightarrow> True"
| "l1_calm_run c M (i # is) r \<longleftrightarrow> l1_calm c M i (cur r) \<and> l1_calm_run c M is (l1_cycle c False i r)"

lemma calm_run: "l1_run c M r \<Longrightarrow> l1_calm_run c M is r \<Longrightarrow> l1_run c M (fold (l1_cycle c False) is r)"
  by (induction "is" arbitrary: r) (auto intro: l1_run.cycle calm_env)

section \<open>Answers\<close>

primrec l1_after :: "l1_cfg \<Rightarrow> (nat \<Rightarrow> l1_in) \<Rightarrow> nat \<Rightarrow> l1_regs reg \<Rightarrow> l1_regs reg" where
  "l1_after c ins 0 r = r"
| "l1_after c ins (Suc n) r = l1_cycle c False (ins n) (l1_after c ins n r)"

definition undisturbed :: "l1_in \<Rightarrow> bool" where
  "undisturbed i \<longleftrightarrow> \<not> write_in i \<and> \<not> flush_in i \<and> \<not> invalidate_in i \<and> \<not> invalidate_line_in i \<and> \<not> mem_wait i"

text \<open>A request in one of the states of its service.\<close>

definition serving :: "l1_fsm \<Rightarrow> u32 \<Rightarrow> l1_regs \<Rightarrow> bool" where
  "serving st a s \<longleftrightarrow> l1_state s = st \<and> rq_read (req_reg s) \<and> rq_addr (req_reg s) = a \<and> \<not> epoch_wrap_pending_reg s"

definition answered :: "u32 \<Rightarrow> l1_regs \<Rightarrow> bool" where
  "answered a s \<longleftrightarrow> rs_valid (response_reg s) \<and> rs_addr (response_reg s) = a \<and> \<not> epoch_wrap_pending_reg s"

lemma after_settled: "settled r \<Longrightarrow> settled (l1_after c ins n r)"
  by (cases n) (simp_all add: l1_cycle_settled)

lemma after_next: "settled r \<Longrightarrow> cur (l1_after c ins (Suc n) r) = l1_next c (ins n) (cur (l1_after c ins n r))"
  by (simp add: l1_cycle_next after_settled)

lemma undisturbed_quiet: "undisturbed i \<Longrightarrow> \<not> epoch_wrap_pending_reg s \<Longrightarrow> quiet_cycle i s"
  by (simp add: undisturbed_def quiet_cycle_def invalidate_conflict_def)

lemma undisturbed_wraps: "undisturbed i \<Longrightarrow> \<not> wraps c i s"
  by (simp add: undisturbed_def wraps_def)

lemma undisturbed_response: "undisturbed i \<Longrightarrow> response_reg (l1_next c i s) = response_reg (l1_control c i s (l1_before c i s))"
  by (simp add: undisturbed_def l1_next_def rams_sel l1_drop_lines_def Let_def)

lemma serve_accept:
  assumes "undisturbed i" and "l1_state s = L1_ST_IDLE" and "\<not> epoch_wrap_pending_reg s" and "ir_start (input_request_comb c i s)"
  shows "serving L1_ST_LOOKUP (addr_in i) (l1_next c i s)"
  using assms undisturbed_wraps
  by (simp add: serving_def next_sel2 control_quiet(2) [OF undisturbed_quiet] l1_idle_step_def l1_accept_def Let_def)

lemma serve_steps:
  assumes i: "undisturbed i"
  shows "serving L1_ST_LOOKUP a s \<Longrightarrow> serving L1_ST_COMPARE a (l1_next c i s) \<and> rf_beat (refill_reg (l1_next c i s)) = 0"
    and "serving L1_ST_COMPARE a s \<Longrightarrow> serving L1_ST_SELECT a (l1_next c i s) \<and> rf_beat (refill_reg (l1_next c i s)) = rf_beat (refill_reg s)"
    and "serving L1_ST_SELECT a s \<Longrightarrow> serving L1_ST_ASSEMBLE a (l1_next c i s) \<or>
      serving L1_ST_REFILL a (l1_next c i s) \<and> rf_beat (refill_reg (l1_next c i s)) = rf_beat (refill_reg s)"
    and "serving L1_ST_ASSEMBLE a s \<Longrightarrow> answered a (l1_next c i s)"
  using undisturbed_wraps [OF i]
  by (auto simp: serving_def answered_def next_sel2 undisturbed_response [OF i] before_sel l1_respond_def control_quiet [OF undisturbed_quiet [OF i]])

lemma serve_refill:
  assumes i: "undisturbed i" and c: "l1_geometry_ok c" and s: "serving L1_ST_REFILL a s" "rf_beat (refill_reg s) < REFILL_BEATS c"
  shows "answered a (l1_next c i s) \<or>
    serving L1_ST_REFILL a (l1_next c i s) \<and> rf_beat (refill_reg (l1_next c i s)) = rf_beat (refill_reg s) + 1 \<and>
    rf_beat (refill_reg s) + 1 < REFILL_BEATS c"
proof -
  have st: "l1_state s = L1_ST_REFILL" "rq_read (req_reg s)" "rq_addr (req_reg s) = a" "\<not> epoch_wrap_pending_reg s"
    using s(1) by (simp_all add: serving_def)
  have ready: "\<not> mem_wait i"
    using i by (simp add: undisturbed_def)
  note n = control_quiet(8) [OF undisturbed_quiet [OF i st(4)] st(1,2)]
  consider (more) "rq_cacheable (req_reg s)" "rf_beat (refill_reg s) + 1 < REFILL_BEATS c"
    | (last) "rq_cacheable (req_reg s)" "rf_beat (refill_reg s) = REFILL_BEATS c - 1"
    | (direct) "\<not> rq_cacheable (req_reg s)"
    using s(2) by linarith
  then show ?thesis
  proof cases
    case more
    then have small: "(rf_beat (refill_reg s) + 1) mod 2 ^ 8 = rf_beat (refill_reg s) + 1" "rf_beat (refill_reg s) \<noteq> REFILL_BEATS c - 1"
      using beats_words(3) [OF c] by simp_all
    show ?thesis
      using more small st ready undisturbed_wraps [OF i]
      by (intro disjI2) (simp add: serving_def next_sel2 n l1_refill_step_def before_sel Let_def)
  next
    case last
    then show ?thesis
      using st ready undisturbed_wraps [OF i]
      by (simp add: answered_def next_sel2 undisturbed_response [OF i] n l1_refill_step_def l1_last_beat_def l1_respond_def Let_def)
  next
    case direct
    then show ?thesis
      using st ready undisturbed_wraps [OF i]
      by (simp add: answered_def next_sel2 undisturbed_response [OF i] n l1_refill_step_def l1_respond_def)
  qed
qed

lemma refill_ends:
  assumes i: "\<forall>n. undisturbed (ins n)" and c: "l1_geometry_ok c" and r: "settled r"
    and "serving L1_ST_REFILL a (cur (l1_after c ins m r))" and "rf_beat (refill_reg (cur (l1_after c ins m r))) < REFILL_BEATS c"
  shows "\<exists>n \<le> m + REFILL_BEATS c - rf_beat (refill_reg (cur (l1_after c ins m r))). answered a (cur (l1_after c ins n r))"
  using assms(4,5)
proof (induction "REFILL_BEATS c - rf_beat (refill_reg (cur (l1_after c ins m r)))" arbitrary: m rule: less_induct)
  case less
  let ?s = "cur (l1_after c ins m r)"
  have "undisturbed (ins m)"
    using i by simp
  then consider "answered a (cur (l1_after c ins (Suc m) r))"
    | "serving L1_ST_REFILL a (cur (l1_after c ins (Suc m) r))" "rf_beat (refill_reg (cur (l1_after c ins (Suc m) r))) = rf_beat (refill_reg ?s) + 1"
      "rf_beat (refill_reg ?s) + 1 < REFILL_BEATS c"
    unfolding after_next [OF r] using serve_refill [OF _ c less.prems] by blast
  then show ?case
  proof cases
    case 1
    then show ?thesis
      using less.prems(2) by (intro exI [of _ "Suc m"]) auto
  next
    case 2
    then have "REFILL_BEATS c - rf_beat (refill_reg (cur (l1_after c ins (Suc m) r))) < REFILL_BEATS c - rf_beat (refill_reg ?s)"
      by simp
    from less.hyps [OF this 2(1)] show ?thesis
      using 2(2,3) by auto
  qed
qed

text \<open>
  C29: An accepted request is answered: when no store, flush or invalidation comes and the memory is
  always ready, a response with the address of the request is valid after at most four cycles and the beats of a line.
\<close>

theorem l1_request_answered:
  assumes "l1_geometry_ok c" and "settled r" and "l1_state (cur r) = L1_ST_IDLE" and "\<not> epoch_wrap_pending_reg (cur r)"
    and "\<forall>n. undisturbed (ins n)" and "ir_start (input_request_comb c (ins 0) (cur r))"
  shows "\<exists>n \<le> 4 + REFILL_BEATS c. cr_valid (cpu_response_comb c (ins n) (cur (l1_after c ins n r))) \<and>
    cr_addr (cpu_response_comb c (ins n) (cur (l1_after c ins n r))) = addr_in (ins 0)"
proof -
  let ?s = "\<lambda>n. cur (l1_after c ins n r)"
  let ?a = "addr_in (ins 0)"
  note step = after_next [OF assms(2), of c ins]
  have i: "undisturbed (ins n)" for n
    using assms(5) by simp
  have s1: "serving L1_ST_LOOKUP ?a (?s (Suc 0))"
    unfolding step using serve_accept [OF i assms(3,4,6)] by simp
  then have s2: "serving L1_ST_COMPARE ?a (?s (Suc (Suc 0)))" "rf_beat (refill_reg (?s (Suc (Suc 0)))) = 0"
    unfolding step [of "Suc 0"] using serve_steps(1) [OF i] by blast+
  then have s3: "serving L1_ST_SELECT ?a (?s (Suc (Suc (Suc 0))))" "rf_beat (refill_reg (?s (Suc (Suc (Suc 0))))) = 0"
    unfolding step [of "Suc (Suc 0)"] using serve_steps(2) [OF i] by force+
  then have s4: "serving L1_ST_ASSEMBLE ?a (?s (Suc (Suc (Suc (Suc 0))))) \<or> serving L1_ST_REFILL ?a (?s (Suc (Suc (Suc (Suc 0))))) \<and>
      rf_beat (refill_reg (?s (Suc (Suc (Suc (Suc 0)))))) = 0"
    unfolding step [of "Suc (Suc (Suc 0))"] using serve_steps(3) [OF i] by force
  have beats: "0 < REFILL_BEATS c"
    using beats_words(1) [OF assms(1)] by (cases "REFILL_BEATS c") simp_all
  have "\<exists>n \<le> 4 + REFILL_BEATS c. answered ?a (?s n)"
  proof (cases "serving L1_ST_ASSEMBLE ?a (?s (Suc (Suc (Suc (Suc 0)))))")
    case True
    then have "answered ?a (?s (Suc (Suc (Suc (Suc (Suc 0))))))"
      unfolding step [of "Suc (Suc (Suc (Suc 0)))"] using serve_steps(4) [OF i] by blast
    then show ?thesis
      using beats by (intro exI [of _ "Suc (Suc (Suc (Suc (Suc 0))))"]) simp
  next
    case False
    then have s: "serving L1_ST_REFILL ?a (?s (Suc (Suc (Suc (Suc 0)))))" "rf_beat (refill_reg (?s (Suc (Suc (Suc (Suc 0)))))) = 0"
      using s4 by simp_all
    show ?thesis
      using refill_ends [OF assms(5,1,2) s(1)] beats unfolding s(2) by (simp add: numeral_eq_Suc)
  qed
  then show ?thesis
    by (auto simp: answered_def cpu_response_comb_def)
qed

text \<open>
  C30: A flush ends the clear walk: a flush of a cycle in which the walk runs sends the controller
  to the idle state, and every tag row but the one of that cycle keeps its entry, so the rows that the walk
  has not reached are not cleared.
\<close>

theorem l1_flush_ends_clear:
  assumes "settled r" and "l1_state (cur r) = L1_ST_INIT" and "\<not> epoch_wrap_pending_reg (cur r)" and "\<not> invalidate_conflict i (cur r)"
    and "\<not> invalidate_in i" and "flush_in i" and "way < WAYS c" and "si \<noteq> init_set_reg (cur r)"
  shows "l1_state (cur (l1_cycle c False i r)) = L1_ST_IDLE \<and>
    ram_rows (tag_ram (cur (l1_cycle c False i r)) ! way) ! si = ram_rows (tag_ram (cur r) ! way) ! si"
  unfolding l1_cycle_next [OF assms(1)] next_rams(3) [OF assms(7)]
  using assms(2-6,8) by (auto simp: next_sel2 l1_control_def ram_cycle_def tag_ram_addr_def nth_list_update)

section \<open>A small cache\<close>

text \<open>Two sets, one way, and a port of a whole line; a memory whose words are their addresses.\<close>

definition small_cfg :: l1_cfg where
  "small_cfg = \<lparr>SETS = 2, WAYS = 1, DCACHE = True, ADDR_BITS = 32, PORT_WORDS = 8\<rparr>"

definition small_start :: "l1_regs reg" where
  "small_start =
     (let bank = \<lparr>ram_rows = [0, 0], ram_q = 0\<rparr>;
          s = \<lparr>l1_state = L1_ST_IDLE, req_reg = \<lparr>rq_addr = 0, rq_read = False, rq_cacheable = False, rq_cache_disable = False\<rparr>,
            tag_epoch_reg = False, epoch_wrap_pending_reg = False, tag_set_epoch_reg = [],
            refill_reg = \<lparr>rf_beat = 0, rf_even = 0, rf_odd = 0, rf_req_data = 0, rf_req_data_valid = False\<rparr>, victim_reg = 0,
            init_set_reg = 0, response_reg = \<lparr>rs_addr = 0, rs_data = 0, rs_valid = False\<rparr>, lookup_reg = \<lparr>lk_hit = False, lk_way = 0\<rparr>,
            selected_line_reg = \<lparr>sl_even = 0, sl_odd = 0, sl_addr = 0, sl_valid = False\<rparr>, tag_entries_reg = [],
            even_ram = [bank], odd_ram = [bank], tag_ram = [\<lparr>ram_rows = [0, 0], ram_q = 0\<rparr>]\<rparr>
      in l1_cycle small_cfg True \<lparr>write_in = False, write_data_in = 0, write_mask_in = 0, read_in = False, addr_in = 0, stall_in = False,
           flush_in = False, invalidate_in = False, invalidate_line_in = False, invalidate_addr_in = 0, cache_disable_in = False,
           mem_read_data = [], mem_wait = False\<rparr> \<lparr>cur = s, nxt = s\<rparr>)"

definition small_in :: "bool \<Rightarrow> u32 \<Rightarrow> l1_in" where
  "small_in read addr = \<lparr>write_in = False, write_data_in = 0, write_mask_in = 0, read_in = read, addr_in = addr, stall_in = False,
     flush_in = False, invalidate_in = False, invalidate_line_in = False, invalidate_addr_in = 0, cache_disable_in = False,
     mem_read_data = [0, 4, 8, 12, 16, 20, 24, 28], mem_wait = False\<rparr>"

definition small_ins :: "l1_in list" where
  "small_ins = [small_in False 0, small_in False 0, small_in True 4, small_in True 4, small_in True 4, small_in True 4, small_in True 4]"


lemmas small_defs = small_cfg_def small_in_def
lemmas l1_combs = set_index_def tag_value_def cacheable_def word_index_nat refill_beat_def direct_cross_beat_def request_geometry_comb_def
  input_decode_comb_def input_request_comb_def selected_line_hit_comb_def data_ram_addr_def tag_ram_addr_def install_def ram_read_def
  unat_line_base LINE_WORDS_def unat_low PORT_BYTES_def REFILL_BEATS_def
lemmas l1_parts = l1_cycle_def l1_work_def l1_strobe_def reg_strobe_def l1_rams_def l1_prepare_def l1_invalidate_line_def l1_control_def
  invalidate_conflict_def l1_drop_lines_def control_parts ram_cycle_def


lemma small_facts: "clog2 2 = 1" "replicate 2 x = [x, x]" "WAYS small_cfg = 1"
proof -
  show "clog2 2 = 1" by code_simp
qed (simp_all add: numeral_eq_Suc small_cfg_def)

lemma small_answer: "\<forall>k<8. [0, 4, 8, 12, 16, 20, 24, 28] ! k =
    beat_base \<lparr>SETS = 2, WAYS = Suc 0, DCACHE = True, ADDR_BITS = 32, PORT_WORDS = 8\<rparr> (line_base 4) + 4 * word_of_nat k"
  by code_simp

lemma small_response: "cr_valid (cpu_response_comb small_cfg (small_in True 4) (cur (fold (l1_cycle small_cfg False) small_ins small_start)))"
  by (simp add: small_ins_def small_start_def small_defs l1_parts l1_reset_def l1_combs Let_def small_facts lookup_comb_def tag_matches_def entry_zero cpu_response_comb_def)

lemma small_addr: "cr_addr (cpu_response_comb small_cfg (small_in True 4) (cur (fold (l1_cycle small_cfg False) small_ins small_start))) = 4"
  by (simp add: small_ins_def small_start_def small_defs l1_parts l1_reset_def l1_combs Let_def small_facts lookup_comb_def tag_matches_def entry_zero cpu_response_comb_def)

lemma small_run: "l1_calm_run small_cfg (\<lambda>a. a) small_ins small_start"
  by (simp add: small_ins_def small_start_def small_defs l1_parts l1_reset_def l1_combs Let_def l1_calm_def mem_driver_comb_def answers_def small_facts lookup_comb_def tag_matches_def entry_zero small_answer)

lemma small_geometry: "l1_geometry_ok small_cfg"
  by (simp add: l1_geometry_ok_def small_cfg_def TAG_BITS_def small_facts)

lemma small_reset: "l1_run small_cfg M small_start"
  unfolding small_start_def Let_def by (rule l1_run.reset) (simp add: l1_banks_def small_cfg_def)

lemma small_idle:
  "l1_state (cur (fold (l1_cycle small_cfg False) (replicate 2 (small_in False 0)) small_start)) = L1_ST_IDLE"
  "\<not> epoch_wrap_pending_reg (cur (fold (l1_cycle small_cfg False) (replicate 2 (small_in False 0)) small_start))"
  "ir_start (input_request_comb small_cfg (small_in True 4) (cur (fold (l1_cycle small_cfg False) (replicate 2 (small_in False 0)) small_start)))"
  by (simp_all add: small_start_def small_defs l1_parts l1_reset_def l1_combs Let_def small_facts)

text \<open>Two cycles of the clear walk, after which the cache is idle.\<close>

definition small_ready :: "l1_regs reg" where
  "small_ready = fold (l1_cycle small_cfg False) (replicate 2 (small_in False 0)) small_start"

lemma small_start_settled: "settled small_start"
  by (simp add: small_start_def l1_cycle_settled Let_def)

lemma small_ready_settled: "settled small_ready"
  by (simp add: small_ready_def numeral_2_eq_2 l1_cycle_settled)

theorem l1_response_correct_witness:
  "\<exists>r. l1_run small_cfg (\<lambda>a. a) r \<and> cr_addr (cpu_response_comb small_cfg (small_in True 4) (cur r)) = 4 \<and>
     cr_data (cpu_response_comb small_cfg (small_in True 4) (cur r)) = 4"
proof -
  have w: "within_line 4" "read_word (\<lambda>a. a) 4 = 4"
    by code_simp+
  show ?thesis
    by (rule exI) (use l1_response_correct [OF small_geometry calm_run [OF small_reset small_run] small_response] small_addr w
      calm_run [OF small_reset small_run] in simp)
qed

theorem l1_request_answered_witness:
  "\<exists>n \<le> 5. cr_valid (cpu_response_comb small_cfg (small_in True 4) (cur (l1_after small_cfg (\<lambda>_. small_in True 4) n small_ready))) \<and>
     cr_addr (cpu_response_comb small_cfg (small_in True 4) (cur (l1_after small_cfg (\<lambda>_. small_in True 4) n small_ready))) = 4"
proof -
  have "undisturbed (small_in True 4)" "addr_in (small_in True 4) = 4" "4 + REFILL_BEATS small_cfg = 5"
    by (simp_all add: undisturbed_def small_defs REFILL_BEATS_def PORT_BYTES_def)
  then show ?thesis
    using l1_request_answered [OF small_geometry small_ready_settled, where ins = "\<lambda>_. small_in True 4"] small_idle
    by (simp add: small_ready_def)
qed

theorem l1_flush_ends_clear_witness:
  "l1_state (cur (l1_cycle small_cfg False ((small_in False 0)\<lparr>flush_in := True\<rparr>) small_start)) = L1_ST_IDLE"
  by (rule conjunct1 [OF l1_flush_ends_clear [OF small_start_settled, where way = 0 and si = 1]])
    (simp_all add: small_start_def small_defs l1_parts l1_reset_def Let_def)

section \<open>Why a flush during the clear walk is left out\<close>

text \<open>
  A line of address 36 is filled from a memory of zeros; a full invalidation starts the clear walk
  while every word of the memory becomes 1; a flush ends the walk after its first set; and
  the next load of the address finds the line in the second set.
\<close>

definition stale_beat :: l1_in where
  "stale_beat = (small_in True 36)\<lparr>mem_read_data := [0, 0, 0, 0, 0, 0, 0, 0]\<rparr>"

definition stale_fill :: "l1_in list" where
  "stale_fill = [small_in False 0, small_in False 0, stale_beat, stale_beat, stale_beat, stale_beat, stale_beat]"

definition stale_invalidate :: l1_in where
  "stale_invalidate = (small_in False 0)\<lparr>invalidate_in := True\<rparr>"

definition stale_flush :: l1_in where
  "stale_flush = (small_in False 0)\<lparr>flush_in := True\<rparr>"

definition stale_load :: "l1_in list" where
  "stale_load = [small_in True 36, small_in True 36, small_in True 36, small_in True 36, small_in True 36]"

definition stale_walk :: "l1_regs reg" where
  "stale_walk = l1_cycle small_cfg False stale_invalidate (fold (l1_cycle small_cfg False) stale_fill small_start)"

text \<open>The state after the flush, and after the load.\<close>

definition stale_idle :: l1_regs where
  "stale_idle = \<lparr>l1_state = L1_ST_IDLE,
       req_reg = \<lparr>rq_addr = 36, rq_read = False, rq_cacheable = False, rq_cache_disable = False\<rparr>,
       tag_epoch_reg = False, epoch_wrap_pending_reg = False, tag_set_epoch_reg = [0, 0],
       refill_reg = \<lparr>rf_beat = 0, rf_even = 0, rf_odd = 0, rf_req_data = 0, rf_req_data_valid = False\<rparr>,
       victim_reg = 0, init_set_reg = 0, response_reg = \<lparr>rs_addr = 36, rs_data = 0, rs_valid = False\<rparr>,
       lookup_reg = \<lparr>lk_hit = False, lk_way = 0\<rparr>,
       selected_line_reg = \<lparr>sl_even = 0, sl_odd = 0, sl_addr = line_base 36, sl_valid = False\<rparr>,
       tag_entries_reg = [0], even_ram = [\<lparr>ram_rows = [0, 0], ram_q = 0\<rparr>],
       odd_ram = [\<lparr>ram_rows = [0, 0], ram_q = 0\<rparr>],
       tag_ram = [\<lparr>ram_rows = [0, 34359738368], ram_q = 0\<rparr>]\<rparr>"

definition stale_answer :: l1_regs where
  "stale_answer = cur (fold (l1_cycle small_cfg False) stale_load \<lparr>cur = stale_idle, nxt = stale_idle\<rparr>)"

lemma stale_zero_lines: "rf_even (refill_reg s) = 0 \<Longrightarrow> rf_odd (refill_reg s) = 0 \<Longrightarrow> mem_read_data i = [0, 0, 0, 0, 0, 0, 0, 0] \<Longrightarrow>
    refill_lines_comb \<lparr>SETS = 2, WAYS = Suc 0, DCACHE = True, ADDR_BITS = 32, PORT_WORDS = 8\<rparr> i s = (0, 0)"
proof -
  assume a: "rf_even (refill_reg s) = 0" "rf_odd (refill_reg s) = 0" and d: "mem_read_data i = [0, 0, 0, 0, 0, 0, 0, 0]"
  have z: "put_half_at k 0 0 = 0" for k
    by (simp add: put_half_at_def)
  have u: "[0..<8] = [0,1,2,3,4,5,6,7]"
    by (simp add: upt_rec)
  show ?thesis
    by (simp add: refill_lines_comb_def a d u z LINE_WORDS_def Let_def)
qed



lemma stale_zero_direct: "mem_read_data i = [0, 0, 0, 0, 0, 0, 0, 0] \<Longrightarrow>
    direct_data_comb \<lparr>SETS = 2, WAYS = Suc 0, DCACHE = True, ADDR_BITS = 32, PORT_WORDS = 8\<rparr> i s = 0"
proof -
  assume d: "mem_read_data i = [0, 0, 0, 0, 0, 0, 0, 0]"
  have z: "[0, 0, 0, 0, 0, 0, 0, 0 :: u32] ! k = 0" if "k < 8" for k
    using that by (simp add: nth_Cons' split: if_splits)
  have w: "x mod 32 div 4 < (8 :: nat)" for x
    by (simp add: div_less_iff_less_mult)
  show ?thesis
    using z [OF w] z [of 0] by (auto simp: direct_data_comb_def d Let_def PORT_BYTES_def nth_Cons')
qed

lemmas stale_eval = small_defs l1_parts l1_combs Let_def small_facts lookup_comb_def entry_zero cpu_response_comb_def mem_driver_comb_def
lemmas stale_prefix = stale_walk_def stale_fill_def stale_invalidate_def stale_flush_def stale_beat_def small_start_def l1_reset_def tag_matches_def

lemma stale_tag: "tag_matches \<lparr>SETS = 2, WAYS = Suc 0, DCACHE = True, ADDR_BITS = 32, PORT_WORDS = 8\<rparr> 34359738368 0 False 0"
  by (simp add: tag_matches_def entry_valid_def entry_epoch_def entry_set_epoch_def entry_tag_def TAG_BITS_def small_facts bit_iff_odd)

lemma stale_after_flush: "l1_cycle small_cfg False stale_flush stale_walk = \<lparr>cur = stale_idle, nxt = stale_idle\<rparr>"
proof -
  have "Q (cur (l1_cycle small_cfg False stale_flush stale_walk)) = Q stale_idle" for Q :: "l1_regs \<Rightarrow> bool"
    by (simp add: stale_idle_def stale_prefix stale_eval stale_zero_lines stale_zero_direct refill_tag_comb_def TAG_BITS_def)
  from this [of "\<lambda>x. x = stale_idle"] have "cur (l1_cycle small_cfg False stale_flush stale_walk) = stale_idle"
    by simp
  moreover have "settled (l1_cycle small_cfg False stale_flush stale_walk)"
    by (rule l1_cycle_settled)
  ultimately show ?thesis
    by (cases "l1_cycle small_cfg False stale_flush stale_walk") (simp add: settled_def)
qed

lemma stale_response:
  "cr_valid (cpu_response_comb small_cfg (small_in True 36) stale_answer)"
  "cr_addr (cpu_response_comb small_cfg (small_in True 36) stale_answer) = 36"
  "cr_data (cpu_response_comb small_cfg (small_in True 36) stale_answer) = 0"
  by (simp_all add: stale_answer_def stale_load_def stale_idle_def stale_eval stale_tag lookup_data_comb_def
      assemble_line_word_def line_word_def half_at_def selected_line_comb_def split del: if_split)

lemma stale_calm_load: "l1_calm_run small_cfg M stale_load \<lparr>cur = stale_idle, nxt = stale_idle\<rparr>"
  by (simp add: stale_load_def stale_idle_def stale_eval stale_tag l1_calm_def selected_line_comb_def split del: if_split)

lemma stale_calm_fill: "l1_calm_run small_cfg (\<lambda>_. 0) stale_fill small_start"
proof -
  have "\<forall>k<8. [0, 0, 0, 0, 0, 0, 0, 0 :: u32] ! k = 0"
    by (simp add: nth_Cons')
  then show ?thesis
    by (simp add: stale_prefix stale_eval l1_calm_def answers_def)
qed

lemma stale_before_flush:
  "l1_state (cur stale_walk) = L1_ST_INIT"
  "\<not> md_read (mem_driver_comb small_cfg stale_invalidate (cur (fold (l1_cycle small_cfg False) stale_fill small_start)))"
  by (simp_all add: stale_prefix stale_eval)

lemma stale_walk_run: "l1_run small_cfg (\<lambda>_. 1) stale_walk"
  unfolding stale_walk_def
proof (rule l1_run.cycle)
  show "l1_run small_cfg (\<lambda>_. 0) (fold (l1_cycle small_cfg False) stale_fill small_start)"
    by (rule calm_run [OF small_reset stale_calm_fill])
  show "l1_env small_cfg (\<lambda>_. 0) (\<lambda>_. 1) stale_invalidate (cur (fold (l1_cycle small_cfg False) stale_fill small_start))"
    using stale_before_flush(2)
    by (simp add: l1_env_def) (simp add: stale_invalidate_def small_in_def invalidate_conflict_def)
qed

text \<open>
  From a state that the cache reaches from reset, with the walk running, one cycle with a flush and a load
  with nothing else on the inputs give a valid response that is not the word of the memory. So
  the coherence of the cache needs the condition that no flush comes during the walk.
\<close>

theorem l1_flush_in_walk_serves_stale_word:
  "\<exists>r M. l1_run small_cfg M r \<and> l1_state (cur r) = L1_ST_INIT \<and>
     (let r' = l1_cycle small_cfg False stale_flush r;
          p = cpu_response_comb small_cfg (small_in True 36) (cur (fold (l1_cycle small_cfg False) stale_load r'))
      in l1_calm_run small_cfg M stale_load r' \<and> cr_valid p \<and> cr_addr p = 36 \<and> cr_data p \<noteq> read_word M 36)"
proof -
  have "read_word (\<lambda>_. 1) 36 = 1"
    by code_simp
  then show ?thesis
    using stale_walk_run stale_before_flush(1) stale_response stale_calm_load
    by (intro exI [of _ stale_walk] exI [of _ "\<lambda>_. 1"]) (simp add: stale_after_flush stale_answer_def)
qed

end
