(* ===== verification/Spec2Isabelle.thy ===== *)
theory Spec2Isabelle
  imports Cat Fifo Buffer GraphBinary GraphRoundtrip GraphPrune IsaStep BranchPredictor InterruptController MmuTranslation Clint L1Trace
begin

text \<open>
  A model of the parts of cpphdl that carry its own semantics, with the theorems that make them
  correct.

  The program. cpphdl describes synchronous hardware in C++. \<open>src/include\<close> holds the library a
  design is written with: byte-array operators (\<open>cpphdl_bitops.h\<close>), values of a declared width
  with write proxies for bit ranges (\<open>cpphdl_logic.h\<close>), registers with a current and a next value
  (\<open>cpphdl_reg.h\<close>) and memories whose writes are applied at the clock edge (\<open>cpphdl_memory.h\<close>).
  A design has combinational functions, a \<open>_work\<close> function that computes the next values, and a
  \<open>_strobe\<close> function that commits them. \<open>src/lib\<close> has modules written this way and
  \<open>src/tribe_cpu\<close> a pipelined RISC-V processor. \<open>cpphdl_graph.h\<close> is the netlist that a design is
  compiled to: operations build nodes, \<open>optimize\<close> simplifies and shares them, and the native backend
  (\<open>cpphdl_graph_native.h\<close>) emits a word expression for each node.

  The theories.
    \<^item> \<open>Prelude\<close>: bytes, words and little-endian numbers, sums for errors, shared lemmas.
    \<^item> \<open>Bitops\<close>, \<open>Logic\<close>, \<open>LogicBits\<close>: the byte operators, the values of a width and the write
      proxies. Numbers of byte lists give each operator its arithmetic meaning.
    \<^item> \<open>Cat\<close>: concatenations of fields (\<open>cpphdl_cat.h\<close>); the four paths of the constructor build the
      same number.
    \<^item> \<open>RegMemory\<close>, \<open>BasicMemory\<close>: registers, memories with deferred writes, and the module \<open>Memory\<close>
      of \<open>src/lib/basic/Memory.h\<close>, one definition per combinational function and one for each of
      \<open>_work\<close> and \<open>_strobe\<close>.
    \<^item> \<open>RingBuffer\<close> (the locale of a stream queue), \<open>Clog2\<close>, \<open>Fifo\<close>, \<open>Buffer\<close>: the queues of
      \<open>src/lib/basic\<close>; both interpret the locale. A cycle of \<open>Fifo\<close> is one of an abstract queue, with
      its flags and its read port; over a run the words on the ports come out in order.
    \<^item> \<open>GraphBits\<close>, \<open>GraphNode\<close>, \<open>GraphSound\<close>: values of the netlist, the constant evaluator, the
      word expression of a node, and the redirections of \<open>simplifyNode\<close>, each proved to keep the
      value of the lane it redirects.
    \<^item> \<open>Graph\<close>, \<open>GraphOptimize\<close>: the state of the class \<open>Graph\<close>, alias resolution with path
      compression, \<open>simplify\<close> and \<open>optimize\<close>. A model of a graph is a valuation of its bits in which
      every alias and every node agrees; both passes keep exactly the models.
    \<^item> \<open>GraphBuild\<close>, \<open>GraphOps\<close>, \<open>GraphOpsSound\<close>, \<open>GraphBinary\<close>: \<open>add\<close>, \<open>wire\<close>, \<open>unary\<close>, \<open>binary\<close> and \<open>mux\<close>. Building is
      total on well-formed graphs and extends them by definitions; the bits returned denote the
      operation on the numbers of the operands. Division, remainder and signed comparison have no
      form above 64 bits and are the error the source throws there.
    \<^item> \<open>TextStream\<close> (readers of a text and the locale of a record format), \<open>GraphValidate\<close>,
      \<open>GraphText\<close>, \<open>GraphRoundtrip\<close>: \<open>validateClocks\<close>, \<open>save\<close> and \<open>load\<close>. The text of a graph is loaded
      back, and what loads has passed the checks.
    \<^item> \<open>GraphPrune\<close>: \<open>connect\<close>, which adds equations, and \<open>pruneUnusedState\<close>, with runs of a graph
      over the cycles: the graph without the pruned states shows the same at every cycle.
    \<^item> \<open>SignExt\<close>, \<open>RvState\<close>, \<open>Rv32i\<close>, \<open>Rv32ic\<close>, \<open>Zicsr\<close>: the decoded state and the stacked decoders of
      \<open>src/tribe_cpu/spec\<close> (with the multiply and atomic extensions).
    \<^item> \<open>Execute\<close>, \<open>ExecUnits\<close>, \<open>Writeback\<close>: the execute stage with its divider and multiplier, whose
      loops are proved to give the architectural results, and the writeback stage.
    \<^item> \<open>Isa\<close>, \<open>IsaStep\<close>: instructions as a datatype with the meaning the manual gives them; decoding
      an encoded instruction gives its fields, and the stages together do what it means.
    \<^item> \<open>BranchPredictor\<close>, \<open>InterruptController\<close>: the two modules of the processor; the prediction is
      the one that the history of resolved branches determines, and the interrupt cause is a pending one.
    \<^item> \<open>MmuTlb\<close>, \<open>Sv32\<close>, \<open>MmuInvariant\<close>, \<open>MmuTranslation\<close>: the translation buffer with its page-table
      walker, the walk of the privileged architecture as its reference, and the proof that what the
      unit reports, in every state reached from reset, is what the walk yields.
    \<^item> \<open>NextValue\<close>, \<open>Clint\<close>: assignments to the next value of a register, and the timer and software
      interrupts behind an AXI slave: the timer runs on time and registers read back what is written.
    \<^item> \<open>L1Cache\<close>, \<open>L1Line\<close>, \<open>L1Coherence\<close>, \<open>L1Invariant\<close>, \<open>L1Trace\<close>: the first-level cache of
      \<open>src/tribe_cpu/cache/l1\<close>, its lines as images of a memory, and the invariant of its banks, its
      selected line and its request stages under stores, line invalidations and full invalidations: a
      valid response is the word of the memory, and an undisturbed request is answered in time. The
      backing memory and the CPU are the environment, described by \<open>l1_env\<close>: the memory answers
      with its contents and changes only where the cache is told; stores come when the cache is not
      busy and with no read; reads with the cache disabled stay within a beat; and no flush comes
      during the clear walk. The code does not exclude that flush, and with it the cache answers with
      an old word, which \<open>L1Trace\<close> shows on a run.

  Bounds. Loops of the source that run over a value are structural recursions or functions with a
  termination proof, so that no fuel is needed; \<open>optimize\<close> keeps the bound of 100 passes of the
  source, and exceeding it is the error the source throws. Reads out of range, which C++ leaves
  undefined, are errors of their own.

  Not modelled. The converters \<open>src/cpphdl.cpp\<close> and \<open>src/hdlcpp\<close> work on the syntax trees of Clang and
  of an external SystemVerilog front end, which are not in the repository, and produce text. Ports,
  traces, checkpoints and formatting are input and output or callbacks. The generation of C++ text
  by the native backend, its threads and its profiling are left out; the word expression it emits for
  a node is modelled.
\<close>

end
